(* ===== verification/Klee_Prelude.thy ===== *)
theory Klee_Prelude
  imports Main "HOL-Library.Word" "HOL-Library.Monad_Syntax" "HOL-Library.Signed_Division"
begin

text \<open>
  What the component theories share: the collections of simplification rules the components
  add to, the type names of the model, and generic facts on fixed-width values written as
  integers (\<open>take_bit w\<close> is the reduction modulo \<open>2 ^ w\<close>), on options and on lists.
\<close>

unbundle bit_operations_syntax

named_theorems cexpr_simps \<open>constant operations on explicit constants\<close>
named_theorems sem_simps \<open>evaluation of the expressions the constructors build\<close>
named_theorems create_simps \<open>unfolding of the canonicalising constructors\<close>

type_synonym width = nat

subsection \<open>Fixed-width values as integers\<close>

text \<open>\<open>in_width w v\<close>: the integer \<open>v\<close> is a value of \<open>w\<close> bits.\<close>

definition in_width :: "nat \<Rightarrow> int \<Rightarrow> bool" where
  "in_width w v \<longleftrightarrow> 0 \<le> v \<and> v < 2 ^ w"

text \<open>The two's complement reading of a \<open>w\<close>-bit value.\<close>

definition sval :: "nat \<Rightarrow> int \<Rightarrow> int" where
  "sval w v = signed_take_bit (w - 1) v"

lemma in_width_take_bit [simp, intro]: "in_width w (take_bit w v)"
  by (simp add: in_width_def)

lemma in_width_iff_take_bit: "in_width w v \<longleftrightarrow> take_bit w v = v"
  by (auto simp: in_width_def take_bit_int_eq_self_iff)

lemma take_bit_in_width [simp]: "in_width w v \<Longrightarrow> take_bit w v = v"
  by (simp add: in_width_iff_take_bit)

lemma in_width_take_bit_le: "in_width n (take_bit w v)" if "w \<le> n"
proof -
  have "take_bit w v < 2 ^ w" by simp
  also have "(2 :: int) ^ w \<le> 2 ^ n" using that by (simp add: power_increasing)
  finally show ?thesis by (simp add: in_width_def)
qed

lemma in_width_mono: "in_width w v \<Longrightarrow> w \<le> n \<Longrightarrow> in_width n v"
  using in_width_take_bit_le [of w n v] by simp

lemma in_width_nonneg: "in_width w v \<Longrightarrow> 0 \<le> v"
  by (simp add: in_width_def)

lemma in_width_0 [simp, intro]: "in_width w 0"
  by (simp add: in_width_def)

lemma in_width_of_bool [simp, intro]: "in_width (Suc 0) (of_bool b)"
  by (simp add: in_width_def)

lemma in_width_1_cases: "in_width (Suc 0) v \<Longrightarrow> v = 0 \<or> v = 1"
  by (auto simp: in_width_def)

lemma in_width_bitops [intro]:
  assumes "in_width w a" and "in_width w b"
  shows "in_width w (a AND b)" and "in_width w (a OR b)" and "in_width w (a XOR b)"
proof -
  have "take_bit w a = a" and "take_bit w b = b" using assms by simp_all
  then show "in_width w (a AND b)" and "in_width w (a OR b)" and "in_width w (a XOR b)"
    by (simp_all add: in_width_iff_take_bit)
qed

lemma mask_eq_max: "(mask w :: int) = 2 ^ w - 1"
  by (simp add: mask_eq_exp_minus_1)

lemma and_mask_in_width: "in_width w a \<Longrightarrow> a AND mask w = a"
  by (simp flip: take_bit_eq_mask)

lemma or_mask_in_width: "in_width w a \<Longrightarrow> a OR mask w = mask w"
  by (rule bit_eqI) (auto simp: bit_or_iff bit_mask_iff in_width_iff_take_bit bit_take_bit_iff
      dest: arg_cong [where f = "\<lambda>x. bit x _"])

lemma sval_take_bit [simp]: "0 < w \<Longrightarrow> sval w (take_bit w v) = sval w v"
  unfolding sval_def by (cases w) (simp_all add: signed_take_bit_take_bit)

lemma take_bit_sval [simp]: "0 < w \<Longrightarrow> take_bit w (sval w v) = take_bit w v"
  unfolding sval_def by (simp add: take_bit_signed_take_bit)

lemma sval_inj:
  assumes "0 < w" and "in_width w a" and "in_width w b"
  shows "sval w a = sval w b \<longleftrightarrow> a = b"
proof
  assume "sval w a = sval w b"
  then have "take_bit w (sval w a) = take_bit w (sval w b)" by simp
  with assms show "a = b" by simp
qed simp

lemma sval_bounds: "0 < w \<Longrightarrow> - (2 ^ (w - 1)) \<le> sval w v \<and> sval w v < 2 ^ (w - 1)"
  unfolding sval_def
  by simp

lemma sval_1 [simp]: "sval (Suc 0) v = - (v mod 2)"
  by (simp add: sval_def)

end
