(* ===== verification/Constant_Expr.thy ===== *)
theory Constant_Expr
  imports Klee_Prelude
begin

text \<open>
  \<open>ConstantExpr\<close> of \<^verbatim>\<open>klee/include/klee/Expr.h\<close> and its constant operations of
  \<^verbatim>\<open>klee/lib/Expr/Expr.cpp\<close>. A constant holds an \<open>APInt\<close>, an unsigned integer of a
  dynamic bit width; it is the pair of the width and the value, an \<open>int\<close> between 0 and
  \<open>2 ^ width\<close>, and every operation writes the wrap-around out with \<open>take_bit\<close>. The
  signed operations read the value as two's complement (\<open>sval\<close>) and the division
  operations truncate towards zero (\<open>sdiv\<close>, \<open>smod\<close>). A division by zero stops the
  program, so these operations return an option.
\<close>

subsection \<open>Constants\<close>

datatype apint = APInt (bitWidth: nat) (apval: int)

definition wf_apint :: "apint \<Rightarrow> bool" where
  "wf_apint c \<longleftrightarrow> 0 < bitWidth c \<and> in_width (bitWidth c) (apval c)"

definition ConstantExpr_alloc :: "int \<Rightarrow> nat \<Rightarrow> apint" where
  "ConstantExpr_alloc v w = APInt w (take_bit w v)"

definition ConstantExpr_isZero :: "apint \<Rightarrow> bool" where
  "ConstantExpr_isZero c \<longleftrightarrow> apval c = 0"

definition ConstantExpr_isOne :: "apint \<Rightarrow> bool" where
  "ConstantExpr_isOne c \<longleftrightarrow> min (apval c) (2 ^ 64 - 1) = 1"

definition ConstantExpr_isTrue :: "apint \<Rightarrow> bool" where
  "ConstantExpr_isTrue c \<longleftrightarrow> bitWidth c = 1 \<and> apval c \<noteq> 0"

definition ConstantExpr_isFalse :: "apint \<Rightarrow> bool" where
  "ConstantExpr_isFalse c \<longleftrightarrow> bitWidth c = 1 \<and> apval c = 0"

definition ConstantExpr_isAllOnes :: "apint \<Rightarrow> bool" where
  "ConstantExpr_isAllOnes c \<longleftrightarrow> apval c = 2 ^ bitWidth c - 1"

subsection \<open>Constant operations\<close>

definition ConstantExpr_Concat :: "apint \<Rightarrow> apint \<Rightarrow> apint" where
  "ConstantExpr_Concat l r =
     (let w = bitWidth l + bitWidth r
      in APInt w (take_bit w (push_bit (bitWidth r) (apval l)) OR apval r))"

definition ConstantExpr_Extract :: "apint \<Rightarrow> nat \<Rightarrow> nat \<Rightarrow> apint" where
  "ConstantExpr_Extract c off w =
     (let shifted = take_bit (bitWidth c) (drop_bit off (sval (bitWidth c) (apval c)))
      in APInt w (take_bit w shifted))"

definition ConstantExpr_ZExt :: "apint \<Rightarrow> nat \<Rightarrow> apint" where
  "ConstantExpr_ZExt c w = APInt w (take_bit w (apval c))"

definition ConstantExpr_SExt :: "apint \<Rightarrow> nat \<Rightarrow> apint" where
  "ConstantExpr_SExt c w = APInt w (take_bit w (sval (bitWidth c) (apval c)))"

definition ConstantExpr_Add :: "apint \<Rightarrow> apint \<Rightarrow> apint" where
  "ConstantExpr_Add l r = APInt (bitWidth l) (take_bit (bitWidth l) (apval l + apval r))"

definition ConstantExpr_Neg :: "apint \<Rightarrow> apint" where
  "ConstantExpr_Neg c = APInt (bitWidth c) (take_bit (bitWidth c) (- apval c))"

definition ConstantExpr_Sub :: "apint \<Rightarrow> apint \<Rightarrow> apint" where
  "ConstantExpr_Sub l r = APInt (bitWidth l) (take_bit (bitWidth l) (apval l - apval r))"

definition ConstantExpr_Mul :: "apint \<Rightarrow> apint \<Rightarrow> apint" where
  "ConstantExpr_Mul l r = APInt (bitWidth l) (take_bit (bitWidth l) (apval l * apval r))"

definition ConstantExpr_UDiv :: "apint \<Rightarrow> apint \<Rightarrow> apint option" where
  "ConstantExpr_UDiv l r =
     (if apval r = 0 then None else Some (APInt (bitWidth l) (apval l div apval r)))"

definition ConstantExpr_SDiv :: "apint \<Rightarrow> apint \<Rightarrow> apint option" where
  "ConstantExpr_SDiv l r =
     (if apval r = 0 then None
      else Some (APInt (bitWidth l) (take_bit (bitWidth l)
             (sval (bitWidth l) (apval l) sdiv sval (bitWidth r) (apval r)))))"

definition ConstantExpr_URem :: "apint \<Rightarrow> apint \<Rightarrow> apint option" where
  "ConstantExpr_URem l r =
     (if apval r = 0 then None else Some (APInt (bitWidth l) (apval l mod apval r)))"

definition ConstantExpr_SRem :: "apint \<Rightarrow> apint \<Rightarrow> apint option" where
  "ConstantExpr_SRem l r =
     (if apval r = 0 then None
      else Some (APInt (bitWidth l) (take_bit (bitWidth l)
             (sval (bitWidth l) (apval l) smod sval (bitWidth r) (apval r)))))"

definition ConstantExpr_And :: "apint \<Rightarrow> apint \<Rightarrow> apint" where
  "ConstantExpr_And l r = APInt (bitWidth l) (apval l AND apval r)"

definition ConstantExpr_Or :: "apint \<Rightarrow> apint \<Rightarrow> apint" where
  "ConstantExpr_Or l r = APInt (bitWidth l) (apval l OR apval r)"

definition ConstantExpr_Xor :: "apint \<Rightarrow> apint \<Rightarrow> apint" where
  "ConstantExpr_Xor l r = APInt (bitWidth l) (apval l XOR apval r)"

text \<open>A shift amount is limited to the bit width before the shift.\<close>

definition shift_amount :: "apint \<Rightarrow> apint \<Rightarrow> nat" where
  "shift_amount l r = (if apval r < int (bitWidth l) then nat (apval r) else bitWidth l)"

definition ConstantExpr_Shl :: "apint \<Rightarrow> apint \<Rightarrow> apint" where
  "ConstantExpr_Shl l r =
     APInt (bitWidth l) (take_bit (bitWidth l) (push_bit (shift_amount l r) (apval l)))"

definition ConstantExpr_LShr :: "apint \<Rightarrow> apint \<Rightarrow> apint" where
  "ConstantExpr_LShr l r = APInt (bitWidth l) (drop_bit (shift_amount l r) (apval l))"

definition ConstantExpr_AShr :: "apint \<Rightarrow> apint \<Rightarrow> apint" where
  "ConstantExpr_AShr l r =
     APInt (bitWidth l) (take_bit (bitWidth l)
       (drop_bit (shift_amount l r) (sval (bitWidth l) (apval l))))"

definition ConstantExpr_Not :: "apint \<Rightarrow> apint" where
  "ConstantExpr_Not c = APInt (bitWidth c) (take_bit (bitWidth c) (NOT (apval c)))"

definition ConstantExpr_Eq :: "apint \<Rightarrow> apint \<Rightarrow> apint" where
  "ConstantExpr_Eq l r = ConstantExpr_alloc (of_bool (apval l = apval r)) 1"

definition ConstantExpr_Ne :: "apint \<Rightarrow> apint \<Rightarrow> apint" where
  "ConstantExpr_Ne l r = ConstantExpr_alloc (of_bool (apval l \<noteq> apval r)) 1"

definition ConstantExpr_Ult :: "apint \<Rightarrow> apint \<Rightarrow> apint" where
  "ConstantExpr_Ult l r = ConstantExpr_alloc (of_bool (apval l < apval r)) 1"

definition ConstantExpr_Ule :: "apint \<Rightarrow> apint \<Rightarrow> apint" where
  "ConstantExpr_Ule l r = ConstantExpr_alloc (of_bool (apval l \<le> apval r)) 1"

definition ConstantExpr_Ugt :: "apint \<Rightarrow> apint \<Rightarrow> apint" where
  "ConstantExpr_Ugt l r = ConstantExpr_alloc (of_bool (apval l > apval r)) 1"

definition ConstantExpr_Uge :: "apint \<Rightarrow> apint \<Rightarrow> apint" where
  "ConstantExpr_Uge l r = ConstantExpr_alloc (of_bool (apval l \<ge> apval r)) 1"

definition ap_sval :: "apint \<Rightarrow> int" where
  "ap_sval c = sval (bitWidth c) (apval c)"

definition ConstantExpr_Slt :: "apint \<Rightarrow> apint \<Rightarrow> apint" where
  "ConstantExpr_Slt l r = ConstantExpr_alloc (of_bool (ap_sval l < ap_sval r)) 1"

definition ConstantExpr_Sle :: "apint \<Rightarrow> apint \<Rightarrow> apint" where
  "ConstantExpr_Sle l r = ConstantExpr_alloc (of_bool (ap_sval l \<le> ap_sval r)) 1"

definition ConstantExpr_Sgt :: "apint \<Rightarrow> apint \<Rightarrow> apint" where
  "ConstantExpr_Sgt l r = ConstantExpr_alloc (of_bool (ap_sval l > ap_sval r)) 1"

definition ConstantExpr_Sge :: "apint \<Rightarrow> apint \<Rightarrow> apint" where
  "ConstantExpr_Sge l r = ConstantExpr_alloc (of_bool (ap_sval l \<ge> ap_sval r)) 1"

end
