(* ===== verification/Expr_Data.thy ===== *)
theory Expr_Data
  imports Constant_Expr
begin

text \<open>
  The expression classes of \<^verbatim>\<open>klee/include/klee/Expr.h\<close>: arrays, update lists and the
  expression datatype, their widths and kids, the well-formedness the class comments and
  assertions ask for, and the meaning of an expression under an assignment of the initial
  array contents. The classes generated by the two macros for binary operators differ in
  their kind only, so \<open>BinaryExpr\<close> carries it.
\<close>

subsection \<open>Data\<close>

record array =
  arrId :: nat
  arrName :: string
  UFE :: nat
  UFE_Cheat :: nat
  arrSize :: nat
  arrDomain :: nat
  arrRange :: nat
  constantValues :: "apint list"

datatype bkind =
    Add | Sub | Mul | UDiv | SDiv | URem | SRem
  | And | Or | Xor | Shl | LShr | AShr
  | Eq | Ne | Ult | Ule | Ugt | Uge | Slt | Sle | Sgt | Sge

datatype expr =
    ConstantExpr apint
  | NotOptimizedExpr expr
  | ReadExpr array ulist expr
  | SelectExpr expr expr expr
  | ConcatExpr expr expr
  | ExtractExpr expr nat nat
  | ZExtExpr expr nat
  | SExtExpr expr nat
  | NotExpr expr
  | BinaryExpr bkind expr expr
and ulist =
    NoUpdates
  | UpdateNode (unext: ulist) (uindex: expr) (uvalue: expr)

definition isCmp :: "bkind \<Rightarrow> bool" where
  "isCmp k \<longleftrightarrow> k \<in> {Eq, Ne, Ult, Ule, Ugt, Uge, Slt, Sle, Sgt, Sge}"

definition isSymbolicArray :: "array \<Rightarrow> bool" where
  "isSymbolicArray a \<longleftrightarrow> constantValues a = []"

definition isConstantArray :: "array \<Rightarrow> bool" where
  "isConstantArray a \<longleftrightarrow> \<not> isSymbolicArray a"

fun isConstantExpr :: "expr \<Rightarrow> bool" where
  "isConstantExpr (ConstantExpr _) = True"
| "isConstantExpr _ = False"

fun getWidth :: "expr \<Rightarrow> nat" where
  "getWidth (ConstantExpr c) = bitWidth c"
| "getWidth (NotOptimizedExpr e) = getWidth e"
| "getWidth (ReadExpr a us i) = arrRange a"
| "getWidth (SelectExpr c t f) = getWidth t"
| "getWidth (ConcatExpr l r) = getWidth l + getWidth r"
| "getWidth (ExtractExpr e off w) = w"
| "getWidth (ZExtExpr e w) = w"
| "getWidth (SExtExpr e w) = w"
| "getWidth (NotExpr e) = getWidth e"
| "getWidth (BinaryExpr k l r) = (if isCmp k then 1 else getWidth l)"

text \<open>The kids, in the order of \<open>getKid\<close>.\<close>

fun kids :: "expr \<Rightarrow> expr list" where
  "kids (ConstantExpr _) = []"
| "kids (NotOptimizedExpr e) = [e]"
| "kids (ReadExpr _ _ i) = [i]"
| "kids (SelectExpr c t f) = [c, t, f]"
| "kids (ConcatExpr l r) = [l, r]"
| "kids (ExtractExpr e _ _) = [e]"
| "kids (ZExtExpr e _) = [e]"
| "kids (SExtExpr e _) = [e]"
| "kids (NotExpr e) = [e]"
| "kids (BinaryExpr _ l r) = [l, r]"

fun usize :: "ulist \<Rightarrow> nat" where
  "usize NoUpdates = 0"
| "usize (UpdateNode n _ _) = 1 + usize n"

text \<open>\<open>UpdateList::extend\<close>, with its two assertions.\<close>

definition UpdateList_extend :: "array \<Rightarrow> ulist \<Rightarrow> expr \<Rightarrow> expr \<Rightarrow> ulist option" where
  "UpdateList_extend root us i v =
     (if arrDomain root = getWidth i \<and> arrRange root = getWidth v
      then Some (UpdateNode us i v) else None)"

text \<open>The constructor's assertions on an array.\<close>

definition wf_array :: "array \<Rightarrow> bool" where
  "wf_array a \<longleftrightarrow>
     0 < arrDomain a \<and> arrDomain a \<le> 64 \<and> 0 < arrRange a \<and>
     (isSymbolicArray a \<or> length (constantValues a) = arrSize a) \<and>
     list_all (\<lambda>c. wf_apint c \<and> bitWidth c = arrRange a) (constantValues a)"

subsection \<open>Well-formed expressions\<close>

primrec wf_expr :: "expr \<Rightarrow> bool" and wf_ulist :: "ulist \<Rightarrow> array \<Rightarrow> bool" where
  "wf_expr (ConstantExpr c) \<longleftrightarrow> wf_apint c"
| "wf_expr (NotOptimizedExpr e) \<longleftrightarrow> wf_expr e"
| "wf_expr (ReadExpr a us i) \<longleftrightarrow>
     wf_array a \<and> wf_ulist us a \<and> wf_expr i \<and> getWidth i = arrDomain a"
| "wf_expr (SelectExpr c t f) \<longleftrightarrow>
     wf_expr c \<and> wf_expr t \<and> wf_expr f \<and> getWidth c = 1 \<and> getWidth t = getWidth f"
| "wf_expr (ConcatExpr l r) \<longleftrightarrow> wf_expr l \<and> wf_expr r"
| "wf_expr (ExtractExpr e off w) \<longleftrightarrow> wf_expr e \<and> 0 < w \<and> off + w \<le> getWidth e"
| "wf_expr (ZExtExpr e w) \<longleftrightarrow> wf_expr e \<and> 0 < w \<and> getWidth e \<le> w"
| "wf_expr (SExtExpr e w) \<longleftrightarrow> wf_expr e \<and> 0 < w \<and> getWidth e \<le> w"
| "wf_expr (NotExpr e) \<longleftrightarrow> wf_expr e"
| "wf_expr (BinaryExpr k l r) \<longleftrightarrow> wf_expr l \<and> wf_expr r \<and> getWidth l = getWidth r"
| "wf_ulist NoUpdates a \<longleftrightarrow> True"
| "wf_ulist (UpdateNode n i v) a \<longleftrightarrow>
     wf_ulist n a \<and> wf_expr i \<and> wf_expr v \<and> getWidth i = arrDomain a \<and> getWidth v = arrRange a"

subsection \<open>Meaning\<close>

type_synonym env = "array \<Rightarrow> nat \<Rightarrow> int"

definition env_ok :: "env \<Rightarrow> bool" where
  "env_ok \<sigma> \<longleftrightarrow> (\<forall>a i. in_width (arrRange a) (\<sigma> a i))"

text \<open>The meaning of a binary operator on two values of \<open>w\<close> bits.\<close>

fun sem_bin :: "bkind \<Rightarrow> nat \<Rightarrow> int \<Rightarrow> int \<Rightarrow> int" where
  "sem_bin Add w a b = take_bit w (a + b)"
| "sem_bin Sub w a b = take_bit w (a - b)"
| "sem_bin Mul w a b = take_bit w (a * b)"
| "sem_bin UDiv w a b = a div b"
| "sem_bin SDiv w a b = take_bit w (sval w a sdiv sval w b)"
| "sem_bin URem w a b = a mod b"
| "sem_bin SRem w a b = take_bit w (sval w a smod sval w b)"
| "sem_bin And w a b = a AND b"
| "sem_bin Or w a b = a OR b"
| "sem_bin Xor w a b = a XOR b"
| "sem_bin Shl w a b = (if b < int w then take_bit w (a * 2 ^ nat b) else 0)"
| "sem_bin LShr w a b = (if b < int w then a div 2 ^ nat b else 0)"
| "sem_bin AShr w a b =
     take_bit w (if b < int w then sval w a div 2 ^ nat b else if sval w a < 0 then -1 else 0)"
| "sem_bin Eq w a b = of_bool (a = b)"
| "sem_bin Ne w a b = of_bool (a \<noteq> b)"
| "sem_bin Ult w a b = of_bool (a < b)"
| "sem_bin Ule w a b = of_bool (a \<le> b)"
| "sem_bin Ugt w a b = of_bool (a > b)"
| "sem_bin Uge w a b = of_bool (a \<ge> b)"
| "sem_bin Slt w a b = of_bool (sval w a < sval w b)"
| "sem_bin Sle w a b = of_bool (sval w a \<le> sval w b)"
| "sem_bin Sgt w a b = of_bool (sval w a > sval w b)"
| "sem_bin Sge w a b = of_bool (sval w a \<ge> sval w b)"

text \<open>The initial content of an array: its constant values, or the assignment's.\<close>

definition initial :: "env \<Rightarrow> array \<Rightarrow> int \<Rightarrow> int" where
  "initial \<sigma> a ix =
     (if isConstantArray a \<and> ix < int (arrSize a) then apval (constantValues a ! nat ix)
      else \<sigma> a (nat ix))"

primrec eval :: "expr \<Rightarrow> env \<Rightarrow> int" and ulookup :: "ulist \<Rightarrow> env \<Rightarrow> int \<Rightarrow> int option" where
  "eval (ConstantExpr c) \<sigma> = apval c"
| "eval (NotOptimizedExpr e) \<sigma> = eval e \<sigma>"
| "eval (ReadExpr a us i) \<sigma> =
     (case ulookup us \<sigma> (eval i \<sigma>) of Some v \<Rightarrow> v | None \<Rightarrow> initial \<sigma> a (eval i \<sigma>))"
| "eval (SelectExpr c t f) \<sigma> = (if eval c \<sigma> \<noteq> 0 then eval t \<sigma> else eval f \<sigma>)"
| "eval (ConcatExpr l r) \<sigma> = eval l \<sigma> * 2 ^ getWidth r + eval r \<sigma>"
| "eval (ExtractExpr e off w) \<sigma> = take_bit w (eval e \<sigma> div 2 ^ off)"
| "eval (ZExtExpr e w) \<sigma> = eval e \<sigma>"
| "eval (SExtExpr e w) \<sigma> = take_bit w (sval (getWidth e) (eval e \<sigma>))"
| "eval (NotExpr e) \<sigma> = 2 ^ getWidth e - 1 - eval e \<sigma>"
| "eval (BinaryExpr k l r) \<sigma> = sem_bin k (getWidth l) (eval l \<sigma>) (eval r \<sigma>)"
| "ulookup NoUpdates \<sigma> ix = None"
| "ulookup (UpdateNode n i v) \<sigma> ix =
     (if eval i \<sigma> = ix then Some (eval v \<sigma>) else ulookup n \<sigma> ix)"

text \<open>The operator method a constant's kind selects (\<open>cl->_op(cr)\<close> of the macros).\<close>

fun ConstantExpr_op :: "bkind \<Rightarrow> apint \<Rightarrow> apint \<Rightarrow> apint option" where
  "ConstantExpr_op Add l r = Some (ConstantExpr_Add l r)"
| "ConstantExpr_op Sub l r = Some (ConstantExpr_Sub l r)"
| "ConstantExpr_op Mul l r = Some (ConstantExpr_Mul l r)"
| "ConstantExpr_op UDiv l r = ConstantExpr_UDiv l r"
| "ConstantExpr_op SDiv l r = ConstantExpr_SDiv l r"
| "ConstantExpr_op URem l r = ConstantExpr_URem l r"
| "ConstantExpr_op SRem l r = ConstantExpr_SRem l r"
| "ConstantExpr_op And l r = Some (ConstantExpr_And l r)"
| "ConstantExpr_op Or l r = Some (ConstantExpr_Or l r)"
| "ConstantExpr_op Xor l r = Some (ConstantExpr_Xor l r)"
| "ConstantExpr_op Shl l r = Some (ConstantExpr_Shl l r)"
| "ConstantExpr_op LShr l r = Some (ConstantExpr_LShr l r)"
| "ConstantExpr_op AShr l r = Some (ConstantExpr_AShr l r)"
| "ConstantExpr_op Eq l r = Some (ConstantExpr_Eq l r)"
| "ConstantExpr_op Ne l r = Some (ConstantExpr_Ne l r)"
| "ConstantExpr_op Ult l r = Some (ConstantExpr_Ult l r)"
| "ConstantExpr_op Ule l r = Some (ConstantExpr_Ule l r)"
| "ConstantExpr_op Ugt l r = Some (ConstantExpr_Ugt l r)"
| "ConstantExpr_op Uge l r = Some (ConstantExpr_Uge l r)"
| "ConstantExpr_op Slt l r = Some (ConstantExpr_Slt l r)"
| "ConstantExpr_op Sle l r = Some (ConstantExpr_Sle l r)"
| "ConstantExpr_op Sgt l r = Some (ConstantExpr_Sgt l r)"
| "ConstantExpr_op Sge l r = Some (ConstantExpr_Sge l r)"

definition isDivision :: "bkind \<Rightarrow> bool" where
  "isDivision k \<longleftrightarrow> k \<in> {UDiv, SDiv, URem, SRem}"

subsection \<open>Operators on values\<close>

lemma sem_bin_in_width:
  assumes "0 < w" and "in_width w a" and "in_width w b"
  shows "in_width (if isCmp k then 1 else w) (sem_bin k w a b)"
proof -
  have nonneg: "0 \<le> a" "0 \<le> b" using assms by (auto simp: in_width_def)
  have div_le: "in_width w (a div c)" if "0 \<le> c" for c
  proof -
    have "a div c \<le> a"
      using nonneg that zdiv_mono2 [of a 1 c] by (cases "c = 0") auto
    moreover have "0 \<le> a div c" using nonneg that by (simp add: div_int_pos_iff)
    ultimately show ?thesis using assms(2) by (auto simp: in_width_def)
  qed
  have "in_width w (a mod b)"
  proof (cases "b = 0")
    case True
    then show ?thesis using assms by simp
  next
    case False
    then have "0 \<le> a mod b" and "a mod b < b" using nonneg by auto
    then show ?thesis using assms(3) by (auto simp: in_width_def)
  qed
  moreover have "in_width w (a div 2 ^ n)" for n
    by (rule div_le) simp
  ultimately show ?thesis
    using assms div_le [of b] nonneg
    by (cases k) (auto simp: isCmp_def intro!: in_width_bitops)
qed

text \<open>Bit-level forms used by the constant operations against the arithmetic forms above.\<close>

lemma push_or_eq_add:
  assumes "in_width n b"
  shows "push_bit n a OR b = a * 2 ^ n + b"
proof -
  have "concat_bit n b a = b + push_bit n a"
    using assms by (simp add: concat_bit_eq)
  then show ?thesis
    using assms by (simp add: concat_bit_def push_bit_eq_mult ac_simps or.commute)
qed

lemma take_bit_mult_exp_in_width:
  assumes "in_width m a"
  shows "take_bit (m + n) (a * 2 ^ n) = a * 2 ^ n"
proof -
  have "a * 2 ^ n < 2 ^ m * 2 ^ n"
    using assms by (intro mult_strict_right_mono) (auto simp: in_width_def)
  moreover have "0 \<le> a * 2 ^ n" using assms by (simp add: in_width_def)
  ultimately show ?thesis
    by (simp add: take_bit_int_eq_self_iff power_add)
qed

lemma concat_in_width:
  assumes "in_width m a" and "in_width n b"
  shows "in_width (m + n) (a * 2 ^ n + b)"
proof -
  have "a * 2 ^ n + b < (a + 1) * 2 ^ n"
    using assms(2) by (simp add: in_width_def algebra_simps)
  also have "\<dots> \<le> 2 ^ m * 2 ^ n"
    using assms(1) by (intro mult_right_mono) (auto simp: in_width_def)
  finally have "a * 2 ^ n + b < 2 ^ (m + n)" by (simp add: power_add)
  moreover have "0 \<le> a * 2 ^ n + b" using assms by (simp add: in_width_def)
  ultimately show ?thesis by (simp add: in_width_def)
qed

lemma take_bit_sval_le: "n \<le> w \<Longrightarrow> 0 < w \<Longrightarrow> take_bit n (sval w v) = take_bit n v"
proof -
  assume le: "n \<le> w" and pos: "0 < w"
  have "take_bit n (take_bit w (sval w v)) = take_bit n (take_bit w v)"
    using pos by simp
  with le show ?thesis by (simp add: take_bit_take_bit min_def)
qed

lemma extract_ashr:
  assumes "off + w \<le> W" and "0 < W"
  shows "take_bit w (take_bit W (drop_bit off (sval W v))) = take_bit w (v div 2 ^ off)"
proof -
  have "take_bit w (take_bit W (drop_bit off (sval W v))) = take_bit w (drop_bit off (sval W v))"
    using assms by (simp add: take_bit_take_bit min_def)
  also have "\<dots> = drop_bit off (take_bit (w + off) (sval W v))"
    by (simp add: take_bit_drop_bit)
  also have "\<dots> = drop_bit off (take_bit (w + off) v)"
    using assms by (simp add: take_bit_sval_le)
  also have "\<dots> = take_bit w (v div 2 ^ off)"
    by (simp add: take_bit_drop_bit flip: drop_bit_eq_div)
  finally show ?thesis .
qed

lemma ashr_full:
  assumes "0 < w"
  shows "drop_bit w (sval w v) = (if sval w v < 0 then -1 else 0)"
proof -
  have "sval w v < 2 ^ w" and "- (2 ^ w) \<le> sval w v"
    using sval_bounds [OF assms, of v] power_increasing [of "w - 1" w "2 :: int"] by linarith+
  then show ?thesis
    by (auto simp: drop_bit_eq_div intro!: int_div_pos_eq [where r = "sval w v + 2 ^ w"])
qed

lemma not_in_width:
  assumes "in_width w v"
  shows "take_bit w (NOT v) = 2 ^ w - 1 - v"
proof -
  have "take_bit w (NOT v) = take_bit w (2 ^ w - 1 - v)"
    by (simp add: not_eq_complement take_bit_eq_mod mod_simps algebra_simps)
       (metis add.commute diff_add_eq mod_add_self2 uminus_add_conv_diff)
  also have "\<dots> = 2 ^ w - 1 - v"
    using assms by (intro take_bit_in_width) (auto simp: in_width_def)
  finally show ?thesis .
qed

subsection \<open>The constant operations compute the operators\<close>

lemmas ConstantExpr_op_defs [cexpr_simps] =
  ConstantExpr_Add_def ConstantExpr_Sub_def ConstantExpr_Mul_def ConstantExpr_UDiv_def
  ConstantExpr_SDiv_def ConstantExpr_URem_def ConstantExpr_SRem_def ConstantExpr_And_def
  ConstantExpr_Or_def ConstantExpr_Xor_def ConstantExpr_Shl_def ConstantExpr_LShr_def
  ConstantExpr_AShr_def ConstantExpr_Eq_def ConstantExpr_Ne_def ConstantExpr_Ult_def
  ConstantExpr_Ule_def ConstantExpr_Ugt_def ConstantExpr_Uge_def ConstantExpr_Slt_def
  ConstantExpr_Sle_def ConstantExpr_Sgt_def ConstantExpr_Sge_def ConstantExpr_alloc_def
  ap_sval_def ConstantExpr_Not_def ConstantExpr_ZExt_def ConstantExpr_SExt_def
  ConstantExpr_Neg_def

lemma shift_constants:
  assumes "wf_apint l" and "wf_apint r"
  shows "ConstantExpr_Shl l r = APInt (bitWidth l) (sem_bin Shl (bitWidth l) (apval l) (apval r))"
    and "ConstantExpr_LShr l r = APInt (bitWidth l) (sem_bin LShr (bitWidth l) (apval l) (apval r))"
    and "ConstantExpr_AShr l r = APInt (bitWidth l) (sem_bin AShr (bitWidth l) (apval l) (apval r))"
proof -
  have l: "in_width (bitWidth l) (apval l)" "0 < bitWidth l" and "0 \<le> apval r"
    using assms by (auto simp: wf_apint_def in_width_def)
  moreover have "drop_bit (bitWidth l) (apval l) = 0"
    using l by (simp add: drop_bit_eq_div in_width_def)
  moreover have "take_bit (bitWidth l) (push_bit (bitWidth l) (apval l)) = 0"
    by (simp add: take_bit_push_bit)
  ultimately show
    "ConstantExpr_Shl l r = APInt (bitWidth l) (sem_bin Shl (bitWidth l) (apval l) (apval r))"
    "ConstantExpr_LShr l r = APInt (bitWidth l) (sem_bin LShr (bitWidth l) (apval l) (apval r))"
    "ConstantExpr_AShr l r = APInt (bitWidth l) (sem_bin AShr (bitWidth l) (apval l) (apval r))"
    by (simp_all add: cexpr_simps shift_amount_def push_bit_eq_mult ashr_full
        flip: drop_bit_eq_div)
qed

lemma ConstantExpr_op_value:
  assumes "wf_apint l" and "wf_apint r" and "bitWidth l = bitWidth r"
    and "isDivision k \<Longrightarrow> apval r \<noteq> 0"
  shows "ConstantExpr_op k l r =
    Some (APInt (if isCmp k then 1 else bitWidth l) (sem_bin k (bitWidth l) (apval l) (apval r)))"
proof -
  have cmp: "take_bit (Suc 0) (of_bool b) = (of_bool b :: int)" for b
    by (simp add: in_width_of_bool)
  show ?thesis
    using assms by (cases k) (simp_all add: shift_constants, simp_all add: cexpr_simps isCmp_def
        isDivision_def cmp)
qed

lemma ConstantExpr_op_sound:
  assumes "wf_apint l" and "wf_apint r" and "bitWidth l = bitWidth r"
    and "isDivision k \<Longrightarrow> apval r \<noteq> 0"
  shows "\<exists>c. ConstantExpr_op k l r = Some c \<and> wf_apint c \<and>
    bitWidth c = (if isCmp k then 1 else bitWidth l) \<and>
    apval c = sem_bin k (bitWidth l) (apval l) (apval r)"
proof -
  have "in_width (if isCmp k then 1 else bitWidth l) (sem_bin k (bitWidth l) (apval l) (apval r))"
    by (rule sem_bin_in_width) (use assms in \<open>auto simp: wf_apint_def\<close>)
  then show ?thesis
    using assms by (simp add: ConstantExpr_op_value wf_apint_def)
qed

subsection \<open>Well-formed expressions have values of their width\<close>

lemma isCmp_simps [simp]:
  "\<not> isCmp Add" "\<not> isCmp Sub" "\<not> isCmp Mul" "\<not> isCmp UDiv" "\<not> isCmp SDiv" "\<not> isCmp URem"
  "\<not> isCmp SRem" "\<not> isCmp And" "\<not> isCmp Or" "\<not> isCmp Xor" "\<not> isCmp Shl" "\<not> isCmp LShr"
  "\<not> isCmp AShr" "isCmp Eq" "isCmp Ne" "isCmp Ult" "isCmp Ule" "isCmp Ugt" "isCmp Uge"
  "isCmp Slt" "isCmp Sle" "isCmp Sgt" "isCmp Sge"
  by (simp_all add: isCmp_def)

lemma wf_width_pos: "wf_expr e \<Longrightarrow> 0 < getWidth e"
proof (induction e rule: getWidth.induct)
  case (1 c)
  then show ?case by (simp add: wf_apint_def)
next
  case (3 a us i)
  then show ?case by (simp add: wf_array_def)
qed auto

lemma initial_in_width:
  assumes "wf_array a" and "env_ok \<sigma>" and "0 \<le> ix"
  shows "in_width (arrRange a) (initial \<sigma> a ix)"
proof (cases "isConstantArray a \<and> ix < int (arrSize a)")
  case True
  with assms have "nat ix < length (constantValues a)"
    by (auto simp: wf_array_def isConstantArray_def)
  with assms(1) have "wf_apint (constantValues a ! nat ix)"
    and "bitWidth (constantValues a ! nat ix) = arrRange a"
    by (simp_all add: wf_array_def list_all_length)
  with True show ?thesis by (auto simp: initial_def wf_apint_def)
next
  case False
  with assms(2) show ?thesis by (auto simp: initial_def env_ok_def)
qed

lemma eval_in_width_aux:
  assumes ok: "env_ok \<sigma>"
  shows "wf_expr e \<Longrightarrow> in_width (getWidth e) (eval e \<sigma>)"
    and "wf_ulist us a \<Longrightarrow> ulookup us \<sigma> ix = Some v \<Longrightarrow> in_width (arrRange a) v"
proof (induction e and us arbitrary: and a ix v rule: expr.induct ulist.induct)
  case (ReadExpr a us i)
  have "0 \<le> eval i \<sigma>" using ReadExpr by (auto dest: in_width_nonneg)
  then show ?case
    using ReadExpr initial_in_width [OF _ ok] by (auto split: option.split)
next
  case (ConcatExpr l r)
  then show ?case by (auto intro: concat_in_width)
next
  case (ZExtExpr e w)
  then show ?case by (auto intro: in_width_mono)
next
  case (NotExpr e)
  then show ?case by (auto simp: in_width_def)
next
  case (BinaryExpr k l r)
  then have "in_width (if isCmp k then 1 else getWidth l)
      (sem_bin k (getWidth l) (eval l \<sigma>) (eval r \<sigma>))"
    by (intro sem_bin_in_width) (auto dest: wf_width_pos)
  then show ?case by simp
qed (auto simp: wf_apint_def split: if_splits)

lemmas eval_in_width = eval_in_width_aux(1)

text \<open>Ready-made consequences for the constructors' proofs.\<close>

lemma eval_take_bit [simp]:
  "env_ok \<sigma> \<Longrightarrow> wf_expr e \<Longrightarrow> take_bit (getWidth e) (eval e \<sigma>) = eval e \<sigma>"
  by (simp add: eval_in_width)

lemma eval_bool_cases:
  "env_ok \<sigma> \<Longrightarrow> wf_expr e \<Longrightarrow> getWidth e = Suc 0 \<Longrightarrow> eval e \<sigma> = 0 \<or> eval e \<sigma> = 1"
  using eval_in_width [of \<sigma> e] by (auto dest: in_width_1_cases)

end
