(* ===== verification/Expr_Spec.thy ===== *)
theory Expr_Spec
  imports Expr_Data
begin

text \<open>
  The contract of an expression constructor: it returns (no assertion fails), the result is
  well formed, has the stated width and evaluates to the stated function of the
  assignment. The locale \<open>sound_binary\<close> is that contract for a binary constructor, with
  the composition rule its callers use.
\<close>

subsection \<open>The contract\<close>

definition builds_if :: "(env \<Rightarrow> bool) \<Rightarrow> expr option \<Rightarrow> nat \<Rightarrow> (env \<Rightarrow> int) \<Rightarrow> bool" where
  "builds_if P res w f \<longleftrightarrow>
     (\<exists>e. res = Some e \<and> wf_expr e \<and> getWidth e = w \<and>
          (\<forall>\<sigma>. env_ok \<sigma> \<and> P \<sigma> \<longrightarrow> eval e \<sigma> = f \<sigma>))"

abbreviation builds :: "expr option \<Rightarrow> nat \<Rightarrow> (env \<Rightarrow> int) \<Rightarrow> bool" where
  "builds \<equiv> builds_if (\<lambda>_. True)"

lemma builds_ifI:
  assumes "wf_expr e" and "getWidth e = w" and "\<And>\<sigma>. env_ok \<sigma> \<Longrightarrow> P \<sigma> \<Longrightarrow> eval e \<sigma> = f \<sigma>"
  shows "builds_if P (Some e) w f"
  using assms by (auto simp: builds_if_def)

lemma builds_Some_iff:
  "builds_if P (Some e) w f \<longleftrightarrow>
     wf_expr e \<and> getWidth e = w \<and> (\<forall>\<sigma>. env_ok \<sigma> \<and> P \<sigma> \<longrightarrow> eval e \<sigma> = f \<sigma>)"
  by (auto simp: builds_if_def)

lemma builds_ifE:
  assumes "builds_if P res w f"
  obtains e where "res = Some e" and "wf_expr e" and "getWidth e = w"
    and "\<And>\<sigma>. env_ok \<sigma> \<Longrightarrow> P \<sigma> \<Longrightarrow> eval e \<sigma> = f \<sigma>"
  using assms by (auto simp: builds_if_def)

lemma builds_if_cong:
  assumes "builds_if P res w f" and "w = w'" and "\<And>\<sigma>. env_ok \<sigma> \<Longrightarrow> P' \<sigma> \<Longrightarrow> P \<sigma> \<and> f \<sigma> = g \<sigma>"
  shows "builds_if P' res w' g"
  using assms by (fastforce simp: builds_if_def)

lemma builds_bind:
  assumes "builds_if P a w f"
    and "\<And>e. wf_expr e \<Longrightarrow> getWidth e = w \<Longrightarrow>
      (\<And>\<sigma>. env_ok \<sigma> \<Longrightarrow> P \<sigma> \<Longrightarrow> eval e \<sigma> = f \<sigma>) \<Longrightarrow> builds_if P (g e) w' h"
  shows "builds_if P (Option.bind a g) w' h"
  using assms(1) by (rule builds_ifE) (simp add: assms(2))

text \<open>Evaluation of the two sides of a binary constructor.\<close>

abbreviation bin_width :: "bkind \<Rightarrow> nat \<Rightarrow> nat" where
  "bin_width k w \<equiv> (if isCmp k then 1 else w)"

abbreviation bin_val :: "bkind \<Rightarrow> expr \<Rightarrow> expr \<Rightarrow> env \<Rightarrow> int" where
  "bin_val k l r \<equiv> (\<lambda>\<sigma>. sem_bin k (getWidth l) (eval l \<sigma>) (eval r \<sigma>))"

lemma builds_alloc:
  "wf_expr l \<Longrightarrow> wf_expr r \<Longrightarrow> getWidth l = getWidth r \<Longrightarrow>
     builds_if P (Some (BinaryExpr k l r)) (bin_width k (getWidth l)) (bin_val k l r)"
  by (rule builds_ifI) auto

lemma wf_alloc_const [simp]: "0 < w \<Longrightarrow> wf_apint (ConstantExpr_alloc v w)"
  by (simp add: wf_apint_def ConstantExpr_alloc_def)

lemma alloc_const_sel [simp]:
  "bitWidth (ConstantExpr_alloc v w) = w" "apval (ConstantExpr_alloc v w) = take_bit w v"
  by (simp_all add: ConstantExpr_alloc_def)

subsection \<open>Interface of the binary constructors\<close>

locale sound_binary =
  fixes mk :: "expr \<Rightarrow> expr \<Rightarrow> expr option"
    and k :: bkind
  assumes mk_builds:
    "wf_expr l \<Longrightarrow> wf_expr r \<Longrightarrow> getWidth l = getWidth r \<Longrightarrow>
       builds (mk l r) (bin_width k (getWidth l)) (bin_val k l r)"
begin

lemma composed:
  assumes "builds_if P a w f" and "builds_if P b w g"
  shows "builds_if P (do { x \<leftarrow> a; y \<leftarrow> b; mk x y }) (bin_width k w) (\<lambda>\<sigma>. sem_bin k w (f \<sigma>) (g \<sigma>))"
proof (rule builds_bind [OF assms(1)])
  fix x
  assume x: "wf_expr x" "getWidth x = w" "\<And>\<sigma>. env_ok \<sigma> \<Longrightarrow> P \<sigma> \<Longrightarrow> eval x \<sigma> = f \<sigma>"
  show "builds_if P (do { y \<leftarrow> b; mk x y }) (bin_width k w) (\<lambda>\<sigma>. sem_bin k w (f \<sigma>) (g \<sigma>))"
  proof (rule builds_bind [OF assms(2)])
    fix y
    assume y: "wf_expr y" "getWidth y = w" "\<And>\<sigma>. env_ok \<sigma> \<Longrightarrow> P \<sigma> \<Longrightarrow> eval y \<sigma> = g \<sigma>"
    from x y have "builds (mk x y) (bin_width k (getWidth x)) (bin_val k x y)"
      by (intro mk_builds) auto
    then show "builds_if P (mk x y) (bin_width k w) (\<lambda>\<sigma>. sem_bin k w (f \<sigma>) (g \<sigma>))"
      by (rule builds_if_cong) (use x y in auto)
  qed
qed

lemma returns:
  "wf_expr l \<Longrightarrow> wf_expr r \<Longrightarrow> getWidth l = getWidth r \<Longrightarrow>
     \<exists>e. mk l r = Some e \<and> wf_expr e \<and> getWidth e = bin_width k (getWidth l)"
  using mk_builds [of l r] by (auto simp: builds_if_def)

lemma left_composed:
  assumes "builds_if P a (getWidth r) f" and "wf_expr r"
  shows "builds_if P (do { x \<leftarrow> a; mk x r }) (bin_width k (getWidth r))
    (\<lambda>\<sigma>. sem_bin k (getWidth r) (f \<sigma>) (eval r \<sigma>))"
  using composed [OF assms(1), of "Some r" "eval r"] assms(2) by (simp add: builds_Some_iff)

lemma right_composed:
  assumes "wf_expr l" and "builds_if P b (getWidth l) g"
  shows "builds_if P (do { y \<leftarrow> b; mk l y }) (bin_width k (getWidth l))
    (\<lambda>\<sigma>. sem_bin k (getWidth l) (eval l \<sigma>) (g \<sigma>))"
  using composed [of P "Some l" "getWidth l" "eval l" b g] assms by (simp add: builds_Some_iff)

end

end
