(* ===== verification/Expr_Create.thy ===== *)
theory Expr_Create
  imports Expr_Spec
begin

text \<open>
  The canonicalising constructors of \<^verbatim>\<open>klee/lib/Expr/Expr.cpp\<close> that do not reassociate
  sums: conjunction, disjunction, equality, exclusive or, the remaining arithmetic, shifts,
  comparisons, selection and array reads. \<open>X_create\<close> is the method \<open>XExpr::create\<close> and
  \<open>XExpr_create\<close>, \<open>XExpr_createPartial\<close>, \<open>XExpr_createPartialR\<close> are the static
  functions of the same name. A failed assertion (or a division by a constant zero) stops
  the program and is \<open>None\<close>.
\<close>

subsection \<open>The macros\<close>

text \<open>\<open>BCREATE_R\<close> and \<open>CMPCREATE_T\<close>: both fold constants and dispatch on which side is constant.\<close>

definition BCREATE_R ::
    "bkind \<Rightarrow> (expr \<Rightarrow> apint \<Rightarrow> expr option) \<Rightarrow> (apint \<Rightarrow> expr \<Rightarrow> expr option) \<Rightarrow>
     (expr \<Rightarrow> expr \<Rightarrow> expr option) \<Rightarrow> expr \<Rightarrow> expr \<Rightarrow> expr option" where
  "BCREATE_R k partialL partialR create l r =
     (if getWidth l \<noteq> getWidth r then None
      else (case l of
          ConstantExpr cl \<Rightarrow>
            (case r of
                ConstantExpr cr \<Rightarrow> map_option ConstantExpr (ConstantExpr_op k cl cr)
              | _ \<Rightarrow> partialR cl r)
        | _ \<Rightarrow> (case r of ConstantExpr cr \<Rightarrow> partialL l cr | _ \<Rightarrow> create l r)))"

text \<open>\<open>BCREATE\<close> and \<open>CMPCREATE\<close>: fold two constants, otherwise call the static function.\<close>

definition BCREATE ::
    "bkind \<Rightarrow> (expr \<Rightarrow> expr \<Rightarrow> expr option) \<Rightarrow> expr \<Rightarrow> expr \<Rightarrow> expr option" where
  "BCREATE k create l r =
     (if getWidth l \<noteq> getWidth r then None
      else (case (l, r) of
          (ConstantExpr cl, ConstantExpr cr) \<Rightarrow> map_option ConstantExpr (ConstantExpr_op k cl cr)
        | _ \<Rightarrow> create l r))"

lemma BCREATE_R_cong [fundef_cong]:
  assumes "l = l'" and "r = r'"
    and "\<And>x c. getWidth l' = getWidth r' \<Longrightarrow> x = l' \<Longrightarrow> \<not> isConstantExpr l' \<Longrightarrow>
      ConstantExpr c = r' \<Longrightarrow> pl x c = pl' x c"
    and "\<And>c y. getWidth l' = getWidth r' \<Longrightarrow> y = r' \<Longrightarrow> ConstantExpr c = l' \<Longrightarrow>
      \<not> isConstantExpr r' \<Longrightarrow> pr c y = pr' c y"
    and "\<And>x y. getWidth l' = getWidth r' \<Longrightarrow> x = l' \<Longrightarrow> y = r' \<Longrightarrow> \<not> isConstantExpr l' \<Longrightarrow>
      \<not> isConstantExpr r' \<Longrightarrow> cre x y = cre' x y"
  shows "BCREATE_R k pl pr cre l r = BCREATE_R k pl' pr' cre' l' r'"
  using assms by (auto simp: BCREATE_R_def split: expr.splits)

subsection \<open>Constants built by the program\<close>

definition ConstantExpr_create :: "int \<Rightarrow> nat \<Rightarrow> apint option" where
  "ConstantExpr_create v w =
     (if w \<le> 64 \<and> (w = 0 \<or> v \<noteq> take_bit w v) then None
      else Some (ConstantExpr_alloc v w))"

subsection \<open>Conjunction and disjunction\<close>

definition AndExpr_createPartial :: "expr \<Rightarrow> apint \<Rightarrow> expr option" where
  "AndExpr_createPartial l cr =
     (if ConstantExpr_isAllOnes cr then Some l
      else if ConstantExpr_isZero cr then Some (ConstantExpr cr)
      else Some (BinaryExpr And l (ConstantExpr cr)))"

definition AndExpr_createPartialR :: "apint \<Rightarrow> expr \<Rightarrow> expr option" where
  "AndExpr_createPartialR cl r = AndExpr_createPartial r cl"

definition AndExpr_create :: "expr \<Rightarrow> expr \<Rightarrow> expr option" where
  "AndExpr_create l r = Some (BinaryExpr And l r)"

definition And_create :: "expr \<Rightarrow> expr \<Rightarrow> expr option" where
  "And_create = BCREATE_R And AndExpr_createPartial AndExpr_createPartialR AndExpr_create"

definition OrExpr_createPartial :: "expr \<Rightarrow> apint \<Rightarrow> expr option" where
  "OrExpr_createPartial l cr =
     (if ConstantExpr_isAllOnes cr then Some (ConstantExpr cr)
      else if ConstantExpr_isZero cr then Some l
      else Some (BinaryExpr Or l (ConstantExpr cr)))"

definition OrExpr_createPartialR :: "apint \<Rightarrow> expr \<Rightarrow> expr option" where
  "OrExpr_createPartialR cl r = OrExpr_createPartial r cl"

definition OrExpr_create :: "expr \<Rightarrow> expr \<Rightarrow> expr option" where
  "OrExpr_create l r = Some (BinaryExpr Or l r)"

definition Or_create :: "expr \<Rightarrow> expr \<Rightarrow> expr option" where
  "Or_create = BCREATE_R Or OrExpr_createPartial OrExpr_createPartialR OrExpr_create"

subsection \<open>Equality\<close>

text \<open>The command line option, at its default.\<close>

definition ConstArrayOpt :: bool where
  "ConstArrayOpt \<longleftrightarrow> False"

definition EqExpr_create :: "expr \<Rightarrow> expr \<Rightarrow> expr option" where
  "EqExpr_create l r =
     (if l = r then Some (ConstantExpr (ConstantExpr_alloc 1 1)) else Some (BinaryExpr Eq l r))"

text \<open>\<open>SubExpr::create\<close> on two constants: the assertion and the constant operation.\<close>

definition Sub_constants :: "apint \<Rightarrow> apint \<Rightarrow> apint option" where
  "Sub_constants l r = (if bitWidth l = bitWidth r then Some (ConstantExpr_Sub l r) else None)"

text \<open>The measure of the recursions: a constant counts 1, every other node more.\<close>

fun esize :: "expr \<Rightarrow> nat" where
  "esize (ConstantExpr _) = 1"
| "esize (NotOptimizedExpr e) = 1 + esize e"
| "esize (ReadExpr _ _ i) = 1 + esize i"
| "esize (SelectExpr c t f) = 1 + esize c + esize t + esize f"
| "esize (ConcatExpr l r) = 1 + esize l + esize r"
| "esize (ExtractExpr e _ _) = 1 + esize e"
| "esize (ZExtExpr e _) = 1 + esize e"
| "esize (SExtExpr e _) = 1 + esize e"
| "esize (NotExpr e) = 1 + esize e"
| "esize (BinaryExpr _ l r) = 1 + esize l + esize r"

lemma esize_pos [simp]: "0 < esize e"
  by (cases e) auto

function (sequential)
    Eq_create :: "expr \<Rightarrow> expr \<Rightarrow> expr option"
and createIsZero :: "expr \<Rightarrow> expr option"
and EqExpr_createPartial :: "expr \<Rightarrow> apint \<Rightarrow> expr option"
and EqExpr_createPartialR :: "apint \<Rightarrow> expr \<Rightarrow> expr option"
and TryConstArrayOpt :: "apint \<Rightarrow> array \<Rightarrow> ulist \<Rightarrow> expr \<Rightarrow> expr option"
and TryConstArrayOpt_loop :: "apint \<Rightarrow> array \<Rightarrow> ulist \<Rightarrow> expr \<Rightarrow> nat \<Rightarrow> nat \<Rightarrow> expr \<Rightarrow> expr option"
where
  "Eq_create l r = BCREATE_R Eq EqExpr_createPartial EqExpr_createPartialR EqExpr_create l r"
| "createIsZero e = 
     do { z \<leftarrow> ConstantExpr_create 0 (getWidth e); Eq_create e (ConstantExpr z) }"
| "EqExpr_createPartial l cr = EqExpr_createPartialR cr l"
| "EqExpr_createPartialR cl r =
     (if bitWidth cl = 1 then
        if ConstantExpr_isTrue cl then Some r
        else (case r of
            BinaryExpr Eq (ConstantExpr CE) rr \<Rightarrow>
              if bitWidth CE = 1 \<and> ConstantExpr_isFalse CE then Some rr
              else EqExpr_create (ConstantExpr cl) r
          | BinaryExpr Or a b \<Rightarrow> do { x \<leftarrow> createIsZero a; y \<leftarrow> createIsZero b; And_create x y }
          | _ \<Rightarrow> EqExpr_create (ConstantExpr cl) r)
      else (case r of
          SExtExpr src w \<Rightarrow>
            let trunc = ConstantExpr_ZExt cl (getWidth src)
            in if cl = ConstantExpr_SExt trunc (bitWidth cl) then Eq_create src (ConstantExpr trunc)
               else map_option ConstantExpr (ConstantExpr_create 0 1)
        | ZExtExpr src w \<Rightarrow>
            let trunc = ConstantExpr_ZExt cl (getWidth src)
            in if cl = ConstantExpr_ZExt trunc (bitWidth cl) then Eq_create src (ConstantExpr trunc)
               else map_option ConstantExpr (ConstantExpr_create 0 1)
        | BinaryExpr Add (ConstantExpr c1) rr \<Rightarrow>
            do { d \<leftarrow> Sub_constants cl c1; EqExpr_createPartialR d rr }
        | BinaryExpr Sub (ConstantExpr c1) rr \<Rightarrow>
            do { d \<leftarrow> Sub_constants c1 cl; EqExpr_createPartialR d rr }
        | ReadExpr a us ix \<Rightarrow>
            if ConstArrayOpt then TryConstArrayOpt cl a us ix
            else EqExpr_create (ConstantExpr cl) r
        | _ \<Rightarrow> EqExpr_create (ConstantExpr cl) r))"
| "TryConstArrayOpt cl a us ix =
     (if isSymbolicArray a \<or> usize us \<noteq> 0
      then EqExpr_create (ConstantExpr cl) (ReadExpr a us ix)
      else TryConstArrayOpt_loop cl a us ix 0 0 (ConstantExpr (ConstantExpr_alloc 0 1)))"
| "TryConstArrayOpt_loop cl a us ix i numMatches res =
     (if \<not> i < arrSize a then Some res
      else if \<not> i < length (constantValues a) then None
      else if cl = constantValues a ! i then
        (if numMatches + 1 > 100 then EqExpr_create (ConstantExpr cl) (ReadExpr a us ix)
         else do { mayBe \<leftarrow> Eq_create ix (ConstantExpr (ConstantExpr_alloc (int i) (getWidth ix)));
                   res' \<leftarrow> Or_create res mayBe;
                   TryConstArrayOpt_loop cl a us ix (i + 1) (numMatches + 1) res' })
      else TryConstArrayOpt_loop cl a us ix (i + 1) numMatches res)"
  by pat_completeness auto
termination
proof (relation "measures
    [\<lambda>x. (case x of
        Inl (Inl (l, r)) \<Rightarrow> esize l + esize r
      | Inl (Inr (Inl e)) \<Rightarrow> esize e + 1
      | Inl (Inr (Inr (l, cr))) \<Rightarrow> esize l + 1
      | Inr (Inl (cl, r)) \<Rightarrow> esize r + 1
      | Inr (Inr (Inl (cl, a, us, ix))) \<Rightarrow> esize ix + 2
      | Inr (Inr (Inr (cl, a, us, ix, i, m, res))) \<Rightarrow> esize ix + 2),
     \<lambda>x. (case x of
        Inl (Inl _) \<Rightarrow> 4
      | Inl (Inr (Inl e)) \<Rightarrow> 5
      | Inl (Inr (Inr _)) \<Rightarrow> 3
      | Inr (Inl _) \<Rightarrow> 2
      | Inr (Inr (Inl _)) \<Rightarrow> 1
      | Inr (Inr (Inr _)) \<Rightarrow> 0),
     \<lambda>x. (case x of Inr (Inr (Inr (cl, a, us, ix, i, m, res))) \<Rightarrow> arrSize a - i | _ \<Rightarrow> 0)]")
qed auto

declare Eq_create.simps [simp del] createIsZero.simps [simp del]
  EqExpr_createPartial.simps [simp del] EqExpr_createPartialR.simps [simp del]
  TryConstArrayOpt.simps [simp del] TryConstArrayOpt_loop.simps [simp del]

subsection \<open>The macros are sound when their parts are\<close>

lemma BCREATE_R_simps:
  assumes "getWidth l = getWidth r"
  shows "\<not> isConstantExpr l \<Longrightarrow> r = ConstantExpr c \<Longrightarrow> BCREATE_R k pl pr cre l r = pl l c"
    and "l = ConstantExpr c \<Longrightarrow> \<not> isConstantExpr r \<Longrightarrow> BCREATE_R k pl pr cre l r = pr c r"
    and "\<not> isConstantExpr l \<Longrightarrow> \<not> isConstantExpr r \<Longrightarrow> BCREATE_R k pl pr cre l r = cre l r"
  using assms by (cases l; cases r; simp add: BCREATE_R_def)+

lemma BCREATE_R_builds:
  assumes "wf_expr l" and "wf_expr r" and "getWidth l = getWidth r" and "\<not> isDivision k"
    and "\<And>c. \<not> isConstantExpr l \<Longrightarrow> r = ConstantExpr c \<Longrightarrow>
      builds (pl l c) (bin_width k (getWidth l)) (bin_val k l r)"
    and "\<And>c. l = ConstantExpr c \<Longrightarrow> \<not> isConstantExpr r \<Longrightarrow>
      builds (pr c r) (bin_width k (getWidth l)) (bin_val k l r)"
    and "\<not> isConstantExpr l \<Longrightarrow> \<not> isConstantExpr r \<Longrightarrow>
      builds (cre l r) (bin_width k (getWidth l)) (bin_val k l r)"
  shows "builds (BCREATE_R k pl pr cre l r) (bin_width k (getWidth l)) (bin_val k l r)"
proof (cases "isConstantExpr l \<and> isConstantExpr r")
  case True
  then obtain cl cr where lr: "l = ConstantExpr cl" "r = ConstantExpr cr"
    by (cases l; cases r) auto
  then show ?thesis
    using ConstantExpr_op_sound [of cl cr k] assms(1-4)
    by (auto simp: BCREATE_R_def builds_if_def)
next
  case False
  then consider (L) c where "\<not> isConstantExpr l" "r = ConstantExpr c"
    | (R) c where "l = ConstantExpr c" "\<not> isConstantExpr r"
    | (N) "\<not> isConstantExpr l" "\<not> isConstantExpr r"
    by (cases l; cases r) auto
  then show ?thesis
    by cases (use assms in \<open>simp_all add: BCREATE_R_simps\<close>)
qed

lemma BCREATE_builds:
  assumes "wf_expr l" and "wf_expr r" and "getWidth l = getWidth r" and "\<not> isDivision k"
    and "\<not> (isConstantExpr l \<and> isConstantExpr r) \<Longrightarrow>
      builds (cre l r) (bin_width k (getWidth l)) (bin_val k l r)"
  shows "builds (BCREATE k cre l r) (bin_width k (getWidth l)) (bin_val k l r)"
proof -
  have "BCREATE k cre l r = BCREATE_R k (\<lambda>l c. cre l (ConstantExpr c)) (\<lambda>c r. cre (ConstantExpr c) r) cre l r"
    by (cases l; cases r) (simp_all add: BCREATE_def BCREATE_R_def)
  moreover have "builds \<dots> (bin_width k (getWidth l)) (bin_val k l r)"
    by (rule BCREATE_R_builds) (use assms in \<open>auto\<close>)
  ultimately show ?thesis by simp
qed

subsection \<open>Conjunction and disjunction are sound\<close>

lemma isAllOnes_mask: "ConstantExpr_isAllOnes c \<Longrightarrow> apval c = mask (bitWidth c)"
  by (simp add: ConstantExpr_isAllOnes_def mask_eq_max)

lemma AndExpr_createPartial_builds:
  assumes "wf_expr l" and "wf_apint c" and "getWidth l = bitWidth c"
  shows "builds (AndExpr_createPartial l c) (bitWidth c) (\<lambda>\<sigma>. eval l \<sigma> AND apval c)"
  using assms eval_in_width [of _ l]
  by (auto simp: AndExpr_createPartial_def ConstantExpr_isZero_def builds_Some_iff
      isAllOnes_mask and_mask_in_width)

lemma OrExpr_createPartial_builds:
  assumes "wf_expr l" and "wf_apint c" and "getWidth l = bitWidth c"
  shows "builds (OrExpr_createPartial l c) (bitWidth c) (\<lambda>\<sigma>. eval l \<sigma> OR apval c)"
  using assms eval_in_width [of _ l]
  by (auto simp: OrExpr_createPartial_def ConstantExpr_isZero_def builds_Some_iff
      isAllOnes_mask or_mask_in_width)

lemma And_create_builds:
  assumes "wf_expr l" and "wf_expr r" and "getWidth l = getWidth r"
  shows "builds (And_create l r) (bin_width And (getWidth l)) (bin_val And l r)"
  unfolding And_create_def
  by (rule BCREATE_R_builds)
     (use assms AndExpr_createPartial_builds [of l] AndExpr_createPartial_builds [of r] in
       \<open>auto simp: isDivision_def AndExpr_createPartialR_def AndExpr_create_def builds_Some_iff
         and.commute dest: sym\<close>)

lemma Or_create_builds:
  assumes "wf_expr l" and "wf_expr r" and "getWidth l = getWidth r"
  shows "builds (Or_create l r) (bin_width Or (getWidth l)) (bin_val Or l r)"
  unfolding Or_create_def
  by (rule BCREATE_R_builds)
     (use assms OrExpr_createPartial_builds [of l] OrExpr_createPartial_builds [of r] in
       \<open>auto simp: isDivision_def OrExpr_createPartialR_def OrExpr_create_def builds_Some_iff
         or.commute dest: sym\<close>)

interpretation conj: sound_binary And_create And
  by unfold_locales (rule And_create_builds)

interpretation disj: sound_binary Or_create Or
  by unfold_locales (rule Or_create_builds)

subsection \<open>Equality is sound\<close>

lemma EqExpr_create_builds:
  "wf_expr l \<Longrightarrow> wf_expr r \<Longrightarrow> getWidth l = getWidth r \<Longrightarrow>
     builds_if P (EqExpr_create l r) 1 (\<lambda>\<sigma>. of_bool (eval l \<sigma> = eval r \<sigma>))"
  by (auto simp: EqExpr_create_def builds_Some_iff)

lemma sext_eq_iff:
  assumes "in_width m a" and "0 < m" and "m \<le> w"
  shows "c = take_bit w (sval m a) \<longleftrightarrow>
    a = take_bit m c \<and> c = take_bit w (sval m (take_bit m c))"
proof -
  have "take_bit m (take_bit w (sval m a)) = a"
    using assms by (simp add: take_bit_take_bit min_def)
  then show ?thesis by auto
qed

lemma zext_eq_iff:
  assumes "in_width m a" and "m \<le> w"
  shows "c = a \<longleftrightarrow> a = take_bit m c \<and> c = take_bit w (take_bit m c)"
  using assms by (auto simp: in_width_mono)

lemma add_eq_iff:
  assumes "in_width w c" and "in_width w b"
  shows "c = take_bit w (d + b) \<longleftrightarrow> take_bit w (c - d) = b"
proof
  assume "c = take_bit w (d + b)"
  then have "take_bit w (c - d) = take_bit w (d + b - d)"
    by (simp add: take_bit_eq_mod mod_simps)
  then show "take_bit w (c - d) = b" using assms by simp
next
  assume "take_bit w (c - d) = b"
  then have "take_bit w (d + b) = take_bit w (d + (c - d))"
    by (auto simp: take_bit_eq_mod mod_simps)
  then show "c = take_bit w (d + b)" using assms by simp
qed

lemma sub_eq_iff:
  assumes "in_width w c" and "in_width w b"
  shows "c = take_bit w (d - b) \<longleftrightarrow> take_bit w (d - c) = b"
proof
  assume "c = take_bit w (d - b)"
  then have "take_bit w (d - c) = take_bit w (d - (d - b))"
    by (simp add: take_bit_eq_mod mod_simps)
  then show "take_bit w (d - c) = b" using assms by simp
next
  assume "take_bit w (d - c) = b"
  then have "take_bit w (d - b) = take_bit w (d - (d - c))"
    by (auto simp: take_bit_eq_mod mod_simps)
  then show "c = take_bit w (d - b)" using assms by simp
qed

lemma wf_const_ops [simp]:
  "0 < w \<Longrightarrow> wf_apint (ConstantExpr_ZExt c w)" "0 < w \<Longrightarrow> wf_apint (ConstantExpr_SExt c w)"
  "wf_apint c \<Longrightarrow> wf_apint (ConstantExpr_Sub c d)" "wf_apint c \<Longrightarrow> wf_apint (ConstantExpr_Add c d)"
  "wf_apint c \<Longrightarrow> wf_apint (ConstantExpr_Neg c)" "wf_apint c \<Longrightarrow> wf_apint (ConstantExpr_Not c)"
  by (simp_all add: cexpr_simps wf_apint_def)

lemma const_ops_sel [simp]:
  "bitWidth (ConstantExpr_ZExt c w) = w" "apval (ConstantExpr_ZExt c w) = take_bit w (apval c)"
  "bitWidth (ConstantExpr_SExt c w) = w"
  "apval (ConstantExpr_SExt c w) = take_bit w (sval (bitWidth c) (apval c))"
  "bitWidth (ConstantExpr_Sub c d) = bitWidth c"
  "apval (ConstantExpr_Sub c d) = take_bit (bitWidth c) (apval c - apval d)"
  "bitWidth (ConstantExpr_Add c d) = bitWidth c"
  "apval (ConstantExpr_Add c d) = take_bit (bitWidth c) (apval c + apval d)"
  "bitWidth (ConstantExpr_Neg c) = bitWidth c"
  "apval (ConstantExpr_Neg c) = take_bit (bitWidth c) (- apval c)"
  "bitWidth (ConstantExpr_Not c) = bitWidth c"
  "apval (ConstantExpr_Not c) = take_bit (bitWidth c) (NOT (apval c))"
  by (simp_all add: cexpr_simps)

lemma ConstantExpr_create_zero [simp]:
  "0 < w \<Longrightarrow> ConstantExpr_create 0 w = Some (ConstantExpr_alloc 0 w)"
  by (simp add: ConstantExpr_create_def)

lemma wf_apint_in_width: "wf_apint c \<Longrightarrow> in_width (bitWidth c) (apval c)"
  and wf_apint_pos: "wf_apint c \<Longrightarrow> 0 < bitWidth c"
  by (simp_all add: wf_apint_def)

text \<open>The branches of \<open>EqExpr_createPartialR\<close>, given the soundness of the calls they make.\<close>

lemma eq_false_or_builds:
  assumes "wf_expr a" "wf_expr b" "getWidth a = 1" "getWidth b = 1"
    and "builds x 1 (\<lambda>\<sigma>. of_bool (eval a \<sigma> = 0))" and "builds y 1 (\<lambda>\<sigma>. of_bool (eval b \<sigma> = 0))"
  shows "builds (do { p \<leftarrow> x; q \<leftarrow> y; And_create p q }) 1 (\<lambda>\<sigma>. of_bool (eval a \<sigma> OR eval b \<sigma> = 0))"
proof -
  have "builds (do { p \<leftarrow> x; q \<leftarrow> y; And_create p q }) (bin_width And 1)
      (\<lambda>\<sigma>. sem_bin And 1 (of_bool (eval a \<sigma> = 0)) (of_bool (eval b \<sigma> = 0)))"
    using assms(5,6) by (rule conj.composed)
  then show ?thesis
    by (rule builds_if_cong) (auto simp: or_eq_0_iff)
qed

lemma eq_false_builds:
  assumes "wf_apint cl" "wf_expr r" "bitWidth cl = 1" "getWidth r = 1" "\<not> ConstantExpr_isTrue cl"
    and or: "\<And>a b. r = BinaryExpr Or a b \<Longrightarrow> wf_expr a \<and> wf_expr b \<and> getWidth a = 1 \<and> getWidth b = 1 \<Longrightarrow>
      builds (createIsZero a) 1 (\<lambda>\<sigma>. of_bool (eval a \<sigma> = 0)) \<and>
      builds (createIsZero b) 1 (\<lambda>\<sigma>. of_bool (eval b \<sigma> = 0))"
  shows "builds (EqExpr_createPartialR cl r) 1 (\<lambda>\<sigma>. of_bool (apval cl = eval r \<sigma>))"
proof -
  have cl: "apval cl = 0"
    using assms by (auto simp: ConstantExpr_isTrue_def)
  have alloc: "builds (EqExpr_create (ConstantExpr cl) r) 1 (\<lambda>\<sigma>. of_bool (apval cl = eval r \<sigma>))"
    using EqExpr_create_builds [of "ConstantExpr cl" r] assms by simp
  show ?thesis
  proof (cases "\<exists>c x. r = BinaryExpr Eq (ConstantExpr c) x \<and> bitWidth c = 1 \<and> ConstantExpr_isFalse c")
    case True
    then obtain c x where r: "r = BinaryExpr Eq (ConstantExpr c) x" "bitWidth c = 1" "apval c = 0"
      by (auto simp: ConstantExpr_isFalse_def)
    have "EqExpr_createPartialR cl r = Some x"
      unfolding r(1) using r(2,3) assms(3,5)
      by (simp add: EqExpr_createPartialR.simps [of cl "BinaryExpr Eq (ConstantExpr c) x"]
          ConstantExpr_isFalse_def)
    moreover have "eval x \<sigma> = of_bool (apval cl = eval r \<sigma>)" if "env_ok \<sigma>" for \<sigma>
      using eval_bool_cases [OF that, of x] assms(2) r cl by auto
    ultimately show ?thesis
      using r assms(2) by (auto simp: builds_Some_iff)
  next
    case not_neg: False
    show ?thesis
    proof (cases "\<exists>a b. r = BinaryExpr Or a b")
      case True
      then obtain a b where r: "r = BinaryExpr Or a b" by blast
      then have "wf_expr a \<and> wf_expr b \<and> getWidth a = 1 \<and> getWidth b = 1"
        using assms by auto
      moreover have "EqExpr_createPartialR cl r =
          do { x \<leftarrow> createIsZero a; y \<leftarrow> createIsZero b; And_create x y }"
        unfolding r using assms(3,5)
        by (simp add: EqExpr_createPartialR.simps [of cl "BinaryExpr Or a b"])
      ultimately have "builds (EqExpr_createPartialR cl r) 1 (\<lambda>\<sigma>. of_bool (eval a \<sigma> OR eval b \<sigma> = 0))"
        using or [OF r] eq_false_or_builds [of a b] by simp
      then show ?thesis
        by (rule builds_if_cong) (auto simp: r cl)
    next
      case False
      with not_neg have "EqExpr_createPartialR cl r = EqExpr_create (ConstantExpr cl) r"
        using assms by (auto simp: EqExpr_createPartialR.simps [of cl r]
            split: expr.splits bkind.splits)
      with alloc show ?thesis by simp
    qed
  qed
qed

lemma eq_cast_builds:
  assumes "wf_apint cl" "wf_expr r" "bitWidth cl = getWidth r" "bitWidth cl \<noteq> 1"
    and r: "r = SExtExpr src w \<or> r = ZExtExpr src w"
    and IH: "\<And>c. wf_apint c \<Longrightarrow> bitWidth c = getWidth src \<Longrightarrow> c = ConstantExpr_ZExt cl (getWidth src) \<Longrightarrow>
      cl = (if r = SExtExpr src w then ConstantExpr_SExt c (bitWidth cl) else ConstantExpr_ZExt c (bitWidth cl)) \<Longrightarrow>
      builds (Eq_create src (ConstantExpr c)) 1 (\<lambda>\<sigma>. of_bool (eval src \<sigma> = apval c))"
  shows "builds (EqExpr_createPartialR cl r) 1 (\<lambda>\<sigma>. of_bool (apval cl = eval r \<sigma>))"
proof -
  let ?m = "getWidth src" and ?c = "ConstantExpr_ZExt cl (getWidth src)"
  let ?ext = "if r = SExtExpr src w then ConstantExpr_SExt ?c (bitWidth cl)
    else ConstantExpr_ZExt ?c (bitWidth cl)"
  have src: "wf_expr src" "0 < ?m" "?m \<le> w" "bitWidth cl = w"
    using assms(2,3) r by (auto dest: wf_width_pos)
  have val: "apval cl = eval r \<sigma> \<longleftrightarrow> eval src \<sigma> = apval ?c \<and> cl = ?ext" if "env_ok \<sigma>" for \<sigma>
    using r sext_eq_iff [of ?m "eval src \<sigma>" w "apval cl"] zext_eq_iff [of ?m "eval src \<sigma>" w "apval cl"]
      eval_in_width [OF that src(1)] src by (cases cl) (auto simp: cexpr_simps)
  show ?thesis
  proof (cases "cl = ?ext")
    case True
    then have "EqExpr_createPartialR cl r = Eq_create src (ConstantExpr ?c)"
      using r assms(4) by (auto simp: EqExpr_createPartialR.simps [of cl r] Let_def split: if_splits)
    moreover have "builds (Eq_create src (ConstantExpr ?c)) 1 (\<lambda>\<sigma>. of_bool (eval src \<sigma> = apval ?c))"
      using True src by (intro IH) auto
    ultimately show ?thesis
      by (auto elim!: builds_if_cong simp: val True [symmetric])
  next
    case False
    then have "EqExpr_createPartialR cl r = Some (ConstantExpr (ConstantExpr_alloc 0 1))"
      using r assms(4) by (auto simp: EqExpr_createPartialR.simps [of cl r] Let_def)
    then show ?thesis
      using False by (simp add: builds_Some_iff val)
  qed
qed

lemma eq_linear_builds:
  assumes "wf_apint cl" "wf_expr r" "bitWidth cl = getWidth r" "bitWidth cl \<noteq> 1"
    and r: "r = BinaryExpr k (ConstantExpr c1) x" "k = Add \<or> k = Sub"
    and IH: "\<And>d. d = (if k = Add then ConstantExpr_Sub cl c1 else ConstantExpr_Sub c1 cl) \<Longrightarrow>
      builds (EqExpr_createPartialR d x) 1 (\<lambda>\<sigma>. of_bool (apval d = eval x \<sigma>))"
  shows "builds (EqExpr_createPartialR cl r) 1 (\<lambda>\<sigma>. of_bool (apval cl = eval r \<sigma>))"
proof -
  let ?d = "if k = Add then ConstantExpr_Sub cl c1 else ConstantExpr_Sub c1 cl"
  have w: "wf_expr x" "wf_apint c1" "bitWidth c1 = bitWidth cl" "getWidth x = bitWidth cl"
    using assms(2,3) r by (auto split: if_splits)
  have val: "apval cl = eval r \<sigma> \<longleftrightarrow> apval ?d = eval x \<sigma>" if "env_ok \<sigma>" for \<sigma>
    using add_eq_iff [of "bitWidth cl" "apval cl" "eval x \<sigma>" "apval c1"]
      sub_eq_iff [of "bitWidth cl" "apval cl" "eval x \<sigma>" "apval c1"]
      eval_in_width [OF that w(1)] wf_apint_in_width [OF assms(1)] w r by auto
  have "EqExpr_createPartialR cl r = EqExpr_createPartialR ?d x"
    unfolding r(1) using r(2) assms(4) w
    by (auto simp: EqExpr_createPartialR.simps [of cl "BinaryExpr _ _ _"] Sub_constants_def)
  with IH [OF refl] show ?thesis
    by (auto elim!: builds_if_cong simp: val)
qed

lemma eq_other:
  assumes "bitWidth cl \<noteq> 1" and "\<nexists>src w. r = SExtExpr src w \<or> r = ZExtExpr src w"
    and "\<nexists>k c1 x. r = BinaryExpr k (ConstantExpr c1) x \<and> (k = Add \<or> k = Sub)"
  shows "EqExpr_createPartialR cl r = EqExpr_create (ConstantExpr cl) r"
  using assms
  by (cases r) (auto simp: EqExpr_createPartialR.simps [of cl] ConstArrayOpt_def
      split: bkind.split expr.split)

lemma eq_nonbool_builds:
  assumes prems: "wf_apint cl" "wf_expr r" "bitWidth cl = getWidth r" and nb: "bitWidth cl \<noteq> 1"
    and zext: "\<And>src w c. r = ZExtExpr src w \<Longrightarrow> c = ConstantExpr_ZExt cl (getWidth src) \<Longrightarrow>
      cl = ConstantExpr_ZExt c (bitWidth cl) \<Longrightarrow> wf_expr src \<Longrightarrow> wf_apint c \<Longrightarrow> getWidth src = bitWidth c \<Longrightarrow>
      builds (Eq_create src (ConstantExpr c)) 1 (\<lambda>\<sigma>. of_bool (eval src \<sigma> = apval c))"
    and sext: "\<And>src w c. r = SExtExpr src w \<Longrightarrow> c = ConstantExpr_ZExt cl (getWidth src) \<Longrightarrow>
      cl = ConstantExpr_SExt c (bitWidth cl) \<Longrightarrow> wf_expr src \<Longrightarrow> wf_apint c \<Longrightarrow> getWidth src = bitWidth c \<Longrightarrow>
      builds (Eq_create src (ConstantExpr c)) 1 (\<lambda>\<sigma>. of_bool (eval src \<sigma> = apval c))"
    and lin: "\<And>k c1 x d. r = BinaryExpr k (ConstantExpr c1) x \<Longrightarrow>
      k = Add \<and> Sub_constants cl c1 = Some d \<or> k = Sub \<and> Sub_constants c1 cl = Some d \<Longrightarrow>
      wf_apint d \<Longrightarrow> wf_expr x \<Longrightarrow> bitWidth d = getWidth x \<Longrightarrow>
      builds (EqExpr_createPartialR d x) 1 (\<lambda>\<sigma>. of_bool (apval d = eval x \<sigma>))"
  shows "builds (EqExpr_createPartialR cl r) 1 (\<lambda>\<sigma>. of_bool (apval cl = eval r \<sigma>))"
proof -
  consider (cast) src w where "r = SExtExpr src w \<or> r = ZExtExpr src w"
    | (lin) k c1 x where "r = BinaryExpr k (ConstantExpr c1) x" "k = Add \<or> k = Sub"
    | (other) "EqExpr_createPartialR cl r = EqExpr_create (ConstantExpr cl) r"
    using eq_other [OF nb, of r] by blast
  then show ?thesis
  proof cases
    case cast
    have src: "wf_expr src" using cast prems by auto
    show ?thesis
    proof (rule eq_cast_builds [OF prems nb cast])
      fix c
      assume c: "wf_apint c" "bitWidth c = getWidth src" "c = ConstantExpr_ZExt cl (getWidth src)"
        and ext: "cl = (if r = SExtExpr src w then ConstantExpr_SExt c (bitWidth cl)
          else ConstantExpr_ZExt c (bitWidth cl))"
      show "builds (Eq_create src (ConstantExpr c)) 1 (\<lambda>\<sigma>. of_bool (eval src \<sigma> = apval c))"
        using ext cast sext [OF _ c(3) _ src c(1) c(2) [symmetric]]
          zext [OF _ c(3) _ src c(1) c(2) [symmetric]] by (metis (no_types, lifting))
    qed
  next
    case lin': lin
    have w: "wf_expr x" "wf_apint c1" "bitWidth c1 = bitWidth cl" "getWidth x = bitWidth cl"
      using lin' prems by (auto split: if_splits)
    show ?thesis
      by (rule eq_linear_builds [OF prems nb lin'], rule lin [OF lin'(1)])
         (use w lin'(2) prems(1) in \<open>auto simp: Sub_constants_def\<close>)
  next
    case other
    then show ?thesis
      using EqExpr_create_builds [of "ConstantExpr cl" r] prems by simp
  qed
qed

lemma Eq_group_builds:
  fixes c2 c3 :: apint and a2 a3 :: array and us2 us3 :: ulist and ix2 ix3 res3 :: expr
    and i3 n3 :: nat
  shows Eq_create_builds_aux: "wf_expr l \<Longrightarrow> wf_expr r \<Longrightarrow> getWidth l = getWidth r \<Longrightarrow>
      builds (Eq_create l r) 1 (\<lambda>\<sigma>. of_bool (eval l \<sigma> = eval r \<sigma>))"
    and createIsZero_builds: "wf_expr e \<Longrightarrow>
      builds (createIsZero e) 1 (\<lambda>\<sigma>. of_bool (eval e \<sigma> = 0))"
    and EqExpr_createPartial_builds: "wf_expr l' \<Longrightarrow> wf_apint cr \<Longrightarrow> getWidth l' = bitWidth cr \<Longrightarrow>
      builds (EqExpr_createPartial l' cr) 1 (\<lambda>\<sigma>. of_bool (eval l' \<sigma> = apval cr))"
    and EqExpr_createPartialR_builds: "wf_apint cl \<Longrightarrow> wf_expr r' \<Longrightarrow> bitWidth cl = getWidth r' \<Longrightarrow>
      builds (EqExpr_createPartialR cl r') 1 (\<lambda>\<sigma>. of_bool (apval cl = eval r' \<sigma>))"
    and "True" and "True"
proof (induction l r and e and l' cr and cl r' and c2 a2 us2 ix2 and c3 a3 us3 ix3 i3 n3 res3
    rule: Eq_create_createIsZero_EqExpr_createPartial_EqExpr_createPartialR_TryConstArrayOpt_TryConstArrayOpt_loop.induct)
  case (1 l r)
  have "builds (BCREATE_R Eq EqExpr_createPartial EqExpr_createPartialR EqExpr_create l r)
      (bin_width Eq (getWidth l)) (bin_val Eq l r)"
  proof (rule BCREATE_R_builds)
    show "builds (EqExpr_createPartial l c) (bin_width Eq (getWidth l)) (bin_val Eq l r)"
      if "\<not> isConstantExpr l" "r = ConstantExpr c" for c
    proof -
      have "builds (EqExpr_createPartial l c) 1 (\<lambda>\<sigma>. of_bool (eval l \<sigma> = apval c))"
        by (rule "1.IH"(1)) (use "1.prems" that in simp_all)
      then show ?thesis using that by simp
    qed
    show "builds (EqExpr_createPartialR c r) (bin_width Eq (getWidth l)) (bin_val Eq l r)"
      if "l = ConstantExpr c" "\<not> isConstantExpr r" for c
    proof -
      have "builds (EqExpr_createPartialR c r) 1 (\<lambda>\<sigma>. of_bool (apval c = eval r \<sigma>))"
        by (rule "1.IH"(2)) (use "1.prems" that in simp_all)
      then show ?thesis using that by simp
    qed
  qed (use "1.prems" EqExpr_create_builds in \<open>auto simp: isDivision_def\<close>)
  then show ?case by (simp add: Eq_create.simps [of l r])
next
  case (2 e)
  then show ?case
    using wf_width_pos [of e] "2.IH" [of "ConstantExpr_alloc 0 (getWidth e)"]
    by (simp add: createIsZero.simps [of e])
next
  case (3 l cr)
  then have "builds (EqExpr_createPartialR cr l) 1 (\<lambda>\<sigma>. of_bool (apval cr = eval l \<sigma>))"
    by simp
  then have "builds (EqExpr_createPartialR cr l) 1 (\<lambda>\<sigma>. of_bool (eval l \<sigma> = apval cr))"
    by (rule builds_if_cong) auto
  then show ?case by (simp only: EqExpr_createPartial.simps)
next
  case (4 cl r)
  show ?case
  proof (cases "bitWidth cl = 1")
    case True
    show ?thesis
    proof (cases "ConstantExpr_isTrue cl")
      case t: True
      then have "apval cl = 1"
        using True wf_apint_in_width [OF "4.prems"(1)]
        by (auto simp: ConstantExpr_isTrue_def dest: in_width_1_cases)
      then show ?thesis
        using "4.prems" True t eval_bool_cases [of _ r]
        by (fastforce simp: EqExpr_createPartialR.simps [of cl r] builds_Some_iff)
    next
      case False
      then show ?thesis
        using "4.IH" "4.prems" True by (intro eq_false_builds) (auto elim: builds_ifE)
    qed
  next
    case False
    show ?thesis
    proof (rule eq_nonbool_builds [OF "4.prems" False])
      show "builds (Eq_create src (ConstantExpr c)) 1 (\<lambda>\<sigma>. of_bool (eval src \<sigma> = apval c))"
        if "r = ZExtExpr src w" "c = ConstantExpr_ZExt cl (getWidth src)"
          "cl = ConstantExpr_ZExt c (bitWidth cl)" "wf_expr src" "wf_apint c" "getWidth src = bitWidth c"
        for src w c
        using "4.IH"(4) [OF False that(1-3)] that(4-6) by simp
      show "builds (Eq_create src (ConstantExpr c)) 1 (\<lambda>\<sigma>. of_bool (eval src \<sigma> = apval c))"
        if "r = SExtExpr src w" "c = ConstantExpr_ZExt cl (getWidth src)"
          "cl = ConstantExpr_SExt c (bitWidth cl)" "wf_expr src" "wf_apint c" "getWidth src = bitWidth c"
        for src w c
        using "4.IH"(5) [OF False that(1-3)] that(4-6) by simp
      show "builds (EqExpr_createPartialR d x) 1 (\<lambda>\<sigma>. of_bool (apval d = eval x \<sigma>))"
        if "r = BinaryExpr k (ConstantExpr c1) x" "k = Add \<and> Sub_constants cl c1 = Some d \<or>
          k = Sub \<and> Sub_constants c1 cl = Some d" "wf_apint d" "wf_expr x" "bitWidth d = getWidth x"
        for k c1 x d
        using "4.IH"(6) [OF False that(1) _ refl, of d] "4.IH"(7) [OF False that(1) _ refl, of d] that(2-5)
        by auto
    qed
  qed
qed auto

interpretation eq: sound_binary Eq_create Eq
  by unfold_locales (simp add: Eq_create_builds_aux [simplified])

text \<open>
  The optional rewriting of a read from a constant array into a disjunction over the index
  keeps the value of the equality when the index is in bounds and the array's size fits its
  index width.
\<close>

lemma TryConstArrayOpt_loop_builds:
  assumes wf: "wf_expr (ReadExpr a NoUpdates ix)" "isConstantArray a" "arrSize a \<le> 2 ^ arrDomain a"
    and cl: "wf_apint cl" "bitWidth cl = arrRange a"
    and "i \<le> arrSize a" "wf_expr res" "getWidth res = 1"
    and "\<And>\<sigma>. env_ok \<sigma> \<Longrightarrow> eval res \<sigma> = of_bool (\<exists>j<i. constantValues a ! j = cl \<and> eval ix \<sigma> = int j)"
  shows "builds_if (\<lambda>\<sigma>. eval ix \<sigma> < int (arrSize a)) (TryConstArrayOpt_loop cl a NoUpdates ix i n res)
    1 (\<lambda>\<sigma>. of_bool (apval cl = eval (ReadExpr a NoUpdates ix) \<sigma>))"
  using assms(6-9)
proof (induction "arrSize a - i" arbitrary: i n res)
  case 0
  have "of_bool (\<exists>j<arrSize a. constantValues a ! j = cl \<and> eval ix \<sigma> = int j) =
      (of_bool (apval cl = eval (ReadExpr a NoUpdates ix) \<sigma>) :: int)"
    if ok: "env_ok \<sigma>" and inb: "eval ix \<sigma> < int (arrSize a)" for \<sigma>
  proof -
    obtain m where m: "eval ix \<sigma> = int m"
      using eval_in_width [OF ok, of ix] wf(1) by (auto simp: in_width_def elim: nonneg_int_cases)
    then have "m < length (constantValues a)" using inb wf
      by (auto simp: wf_array_def isConstantArray_def)
    then have "bitWidth (constantValues a ! m) = bitWidth cl"
      using wf(1) cl(2) by (simp add: wf_array_def list_all_length)
    then show ?thesis using m inb wf(2)
      by (auto simp: initial_def intro: apint.expand)
  qed
  moreover have "TryConstArrayOpt_loop cl a NoUpdates ix i n res = Some res" "i = arrSize a"
    using 0 by (auto simp: TryConstArrayOpt_loop.simps [of cl a NoUpdates ix i n res])
  ultimately show ?case using 0 by (auto simp: builds_Some_iff)
next
  case (Suc d)
  have bound: "i < arrSize a" "i < length (constantValues a)" "d = arrSize a - (i + 1)"
    using Suc.hyps(2) wf by (auto simp: wf_array_def isConstantArray_def)
  have alloc: "builds_if (\<lambda>\<sigma>. eval ix \<sigma> < int (arrSize a))
      (EqExpr_create (ConstantExpr cl) (ReadExpr a NoUpdates ix)) 1
      (\<lambda>\<sigma>. of_bool (apval cl = eval (ReadExpr a NoUpdates ix) \<sigma>))"
    using EqExpr_create_builds [of "ConstantExpr cl" "ReadExpr a NoUpdates ix"] wf(1) cl by simp
  show ?case
  proof (cases "cl = constantValues a ! i")
    case False
    then have "TryConstArrayOpt_loop cl a NoUpdates ix i n res =
        TryConstArrayOpt_loop cl a NoUpdates ix (i + 1) n res"
      using bound by (simp add: TryConstArrayOpt_loop.simps [of cl a NoUpdates ix i n res])
    moreover have "eval res \<sigma> = of_bool (\<exists>j<i + 1. constantValues a ! j = cl \<and> eval ix \<sigma> = int j)"
      if "env_ok \<sigma>" for \<sigma>
      using Suc.prems(4) [OF that] False by (auto simp: less_Suc_eq)
    ultimately show ?thesis
      using Suc.hyps(1) [OF bound(3), of res n] Suc.prems bound by simp
  next
    case match: True
    let ?idx = "ConstantExpr (ConstantExpr_alloc (int i) (getWidth ix))"
    have "int i < 2 ^ getWidth ix"
      using bound(1) wf by (simp add: le_less_trans flip: of_nat_power)
    then have fits: "take_bit (getWidth ix) (int i) = int i"
      by (intro take_bit_in_width) (simp add: in_width_def)
    have "builds (Eq_create ix ?idx) 1 (\<lambda>\<sigma>. of_bool (eval ix \<sigma> = int i))"
      using Eq_create_builds_aux [of ix ?idx] wf(1) wf_width_pos [of ix] fits by simp
    then obtain mayBe where mb: "Eq_create ix ?idx = Some mayBe" "wf_expr mayBe" "getWidth mayBe = 1"
      "\<And>\<sigma>. env_ok \<sigma> \<Longrightarrow> eval mayBe \<sigma> = of_bool (eval ix \<sigma> = int i)"
      by (auto elim!: builds_ifE)
    then obtain res' where res': "Or_create res mayBe = Some res'" "wf_expr res'" "getWidth res' = 1"
      "\<And>\<sigma>. env_ok \<sigma> \<Longrightarrow> eval res' \<sigma> = eval res \<sigma> OR eval mayBe \<sigma>"
      using disj.mk_builds [of res mayBe] Suc.prems by (auto elim!: builds_ifE)
    have "eval res' \<sigma> = of_bool (\<exists>j<i + 1. constantValues a ! j = cl \<and> eval ix \<sigma> = int j)"
      if "env_ok \<sigma>" for \<sigma>
      using that res'(4) mb(4) Suc.prems match by (auto simp: less_Suc_eq)
    then have "builds_if (\<lambda>\<sigma>. eval ix \<sigma> < int (arrSize a))
        (TryConstArrayOpt_loop cl a NoUpdates ix (i + 1) (n + 1) res') 1
        (\<lambda>\<sigma>. of_bool (apval cl = eval (ReadExpr a NoUpdates ix) \<sigma>))"
      using Suc.hyps(1) [OF bound(3), of res' "n + 1"] bound res' by simp
    then show ?thesis
      using alloc bound match [symmetric] mb(1) res'(1)
      by (simp add: TryConstArrayOpt_loop.simps [of cl a NoUpdates ix i n res])
  qed
qed

end
