(* ===== verification/Expr_Arith.thy ===== *)
theory Expr_Arith
  imports Expr_Create
begin

text \<open>
  The remaining constructors of \<^verbatim>\<open>klee/lib/Expr/Expr.cpp\<close> with no recursion of their own:
  exclusive or, product, the divisions, the shifts, the comparisons, negation, selection,
  implication and the array read, which rolls back through the update list.
\<close>

subsection \<open>Exclusive or, product, divisions, shifts\<close>

definition XorExpr_createPartialR :: "apint \<Rightarrow> expr \<Rightarrow> expr option" where
  "XorExpr_createPartialR cl r =
     (if ConstantExpr_isZero cl then Some r
      else if bitWidth cl = 1
        then do { f \<leftarrow> ConstantExpr_create 0 1; EqExpr_createPartial r f }
      else Some (BinaryExpr Xor (ConstantExpr cl) r))"

definition XorExpr_createPartial :: "expr \<Rightarrow> apint \<Rightarrow> expr option" where
  "XorExpr_createPartial l cr = XorExpr_createPartialR cr l"

definition XorExpr_create :: "expr \<Rightarrow> expr \<Rightarrow> expr option" where
  "XorExpr_create l r = Some (BinaryExpr Xor l r)"

definition Xor_create :: "expr \<Rightarrow> expr \<Rightarrow> expr option" where
  "Xor_create = BCREATE_R Xor XorExpr_createPartial XorExpr_createPartialR XorExpr_create"

definition MulExpr_createPartialR :: "apint \<Rightarrow> expr \<Rightarrow> expr option" where
  "MulExpr_createPartialR cl r =
     (if bitWidth cl = 1 then AndExpr_createPartialR cl r
      else if ConstantExpr_isOne cl then Some r
      else if ConstantExpr_isZero cl then Some (ConstantExpr cl)
      else Some (BinaryExpr Mul (ConstantExpr cl) r))"

definition MulExpr_createPartial :: "expr \<Rightarrow> apint \<Rightarrow> expr option" where
  "MulExpr_createPartial l cr = MulExpr_createPartialR cr l"

definition MulExpr_create :: "expr \<Rightarrow> expr \<Rightarrow> expr option" where
  "MulExpr_create l r =
     (if getWidth l = 1 then Some (BinaryExpr And l r) else Some (BinaryExpr Mul l r))"

definition Mul_create :: "expr \<Rightarrow> expr \<Rightarrow> expr option" where
  "Mul_create = BCREATE_R Mul MulExpr_createPartial MulExpr_createPartialR MulExpr_create"

definition UDivExpr_create :: "expr \<Rightarrow> expr \<Rightarrow> expr option" where
  "UDivExpr_create l r = (if getWidth l = 1 then Some l else Some (BinaryExpr UDiv l r))"

definition SDivExpr_create :: "expr \<Rightarrow> expr \<Rightarrow> expr option" where
  "SDivExpr_create l r = (if getWidth l = 1 then Some l else Some (BinaryExpr SDiv l r))"

definition URemExpr_create :: "expr \<Rightarrow> expr \<Rightarrow> expr option" where
  "URemExpr_create l r =
     (if getWidth l = 1 then map_option ConstantExpr (ConstantExpr_create 0 1)
      else Some (BinaryExpr URem l r))"

definition SRemExpr_create :: "expr \<Rightarrow> expr \<Rightarrow> expr option" where
  "SRemExpr_create l r =
     (if getWidth l = 1 then map_option ConstantExpr (ConstantExpr_create 0 1)
      else Some (BinaryExpr SRem l r))"

definition ShlExpr_create :: "expr \<Rightarrow> expr \<Rightarrow> expr option" where
  "ShlExpr_create l r =
     (if getWidth l = 1 then do { z \<leftarrow> createIsZero r; And_create l z }
      else Some (BinaryExpr Shl l r))"

definition LShrExpr_create :: "expr \<Rightarrow> expr \<Rightarrow> expr option" where
  "LShrExpr_create l r =
     (if getWidth l = 1 then do { z \<leftarrow> createIsZero r; And_create l z }
      else Some (BinaryExpr LShr l r))"

definition AShrExpr_create :: "expr \<Rightarrow> expr \<Rightarrow> expr option" where
  "AShrExpr_create l r = (if getWidth l = 1 then Some l else Some (BinaryExpr AShr l r))"

definition UDiv_create :: "expr \<Rightarrow> expr \<Rightarrow> expr option" where
  "UDiv_create = BCREATE UDiv UDivExpr_create"

definition SDiv_create :: "expr \<Rightarrow> expr \<Rightarrow> expr option" where
  "SDiv_create = BCREATE SDiv SDivExpr_create"

definition URem_create :: "expr \<Rightarrow> expr \<Rightarrow> expr option" where
  "URem_create = BCREATE URem URemExpr_create"

definition SRem_create :: "expr \<Rightarrow> expr \<Rightarrow> expr option" where
  "SRem_create = BCREATE SRem SRemExpr_create"

definition Shl_create :: "expr \<Rightarrow> expr \<Rightarrow> expr option" where
  "Shl_create = BCREATE Shl ShlExpr_create"

definition LShr_create :: "expr \<Rightarrow> expr \<Rightarrow> expr option" where
  "LShr_create = BCREATE LShr LShrExpr_create"

definition AShr_create :: "expr \<Rightarrow> expr \<Rightarrow> expr option" where
  "AShr_create = BCREATE AShr AShrExpr_create"

subsection \<open>Comparisons\<close>

definition UltExpr_create :: "expr \<Rightarrow> expr \<Rightarrow> expr option" where
  "UltExpr_create l r =
     (if getWidth l = 1 then do { z \<leftarrow> createIsZero l; And_create z r }
      else Some (BinaryExpr Ult l r))"

definition UleExpr_create :: "expr \<Rightarrow> expr \<Rightarrow> expr option" where
  "UleExpr_create l r =
     (if getWidth l = 1 then do { z \<leftarrow> createIsZero l; Or_create z r }
      else Some (BinaryExpr Ule l r))"

definition SltExpr_create :: "expr \<Rightarrow> expr \<Rightarrow> expr option" where
  "SltExpr_create l r =
     (if getWidth l = 1 then do { z \<leftarrow> createIsZero r; And_create l z }
      else Some (BinaryExpr Slt l r))"

definition SleExpr_create :: "expr \<Rightarrow> expr \<Rightarrow> expr option" where
  "SleExpr_create l r =
     (if getWidth l = 1 then do { z \<leftarrow> createIsZero r; Or_create l z }
      else Some (BinaryExpr Sle l r))"

definition Ult_create :: "expr \<Rightarrow> expr \<Rightarrow> expr option" where
  "Ult_create = BCREATE Ult UltExpr_create"

definition Ule_create :: "expr \<Rightarrow> expr \<Rightarrow> expr option" where
  "Ule_create = BCREATE Ule UleExpr_create"

definition Slt_create :: "expr \<Rightarrow> expr \<Rightarrow> expr option" where
  "Slt_create = BCREATE Slt SltExpr_create"

definition Sle_create :: "expr \<Rightarrow> expr \<Rightarrow> expr option" where
  "Sle_create = BCREATE Sle SleExpr_create"

definition Ne_create :: "expr \<Rightarrow> expr \<Rightarrow> expr option" where
  "Ne_create l r =
     do { f \<leftarrow> ConstantExpr_create 0 1; e \<leftarrow> Eq_create l r; Eq_create (ConstantExpr f) e }"

definition Ugt_create :: "expr \<Rightarrow> expr \<Rightarrow> expr option" where
  "Ugt_create l r = Ult_create r l"

definition Uge_create :: "expr \<Rightarrow> expr \<Rightarrow> expr option" where
  "Uge_create l r = Ule_create r l"

definition Sgt_create :: "expr \<Rightarrow> expr \<Rightarrow> expr option" where
  "Sgt_create l r = Slt_create r l"

definition Sge_create :: "expr \<Rightarrow> expr \<Rightarrow> expr option" where
  "Sge_create l r = Sle_create r l"

subsection \<open>Negation, implication, selection, reads\<close>

definition Not_create :: "expr \<Rightarrow> expr option" where
  "Not_create e = (case e of ConstantExpr c \<Rightarrow> Some (ConstantExpr (ConstantExpr_Not c))
                           | _ \<Rightarrow> Some (NotExpr e))"

definition NotOptimized_create :: "expr \<Rightarrow> expr option" where
  "NotOptimized_create e = Some (NotOptimizedExpr e)"

definition createImplies :: "expr \<Rightarrow> expr \<Rightarrow> expr option" where
  "createImplies hyp conc = do { z \<leftarrow> createIsZero hyp; Or_create z conc }"

definition Select_create :: "expr \<Rightarrow> expr \<Rightarrow> expr \<Rightarrow> expr option" where
  "Select_create c t f =
     (if getWidth c \<noteq> 1 \<or> getWidth t \<noteq> getWidth f then None
      else (case c of
          ConstantExpr CE \<Rightarrow> Some (if ConstantExpr_isTrue CE then t else f)
        | _ \<Rightarrow>
          if t = f then Some t
          else if getWidth t = 1 then
            (case t of
                ConstantExpr CE \<Rightarrow>
                  if ConstantExpr_isTrue CE then Or_create c f
                  else do { z \<leftarrow> createIsZero c; And_create z f }
              | _ \<Rightarrow>
                (case f of
                    ConstantExpr CE \<Rightarrow>
                      if ConstantExpr_isTrue CE then do { z \<leftarrow> createIsZero c; Or_create z t }
                      else And_create c t
                  | _ \<Rightarrow> Some (SelectExpr c t f)))
          else Some (SelectExpr c t f)))"

text \<open>
  The loop of \<open>ReadExpr::create\<close> over the update list: it stops at a write that is
  certainly at the index (the value is returned), or at one that may be (\<open>Inr True\<close>:
  the list has symbolic writes), or at the end of the list (\<open>Inr False\<close>).
\<close>

fun Read_rollback :: "ulist \<Rightarrow> expr \<Rightarrow> (expr + bool) option" where
  "Read_rollback NoUpdates index = Some (Inr False)"
| "Read_rollback (UpdateNode next ui uv) index =
     do { cond \<leftarrow> Eq_create index ui;
          (case cond of
              ConstantExpr CE \<Rightarrow>
                if ConstantExpr_isTrue CE then Some (Inl uv) else Read_rollback next index
            | _ \<Rightarrow> Some (Inr True)) }"

definition Read_create :: "array \<Rightarrow> ulist \<Rightarrow> expr \<Rightarrow> expr option" where
  "Read_create root us index =
     do { s \<leftarrow> Read_rollback us index;
          (case s of
              Inl v \<Rightarrow> Some v
            | Inr symbolicWrites \<Rightarrow>
                (case index of
                    ConstantExpr CE \<Rightarrow>
                      if isConstantArray root \<and> \<not> symbolicWrites then
                        (if bitWidth CE > 64 then None
                         else if apval CE < int (arrSize root) then
                           (if nat (apval CE) < length (constantValues root)
                            then Some (ConstantExpr (constantValues root ! nat (apval CE))) else None)
                         else Some (ReadExpr root us index))
                      else Some (ReadExpr root us index)
                  | _ \<Rightarrow> Some (ReadExpr root us index))) }"

subsection \<open>Soundness\<close>

lemma bool_ops:
  fixes a b :: int
  assumes "a = 0 \<or> a = 1" and "b = 0 \<or> b = 1"
  shows "sem_bin Mul (Suc 0) a b = a AND b" "sem_bin Xor (Suc 0) a b = of_bool (a \<noteq> b)"
    "sem_bin Shl (Suc 0) a b = a AND of_bool (b = 0)" "sem_bin LShr (Suc 0) a b = a AND of_bool (b = 0)"
    "sem_bin AShr (Suc 0) a b = a" "sem_bin Ult (Suc 0) a b = of_bool (a = 0) AND b"
    "sem_bin Ule (Suc 0) a b = of_bool (a = 0) OR b" "sem_bin Slt (Suc 0) a b = a AND of_bool (b = 0)"
    "sem_bin Sle (Suc 0) a b = a OR of_bool (b = 0)"
    "b \<noteq> 0 \<Longrightarrow> sem_bin UDiv (Suc 0) a b = a" "b \<noteq> 0 \<Longrightarrow> sem_bin SDiv (Suc 0) a b = a"
    "b \<noteq> 0 \<Longrightarrow> sem_bin URem (Suc 0) a b = 0" "b \<noteq> 0 \<Longrightarrow> sem_bin SRem (Suc 0) a b = 0"
  using assms by (auto simp: signed_divide_int_def signed_modulo_int_def)

text \<open>Two boolean operands: the value of the built expression on the four cases.\<close>

lemma eval_bool_ops:
  assumes "env_ok \<sigma>" "wf_expr l" "wf_expr r" "getWidth l = Suc 0" "getWidth r = Suc 0"
  shows "sem_bin Mul (Suc 0) (eval l \<sigma>) (eval r \<sigma>) = eval l \<sigma> AND eval r \<sigma>"
    "sem_bin Xor (Suc 0) (eval l \<sigma>) (eval r \<sigma>) = of_bool (eval l \<sigma> \<noteq> eval r \<sigma>)"
    "sem_bin Shl (Suc 0) (eval l \<sigma>) (eval r \<sigma>) = eval l \<sigma> AND of_bool (eval r \<sigma> = 0)"
    "sem_bin LShr (Suc 0) (eval l \<sigma>) (eval r \<sigma>) = eval l \<sigma> AND of_bool (eval r \<sigma> = 0)"
    "sem_bin AShr (Suc 0) (eval l \<sigma>) (eval r \<sigma>) = eval l \<sigma>"
    "sem_bin Ult (Suc 0) (eval l \<sigma>) (eval r \<sigma>) = of_bool (eval l \<sigma> = 0) AND eval r \<sigma>"
    "sem_bin Ule (Suc 0) (eval l \<sigma>) (eval r \<sigma>) = of_bool (eval l \<sigma> = 0) OR eval r \<sigma>"
    "sem_bin Slt (Suc 0) (eval l \<sigma>) (eval r \<sigma>) = eval l \<sigma> AND of_bool (eval r \<sigma> = 0)"
    "sem_bin Sle (Suc 0) (eval l \<sigma>) (eval r \<sigma>) = eval l \<sigma> OR of_bool (eval r \<sigma> = 0)"
    "eval r \<sigma> \<noteq> 0 \<Longrightarrow> sem_bin UDiv (Suc 0) (eval l \<sigma>) (eval r \<sigma>) = eval l \<sigma>"
    "eval r \<sigma> \<noteq> 0 \<Longrightarrow> sem_bin SDiv (Suc 0) (eval l \<sigma>) (eval r \<sigma>) = eval l \<sigma>"
    "eval r \<sigma> \<noteq> 0 \<Longrightarrow> sem_bin URem (Suc 0) (eval l \<sigma>) (eval r \<sigma>) = 0"
    "eval r \<sigma> \<noteq> 0 \<Longrightarrow> sem_bin SRem (Suc 0) (eval l \<sigma>) (eval r \<sigma>) = 0"
  using bool_ops [OF eval_bool_cases [OF assms(1,2,4)] eval_bool_cases [OF assms(1,3,5)]]
  by blast+

lemma XorExpr_createPartialR_builds:
  assumes "wf_apint c" "wf_expr r" "bitWidth c = getWidth r"
  shows "builds (XorExpr_createPartialR c r) (getWidth r) (\<lambda>\<sigma>. apval c XOR eval r \<sigma>)"
proof (cases "\<not> ConstantExpr_isZero c \<and> bitWidth c = 1")
  case True
  then have c: "apval c = 1"
    using wf_apint_in_width [OF assms(1)] by (auto simp: ConstantExpr_isZero_def dest: in_width_1_cases)
  have "builds (EqExpr_createPartial r (ConstantExpr_alloc 0 1)) 1 (\<lambda>\<sigma>. of_bool (eval r \<sigma> = 0))"
    using EqExpr_createPartial_builds [of r "ConstantExpr_alloc 0 1"] assms True by simp
  then have "builds (EqExpr_createPartial r (ConstantExpr_alloc 0 1)) (getWidth r)
      (\<lambda>\<sigma>. apval c XOR eval r \<sigma>)"
    by (rule builds_if_cong) (use assms True c eval_bool_cases [of _ r] in \<open>force+\<close>)
  then show ?thesis using True by (simp add: XorExpr_createPartialR_def)
next
  case False
  then show ?thesis
    using assms by (auto simp: XorExpr_createPartialR_def ConstantExpr_isZero_def builds_Some_iff)
qed

lemma Xor_create_builds:
  assumes "wf_expr l" "wf_expr r" "getWidth l = getWidth r"
  shows "builds (Xor_create l r) (bin_width Xor (getWidth l)) (bin_val Xor l r)"
  unfolding Xor_create_def
  by (rule BCREATE_R_builds)
     (use assms XorExpr_createPartialR_builds [of _ l] XorExpr_createPartialR_builds [of _ r] in
       \<open>auto simp: isDivision_def XorExpr_createPartial_def XorExpr_create_def builds_Some_iff
         xor.commute\<close>)

lemma MulExpr_createPartialR_builds:
  assumes "wf_apint c" "wf_expr r" "bitWidth c = getWidth r"
  shows "builds (MulExpr_createPartialR c r) (getWidth r)
    (\<lambda>\<sigma>. take_bit (getWidth r) (apval c * eval r \<sigma>))"
proof (cases "bitWidth c = 1")
  case True
  have "builds (AndExpr_createPartial r c) (bitWidth c) (\<lambda>\<sigma>. eval r \<sigma> AND apval c)"
    using AndExpr_createPartial_builds [of r c] assms by simp
  then have "builds (AndExpr_createPartial r c) (getWidth r)
      (\<lambda>\<sigma>. take_bit (getWidth r) (apval c * eval r \<sigma>))"
    by (rule builds_if_cong)
       (use assms True eval_bool_ops(1) [of _ r "ConstantExpr c"] in \<open>auto simp: mult.commute\<close>)
  then show ?thesis using True by (simp add: MulExpr_createPartialR_def AndExpr_createPartialR_def)
next
  case False
  moreover have "apval c = 1" if "ConstantExpr_isOne c"
    using that by (auto simp: ConstantExpr_isOne_def min_def split: if_splits)
  ultimately show ?thesis
    using assms by (auto simp: MulExpr_createPartialR_def ConstantExpr_isZero_def builds_Some_iff)
qed

lemma Mul_create_builds:
  assumes "wf_expr l" "wf_expr r" "getWidth l = getWidth r"
  shows "builds (Mul_create l r) (bin_width Mul (getWidth l)) (bin_val Mul l r)"
  unfolding Mul_create_def
proof (rule BCREATE_R_builds)
  show "builds (MulExpr_create l r) (bin_width Mul (getWidth l)) (bin_val Mul l r)"
    using assms eval_bool_ops(1) [of _ l r] by (auto simp: MulExpr_create_def builds_Some_iff)
qed (use assms MulExpr_createPartialR_builds [of _ l] MulExpr_createPartialR_builds [of _ r] in
       \<open>auto simp: isDivision_def MulExpr_createPartial_def mult.commute\<close>)

text \<open>A static function that is the plain node except on booleans.\<close>

lemma BCREATE_bool_builds:
  assumes "wf_expr l" "wf_expr r" "getWidth l = getWidth r" "\<not> isDivision k"
    and "getWidth l \<noteq> Suc 0 \<Longrightarrow> cre l r = Some (BinaryExpr k l r)"
    and "getWidth l = Suc 0 \<Longrightarrow> getWidth r = Suc 0 \<Longrightarrow> builds (cre l r) (Suc 0) f"
    and "\<And>\<sigma>. getWidth l = Suc 0 \<Longrightarrow> getWidth r = Suc 0 \<Longrightarrow> env_ok \<sigma> \<Longrightarrow>
      sem_bin k (Suc 0) (eval l \<sigma>) (eval r \<sigma>) = f \<sigma>"
  shows "builds (BCREATE k cre l r) (bin_width k (getWidth l)) (bin_val k l r)"
proof (rule BCREATE_builds [OF assms(1-4)])
  show "builds (cre l r) (bin_width k (getWidth l)) (bin_val k l r)"
  proof (cases "getWidth l = Suc 0")
    case True
    then have "builds (cre l r) (Suc 0) f" using assms(3,6) by simp
    then show ?thesis
      by (rule builds_if_cong) (use True assms(3,7) in auto)
  next
    case False
    then show ?thesis using assms(5) builds_alloc [OF assms(1-3)] by simp
  qed
qed

text \<open>The four boolean combinations with a negated operand.\<close>

lemma negated_operand_builds:
  assumes "wf_expr l" "wf_expr r" "getWidth l = Suc 0" "getWidth r = Suc 0"
  shows "builds (do { z \<leftarrow> createIsZero r; And_create l z }) (Suc 0) (\<lambda>\<sigma>. eval l \<sigma> AND of_bool (eval r \<sigma> = 0))"
    and "builds (do { z \<leftarrow> createIsZero l; And_create z r }) (Suc 0) (\<lambda>\<sigma>. of_bool (eval l \<sigma> = 0) AND eval r \<sigma>)"
    and "builds (do { z \<leftarrow> createIsZero r; Or_create l z }) (Suc 0) (\<lambda>\<sigma>. eval l \<sigma> OR of_bool (eval r \<sigma> = 0))"
    and "builds (do { z \<leftarrow> createIsZero l; Or_create z r }) (Suc 0) (\<lambda>\<sigma>. of_bool (eval l \<sigma> = 0) OR eval r \<sigma>)"
proof -
  have z: "builds (createIsZero l) (getWidth r) (\<lambda>\<sigma>. of_bool (eval l \<sigma> = 0))"
    "builds (createIsZero r) (getWidth l) (\<lambda>\<sigma>. of_bool (eval r \<sigma> = 0))"
    using assms createIsZero_builds [of l] createIsZero_builds [of r] by simp_all
  show
    "builds (do { z \<leftarrow> createIsZero r; And_create l z }) (Suc 0) (\<lambda>\<sigma>. eval l \<sigma> AND of_bool (eval r \<sigma> = 0))"
    "builds (do { z \<leftarrow> createIsZero l; And_create z r }) (Suc 0) (\<lambda>\<sigma>. of_bool (eval l \<sigma> = 0) AND eval r \<sigma>)"
    "builds (do { z \<leftarrow> createIsZero r; Or_create l z }) (Suc 0) (\<lambda>\<sigma>. eval l \<sigma> OR of_bool (eval r \<sigma> = 0))"
    "builds (do { z \<leftarrow> createIsZero l; Or_create z r }) (Suc 0) (\<lambda>\<sigma>. of_bool (eval l \<sigma> = 0) OR eval r \<sigma>)"
    using conj.right_composed [OF assms(1) z(2)] conj.left_composed [OF z(1) assms(2)]
      disj.right_composed [OF assms(1) z(2)] disj.left_composed [OF z(1) assms(2)] assms
    by simp_all
qed

text \<open>
  The shifts and the comparisons share one proof: the plain node, or on booleans one of the
  combinations above.
\<close>

lemmas bool_builds_simps =
  isDivision_def eval_bool_ops builds_Some_iff negated_operand_builds ShlExpr_create_def
  LShrExpr_create_def AShrExpr_create_def UltExpr_create_def UleExpr_create_def
  SltExpr_create_def SleExpr_create_def

lemma Shl_create_builds:
  assumes "wf_expr l" "wf_expr r" "getWidth l = getWidth r"
  shows "builds (Shl_create l r) (bin_width Shl (getWidth l)) (bin_val Shl l r)"
  unfolding Shl_create_def
  by (rule BCREATE_bool_builds [where f = "\<lambda>\<sigma>. eval l \<sigma> AND of_bool (eval r \<sigma> = 0)"])
     (use assms in \<open>simp_all add: bool_builds_simps del: sem_bin.simps\<close>)

lemma LShr_create_builds:
  assumes "wf_expr l" "wf_expr r" "getWidth l = getWidth r"
  shows "builds (LShr_create l r) (bin_width LShr (getWidth l)) (bin_val LShr l r)"
  unfolding LShr_create_def
  by (rule BCREATE_bool_builds [where f = "\<lambda>\<sigma>. eval l \<sigma> AND of_bool (eval r \<sigma> = 0)"])
     (use assms in \<open>simp_all add: bool_builds_simps del: sem_bin.simps\<close>)

lemma AShr_create_builds:
  assumes "wf_expr l" "wf_expr r" "getWidth l = getWidth r"
  shows "builds (AShr_create l r) (bin_width AShr (getWidth l)) (bin_val AShr l r)"
  unfolding AShr_create_def
  by (rule BCREATE_bool_builds [where f = "\<lambda>\<sigma>. eval l \<sigma>"])
     (use assms in \<open>simp_all add: bool_builds_simps del: sem_bin.simps\<close>)

lemma Ult_create_builds:
  assumes "wf_expr l" "wf_expr r" "getWidth l = getWidth r"
  shows "builds (Ult_create l r) (bin_width Ult (getWidth l)) (bin_val Ult l r)"
  unfolding Ult_create_def
  by (rule BCREATE_bool_builds [where f = "\<lambda>\<sigma>. of_bool (eval l \<sigma> = 0) AND eval r \<sigma>"])
     (use assms in \<open>simp_all add: bool_builds_simps del: sem_bin.simps\<close>)

lemma Ule_create_builds:
  assumes "wf_expr l" "wf_expr r" "getWidth l = getWidth r"
  shows "builds (Ule_create l r) (bin_width Ule (getWidth l)) (bin_val Ule l r)"
  unfolding Ule_create_def
  by (rule BCREATE_bool_builds [where f = "\<lambda>\<sigma>. of_bool (eval l \<sigma> = 0) OR eval r \<sigma>"])
     (use assms in \<open>simp_all add: bool_builds_simps del: sem_bin.simps\<close>)

lemma Slt_create_builds:
  assumes "wf_expr l" "wf_expr r" "getWidth l = getWidth r"
  shows "builds (Slt_create l r) (bin_width Slt (getWidth l)) (bin_val Slt l r)"
  unfolding Slt_create_def
  by (rule BCREATE_bool_builds [where f = "\<lambda>\<sigma>. eval l \<sigma> AND of_bool (eval r \<sigma> = 0)"])
     (use assms in \<open>simp_all add: bool_builds_simps del: sem_bin.simps\<close>)

lemma Sle_create_builds:
  assumes "wf_expr l" "wf_expr r" "getWidth l = getWidth r"
  shows "builds (Sle_create l r) (bin_width Sle (getWidth l)) (bin_val Sle l r)"
  unfolding Sle_create_def
  by (rule BCREATE_bool_builds [where f = "\<lambda>\<sigma>. eval l \<sigma> OR of_bool (eval r \<sigma> = 0)"])
     (use assms in \<open>simp_all add: bool_builds_simps del: sem_bin.simps\<close>)

text \<open>
  A division is built unless the divisor is the constant zero, and its value is right for
  every assignment under which the divisor is not zero.
\<close>

lemma BCREATE_division_builds:
  assumes wf: "wf_expr l" "wf_expr r" "getWidth l = getWidth r"
    and nz: "\<And>c. r = ConstantExpr c \<Longrightarrow> apval c \<noteq> 0" and "\<not> isCmp k"
    and "getWidth l \<noteq> Suc 0 \<Longrightarrow> cre l r = Some (BinaryExpr k l r)"
    and "getWidth l = Suc 0 \<Longrightarrow> builds_if (\<lambda>\<sigma>. eval r \<sigma> \<noteq> 0) (cre l r) (getWidth l) (bin_val k l r)"
  shows "builds_if (\<lambda>\<sigma>. eval r \<sigma> \<noteq> 0) (BCREATE k cre l r) (getWidth l) (bin_val k l r)"
proof (cases "isConstantExpr l \<and> isConstantExpr r")
  case True
  then obtain cl cr where lr: "l = ConstantExpr cl" "r = ConstantExpr cr"
    by (cases l; cases r) auto
  then show ?thesis
    using ConstantExpr_op_sound [of cl cr k] wf nz assms(5)
    by (auto simp: BCREATE_def builds_if_def)
next
  case False
  then have "BCREATE k cre l r = cre l r"
    using wf(3) by (cases l; cases r) (simp_all add: BCREATE_def)
  then show ?thesis
    using assms builds_alloc [OF wf, of "\<lambda>\<sigma>. eval r \<sigma> \<noteq> 0" k]
    by (cases "getWidth l = Suc 0") simp_all
qed

lemmas division_builds_simps =
  eval_bool_ops builds_Some_iff UDivExpr_create_def SDivExpr_create_def URemExpr_create_def
  SRemExpr_create_def

lemma UDiv_create_builds:
  assumes "wf_expr l" "wf_expr r" "getWidth l = getWidth r" "\<And>c. r = ConstantExpr c \<Longrightarrow> apval c \<noteq> 0"
  shows "builds_if (\<lambda>\<sigma>. eval r \<sigma> \<noteq> 0) (UDiv_create l r) (getWidth l) (bin_val UDiv l r)"
  unfolding UDiv_create_def
  by (rule BCREATE_division_builds)
     (use assms in \<open>simp_all add: division_builds_simps del: sem_bin.simps\<close>)

lemma SDiv_create_builds:
  assumes "wf_expr l" "wf_expr r" "getWidth l = getWidth r" "\<And>c. r = ConstantExpr c \<Longrightarrow> apval c \<noteq> 0"
  shows "builds_if (\<lambda>\<sigma>. eval r \<sigma> \<noteq> 0) (SDiv_create l r) (getWidth l) (bin_val SDiv l r)"
  unfolding SDiv_create_def
  by (rule BCREATE_division_builds)
     (use assms in \<open>simp_all add: division_builds_simps del: sem_bin.simps\<close>)

lemma URem_create_builds:
  assumes "wf_expr l" "wf_expr r" "getWidth l = getWidth r" "\<And>c. r = ConstantExpr c \<Longrightarrow> apval c \<noteq> 0"
  shows "builds_if (\<lambda>\<sigma>. eval r \<sigma> \<noteq> 0) (URem_create l r) (getWidth l) (bin_val URem l r)"
  unfolding URem_create_def
  by (rule BCREATE_division_builds)
     (use assms in \<open>simp_all add: division_builds_simps del: sem_bin.simps\<close>)

lemma SRem_create_builds:
  assumes "wf_expr l" "wf_expr r" "getWidth l = getWidth r" "\<And>c. r = ConstantExpr c \<Longrightarrow> apval c \<noteq> 0"
  shows "builds_if (\<lambda>\<sigma>. eval r \<sigma> \<noteq> 0) (SRem_create l r) (getWidth l) (bin_val SRem l r)"
  unfolding SRem_create_def
  by (rule BCREATE_division_builds)
     (use assms in \<open>simp_all add: division_builds_simps del: sem_bin.simps\<close>)

lemma Ne_create_builds:
  assumes "wf_expr l" "wf_expr r" "getWidth l = getWidth r"
  shows "builds (Ne_create l r) (bin_width Ne (getWidth l)) (bin_val Ne l r)"
proof -
  let ?f = "ConstantExpr (ConstantExpr_alloc 0 1)"
  have "builds (do { e \<leftarrow> Eq_create l r; Eq_create ?f e }) (bin_width Eq (getWidth ?f))
      (\<lambda>\<sigma>. sem_bin Eq (getWidth ?f) (eval ?f \<sigma>) (of_bool (eval l \<sigma> = eval r \<sigma>)))"
    by (rule eq.right_composed) (use assms eq.mk_builds [of l r] in simp_all)
  then have "builds (do { e \<leftarrow> Eq_create l r; Eq_create ?f e }) 1 (\<lambda>\<sigma>. of_bool (eval l \<sigma> \<noteq> eval r \<sigma>))"
    by (rule builds_if_cong) auto
  then show ?thesis by (simp add: Ne_create_def)
qed

text \<open>The four mirrored comparisons swap their operands.\<close>

lemma swapped_builds:
  assumes "wf_expr l" "wf_expr r" "getWidth l = getWidth r"
  shows Ugt_create_builds: "builds (Ugt_create l r) (bin_width Ugt (getWidth l)) (bin_val Ugt l r)"
    and Uge_create_builds: "builds (Uge_create l r) (bin_width Uge (getWidth l)) (bin_val Uge l r)"
    and Sgt_create_builds: "builds (Sgt_create l r) (bin_width Sgt (getWidth l)) (bin_val Sgt l r)"
    and Sge_create_builds: "builds (Sge_create l r) (bin_width Sge (getWidth l)) (bin_val Sge l r)"
  using Ult_create_builds [of r l] Ule_create_builds [of r l] Slt_create_builds [of r l]
    Sle_create_builds [of r l] assms
  by (simp_all add: Ugt_create_def Uge_create_def Sgt_create_def Sge_create_def)

subsection \<open>Interpretations\<close>

interpretation excl: sound_binary Xor_create Xor
  by unfold_locales (rule Xor_create_builds)

interpretation prod: sound_binary Mul_create Mul
  by unfold_locales (rule Mul_create_builds)

interpretation shl: sound_binary Shl_create Shl
  by unfold_locales (rule Shl_create_builds)

interpretation lshr: sound_binary LShr_create LShr
  by unfold_locales (rule LShr_create_builds)

interpretation ashr: sound_binary AShr_create AShr
  by unfold_locales (rule AShr_create_builds)

interpretation ult: sound_binary Ult_create Ult
  by unfold_locales (rule Ult_create_builds)

interpretation ule: sound_binary Ule_create Ule
  by unfold_locales (rule Ule_create_builds)

interpretation slt: sound_binary Slt_create Slt
  by unfold_locales (rule Slt_create_builds)

interpretation sle: sound_binary Sle_create Sle
  by unfold_locales (rule Sle_create_builds)

interpretation neq: sound_binary Ne_create Ne
  by unfold_locales (rule Ne_create_builds)

interpretation ugt: sound_binary Ugt_create Ugt
  by unfold_locales (rule Ugt_create_builds)

interpretation uge: sound_binary Uge_create Uge
  by unfold_locales (rule Uge_create_builds)

interpretation sgt: sound_binary Sgt_create Sgt
  by unfold_locales (rule Sgt_create_builds)

interpretation sge: sound_binary Sge_create Sge
  by unfold_locales (rule Sge_create_builds)

subsection \<open>Negation, implication, selection and reads are sound\<close>

lemma Not_create_builds:
  assumes "wf_expr e"
  shows "builds (Not_create e) (getWidth e) (\<lambda>\<sigma>. 2 ^ getWidth e - 1 - eval e \<sigma>)"
  using assms not_in_width [OF wf_apint_in_width]
  by (cases e) (simp_all add: Not_create_def builds_Some_iff)

lemma createImplies_builds:
  assumes "wf_expr h" "wf_expr c" "getWidth c = 1"
  shows "builds (createImplies h c) 1 (\<lambda>\<sigma>. of_bool (eval h \<sigma> \<noteq> 0 \<longrightarrow> eval c \<sigma> \<noteq> 0))"
proof -
  have "builds (createImplies h c) (bin_width Or (getWidth c))
      (\<lambda>\<sigma>. sem_bin Or (getWidth c) (of_bool (eval h \<sigma> = 0)) (eval c \<sigma>))"
    unfolding createImplies_def
    by (rule disj.left_composed) (use assms createIsZero_builds [of h] in simp_all)
  then show ?thesis
    by (rule builds_if_cong) (use assms eval_bool_cases [of _ c] in force)+
qed

lemma isConstantExpr_iff: "isConstantExpr e \<longleftrightarrow> (\<exists>c. e = ConstantExpr c)"
  by (cases e) auto

lemma case_not_constant: "\<not> isConstantExpr e \<Longrightarrow>
  (case e of ConstantExpr c \<Rightarrow> f c | NotOptimizedExpr a \<Rightarrow> g | ReadExpr a b d \<Rightarrow> g
    | SelectExpr a b d \<Rightarrow> g | ConcatExpr a b \<Rightarrow> g | ExtractExpr a b d \<Rightarrow> g | ZExtExpr a b \<Rightarrow> g
    | SExtExpr a b \<Rightarrow> g | NotExpr a \<Rightarrow> g | BinaryExpr a b d \<Rightarrow> g) = g"
  by (cases e) auto

lemma bool_constant_value:
  assumes "wf_apint c" "bitWidth c = Suc 0"
  shows "apval c = of_bool (ConstantExpr_isTrue c)"
  using assms wf_apint_in_width [OF assms(1)]
  by (auto simp: ConstantExpr_isTrue_def dest: in_width_1_cases)

lemma Select_create_bool_builds:
  assumes "wf_expr c" "wf_expr t" "wf_expr f" "getWidth c = Suc 0" "getWidth t = Suc 0" "getWidth f = Suc 0"
    and "\<not> isConstantExpr c" "t \<noteq> f" "isConstantExpr t \<or> isConstantExpr f"
  shows "builds (Select_create c t f) (Suc 0) (\<lambda>\<sigma>. if eval c \<sigma> \<noteq> 0 then eval t \<sigma> else eval f \<sigma>)"
proof (cases "isConstantExpr t")
  case True
  then obtain k where k: "t = ConstantExpr k" by (auto simp: isConstantExpr_iff)
  have "builds (Select_create c t f) (Suc 0)
      (\<lambda>\<sigma>. if ConstantExpr_isTrue k then eval c \<sigma> OR eval f \<sigma> else of_bool (eval c \<sigma> = 0) AND eval f \<sigma>)"
    using assms k disj.mk_builds [of c f] negated_operand_builds(2) [of c f]
    by (simp add: Select_create_def case_not_constant)
  then show ?thesis
  proof (rule builds_if_cong)
    fix \<sigma>
    assume ok: "env_ok \<sigma>"
    then have "eval c \<sigma> = 0 \<or> eval c \<sigma> = 1" "eval f \<sigma> = 0 \<or> eval f \<sigma> = 1"
      using assms by (auto dest: eval_bool_cases)
    then show "True \<and> (if ConstantExpr_isTrue k then eval c \<sigma> OR eval f \<sigma> else of_bool (eval c \<sigma> = 0) AND eval f \<sigma>) = (if eval c \<sigma> \<noteq> 0 then eval t \<sigma> else eval f \<sigma>)"
      using assms k bool_constant_value [of k] by auto
  qed simp
next
  case False
  then obtain k where k: "f = ConstantExpr k" using assms(9) by (auto simp: isConstantExpr_iff)
  have "builds (Select_create c t f) (Suc 0)
      (\<lambda>\<sigma>. if ConstantExpr_isTrue k then of_bool (eval c \<sigma> = 0) OR eval t \<sigma> else eval c \<sigma> AND eval t \<sigma>)"
    using assms k False conj.mk_builds [of c t] negated_operand_builds(4) [of c t]
    by (simp add: Select_create_def case_not_constant)
  then show ?thesis
  proof (rule builds_if_cong)
    fix \<sigma>
    assume ok: "env_ok \<sigma>"
    then have "eval c \<sigma> = 0 \<or> eval c \<sigma> = 1" "eval t \<sigma> = 0 \<or> eval t \<sigma> = 1"
      using assms by (auto dest: eval_bool_cases)
    then show "True \<and> (if ConstantExpr_isTrue k then of_bool (eval c \<sigma> = 0) OR eval t \<sigma> else eval c \<sigma> AND eval t \<sigma>) = (if eval c \<sigma> \<noteq> 0 then eval t \<sigma> else eval f \<sigma>)"
      using assms k bool_constant_value [of k] by auto
  qed simp
qed

lemma Select_create_builds:
  assumes "wf_expr c" "wf_expr t" "wf_expr f" "getWidth c = Suc 0" "getWidth t = getWidth f"
  shows "builds (Select_create c t f) (getWidth t) (\<lambda>\<sigma>. if eval c \<sigma> \<noteq> 0 then eval t \<sigma> else eval f \<sigma>)"
proof -
  have node: "builds (Some (SelectExpr c t f)) (getWidth t)
      (\<lambda>\<sigma>. if eval c \<sigma> \<noteq> 0 then eval t \<sigma> else eval f \<sigma>)"
    using assms by (auto simp: builds_Some_iff)
  consider (const) k where "c = ConstantExpr k"
    | (same) "\<not> isConstantExpr c" "t = f"
    | (bool) "\<not> isConstantExpr c" "t \<noteq> f" "getWidth t = Suc 0" "isConstantExpr t \<or> isConstantExpr f"
    | (node) "\<not> isConstantExpr c" "t \<noteq> f" "getWidth t = Suc 0 \<longrightarrow> \<not> isConstantExpr t \<and> \<not> isConstantExpr f"
    by (auto simp: isConstantExpr_iff)
  then show ?thesis
  proof cases
    case const
    then show ?thesis
      using assms by (auto simp: Select_create_def ConstantExpr_isTrue_def builds_Some_iff)
  next
    case same
    then show ?thesis using assms by (simp add: Select_create_def case_not_constant builds_Some_iff)
  next
    case bool
    then show ?thesis using Select_create_bool_builds [of c t f] assms by simp
  next
    case node
    then have "Select_create c t f = Some (SelectExpr c t f)"
      using assms by (simp add: Select_create_def case_not_constant)
    with \<open>builds (Some (SelectExpr c t f)) _ _\<close> show ?thesis by simp
  qed
qed

text \<open>The roll-back of a read through its updates.\<close>

lemma Read_rollback_sound:
  assumes "wf_ulist us a" "wf_expr ix" "getWidth ix = arrDomain a"
  obtains (found) v where "Read_rollback us ix = Some (Inl v)" "wf_expr v" "getWidth v = arrRange a"
      "\<And>\<sigma>. env_ok \<sigma> \<Longrightarrow> ulookup us \<sigma> (eval ix \<sigma>) = Some (eval v \<sigma>)"
    | (untouched) "Read_rollback us ix = Some (Inr False)"
      "\<And>\<sigma>. env_ok \<sigma> \<Longrightarrow> ulookup us \<sigma> (eval ix \<sigma>) = None"
    | (symbolic) "Read_rollback us ix = Some (Inr True)"
proof -
  have "(\<exists>v. Read_rollback us ix = Some (Inl v) \<and> wf_expr v \<and> getWidth v = arrRange a \<and>
         (\<forall>\<sigma>. env_ok \<sigma> \<longrightarrow> ulookup us \<sigma> (eval ix \<sigma>) = Some (eval v \<sigma>))) \<or>
      Read_rollback us ix = Some (Inr False) \<and> (\<forall>\<sigma>. env_ok \<sigma> \<longrightarrow> ulookup us \<sigma> (eval ix \<sigma>) = None) \<or>
      Read_rollback us ix = Some (Inr True)"
    using assms
  proof (induction us ix rule: Read_rollback.induct)
    case (2 nxt ui uv ix)
    from 2 obtain cond where cond: "Eq_create ix ui = Some cond" "wf_expr cond" "getWidth cond = Suc 0"
      "\<And>\<sigma>. env_ok \<sigma> \<Longrightarrow> eval cond \<sigma> = of_bool (eval ix \<sigma> = eval ui \<sigma>)"
      using eq.mk_builds [of ix ui] by (auto elim!: builds_ifE)
    show ?case
    proof (cases "isConstantExpr cond")
      case True
      then obtain c where c: "cond = ConstantExpr c" by (auto simp: isConstantExpr_iff)
      then have eq: "eval ui \<sigma> = eval ix \<sigma> \<longleftrightarrow> ConstantExpr_isTrue c" if "env_ok \<sigma>" for \<sigma>
        using cond(2,3) cond(4) [OF that] bool_constant_value [of c] by auto
      show ?thesis
      proof (cases "ConstantExpr_isTrue c")
        case True
        then show ?thesis using 2 c cond(1) eq by simp
      next
        case False
        with 2 c cond(1) eq show ?thesis by auto
      qed
    next
      case False
      then show ?thesis using cond(1) by (simp add: case_not_constant)
    qed
  qed simp
  then show thesis using that by blast
qed

lemma Read_create_builds:
  assumes "wf_array a" "wf_ulist us a" "wf_expr ix" "getWidth ix = arrDomain a"
  shows "builds (Read_create a us ix) (arrRange a) (eval (ReadExpr a us ix))"
  using assms(2-4)
proof (cases rule: Read_rollback_sound)
  case (found v)
  then show ?thesis by (simp add: Read_create_def builds_Some_iff)
next
  case symbolic
  then show ?thesis using assms
    by (cases "isConstantExpr ix") (auto simp: Read_create_def isConstantExpr_iff case_not_constant builds_Some_iff)
next
  case untouched
  show ?thesis
  proof (cases "isConstantArray a \<and> (\<exists>c. ix = ConstantExpr c \<and> apval c < int (arrSize a))")
    case True
    then obtain c where c: "ix = ConstantExpr c" "apval c < int (arrSize a)" by blast
    then have "nat (apval c) < length (constantValues a)" "0 \<le> apval c"
      using True assms wf_apint_in_width [of c] by (auto simp: wf_array_def isConstantArray_def in_width_def)
    moreover from this have "wf_apint (constantValues a ! nat (apval c))"
      "bitWidth (constantValues a ! nat (apval c)) = arrRange a"
      using assms(1) by (simp_all add: wf_array_def list_all_length)
    ultimately show ?thesis
      using True c untouched assms
      by (auto simp: Read_create_def builds_Some_iff initial_def wf_array_def)
  next
    case False
    then have "Read_create a us ix = Some (ReadExpr a us ix)"
      using untouched(1) assms
      by (cases "isConstantExpr ix")
         (auto simp: Read_create_def isConstantExpr_iff case_not_constant wf_array_def)
    then show ?thesis using assms by (simp add: builds_Some_iff)
  qed
qed

end
