(* ===== verification/Expr_Linear.thy ===== *)
theory Expr_Linear
  imports Expr_Arith
begin

text \<open>
  Sums and differences of \<^verbatim>\<open>klee/lib/Expr/Expr.cpp\<close>. The constructors move constants to
  the left and fold them, calling each other on their own results, so their termination
  rests on a bound for the size of what they build.
\<close>

subsection \<open>The constructors\<close>

text \<open>The test \<open>kind == k && isa<ConstantExpr>(getKid(0))\<close>, with the two kids.\<close>

fun const_left :: "bkind \<Rightarrow> expr \<Rightarrow> (apint \<times> expr) option" where
  "const_left k (BinaryExpr k' (ConstantExpr c) x) = (if k = k' then Some (c, x) else None)"
| "const_left k _ = None"

lemma const_left_eq_Some [simp]:
  "const_left k e = Some p \<longleftrightarrow> (\<exists>c x. p = (c, x) \<and> e = BinaryExpr k (ConstantExpr c) x)"
  by (cases "(k, e)" rule: const_left.cases) auto

function (sequential)
    Add_create :: "expr \<Rightarrow> expr \<Rightarrow> expr option"
and Sub_create :: "expr \<Rightarrow> expr \<Rightarrow> expr option"
and AddExpr_createPartial :: "expr \<Rightarrow> apint \<Rightarrow> expr option"
and AddExpr_createPartialR :: "apint \<Rightarrow> expr \<Rightarrow> expr option"
and AddExpr_create :: "expr \<Rightarrow> expr \<Rightarrow> expr option"
and SubExpr_createPartial :: "expr \<Rightarrow> apint \<Rightarrow> expr option"
and SubExpr_createPartialR :: "apint \<Rightarrow> expr \<Rightarrow> expr option"
and SubExpr_create :: "expr \<Rightarrow> expr \<Rightarrow> expr option"
where
  "Add_create l r = BCREATE_R Add AddExpr_createPartial AddExpr_createPartialR AddExpr_create l r"
| "Sub_create l r = BCREATE_R Sub SubExpr_createPartial SubExpr_createPartialR SubExpr_create l r"
| "AddExpr_createPartial l cr = AddExpr_createPartialR cr l"
| "AddExpr_createPartialR cl r =
     (if bitWidth cl = 1 then XorExpr_createPartialR cl r
      else if ConstantExpr_isZero cl then Some r
      else (case const_left Add r of
          Some (k, c) \<Rightarrow> do { x \<leftarrow> Add_create (ConstantExpr cl) (ConstantExpr k); Add_create x c }
        | None \<Rightarrow> (case const_left Sub r of
              Some (k, c) \<Rightarrow> do { x \<leftarrow> Add_create (ConstantExpr cl) (ConstantExpr k); Sub_create x c }
            | None \<Rightarrow> Some (BinaryExpr Add (ConstantExpr cl) r))))"
| "AddExpr_create l r =
     (if getWidth l = 1 then XorExpr_create l r
      else (case const_left Add l of
          Some (k, a) \<Rightarrow> do { x \<leftarrow> Add_create a r; Add_create (ConstantExpr k) x }
        | None \<Rightarrow> (case const_left Sub l of
              Some (k, a) \<Rightarrow> do { x \<leftarrow> Sub_create r a; Add_create (ConstantExpr k) x }
            | None \<Rightarrow> (case const_left Add r of
                  Some (k, b) \<Rightarrow> do { x \<leftarrow> Add_create l b; Add_create (ConstantExpr k) x }
                | None \<Rightarrow> (case const_left Sub r of
                      Some (k, b) \<Rightarrow> do { x \<leftarrow> Sub_create l b; Add_create (ConstantExpr k) x }
                    | None \<Rightarrow> Some (BinaryExpr Add l r))))))"
| "SubExpr_createPartial l cr =
     AddExpr_createPartial l (ConstantExpr_Sub (ConstantExpr_alloc 0 (bitWidth cr)) cr)"
| "SubExpr_createPartialR cl r =
     (if bitWidth cl = 1 then XorExpr_createPartialR cl r
      else (case const_left Add r of
          Some (k, c) \<Rightarrow> do { x \<leftarrow> Sub_create (ConstantExpr cl) (ConstantExpr k); Sub_create x c }
        | None \<Rightarrow> (case const_left Sub r of
              Some (k, c) \<Rightarrow> do { x \<leftarrow> Sub_create (ConstantExpr cl) (ConstantExpr k); Add_create x c }
            | None \<Rightarrow> Some (BinaryExpr Sub (ConstantExpr cl) r))))"
| "SubExpr_create l r =
     (if getWidth l = 1 then XorExpr_create l r
      else if l = r then Some (ConstantExpr (ConstantExpr_alloc 0 (getWidth l)))
      else (case const_left Add l of
          Some (k, a) \<Rightarrow> do { x \<leftarrow> Sub_create a r; Add_create (ConstantExpr k) x }
        | None \<Rightarrow> (case const_left Sub l of
              Some (k, a) \<Rightarrow> do { x \<leftarrow> Add_create a r; Sub_create (ConstantExpr k) x }
            | None \<Rightarrow> (case const_left Add r of
                  Some (k, b) \<Rightarrow> do { x \<leftarrow> Sub_create l b; Sub_create x (ConstantExpr k) }
                | None \<Rightarrow> (case const_left Sub r of
                      Some (k, b) \<Rightarrow> do { x \<leftarrow> Add_create l b; Sub_create x (ConstantExpr k) }
                    | None \<Rightarrow> Some (BinaryExpr Sub l r))))))"
  by pat_completeness auto

subsection \<open>The size of the results, and termination\<close>

lemma BCREATE_R_cases:
  assumes "BCREATE_R k pl pr cre l r = Some x"
  obtains (const) cl cr c where "l = ConstantExpr cl" "r = ConstantExpr cr" "bitWidth cl = bitWidth cr"
      "ConstantExpr_op k cl cr = Some c" "x = ConstantExpr c"
    | (right) c where "l = ConstantExpr c" "\<not> isConstantExpr r" "bitWidth c = getWidth r" "pr c r = Some x"
    | (left) c where "\<not> isConstantExpr l" "r = ConstantExpr c" "getWidth l = bitWidth c" "pl l c = Some x"
    | (none) "\<not> isConstantExpr l" "\<not> isConstantExpr r" "getWidth l = getWidth r" "cre l r = Some x"
proof -
  from assms have w: "getWidth l = getWidth r" by (auto simp: BCREATE_R_def split: if_splits)
  show thesis
  proof (cases "isConstantExpr l")
    case True
    then obtain cl where l: "l = ConstantExpr cl" by (auto simp: isConstantExpr_iff)
    show thesis
    proof (cases "isConstantExpr r")
      case True
      then obtain cr where "r = ConstantExpr cr" by (auto simp: isConstantExpr_iff)
      with assms w l show thesis by (auto simp: BCREATE_R_def intro: const)
    next
      case False
      with assms w l show thesis by (auto simp: BCREATE_R_simps(2) intro: right)
    qed
  next
    case False
    then show thesis
      using assms w left none BCREATE_R_simps(1,3) [OF w False] by (cases "isConstantExpr r")
        (auto simp: isConstantExpr_iff)
  qed
qed

lemma And_create_size:
  assumes "And_create l r = Some x"
  shows "(getWidth l = 1 \<longrightarrow> getWidth x = 1) \<and> esize x \<le> 1 + esize l + esize r"
  using assms unfolding And_create_def
  by (cases rule: BCREATE_R_cases)
     (auto simp: AndExpr_createPartialR_def AndExpr_createPartial_def AndExpr_create_def
        ConstantExpr_And_def split: if_splits)

lemma EqExpr_create_width: "EqExpr_create l r = Some x \<Longrightarrow> getWidth x = 1"
  by (auto simp: EqExpr_create_def split: if_splits)

lemma eq_nonbool_cases:
  assumes "EqExpr_createPartialR cl r = Some x" and nb: "bitWidth cl \<noteq> 1"
  obtains (sext) src w where "r = SExtExpr src w"
      "cl = ConstantExpr_SExt (ConstantExpr_ZExt cl (getWidth src)) (bitWidth cl)"
      "Eq_create src (ConstantExpr (ConstantExpr_ZExt cl (getWidth src))) = Some x"
    | (zext) src w where "r = ZExtExpr src w"
      "cl = ConstantExpr_ZExt (ConstantExpr_ZExt cl (getWidth src)) (bitWidth cl)"
      "Eq_create src (ConstantExpr (ConstantExpr_ZExt cl (getWidth src))) = Some x"
    | (add) c1 y d where "r = BinaryExpr Add (ConstantExpr c1) y" "Sub_constants cl c1 = Some d"
      "EqExpr_createPartialR d y = Some x"
    | (sub) c1 y d where "r = BinaryExpr Sub (ConstantExpr c1) y" "Sub_constants c1 cl = Some d"
      "EqExpr_createPartialR d y = Some x"
    | (bool) "getWidth x = 1"
proof -
  consider (SX) src w where "r = SExtExpr src w" | (ZX) src w where "r = ZExtExpr src w"
    | (LN) k c1 y where "r = BinaryExpr k (ConstantExpr c1) y" "k = Add \<or> k = Sub"
    | (other) "EqExpr_createPartialR cl r = EqExpr_create (ConstantExpr cl) r"
    using eq_other [OF nb, of r] by blast
  then show thesis
  proof cases
    case SX
    with assms show thesis
      by (auto simp: EqExpr_createPartialR.simps [of cl "SExtExpr src w"] Let_def split: if_splits
          intro: sext bool)
  next
    case ZX
    with assms show thesis
      by (auto simp: EqExpr_createPartialR.simps [of cl "ZExtExpr src w"] Let_def split: if_splits
          intro: zext bool)
  next
    case LN
    with assms show thesis
      by (auto simp: EqExpr_createPartialR.simps [of cl "BinaryExpr _ _ _"] bind_eq_Some_conv
          intro: add sub)
  next
    case other
    with assms show thesis by (auto intro: bool dest: EqExpr_create_width)
  qed
qed

lemma Eq_group_size:
  fixes c2 c3 :: apint and a2 a3 :: array and us2 us3 :: ulist and ix2 ix3 res3 :: expr
    and i3 n3 :: nat
  shows "Eq_create l r = Some x \<Longrightarrow> getWidth x = 1 \<or> isConstantExpr r \<and> esize x \<le> esize l \<or>
      isConstantExpr l \<and> esize x \<le> esize r"
    and "createIsZero e = Some x \<Longrightarrow> getWidth x = 1 \<or> esize x \<le> esize e"
    and EqExpr_createPartial_size: "EqExpr_createPartial l' cr = Some x \<Longrightarrow> getWidth x = 1 \<or> esize x \<le> esize l'"
    and "EqExpr_createPartialR cl r' = Some x \<Longrightarrow> getWidth x = 1 \<or> esize x \<le> esize r'"
    and "True" and "True"
proof (induction l r and e and l' cr and cl r' and c2 a2 us2 ix2 and c3 a3 us3 ix3 i3 n3 res3
    arbitrary: x and x and x and x
    rule: Eq_create_createIsZero_EqExpr_createPartial_EqExpr_createPartialR_TryConstArrayOpt_TryConstArrayOpt_loop.induct)
  case (1 l r)
  from "1.prems" have "BCREATE_R Eq EqExpr_createPartial EqExpr_createPartialR EqExpr_create l r = Some x"
    by (simp add: Eq_create.simps [of l r])
  then show ?case
  proof (cases rule: BCREATE_R_cases)
    case (right c)
    then have "getWidth l = getWidth r" by simp
    from "1.IH"(2) [OF this refl right(1) [symmetric] right(2,4)] right(1) show ?thesis by auto
  next
    case (left c)
    then have "getWidth l = getWidth r" by simp
    from "1.IH"(1) [OF this refl left(1) left(2) [symmetric] left(4)] left(2) show ?thesis by auto
  qed (auto simp: ConstantExpr_Eq_def dest: EqExpr_create_width)
next
  case (2 e)
  from "2.prems" obtain z where z: "ConstantExpr_create 0 (getWidth e) = Some z"
    "Eq_create e (ConstantExpr z) = Some x"
    by (auto simp: createIsZero.simps [of e] bind_eq_Some_conv)
  show ?case
  proof (cases "isConstantExpr e")
    case True
    then obtain c where e: "e = ConstantExpr c" by (auto simp: isConstantExpr_iff)
    then have "getWidth x = 1"
      using z by (auto simp: Eq_create.simps [of "ConstantExpr c"] BCREATE_R_def ConstantExpr_Eq_def split: if_splits)
    then show ?thesis by simp
  next
    case False
    then show ?thesis using "2.IH" [OF z] by auto
  qed
next
  case (3 l cr)
  then show ?case by (simp add: EqExpr_createPartial.simps)
next
  case (4 cl r)
  show ?case
  proof (cases "bitWidth cl = 1")
    case True
    show ?thesis
    proof (cases "\<exists>a b. r = BinaryExpr Or a b \<and> \<not> ConstantExpr_isTrue cl")
      case or: True
      then obtain a b where r: "r = BinaryExpr Or a b" "\<not> ConstantExpr_isTrue cl" by blast
      then obtain y z where yz: "createIsZero a = Some y" "createIsZero b = Some z" "And_create y z = Some x"
        using "4.prems" True unfolding r(1)
        by (auto simp: EqExpr_createPartialR.simps [of cl "BinaryExpr Or a b"] bind_eq_Some_conv)
      have "getWidth y = 1 \<or> esize y \<le> esize a" "getWidth z = 1 \<or> esize z \<le> esize b"
        using "4.IH"(1) [OF True r(2,1) refl yz(1)] "4.IH"(2) [OF True r(2,1) refl yz(1) yz(2)] .
      moreover have "getWidth y = getWidth z"
        using yz(3) by (auto simp: And_create_def BCREATE_R_def split: if_splits)
      ultimately show ?thesis
        using And_create_size [OF yz(3)] r(1) by auto
    next
      case False
      then show ?thesis
        using "4.prems" True
        by (cases r) (auto simp: EqExpr_createPartialR.simps [of cl] dest: EqExpr_create_width
            split: bkind.splits expr.splits if_splits)
    qed
  next
    case False
    show ?thesis
      using "4.prems" False
    proof (cases rule: eq_nonbool_cases)
      case (sext src w)
      from "4.IH"(5) [OF False sext(1) refl sext(2) sext(3)] sext(1) show ?thesis by auto
    next
      case (zext src w)
      from "4.IH"(4) [OF False zext(1) refl zext(2) zext(3)] zext(1) show ?thesis by auto
    next
      case (add c1 y d)
      from "4.IH"(6) [OF False add(1) refl refl add(2) add(3)] add(1) show ?thesis by auto
    next
      case (sub c1 y d)
      from "4.IH"(7) [OF False sub(1) refl refl sub(2) sub(3)] sub(1) show ?thesis by auto
    qed simp
  qed
qed auto

lemma XorExpr_createPartialR_size:
  assumes "XorExpr_createPartialR cl r = Some x"
  shows "getWidth x = 1 \<or> esize x \<le> esize r + 2"
  using assms EqExpr_createPartial_size [of r]
  by (fastforce simp: XorExpr_createPartialR_def bind_eq_Some_conv split: if_splits)

definition lin_bound :: "expr \<Rightarrow> expr \<Rightarrow> expr \<Rightarrow> bool" where
  "lin_bound l r x \<longleftrightarrow> (getWidth x = 1 \<or> esize x \<le> esize l + esize r + 1) \<and>
     (getWidth l \<noteq> 1 \<longrightarrow> getWidth x = getWidth l)"

definition lin_result :: "expr \<Rightarrow> expr \<Rightarrow> expr \<Rightarrow> bool" where
  "lin_result l r x \<longleftrightarrow> getWidth l = getWidth r \<and>
     (isConstantExpr l \<and> isConstantExpr r \<longrightarrow> isConstantExpr x) \<and> lin_bound l r x"

lemma isConstantExpr_esize: "isConstantExpr x \<Longrightarrow> esize x = 1"
  by (auto simp: isConstantExpr_iff)

lemma lin_result_const:
  "lin_result (ConstantExpr a) (ConstantExpr b) x \<Longrightarrow> esize x = 1 \<and> isConstantExpr x"
  by (simp add: lin_result_def isConstantExpr_esize)

lemma lin_bound_fold:
  assumes "lin_result (ConstantExpr cl) (ConstantExpr k) y" and "lin_result y c x"
    and "bitWidth cl \<noteq> 1" and "r = BinaryExpr op (ConstantExpr k) c"
  shows "lin_bound (ConstantExpr cl) r x"
  using assms lin_result_const [OF assms(1)] by (auto simp: lin_result_def lin_bound_def)

lemma lin_bound_move:
  assumes "lin_result a b y" and "lin_result (ConstantExpr k) y x \<or> lin_result y (ConstantExpr k) x"
    and "bitWidth k \<noteq> 1" "getWidth l = bitWidth k"
    and "esize a + esize b + 2 = esize l + esize r"
  shows "lin_bound l r x"
  using assms by (auto simp: lin_result_def lin_bound_def)

lemma BCREATE_R_lin_result:
  assumes "BCREATE_R k pl pr cre l r = Some x" and "k = Add \<or> k = Sub"
    and "\<And>c. l = ConstantExpr c \<Longrightarrow> \<not> isConstantExpr r \<Longrightarrow> getWidth l = getWidth r \<Longrightarrow>
      pr c r = Some x \<Longrightarrow> lin_bound l r x"
    and "\<And>c. r = ConstantExpr c \<Longrightarrow> \<not> isConstantExpr l \<Longrightarrow> getWidth l = getWidth r \<Longrightarrow>
      pl l c = Some x \<Longrightarrow> lin_bound l r x"
    and "\<not> isConstantExpr l \<Longrightarrow> \<not> isConstantExpr r \<Longrightarrow> getWidth l = getWidth r \<Longrightarrow>
      cre l r = Some x \<Longrightarrow> lin_bound l r x"
  shows "lin_result l r x"
  using assms(1)
proof (cases rule: BCREATE_R_cases)
  case const
  then show ?thesis using assms(2)
    by (auto simp: lin_result_def lin_bound_def)
qed (use assms(3-5) in \<open>auto simp: lin_result_def\<close>)

abbreviation "lin_dom \<equiv> Add_create_Sub_create_AddExpr_createPartial_AddExpr_createPartialR_AddExpr_create_SubExpr_createPartial_SubExpr_createPartialR_SubExpr_create_dom"

lemma const_sides:
  obtains (addl) k a where "const_left Add l = Some (k, a)"
    | (subl) k a where "const_left Add l = None" "const_left Sub l = Some (k, a)"
    | (addr) k b where "const_left Add l = None" "const_left Sub l = None" "const_left Add r = Some (k, b)"
    | (subr) k b where "const_left Add l = None" "const_left Sub l = None" "const_left Add r = None"
        "const_left Sub r = Some (k, b)"
    | (none) "const_left Add l = None" "const_left Sub l = None" "const_left Add r = None"
        "const_left Sub r = None"
  by (metis option.exhaust prod.exhaust)

lemma lin_group_bound:
  shows "lin_dom (Inl (Inl (Inl (l1, r1)))) \<Longrightarrow> Add_create l1 r1 = Some x \<Longrightarrow> lin_result l1 r1 x"
    and "lin_dom (Inl (Inl (Inr (l2, r2)))) \<Longrightarrow> Sub_create l2 r2 = Some x \<Longrightarrow> lin_result l2 r2 x"
    and "lin_dom (Inl (Inr (Inl (l3, c3)))) \<Longrightarrow> AddExpr_createPartial l3 c3 = Some x \<Longrightarrow> getWidth l3 = bitWidth c3 \<Longrightarrow>
      lin_bound l3 (ConstantExpr c3) x"
    and "lin_dom (Inl (Inr (Inr (c4, r4)))) \<Longrightarrow> AddExpr_createPartialR c4 r4 = Some x \<Longrightarrow> bitWidth c4 = getWidth r4 \<Longrightarrow>
      lin_bound (ConstantExpr c4) r4 x"
    and "lin_dom (Inr (Inl (Inl (l5, r5)))) \<Longrightarrow> AddExpr_create l5 r5 = Some x \<Longrightarrow> getWidth l5 = getWidth r5 \<Longrightarrow>
      lin_bound l5 r5 x"
    and "lin_dom (Inr (Inl (Inr (l6, c6)))) \<Longrightarrow> SubExpr_createPartial l6 c6 = Some x \<Longrightarrow> getWidth l6 = bitWidth c6 \<Longrightarrow>
      lin_bound l6 (ConstantExpr c6) x"
    and "lin_dom (Inr (Inr (Inl (c7, r7)))) \<Longrightarrow> SubExpr_createPartialR c7 r7 = Some x \<Longrightarrow> bitWidth c7 = getWidth r7 \<Longrightarrow>
      lin_bound (ConstantExpr c7) r7 x"
    and "lin_dom (Inr (Inr (Inr (l8, r8)))) \<Longrightarrow> SubExpr_create l8 r8 = Some x \<Longrightarrow> getWidth l8 = getWidth r8 \<Longrightarrow>
      lin_bound l8 r8 x"
proof (induction l1 r1 and l2 r2 and l3 c3 and c4 r4 and l5 r5 and l6 c6 and c7 r7 and l8 r8
    arbitrary: x and x and x and x and x and x and x and x
    rule: Add_create_Sub_create_AddExpr_createPartial_AddExpr_createPartialR_AddExpr_create_SubExpr_createPartial_SubExpr_createPartialR_SubExpr_create.pinduct)
  case (1 l r)
  show ?case
    by (rule BCREATE_R_lin_result [OF "1.prems" [unfolded Add_create.psimps [OF "1.hyps"]]])
       (use "1.IH" in \<open>simp_all add: eq_commute\<close>)
next
  case (2 l r)
  show ?case
    by (rule BCREATE_R_lin_result [OF "2.prems" [unfolded Sub_create.psimps [OF "2.hyps"]]])
       (use "2.IH" in \<open>simp_all add: eq_commute\<close>)
next
  case (3 l cr)
  then show ?case by (simp add: AddExpr_createPartial.psimps lin_bound_def add.commute)
next
  case (4 cl r)
  note step = "4.prems"(1) [unfolded AddExpr_createPartialR.psimps [OF "4.hyps"]]
  consider (bool) "bitWidth cl = 1"
    | (addc) k c where "bitWidth cl \<noteq> 1" "const_left Add r = Some (k, c)"
    | (subc) k c where "bitWidth cl \<noteq> 1" "const_left Add r = None" "const_left Sub r = Some (k, c)"
    | (other) "bitWidth cl \<noteq> 1" "const_left Add r = None" "const_left Sub r = None"
    by (cases "const_left Add r"; cases "const_left Sub r") fastforce+
  then show ?case
  proof cases
    case bool
    then show ?thesis
      using step "4.prems"(2) XorExpr_createPartialR_size [of cl r x]
      by (auto simp: lin_bound_def)
  next
    case addc
    show ?thesis
    proof (cases "ConstantExpr_isZero cl")
      case True
      with addc step "4.prems"(2) show ?thesis
        by (auto simp: lin_bound_def)
    next
      case False
      with addc step obtain y where y: "Add_create (ConstantExpr cl) (ConstantExpr k) = Some y"
        "Add_create y c = Some x"
        by (auto simp: bind_eq_Some_conv)
      show ?thesis
        by (rule lin_bound_fold [OF "4.IH"(3) [OF addc(1) False addc(2) refl y(1)]
              "4.IH"(4) [OF addc(1) False addc(2) refl y]]) (use addc in auto)
    qed
  next
    case subc
    show ?thesis
    proof (cases "ConstantExpr_isZero cl")
      case True
      with subc step "4.prems"(2) show ?thesis
        by (auto simp: lin_bound_def)
    next
      case False
      with subc step obtain y where y: "Add_create (ConstantExpr cl) (ConstantExpr k) = Some y"
        "Sub_create y c = Some x"
        by (auto simp: bind_eq_Some_conv)
      show ?thesis
        by (rule lin_bound_fold [OF "4.IH"(1) [OF subc(1) False subc(2,3) refl y(1)]
              "4.IH"(2) [OF subc(1) False subc(2,3) refl y]]) (use subc in auto)
    qed
  next
    case other
    then show ?thesis
      using step "4.prems"(2) by (auto simp: lin_bound_def split: if_splits)
  qed
next
  case (5 l r)
  note step = "5.prems"(1) [unfolded AddExpr_create.psimps [OF "5.hyps"]]
  show ?case
  proof (cases "getWidth l = 1")
    case True
    with step "5.prems"(2) show ?thesis
      by (auto simp: XorExpr_create_def lin_bound_def split: if_splits)
  next
    case False
    then have w: "getWidth l \<noteq> 1" by auto
    show ?thesis
    proof (cases rule: const_sides [where l = l and r = r])
      case (addl k a)
      with w step obtain y where y: "Add_create a r = Some y" "Add_create (ConstantExpr k) y = Some x"
        by (auto simp: bind_eq_Some_conv)
      note first = "5.IH"(7) [OF w addl refl y(1)] and second = "5.IH"(8) [OF w addl refl y]
      show ?thesis
        by (rule lin_bound_move [OF first, of k]) (use second w addl "5.prems"(2) in auto)
    next
      case (subl k a)
      with w step obtain y where y: "Sub_create r a = Some y" "Add_create (ConstantExpr k) y = Some x"
        by (auto simp: bind_eq_Some_conv)
      note first = "5.IH"(5) [OF w subl refl y(1)] and second = "5.IH"(6) [OF w subl refl y]
      show ?thesis
        by (rule lin_bound_move [OF first, of k]) (use second w subl "5.prems"(2) in auto)
    next
      case (addr k b)
      with w step obtain y where y: "Add_create l b = Some y" "Add_create (ConstantExpr k) y = Some x"
        by (auto simp: bind_eq_Some_conv)
      note first = "5.IH"(3) [OF w addr refl y(1)] and second = "5.IH"(4) [OF w addr refl y]
      show ?thesis
        by (rule lin_bound_move [OF first, of k]) (use second w addr "5.prems"(2) in auto)
    next
      case (subr k b)
      with w step obtain y where y: "Sub_create l b = Some y" "Add_create (ConstantExpr k) y = Some x"
        by (auto simp: bind_eq_Some_conv)
      note first = "5.IH"(1) [OF w subr refl y(1)] and second = "5.IH"(2) [OF w subr refl y]
      show ?thesis
        by (rule lin_bound_move [OF first, of k]) (use second w subr "5.prems"(2) in auto)
    next
      case none
      with w step "5.prems"(2) show ?thesis
        by (auto simp: lin_bound_def)
    qed
  qed
next
  case (6 l cr)
  then show ?case by (simp add: SubExpr_createPartial.psimps lin_bound_def)
next
  case (7 cl r)
  note step = "7.prems"(1) [unfolded SubExpr_createPartialR.psimps [OF "7.hyps"]]
  consider (bool) "bitWidth cl = 1"
    | (addc) k c where "bitWidth cl \<noteq> 1" "const_left Add r = Some (k, c)"
    | (subc) k c where "bitWidth cl \<noteq> 1" "const_left Add r = None" "const_left Sub r = Some (k, c)"
    | (other) "bitWidth cl \<noteq> 1" "const_left Add r = None" "const_left Sub r = None"
    by (cases "const_left Add r"; cases "const_left Sub r") fastforce+
  then show ?case
  proof cases
    case bool
    then show ?thesis
      using step "7.prems"(2) XorExpr_createPartialR_size [of cl r x]
      by (auto simp: lin_bound_def)
  next
    case addc
    with step obtain y where y: "Sub_create (ConstantExpr cl) (ConstantExpr k) = Some y"
      "Sub_create y c = Some x"
      by (auto simp: bind_eq_Some_conv)
    show ?thesis
      by (rule lin_bound_fold [OF "7.IH"(3) [OF addc(1) addc(2) refl y(1)]
            "7.IH"(4) [OF addc(1) addc(2) refl y]]) (use addc in auto)
  next
    case subc
    with step obtain y where y: "Sub_create (ConstantExpr cl) (ConstantExpr k) = Some y"
      "Add_create y c = Some x"
      by (auto simp: bind_eq_Some_conv)
    show ?thesis
      by (rule lin_bound_fold [OF "7.IH"(1) [OF subc(1) subc(2,3) refl y(1)]
            "7.IH"(2) [OF subc(1) subc(2,3) refl y]]) (use subc in auto)
  next
    case other
    then show ?thesis
      using step "7.prems"(2) by (auto simp: lin_bound_def split: if_splits)
  qed
next
  case (8 l r)
  note step = "8.prems"(1) [unfolded SubExpr_create.psimps [OF "8.hyps"]]
  show ?case
  proof (cases "getWidth l = 1 \<or> l = r")
    case True
    with step "8.prems"(2) show ?thesis
      by (auto simp: XorExpr_create_def lin_bound_def split: if_splits)
  next
    case False
    then have w: "getWidth l \<noteq> 1" "l \<noteq> r" by auto
    show ?thesis
    proof (cases rule: const_sides [where l = l and r = r])
      case (addl k a)
      with w step obtain y where y: "Sub_create a r = Some y" "Add_create (ConstantExpr k) y = Some x"
        by (auto simp: bind_eq_Some_conv)
      note first = "8.IH"(7) [OF w addl refl y(1)] and second = "8.IH"(8) [OF w addl refl y]
      show ?thesis
        by (rule lin_bound_move [OF first, of k]) (use second w addl "8.prems"(2) in auto)
    next
      case (subl k a)
      with w step obtain y where y: "Add_create a r = Some y" "Sub_create (ConstantExpr k) y = Some x"
        by (auto simp: bind_eq_Some_conv)
      note first = "8.IH"(5) [OF w subl refl y(1)] and second = "8.IH"(6) [OF w subl refl y]
      show ?thesis
        by (rule lin_bound_move [OF first, of k]) (use second w subl "8.prems"(2) in auto)
    next
      case (addr k b)
      with w step obtain y where y: "Sub_create l b = Some y" "Sub_create y (ConstantExpr k) = Some x"
        by (auto simp: bind_eq_Some_conv)
      note first = "8.IH"(3) [OF w addr refl y(1)] and second = "8.IH"(4) [OF w addr refl y]
      show ?thesis
        by (rule lin_bound_move [OF first, of k]) (use second w addr "8.prems"(2) in auto)
    next
      case (subr k b)
      with w step obtain y where y: "Add_create l b = Some y" "Sub_create y (ConstantExpr k) = Some x"
        by (auto simp: bind_eq_Some_conv)
      note first = "8.IH"(1) [OF w subr refl y(1)] and second = "8.IH"(2) [OF w subr refl y]
      show ?thesis
        by (rule lin_bound_move [OF first, of k]) (use second w subr "8.prems"(2) in auto)
    next
      case none
      with w step "8.prems"(2) show ?thesis
        by (auto simp: lin_bound_def)
    qed
  qed
qed

text \<open>
  The measures: the size of the arguments (zero where the width assertion of the macro fails),
  then a rank that lets the move of a constant to the left call the constructor again.
\<close>

definition lin_size :: "expr \<Rightarrow> expr \<Rightarrow> nat" where
  "lin_size l r = (if getWidth l \<noteq> getWidth r then 0 else esize l + esize r)"

definition lin_rank :: "expr \<Rightarrow> expr \<Rightarrow> nat" where
  "lin_rank l r = (if isConstantExpr l \<or> isConstantExpr r then 5 else 10)"

termination Add_create
proof (relation "measures
    [\<lambda>x. (case x of
        Inl (Inl (Inl (l, r))) \<Rightarrow> lin_size l r
      | Inl (Inl (Inr (l, r))) \<Rightarrow> lin_size l r
      | Inl (Inr (Inl (l, cr))) \<Rightarrow> esize l + 1
      | Inl (Inr (Inr (cl, r))) \<Rightarrow> esize r + 1
      | Inr (Inl (Inl (l, r))) \<Rightarrow> esize l + esize r
      | Inr (Inl (Inr (l, cr))) \<Rightarrow> esize l + 1
      | Inr (Inr (Inl (cl, r))) \<Rightarrow> esize r + 1
      | Inr (Inr (Inr (l, r))) \<Rightarrow> esize l + esize r),
     \<lambda>x. (case x of
        Inl (Inl (Inl (l, r))) \<Rightarrow> lin_rank l r
      | Inl (Inl (Inr (l, r))) \<Rightarrow> lin_rank l r
      | Inl (Inr (Inl _)) \<Rightarrow> 3
      | Inl (Inr (Inr _)) \<Rightarrow> 2
      | Inr (Inl (Inl _)) \<Rightarrow> 9
      | Inr (Inl (Inr _)) \<Rightarrow> 4
      | Inr (Inr (Inl _)) \<Rightarrow> 2
      | Inr (Inr (Inr _)) \<Rightarrow> 9)]")
qed (auto dest!: lin_group_bound simp: lin_result_def lin_bound_def isConstantExpr_esize lin_size_def lin_rank_def split: if_splits)

declare Add_create.simps [simp del] Sub_create.simps [simp del]
  AddExpr_createPartial.simps [simp del] AddExpr_createPartialR.simps [simp del]
  AddExpr_create.simps [simp del] SubExpr_createPartial.simps [simp del]
  SubExpr_createPartialR.simps [simp del] SubExpr_create.simps [simp del]

subsection \<open>Sums and differences are sound\<close>

lemma builds_bind_result:
  assumes "builds res w1 f"
    and "\<And>y. res = Some y \<Longrightarrow> wf_expr y \<Longrightarrow> getWidth y = w1 \<Longrightarrow> builds (g y) (w2 y) (h y)"
    and "\<And>y. getWidth y = w1 \<Longrightarrow> w2 y = w"
    and "\<And>y \<sigma>. env_ok \<sigma> \<Longrightarrow> getWidth y = w1 \<Longrightarrow> eval y \<sigma> = f \<sigma> \<Longrightarrow> h y \<sigma> = v \<sigma>"
  shows "builds (Option.bind res g) w v"
proof -
  from assms(1) obtain y where y: "res = Some y" "wf_expr y" "getWidth y = w1"
    "\<And>\<sigma>. env_ok \<sigma> \<Longrightarrow> eval y \<sigma> = f \<sigma>"
    by (auto elim!: builds_ifE)
  from assms(2) [OF y(1-3)] have "builds (g y) w v"
    by (rule builds_if_cong) (auto intro: assms(3,4) y)
  with y(1) show ?thesis by simp
qed

lemma take_bit_add_xor:
  assumes "in_width (Suc 0) a" "in_width (Suc 0) b"
  shows "(a + b) mod 2 = a XOR b" "(a - b) mod 2 = a XOR b"
  using in_width_1_cases [of a] in_width_1_cases [of b] assms by auto

lemmas lin_arith = take_bit_eq_mod mod_simps algebra_simps

lemma lin_group_builds:
  shows "wf_expr l1 \<Longrightarrow> wf_expr r1 \<Longrightarrow> getWidth l1 = getWidth r1 \<Longrightarrow>
      builds (Add_create l1 r1) (getWidth l1) (bin_val Add l1 r1)"
    and "wf_expr l2 \<Longrightarrow> wf_expr r2 \<Longrightarrow> getWidth l2 = getWidth r2 \<Longrightarrow>
      builds (Sub_create l2 r2) (getWidth l2) (bin_val Sub l2 r2)"
    and "wf_expr l3 \<Longrightarrow> wf_apint c3 \<Longrightarrow> getWidth l3 = bitWidth c3 \<Longrightarrow>
      builds (AddExpr_createPartial l3 c3) (getWidth l3) (bin_val Add l3 (ConstantExpr c3))"
    and "wf_apint c4 \<Longrightarrow> wf_expr r4 \<Longrightarrow> bitWidth c4 = getWidth r4 \<Longrightarrow>
      builds (AddExpr_createPartialR c4 r4) (bitWidth c4) (bin_val Add (ConstantExpr c4) r4)"
    and "wf_expr l5 \<Longrightarrow> wf_expr r5 \<Longrightarrow> getWidth l5 = getWidth r5 \<Longrightarrow>
      builds (AddExpr_create l5 r5) (getWidth l5) (bin_val Add l5 r5)"
    and "wf_expr l6 \<Longrightarrow> wf_apint c6 \<Longrightarrow> getWidth l6 = bitWidth c6 \<Longrightarrow>
      builds (SubExpr_createPartial l6 c6) (getWidth l6) (bin_val Sub l6 (ConstantExpr c6))"
    and "wf_apint c7 \<Longrightarrow> wf_expr r7 \<Longrightarrow> bitWidth c7 = getWidth r7 \<Longrightarrow>
      builds (SubExpr_createPartialR c7 r7) (bitWidth c7) (bin_val Sub (ConstantExpr c7) r7)"
    and "wf_expr l8 \<Longrightarrow> wf_expr r8 \<Longrightarrow> getWidth l8 = getWidth r8 \<Longrightarrow>
      builds (SubExpr_create l8 r8) (getWidth l8) (bin_val Sub l8 r8)"
proof (induction l1 r1 and l2 r2 and l3 c3 and c4 r4 and l5 r5 and l6 c6 and c7 r7 and l8 r8
    rule: Add_create_Sub_create_AddExpr_createPartial_AddExpr_createPartialR_AddExpr_create_SubExpr_createPartial_SubExpr_createPartialR_SubExpr_create.induct)
  case (1 l r)
  have "builds (BCREATE_R Add AddExpr_createPartial AddExpr_createPartialR AddExpr_create l r)
      (bin_width Add (getWidth l)) (bin_val Add l r)"
  proof (rule BCREATE_R_builds)
    show "builds (AddExpr_createPartial l c) (bin_width Add (getWidth l)) (bin_val Add l r)"
      if "\<not> isConstantExpr l" "r = ConstantExpr c" for c
      using "1.IH"(1) [OF "1.prems"(3) refl that(1) that(2) [symmetric]] "1.prems" that by simp
    show "builds (AddExpr_createPartialR c r) (bin_width Add (getWidth l)) (bin_val Add l r)"
      if "l = ConstantExpr c" "\<not> isConstantExpr r" for c
      using "1.IH"(2) [OF "1.prems"(3) refl that(1) [symmetric] that(2)] "1.prems" that by simp
    show "builds (AddExpr_create l r) (bin_width Add (getWidth l)) (bin_val Add l r)"
      if "\<not> isConstantExpr l" "\<not> isConstantExpr r"
      using "1.IH"(3) [OF "1.prems"(3) refl refl that] "1.prems" by simp
  qed (use "1.prems" in \<open>auto simp: isDivision_def\<close>)
  then show ?case by (simp add: Add_create.simps [of l r])
next
  case (2 l r)
  have "builds (BCREATE_R Sub SubExpr_createPartial SubExpr_createPartialR SubExpr_create l r)
      (bin_width Sub (getWidth l)) (bin_val Sub l r)"
  proof (rule BCREATE_R_builds)
    show "builds (SubExpr_createPartial l c) (bin_width Sub (getWidth l)) (bin_val Sub l r)"
      if "\<not> isConstantExpr l" "r = ConstantExpr c" for c
      using "2.IH"(1) [OF "2.prems"(3) refl that(1) that(2) [symmetric]] "2.prems" that by simp
    show "builds (SubExpr_createPartialR c r) (bin_width Sub (getWidth l)) (bin_val Sub l r)"
      if "l = ConstantExpr c" "\<not> isConstantExpr r" for c
      using "2.IH"(2) [OF "2.prems"(3) refl that(1) [symmetric] that(2)] "2.prems" that by simp
    show "builds (SubExpr_create l r) (bin_width Sub (getWidth l)) (bin_val Sub l r)"
      if "\<not> isConstantExpr l" "\<not> isConstantExpr r"
      using "2.IH"(3) [OF "2.prems"(3) refl refl that] "2.prems" by simp
  qed (use "2.prems" in \<open>auto simp: isDivision_def\<close>)
  then show ?case by (simp add: Sub_create.simps [of l r])
next
  case (3 l cr)
  then show ?case by (simp add: AddExpr_createPartial.simps add.commute)
next
  case (4 cl r)
  note wf = "4.prems" and step = AddExpr_createPartialR.simps [of cl r]
  consider (bool) "bitWidth cl = 1"
    | (zero) "bitWidth cl \<noteq> 1" "ConstantExpr_isZero cl"
    | (addc) k c where "bitWidth cl \<noteq> 1" "\<not> ConstantExpr_isZero cl" "const_left Add r = Some (k, c)"
    | (subc) k c where "bitWidth cl \<noteq> 1" "\<not> ConstantExpr_isZero cl" "const_left Add r = None" "const_left Sub r = Some (k, c)"
    | (other) "bitWidth cl \<noteq> 1" "\<not> ConstantExpr_isZero cl" "const_left Add r = None" "const_left Sub r = None"
    by (cases "const_left Add r"; cases "const_left Sub r") fastforce+
  then show ?case
  proof cases
    case bool
    have "builds (AddExpr_createPartialR cl r) (getWidth r) (\<lambda>\<sigma>. apval cl XOR eval r \<sigma>)"
      using bool wf XorExpr_createPartialR_builds [of cl r] by (simp add: step)
    then show ?thesis
      by (rule builds_if_cong)
         (use bool wf eval_in_width [of _ r] wf_apint_in_width [of cl] in \<open>auto simp: take_bit_add_xor\<close>)
  next
    case zero
    then show ?thesis
      using wf eval_take_bit [of _ r] by (auto simp: step ConstantExpr_isZero_def builds_Some_iff)
  next
    case addc
    then have "AddExpr_createPartialR cl r =
        do { y \<leftarrow> Add_create (ConstantExpr cl) (ConstantExpr k); Add_create y c }"
      unfolding step by (simp del: const_left_eq_Some)
    moreover have "builds \<dots> (bitWidth cl) (bin_val Add (ConstantExpr cl) r)"
      by (rule builds_bind_result [OF "4.IH"(3) [OF addc refl] "4.IH"(4) [OF addc refl]])
         (use wf addc in \<open>auto simp: lin_arith split: if_splits\<close>)
    ultimately show ?thesis by simp
  next
    case subc
    then have "AddExpr_createPartialR cl r =
        do { y \<leftarrow> Add_create (ConstantExpr cl) (ConstantExpr k); Sub_create y c }"
      unfolding step by (simp del: const_left_eq_Some)
    moreover have "builds \<dots> (bitWidth cl) (bin_val Add (ConstantExpr cl) r)"
      by (rule builds_bind_result [OF "4.IH"(1) [OF subc refl] "4.IH"(2) [OF subc refl]])
         (use wf subc in \<open>auto simp: lin_arith split: if_splits\<close>)
    ultimately show ?thesis by simp
  next
    case other
    then show ?thesis using wf by (simp add: step builds_Some_iff)
  qed
next
  case (5 l r)
  note wf = "5.prems" and step = AddExpr_create.simps [of l r]
  show ?case
  proof (cases "getWidth l = 1")
    case True
    then show ?thesis
      using wf eval_in_width [of _ l] eval_in_width [of _ r] wf_width_pos [of l]
      by (auto simp: step XorExpr_create_def builds_Some_iff take_bit_add_xor)
  next
    case False
    then have w: "getWidth l \<noteq> 1" by auto
    show ?thesis
    proof (cases rule: const_sides [where l = l and r = r])
      case (addl k a)
      with w have "AddExpr_create l r = do { y \<leftarrow> Add_create a r; Add_create (ConstantExpr k) y }"
        unfolding step by (simp del: const_left_eq_Some)
      moreover have "builds \<dots> (getWidth l) (bin_val Add l r)"
        by (rule builds_bind_result [OF "5.IH"(7) [OF w addl refl] "5.IH"(8) [OF w addl refl]])
           (use wf addl in \<open>auto simp: lin_arith split: if_splits\<close>)
      ultimately show ?thesis by simp
    next
      case (subl k a)
      with w have "AddExpr_create l r = do { y \<leftarrow> Sub_create r a; Add_create (ConstantExpr k) y }"
        unfolding step by (simp del: const_left_eq_Some)
      moreover have "builds \<dots> (getWidth l) (bin_val Add l r)"
        by (rule builds_bind_result [OF "5.IH"(5) [OF w subl refl] "5.IH"(6) [OF w subl refl]])
           (use wf subl in \<open>auto simp: lin_arith split: if_splits\<close>)
      ultimately show ?thesis by simp
    next
      case (addr k b)
      with w have "AddExpr_create l r = do { y \<leftarrow> Add_create l b; Add_create (ConstantExpr k) y }"
        unfolding step by (simp del: const_left_eq_Some)
      moreover have "builds \<dots> (getWidth l) (bin_val Add l r)"
        by (rule builds_bind_result [OF "5.IH"(3) [OF w addr refl] "5.IH"(4) [OF w addr refl]])
           (use wf addr in \<open>auto simp: lin_arith split: if_splits\<close>)
      ultimately show ?thesis by simp
    next
      case (subr k b)
      with w have "AddExpr_create l r = do { y \<leftarrow> Sub_create l b; Add_create (ConstantExpr k) y }"
        unfolding step by (simp del: const_left_eq_Some)
      moreover have "builds \<dots> (getWidth l) (bin_val Add l r)"
        by (rule builds_bind_result [OF "5.IH"(1) [OF w subr refl] "5.IH"(2) [OF w subr refl]])
           (use wf subr in \<open>auto simp: lin_arith split: if_splits\<close>)
      ultimately show ?thesis by simp
    next
      case none
      then show ?thesis using w wf by (simp add: step builds_Some_iff)
    qed
  qed
next
  case (6 l cr)
  have "builds (SubExpr_createPartial l cr) (getWidth l)
      (bin_val Add l (ConstantExpr (ConstantExpr_Sub (ConstantExpr_alloc 0 (bitWidth cr)) cr)))"
    using 6 wf_width_pos [of l] by (simp add: SubExpr_createPartial.simps)
  then show ?case
    by (rule builds_if_cong) (use 6 in \<open>auto simp: lin_arith\<close>)
next
  case (7 cl r)
  note wf = "7.prems" and step = SubExpr_createPartialR.simps [of cl r]
  consider (bool) "bitWidth cl = 1"
    | (addc) k c where "bitWidth cl \<noteq> 1" "const_left Add r = Some (k, c)"
    | (subc) k c where "bitWidth cl \<noteq> 1" "const_left Add r = None" "const_left Sub r = Some (k, c)"
    | (other) "bitWidth cl \<noteq> 1" "const_left Add r = None" "const_left Sub r = None"
    by (cases "const_left Add r"; cases "const_left Sub r") fastforce+
  then show ?case
  proof cases
    case bool
    have "builds (SubExpr_createPartialR cl r) (getWidth r) (\<lambda>\<sigma>. apval cl XOR eval r \<sigma>)"
      using bool wf XorExpr_createPartialR_builds [of cl r] by (simp add: step)
    then show ?thesis
      by (rule builds_if_cong)
         (use bool wf eval_in_width [of _ r] wf_apint_in_width [of cl] in \<open>auto simp: take_bit_add_xor\<close>)
  next
    case addc
    then have "SubExpr_createPartialR cl r =
        do { y \<leftarrow> Sub_create (ConstantExpr cl) (ConstantExpr k); Sub_create y c }"
      unfolding step by (simp del: const_left_eq_Some)
    moreover have "builds \<dots> (bitWidth cl) (bin_val Sub (ConstantExpr cl) r)"
      by (rule builds_bind_result [OF "7.IH"(3) [OF addc refl] "7.IH"(4) [OF addc refl]])
         (use wf addc in \<open>auto simp: lin_arith split: if_splits\<close>)
    ultimately show ?thesis by simp
  next
    case subc
    then have "SubExpr_createPartialR cl r =
        do { y \<leftarrow> Sub_create (ConstantExpr cl) (ConstantExpr k); Add_create y c }"
      unfolding step by (simp del: const_left_eq_Some)
    moreover have "builds \<dots> (bitWidth cl) (bin_val Sub (ConstantExpr cl) r)"
      by (rule builds_bind_result [OF "7.IH"(1) [OF subc refl] "7.IH"(2) [OF subc refl]])
         (use wf subc in \<open>auto simp: lin_arith split: if_splits\<close>)
    ultimately show ?thesis by simp
  next
    case other
    then show ?thesis using wf by (simp add: step builds_Some_iff)
  qed
next
  case (8 l r)
  note wf = "8.prems" and step = SubExpr_create.simps [of l r]
  show ?case
  proof (cases "getWidth l = 1 \<or> l = r")
    case True
    then show ?thesis
      using wf eval_in_width [of _ l] eval_in_width [of _ r] wf_width_pos [of l]
      by (auto simp: step XorExpr_create_def builds_Some_iff take_bit_add_xor)
  next
    case False
    then have w: "getWidth l \<noteq> 1" "l \<noteq> r" by auto
    show ?thesis
    proof (cases rule: const_sides [where l = l and r = r])
      case (addl k a)
      with w have "SubExpr_create l r = do { y \<leftarrow> Sub_create a r; Add_create (ConstantExpr k) y }"
        unfolding step by (simp del: const_left_eq_Some)
      moreover have "builds \<dots> (getWidth l) (bin_val Sub l r)"
        by (rule builds_bind_result [OF "8.IH"(7) [OF w addl refl] "8.IH"(8) [OF w addl refl]])
           (use wf addl in \<open>auto simp: lin_arith split: if_splits\<close>)
      ultimately show ?thesis by simp
    next
      case (subl k a)
      with w have "SubExpr_create l r = do { y \<leftarrow> Add_create a r; Sub_create (ConstantExpr k) y }"
        unfolding step by (simp del: const_left_eq_Some)
      moreover have "builds \<dots> (getWidth l) (bin_val Sub l r)"
        by (rule builds_bind_result [OF "8.IH"(5) [OF w subl refl] "8.IH"(6) [OF w subl refl]])
           (use wf subl in \<open>auto simp: lin_arith split: if_splits\<close>)
      ultimately show ?thesis by simp
    next
      case (addr k b)
      with w have "SubExpr_create l r = do { y \<leftarrow> Sub_create l b; Sub_create y (ConstantExpr k) }"
        unfolding step by (simp del: const_left_eq_Some)
      moreover have "builds \<dots> (getWidth l) (bin_val Sub l r)"
        by (rule builds_bind_result [OF "8.IH"(3) [OF w addr refl] "8.IH"(4) [OF w addr refl]])
           (use wf addr in \<open>auto simp: lin_arith split: if_splits\<close>)
      ultimately show ?thesis by simp
    next
      case (subr k b)
      with w have "SubExpr_create l r = do { y \<leftarrow> Add_create l b; Sub_create y (ConstantExpr k) }"
        unfolding step by (simp del: const_left_eq_Some)
      moreover have "builds \<dots> (getWidth l) (bin_val Sub l r)"
        by (rule builds_bind_result [OF "8.IH"(1) [OF w subr refl] "8.IH"(2) [OF w subr refl]])
           (use wf subr in \<open>auto simp: lin_arith split: if_splits\<close>)
      ultimately show ?thesis by simp
    next
      case none
      then show ?thesis using w wf by (simp add: step builds_Some_iff)
    qed
  qed
qed

lemma Add_create_builds:
  assumes "wf_expr l" "wf_expr r" "getWidth l = getWidth r"
  shows "builds (Add_create l r) (bin_width Add (getWidth l)) (bin_val Add l r)"
  using lin_group_builds(1) [OF assms] by simp

lemma Sub_create_builds:
  assumes "wf_expr l" "wf_expr r" "getWidth l = getWidth r"
  shows "builds (Sub_create l r) (bin_width Sub (getWidth l)) (bin_val Sub l r)"
  using lin_group_builds(2) [OF assms] by simp

interpretation sum: sound_binary Add_create Add
  by unfold_locales (rule Add_create_builds)

interpretation diff: sound_binary Sub_create Sub
  by unfold_locales (rule Sub_create_builds)

end
