(* ===== verification/Expr_Bits.thy ===== *)
theory Expr_Bits
  imports Expr_Linear
begin

text \<open>
  Concatenation, extraction and the casts of \<^verbatim>\<open>klee/lib/Expr/Expr.cpp\<close>, the constructors
  of several kids at once, and \<open>Expr::createTempRead\<close>.
\<close>

subsection \<open>Concatenation and extraction\<close>

text \<open>
  \<open>w - ce->getKid(1)->getWidth() + off\<close> is unsigned arithmetic whose result is not negative;
  on the naturals the sum comes first.
\<close>

function (sequential)
    Concat_create :: "expr \<Rightarrow> expr \<Rightarrow> expr option"
and Extract_create :: "expr \<Rightarrow> nat \<Rightarrow> nat \<Rightarrow> expr option"
where
  "Concat_create l r =
     (let w = getWidth l + getWidth r in
      case (l, r) of
        (ConstantExpr lCE, ConstantExpr rCE) \<Rightarrow> Some (ConstantExpr (ConstantExpr_Concat lCE rCE))
      | (ExtractExpr el ol wl, ExtractExpr er oo wr) \<Rightarrow>
          if el = er \<and> oo + wr = ol then Extract_create el oo w
          else Some (ConcatExpr l r)
      | _ \<Rightarrow> Some (ConcatExpr l r))"
| "Extract_create e off w =
     (if \<not> (w > 0 \<and> off + w \<le> getWidth e) then None
      else if w = getWidth e then Some e
      else (case e of
          ConstantExpr CE \<Rightarrow> Some (ConstantExpr (ConstantExpr_Extract CE off w))
        | ConcatExpr l r \<Rightarrow>
            if off \<ge> getWidth r then Extract_create l (off - getWidth r) w
            else if off + w \<le> getWidth r then Extract_create r off w
            else do { a \<leftarrow> Extract_create l 0 (w + off - getWidth r);
                      b \<leftarrow> Extract_create r off (getWidth r - off);
                      Concat_create a b }
        | _ \<Rightarrow> Some (ExtractExpr e off w)))"
  by pat_completeness auto

text \<open>What an extraction is taken from is no larger than the expression it was asked of.\<close>

lemma Concat_Extract_core:
  shows "Concat_create_Extract_create_dom (Inl (l, r)) \<Longrightarrow> Concat_create l r = Some (ExtractExpr x off' w') \<Longrightarrow>
      \<exists>y o1 w1. l = ExtractExpr y o1 w1 \<and> esize x \<le> esize y"
    and "Concat_create_Extract_create_dom (Inr (e, off, w)) \<Longrightarrow> Extract_create e off w = Some (ExtractExpr x off' w') \<Longrightarrow>
      esize x \<le> esize e"
proof (induction l r and e off w arbitrary: x off' w' and x off' w' rule: Concat_create_Extract_create.pinduct)
  case (1 l r)
  from "1.prems" [unfolded Concat_create.psimps [OF "1.hyps"]]
  obtain y o1 w1 o2 w2 where l: "l = ExtractExpr y o1 w1" "r = ExtractExpr y o2 w2" "o2 + w2 = o1"
    and x: "Extract_create y o2 (getWidth l + getWidth r) = Some (ExtractExpr x off' w')"
    by (auto simp: Let_def split: expr.splits if_splits)
  have "esize x \<le> esize y"
    using "1.IH" [OF refl refl l(1,2) _ x] l(3) by simp
  with l(1) show ?case by blast
next
  case (2 e off w)
  note step = "2.prems" [unfolded Extract_create.psimps [OF "2.hyps"]]
  then have g: "\<not> \<not> (w > 0 \<and> off + w \<le> getWidth e)" by (auto split: if_splits)
  show ?case
  proof (cases "w \<noteq> getWidth e \<and> (\<exists>l r. e = ConcatExpr l r)")
    case True
    then obtain l r where w: "w \<noteq> getWidth e" and e: "e = ConcatExpr l r" by blast
    consider (L) "off \<ge> getWidth r" "Extract_create l (off - getWidth r) w = Some (ExtractExpr x off' w')"
      | (R) "\<not> off \<ge> getWidth r" "off + w \<le> getWidth r" "Extract_create r off w = Some (ExtractExpr x off' w')"
      | (B) a b where "\<not> off \<ge> getWidth r" "\<not> off + w \<le> getWidth r"
          "Extract_create l 0 (w + off - getWidth r) = Some a"
          "Extract_create r off (getWidth r - off) = Some b" "Concat_create a b = Some (ExtractExpr x off' w')"
      using step g w e by (auto simp: bind_eq_Some_conv split: if_splits)
    then show ?thesis
    proof cases
      case L
      from "2.IH"(1) [OF g w e L] e show ?thesis by simp
    next
      case R
      from "2.IH"(2) [OF g w e R] e show ?thesis by simp
    next
      case B
      from "2.IH"(5) [OF g w e B(1-5)] obtain y o1 w1 where
        y: "a = ExtractExpr y o1 w1" "esize x \<le> esize y" by blast
      from "2.IH"(3) [OF g w e B(1,2) B(3) [unfolded y(1)]] y(2) e show ?thesis by simp
    qed
  next
    case False
    with step g show ?thesis by (auto split: if_splits expr.splits)
  qed
qed

lemma esize_less_add: "n \<le> esize l \<Longrightarrow> n < esize l + esize r"
  using esize_pos [of r] by linarith

termination Concat_create
proof (relation "measure (\<lambda>x. case x of
      Inl (l, r) \<Rightarrow> (case l of ExtractExpr y _ _ \<Rightarrow> esize l | _ \<Rightarrow> 0)
    | Inr (e, off, w) \<Rightarrow> esize e)")
qed (auto intro: esize_less_add Concat_Extract_core(2) split: expr.splits)

declare Concat_create.simps [simp del] Extract_create.simps [simp del]

subsection \<open>Bits of a concatenation\<close>

lemma bit_in_width: "in_width n (v :: int) \<Longrightarrow> bit v m \<Longrightarrow> m < n"
  using bit_take_bit_iff [of n v m] by (simp add: take_bit_in_width)

lemma extract_contiguous:
  "take_bit wl (v div 2 ^ (o2 + wr)) * 2 ^ wr + take_bit wr (v div 2 ^ o2) =
     take_bit (wl + wr) ((v :: int) div 2 ^ o2)"
  unfolding push_or_eq_add [OF in_width_take_bit, symmetric] drop_bit_eq_div [symmetric]
  by (rule bit_eqI) (auto simp: bit_simps ac_simps)

lemma extract_skip_right:
  assumes "in_width n b" "n \<le> off"
  shows "take_bit w ((a * 2 ^ n + b) div 2 ^ off) = take_bit w (a div 2 ^ (off - n))"
  using assms(2) bit_in_width [OF assms(1)]
  unfolding push_or_eq_add [OF assms(1), symmetric] drop_bit_eq_div [symmetric]
  by (intro bit_eqI) (fastforce simp: bit_simps ac_simps)

lemma extract_skip_left:
  assumes "in_width n b" "off + w \<le> n"
  shows "take_bit w ((a * 2 ^ n + b) div 2 ^ off) = take_bit w (b div 2 ^ off)"
  using assms(2)
  unfolding push_or_eq_add [OF assms(1), symmetric] drop_bit_eq_div [symmetric]
  by (intro bit_eqI) (auto simp: bit_simps ac_simps)

lemma extract_split:
  assumes "in_width n b" "off < n" "n < off + w"
  shows "take_bit w ((a * 2 ^ n + b) div 2 ^ off) =
    take_bit (w + off - n) a * 2 ^ (n - off) + take_bit (n - off) (b div 2 ^ off)"
  using assms(2,3) bit_in_width [OF assms(1)]
  unfolding push_or_eq_add [OF assms(1), symmetric] push_or_eq_add [OF in_width_take_bit, symmetric]
    drop_bit_eq_div [symmetric]
  by (intro bit_eqI) (fastforce simp: bit_simps ac_simps)

subsection \<open>Concatenation and extraction are sound\<close>

abbreviation concat_val :: "expr \<Rightarrow> expr \<Rightarrow> env \<Rightarrow> int" where
  "concat_val l r \<equiv> (\<lambda>\<sigma>. eval l \<sigma> * 2 ^ getWidth r + eval r \<sigma>)"

abbreviation extract_val :: "expr \<Rightarrow> nat \<Rightarrow> nat \<Rightarrow> env \<Rightarrow> int" where
  "extract_val e off w \<equiv> (\<lambda>\<sigma>. take_bit w (eval e \<sigma> div 2 ^ off))"

fun the_const :: "expr \<Rightarrow> apint" where
  "the_const (ConstantExpr c) = c"
| "the_const _ = APInt 1 0"

lemma ConstantExpr_Concat_builds:
  assumes "wf_apint l" "wf_apint r"
  shows "builds (Some (ConstantExpr (ConstantExpr_Concat l r))) (bitWidth l + bitWidth r)
    (concat_val (ConstantExpr l) (ConstantExpr r))"
proof -
  have wf: "in_width (bitWidth l) (apval l)" "in_width (bitWidth r) (apval r)"
    using assms by (auto intro: wf_apint_in_width)
  have "take_bit (bitWidth l + bitWidth r) (push_bit (bitWidth r) (apval l)) OR apval r =
      apval l * 2 ^ bitWidth r + apval r"
    using push_or_eq_add [OF wf(2), of "apval l"] take_bit_mult_exp_in_width [OF wf(1), of "bitWidth r"]
    by (simp only: push_bit_eq_mult)
  moreover have "wf_apint (APInt (bitWidth l + bitWidth r) (apval l * 2 ^ bitWidth r + apval r))"
    using concat_in_width [OF wf] assms by (simp add: wf_apint_def)
  ultimately show ?thesis
    by (simp add: builds_Some_iff ConstantExpr_Concat_def)
qed

lemma ConstantExpr_Extract_builds:
  assumes "wf_apint c" "0 < w" "off + w \<le> bitWidth c"
  shows "builds (Some (ConstantExpr (ConstantExpr_Extract c off w))) w (extract_val (ConstantExpr c) off w)"
  using assms extract_ashr [of off w "bitWidth c" "apval c"]
  by (simp add: builds_Some_iff ConstantExpr_Extract_def Let_def wf_apint_def)

lemma Concat_create_plain:
  assumes "\<nexists>e o1 w1 o2 w2. l = ExtractExpr e o1 w1 \<and> r = ExtractExpr e o2 w2 \<and> o2 + w2 = o1"
    and "wf_expr l" "wf_expr r"
  shows "builds (Concat_create l r) (getWidth l + getWidth r) (concat_val l r)"
proof (cases "isConstantExpr l \<and> isConstantExpr r")
  case True
  then show ?thesis
    using assms ConstantExpr_Concat_builds
    by (auto simp: isConstantExpr_iff Concat_create.simps)
next
  case False
  then have "Concat_create l r = Some (ConcatExpr l r)"
    using assms(1) by (cases l; cases r; auto simp: Concat_create.simps)
  then show ?thesis using assms by (simp add: builds_Some_iff)
qed

lemma Extract_create_plain:
  assumes "\<not> (w \<noteq> getWidth e \<and> (\<exists>l r. e = ConcatExpr l r))"
    and "wf_expr e" "0 < w" "off + w \<le> getWidth e"
  shows "builds (Extract_create e off w) w (extract_val e off w)"
proof (cases "w = getWidth e")
  case True
  then have "Extract_create e off w = Some e" "off = 0"
    using assms by (simp_all add: Extract_create.simps [of e])
  then show ?thesis using assms True eval_take_bit [of _ e] by (simp add: builds_Some_iff)
next
  case False
  then have "Extract_create e off w = (if isConstantExpr e
      then Some (ConstantExpr (ConstantExpr_Extract (the_const e) off w)) else Some (ExtractExpr e off w))"
    using assms by (cases e) (simp_all add: Extract_create.simps)
  then show ?thesis
    using assms ConstantExpr_Extract_builds [of "the_const e" w off]
    by (cases "isConstantExpr e") (auto simp: isConstantExpr_iff builds_Some_iff)
qed

lemma Concat_Extract_builds:
  shows "wf_expr l \<Longrightarrow> wf_expr r \<Longrightarrow>
      builds (Concat_create l r) (getWidth l + getWidth r) (concat_val l r)"
    and "wf_expr e \<Longrightarrow> 0 < w \<Longrightarrow> off + w \<le> getWidth e \<Longrightarrow>
      builds (Extract_create e off w) w (extract_val e off w)"
proof (induction l r and e off w rule: Concat_create_Extract_create.induct)
  case (1 l r)
  show ?case
  proof (cases "\<exists>e o1 w1 o2 w2. l = ExtractExpr e o1 w1 \<and> r = ExtractExpr e o2 w2 \<and> o2 + w2 = o1")
    case True
    then obtain e o1 w1 o2 w2 where l: "l = ExtractExpr e o1 w1" "r = ExtractExpr e o2 w2" "o2 + w2 = o1"
      by blast
    have "builds (Extract_create e o2 (getWidth l + getWidth r)) (getWidth l + getWidth r)
        (extract_val e o2 (getWidth l + getWidth r))"
      using "1.IH" [OF refl refl l(1,2)] l "1.prems" by simp
    then have "builds (Extract_create e o2 (getWidth l + getWidth r)) (getWidth l + getWidth r)
        (concat_val l r)"
      by (rule builds_if_cong) (use l extract_contiguous [of w1 _ o2 w2] in simp_all)
    then show ?thesis using l by (simp add: Concat_create.simps [of "ExtractExpr e o1 w1"])
  next
    case False
    from Concat_create_plain [OF this "1.prems"] show ?thesis .
  qed
next
  case (2 e off w)
  then have g: "\<not> \<not> (w > 0 \<and> off + w \<le> getWidth e)" by simp
  show ?case
  proof (cases "w \<noteq> getWidth e \<and> (\<exists>l r. e = ConcatExpr l r)")
    case False
    from Extract_create_plain [OF this "2.prems"] show ?thesis .
  next
    case True
    then obtain l r where w: "w \<noteq> getWidth e" and e: "e = ConcatExpr l r" by blast
    then have wf: "wf_expr l" "wf_expr r" using "2.prems" by auto
    note step = Extract_create.simps [of "ConcatExpr l r" off w]
    from wf have inr: "in_width (getWidth r) (eval r \<sigma>)" if "env_ok \<sigma>" for \<sigma>
      using that by (intro eval_in_width)
    show ?thesis
    proof (cases "off \<ge> getWidth r")
      case L: True
      have "builds (Extract_create l (off - getWidth r) w) w (extract_val l (off - getWidth r) w)"
        by (rule "2.IH"(1) [OF g w e L]) (use "2.prems" wf L e in auto)
      then have "builds (Extract_create l (off - getWidth r) w) w (extract_val e off w)"
        by (rule builds_if_cong) (use e L inr in \<open>auto simp: extract_skip_right\<close>)
      then show ?thesis using g w e L by (simp add: step)
    next
      case nL: False
      show ?thesis
      proof (cases "off + w \<le> getWidth r")
        case R: True
        have "builds (Extract_create r off w) w (extract_val r off w)"
          by (rule "2.IH"(2) [OF g w e nL R]) (use "2.prems" wf R e in auto)
        then have "builds (Extract_create r off w) w (extract_val e off w)"
          by (rule builds_if_cong) (use e R inr in \<open>auto simp: extract_skip_left\<close>)
        then show ?thesis using g w e nL R by (simp add: step)
      next
        case nR: False
        from nL nR have "builds (do { a \<leftarrow> Extract_create l 0 (w + off - getWidth r);
            b \<leftarrow> Extract_create r off (getWidth r - off); Concat_create a b }) w (extract_val e off w)"
        proof -
          let ?a = "Extract_create l 0 (w + off - getWidth r)" and ?b = "Extract_create r off (getWidth r - off)"
          have a: "builds ?a (w + off - getWidth r) (extract_val l 0 (w + off - getWidth r))"
            by (rule "2.IH"(3) [OF g w e nL nR]) (use "2.prems" wf nL nR e in auto)
          then obtain a where a': "?a = Some a" by (auto elim: builds_ifE)
          have b: "builds ?b (getWidth r - off) (extract_val r off (getWidth r - off))"
            by (rule "2.IH"(4) [OF g w e nL nR a']) (use "2.prems" wf nL nR e in auto)
          then obtain b where b': "?b = Some b" by (auto elim: builds_ifE)
          have "builds (Concat_create a b) (getWidth a + getWidth b) (concat_val a b)"
            by (rule "2.IH"(5) [OF g w e nL nR a' b']) (use a b a' b' in \<open>auto simp: builds_Some_iff\<close>)
          then have "builds (Concat_create a b) w (extract_val e off w)"
            by (rule builds_if_cong)
               (use a b a' b' nL nR e inr in \<open>auto simp: builds_Some_iff extract_split\<close>)
          then show ?thesis using a' b' by simp
        qed
        then show ?thesis using g w e nL nR by (simp add: step)
      qed
    qed
  qed
qed

subsection \<open>Casts\<close>

definition ZExt_create :: "expr \<Rightarrow> nat \<Rightarrow> expr option" where
  "ZExt_create e w =
     (if w = getWidth e then Some e
      else if w < getWidth e then Extract_create e 0 w
      else (case e of
          ConstantExpr CE \<Rightarrow> Some (ConstantExpr (ConstantExpr_ZExt CE w))
        | _ \<Rightarrow> Some (ZExtExpr e w)))"

definition SExt_create :: "expr \<Rightarrow> nat \<Rightarrow> expr option" where
  "SExt_create e w =
     (if w = getWidth e then Some e
      else if w < getWidth e then Extract_create e 0 w
      else (case e of
          ConstantExpr CE \<Rightarrow> Some (ConstantExpr (ConstantExpr_SExt CE w))
        | _ \<Rightarrow> Some (SExtExpr e w)))"

lemma ZExt_create_builds:
  assumes "wf_expr e" "0 < w"
  shows "builds (ZExt_create e w) w (\<lambda>\<sigma>. take_bit w (eval e \<sigma>))"
proof -
  consider (same) "w = getWidth e" | (trunc) "w < getWidth e" | (wide) "getWidth e < w" by linarith
  then show ?thesis
  proof cases
    case same
    then show ?thesis using assms eval_take_bit [of _ e] by (simp add: ZExt_create_def builds_Some_iff)
  next
    case trunc
    then show ?thesis using assms Concat_Extract_builds(2) [of e w 0] by (simp add: ZExt_create_def)
  next
    case wide
    then have "take_bit w (eval e \<sigma>) = eval e \<sigma>" if "env_ok \<sigma>" for \<sigma>
      using eval_in_width [OF that assms(1)] by (auto intro!: take_bit_in_width elim: in_width_mono)
    then show ?thesis
      using assms wide by (cases e) (auto simp: ZExt_create_def builds_Some_iff)
  qed
qed

lemma SExt_create_builds:
  assumes "wf_expr e" "0 < w"
  shows "builds (SExt_create e w) w (\<lambda>\<sigma>. take_bit w (sval (getWidth e) (eval e \<sigma>)))"
proof -
  consider (le) "w \<le> getWidth e" | (wide) "getWidth e < w" by linarith
  then show ?thesis
  proof cases
    case le
    then have "take_bit w (sval (getWidth e) (eval e \<sigma>)) = take_bit w (eval e \<sigma>)" for \<sigma>
      using wf_width_pos [OF assms(1)] by (simp add: take_bit_sval_le)
    moreover have "SExt_create e w = ZExt_create e w"
      using le by (simp add: SExt_create_def ZExt_create_def)
    ultimately show ?thesis using ZExt_create_builds [OF assms] by simp
  next
    case wide
    then show ?thesis
      using assms by (cases e) (auto simp: SExt_create_def builds_Some_iff)
  qed
qed

subsection \<open>Several kids at once\<close>

fun createN_loop :: "expr list \<Rightarrow> expr \<Rightarrow> expr option" where
  "createN_loop [] r = Some r"
| "createN_loop (kid # rest) r = do { r' \<leftarrow> Concat_create kid r; createN_loop rest r' }"

text \<open>The kids from the last to the first, as the loop takes them.\<close>

definition Concat_createN :: "expr list \<Rightarrow> expr option" where
  "Concat_createN ks =
     (case rev ks of
        [] \<Rightarrow> None
      | [k] \<Rightarrow> Some k
      | kl # kp # rest \<Rightarrow> do { r \<leftarrow> Concat_create kp kl; createN_loop rest r })"

definition Concat_create4 :: "expr \<Rightarrow> expr \<Rightarrow> expr \<Rightarrow> expr \<Rightarrow> expr option" where
  "Concat_create4 k1 k2 k3 k4 =
     do { c \<leftarrow> Concat_create k3 k4; b \<leftarrow> Concat_create k2 c; Concat_create k1 b }"

definition Concat_create8 ::
    "expr \<Rightarrow> expr \<Rightarrow> expr \<Rightarrow> expr \<Rightarrow> expr \<Rightarrow> expr \<Rightarrow> expr \<Rightarrow> expr \<Rightarrow> expr option" where
  "Concat_create8 k1 k2 k3 k4 k5 k6 k7 k8 =
     do { e \<leftarrow> Concat_create4 k5 k6 k7 k8; d \<leftarrow> Concat_create k4 e; c \<leftarrow> Concat_create k3 d;
          b \<leftarrow> Concat_create k2 c; Concat_create k1 b }"

text \<open>The value of a list of kids, the first most significant.\<close>

fun concat_value :: "expr list \<Rightarrow> env \<Rightarrow> int" where
  "concat_value [] \<sigma> = 0"
| "concat_value (k # ks) \<sigma> = eval k \<sigma> * 2 ^ sum_list (map getWidth ks) + concat_value ks \<sigma>"

lemma Concat_create_builds_list:
  assumes "wf_expr k" "builds r (sum_list (map getWidth ks)) (concat_value ks)"
  shows "builds (do { x \<leftarrow> r; Concat_create k x }) (sum_list (map getWidth (k # ks))) (concat_value (k # ks))"
proof (rule builds_bind_result [OF assms(2) Concat_Extract_builds(1) [OF assms(1)]])
qed auto

lemma createN_loop_fun:
  "createN_loop [] = Some" "createN_loop (k # ks) = (\<lambda>r. Concat_create k r \<bind> createN_loop ks)"
  by (auto simp: fun_eq_iff)

lemma createN_loop_append:
  "createN_loop (xs @ [k]) = (\<lambda>r. createN_loop xs r \<bind> Concat_create k)"
  by (induction xs) (simp_all add: createN_loop_fun)

lemma Concat_createN_Cons:
  assumes "ks \<noteq> []"
  shows "Concat_createN (k # ks) = do { x \<leftarrow> Concat_createN ks; Concat_create k x }"
proof -
  obtain x ys where r: "rev ks = x # ys" using assms by (cases "rev ks") auto
  show ?thesis
  proof (cases ys)
    case Nil
    with r show ?thesis by (simp add: Concat_createN_def createN_loop_fun)
  next
    case (Cons y zs)
    with r show ?thesis
      by (simp add: Concat_createN_def createN_loop_append)
  qed
qed

lemma Concat_createN_builds:
  assumes "ks \<noteq> []" "\<forall>k\<in>set ks. wf_expr k"
  shows "builds (Concat_createN ks) (sum_list (map getWidth ks)) (concat_value ks)"
  using assms
proof (induction ks)
  case (Cons k ks)
  show ?case
  proof (cases "ks = []")
    case True
    then show ?thesis using Cons.prems by (simp add: Concat_createN_def builds_Some_iff)
  next
    case False
    then show ?thesis
      using Cons Concat_create_builds_list [of k "Concat_createN ks" ks]
      by (simp add: Concat_createN_Cons del: concat_value.simps)
  qed
qed simp

lemma Concat_create4_N: "Concat_create4 k1 k2 k3 k4 = Concat_createN [k1, k2, k3, k4]"
  by (simp add: Concat_create4_def Concat_createN_def createN_loop_fun)

lemma Concat_create8_N:
  "Concat_create8 k1 k2 k3 k4 k5 k6 k7 k8 = Concat_createN [k1, k2, k3, k4, k5, k6, k7, k8]"
  by (simp add: Concat_create8_def Concat_create4_def Concat_createN_def createN_loop_fun)

subsection \<open>Reading a whole array\<close>

definition temp_read :: "array \<Rightarrow> nat \<Rightarrow> expr option" where
  "temp_read a i = Read_create a NoUpdates (ConstantExpr (ConstantExpr_alloc (int i) 32))"

definition createTempRead :: "array \<Rightarrow> nat \<Rightarrow> expr option" where
  "createTempRead a w =
     (if w = 1 then do { b \<leftarrow> temp_read a 0; ZExt_create b 1 }
      else if w = 8 then temp_read a 0
      else if w = 16 then do { b1 \<leftarrow> temp_read a 1; b0 \<leftarrow> temp_read a 0; Concat_create b1 b0 }
      else if w = 32 then
        do { b3 \<leftarrow> temp_read a 3; b2 \<leftarrow> temp_read a 2; b1 \<leftarrow> temp_read a 1; b0 \<leftarrow> temp_read a 0;
             Concat_create4 b3 b2 b1 b0 }
      else if w = 64 then
        do { b7 \<leftarrow> temp_read a 7; b6 \<leftarrow> temp_read a 6; b5 \<leftarrow> temp_read a 5; b4 \<leftarrow> temp_read a 4;
             b3 \<leftarrow> temp_read a 3; b2 \<leftarrow> temp_read a 2; b1 \<leftarrow> temp_read a 1; b0 \<leftarrow> temp_read a 0;
             Concat_create8 b7 b6 b5 b4 b3 b2 b1 b0 }
      else None)"

text \<open>The little-endian value of the first \<open>n\<close> bytes of an array under an assignment.\<close>

fun le_bytes :: "(nat \<Rightarrow> int) \<Rightarrow> nat \<Rightarrow> int" where
  "le_bytes f 0 = 0"
| "le_bytes f (Suc n) = f n * 2 ^ (8 * n) + le_bytes f n"

abbreviation temp_byte :: "array \<Rightarrow> nat \<Rightarrow> expr" where
  "temp_byte a i \<equiv> the (temp_read a i)"

lemma temp_read_builds:
  assumes "wf_array a" "arrDomain a = 32" "i < 8"
  shows "temp_read a i = Some (temp_byte a i)" "wf_expr (temp_byte a i)"
    and "getWidth (temp_byte a i) = arrRange a"
    and "env_ok \<sigma> \<Longrightarrow> eval (temp_byte a i) \<sigma> = initial \<sigma> a (int i)"
proof -
  let ?ix = "ConstantExpr (ConstantExpr_alloc (int i) 32)"
  have "take_bit 32 (int i) = int i"
    using assms(3) by (intro take_bit_in_width) (simp add: in_width_def)
  then have v: "eval (ReadExpr a NoUpdates ?ix) \<sigma> = initial \<sigma> a (int i)" for \<sigma> by simp
  obtain e where e: "temp_read a i = Some e" "wf_expr e" "getWidth e = arrRange a"
    "\<And>\<sigma>. env_ok \<sigma> \<Longrightarrow> eval e \<sigma> = eval (ReadExpr a NoUpdates ?ix) \<sigma>"
    using Read_create_builds [of a NoUpdates ?ix] assms by (auto simp: temp_read_def elim!: builds_ifE)
  then show "temp_read a i = Some (temp_byte a i)" "wf_expr (temp_byte a i)"
    "getWidth (temp_byte a i) = arrRange a" by simp_all
  show "eval (temp_byte a i) \<sigma> = initial \<sigma> a (int i)" if "env_ok \<sigma>"
    using e(1) e(4) [OF that] v [of \<sigma>] by simp
qed

lemma temp_bytes_builds:
  assumes "wf_array a" "arrDomain a = 32" "arrRange a = 8" "n \<noteq> 0" "n \<le> 8"
  shows "builds (Concat_createN (map (temp_byte a) (rev [0..<n]))) (8 * n)
    (\<lambda>\<sigma>. le_bytes (\<lambda>i. initial \<sigma> a (int i)) n)"
proof -
  note b = temp_read_builds [OF assms(1,2)]
  have w: "sum_list (map getWidth (map (temp_byte a) (rev [0..<m]))) = 8 * m" if "m \<le> 8" for m
    using that by (induction m) (use assms(3) b(3) in auto)
  have v: "concat_value (map (temp_byte a) (rev [0..<m])) \<sigma> = le_bytes (\<lambda>i. initial \<sigma> a (int i)) m"
    if "m \<le> 8" "env_ok \<sigma>" for m \<sigma>
    using that by (induction m) (use w b(4) in auto)
  have "builds (Concat_createN (map (temp_byte a) (rev [0..<n])))
      (sum_list (map getWidth (map (temp_byte a) (rev [0..<n])))) (concat_value (map (temp_byte a) (rev [0..<n])))"
    using assms(4,5) b(2) by (intro Concat_createN_builds) auto
  then show ?thesis
    by (rule builds_if_cong) (use assms(5) w v in auto)
qed

lemma createTempRead_bytes:
  assumes "wf_array a" "arrDomain a = 32" "n \<in> {1, 2, 4, 8}"
  shows "createTempRead a (8 * n) = Concat_createN (map (temp_byte a) (rev [0..<n]))"
proof -
  have "\<exists>y. temp_read a i = Some y" if "i < 8" for i
    using temp_read_builds(1) [OF assms(1,2) that] by blast
  from this [of 0] this [of 1] this [of 2] this [of 3] this [of 4] this [of 5] this [of 6] this [of 7]
  obtain y0 y1 y2 y3 y4 y5 y6 y7 where y: "temp_read a 0 = Some y0" "temp_read a 1 = Some y1"
    "temp_read a 2 = Some y2" "temp_read a 3 = Some y3" "temp_read a 4 = Some y4" "temp_read a 5 = Some y5"
    "temp_read a 6 = Some y6" "temp_read a 7 = Some y7"
    by auto
  have u: "rev [0..<1] = [0]" "rev [0..<2] = [1, 0]" "rev [0..<4] = [3, 2, 1, 0]"
    "rev [0..<8] = [7, 6, 5, 4, 3, 2, 1, 0::nat]"
    by (simp_all add: upt_rec)
  from assms(3) consider "n = 1" | "n = 2" | "n = 4" | "n = 8" by blast
  then show ?thesis
    by cases (simp_all add: createTempRead_def y y(2) [simplified] u Concat_create4_N Concat_create8_N,
      simp_all add: Concat_createN_def createN_loop_fun)
qed

lemma createTempRead_builds:
  assumes "wf_array a" "arrDomain a = 32" "arrRange a = 8" "w \<in> {8, 16, 32, 64}"
  shows "builds (createTempRead a w) w (\<lambda>\<sigma>. le_bytes (\<lambda>i. initial \<sigma> a (int i)) (w div 8))"
proof -
  from assms(4) obtain n where n: "w = 8 * n" "n \<in> {1, 2, 4, 8}" by fastforce
  have "builds (createTempRead a (8 * n)) (8 * n) (\<lambda>\<sigma>. le_bytes (\<lambda>i. initial \<sigma> a (int i)) n)"
    unfolding createTempRead_bytes [OF assms(1,2) n(2)]
    by (rule temp_bytes_builds [OF assms(1-3)]) (use n(2) in auto)
  with n(1) show ?thesis by simp
qed

lemma createTempRead_bool_builds:
  assumes "wf_array a" "arrDomain a = 32"
  shows "builds (createTempRead a 1) 1 (\<lambda>\<sigma>. initial \<sigma> a 0 mod 2)"
proof -
  note b = temp_read_builds [OF assms, of 0]
  have "builds (ZExt_create (temp_byte a 0) 1) 1 (\<lambda>\<sigma>. take_bit 1 (eval (temp_byte a 0) \<sigma>))"
    using b(2) by (intro ZExt_create_builds) auto
  then have "builds (ZExt_create (temp_byte a 0) 1) 1 (\<lambda>\<sigma>. initial \<sigma> a 0 mod 2)"
    by (rule builds_if_cong) (use b(4) in auto)
  moreover obtain y where "temp_read a 0 = Some y" using b(1) by auto
  ultimately show ?thesis by (simp add: createTempRead_def del: One_nat_def)
qed

end
