(* ===== verification/Expr_Rebuild.thy ===== *)
theory Expr_Rebuild
  imports Expr_Bits
begin

text \<open>
  The constructor chosen by a kind: \<open>Expr::createFromKind\<close> and the virtual method
  \<open>rebuild\<close>, which every traversal of an expression uses to put changed kids back.
\<close>

subsection \<open>Kinds\<close>

datatype kind =
    K_Constant | K_NotOptimized | K_Read | K_Select | K_Concat | K_Extract
  | K_ZExt | K_SExt | K_Not | K_Binary bkind

fun getKind :: "expr \<Rightarrow> kind" where
  "getKind (ConstantExpr _) = K_Constant"
| "getKind (NotOptimizedExpr _) = K_NotOptimized"
| "getKind (ReadExpr _ _ _) = K_Read"
| "getKind (SelectExpr _ _ _) = K_Select"
| "getKind (ConcatExpr _ _) = K_Concat"
| "getKind (ExtractExpr _ _ _) = K_Extract"
| "getKind (ZExtExpr _ _) = K_ZExt"
| "getKind (SExtExpr _ _) = K_SExt"
| "getKind (NotExpr _) = K_Not"
| "getKind (BinaryExpr k _ _) = K_Binary k"

text \<open>\<open>T##Expr::create\<close>, by the kind \<open>T\<close>.\<close>

fun Binary_create :: "bkind \<Rightarrow> expr \<Rightarrow> expr \<Rightarrow> expr option" where
  "Binary_create Add l r = Add_create l r"
| "Binary_create Sub l r = Sub_create l r"
| "Binary_create Mul l r = Mul_create l r"
| "Binary_create UDiv l r = UDiv_create l r"
| "Binary_create SDiv l r = SDiv_create l r"
| "Binary_create URem l r = URem_create l r"
| "Binary_create SRem l r = SRem_create l r"
| "Binary_create And l r = And_create l r"
| "Binary_create Or l r = Or_create l r"
| "Binary_create Xor l r = Xor_create l r"
| "Binary_create Shl l r = Shl_create l r"
| "Binary_create LShr l r = LShr_create l r"
| "Binary_create AShr l r = AShr_create l r"
| "Binary_create Eq l r = Eq_create l r"
| "Binary_create Ne l r = Ne_create l r"
| "Binary_create Ult l r = Ult_create l r"
| "Binary_create Ule l r = Ule_create l r"
| "Binary_create Ugt l r = Ugt_create l r"
| "Binary_create Uge l r = Uge_create l r"
| "Binary_create Slt l r = Slt_create l r"
| "Binary_create Sle l r = Sle_create l r"
| "Binary_create Sgt l r = Sgt_create l r"
| "Binary_create Sge l r = Sge_create l r"

datatype CreateArg = ArgExpr expr | ArgWidth nat

fun createFromKind :: "kind \<Rightarrow> CreateArg list \<Rightarrow> expr option" where
  "createFromKind K_NotOptimized [ArgExpr e] = NotOptimized_create e"
| "createFromKind K_Select [ArgExpr c, ArgExpr t, ArgExpr f] = Select_create c t f"
| "createFromKind K_Concat [ArgExpr l, ArgExpr r] = Concat_create l r"
| "createFromKind K_ZExt [ArgExpr e, ArgWidth w] = ZExt_create e w"
| "createFromKind K_SExt [ArgExpr e, ArgWidth w] = SExt_create e w"
| "createFromKind (K_Binary k) [ArgExpr l, ArgExpr r] = Binary_create k l r"
| "createFromKind _ _ = None"

text \<open>\<open>rebuild(kids)\<close> of each class.\<close>

fun rebuild :: "expr \<Rightarrow> expr list \<Rightarrow> expr option" where
  "rebuild (NotOptimizedExpr _) [e] = NotOptimized_create e"
| "rebuild (ReadExpr a us _) [i] = Read_create a us i"
| "rebuild (SelectExpr _ _ _) [c, t, f] = Select_create c t f"
| "rebuild (ConcatExpr _ _) [l, r] = Concat_create l r"
| "rebuild (ExtractExpr _ off w) [e] = Extract_create e off w"
| "rebuild (ZExtExpr _ w) [e] = ZExt_create e w"
| "rebuild (SExtExpr _ w) [e] = SExt_create e w"
| "rebuild (NotExpr _) [e] = Not_create e"
| "rebuild (BinaryExpr k _ _) [l, r] = Binary_create k l r"
| "rebuild _ _ = None"

subsection \<open>Soundness\<close>

text \<open>
  The premise under which an operator has a value: a divisor is not zero. A constructor that
  folds two constants divides, so a divisor that is a constant must not be zero.
\<close>

definition div_ok :: "bkind \<Rightarrow> expr \<Rightarrow> bool" where
  "div_ok k r \<longleftrightarrow> (isDivision k \<longrightarrow> (\<forall>c. r = ConstantExpr c \<longrightarrow> apval c \<noteq> 0))"

lemmas division_builds =
  UDiv_create_builds SDiv_create_builds URem_create_builds SRem_create_builds

lemmas binary_builds = conj.mk_builds disj.mk_builds eq.mk_builds excl.mk_builds prod.mk_builds
  shl.mk_builds lshr.mk_builds ashr.mk_builds ult.mk_builds ule.mk_builds slt.mk_builds
  sle.mk_builds neq.mk_builds ugt.mk_builds uge.mk_builds sgt.mk_builds sge.mk_builds
  sum.mk_builds diff.mk_builds

lemma builds_weaken: "builds res w f \<Longrightarrow> builds_if P res w f"
  by (erule builds_if_cong) auto

lemma Binary_create_builds:
  assumes "wf_expr l" "wf_expr r" "getWidth l = getWidth r" "div_ok k r"
  shows "builds_if (\<lambda>\<sigma>. isDivision k \<longrightarrow> eval r \<sigma> \<noteq> 0) (Binary_create k l r)
    (bin_width k (getWidth l)) (bin_val k l r)"
proof (cases "isDivision k")
  case True
  then have "\<And>c. r = ConstantExpr c \<Longrightarrow> apval c \<noteq> 0" using assms(4) by (simp add: div_ok_def)
  then show ?thesis
    using True assms(1-3) division_builds [of l r]
    by (cases k) (simp_all add: isDivision_def isCmp_def del: sem_bin.simps)
next
  case False
  then have "builds (Binary_create k l r) (bin_width k (getWidth l)) (bin_val k l r)"
    using binary_builds [OF assms(1-3)]
    by (cases k) (simp_all only: Binary_create.simps isDivision_def insert_iff simp_thms)
  then show ?thesis by (rule builds_weaken)
qed

text \<open>The node itself with other kids, and the premises of its division, if it is one.\<close>

fun with_kids :: "expr \<Rightarrow> expr list \<Rightarrow> expr option" where
  "with_kids (NotOptimizedExpr _) [e] = Some (NotOptimizedExpr e)"
| "with_kids (ReadExpr a us _) [i] = Some (ReadExpr a us i)"
| "with_kids (SelectExpr _ _ _) [c, t, f] = Some (SelectExpr c t f)"
| "with_kids (ConcatExpr _ _) [l, r] = Some (ConcatExpr l r)"
| "with_kids (ExtractExpr _ off w) [e] = Some (ExtractExpr e off w)"
| "with_kids (ZExtExpr _ w) [e] = Some (ZExtExpr e w)"
| "with_kids (SExtExpr _ w) [e] = Some (SExtExpr e w)"
| "with_kids (NotExpr _) [e] = Some (NotExpr e)"
| "with_kids (BinaryExpr k _ _) [l, r] = Some (BinaryExpr k l r)"
| "with_kids _ _ = None"

fun node_div_ok :: "expr \<Rightarrow> bool" where
  "node_div_ok (BinaryExpr k l r) = div_ok k r"
| "node_div_ok _ = True"

fun node_defined :: "expr \<Rightarrow> env \<Rightarrow> bool" where
  "node_defined (BinaryExpr k l r) \<sigma> = (isDivision k \<longrightarrow> eval r \<sigma> \<noteq> 0)"
| "node_defined _ \<sigma> = True"

lemma with_kids_self: "\<not> isConstantExpr e \<Longrightarrow> with_kids e (kids e) = Some e"
  by (cases e) auto

lemma zext_value:
  assumes "wf_expr e" "getWidth e \<le> w" "env_ok \<sigma>"
  shows "take_bit w (eval e \<sigma>) = eval e \<sigma>"
  using eval_in_width [OF assms(3,1)] assms(2) by (auto intro!: take_bit_in_width elim: in_width_mono)

lemma rebuild_builds:
  assumes n: "with_kids e ks = Some n" and wf: "wf_expr n" "node_div_ok n"
  shows "builds_if (node_defined n) (rebuild e ks) (getWidth n) (eval n)"
proof (cases n)
  case (ConstantExpr c)
  then show ?thesis using n by (cases "(e, ks)" rule: with_kids.cases) auto
next
  case (BinaryExpr k l r)
  then have "rebuild e ks = Binary_create k l r"
    using n by (cases "(e, ks)" rule: with_kids.cases) auto
  then show ?thesis
    using BinaryExpr wf by (auto intro!: builds_if_cong [OF Binary_create_builds [of l r k]])
next
  case (NotOptimizedExpr x)
  then have "rebuild e ks = NotOptimized_create x"
    using n by (cases "(e, ks)" rule: with_kids.cases) auto
  with NotOptimizedExpr wf show ?thesis by (simp add: NotOptimized_create_def builds_Some_iff)
next
  case (ReadExpr a us i)
  then have "rebuild e ks = Read_create a us i"
    using n by (cases "(e, ks)" rule: with_kids.cases) auto
  then show ?thesis
    using ReadExpr wf by (auto intro!: builds_if_cong [OF Read_create_builds [of a us i]])
next
  case (SelectExpr c t f)
  then have "rebuild e ks = Select_create c t f"
    using n by (cases "(e, ks)" rule: with_kids.cases) auto
  then show ?thesis
    using SelectExpr wf by (auto intro!: builds_if_cong [OF Select_create_builds [of c t f]])
next
  case (ConcatExpr l r)
  then have "rebuild e ks = Concat_create l r"
    using n by (cases "(e, ks)" rule: with_kids.cases) auto
  then show ?thesis
    using ConcatExpr wf by (auto intro!: builds_if_cong [OF Concat_Extract_builds(1) [of l r]])
next
  case (ExtractExpr x off w)
  then have "rebuild e ks = Extract_create x off w"
    using n by (cases "(e, ks)" rule: with_kids.cases) auto
  then show ?thesis
    using ExtractExpr wf by (auto intro!: builds_if_cong [OF Concat_Extract_builds(2) [of x w off]])
next
  case (ZExtExpr x w)
  then have "rebuild e ks = ZExt_create x w"
    using n by (cases "(e, ks)" rule: with_kids.cases) auto
  then show ?thesis
    using ZExtExpr wf by (auto intro!: builds_if_cong [OF ZExt_create_builds [of x w]] simp: zext_value)
next
  case (SExtExpr x w)
  then have "rebuild e ks = SExt_create x w"
    using n by (cases "(e, ks)" rule: with_kids.cases) auto
  then show ?thesis
    using SExtExpr wf by (auto intro!: builds_if_cong [OF SExt_create_builds [of x w]])
next
  case (NotExpr x)
  then have "rebuild e ks = Not_create x"
    using n by (cases "(e, ks)" rule: with_kids.cases) auto
  then show ?thesis
    using NotExpr wf by (auto intro!: builds_if_cong [OF Not_create_builds [of x]])
qed

subsection \<open>Properties\<close>

text \<open>A byte array of four elements and an assignment, for the concrete instances.\<close>

definition sample_array :: array where
  "sample_array = \<lparr>arrId = 0, arrName = ''a'', UFE = 0, UFE_Cheat = 0, arrSize = 4, arrDomain = 32,
     arrRange = 8, constantValues = []\<rparr>"

definition sample_read :: "nat \<Rightarrow> expr" where
  "sample_read i = ReadExpr sample_array NoUpdates (ConstantExpr (APInt 32 (int i)))"

definition sample_env :: env where
  "sample_env = (\<lambda>a i. take_bit (arrRange a) (200 + int i))"

lemma sample_simps [simp]:
  "wf_array sample_array" "arrRange sample_array = 8" "arrDomain sample_array = 32"
  "arrSize sample_array = 4" "env_ok sample_env" "getWidth (sample_read i) = 8"
  "\<not> isConstantExpr (sample_read i)" "sample_read i \<noteq> ConstantExpr c"
  by (simp_all add: sample_array_def sample_read_def sample_env_def wf_array_def isSymbolicArray_def
      env_ok_def)

lemma sample_read_wf [simp]: "i < 4 \<Longrightarrow> wf_expr (sample_read i)"
  by (simp add: sample_read_def wf_apint_def in_width_def)

lemma sample_read_eval [simp]: "i < 4 \<Longrightarrow> eval (sample_read i) sample_env = 200 + int i"
  by (auto simp: sample_read_def sample_env_def initial_def isConstantArray_def isSymbolicArray_def
      sample_array_def take_bit_eq_mod)

lemma sample_initial [simp]: "i < 4 \<Longrightarrow> initial sample_env sample_array (int i) = 200 + int i"
  using sample_read_eval [of i] by (simp add: sample_read_def)

text \<open>
  C1. Every canonicalising binary constructor, on well-formed operands of one width, returns (no
  assertion fails), and the expression it returns is well formed, has the operator's width and
  evaluates, under every assignment, to the operator applied to the values of the operands.
  For the four divisions the divisor must not be the constant zero, and the value is compared
  where the divisor is not zero.
\<close>

theorem binary_create_sound:
  assumes "wf_expr l" "wf_expr r" "getWidth l = getWidth r" "div_ok k r"
  shows "\<exists>e. Binary_create k l r = Some e \<and> wf_expr e \<and>
    getWidth e = (if isCmp k then 1 else getWidth l) \<and>
    (\<forall>\<sigma>. env_ok \<sigma> \<and> (isDivision k \<longrightarrow> eval r \<sigma> \<noteq> 0) \<longrightarrow>
      eval e \<sigma> = sem_bin k (getWidth l) (eval l \<sigma>) (eval r \<sigma>))"
  using Binary_create_builds [OF assms] by (auto simp: builds_if_def)

theorem binary_create_sound_witness:
  "\<exists>e. Binary_create Add (sample_read 0) (sample_read 1) = Some e \<and> wf_expr e \<and> getWidth e = 8 \<and>
     eval e sample_env = 145"
proof -
  obtain e where "Binary_create Add (sample_read 0) (sample_read 1) = Some e" "wf_expr e"
    "getWidth e = (if isCmp Add then 1 else getWidth (sample_read 0))"
    "\<forall>\<sigma>. env_ok \<sigma> \<and> (isDivision Add \<longrightarrow> eval (sample_read 1) \<sigma> \<noteq> 0) \<longrightarrow>
      eval e \<sigma> = sem_bin Add (getWidth (sample_read 0)) (eval (sample_read 0) \<sigma>) (eval (sample_read 1) \<sigma>)"
    using binary_create_sound [of "sample_read 0" "sample_read 1" Add] by (auto simp: div_ok_def)
  then show ?thesis
    by (auto simp: isDivision_def isCmp_def take_bit_eq_mod)
qed

text \<open>
  C22. Rebuilding a node from other kids (\<open>rebuild\<close>, the operation every visitor uses) keeps the
  meaning: where the node with those kids is well formed, \<open>rebuild\<close> returns an expression of the
  node's width with the node's value.
\<close>

theorem rebuild_sound:
  assumes "with_kids e ks = Some n" "wf_expr n" "node_div_ok n"
  shows "\<exists>x. rebuild e ks = Some x \<and> wf_expr x \<and> getWidth x = getWidth n \<and>
    (\<forall>\<sigma>. env_ok \<sigma> \<and> node_defined n \<sigma> \<longrightarrow> eval x \<sigma> = eval n \<sigma>)"
  using rebuild_builds [OF assms] by (auto simp: builds_if_def)

theorem rebuild_sound_witness:
  "\<exists>x. rebuild (ZExtExpr (sample_read 0) 16) [sample_read 1] = Some x \<and> wf_expr x \<and> eval x sample_env = 201"
  using rebuild_sound [of "ZExtExpr (sample_read 0) 16" "[sample_read 1]" "ZExtExpr (sample_read 1) 16"]
  by auto

text \<open>
  \<open>ExtractExpr::create\<close>, which pushes the extraction through concatenations and folds
  constants, builds an expression for the \<open>w\<close> bits of the operand at the offset.
\<close>

theorem extract_create_sound:
  assumes "wf_expr e" "0 < w" "off + w \<le> getWidth e"
  shows "\<exists>x. Extract_create e off w = Some x \<and> wf_expr x \<and> getWidth x = w \<and>
    (\<forall>\<sigma>. env_ok \<sigma> \<longrightarrow> eval x \<sigma> = take_bit w (eval e \<sigma> div 2 ^ off))"
  using Concat_Extract_builds(2) [OF assms] by (auto simp: builds_if_def)

theorem extract_create_sound_witness:
  "\<exists>x. Extract_create (ConcatExpr (sample_read 1) (sample_read 0)) 4 8 = Some x \<and> wf_expr x \<and>
     eval x sample_env = 156"
  using extract_create_sound [of "ConcatExpr (sample_read 1) (sample_read 0)" 8 4]
  by (auto simp: take_bit_eq_mod)

text \<open>
  \<open>ConcatExpr::create\<close>, which folds constants and merges adjacent extractions of one
  expression, builds an expression for the concatenation of the two values.
\<close>

theorem concat_create_sound:
  assumes "wf_expr l" "wf_expr r"
  shows "\<exists>x. Concat_create l r = Some x \<and> wf_expr x \<and> getWidth x = getWidth l + getWidth r \<and>
    (\<forall>\<sigma>. env_ok \<sigma> \<longrightarrow> eval x \<sigma> = eval l \<sigma> * 2 ^ getWidth r + eval r \<sigma>)"
  using Concat_Extract_builds(1) [OF assms] by (auto simp: builds_if_def)

theorem concat_create_sound_witness:
  "\<exists>x. Concat_create (ExtractExpr (sample_read 0) 4 4) (ExtractExpr (sample_read 0) 0 4) = Some x \<and>
     wf_expr x \<and> eval x sample_env = 200"
  using concat_create_sound [of "ExtractExpr (sample_read 0) 4 4" "ExtractExpr (sample_read 0) 0 4"]
  by (auto simp: take_bit_eq_mod)

text \<open>
  \<open>ReadExpr::create\<close>, which rolls back to the most recent write at the index when the writes
  in between are at other constant indices and folds reads of constant arrays, builds an
  expression with the value of the read under every assignment.
\<close>

theorem read_create_sound:
  assumes "wf_array a" "wf_ulist us a" "wf_expr ix" "getWidth ix = arrDomain a"
  shows "\<exists>x. Read_create a us ix = Some x \<and> wf_expr x \<and> getWidth x = arrRange a \<and>
    (\<forall>\<sigma>. env_ok \<sigma> \<longrightarrow> eval x \<sigma> = eval (ReadExpr a us ix) \<sigma>)"
  using Read_create_builds [OF assms] by (auto simp: builds_if_def)

theorem read_create_sound_witness:
  "\<exists>x. Read_create sample_array (UpdateNode NoUpdates (ConstantExpr (APInt 32 1)) (ConstantExpr (APInt 8 7)))
     (ConstantExpr (APInt 32 1)) = Some x \<and> wf_expr x \<and> eval x sample_env = 7"
  using read_create_sound [of sample_array
      "UpdateNode NoUpdates (ConstantExpr (APInt 32 1)) (ConstantExpr (APInt 8 7))" "ConstantExpr (APInt 32 1)"]
  by (auto simp: wf_apint_def in_width_def)

text \<open>
  \<open>SelectExpr::create\<close> returns an expression with the value of the branch that the condition
  selects, also where it turns a Boolean choice into a conjunction or a disjunction.
\<close>

theorem select_create_sound:
  assumes "wf_expr c" "wf_expr t" "wf_expr f" "getWidth c = 1" "getWidth t = getWidth f"
  shows "\<exists>x. Select_create c t f = Some x \<and> wf_expr x \<and> getWidth x = getWidth t \<and>
    (\<forall>\<sigma>. env_ok \<sigma> \<longrightarrow> eval x \<sigma> = (if eval c \<sigma> = 1 then eval t \<sigma> else eval f \<sigma>))"
proof -
  have "eval c \<sigma> = 0 \<or> eval c \<sigma> = 1" if "env_ok \<sigma>" for \<sigma>
    using eval_in_width [OF that assms(1)] assms(4) in_width_1_cases [of "eval c \<sigma>"] by auto
  then show ?thesis
    using Select_create_builds [of c t f] assms by (fastforce simp: builds_if_def)
qed

theorem select_create_sound_witness:
  "\<exists>x. Select_create (ExtractExpr (sample_read 1) 0 1) (sample_read 2) (sample_read 3) = Some x \<and>
     wf_expr x \<and> eval x sample_env = 202"
  using select_create_sound [of "ExtractExpr (sample_read 1) 0 1" "sample_read 2" "sample_read 3"]
  by (auto simp: take_bit_eq_mod)

text \<open>
  \<open>Expr::createTempRead\<close> of a byte array at one of the widths 8, 16, 32 and 64 reads the
  first bytes of the array in little-endian order.
\<close>

theorem createTempRead_little_endian:
  assumes "wf_array a" "arrDomain a = 32" "arrRange a = 8" "w \<in> {8, 16, 32, 64}"
  shows "\<exists>x. createTempRead a w = Some x \<and> wf_expr x \<and> getWidth x = w \<and>
    (\<forall>\<sigma>. env_ok \<sigma> \<longrightarrow> eval x \<sigma> = le_bytes (\<lambda>i. initial \<sigma> a (int i)) (w div 8))"
  using createTempRead_builds [OF assms] by (auto simp: builds_if_def)

theorem createTempRead_little_endian_witness:
  "\<exists>x. createTempRead sample_array 16 = Some x \<and> wf_expr x \<and> eval x sample_env = 201 * 256 + 200"
  using createTempRead_little_endian [of sample_array 16]
    sample_initial [of 0] sample_initial [of 1]
  by (auto simp: numeral_2_eq_2)

end
