(* ===== verification/Evaluator.thy ===== *)
theory Evaluator
  imports Expr_Rebuild
begin

text \<open>
  Evaluation of an expression under a (partial) assignment: \<open>ExprEvaluator\<close>
  (\<^verbatim>\<open>klee/lib/Expr/ExprEvaluator.cpp\<close>) over the traversal of \<open>ExprVisitor\<close>
  (\<^verbatim>\<open>klee/lib/Expr/ExprVisitor.cpp\<close>), and \<open>Assignment\<close>
  (\<^verbatim>\<open>klee/include/klee/util/Assignment.h\<close>). The virtual method \<open>getInitialValue\<close> is an
  argument of the evaluator; the locale \<open>initial_values\<close> is its contract.
\<close>

subsection \<open>The evaluator\<close>

text \<open>
  The traversal's end of \<open>doChildren\<close> in \<open>visitActual\<close>: rebuild when a kid changed, then
  \<open>visitExprPost\<close>, which drops a \<open>NotOptimized\<close> node.
\<close>

fun visitExprPost :: "expr \<Rightarrow> expr" where
  "visitExprPost (NotOptimizedExpr src) = src"
| "visitExprPost e = e"

definition doChildren :: "expr \<Rightarrow> expr list \<Rightarrow> expr option" where
  "doChildren e ks =
     (if ks \<noteq> kids e then map_option visitExprPost (rebuild e ks) else Some (visitExprPost e))"

text \<open>The test of \<open>visitExpr\<close>: every kid of a node that is no read is a constant.\<close>

fun all_constant_kids :: "expr \<Rightarrow> bool" where
  "all_constant_kids (ReadExpr _ _ _) = False"
| "all_constant_kids e = (kids e \<noteq> [] \<and> list_all isConstantExpr (kids e))"

text \<open>\<open>protectedDivOperation\<close>, on the visited kids.\<close>

definition protectedDivOperation :: "bkind \<Rightarrow> expr \<Rightarrow> expr \<Rightarrow> expr \<Rightarrow> expr \<Rightarrow> expr option" where
  "protectedDivOperation k l r l' r' =
     (let r'' = (case r' of ConstantExpr CE \<Rightarrow> if ConstantExpr_isZero CE then r else r' | _ \<Rightarrow> r')
      in if l' \<noteq> l \<or> r'' \<noteq> r then rebuild (BinaryExpr k l r) [l', r''] else Some (BinaryExpr k l r))"

text \<open>
  \<open>ExprEvaluator::visit\<close> and \<open>evalRead\<close>. The index of a read is passed as \<open>unsigned\<close>, so it
  is cut to 32 bits; \<open>getZExtValue\<close> asserts at most 64 bits.
\<close>

primrec evisit :: "(array \<Rightarrow> nat \<Rightarrow> expr option) \<Rightarrow> expr \<Rightarrow> expr option"
  and evalRead :: "(array \<Rightarrow> nat \<Rightarrow> expr option) \<Rightarrow> ulist \<Rightarrow> array \<Rightarrow> nat \<Rightarrow> expr option"
where
  "evisit I (ConstantExpr c) = Some (ConstantExpr c)"
| "evisit I (NotOptimizedExpr e) =
     (if all_constant_kids (NotOptimizedExpr e) then rebuild (NotOptimizedExpr e) [e]
      else do { e' \<leftarrow> evisit I e; doChildren (NotOptimizedExpr e) [e'] })"
| "evisit I (ReadExpr a us i) =
     do { v \<leftarrow> evisit I i;
          (case v of
             ConstantExpr CE \<Rightarrow>
               (if bitWidth CE > 64 then None
                else evalRead I us a (nat (take_bit 32 (apval CE))))
           | _ \<Rightarrow> doChildren (ReadExpr a us i) [v]) }"
| "evisit I (SelectExpr c t f) =
     (if all_constant_kids (SelectExpr c t f) then rebuild (SelectExpr c t f) [c, t, f]
      else do { c' \<leftarrow> evisit I c; t' \<leftarrow> evisit I t; f' \<leftarrow> evisit I f;
                doChildren (SelectExpr c t f) [c', t', f'] })"
| "evisit I (ConcatExpr l r) =
     (if all_constant_kids (ConcatExpr l r) then rebuild (ConcatExpr l r) [l, r]
      else do { l' \<leftarrow> evisit I l; r' \<leftarrow> evisit I r; doChildren (ConcatExpr l r) [l', r'] })"
| "evisit I (ExtractExpr e off w) =
     (if all_constant_kids (ExtractExpr e off w) then rebuild (ExtractExpr e off w) [e]
      else do { e' \<leftarrow> evisit I e; doChildren (ExtractExpr e off w) [e'] })"
| "evisit I (ZExtExpr e w) =
     (if all_constant_kids (ZExtExpr e w) then rebuild (ZExtExpr e w) [e]
      else do { e' \<leftarrow> evisit I e; doChildren (ZExtExpr e w) [e'] })"
| "evisit I (SExtExpr e w) =
     (if all_constant_kids (SExtExpr e w) then rebuild (SExtExpr e w) [e]
      else do { e' \<leftarrow> evisit I e; doChildren (SExtExpr e w) [e'] })"
| "evisit I (NotExpr e) =
     (if all_constant_kids (NotExpr e) then rebuild (NotExpr e) [e]
      else do { e' \<leftarrow> evisit I e; doChildren (NotExpr e) [e'] })"
| "evisit I (BinaryExpr k l r) =
     (if all_constant_kids (BinaryExpr k l r) then rebuild (BinaryExpr k l r) [l, r]
      else do { l' \<leftarrow> evisit I l; r' \<leftarrow> evisit I r;
                (if isDivision k then protectedDivOperation k l r l' r'
                 else doChildren (BinaryExpr k l r) [l', r']) })"
| "evalRead I NoUpdates a index =
     (if isConstantArray a \<and> index < arrSize a then Some (ConstantExpr (constantValues a ! index))
      else I a index)"
| "evalRead I (UpdateNode n i v) a index =
     do { ui \<leftarrow> evisit I i;
          (case ui of
             ConstantExpr CE \<Rightarrow>
               (if bitWidth CE > 64 then None
                else if apval CE = int index then evisit I v
                else evalRead I n a index)
           | _ \<Rightarrow> Read_create a (UpdateNode n i v)
                    (ConstantExpr (ConstantExpr_alloc (int index) (arrDomain a)))) }"

subsection \<open>Where an expression is defined\<close>

text \<open>The expression has no division by the constant zero.\<close>

primrec no_zero_div :: "expr \<Rightarrow> bool" and no_zero_div_u :: "ulist \<Rightarrow> bool" where
  "no_zero_div (ConstantExpr c) = True"
| "no_zero_div (NotOptimizedExpr e) = no_zero_div e"
| "no_zero_div (ReadExpr a us i) = (no_zero_div_u us \<and> no_zero_div i)"
| "no_zero_div (SelectExpr c t f) = (no_zero_div c \<and> no_zero_div t \<and> no_zero_div f)"
| "no_zero_div (ConcatExpr l r) = (no_zero_div l \<and> no_zero_div r)"
| "no_zero_div (ExtractExpr e off w) = no_zero_div e"
| "no_zero_div (ZExtExpr e w) = no_zero_div e"
| "no_zero_div (SExtExpr e w) = no_zero_div e"
| "no_zero_div (NotExpr e) = no_zero_div e"
| "no_zero_div (BinaryExpr k l r) = (no_zero_div l \<and> no_zero_div r \<and> div_ok k r)"
| "no_zero_div_u NoUpdates = True"
| "no_zero_div_u (UpdateNode n i v) = (no_zero_div_u n \<and> no_zero_div i \<and> no_zero_div v)"

text \<open>Every divisor has a nonzero value under the assignment.\<close>

primrec defined :: "expr \<Rightarrow> env \<Rightarrow> bool" and defined_u :: "ulist \<Rightarrow> env \<Rightarrow> bool" where
  "defined (ConstantExpr c) \<sigma> = True"
| "defined (NotOptimizedExpr e) \<sigma> = defined e \<sigma>"
| "defined (ReadExpr a us i) \<sigma> = (defined_u us \<sigma> \<and> defined i \<sigma>)"
| "defined (SelectExpr c t f) \<sigma> = (defined c \<sigma> \<and> defined t \<sigma> \<and> defined f \<sigma>)"
| "defined (ConcatExpr l r) \<sigma> = (defined l \<sigma> \<and> defined r \<sigma>)"
| "defined (ExtractExpr e off w) \<sigma> = defined e \<sigma>"
| "defined (ZExtExpr e w) \<sigma> = defined e \<sigma>"
| "defined (SExtExpr e w) \<sigma> = defined e \<sigma>"
| "defined (NotExpr e) \<sigma> = defined e \<sigma>"
| "defined (BinaryExpr k l r) \<sigma> = (defined l \<sigma> \<and> defined r \<sigma> \<and> (isDivision k \<longrightarrow> eval r \<sigma> \<noteq> 0))"
| "defined_u NoUpdates \<sigma> = True"
| "defined_u (UpdateNode n i v) \<sigma> = (defined_u n \<sigma> \<and> defined i \<sigma> \<and> defined v \<sigma>)"

text \<open>No \<open>NotOptimized\<close> node stands on a constant, and every array is indexed by at most 32 bits.\<close>

primrec foldable :: "expr \<Rightarrow> bool" and foldable_u :: "ulist \<Rightarrow> bool" where
  "foldable (ConstantExpr c) = True"
| "foldable (NotOptimizedExpr e) = (foldable e \<and> \<not> isConstantExpr e)"
| "foldable (ReadExpr a us i) = (foldable_u us \<and> foldable i)"
| "foldable (SelectExpr c t f) = (foldable c \<and> foldable t \<and> foldable f)"
| "foldable (ConcatExpr l r) = (foldable l \<and> foldable r)"
| "foldable (ExtractExpr e off w) = foldable e"
| "foldable (ZExtExpr e w) = foldable e"
| "foldable (SExtExpr e w) = foldable e"
| "foldable (NotExpr e) = foldable e"
| "foldable (BinaryExpr k l r) = (foldable l \<and> foldable r)"
| "foldable_u NoUpdates = True"
| "foldable_u (UpdateNode n i v) = (foldable_u n \<and> foldable i \<and> foldable v)"

primrec short_index :: "expr \<Rightarrow> bool" and short_index_u :: "ulist \<Rightarrow> bool" where
  "short_index (ConstantExpr c) = True"
| "short_index (NotOptimizedExpr e) = short_index e"
| "short_index (ReadExpr a us i) = (short_index_u us \<and> short_index i \<and> arrDomain a \<le> 32)"
| "short_index (SelectExpr c t f) = (short_index c \<and> short_index t \<and> short_index f)"
| "short_index (ConcatExpr l r) = (short_index l \<and> short_index r)"
| "short_index (ExtractExpr e off w) = short_index e"
| "short_index (ZExtExpr e w) = short_index e"
| "short_index (SExtExpr e w) = short_index e"
| "short_index (NotExpr e) = short_index e"
| "short_index (BinaryExpr k l r) = (short_index l \<and> short_index r)"
| "short_index_u NoUpdates = True"
| "short_index_u (UpdateNode n i v) = (short_index_u n \<and> short_index i \<and> short_index v)"

subsection \<open>Evaluation keeps the value\<close>

lemma visitExprPost_value [simp]:
  "getWidth (visitExprPost e) = getWidth e" "eval (visitExprPost e) \<sigma> = eval e \<sigma>"
  "wf_expr e \<Longrightarrow> wf_expr (visitExprPost e)"
  by (cases e; simp)+

lemma builds_post: "builds_if P x w f \<Longrightarrow> builds_if P (map_option visitExprPost x) w f"
  by (auto simp: builds_if_def)

lemma doChildren_builds:
  assumes "with_kids e ks = Some n" "wf_expr e" "wf_expr n" "node_div_ok n" "getWidth n = w"
    and "\<not> isConstantExpr e"
    and "\<And>\<sigma>. env_ok \<sigma> \<Longrightarrow> P \<sigma> \<Longrightarrow> node_defined n \<sigma> \<and> eval n \<sigma> = f \<sigma>"
  shows "builds_if P (doChildren e ks) w f"
proof (cases "ks = kids e")
  case True
  with assms(1,6) have "n = e" by (simp add: with_kids_self)
  with True assms show ?thesis by (auto simp: doChildren_def builds_Some_iff)
next
  case False
  have "builds_if P (rebuild e ks) w f"
    using rebuild_builds [OF assms(1,3,4)] by (rule builds_if_cong) (use assms in auto)
  with False show ?thesis by (simp add: doChildren_def builds_post)
qed

lemma same_kids_builds:
  assumes "wf_expr e" "node_div_ok e" "\<not> isConstantExpr e"
    and "\<And>\<sigma>. env_ok \<sigma> \<Longrightarrow> P \<sigma> \<Longrightarrow> node_defined e \<sigma>"
  shows "builds_if P (rebuild e (kids e)) (getWidth e) (eval e)"
  by (rule builds_if_cong [OF rebuild_builds [OF with_kids_self assms(1,2)]]) (use assms in auto)

lemma visit_either:
  assumes "wf_expr e" "node_div_ok e" "\<not> isConstantExpr e"
    and "\<And>\<sigma>. env_ok \<sigma> \<Longrightarrow> P \<sigma> \<Longrightarrow> node_defined e \<sigma>"
    and "builds_if P B (getWidth e) (eval e)"
  shows "builds_if P (if c then rebuild e (kids e) else B) (getWidth e) (eval e)"
  using same_kids_builds [OF assms(1-4)] assms(5) by presburger

lemma visit1_builds:
  assumes "builds_if P v (getWidth x) (eval x)" "wf_expr e" "\<not> isConstantExpr e"
    and "\<And>x'. with_kids e [x'] = Some (n x')"
    and "\<And>x'. wf_expr x' \<Longrightarrow> getWidth x' = getWidth x \<Longrightarrow>
      wf_expr (n x') \<and> getWidth (n x') = getWidth e \<and> node_div_ok (n x')"
    and "\<And>x' \<sigma>. env_ok \<sigma> \<Longrightarrow> P \<sigma> \<Longrightarrow> getWidth x' = getWidth x \<Longrightarrow> eval x' \<sigma> = eval x \<sigma> \<Longrightarrow>
      node_defined (n x') \<sigma> \<and> eval (n x') \<sigma> = eval e \<sigma>"
  shows "builds_if P (do { x' \<leftarrow> v; doChildren e [x'] }) (getWidth e) (eval e)"
  by (rule builds_bind [OF assms(1)], rule doChildren_builds [OF assms(4,2)]) (use assms in auto)

lemma visit2_builds:
  assumes "builds_if P v (getWidth x) (eval x)" "builds_if P u (getWidth y) (eval y)"
    and "\<And>x' y'. wf_expr x' \<Longrightarrow> getWidth x' = getWidth x \<Longrightarrow> wf_expr y' \<Longrightarrow> getWidth y' = getWidth y \<Longrightarrow>
      (\<And>\<sigma>. env_ok \<sigma> \<Longrightarrow> P \<sigma> \<Longrightarrow> eval x' \<sigma> = eval x \<sigma> \<and> eval y' \<sigma> = eval y \<sigma>) \<Longrightarrow>
      builds_if P (g x' y') w f"
  shows "builds_if P (do { x' \<leftarrow> v; y' \<leftarrow> u; g x' y' }) w f"
  by (rule builds_bind [OF assms(1)], rule builds_bind [OF assms(2)], rule assms(3)) auto

lemma protectedDiv_builds:
  assumes "isDivision k" "wf_expr l" "wf_expr r" "getWidth l = getWidth r" "div_ok k r"
    and "wf_expr l'" "getWidth l' = getWidth l" "wf_expr r'" "getWidth r' = getWidth r"
    and v: "\<And>\<sigma>. env_ok \<sigma> \<Longrightarrow> P \<sigma> \<Longrightarrow> eval l' \<sigma> = eval l \<sigma> \<and> eval r' \<sigma> = eval r \<sigma> \<and> eval r \<sigma> \<noteq> 0"
  shows "builds_if P (protectedDivOperation k l r l' r') (getWidth (BinaryExpr k l r)) (eval (BinaryExpr k l r))"
proof -
  define r'' where "r'' = (case r' of ConstantExpr CE \<Rightarrow> if ConstantExpr_isZero CE then r else r' | _ \<Rightarrow> r')"
  have r: "r'' = r \<or> r'' = r' \<and> div_ok k r'"
    unfolding r''_def using assms(1)
    by (cases r') (auto simp: div_ok_def ConstantExpr_isZero_def)
  then have wf: "wf_expr r''" "getWidth r'' = getWidth r" "div_ok k r''" using assms by auto
  have v'': "eval r'' \<sigma> = eval r \<sigma>" if "env_ok \<sigma>" "P \<sigma>" for \<sigma> using r v [OF that] by auto
  have "builds_if (node_defined (BinaryExpr k l' r'')) (rebuild (BinaryExpr k l r) [l', r''])
      (getWidth (BinaryExpr k l' r'')) (eval (BinaryExpr k l' r''))"
    by (rule rebuild_builds) (use assms wf in auto)
  then have "builds_if P (rebuild (BinaryExpr k l r) [l', r'']) (getWidth (BinaryExpr k l r)) (eval (BinaryExpr k l r))"
    by (rule builds_if_cong) (use assms v v'' in auto)
  moreover have "protectedDivOperation k l r l' r' =
      (if l' \<noteq> l \<or> r'' \<noteq> r then rebuild (BinaryExpr k l r) [l', r''] else Some (BinaryExpr k l r))"
    by (simp add: protectedDivOperation_def Let_def r''_def)
  moreover have "builds_if P (Some (BinaryExpr k l r)) (getWidth (BinaryExpr k l r)) (eval (BinaryExpr k l r))"
    using assms by (simp add: builds_Some_iff)
  ultimately show ?thesis by presburger
qed

locale initial_values =
  fixes I :: "array \<Rightarrow> nat \<Rightarrow> expr option" and P :: "env \<Rightarrow> bool"
  assumes initial_builds:
    "wf_array a \<Longrightarrow> ix < 2 ^ arrDomain a \<Longrightarrow> \<not> (isConstantArray a \<and> ix < arrSize a) \<Longrightarrow>
       builds_if P (I a ix) (arrRange a) (\<lambda>\<sigma>. \<sigma> a ix)"
begin

lemma evisit_builds:
  shows "wf_expr e \<Longrightarrow> no_zero_div e \<Longrightarrow> short_index e \<Longrightarrow>
      builds_if (\<lambda>\<sigma>. P \<sigma> \<and> defined e \<sigma>) (evisit I e) (getWidth e) (eval e)"
    and "wf_array a \<Longrightarrow> wf_ulist us a \<Longrightarrow> no_zero_div_u us \<Longrightarrow> short_index_u us \<Longrightarrow> arrDomain a \<le> 32 \<Longrightarrow>
      ix < 2 ^ arrDomain a \<Longrightarrow>
      builds_if (\<lambda>\<sigma>. P \<sigma> \<and> defined_u us \<sigma>) (evalRead I us a ix) (arrRange a)
        (\<lambda>\<sigma>. case ulookup us \<sigma> (int ix) of Some v \<Rightarrow> v | None \<Rightarrow> initial \<sigma> a (int ix))"
proof (induction e and us arbitrary: and a ix)
  case (ConstantExpr c)
  then show ?case by (simp add: builds_Some_iff)
next
  case (NotOptimizedExpr e)
  have "builds_if (\<lambda>\<sigma>. P \<sigma> \<and> defined e \<sigma>) (do { e' \<leftarrow> evisit I e; doChildren (NotOptimizedExpr e) [e'] })
      (getWidth (NotOptimizedExpr e)) (eval (NotOptimizedExpr e))"
    by (rule visit1_builds [where n = NotOptimizedExpr and x = e]) (use NotOptimizedExpr in auto)
  then show ?case
    unfolding evisit.simps defined.simps
    by (intro visit_either [of "NotOptimizedExpr e", unfolded kids.simps]) (use NotOptimizedExpr.prems in auto)
next
  case (ExtractExpr e off w)
  have "builds_if (\<lambda>\<sigma>. P \<sigma> \<and> defined e \<sigma>) (do { e' \<leftarrow> evisit I e; doChildren (ExtractExpr e off w) [e'] })
      (getWidth (ExtractExpr e off w)) (eval (ExtractExpr e off w))"
    by (rule visit1_builds [where n = "\<lambda>x. ExtractExpr x off w" and x = e]) (use ExtractExpr in auto)
  then show ?case
    unfolding evisit.simps defined.simps
    by (intro visit_either [of "ExtractExpr e off w", unfolded kids.simps]) (use ExtractExpr.prems in auto)
next
  case (ZExtExpr e w)
  have "builds_if (\<lambda>\<sigma>. P \<sigma> \<and> defined e \<sigma>) (do { e' \<leftarrow> evisit I e; doChildren (ZExtExpr e w) [e'] })
      (getWidth (ZExtExpr e w)) (eval (ZExtExpr e w))"
    by (rule visit1_builds [where n = "\<lambda>x. ZExtExpr x w" and x = e]) (use ZExtExpr in auto)
  then show ?case
    unfolding evisit.simps defined.simps
    by (intro visit_either [of "ZExtExpr e w", unfolded kids.simps]) (use ZExtExpr.prems in auto)
next
  case (SExtExpr e w)
  have "builds_if (\<lambda>\<sigma>. P \<sigma> \<and> defined e \<sigma>) (do { e' \<leftarrow> evisit I e; doChildren (SExtExpr e w) [e'] })
      (getWidth (SExtExpr e w)) (eval (SExtExpr e w))"
    by (rule visit1_builds [where n = "\<lambda>x. SExtExpr x w" and x = e]) (use SExtExpr in auto)
  then show ?case
    unfolding evisit.simps defined.simps
    by (intro visit_either [of "SExtExpr e w", unfolded kids.simps]) (use SExtExpr.prems in auto)
next
  case (NotExpr e)
  have "builds_if (\<lambda>\<sigma>. P \<sigma> \<and> defined e \<sigma>) (do { e' \<leftarrow> evisit I e; doChildren (NotExpr e) [e'] })
      (getWidth (NotExpr e)) (eval (NotExpr e))"
    by (rule visit1_builds [where n = NotExpr and x = e]) (use NotExpr in auto)
  then show ?case
    unfolding evisit.simps defined.simps
    by (intro visit_either [of "NotExpr e", unfolded kids.simps]) (use NotExpr.prems in auto)
next
  case (ConcatExpr l r)
  let ?P = "\<lambda>\<sigma>. P \<sigma> \<and> defined l \<sigma> \<and> defined r \<sigma>"
  have "builds_if ?P (evisit I l) (getWidth l) (eval l)" "builds_if ?P (evisit I r) (getWidth r) (eval r)"
    using ConcatExpr by (auto intro: builds_if_cong)
  then have "builds_if ?P (do { l' \<leftarrow> evisit I l; r' \<leftarrow> evisit I r; doChildren (ConcatExpr l r) [l', r'] })
      (getWidth (ConcatExpr l r)) (eval (ConcatExpr l r))"
  proof (rule visit2_builds)
    show "builds_if ?P (doChildren (ConcatExpr l r) [l', r']) (getWidth (ConcatExpr l r)) (eval (ConcatExpr l r))"
      if "wf_expr l'" "getWidth l' = getWidth l" "wf_expr r'" "getWidth r' = getWidth r"
        "\<And>\<sigma>. env_ok \<sigma> \<Longrightarrow> ?P \<sigma> \<Longrightarrow> eval l' \<sigma> = eval l \<sigma> \<and> eval r' \<sigma> = eval r \<sigma>" for l' r'
      by (rule doChildren_builds [where n = "ConcatExpr l' r'"]) (use ConcatExpr.prems that in auto)
  qed
  then show ?case
    unfolding evisit.simps defined.simps
    by (intro visit_either [of "ConcatExpr l r", unfolded kids.simps]) (use ConcatExpr.prems in auto)
next
  case (BinaryExpr k l r)
  let ?e = "BinaryExpr k l r"
  let ?P = "\<lambda>\<sigma>. P \<sigma> \<and> defined l \<sigma> \<and> defined r \<sigma> \<and> (isDivision k \<longrightarrow> eval r \<sigma> \<noteq> 0)"
  have "builds_if ?P (evisit I l) (getWidth l) (eval l)" "builds_if ?P (evisit I r) (getWidth r) (eval r)"
    using BinaryExpr by (auto intro: builds_if_cong)
  then have "builds_if ?P (do { l' \<leftarrow> evisit I l; r' \<leftarrow> evisit I r;
      (if isDivision k then protectedDivOperation k l r l' r' else doChildren ?e [l', r']) }) (getWidth ?e) (eval ?e)"
  proof (rule visit2_builds)
    fix l' r'
    assume v: "wf_expr l'" "getWidth l' = getWidth l" "wf_expr r'" "getWidth r' = getWidth r"
      "\<And>\<sigma>. env_ok \<sigma> \<Longrightarrow> ?P \<sigma> \<Longrightarrow> eval l' \<sigma> = eval l \<sigma> \<and> eval r' \<sigma> = eval r \<sigma>"
    show "builds_if ?P (if isDivision k then protectedDivOperation k l r l' r' else doChildren ?e [l', r'])
        (getWidth ?e) (eval ?e)"
    proof (cases "isDivision k")
      case True
      then have "builds_if ?P (protectedDivOperation k l r l' r') (getWidth ?e) (eval ?e)"
        using BinaryExpr.prems v by (intro protectedDiv_builds) auto
      with True show ?thesis by presburger
    next
      case False
      have "builds_if ?P (doChildren ?e [l', r']) (getWidth ?e) (eval ?e)"
        by (rule doChildren_builds [where n = "BinaryExpr k l' r'"])
           (use False BinaryExpr.prems v in \<open>auto simp: div_ok_def\<close>)
      with False show ?thesis by presburger
    qed
  qed
  then show ?case
    unfolding evisit.simps defined.simps
    by (intro visit_either [of ?e, unfolded kids.simps]) (use BinaryExpr.prems in auto)
next
  case (SelectExpr c t f)
  let ?e = "SelectExpr c t f"
  let ?P = "\<lambda>\<sigma>. P \<sigma> \<and> defined c \<sigma> \<and> defined t \<sigma> \<and> defined f \<sigma>"
  have v: "builds_if ?P (evisit I c) (getWidth c) (eval c)" "builds_if ?P (evisit I t) (getWidth t) (eval t)"
    "builds_if ?P (evisit I f) (getWidth f) (eval f)"
    using SelectExpr by (auto intro: builds_if_cong)
  have "builds_if ?P (do { c' \<leftarrow> evisit I c; t' \<leftarrow> evisit I t; f' \<leftarrow> evisit I f; doChildren ?e [c', t', f'] })
      (getWidth ?e) (eval ?e)"
  proof (rule builds_bind [OF v(1)], rule visit2_builds [OF v(2,3)])
    fix c' t' f'
    assume "wf_expr c'" "getWidth c' = getWidth c" "\<And>\<sigma>. env_ok \<sigma> \<Longrightarrow> ?P \<sigma> \<Longrightarrow> eval c' \<sigma> = eval c \<sigma>"
      "wf_expr t'" "getWidth t' = getWidth t" "wf_expr f'" "getWidth f' = getWidth f"
      "\<And>\<sigma>. env_ok \<sigma> \<Longrightarrow> ?P \<sigma> \<Longrightarrow> eval t' \<sigma> = eval t \<sigma> \<and> eval f' \<sigma> = eval f \<sigma>"
    then show "builds_if ?P (doChildren ?e [c', t', f']) (getWidth ?e) (eval ?e)"
      by (intro doChildren_builds [where n = "SelectExpr c' t' f'"]) (use SelectExpr.prems in auto)
  qed
  then show ?case
    unfolding evisit.simps defined.simps
    by (intro visit_either [of ?e, unfolded kids.simps]) (use SelectExpr.prems in auto)
next
  case (ReadExpr a us i)
  let ?e = "ReadExpr a us i" and ?P = "\<lambda>\<sigma>. P \<sigma> \<and> defined_u us \<sigma> \<and> defined i \<sigma>"
  have wf: "wf_array a" "wf_ulist us a" "wf_expr i" "getWidth i = arrDomain a" "arrDomain a \<le> 32"
    "no_zero_div_u us" "short_index_u us"
    using ReadExpr.prems by auto
  have "builds_if ?P (evisit I i) (getWidth i) (eval i)"
    using ReadExpr by (auto intro: builds_if_cong)
  then show ?case
    unfolding evisit.simps defined.simps
  proof (rule builds_bind)
    fix v
    assume v: "wf_expr v" "getWidth v = getWidth i" "\<And>\<sigma>. env_ok \<sigma> \<Longrightarrow> ?P \<sigma> \<Longrightarrow> eval v \<sigma> = eval i \<sigma>"
    show "builds_if ?P (case v of ConstantExpr CE \<Rightarrow> (if bitWidth CE > 64 then None
          else evalRead I us a (nat (take_bit 32 (apval CE)))) | _ \<Rightarrow> doChildren ?e [v]) (getWidth ?e) (eval ?e)"
    proof (cases "isConstantExpr v")
      case True
      then obtain c where c: "v = ConstantExpr c" by (auto simp: isConstantExpr_iff)
      then have inw: "in_width (arrDomain a) (apval c)" "bitWidth c = arrDomain a"
        using v(1,2) wf(4) wf_apint_in_width [of c] by auto
      have "int (nat (take_bit 32 (apval c))) = apval c"
        using in_width_mono [OF inw(1) wf(5)] inw(1) by (simp add: in_width_nonneg)
      then obtain j where j: "nat (take_bit 32 (apval c)) = j" "apval c = int j" by metis
      then have "j < 2 ^ arrDomain a"
        using inw(1) by (metis in_width_def of_nat_less_iff of_nat_numeral of_nat_power)
      with wf have "builds_if (\<lambda>\<sigma>. P \<sigma> \<and> defined_u us \<sigma>) (evalRead I us a j) (arrRange a)
          (\<lambda>\<sigma>. case ulookup us \<sigma> (int j) of Some v \<Rightarrow> v | None \<Rightarrow> initial \<sigma> a (int j))"
        by (intro ReadExpr.IH)
      then have "builds_if ?P (evalRead I us a j) (getWidth ?e) (eval ?e)"
      proof (rule builds_if_cong)
        fix \<sigma>
        assume "env_ok \<sigma>" "?P \<sigma>"
        with v(3) [OF this] c j(2) show "(P \<sigma> \<and> defined_u us \<sigma>) \<and>
            (case ulookup us \<sigma> (int j) of Some v \<Rightarrow> v | None \<Rightarrow> initial \<sigma> a (int j)) = eval ?e \<sigma>"
          by (simp split: option.split)
      qed simp
      then show ?thesis using c inw(2) wf(5) j(1) by simp
    next
      case False
      have "builds_if ?P (doChildren ?e [v]) (getWidth ?e) (eval ?e)"
        by (rule doChildren_builds [where n = "ReadExpr a us v"]) (use wf v in \<open>auto split: option.split\<close>)
      then show ?thesis by (simp only: case_not_constant [OF False])
    qed
  qed
next
  case NoUpdates
  then have "builds_if P (I a ix) (arrRange a) (\<lambda>\<sigma>. \<sigma> a ix)" if "\<not> (isConstantArray a \<and> ix < arrSize a)"
    using that by (intro initial_builds)
  moreover have "list_all (\<lambda>c. wf_apint c \<and> bitWidth c = arrRange a) (constantValues a)"
    "isConstantArray a \<Longrightarrow> length (constantValues a) = arrSize a"
    using NoUpdates by (auto simp: wf_array_def isConstantArray_def)
  ultimately show ?case
    by (auto simp: initial_def builds_Some_iff list_all_length)
next
  case (UpdateNode n i v)
  let ?us = "UpdateNode n i v" and ?P = "\<lambda>\<sigma>. P \<sigma> \<and> defined_u n \<sigma> \<and> defined i \<sigma> \<and> defined v \<sigma>"
  let ?f = "\<lambda>\<sigma>. case ulookup (UpdateNode n i v) \<sigma> (int ix) of Some v \<Rightarrow> v | None \<Rightarrow> initial \<sigma> a (int ix)"
  have wf: "wf_array a" "wf_ulist n a" "wf_expr i" "wf_expr v" "getWidth i = arrDomain a"
    "getWidth v = arrRange a" "arrDomain a \<le> 32" "ix < 2 ^ arrDomain a"
    using UpdateNode.prems by auto
  have "builds_if ?P (evisit I i) (getWidth i) (eval i)"
    using UpdateNode by (auto intro: builds_if_cong)
  then show ?case
    unfolding evalRead.simps defined_u.simps
  proof (rule builds_bind)
    fix u
    assume u: "wf_expr u" "getWidth u = getWidth i" "\<And>\<sigma>. env_ok \<sigma> \<Longrightarrow> ?P \<sigma> \<Longrightarrow> eval u \<sigma> = eval i \<sigma>"
    show "builds_if ?P (case u of ConstantExpr CE \<Rightarrow> (if bitWidth CE > 64 then None
          else if apval CE = int ix then evisit I v else evalRead I n a ix)
        | _ \<Rightarrow> Read_create a ?us (ConstantExpr (ConstantExpr_alloc (int ix) (arrDomain a)))) (arrRange a) ?f"
    proof (cases "isConstantExpr u")
      case True
      then obtain c where c: "u = ConstantExpr c" "bitWidth c = arrDomain a"
        using u wf(5) by (auto simp: isConstantExpr_iff)
      have "builds_if ?P (evisit I v) (arrRange a) ?f" if "apval c = int ix"
        by (rule builds_if_cong [OF UpdateNode.IH(3)]) (use UpdateNode.prems u(3) c that in auto)
      moreover have "builds_if ?P (evalRead I n a ix) (arrRange a) ?f" if "apval c \<noteq> int ix"
        by (rule builds_if_cong [OF UpdateNode.IH(1)]) (use UpdateNode.prems u(3) c that in auto)
      ultimately show ?thesis using c wf(7) by simp
    next
      case False
      have "in_width (arrDomain a) (int ix)"
        using wf(8) by (simp add: in_width_def flip: of_nat_power)
      then have "builds_if ?P (Read_create a ?us (ConstantExpr (ConstantExpr_alloc (int ix) (arrDomain a)))) (arrRange a) ?f"
        by (intro builds_if_cong [OF Read_create_builds [of a ?us]])
           (use UpdateNode.prems in \<open>auto simp: wf_array_def split: option.split\<close>)
      then show ?thesis by (simp only: case_not_constant [OF False])
    qed
  qed
qed

end

subsection \<open>Evaluation of the constants\<close>

text \<open>Rebuilding a node on constants folds it, but for \<open>NotOptimized\<close> and reads.\<close>

lemma BCREATE_const:
  assumes "bitWidth a = bitWidth b"
  shows "BCREATE_R k pl pr cre (ConstantExpr a) (ConstantExpr b) = map_option ConstantExpr (ConstantExpr_op k a b)"
    and "BCREATE k cre (ConstantExpr a) (ConstantExpr b) = map_option ConstantExpr (ConstantExpr_op k a b)"
  using assms by (simp_all add: BCREATE_R_def BCREATE_def)

lemma Ne_create_const:
  assumes "wf_apint a" "wf_apint b" "bitWidth a = bitWidth b"
  shows "\<exists>c. Ne_create (ConstantExpr a) (ConstantExpr b) = Some (ConstantExpr c)"
  using assms
  by (auto simp: Ne_create_def Eq_create.simps BCREATE_const ConstantExpr_create_def
      ConstantExpr_Eq_def in_width_def)

lemmas create_unfolds = Add_create.simps Sub_create.simps Eq_create.simps
  Mul_create_def UDiv_create_def SDiv_create_def URem_create_def SRem_create_def And_create_def
  Or_create_def Xor_create_def Shl_create_def LShr_create_def AShr_create_def Ult_create_def
  Ule_create_def Slt_create_def Sle_create_def

lemma Binary_create_direct:
  assumes "bitWidth a = bitWidth b" "k \<notin> {Ne, Ugt, Uge, Sgt, Sge}"
  shows "Binary_create k (ConstantExpr a) (ConstantExpr b) = map_option ConstantExpr (ConstantExpr_op k a b)"
  using assms(2) by (cases k) (simp_all add: create_unfolds BCREATE_const [OF assms(1)] del: ConstantExpr_op.simps)

lemma Binary_create_swapped:
  assumes "bitWidth a = bitWidth b"
  shows "Binary_create Ugt (ConstantExpr a) (ConstantExpr b) = Some (ConstantExpr (ConstantExpr_Ult b a))"
    "Binary_create Uge (ConstantExpr a) (ConstantExpr b) = Some (ConstantExpr (ConstantExpr_Ule b a))"
    "Binary_create Sgt (ConstantExpr a) (ConstantExpr b) = Some (ConstantExpr (ConstantExpr_Slt b a))"
    "Binary_create Sge (ConstantExpr a) (ConstantExpr b) = Some (ConstantExpr (ConstantExpr_Sle b a))"
  by (simp_all add: Ugt_create_def Uge_create_def Sgt_create_def Sge_create_def Ult_create_def Ule_create_def
      Slt_create_def Sle_create_def BCREATE_const [OF assms [symmetric]])

lemma Binary_create_const:
  assumes "wf_apint a" "wf_apint b" "bitWidth a = bitWidth b" "isDivision k \<Longrightarrow> apval b \<noteq> 0"
  shows "\<exists>c. Binary_create k (ConstantExpr a) (ConstantExpr b) = Some (ConstantExpr c)"
proof (cases "k \<in> {Ne, Ugt, Uge, Sgt, Sge}")
  case True
  then show ?thesis
    using Ne_create_const [OF assms(1-3)] Binary_create_swapped [OF assms(3)] by auto
next
  case False
  then show ?thesis
    using ConstantExpr_op_sound [OF assms] Binary_create_direct [OF assms(3) False] by auto
qed

lemma rebuild_constant:
  assumes n: "with_kids e ks = Some n" and wf: "wf_expr n" "node_div_ok n"
    and "list_all isConstantExpr ks" and "\<not> (\<exists>x. n = NotOptimizedExpr x)" "\<not> (\<exists>a us i. n = ReadExpr a us i)"
  shows "\<exists>c. rebuild e ks = Some (ConstantExpr c)"
proof (cases n)
  case (BinaryExpr k l r)
  then obtain a b where ab: "ks = [l, r]" "l = ConstantExpr a" "r = ConstantExpr b" "rebuild e ks = Binary_create k l r"
    using n assms(4) by (cases "(e, ks)" rule: with_kids.cases) (auto simp: isConstantExpr_iff)
  then show ?thesis
    using wf BinaryExpr Binary_create_const [of a b k] by (auto simp: div_ok_def)
next
  case (SelectExpr c t f)
  then obtain x y z where "ks = [ConstantExpr x, ConstantExpr y, ConstantExpr z]"
    "c = ConstantExpr x" "t = ConstantExpr y" "f = ConstantExpr z" "rebuild e ks = Select_create c t f"
    using n assms(4) by (cases "(e, ks)" rule: with_kids.cases) (auto simp: isConstantExpr_iff)
  then show ?thesis using wf SelectExpr by (auto simp: Select_create_def)
next
  case (ConcatExpr l r)
  then obtain a b where "l = ConstantExpr a" "r = ConstantExpr b" "rebuild e ks = Concat_create l r"
    using n assms(4) by (cases "(e, ks)" rule: with_kids.cases) (auto simp: isConstantExpr_iff)
  then show ?thesis by (simp add: Concat_create.simps)
next
  case (ExtractExpr x off w)
  then obtain a where "x = ConstantExpr a" "rebuild e ks = Extract_create x off w"
    using n assms(4) by (cases "(e, ks)" rule: with_kids.cases) (auto simp: isConstantExpr_iff)
  then show ?thesis using wf ExtractExpr by (simp add: Extract_create.simps)
next
  case (ZExtExpr x w)
  then obtain a where "x = ConstantExpr a" "rebuild e ks = ZExt_create x w"
    using n assms(4) by (cases "(e, ks)" rule: with_kids.cases) (auto simp: isConstantExpr_iff)
  then show ?thesis using wf ZExtExpr by (simp add: ZExt_create_def)
next
  case (SExtExpr x w)
  then obtain a where "x = ConstantExpr a" "rebuild e ks = SExt_create x w"
    using n assms(4) by (cases "(e, ks)" rule: with_kids.cases) (auto simp: isConstantExpr_iff)
  then show ?thesis using wf SExtExpr by (simp add: SExt_create_def)
next
  case (NotExpr x)
  then obtain a where "x = ConstantExpr a" "rebuild e ks = Not_create x"
    using n assms(4) by (cases "(e, ks)" rule: with_kids.cases) (auto simp: isConstantExpr_iff)
  then show ?thesis by (simp add: Not_create_def)
qed (use n assms(5,6) in \<open>cases "(e, ks)" rule: with_kids.cases, auto\<close>)+

lemma doChildren_constant:
  assumes "with_kids e ks = Some n" "wf_expr n" "node_div_ok n" "list_all isConstantExpr ks"
    and "\<not> list_all isConstantExpr (kids e)"
    and "\<not> (\<exists>x. n = NotOptimizedExpr x)" "\<not> (\<exists>a us i. n = ReadExpr a us i)"
  shows "\<exists>c. doChildren e ks = Some (ConstantExpr c)"
  using rebuild_constant [OF assms(1-4,6,7)] assms(4,5) by (auto simp: doChildren_def)

text \<open>What the evaluation of an expression to a constant needs of it.\<close>

definition evaluable :: "env \<Rightarrow> expr \<Rightarrow> bool" where
  "evaluable \<sigma> e \<longleftrightarrow> wf_expr e \<and> no_zero_div e \<and> short_index e \<and> foldable e \<and> defined e \<sigma>"

locale constant_values = initial_values I P for I P +
  fixes \<sigma> :: env
  assumes initial_constant: "wf_array a \<Longrightarrow> \<exists>c. I a ix = Some (ConstantExpr c)"
    and assignment_ok: "env_ok \<sigma>" "P \<sigma>"
begin

lemma visited_constant:
  assumes "evaluable \<sigma> x" "\<exists>c. evisit I x = Some (ConstantExpr c)"
  obtains c where "evisit I x = Some (ConstantExpr c)" "wf_apint c" "bitWidth c = getWidth x"
    "apval c = eval x \<sigma>"
  using evisit_builds(1) [of x] assms assignment_ok by (auto simp: evaluable_def builds_if_def)

lemma constant_node:
  assumes "all_constant_kids e" "wf_expr e" "node_div_ok e" "\<not> (\<exists>x. e = NotOptimizedExpr x)"
  shows "\<exists>c. rebuild e (kids e) = Some (ConstantExpr c)"
  using rebuild_constant [of e "kids e" e] assms with_kids_self [of e] by (cases e) auto

lemma evisit_constant:
  shows "evaluable \<sigma> e \<Longrightarrow> \<exists>c. evisit I e = Some (ConstantExpr c)"
    and "wf_array a \<Longrightarrow> wf_ulist us a \<Longrightarrow> no_zero_div_u us \<Longrightarrow> short_index_u us \<Longrightarrow> foldable_u us \<Longrightarrow>
      defined_u us \<sigma> \<Longrightarrow> arrDomain a \<le> 32 \<Longrightarrow> \<exists>c. evalRead I us a ix = Some (ConstantExpr c)"
proof (induction e and us arbitrary: and a ix)
  case (ConstantExpr c)
  then show ?case by simp
next
  case (NotOptimizedExpr e)
  then have g: "evaluable \<sigma> e" "\<not> isConstantExpr e" by (auto simp: evaluable_def)
  then obtain c where "evisit I e = Some (ConstantExpr c)" using NotOptimizedExpr.IH by blast
  with g(2) show ?case by (auto simp: doChildren_def NotOptimized_create_def)
next
  case (ExtractExpr e off w)
  then have g: "evaluable \<sigma> e" by (auto simp: evaluable_def)
  with ExtractExpr.IH obtain c where c: "evisit I e = Some (ConstantExpr c)" "wf_apint c" "bitWidth c = getWidth e"
    by (blast elim: visited_constant)
  have "\<exists>c'. doChildren (ExtractExpr e off w) [ConstantExpr c] = Some (ConstantExpr c')" if "\<not> isConstantExpr e"
    by (rule doChildren_constant [where n = "ExtractExpr (ConstantExpr c) off w"])
       (use c that ExtractExpr.prems in \<open>auto simp: evaluable_def\<close>)
  then show ?case
    using c constant_node [of "ExtractExpr e off w"] ExtractExpr.prems by (auto simp: evaluable_def)
next
  case (ZExtExpr e w)
  then have g: "evaluable \<sigma> e" by (auto simp: evaluable_def)
  with ZExtExpr.IH obtain c where c: "evisit I e = Some (ConstantExpr c)" "wf_apint c" "bitWidth c = getWidth e"
    by (blast elim: visited_constant)
  have "\<exists>c'. doChildren (ZExtExpr e w) [ConstantExpr c] = Some (ConstantExpr c')" if "\<not> isConstantExpr e"
    by (rule doChildren_constant [where n = "ZExtExpr (ConstantExpr c) w"])
       (use c that ZExtExpr.prems in \<open>auto simp: evaluable_def\<close>)
  then show ?case
    using c constant_node [of "ZExtExpr e w"] ZExtExpr.prems by (auto simp: evaluable_def)
next
  case (SExtExpr e w)
  then have g: "evaluable \<sigma> e" by (auto simp: evaluable_def)
  with SExtExpr.IH obtain c where c: "evisit I e = Some (ConstantExpr c)" "wf_apint c" "bitWidth c = getWidth e"
    by (blast elim: visited_constant)
  have "\<exists>c'. doChildren (SExtExpr e w) [ConstantExpr c] = Some (ConstantExpr c')" if "\<not> isConstantExpr e"
    by (rule doChildren_constant [where n = "SExtExpr (ConstantExpr c) w"])
       (use c that SExtExpr.prems in \<open>auto simp: evaluable_def\<close>)
  then show ?case
    using c constant_node [of "SExtExpr e w"] SExtExpr.prems by (auto simp: evaluable_def)
next
  case (NotExpr e)
  then have g: "evaluable \<sigma> e" by (auto simp: evaluable_def)
  with NotExpr.IH obtain c where c: "evisit I e = Some (ConstantExpr c)" "wf_apint c" "bitWidth c = getWidth e"
    by (blast elim: visited_constant)
  have "\<exists>c'. doChildren (NotExpr e) [ConstantExpr c] = Some (ConstantExpr c')" if "\<not> isConstantExpr e"
    by (rule doChildren_constant [where n = "NotExpr (ConstantExpr c)"])
       (use c that NotExpr.prems in \<open>auto simp: evaluable_def\<close>)
  then show ?case
    using c constant_node [of "NotExpr e"] NotExpr.prems by (auto simp: evaluable_def)
next
  case (ConcatExpr l r)
  then have g: "evaluable \<sigma> l" "evaluable \<sigma> r" by (auto simp: evaluable_def)
  with ConcatExpr.IH obtain a b where c: "evisit I l = Some (ConstantExpr a)" "wf_apint a" "bitWidth a = getWidth l"
    "evisit I r = Some (ConstantExpr b)" "wf_apint b" "bitWidth b = getWidth r"
    by (meson visited_constant)
  have "\<exists>c'. doChildren (ConcatExpr l r) [ConstantExpr a, ConstantExpr b] = Some (ConstantExpr c')"
    if "\<not> (isConstantExpr l \<and> isConstantExpr r)"
    by (rule doChildren_constant [where n = "ConcatExpr (ConstantExpr a) (ConstantExpr b)"])
       (use c that ConcatExpr.prems in \<open>auto simp: evaluable_def\<close>)
  then show ?case
    using c constant_node [of "ConcatExpr l r"] ConcatExpr.prems by (auto simp: evaluable_def)
next
  case (SelectExpr x t f)
  then have g: "evaluable \<sigma> x" "evaluable \<sigma> t" "evaluable \<sigma> f" by (auto simp: evaluable_def)
  with SelectExpr.IH obtain a b d where c: "evisit I x = Some (ConstantExpr a)" "wf_apint a" "bitWidth a = getWidth x"
    "evisit I t = Some (ConstantExpr b)" "wf_apint b" "bitWidth b = getWidth t"
    "evisit I f = Some (ConstantExpr d)" "wf_apint d" "bitWidth d = getWidth f"
    by (meson visited_constant)
  have "\<exists>c'. doChildren (SelectExpr x t f) [ConstantExpr a, ConstantExpr b, ConstantExpr d] = Some (ConstantExpr c')"
    if "\<not> (isConstantExpr x \<and> isConstantExpr t \<and> isConstantExpr f)"
    by (rule doChildren_constant [where n = "SelectExpr (ConstantExpr a) (ConstantExpr b) (ConstantExpr d)"])
       (use c that SelectExpr.prems in \<open>auto simp: evaluable_def\<close>)
  then show ?case
    using c constant_node [of "SelectExpr x t f"] SelectExpr.prems by (auto simp: evaluable_def)
next
  case (BinaryExpr k l r)
  then have g: "evaluable \<sigma> l" "evaluable \<sigma> r" by (auto simp: evaluable_def)
  with BinaryExpr.IH obtain a b where c: "evisit I l = Some (ConstantExpr a)" "wf_apint a" "bitWidth a = getWidth l"
    "evisit I r = Some (ConstantExpr b)" "wf_apint b" "bitWidth b = getWidth r" "apval b = eval r \<sigma>"
    by (meson visited_constant)
  have wf: "wf_expr (BinaryExpr k l r)" "div_ok k r" "isDivision k \<Longrightarrow> apval b \<noteq> 0"
    using BinaryExpr.prems c(7) by (auto simp: evaluable_def)
  then have dk: "div_ok k (ConstantExpr b)" by (simp add: div_ok_def)
  have "\<exists>c'. doChildren (BinaryExpr k l r) [ConstantExpr a, ConstantExpr b] = Some (ConstantExpr c')"
    if "\<not> (isConstantExpr l \<and> isConstantExpr r)"
    by (rule doChildren_constant [where n = "BinaryExpr k (ConstantExpr a) (ConstantExpr b)"])
       (use c that wf dk in auto)
  moreover have "\<exists>c'. protectedDivOperation k l r (ConstantExpr a) (ConstantExpr b) = Some (ConstantExpr c')"
    if "\<not> (isConstantExpr l \<and> isConstantExpr r)" "isDivision k"
  proof -
    have "\<exists>c'. rebuild (BinaryExpr k l r) [ConstantExpr a, ConstantExpr b] = Some (ConstantExpr c')"
      by (rule rebuild_constant [where n = "BinaryExpr k (ConstantExpr a) (ConstantExpr b)"])
         (use c wf dk in auto)
    with that wf(3) show ?thesis
      by (auto simp: protectedDivOperation_def ConstantExpr_isZero_def Let_def)
  qed
  ultimately show ?case
    using c constant_node [of "BinaryExpr k l r"] wf by auto
next
  case (ReadExpr a us i)
  then have "evaluable \<sigma> i" by (auto simp: evaluable_def)
  with ReadExpr.IH obtain c where c: "evisit I i = Some (ConstantExpr c)" "bitWidth c = getWidth i"
    by (blast elim: visited_constant)
  moreover have "\<exists>c'. evalRead I us a (nat (take_bit 32 (apval c))) = Some (ConstantExpr c')"
    by (rule ReadExpr.IH) (use ReadExpr.prems in \<open>auto simp: evaluable_def\<close>)
  ultimately show ?case using ReadExpr.prems by (auto simp: evaluable_def)
next
  case NoUpdates
  then show ?case using initial_constant by auto
next
  case (UpdateNode n i v)
  then have "evaluable \<sigma> i" "evaluable \<sigma> v" by (auto simp: evaluable_def)
  with UpdateNode.IH obtain c d where "evisit I i = Some (ConstantExpr c)" "bitWidth c = getWidth i"
    "evisit I v = Some (ConstantExpr d)"
    by (meson visited_constant)
  moreover have "\<exists>c'. evalRead I n a ix = Some (ConstantExpr c')"
    by (rule UpdateNode.IH) (use UpdateNode.prems in auto)
  ultimately show ?case using UpdateNode.prems by auto
qed

end

subsection \<open>Assignments\<close>

record assignment =
  allowFreeValues :: bool
  bindings :: "array \<rightharpoonup> 8 word list"

text \<open>The constructor from two vectors: \<open>std::map::insert\<close> keeps the first binding of an array.\<close>

fun Assignment_bind :: "(array \<rightharpoonup> 8 word list) \<Rightarrow> array list \<Rightarrow> 8 word list list \<Rightarrow>
    (array \<rightharpoonup> 8 word list) option" where
  "Assignment_bind m [] vs = Some m"
| "Assignment_bind m (os # objs) (arr # vs) =
     Assignment_bind (case m os of None \<Rightarrow> m(os \<mapsto> arr) | Some _ \<Rightarrow> m) objs vs"
| "Assignment_bind m (os # objs) [] = None"

definition Assignment_new :: "array list \<Rightarrow> 8 word list list \<Rightarrow> bool \<Rightarrow> assignment option" where
  "Assignment_new objects vals free =
     map_option (\<lambda>m. \<lparr>allowFreeValues = free, bindings = m\<rparr>) (Assignment_bind Map.empty objects vals)"

text \<open>\<open>Assignment::evaluate(array, index)\<close>.\<close>

definition Assignment_evaluate_array :: "assignment \<Rightarrow> array \<Rightarrow> nat \<Rightarrow> expr option" where
  "Assignment_evaluate_array A a index =
     (case bindings A a of
        Some bytes \<Rightarrow>
          if index < length bytes
          then Some (ConstantExpr (ConstantExpr_alloc (uint (bytes ! index)) (arrRange a)))
          else if allowFreeValues A
          then Read_create a NoUpdates (ConstantExpr (ConstantExpr_alloc (int index) (arrDomain a)))
          else Some (ConstantExpr (ConstantExpr_alloc 0 (arrRange a)))
      | None \<Rightarrow>
          if allowFreeValues A
          then Read_create a NoUpdates (ConstantExpr (ConstantExpr_alloc (int index) (arrDomain a)))
          else Some (ConstantExpr (ConstantExpr_alloc 0 (arrRange a))))"

text \<open>\<open>Assignment::evaluate(e)\<close>, the visit of an \<open>AssignmentEvaluator\<close>.\<close>

definition Assignment_evaluate :: "assignment \<Rightarrow> expr \<Rightarrow> expr option" where
  "Assignment_evaluate A e = evisit (Assignment_evaluate_array A) e"

text \<open>\<open>isTrue\<close> of an expression asserts that a constant is Boolean; no other expression is true.\<close>

fun Expr_isTrue :: "expr \<Rightarrow> bool option" where
  "Expr_isTrue (ConstantExpr c) = (if bitWidth c = 1 then Some (apval c = 1) else None)"
| "Expr_isTrue _ = Some False"

fun Assignment_satisfies :: "assignment \<Rightarrow> expr list \<Rightarrow> bool option" where
  "Assignment_satisfies A [] = Some True"
| "Assignment_satisfies A (e # es) =
     do { v \<leftarrow> Assignment_evaluate A e; t \<leftarrow> Expr_isTrue v;
          (if \<not> t then Some False else Assignment_satisfies A es) }"

text \<open>The assignment of array contents it stands for: zero where nothing is bound.\<close>

definition assignment_env :: "assignment \<Rightarrow> env" where
  "assignment_env A a ix =
     (case bindings A a of
        Some bytes \<Rightarrow> if ix < length bytes then take_bit (arrRange a) (uint (bytes ! ix)) else 0
      | None \<Rightarrow> 0)"

lemma assignment_env_ok: "env_ok (assignment_env A)"
  by (auto simp: env_ok_def assignment_env_def split: option.split)

interpretation total: constant_values "Assignment_evaluate_array (A \<lparr>allowFreeValues := False\<rparr>)"
    "\<lambda>\<sigma>. \<sigma> = assignment_env A" "assignment_env A" for A
proof
  fix a :: array and ix
  assume "wf_array a"
  then have "0 < arrRange a" by (simp add: wf_array_def)
  then show "builds_if (\<lambda>\<sigma>. \<sigma> = assignment_env A) (Assignment_evaluate_array (A\<lparr>allowFreeValues := False\<rparr>) a ix)
      (arrRange a) (\<lambda>\<sigma>. \<sigma> a ix)"
    by (auto simp: Assignment_evaluate_array_def builds_Some_iff assignment_env_def split: option.split)
  show "\<exists>c. Assignment_evaluate_array (A\<lparr>allowFreeValues := False\<rparr>) a ix = Some (ConstantExpr c)"
    by (auto simp: Assignment_evaluate_array_def split: option.split)
qed (simp_all add: assignment_env_ok)

text \<open>The assignments of array contents that agree with the bindings.\<close>

definition agrees :: "assignment \<Rightarrow> env \<Rightarrow> bool" where
  "agrees A \<sigma> \<longleftrightarrow> (\<forall>a bytes ix. bindings A a = Some bytes \<longrightarrow> ix < length bytes \<longrightarrow>
     \<sigma> a ix = take_bit (arrRange a) (uint (bytes ! ix)))"

lemma free_read_builds:
  assumes "wf_array a" "ix < 2 ^ arrDomain a" "\<not> (isConstantArray a \<and> ix < arrSize a)"
  shows "builds_if P (Read_create a NoUpdates (ConstantExpr (ConstantExpr_alloc (int ix) (arrDomain a))))
    (arrRange a) (\<lambda>\<sigma>. \<sigma> a ix)"
proof -
  have "in_width (arrDomain a) (int ix)"
    using assms(2) by (simp add: in_width_def flip: of_nat_power)
  moreover have "\<not> (isConstantArray a \<and> int ix < int (arrSize a))" using assms(3) by simp
  ultimately show ?thesis
    using assms(1)
    by (intro builds_if_cong [OF Read_create_builds [of a NoUpdates]]) (auto simp: wf_array_def initial_def)
qed

interpretation partial: initial_values "Assignment_evaluate_array (A \<lparr>allowFreeValues := True\<rparr>)" "agrees A" for A
proof
  fix a :: array and ix
  assume a: "wf_array a" "ix < 2 ^ arrDomain a" "\<not> (isConstantArray a \<and> ix < arrSize a)"
  then have "0 < arrRange a" by (simp add: wf_array_def)
  with free_read_builds [OF a] show "builds_if (agrees A) (Assignment_evaluate_array (A\<lparr>allowFreeValues := True\<rparr>) a ix)
      (arrRange a) (\<lambda>\<sigma>. \<sigma> a ix)"
    by (auto simp: Assignment_evaluate_array_def builds_Some_iff agrees_def split: option.split)
qed

text \<open>\<open>createConstraintsFromAssignment\<close>, the bindings in the order of the map.\<close>

fun constrain_array :: "array \<Rightarrow> 8 word list \<Rightarrow> nat \<Rightarrow> expr list option" where
  "constrain_array a bytes 0 = Some []"
| "constrain_array a bytes (Suc n) =
     do { out \<leftarrow> constrain_array a bytes n;
          (if \<not> n < length bytes then None
           else do { rd \<leftarrow> Read_create a NoUpdates (ConstantExpr (ConstantExpr_alloc (int n) (arrDomain a)));
                     eq \<leftarrow> Eq_create rd (ConstantExpr (ConstantExpr_alloc (uint (bytes ! n)) (arrRange a)));
                     Some (out @ [eq]) }) }"

fun createConstraintsFromAssignment :: "(array \<times> 8 word list) list \<Rightarrow> expr list option" where
  "createConstraintsFromAssignment [] = Some []"
| "createConstraintsFromAssignment ((a, bytes) # rest) =
     do { out \<leftarrow> constrain_array a bytes (arrSize a);
          out' \<leftarrow> createConstraintsFromAssignment rest;
          Some (out @ out') }"

lemma constrain_array_sound:
  assumes "wf_array a" "isSymbolicArray a" "n \<le> length bytes" "n \<le> 2 ^ arrDomain a"
  shows "\<exists>out. constrain_array a bytes n = Some out \<and>
    (\<forall>\<sigma>. env_ok \<sigma> \<longrightarrow> ((\<forall>e\<in>set out. eval e \<sigma> = 1) \<longleftrightarrow>
       (\<forall>i<n. \<sigma> a i = take_bit (arrRange a) (uint (bytes ! i)))))"
  using assms(3,4)
proof (induction n)
  case (Suc n)
  then obtain out where out: "constrain_array a bytes n = Some out"
    "\<And>\<sigma>. env_ok \<sigma> \<Longrightarrow> (\<forall>e\<in>set out. eval e \<sigma> = 1) \<longleftrightarrow>
      (\<forall>i<n. \<sigma> a i = take_bit (arrRange a) (uint (bytes ! i)))"
    by auto
  let ?c = "ConstantExpr (ConstantExpr_alloc (uint (bytes ! n)) (arrRange a))"
  have "builds (Read_create a NoUpdates (ConstantExpr (ConstantExpr_alloc (int n) (arrDomain a))))
      (arrRange a) (\<lambda>\<sigma>. \<sigma> a n)"
    by (rule free_read_builds) (use Suc.prems assms in \<open>auto simp: isConstantArray_def\<close>)
  then obtain rd where rd: "Read_create a NoUpdates (ConstantExpr (ConstantExpr_alloc (int n) (arrDomain a))) = Some rd"
    "wf_expr rd" "getWidth rd = arrRange a" "\<And>\<sigma>. env_ok \<sigma> \<Longrightarrow> eval rd \<sigma> = \<sigma> a n"
    by (auto elim!: builds_ifE)
  then obtain q where q: "Eq_create rd ?c = Some q"
    "\<And>\<sigma>. env_ok \<sigma> \<Longrightarrow> eval q \<sigma> = of_bool (\<sigma> a n = take_bit (arrRange a) (uint (bytes ! n)))"
    using eq.mk_builds [of rd ?c] assms(1) by (auto simp: wf_array_def builds_if_def)
  have "(\<forall>e\<in>set (out @ [q]). eval e \<sigma> = 1) \<longleftrightarrow>
      (\<forall>i<Suc n. \<sigma> a i = take_bit (arrRange a) (uint (bytes ! i)))" if "env_ok \<sigma>" for \<sigma>
    using out(2) [OF that] q(2) [OF that] by (auto simp: less_Suc_eq)
  moreover have "constrain_array a bytes (Suc n) = Some (out @ [q])"
    using out(1) rd(1) q(1) Suc.prems by simp
  ultimately show ?case by blast
qed simp

lemma total_evaluate:
  assumes "\<not> allowFreeValues A" "evaluable (assignment_env A) e"
  obtains c where "Assignment_evaluate A e = Some (ConstantExpr c)" "wf_apint c" "bitWidth c = getWidth e"
    "apval c = eval e (assignment_env A)"
proof -
  have "A\<lparr>allowFreeValues := False\<rparr> = A" using assms(1) by simp
  with total.visited_constant [OF assms(2) total.evisit_constant(1) [OF assms(2)]] that show thesis
    by (auto simp: Assignment_evaluate_def)
qed

lemma satisfies_step:
  assumes "\<not> allowFreeValues A" "evaluable (assignment_env A) e" "getWidth e = 1"
  shows "Assignment_satisfies A (e # es) =
    (if eval e (assignment_env A) = 1 then Assignment_satisfies A es else Some False)"
  by (rule total_evaluate [OF assms(1,2)]) (use assms(3) in simp)

subsection \<open>Properties\<close>

text \<open>
  C24. Evaluating an expression under a total assignment (\<open>Assignment::evaluate\<close> without free
  values) returns a constant, whose width is the expression's and whose value is the meaning of
  the expression under that assignment. The expression is well formed, its indices have at most 32
  bits, no division in it has the constant zero or, under the assignment, the value zero as its
  divisor, and no \<open>NotOptimized\<close> node is over a constant; \<open>evaluate_constant_zero_divisor\<close> and
  \<open>evaluate_NotOptimized_constant\<close> show that the last conditions are needed.
\<close>

theorem evaluate_total:
  assumes "\<not> allowFreeValues A" "wf_expr e" "short_index e" "no_zero_div e" "defined e (assignment_env A)" "foldable e"
  shows "\<exists>c. Assignment_evaluate A e = Some (ConstantExpr c) \<and> bitWidth c = getWidth e \<and>
    apval c = eval e (assignment_env A)"
proof -
  have "evaluable (assignment_env A) e" using assms by (simp add: evaluable_def)
  from total_evaluate [OF assms(1) this] show ?thesis by blast
qed

definition sample_assignment :: assignment where
  "sample_assignment = \<lparr>allowFreeValues = False, bindings = [sample_array \<mapsto> [7, 2, 0, 9]]\<rparr>"

lemma sample_assignment_simps [simp]:
  "\<not> allowFreeValues sample_assignment" "bindings sample_assignment sample_array = Some [7, 2, 0, 9]"
  "isSymbolicArray sample_array" "\<not> isConstantArray sample_array" "ConstantExpr c \<noteq> sample_read i"
  by (simp_all add: sample_assignment_def isConstantArray_def isSymbolicArray_def sample_array_def sample_read_def)

lemma sample_assignment_env [simp]:
  "eval (sample_read 0) (assignment_env sample_assignment) = 7"
  "eval (sample_read 3) (assignment_env sample_assignment) = 9"
  by (simp_all add: sample_read_def assignment_env_def initial_def take_bit_eq_mod)

lemma sample_read_evaluable [simp]:
  "no_zero_div (sample_read i)" "short_index (sample_read i)" "foldable (sample_read i)" "defined (sample_read i) \<sigma>"
  by (simp_all add: sample_read_def sample_array_def)

theorem evaluate_total_witness:
  "\<exists>c. Assignment_evaluate sample_assignment (BinaryExpr UDiv (sample_read 3) (sample_read 0)) =
     Some (ConstantExpr c) \<and> bitWidth c = 8 \<and> apval c = 1"
  using evaluate_total [of sample_assignment "BinaryExpr UDiv (sample_read 3) (sample_read 0)"]
  by (auto simp: div_ok_def)

text \<open>
  C25. Partial evaluation: with free values allowed, evaluation returns an expression of the same
  width that has the same value under every assignment of the array contents that agrees with the
  bindings, wherever no divisor is zero.
\<close>

theorem evaluate_partial:
  assumes "allowFreeValues A" "wf_expr e" "no_zero_div e" "short_index e"
  shows "\<exists>x. Assignment_evaluate A e = Some x \<and> wf_expr x \<and> getWidth x = getWidth e \<and>
    (\<forall>\<sigma>. env_ok \<sigma> \<and> agrees A \<sigma> \<and> defined e \<sigma> \<longrightarrow> eval x \<sigma> = eval e \<sigma>)"
proof -
  have "A\<lparr>allowFreeValues := True\<rparr> = A" using assms(1) by simp
  with partial.evisit_builds(1) [OF assms(2-4), of A] show ?thesis
    by (auto simp: builds_if_def Assignment_evaluate_def)
qed

theorem evaluate_partial_witness:
  "\<exists>x. Assignment_evaluate \<lparr>allowFreeValues = True, bindings = Map.empty\<rparr> (NotExpr (sample_read 0)) = Some x \<and>
     wf_expr x \<and> eval x sample_env = 55"
  using evaluate_partial [of "\<lparr>allowFreeValues = True, bindings = Map.empty\<rparr>" "NotExpr (sample_read 0)"]
  by (auto simp: agrees_def)

text \<open>
  \<open>Assignment::satisfies\<close> answers whether every constraint of the sequence is true under the
  assignment.
\<close>

theorem satisfies_iff:
  assumes "\<not> allowFreeValues A" "\<forall>e\<in>set es. evaluable (assignment_env A) e \<and> getWidth e = 1"
  shows "Assignment_satisfies A es = Some (\<forall>e\<in>set es. eval e (assignment_env A) = 1)"
  using assms(2) by (induction es) (auto simp: satisfies_step [OF assms(1)] simp del: Assignment_satisfies.simps(2))

theorem satisfies_iff_witness:
  "Assignment_satisfies sample_assignment [BinaryExpr Ult (sample_read 0) (sample_read 3)] = Some True"
  using satisfies_iff [of sample_assignment "[BinaryExpr Ult (sample_read 0) (sample_read 3)]"]
  by (simp add: evaluable_def div_ok_def isDivision_def)

text \<open>
  C35. The constraints made from an assignment of symbolic arrays hold in exactly the array contents
  that have the assigned bytes.
\<close>

theorem createConstraints_characterise:
  assumes "\<forall>(a, bytes)\<in>set bs. wf_array a \<and> isSymbolicArray a \<and> length bytes = arrSize a \<and>
    arrSize a \<le> 2 ^ arrDomain a"
  shows "\<exists>out. createConstraintsFromAssignment bs = Some out \<and>
    (\<forall>\<sigma>. env_ok \<sigma> \<longrightarrow> ((\<forall>e\<in>set out. eval e \<sigma> = 1) =
       (\<forall>(a, bytes)\<in>set bs. \<forall>i<arrSize a. \<sigma> a i = take_bit (arrRange a) (uint (bytes ! i)))))"
  using assms
proof (induction bs)
  case (Cons p bs)
  obtain a bytes where p: "p = (a, bytes)" by (cases p)
  obtain out1 where o1: "constrain_array a bytes (arrSize a) = Some out1"
    "\<And>\<sigma>. env_ok \<sigma> \<Longrightarrow> (\<forall>e\<in>set out1. eval e \<sigma> = 1) =
      (\<forall>i<arrSize a. \<sigma> a i = take_bit (arrRange a) (uint (bytes ! i)))"
    using constrain_array_sound [of a "arrSize a" bytes] Cons.prems p by auto
  obtain out2 where o2: "createConstraintsFromAssignment bs = Some out2"
    "\<And>\<sigma>. env_ok \<sigma> \<Longrightarrow> (\<forall>e\<in>set out2. eval e \<sigma> = 1) =
       (\<forall>(a, bytes)\<in>set bs. \<forall>i<arrSize a. \<sigma> a i = take_bit (arrRange a) (uint (bytes ! i)))"
    using Cons by auto
  have "createConstraintsFromAssignment (p # bs) = Some (out1 @ out2)"
    using o1(1) o2(1) p by simp
  moreover have "(\<forall>e\<in>set (out1 @ out2). eval e \<sigma> = 1) =
      (\<forall>(a, bytes)\<in>set (p # bs). \<forall>i<arrSize a. \<sigma> a i = take_bit (arrRange a) (uint (bytes ! i)))"
    if "env_ok \<sigma>" for \<sigma>
    using o1(2) [OF that] o2(2) [OF that] p by auto
  ultimately show ?case by blast
qed simp

theorem createConstraints_characterise_witness:
  "\<exists>out. createConstraintsFromAssignment [(sample_array, [200, 201, 202, 203])] = Some out \<and>
     list_all (\<lambda>e. eval e sample_env = 1) out"
proof -
  let ?bytes = "[200, 201, 202, 203] :: 8 word list"
  have "sample_env sample_array i = take_bit 8 (uint (?bytes ! i))" if "i < 4" for i
  proof -
    consider "i = 0" | "i = 1" | "i = 2" | "i = 3" using \<open>i < 4\<close> by linarith
    then show ?thesis by cases (simp_all add: sample_env_def take_bit_eq_mod)
  qed
  then show ?thesis
    using createConstraints_characterise [of "[(sample_array, ?bytes)]"] sample_simps(5)
    by (auto simp: list_all_iff)
qed

text \<open>
  A case in which the evaluator does not do what its comments say: a \<open>NotOptimized\<close> node whose
  kid is a constant before the visit is rebuilt by \<open>visitExpr\<close>, so \<open>visitExprPost\<close> never sees it.
\<close>

lemma evaluate_NotOptimized_constant:
  "Assignment_evaluate A (NotOptimizedExpr (ConstantExpr c)) = Some (NotOptimizedExpr (ConstantExpr c))"
  by (simp add: Assignment_evaluate_def NotOptimized_create_def)

text \<open>
  The protection of divisions does not cover a divisor that is the constant zero in the expression
  itself: the evaluation of such an expression reaches the division of constants by zero.
\<close>

theorem evaluate_constant_zero_divisor:
  "Assignment_evaluate sample_assignment (BinaryExpr UDiv (sample_read 0) (ConstantExpr (APInt 8 0))) = None"
proof -
  obtain c where c: "Assignment_evaluate sample_assignment (sample_read 0) = Some (ConstantExpr c)" "bitWidth c = 8"
    using total_evaluate [of sample_assignment "sample_read 0"]
    by (auto simp: evaluable_def)
  then show ?thesis
    by (simp add: Assignment_evaluate_def isDivision_def protectedDivOperation_def ConstantExpr_isZero_def
        Let_def UDiv_create_def BCREATE_const ConstantExpr_UDiv_def)
qed

end
