(* ===== verification/Int_Eval.thy ===== *)
theory Int_Eval
  imports Expr_Data
begin

text \<open>
  The integer helpers on machine words: \<^verbatim>\<open>klee/include/klee/util/Bits.h\<close> (namespaces
  \<open>bits32\<close> and \<open>bits64\<close>) and \<^verbatim>\<open>klee/include/klee/Internal/Support/IntEvaluation.h\<close>
  (namespace \<open>ints\<close>), which evaluates the operators on 64-bit words whose bits above the width
  are zero. A failed assertion, a division by zero or overflowing, and a shift by 64 or more
  (undefined in C++) are \<open>None\<close>.
\<close>

type_synonym u32 = "32 word"
type_synonym u64 = "64 word"

subsection \<open>Bits.h, 32 bits\<close>

definition bits32_maxValueOfNBits :: "nat \<Rightarrow> u32 option" where
  "bits32_maxValueOfNBits N =
     (if \<not> N \<le> 32 then None else if N = 0 then Some 0 else Some (drop_bit (32 - N) (- 1)))"

definition bits32_truncateToNBits :: "u32 \<Rightarrow> nat \<Rightarrow> u32 option" where
  "bits32_truncateToNBits x N =
     (if \<not> (N > 0 \<and> N \<le> 32) then None else Some (x AND drop_bit (32 - N) (- 1)))"

definition bits32_withoutRightmostBit :: "u32 \<Rightarrow> u32" where
  "bits32_withoutRightmostBit x = x AND (x - 1)"

definition bits32_isolateRightmostBit :: "u32 \<Rightarrow> u32" where
  "bits32_isolateRightmostBit x = x AND - x"

definition bits32_isPowerOfTwo :: "u32 \<Rightarrow> bool" where
  "bits32_isPowerOfTwo x = (if x = 0 then False else x AND (x - 1) = 0)"

definition bits32_indexOfSingleBit :: "u32 \<Rightarrow> nat option" where
  "bits32_indexOfSingleBit x =
     (if bits32_withoutRightmostBit x \<noteq> 0 then None
      else
        let res = 0;
            res = (if x AND 0xFFFF0000 \<noteq> 0 then res + 16 else res);
            res = (if x AND 0xFF00FF00 \<noteq> 0 then res + 8 else res);
            res = (if x AND 0xF0F0F0F0 \<noteq> 0 then res + 4 else res);
            res = (if x AND 0xCCCCCCCC \<noteq> 0 then res + 2 else res);
            res = (if x AND 0xAAAAAAAA \<noteq> 0 then res + 1 else res)
        in if res < 32 \<and> push_bit res 1 = x then Some res else None)"

definition bits32_indexOfRightmostBit :: "u32 \<Rightarrow> nat option" where
  "bits32_indexOfRightmostBit x = bits32_indexOfSingleBit (bits32_isolateRightmostBit x)"

subsection \<open>Bits.h, 64 bits\<close>

definition bits64_maxValueOfNBits :: "nat \<Rightarrow> u64 option" where
  "bits64_maxValueOfNBits N =
     (if \<not> N \<le> 64 then None else if N = 0 then Some 0 else Some (drop_bit (64 - N) (- 1)))"

definition bits64_truncateToNBits :: "u64 \<Rightarrow> nat \<Rightarrow> u64 option" where
  "bits64_truncateToNBits x N =
     (if \<not> (N > 0 \<and> N \<le> 64) then None else Some (x AND drop_bit (64 - N) (- 1)))"

definition bits64_withoutRightmostBit :: "u64 \<Rightarrow> u64" where
  "bits64_withoutRightmostBit x = x AND (x - 1)"

definition bits64_isolateRightmostBit :: "u64 \<Rightarrow> u64" where
  "bits64_isolateRightmostBit x = x AND - x"

definition bits64_isPowerOfTwo :: "u64 \<Rightarrow> bool" where
  "bits64_isPowerOfTwo x = (if x = 0 then False else x AND (x - 1) = 0)"

definition bits64_indexOfSingleBit :: "u64 \<Rightarrow> nat option" where
  "bits64_indexOfSingleBit x =
     (if x AND (x - 1) \<noteq> 0 then None
      else do {
        res \<leftarrow> bits32_indexOfSingleBit (ucast (x OR drop_bit 32 x));
        let res = (if x AND push_bit 32 0xFFFFFFFF \<noteq> 0 then res + 32 else res);
        (if res < 64 \<and> push_bit res 1 = x then Some res else None) })"

definition bits64_indexOfRightmostBit :: "u64 \<Rightarrow> nat option" where
  "bits64_indexOfRightmostBit x = bits64_indexOfSingleBit (bits64_isolateRightmostBit x)"

subsection \<open>IntEvaluation.h\<close>

definition ints_add :: "u64 \<Rightarrow> u64 \<Rightarrow> nat \<Rightarrow> u64 option" where
  "ints_add l r inWidth = bits64_truncateToNBits (l + r) inWidth"

definition ints_sub :: "u64 \<Rightarrow> u64 \<Rightarrow> nat \<Rightarrow> u64 option" where
  "ints_sub l r inWidth = bits64_truncateToNBits (l - r) inWidth"

definition ints_mul :: "u64 \<Rightarrow> u64 \<Rightarrow> nat \<Rightarrow> u64 option" where
  "ints_mul l r inWidth = bits64_truncateToNBits (l * r) inWidth"

definition ints_trunc :: "u64 \<Rightarrow> nat \<Rightarrow> nat \<Rightarrow> u64 option" where
  "ints_trunc l outWidth inWidth = bits64_truncateToNBits l outWidth"

definition ints_zext :: "u64 \<Rightarrow> nat \<Rightarrow> nat \<Rightarrow> u64 option" where
  "ints_zext l outWidth inWidth = Some l"

definition ints_sext :: "u64 \<Rightarrow> nat \<Rightarrow> nat \<Rightarrow> u64 option" where
  "ints_sext l outWidth inWidth =
     (let numInvalidBits = 64 - inWidth
      in if \<not> (0 < inWidth \<and> inWidth \<le> 64) then None
         else bits64_truncateToNBits (signed_drop_bit numInvalidBits (push_bit numInvalidBits l)) outWidth)"

definition ints_udiv :: "u64 \<Rightarrow> u64 \<Rightarrow> nat \<Rightarrow> u64 option" where
  "ints_udiv l r inWidth = (if r = 0 then None else bits64_truncateToNBits (l div r) inWidth)"

definition ints_urem :: "u64 \<Rightarrow> u64 \<Rightarrow> nat \<Rightarrow> u64 option" where
  "ints_urem l r inWidth = (if r = 0 then None else bits64_truncateToNBits (l mod r) inWidth)"

text \<open>Signed division in C++ truncates; the most negative value divided by -1 overflows.\<close>

definition int64_div :: "(int \<Rightarrow> int \<Rightarrow> int) \<Rightarrow> u64 \<Rightarrow> u64 \<Rightarrow> u64 option" where
  "int64_div f sl sr =
     (if sr = 0 \<or> sint sl = - (2 ^ 63) \<and> sint sr = - 1 then None
      else Some (word_of_int (f (sint sl) (sint sr))))"

definition ints_sdiv :: "u64 \<Rightarrow> u64 \<Rightarrow> nat \<Rightarrow> u64 option" where
  "ints_sdiv l r inWidth =
     do { sl \<leftarrow> ints_sext l 64 inWidth;
          sr \<leftarrow> ints_sext r 64 inWidth;
          q \<leftarrow> int64_div (sdiv) sl sr;
          bits64_truncateToNBits q inWidth }"

definition ints_srem :: "u64 \<Rightarrow> u64 \<Rightarrow> nat \<Rightarrow> u64 option" where
  "ints_srem l r inWidth =
     do { sl \<leftarrow> ints_sext l 64 inWidth;
          sr \<leftarrow> ints_sext r 64 inWidth;
          q \<leftarrow> int64_div (smod) sl sr;
          bits64_truncateToNBits q inWidth }"

definition ints_ashr :: "u64 \<Rightarrow> u64 \<Rightarrow> nat \<Rightarrow> u64 option" where
  "ints_ashr l shift inWidth =
     do { sl \<leftarrow> ints_sext l 64 inWidth;
          (if uint shift \<ge> 64 then None
           else bits64_truncateToNBits (signed_drop_bit (unat shift) sl) inWidth) }"

definition ints_lshr :: "u64 \<Rightarrow> u64 \<Rightarrow> nat \<Rightarrow> u64 option" where
  "ints_lshr l shift inWidth = (if uint shift \<ge> 64 then None else Some (drop_bit (unat shift) l))"

definition ints_shl :: "u64 \<Rightarrow> u64 \<Rightarrow> nat \<Rightarrow> u64 option" where
  "ints_shl l shift inWidth =
     (if uint shift \<ge> 64 then None else bits64_truncateToNBits (push_bit (unat shift) l) inWidth)"

definition ints_land :: "u64 \<Rightarrow> u64 \<Rightarrow> nat \<Rightarrow> u64 option" where
  "ints_land l r inWidth = Some (l AND r)"

definition ints_lor :: "u64 \<Rightarrow> u64 \<Rightarrow> nat \<Rightarrow> u64 option" where
  "ints_lor l r inWidth = Some (l OR r)"

definition ints_lxor :: "u64 \<Rightarrow> u64 \<Rightarrow> nat \<Rightarrow> u64 option" where
  "ints_lxor l r inWidth = Some (l XOR r)"

definition ints_eq :: "u64 \<Rightarrow> u64 \<Rightarrow> nat \<Rightarrow> u64 option" where
  "ints_eq l r inWidth = Some (of_bool (l = r))"

definition ints_ne :: "u64 \<Rightarrow> u64 \<Rightarrow> nat \<Rightarrow> u64 option" where
  "ints_ne l r inWidth = Some (of_bool (l \<noteq> r))"

definition ints_ult :: "u64 \<Rightarrow> u64 \<Rightarrow> nat \<Rightarrow> u64 option" where
  "ints_ult l r inWidth = Some (of_bool (l < r))"

definition ints_ule :: "u64 \<Rightarrow> u64 \<Rightarrow> nat \<Rightarrow> u64 option" where
  "ints_ule l r inWidth = Some (of_bool (l \<le> r))"

definition ints_ugt :: "u64 \<Rightarrow> u64 \<Rightarrow> nat \<Rightarrow> u64 option" where
  "ints_ugt l r inWidth = Some (of_bool (l > r))"

definition ints_uge :: "u64 \<Rightarrow> u64 \<Rightarrow> nat \<Rightarrow> u64 option" where
  "ints_uge l r inWidth = Some (of_bool (l \<ge> r))"

definition ints_slt :: "u64 \<Rightarrow> u64 \<Rightarrow> nat \<Rightarrow> u64 option" where
  "ints_slt l r inWidth =
     do { sl \<leftarrow> ints_sext l 64 inWidth; sr \<leftarrow> ints_sext r 64 inWidth; Some (of_bool (sint sl < sint sr)) }"

definition ints_sle :: "u64 \<Rightarrow> u64 \<Rightarrow> nat \<Rightarrow> u64 option" where
  "ints_sle l r inWidth =
     do { sl \<leftarrow> ints_sext l 64 inWidth; sr \<leftarrow> ints_sext r 64 inWidth; Some (of_bool (sint sl \<le> sint sr)) }"

definition ints_sgt :: "u64 \<Rightarrow> u64 \<Rightarrow> nat \<Rightarrow> u64 option" where
  "ints_sgt l r inWidth =
     do { sl \<leftarrow> ints_sext l 64 inWidth; sr \<leftarrow> ints_sext r 64 inWidth; Some (of_bool (sint sl > sint sr)) }"

definition ints_sge :: "u64 \<Rightarrow> u64 \<Rightarrow> nat \<Rightarrow> u64 option" where
  "ints_sge l r inWidth =
     do { sl \<leftarrow> ints_sext l 64 inWidth; sr \<leftarrow> ints_sext r 64 inWidth; Some (of_bool (sint sl \<ge> sint sr)) }"

text \<open>The helper a kind of binary operator selects.\<close>

fun ints_op :: "bkind \<Rightarrow> u64 \<Rightarrow> u64 \<Rightarrow> nat \<Rightarrow> u64 option" where
  "ints_op Add = ints_add"
| "ints_op Sub = ints_sub"
| "ints_op Mul = ints_mul"
| "ints_op UDiv = ints_udiv"
| "ints_op SDiv = ints_sdiv"
| "ints_op URem = ints_urem"
| "ints_op SRem = ints_srem"
| "ints_op And = ints_land"
| "ints_op Or = ints_lor"
| "ints_op Xor = ints_lxor"
| "ints_op Shl = ints_shl"
| "ints_op LShr = ints_lshr"
| "ints_op AShr = ints_ashr"
| "ints_op Eq = ints_eq"
| "ints_op Ne = ints_ne"
| "ints_op Ult = ints_ult"
| "ints_op Ule = ints_ule"
| "ints_op Ugt = ints_ugt"
| "ints_op Uge = ints_uge"
| "ints_op Slt = ints_slt"
| "ints_op Sle = ints_sle"
| "ints_op Sgt = ints_sgt"
| "ints_op Sge = ints_sge"

subsection \<open>Truncation and sign extension\<close>

lemma truncateToNBits_take_bit:
  "0 < N \<Longrightarrow> N \<le> 64 \<Longrightarrow> bits64_truncateToNBits x N = Some (take_bit N x)"
  unfolding bits64_truncateToNBits_def
  by (auto intro!: bit_eqI simp: bit_simps)

lemma uint_take_bit: "uint (take_bit n x) = take_bit n (uint x)"
  by (simp add: unsigned_take_bit_eq)

lemma signed_shift_pair:
  fixes l :: u64
  assumes "0 < w" "w \<le> 64"
  shows "sint (signed_drop_bit (64 - w) (push_bit (64 - w) l)) = sval w (uint l)"
proof -
  have "sint (signed_drop_bit (64 - w) (push_bit (64 - w) l)) = drop_bit (64 - w) (sint (push_bit (64 - w) l))"
    by (simp add: sint_signed_drop_bit_eq)
  also have "\<dots> = sval w (uint l)"
    using assms
    by (intro bit_eqI) (auto simp: sval_def bit_simps min_def not_le)
  finally show ?thesis .
qed

lemma ints_sext_64:
  assumes "0 < w" "w \<le> 64"
  obtains s where "ints_sext l 64 w = Some s" "sint s = sval w (uint l)"
  using assms signed_shift_pair [OF assms, of l]
  by (simp add: ints_sext_def Let_def truncateToNBits_take_bit take_bit_word_eq_self)

lemma uint_take_bit_sint:
  fixes s :: u64
  assumes "w \<le> 64"
  shows "uint (take_bit w s) = take_bit w (sint s)"
  using assms by (simp only: uint_take_bit uint_sint [of s]) (simp add: take_bit_take_bit min_def)

lemma uint_take_bit_of_int:
  "w \<le> 64 \<Longrightarrow> uint (take_bit w (word_of_int v :: u64)) = take_bit w v"
  by (simp add: uint_take_bit uint_word_of_int_eq min_def)

lemma sval_ashr_large:
  assumes "0 < w" "w \<le> n"
  shows "sval w v div 2 ^ n = (if sval w v < 0 then - 1 else 0)"
proof -
  have b: "- (2 ^ (w - 1)) \<le> sval w v" "sval w v < 2 ^ (w - 1)" using sval_bounds [OF assms(1)] by auto
  have "(2 :: int) ^ (w - 1) \<le> 2 ^ n" using assms by (intro power_increasing) auto
  with b have "- (2 ^ n) \<le> sval w v" "sval w v < 2 ^ n" by linarith+
  then show ?thesis
    using int_div_pos_eq [of "sval w v" "2 ^ n" "- 1" "sval w v + 2 ^ n"] by (auto simp: div_pos_pos_trivial)
qed

subsection \<open>The helpers compute the operators\<close>

text \<open>Where a helper has a defined result: the C++ operations it uses are.\<close>

definition ints_defined :: "bkind \<Rightarrow> nat \<Rightarrow> int \<Rightarrow> int \<Rightarrow> bool" where
  "ints_defined k w a b \<longleftrightarrow>
     (isDivision k \<longrightarrow> b \<noteq> 0) \<and>
     (k \<in> {SDiv, SRem} \<longrightarrow> \<not> (sval w a = - (2 ^ 63) \<and> sval w b = - 1)) \<and>
     (k \<in> {Shl, LShr, AShr} \<longrightarrow> b < 64)"

lemma uint_of_bool_u64: "uint (of_bool b :: u64) = of_bool b"
  by (cases b) simp_all

lemma ints_divisions:
  assumes "0 < w" "w \<le> 64" "uint r \<noteq> 0" "in_width w (uint l)" "in_width w (uint r)"
    and "\<not> (sval w (uint l) = - (2 ^ 63) \<and> sval w (uint r) = - 1)"
  shows "map_option uint (ints_sdiv l r w) = Some (sem_bin SDiv w (uint l) (uint r))"
    and "map_option uint (ints_srem l r w) = Some (sem_bin SRem w (uint l) (uint r))"
proof -
  obtain sl where sl: "ints_sext l 64 w = Some sl" "sint sl = sval w (uint l)"
    by (rule ints_sext_64 [OF assms(1,2)])
  obtain sr where sr: "ints_sext r 64 w = Some sr" "sint sr = sval w (uint r)"
    by (rule ints_sext_64 [OF assms(1,2)])
  have "sval w (uint r) \<noteq> sval w 0"
    using sval_inj [OF assms(1,5), of 0] assms(3) by simp
  then have "sr \<noteq> 0" using sr(2) by (auto simp: sval_def)
  then show "map_option uint (ints_sdiv l r w) = Some (sem_bin SDiv w (uint l) (uint r))"
    and "map_option uint (ints_srem l r w) = Some (sem_bin SRem w (uint l) (uint r))"
    using assms sl sr
    by (simp_all add: ints_sdiv_def ints_srem_def int64_div_def truncateToNBits_take_bit
        uint_take_bit_of_int)
qed

lemma ints_shifts:
  assumes "0 < w" "w \<le> 64" "in_width w (uint l)" "uint r < 64"
  shows "map_option uint (ints_shl l r w) = Some (sem_bin Shl w (uint l) (uint r))"
    and "map_option uint (ints_lshr l r w) = Some (sem_bin LShr w (uint l) (uint r))"
    and "map_option uint (ints_ashr l r w) = Some (sem_bin AShr w (uint l) (uint r))"
proof -
  obtain n where r: "uint r = int n" "unat r = n" "n < 64"
    using assms(4) by (metis uint_nat of_nat_less_iff of_nat_numeral)
  have big: "uint l < 2 ^ m" "(2 :: int) ^ w dvd 2 ^ m" if "w \<le> m" for m
    using assms(3) that in_width_mono [OF assms(3) that] by (auto simp: in_width_def le_imp_power_dvd)
  have "uint (take_bit w (push_bit n l)) = take_bit w (uint l * 2 ^ n)"
    using assms(2)
    by (simp only: uint_take_bit unsigned_push_bit_eq) (simp add: take_bit_take_bit min_def flip: push_bit_eq_mult)
  also have "\<dots> = sem_bin Shl w (uint l) (uint r)"
    using big(2) [of n] by (auto simp: r(1) take_bit_eq_mod mod_eq_0_iff_dvd)
  finally show "map_option uint (ints_shl l r w) = Some (sem_bin Shl w (uint l) (uint r))"
    using assms(1,2) r by (simp add: ints_shl_def truncateToNBits_take_bit)
  show "map_option uint (ints_lshr l r w) = Some (sem_bin LShr w (uint l) (uint r))"
  proof -
    have "take_bit 64 (uint l) = uint l"
      using in_width_mono [OF assms(3,2)] by simp
    then have "uint (drop_bit n l) = uint l div 2 ^ n"
      by (simp only: unsigned_drop_bit_eq) (simp add: drop_bit_eq_div)
    then show ?thesis
      using big(1) [of n] r by (simp add: ints_lshr_def div_pos_pos_trivial not_less)
  qed
  obtain sl where sl: "ints_sext l 64 w = Some sl" "sint sl = sval w (uint l)"
    by (rule ints_sext_64 [OF assms(1,2)])
  have "uint (take_bit w (signed_drop_bit n sl)) = take_bit w (sval w (uint l) div 2 ^ n)"
    using assms(2) sl(2) by (simp add: uint_take_bit_sint sint_signed_drop_bit_eq drop_bit_eq_div)
  also have "\<dots> = sem_bin AShr w (uint l) (uint r)"
    using sval_ashr_large [OF assms(1), of n "uint l"] by (auto simp: r(1))
  finally show "map_option uint (ints_ashr l r w) = Some (sem_bin AShr w (uint l) (uint r))"
    using assms(1,2) r sl(1) by (simp add: ints_ashr_def truncateToNBits_take_bit)
qed

lemma ints_comparisons:
  assumes "0 < w" "w \<le> 64" "k \<in> {Slt, Sle, Sgt, Sge}"
  shows "map_option uint (ints_op k l r w) = Some (sem_bin k w (uint l) (uint r))"
proof -
  obtain sl where sl: "ints_sext l 64 w = Some sl" "sint sl = sval w (uint l)"
    by (rule ints_sext_64 [OF assms(1,2)])
  obtain sr where sr: "ints_sext r 64 w = Some sr" "sint sr = sval w (uint r)"
    by (rule ints_sext_64 [OF assms(1,2)])
  from assms(3) sl sr show ?thesis
    by (auto simp: ints_slt_def ints_sle_def ints_sgt_def ints_sge_def uint_of_bool_u64)
qed

lemma ints_simple:
  assumes "0 < w" "w \<le> 64" "in_width w (uint l)" "in_width w (uint r)"
    and "isDivision k \<Longrightarrow> uint r \<noteq> 0" and "k \<notin> {SDiv, SRem, Shl, LShr, AShr, Slt, Sle, Sgt, Sge}"
  shows "map_option uint (ints_op k l r w) = Some (sem_bin k w (uint l) (uint r))"
proof -
  have m: "take_bit w (x mod 18446744073709551616) = take_bit w (x :: int)" for x
    using assms(2) take_bit_take_bit [of w 64 x] by (simp add: take_bit_eq_mod [of 64] min_def)
  have q: "in_width w (uint l div uint r)" "in_width w (uint l mod uint r)"
    using sem_bin_in_width [OF assms(1,3,4), of UDiv] sem_bin_in_width [OF assms(1,3,4), of URem] by auto
  show ?thesis
    using assms q
    by (cases k)
       (simp_all add: isDivision_def ints_add_def ints_sub_def ints_mul_def ints_udiv_def ints_urem_def
        ints_land_def ints_lor_def ints_lxor_def ints_eq_def ints_ne_def ints_ult_def ints_ule_def
        ints_ugt_def ints_uge_def truncateToNBits_take_bit uint_take_bit uint_word_ariths
        unsigned_and_eq unsigned_or_eq unsigned_xor_eq uint_of_bool_u64 word_less_def word_le_def
        word_uint_eq_iff uint_div_distrib uint_mod_distrib m)
qed

lemma ints_op_value:
  assumes "0 < w" "w \<le> 64" "in_width w (uint l)" "in_width w (uint r)"
    and "ints_defined k w (uint l) (uint r)"
  shows "map_option uint (ints_op k l r w) = Some (sem_bin k w (uint l) (uint r))"
proof -
  consider "k \<in> {SDiv, SRem}" | "k \<in> {Shl, LShr, AShr}" | "k \<in> {Slt, Sle, Sgt, Sge}"
    | "k \<notin> {SDiv, SRem, Shl, LShr, AShr, Slt, Sle, Sgt, Sge}" by blast
  then show ?thesis
  proof cases
    case 1
    then show ?thesis
      using ints_divisions [OF assms(1,2) _ assms(3,4)] assms(5)
      by (auto simp: ints_defined_def isDivision_def simp del: sem_bin.simps)
  next
    case 2
    then show ?thesis
      using ints_shifts [OF assms(1-3), of r] assms(5)
      by (auto simp: ints_defined_def simp del: sem_bin.simps)
  next
    case 3
    then show ?thesis using ints_comparisons [OF assms(1,2)] by blast
  next
    case 4
    then show ?thesis
      using ints_simple [OF assms(1-4) _ 4] assms(5) by (simp add: ints_defined_def del: sem_bin.simps)
  qed
qed

subsection \<open>Single bits\<close>

lemma lowest_bit_int:
  assumes "(v :: int) \<noteq> 0"
  shows "\<exists>n. v AND - v = 2 ^ n \<and> bit v n \<and> (\<forall>m<n. \<not> bit v m)"
  using assms
proof (induction "nat \<bar>v\<bar>" arbitrary: v rule: less_induct)
  case less
  show ?case
  proof (cases "even v")
    case True
    then obtain u where v: "v = 2 * u" by (elim evenE)
    with less.prems obtain n where n: "u AND - u = 2 ^ n" "bit u n" "\<forall>m<n. \<not> bit u m"
      using less.hyps [of u] by force
    from v have "- v div 2 = - u" "v div 2 = u" by linarith+
    then have "v AND - v = 2 ^ Suc n"
      using True n(1) and_rec [of v "- v"] by simp
    moreover have "bit v (Suc n)" "\<forall>m<Suc n. \<not> bit v m"
      using n(2,3) v by (auto simp: bit_double_iff less_Suc_eq_0_disj)
    ultimately show ?thesis by blast
  next
    case False
    then obtain u where v: "v = 2 * u + 1" by (elim oddE)
    have "- v div 2 = NOT u" using v by (simp add: not_int_def)
    then have "v AND - v = 1"
      using v and_rec [of v "- v"] by simp
    then show ?thesis using False by (intro exI [of _ 0]) (simp add: bit_0)
  qed
qed

lemma clear_lowest_int:
  assumes "0 < (v :: int)"
  shows "v AND (v - 1) = 0 \<longleftrightarrow> (\<exists>n. v = 2 ^ n)"
  using assms
proof (induction "nat v" arbitrary: v rule: less_induct)
  case less
  show ?case
  proof (cases "even v")
    case True
    then obtain u where v: "v = 2 * u" by (elim evenE)
    then have "(v - 1) div 2 = u - 1" "v div 2 = u" by linarith+
    then have "v AND (v - 1) = 2 * (u AND (u - 1))"
      using and_rec [of v "v - 1"] True by simp
    moreover have "u AND (u - 1) = 0 \<longleftrightarrow> (\<exists>n. u = 2 ^ n)"
      using less v by simp
    moreover have "(\<exists>n. u = 2 ^ n) \<longleftrightarrow> (\<exists>n. v = 2 ^ n)"
    proof
      assume "\<exists>n. u = 2 ^ n"
      then show "\<exists>n. v = 2 ^ n" using v by (metis power_Suc)
    next
      assume "\<exists>n. v = 2 ^ n"
      then obtain n where n: "v = 2 ^ n" by blast
      with True obtain m where "n = Suc m" by (cases n) auto
      with n v show "\<exists>n. u = 2 ^ n" by auto
    qed
    ultimately show ?thesis by simp
  next
    case False
    then obtain u where v: "v = 2 * u + 1" by (elim oddE)
    then have "v AND (v - 1) = 2 * u"
      using and_rec [of v "v - 1"] by simp
    moreover have "(\<exists>n. v = 2 ^ n) \<longleftrightarrow> v = 1"
    proof
      assume "\<exists>n. v = 2 ^ n"
      then obtain n where n: "v = 2 ^ n" by blast
      with False show "v = 1" by (cases n) auto
    qed (auto intro: exI [of _ 0])
    ultimately show ?thesis using v by auto
  qed
qed

lemma isolateRightmostBit_lowest:
  assumes "x \<noteq> 0"
  shows "\<exists>n<64. bits64_isolateRightmostBit x = push_bit n 1 \<and> bit x n \<and> (\<forall>m<n. \<not> bit x m)"
proof -
  have "uint x \<noteq> 0" using assms by (simp add: unsigned_eq_0_iff)
  then obtain n where n: "uint x AND - uint x = 2 ^ n" "bit (uint x) n" "\<forall>m<n. \<not> bit (uint x) m"
    using lowest_bit_int by blast
  have b: "bit (uint x) m \<longleftrightarrow> bit x m" for m
    using bit_imp_le_length [of x m] by (auto simp: bit_uint_iff)
  then have "n < 64" using n(2) bit_imp_le_length [of x n] by simp
  have "(word_of_int (uint x AND - uint x) :: u64) = x AND - x"
    by (simp add: of_int_and_eq)
  then have "bits64_isolateRightmostBit x = push_bit n 1"
    using n(1) by (simp add: bits64_isolateRightmostBit_def push_bit_eq_mult)
  with \<open>n < 64\<close> n(2,3) b show ?thesis by auto
qed

lemma indexOfSingleBit_power:
  assumes "n < 64"
  shows "bits64_indexOfSingleBit (push_bit n 1) = Some n"
proof -
  have "list_all (\<lambda>n. bits64_indexOfSingleBit (push_bit n 1) = Some n) [0..<64]"
    by (simp add: upt_rec bits64_indexOfSingleBit_def bits32_indexOfSingleBit_def
        bits32_withoutRightmostBit_def)
  with assms show ?thesis by (simp add: list_all_iff)
qed

lemma isPowerOfTwo_iff:
  "bits64_isPowerOfTwo x \<longleftrightarrow> (\<exists>n<64. x = push_bit n 1)"
proof -
  have pos: "0 < uint x" if "x \<noteq> 0" 
    using that uint_ge_0 [of x] by (simp add: less_le unsigned_eq_0_iff)
  have "bits64_isPowerOfTwo x \<longleftrightarrow> x \<noteq> 0 \<and> uint x AND (uint x - 1) = 0"
  proof (cases "x = 0")
    case False
    then have "uint (x - 1) = uint x - 1"
      using pos by (simp add: uint_sub_if')
    then show ?thesis
      using False by (simp add: bits64_isPowerOfTwo_def word_uint_eq_iff unsigned_and_eq)
  qed (simp add: bits64_isPowerOfTwo_def)
  then have *: "bits64_isPowerOfTwo x \<longleftrightarrow> x \<noteq> 0 \<and> (\<exists>n. uint x = 2 ^ n)"
    using clear_lowest_int [of "uint x"] pos by auto
  show ?thesis
  proof
    assume "bits64_isPowerOfTwo x"
    then obtain n where n: "uint x = 2 ^ n" using * by blast
    then have "(2 :: int) ^ n < 2 ^ 64" using uint_lt2p [of x] by simp
    then have "n < 64" by (rule power_less_imp_less_exp [rotated]) simp
    moreover have "x = push_bit n 1"
      using n by (metis of_int_power of_int_numeral push_bit_of_1 word_of_int_uint)
    ultimately show "\<exists>n<64. x = push_bit n 1" by blast
  next
    assume "\<exists>n<64. x = push_bit n 1"
    then obtain n where n: "n < 64" "x = push_bit n 1" by blast
    have "take_bit 64 ((2 :: int) ^ n) = 2 ^ n"
      using power_strict_increasing [OF n(1), of "2 :: int"] by (intro take_bit_in_width) (simp add: in_width_def)
    moreover have "uint (word_of_int (2 ^ n) :: u64) = take_bit 64 (2 ^ n)"
      by (simp only: uint_word_of_int_eq) simp
    ultimately have "uint x = 2 ^ n" using n(2) by (simp only: of_int_power of_int_numeral push_bit_of_1)
    then show "bits64_isPowerOfTwo x" using * by (metis power_not_zero unsigned_0 zero_neq_numeral)
  qed
qed

subsection \<open>Properties\<close>

text \<open>
  C34. The evaluation of an operator on 64-bit words (namespace \<open>ints\<close>) at a width of 1 to 64
  bits agrees with the operator's meaning on values of that width, for every operator and all
  operands on which the C++ operation is defined.
\<close>

theorem ints_op_sound:
  assumes "0 < w" "w \<le> 64" "uint l < 2 ^ w" "uint r < 2 ^ w" "ints_defined k w (uint l) (uint r)"
  shows "\<exists>c. ints_op k l r w = Some c \<and> uint c = sem_bin k w (uint l) (uint r)"
  using ints_op_value [OF assms(1,2) _ _ assms(5)] assms(3,4)
  by (auto simp: in_width_def simp del: sem_bin.simps)

theorem ints_op_sound_witness:
  "\<exists>c. ints_op SDiv 0xF9 2 8 = Some c \<and> uint c = 0xFD"
proof -
  have "sval 8 249 = - 7" "sval 8 2 = 2" by (simp_all add: sval_def signed_take_bit_eq_if_negative)
  then show ?thesis
    using ints_op_sound [of 8 "0xF9" 2 SDiv]
    by (simp add: ints_defined_def signed_divide_int_def take_bit_eq_mod)
qed

text \<open>
  The index helpers of \<open>Bits.h\<close>: for every word but zero, \<open>indexOfRightmostBit\<close> passes its
  assertions and returns the position of the lowest set bit.
\<close>

theorem indexOfRightmostBit_lowest:
  assumes "x \<noteq> 0"
  shows "\<exists>n. bits64_indexOfRightmostBit x = Some n \<and> n < 64 \<and> bit x n \<and> (\<forall>m<n. \<not> bit x m)"
proof -
  obtain n where "n < 64" "bits64_isolateRightmostBit x = push_bit n 1" "bit x n" "\<forall>m<n. \<not> bit x m"
    using isolateRightmostBit_lowest [OF assms] by blast
  then show ?thesis using indexOfSingleBit_power [of n] by (auto simp: bits64_indexOfRightmostBit_def)
qed

theorem indexOfRightmostBit_lowest_witness:
  "\<exists>n. bits64_indexOfRightmostBit 0x60000000000 = Some n \<and> n < 64 \<and> bit (0x60000000000 :: u64) n"
  using indexOfRightmostBit_lowest [of "0x60000000000"] by auto

text \<open>
  \<open>isPowerOfTwo\<close> is true of exactly the 64 words with one bit set, and \<open>indexOfSingleBit\<close>
  returns that bit's position.
\<close>

theorem isPowerOfTwo_index:
  "bits64_isPowerOfTwo x = (\<exists>n<64. x = push_bit n 1 \<and> bits64_indexOfSingleBit x = Some n)"
  unfolding isPowerOfTwo_iff using indexOfSingleBit_power by metis

end
