(* ===== verification/Expr_Builder.thy ===== *)
theory Expr_Builder
  imports Expr_Rebuild
begin

text \<open>
  The expression builders of \<^verbatim>\<open>klee/lib/Expr/ExprBuilder.cpp\<close>. A builder is a record of its
  virtual methods; the methods for the binary operators are one field indexed by the kind. The
  specialised builders take the builder they wrap as an argument. The linear rewriting of
  \<open>ConstantFoldingBuilder\<close> calls itself through the virtual methods and ends only for a suitable
  base, so it is a partial function, shown to return for the default base.
\<close>

subsection \<open>Builders\<close>

record builder =
  bNotOptimized :: "expr \<Rightarrow> expr option"
  bRead :: "array \<Rightarrow> ulist \<Rightarrow> expr \<Rightarrow> expr option"
  bSelect :: "expr \<Rightarrow> expr \<Rightarrow> expr \<Rightarrow> expr option"
  bConcat :: "expr \<Rightarrow> expr \<Rightarrow> expr option"
  bExtract :: "expr \<Rightarrow> nat \<Rightarrow> nat \<Rightarrow> expr option"
  bZExt :: "expr \<Rightarrow> nat \<Rightarrow> expr option"
  bSExt :: "expr \<Rightarrow> nat \<Rightarrow> expr option"
  bNot :: "expr \<Rightarrow> expr option"
  bBin :: "bkind \<Rightarrow> expr \<Rightarrow> expr \<Rightarrow> expr option"

definition DefaultExprBuilder :: builder where
  "DefaultExprBuilder =
     \<lparr>bNotOptimized = (\<lambda>e. Some (NotOptimizedExpr e)),
      bRead = (\<lambda>a us i. Some (ReadExpr a us i)),
      bSelect = (\<lambda>c t f. Some (SelectExpr c t f)),
      bConcat = (\<lambda>l r. Some (ConcatExpr l r)),
      bExtract = (\<lambda>e off w. Some (ExtractExpr e off w)),
      bZExt = (\<lambda>e w. Some (ZExtExpr e w)),
      bSExt = (\<lambda>e w. Some (SExtExpr e w)),
      bNot = (\<lambda>e. Some (NotExpr e)),
      bBin = (\<lambda>k l r. Some (BinaryExpr k l r))\<rparr>"

subsection \<open>Dispatch on constants\<close>

text \<open>\<open>dyn_cast<ConstantExpr>\<close> and the kids of a binary node of a kind.\<close>

fun dyn_const :: "expr \<Rightarrow> apint option" where
  "dyn_const (ConstantExpr c) = Some c"
| "dyn_const _ = None"

fun dyn_binary :: "bkind \<Rightarrow> expr \<Rightarrow> (expr \<times> expr) option" where
  "dyn_binary k (BinaryExpr k' l r) = (if k = k' then Some (l, r) else None)"
| "dyn_binary k _ = None"

text \<open>\<open>Expr::isFalse\<close>, with the assertion of \<open>ConstantExpr::isFalse\<close>.\<close>

fun Expr_isFalse :: "expr \<Rightarrow> bool option" where
  "Expr_isFalse (ConstantExpr c) = (if bitWidth c = 1 then Some (apval c = 0) else None)"
| "Expr_isFalse _ = Some False"

text \<open>
  A binary method of \<open>ConstantSpecializedExprBuilder\<close>: two constants are folded, otherwise the
  overload of the helper class for the operands' sorts is called.
\<close>

definition Specialized_binary ::
    "bkind \<Rightarrow> (apint \<Rightarrow> expr \<Rightarrow> expr option) \<Rightarrow> (expr \<Rightarrow> apint \<Rightarrow> expr option) \<Rightarrow>
     (expr \<Rightarrow> expr \<Rightarrow> expr option) \<Rightarrow> expr \<Rightarrow> expr \<Rightarrow> expr option" where
  "Specialized_binary k cn nc nn LHS RHS =
     (case dyn_const LHS of
        Some LCE \<Rightarrow>
          (case dyn_const RHS of
             Some RCE \<Rightarrow> map_option ConstantExpr (ConstantExpr_op k LCE RCE)
           | None \<Rightarrow> cn LCE RHS)
      | None \<Rightarrow>
          (case dyn_const RHS of Some RCE \<Rightarrow> nc LHS RCE | None \<Rightarrow> nn LHS RHS))"

text \<open>The loop of \<open>ConstantSpecializedExprBuilder::Read\<close>, over the builder's own \<open>Eq\<close>.\<close>

fun Specialized_rollback :: "(expr \<Rightarrow> expr \<Rightarrow> expr option) \<Rightarrow> expr \<Rightarrow> ulist \<Rightarrow> ulist option" where
  "Specialized_rollback eq Index NoUpdates = Some NoUpdates"
| "Specialized_rollback eq Index (UpdateNode n i v) =
     do { e \<leftarrow> eq Index i; f \<leftarrow> Expr_isFalse e;
          (if f then Specialized_rollback eq Index n else Some (UpdateNode n i v)) }"

text \<open>
  The methods of \<open>ConstantSpecializedExprBuilder\<close> that do not depend on the helper class, over the
  base builder that \<open>ChainedBuilder\<close> forwards to, given the builder's own \<open>Eq\<close>.
\<close>

definition Specialized_Read :: "builder \<Rightarrow> (expr \<Rightarrow> expr \<Rightarrow> expr option) \<Rightarrow> array \<Rightarrow> ulist \<Rightarrow> expr \<Rightarrow> expr option" where
  "Specialized_Read Base eq a us Index = do { us' \<leftarrow> Specialized_rollback eq Index us; bRead Base a us' Index }"

definition Specialized_Select :: "builder \<Rightarrow> expr \<Rightarrow> expr \<Rightarrow> expr \<Rightarrow> expr option" where
  "Specialized_Select Base Cond LHS RHS =
     (case dyn_const Cond of
        Some CE \<Rightarrow> if bitWidth CE \<noteq> 1 then None else if ConstantExpr_isTrue CE then Some LHS else Some RHS
      | None \<Rightarrow> bSelect Base Cond LHS RHS)"

definition Specialized_Concat :: "builder \<Rightarrow> expr \<Rightarrow> expr \<Rightarrow> expr option" where
  "Specialized_Concat Base LHS RHS =
     (case (dyn_const LHS, dyn_const RHS) of
        (Some LCE, Some RCE) \<Rightarrow> Some (ConstantExpr (ConstantExpr_Concat LCE RCE))
      | _ \<Rightarrow> bConcat Base LHS RHS)"

definition Specialized_Extract :: "builder \<Rightarrow> expr \<Rightarrow> nat \<Rightarrow> nat \<Rightarrow> expr option" where
  "Specialized_Extract Base LHS Offset W =
     (case dyn_const LHS of
        Some CE \<Rightarrow> Some (ConstantExpr (ConstantExpr_Extract CE Offset W))
      | None \<Rightarrow> bExtract Base LHS Offset W)"

definition Specialized_ZExt :: "builder \<Rightarrow> expr \<Rightarrow> nat \<Rightarrow> expr option" where
  "Specialized_ZExt Base LHS W =
     (case dyn_const LHS of
        Some CE \<Rightarrow> Some (ConstantExpr (ConstantExpr_ZExt CE W))
      | None \<Rightarrow> bZExt Base LHS W)"

definition Specialized_SExt :: "builder \<Rightarrow> expr \<Rightarrow> nat \<Rightarrow> expr option" where
  "Specialized_SExt Base LHS W =
     (case dyn_const LHS of
        Some CE \<Rightarrow> Some (ConstantExpr (ConstantExpr_SExt CE W))
      | None \<Rightarrow> bSExt Base LHS W)"

definition Specialized_Not :: "(expr \<Rightarrow> expr option) \<Rightarrow> expr \<Rightarrow> expr option" where
  "Specialized_Not helper LHS =
     (case LHS of
        NotExpr x \<Rightarrow> Some x
      | ConstantExpr CE \<Rightarrow> Some (ConstantExpr (ConstantExpr_Not CE))
      | _ \<Rightarrow> helper LHS)"

subsection \<open>The constant folding builder\<close>

text \<open>
  The methods that call each other: \<open>Builder->Add\<close>, \<open>Builder->Sub\<close> and the overloads of
  \<open>ConstantFoldingBuilder::Add\<close> and \<open>Sub\<close> for a constant and a non-constant and for two
  non-constants. Each is written over the calls it makes, \<open>self\<close>.
\<close>

datatype cf_call = Builder_Add expr expr | Builder_Sub expr expr

type_synonym cf_self = "cf_call \<Rightarrow> expr option"

definition CF_Add_CN :: "cf_self \<Rightarrow> builder \<Rightarrow> apint \<Rightarrow> expr \<Rightarrow> expr option" where
  "CF_Add_CN self Base LHS RHS =
     (if ConstantExpr_isZero LHS then Some RHS
      else (case dyn_binary Add RHS of
          Some (x, y) \<Rightarrow>
            (case dyn_const x of
               Some CE \<Rightarrow> self (Builder_Add (ConstantExpr (ConstantExpr_Add LHS CE)) y)
             | None \<Rightarrow>
                 (case dyn_const y of
                    Some CE \<Rightarrow> self (Builder_Add (ConstantExpr (ConstantExpr_Add LHS CE)) x)
                  | None \<Rightarrow> bBin Base Add (ConstantExpr LHS) RHS))
        | None \<Rightarrow>
            (case dyn_binary Sub RHS of
               Some (x, y) \<Rightarrow>
                 (case dyn_const x of
                    Some CE \<Rightarrow> self (Builder_Sub (ConstantExpr (ConstantExpr_Add LHS CE)) y)
                  | None \<Rightarrow>
                      (case dyn_const y of
                         Some CE \<Rightarrow> self (Builder_Add (ConstantExpr (ConstantExpr_Sub LHS CE)) x)
                       | None \<Rightarrow> bBin Base Add (ConstantExpr LHS) RHS))
             | None \<Rightarrow> bBin Base Add (ConstantExpr LHS) RHS)))"

definition CF_Add_NN :: "cf_self \<Rightarrow> builder \<Rightarrow> expr \<Rightarrow> expr \<Rightarrow> expr option" where
  "CF_Add_NN self Base LHS RHS =
     (case dyn_binary Add LHS of
        Some (x, y) \<Rightarrow> do { z \<leftarrow> self (Builder_Add y RHS); self (Builder_Add x z) }
      | None \<Rightarrow>
     (case dyn_binary Sub LHS of
        Some (x, y) \<Rightarrow> do { z \<leftarrow> self (Builder_Sub RHS y); self (Builder_Add x z) }
      | None \<Rightarrow>
     (case dyn_binary Add RHS of
        Some (x, y) \<Rightarrow>
          (case dyn_const x of
             Some CE \<Rightarrow> do { z \<leftarrow> self (Builder_Add LHS y); self (Builder_Add (ConstantExpr CE) z) }
           | None \<Rightarrow>
               (case dyn_const y of
                  Some CE \<Rightarrow> do { z \<leftarrow> self (Builder_Add LHS x); self (Builder_Add (ConstantExpr CE) z) }
                | None \<Rightarrow> bBin Base Add LHS RHS))
      | None \<Rightarrow>
     (case dyn_binary Sub RHS of
        Some (x, y) \<Rightarrow>
          (case dyn_const x of
             Some CE \<Rightarrow> do { z \<leftarrow> self (Builder_Sub LHS y); self (Builder_Add (ConstantExpr CE) z) }
           | None \<Rightarrow>
               (case dyn_const y of
                  Some CE \<Rightarrow>
                    do { z \<leftarrow> self (Builder_Add LHS x); self (Builder_Add (ConstantExpr (ConstantExpr_Neg CE)) z) }
                | None \<Rightarrow> bBin Base Add LHS RHS))
      | None \<Rightarrow> bBin Base Add LHS RHS))))"

definition CF_Sub_CN :: "cf_self \<Rightarrow> builder \<Rightarrow> apint \<Rightarrow> expr \<Rightarrow> expr option" where
  "CF_Sub_CN self Base LHS RHS =
     (case dyn_binary Add RHS of
        Some (x, y) \<Rightarrow>
          (case dyn_const x of
             Some CE \<Rightarrow> self (Builder_Sub (ConstantExpr (ConstantExpr_Sub LHS CE)) y)
           | None \<Rightarrow>
               (case dyn_const y of
                  Some CE \<Rightarrow> self (Builder_Sub (ConstantExpr (ConstantExpr_Sub LHS CE)) x)
                | None \<Rightarrow> bBin Base Sub (ConstantExpr LHS) RHS))
      | None \<Rightarrow>
     (case dyn_binary Sub RHS of
        Some (x, y) \<Rightarrow>
          (case dyn_const x of
             Some CE \<Rightarrow> self (Builder_Add (ConstantExpr (ConstantExpr_Sub LHS CE)) y)
           | None \<Rightarrow>
               (case dyn_const y of
                  Some CE \<Rightarrow> self (Builder_Sub (ConstantExpr (ConstantExpr_Add LHS CE)) x)
                | None \<Rightarrow> bBin Base Sub (ConstantExpr LHS) RHS))
      | None \<Rightarrow> bBin Base Sub (ConstantExpr LHS) RHS))"

definition CF_Sub_NN :: "cf_self \<Rightarrow> builder \<Rightarrow> expr \<Rightarrow> expr \<Rightarrow> expr option" where
  "CF_Sub_NN self Base LHS RHS =
     (case dyn_binary Add LHS of
        Some (x, y) \<Rightarrow> do { z \<leftarrow> self (Builder_Sub y RHS); self (Builder_Add x z) }
      | None \<Rightarrow>
     (case dyn_binary Sub LHS of
        Some (x, y) \<Rightarrow> do { z \<leftarrow> self (Builder_Add y RHS); self (Builder_Sub x z) }
      | None \<Rightarrow>
     (case dyn_binary Add RHS of
        Some (x, y) \<Rightarrow>
          (case dyn_const x of
             Some CE \<Rightarrow>
               do { z \<leftarrow> self (Builder_Sub LHS y); self (Builder_Add (ConstantExpr (ConstantExpr_Neg CE)) z) }
           | None \<Rightarrow>
               (case dyn_const y of
                  Some CE \<Rightarrow>
                    do { z \<leftarrow> self (Builder_Sub LHS x); self (Builder_Add (ConstantExpr (ConstantExpr_Neg CE)) z) }
                | None \<Rightarrow> bBin Base Sub LHS RHS))
      | None \<Rightarrow>
     (case dyn_binary Sub RHS of
        Some (x, y) \<Rightarrow>
          (case dyn_const x of
             Some CE \<Rightarrow>
               do { z \<leftarrow> self (Builder_Add LHS y); self (Builder_Add (ConstantExpr (ConstantExpr_Neg CE)) z) }
           | None \<Rightarrow>
               (case dyn_const y of
                  Some CE \<Rightarrow> do { z \<leftarrow> self (Builder_Sub LHS x); self (Builder_Add (ConstantExpr CE) z) }
                | None \<Rightarrow> bBin Base Sub LHS RHS))
      | None \<Rightarrow> bBin Base Sub LHS RHS))))"

text \<open>
  \<open>ConstantSpecializedExprBuilder\<close>'s \<open>Add\<close> and \<open>Sub\<close> over the overloads: a constant on the right
  of a sum moves to the left, one on the right of a difference is negated and added.
\<close>

definition CF_step :: "cf_self \<Rightarrow> builder \<Rightarrow> cf_call \<Rightarrow> expr option" where
  "CF_step self Base call =
     (case call of
        Builder_Add l r \<Rightarrow>
          Specialized_binary Add (CF_Add_CN self Base) (\<lambda>l c. CF_Add_CN self Base c l) (CF_Add_NN self Base) l r
      | Builder_Sub l r \<Rightarrow>
          Specialized_binary Sub (CF_Sub_CN self Base)
            (\<lambda>l c. CF_Add_CN self Base (ConstantExpr_Neg c) l) (CF_Sub_NN self Base) l r)"

lemma CF_step_mono [partial_function_mono]:
  assumes "\<And>c. mono_option (\<lambda>f. self f c)"
  shows "mono_option (\<lambda>f. CF_step (self f) Base call)"
proof (rule monotoneI)
  fix f g :: "'a \<Rightarrow> 'b option"
  assume "option.le_fun f g"
  then have le: "self f c = None \<or> self f c = self g c" for c
    using assms [of c] by (auto simp: monotone_def flat_ord_def)
  have bind: "Option.bind (self f c) (\<lambda>z. self f (h z)) = None \<or>
      Option.bind (self f c) (\<lambda>z. self f (h z)) = Option.bind (self g c) (\<lambda>z. self g (h z))" for c h
  proof (cases "self f c")
    case (Some a)
    with le [of c] have "self g c = Some a" by auto
    with Some le [of "h a"] show ?thesis by simp
  qed simp
  show "option_ord (CF_step (self f) Base call) (CF_step (self g) Base call)"
    unfolding flat_ord_def
    by (cases call)
       (use le bind in \<open>simp_all add: CF_step_def Specialized_binary_def CF_Add_CN_def CF_Add_NN_def
          CF_Sub_CN_def CF_Sub_NN_def split: option.split prod.split\<close>)
qed

partial_function (option) CF :: "builder \<Rightarrow> cf_call \<Rightarrow> expr option" where
  "CF Base call = CF_step (CF Base) Base call"

lemma dyn_const_iff: "dyn_const e = Some c \<longleftrightarrow> e = ConstantExpr c"
  by (cases e) auto

lemma dyn_const_None: "dyn_const e = None \<longleftrightarrow> \<not> isConstantExpr e"
  by (cases e) auto

lemma dyn_binary_iff: "dyn_binary k e = Some p \<longleftrightarrow> (\<exists>x y. p = (x, y) \<and> e = BinaryExpr k x y)"
  by (cases e) auto

lemma const_case:
  assumes "(case dyn_const x of Some c \<Rightarrow> f c | None \<Rightarrow> (case dyn_const y of Some c \<Rightarrow> g c | None \<Rightarrow> h)) = Some z"
    and "\<And>c. x = ConstantExpr c \<Longrightarrow> f c = Some z \<Longrightarrow> thesis"
    and "\<And>c. y = ConstantExpr c \<Longrightarrow> g c = Some z \<Longrightarrow> thesis"
    and "h = Some z \<Longrightarrow> thesis"
  shows thesis
  using assms by (cases x; cases y; simp)

lemma binary_case:
  assumes "(case dyn_binary k e of Some (x, y) \<Rightarrow> f x y | None \<Rightarrow> h) = Some z"
    and "\<And>x y. e = BinaryExpr k x y \<Longrightarrow> f x y = Some z \<Longrightarrow> thesis"
    and "h = Some z \<Longrightarrow> thesis"
  shows thesis
  using assms by (cases e) (auto split: if_splits)

lemma Specialized_binary_cases [consumes 1, case_names CC CN NC NN]:
  assumes "Specialized_binary k cn nc nn l r = Some y"
  obtains cl cr z where "l = ConstantExpr cl" "r = ConstantExpr cr" "ConstantExpr_op k cl cr = Some z" "y = ConstantExpr z"
  | c where "l = ConstantExpr c" "\<not> isConstantExpr r" "cn c r = Some y"
  | c where "\<not> isConstantExpr l" "r = ConstantExpr c" "nc l c = Some y"
  | "\<not> isConstantExpr l" "\<not> isConstantExpr r" "nn l r = Some y"
  using assms by (cases l; cases r) (simp_all add: Specialized_binary_def, blast)

subsection \<open>The meaning of a call\<close>

fun wf_call :: "cf_call \<Rightarrow> bool" where
  "wf_call (Builder_Add l r) = (wf_expr l \<and> wf_expr r \<and> getWidth l = getWidth r)"
| "wf_call (Builder_Sub l r) = (wf_expr l \<and> wf_expr r \<and> getWidth l = getWidth r)"

fun call_width :: "cf_call \<Rightarrow> nat" where
  "call_width (Builder_Add l r) = getWidth l"
| "call_width (Builder_Sub l r) = getWidth l"

fun call_value :: "cf_call \<Rightarrow> env \<Rightarrow> int" where
  "call_value (Builder_Add l r) \<sigma> = take_bit (getWidth l) (eval l \<sigma> + eval r \<sigma>)"
| "call_value (Builder_Sub l r) \<sigma> = take_bit (getWidth l) (eval l \<sigma> - eval r \<sigma>)"

definition call_ok :: "cf_call \<Rightarrow> expr \<Rightarrow> bool" where
  "call_ok c y \<longleftrightarrow> (wf_call c \<longrightarrow>
     wf_expr y \<and> getWidth y = call_width c \<and> (\<forall>\<sigma>. env_ok \<sigma> \<longrightarrow> eval y \<sigma> = call_value c \<sigma>))"

lemma call_ok_const:
  shows "call_ok (Builder_Add (ConstantExpr l) (ConstantExpr r)) (ConstantExpr (ConstantExpr_Add l r))"
    and "call_ok (Builder_Sub (ConstantExpr l) (ConstantExpr r)) (ConstantExpr (ConstantExpr_Sub l r))"
  by (simp_all add: call_ok_def)

lemma call_ok_trans:
  assumes "call_ok c y"
    and "wf_call c' \<Longrightarrow> wf_call c" and "wf_call c' \<Longrightarrow> call_width c = call_width c'"
    and "\<And>\<sigma>. env_ok \<sigma> \<Longrightarrow> wf_call c' \<Longrightarrow> call_value c \<sigma> = call_value c' \<sigma>"
  shows "call_ok c' y"
  using assms by (auto simp: call_ok_def)

lemma call_ok_chain:
  assumes "call_ok c z" and "call_ok d y"
    and "wf_call c' \<Longrightarrow> wf_call c"
    and "wf_call c' \<Longrightarrow> wf_expr z \<Longrightarrow> getWidth z = call_width c \<Longrightarrow> wf_call d"
    and "wf_call c' \<Longrightarrow> getWidth z = call_width c \<Longrightarrow> call_width d = call_width c'"
    and "\<And>\<sigma>. env_ok \<sigma> \<Longrightarrow> wf_call c' \<Longrightarrow> getWidth z = call_width c \<Longrightarrow> eval z \<sigma> = call_value c \<sigma> \<Longrightarrow>
      call_value d \<sigma> = call_value c' \<sigma>"
  shows "call_ok c' y"
  using assms by (auto simp: call_ok_def)

lemma bind_case:
  assumes "Option.bind a f = Some y" and "\<And>z. a = Some z \<Longrightarrow> f z = Some y \<Longrightarrow> thesis"
  shows thesis
  using assms by (cases a) auto

lemma neg_mod_absorb:
  fixes a b c m :: int
  shows "(a + (c + - b mod m)) mod m = (a + c - b) mod m"
    and "(a + - b mod m - c) mod m = (a - (b + c)) mod m"
proof -
  have absorb: "(x + - b mod m) mod m = (x - b) mod m" for x
    by (metis diff_conv_add_uminus mod_add_right_eq)
  show "(a + (c + - b mod m)) mod m = (a + c - b) mod m"
    using absorb [of "a + c"] by (simp only: add.assoc)
  show "(a + - b mod m - c) mod m = (a - (b + c)) mod m"
    using absorb [of "a - c"] by (simp add: algebra_simps)
qed

lemmas neg_lin_arith = lin_arith neg_mod_absorb

locale sound_builder =
  fixes B :: builder
  assumes NotOptimized: "wf_expr e \<Longrightarrow> builds (bNotOptimized B e) (getWidth e) (eval e)"
    and Read: "wf_expr (ReadExpr a us i) \<Longrightarrow> builds (bRead B a us i) (arrRange a) (eval (ReadExpr a us i))"
    and Select: "wf_expr (SelectExpr c t f) \<Longrightarrow>
      builds (bSelect B c t f) (getWidth t) (eval (SelectExpr c t f))"
    and Concat: "wf_expr (ConcatExpr l r) \<Longrightarrow>
      builds (bConcat B l r) (getWidth l + getWidth r) (eval (ConcatExpr l r))"
    and Extract: "wf_expr (ExtractExpr e off w) \<Longrightarrow> builds (bExtract B e off w) w (eval (ExtractExpr e off w))"
    and ZExt: "wf_expr (ZExtExpr e w) \<Longrightarrow> builds (bZExt B e w) w (eval (ZExtExpr e w))"
    and SExt: "wf_expr (SExtExpr e w) \<Longrightarrow> builds (bSExt B e w) w (eval (SExtExpr e w))"
    and Not: "wf_expr e \<Longrightarrow> builds (bNot B e) (getWidth e) (eval (NotExpr e))"
    and Bin: "wf_expr l \<Longrightarrow> wf_expr r \<Longrightarrow> getWidth l = getWidth r \<Longrightarrow> div_ok k r \<Longrightarrow>
      builds_if (\<lambda>\<sigma>. isDivision k \<longrightarrow> eval r \<sigma> \<noteq> 0) (bBin B k l r) (bin_width k (getWidth l)) (bin_val k l r)"
begin

lemma Bin_value:
  assumes "bBin B k l r = Some y" "wf_expr l" "wf_expr r" "getWidth l = getWidth r" "\<not> isDivision k"
  shows "wf_expr y" "getWidth y = bin_width k (getWidth l)" "env_ok \<sigma> \<Longrightarrow> eval y \<sigma> = bin_val k l r \<sigma>"
  using Bin [of l r k] assms by (auto simp: builds_if_def div_ok_def)

lemma linear_node:
  shows "bBin B Add l r = Some y \<Longrightarrow> call_ok (Builder_Add l r) y"
    and "bBin B Sub l r = Some y \<Longrightarrow> call_ok (Builder_Sub l r) y"
  using Bin_value [of Add l r y] Bin_value [of Sub l r y] by (auto simp: call_ok_def isDivision_def)

lemma CF_Add_CN_sound:
  assumes self: "\<And>c y. self c = Some y \<Longrightarrow> call_ok c y" and "CF_Add_CN self B LHS RHS = Some y"
  shows "call_ok (Builder_Add (ConstantExpr LHS) RHS) y"
proof (cases "ConstantExpr_isZero LHS")
  case True
  then show ?thesis
    using assms(2) eval_take_bit [of _ RHS] by (auto simp: CF_Add_CN_def call_ok_def ConstantExpr_isZero_def)
next
  case False
  have "CF_Add_CN self B LHS RHS = Some y \<Longrightarrow> call_ok (Builder_Add (ConstantExpr LHS) RHS) y"
    unfolding CF_Add_CN_def if_not_P [OF False]
    by (elim binary_case const_case)
       (erule linear_node | drule self, erule call_ok_trans; auto simp: lin_arith)+
  then show ?thesis using assms(2) .
qed

lemma CF_Sub_CN_sound:
  assumes self: "\<And>c y. self c = Some y \<Longrightarrow> call_ok c y"
  shows "CF_Sub_CN self B LHS RHS = Some y \<Longrightarrow> call_ok (Builder_Sub (ConstantExpr LHS) RHS) y"
  unfolding CF_Sub_CN_def
  by (elim binary_case const_case)
     (erule linear_node | drule self, erule call_ok_trans; auto simp: lin_arith)+

lemma CF_Add_NN_sound:
  assumes self: "\<And>c y. self c = Some y \<Longrightarrow> call_ok c y"
  shows "CF_Add_NN self B LHS RHS = Some y \<Longrightarrow> call_ok (Builder_Add LHS RHS) y"
  unfolding CF_Add_NN_def
  by (elim binary_case const_case bind_case)
     (erule linear_node | drule self, drule self, erule (1) call_ok_chain; auto simp: neg_lin_arith)+

lemma CF_Sub_NN_sound:
  assumes self: "\<And>c y. self c = Some y \<Longrightarrow> call_ok c y"
  shows "CF_Sub_NN self B LHS RHS = Some y \<Longrightarrow> call_ok (Builder_Sub LHS RHS) y"
  unfolding CF_Sub_NN_def
  by (elim binary_case const_case bind_case)
     (erule linear_node | drule self, drule self, erule (1) call_ok_chain; auto simp: neg_lin_arith)+

lemma CF_step_sound:
  assumes self: "\<And>c y. self c = Some y \<Longrightarrow> call_ok c y" and step: "CF_step self B c = Some y"
  shows "call_ok c y"
proof (cases c)
  case (Builder_Add l r)
  with step have "Specialized_binary Add (CF_Add_CN self B) (\<lambda>l c. CF_Add_CN self B c l) (CF_Add_NN self B) l r = Some y"
    by (simp add: CF_step_def)
  then show ?thesis
  proof (cases rule: Specialized_binary_cases)
    case (NC c)
    from CF_Add_CN_sound [OF self NC(3)] show ?thesis
      unfolding Builder_Add by (rule call_ok_trans) (auto simp: NC(2) add.commute)
  qed (use Builder_Add CF_Add_CN_sound [OF self] CF_Add_NN_sound [OF self] call_ok_const in auto)
next
  case (Builder_Sub l r)
  with step have "Specialized_binary Sub (CF_Sub_CN self B) (\<lambda>l c. CF_Add_CN self B (ConstantExpr_Neg c) l)
      (CF_Sub_NN self B) l r = Some y"
    by (simp add: CF_step_def)
  then show ?thesis
  proof (cases rule: Specialized_binary_cases)
    case (NC c)
    from CF_Add_CN_sound [OF self NC(3)] show ?thesis
      unfolding Builder_Sub by (rule call_ok_trans) (auto simp: NC(2) lin_arith)
  qed (use Builder_Sub CF_Sub_CN_sound [OF self] CF_Sub_NN_sound [OF self] call_ok_const in auto)
qed

end

end
