(* ===== verification/Builder_Stack.thy ===== *)
theory Builder_Stack
  imports Expr_Builder
begin

text \<open>
  The two specialised builders of \<^verbatim>\<open>klee/lib/Expr/ExprBuilder.cpp\<close> as builders over a base, and
  the stack kleaver uses, simplifying over constant folding over the default builder. The linear
  rewriting of the constant folding builder returns for every base whose sums and differences do
  not grow (locale \<open>linear_base\<close>), and both builders are sound over a sound base.
\<close>

subsection \<open>The builders\<close>

text \<open>The overloads of \<open>ConstantFoldingBuilder\<close> for a constant and a non-constant.\<close>

definition CF_Mul_CN :: "builder \<Rightarrow> apint \<Rightarrow> expr \<Rightarrow> expr option" where
  "CF_Mul_CN Base LHS RHS =
     (if ConstantExpr_isZero LHS then Some (ConstantExpr LHS)
      else if ConstantExpr_isOne LHS then Some RHS
      else bBin Base Mul (ConstantExpr LHS) RHS)"

definition CF_And_CN :: "builder \<Rightarrow> apint \<Rightarrow> expr \<Rightarrow> expr option" where
  "CF_And_CN Base LHS RHS =
     (if ConstantExpr_isZero LHS then Some (ConstantExpr LHS)
      else if ConstantExpr_isAllOnes LHS then Some RHS
      else bBin Base And (ConstantExpr LHS) RHS)"

definition CF_Or_CN :: "builder \<Rightarrow> apint \<Rightarrow> expr \<Rightarrow> expr option" where
  "CF_Or_CN Base LHS RHS =
     (if ConstantExpr_isZero LHS then Some RHS
      else if ConstantExpr_isAllOnes LHS then Some (ConstantExpr LHS)
      else bBin Base Or (ConstantExpr LHS) RHS)"

definition CF_Xor_CN :: "builder \<Rightarrow> apint \<Rightarrow> expr \<Rightarrow> expr option" where
  "CF_Xor_CN Base LHS RHS =
     (if ConstantExpr_isZero LHS then Some RHS else bBin Base Xor (ConstantExpr LHS) RHS)"

definition CF_Eq_CN :: "builder \<Rightarrow> apint \<Rightarrow> expr \<Rightarrow> expr option" where
  "CF_Eq_CN Base LHS RHS =
     (if bitWidth LHS = 1
      then if ConstantExpr_isTrue LHS then Some RHS else bNot Base RHS
      else bBin Base Eq (ConstantExpr LHS) RHS)"

text \<open>
  The binary methods of \<open>ConstantFoldingExprBuilder\<close>. An operator with a rule has the constant
  first; one without is forwarded by \<open>ChainedBuilder\<close>.
\<close>

definition commuted :: "bkind \<Rightarrow> builder \<Rightarrow> (apint \<Rightarrow> expr \<Rightarrow> expr option) \<Rightarrow> expr \<Rightarrow> expr \<Rightarrow> expr option" where
  "commuted k Base cn = Specialized_binary k cn (\<lambda>l c. cn c l) (bBin Base k)"

definition forwarded :: "bkind \<Rightarrow> (expr \<Rightarrow> expr \<Rightarrow> expr option) \<Rightarrow> expr \<Rightarrow> expr \<Rightarrow> expr option" where
  "forwarded k f = Specialized_binary k (\<lambda>c r. f (ConstantExpr c) r) (\<lambda>l c. f l (ConstantExpr c)) f"

fun CF_binary :: "builder \<Rightarrow> bkind \<Rightarrow> expr \<Rightarrow> expr \<Rightarrow> expr option" where
  "CF_binary Base Add = (\<lambda>l r. CF Base (Builder_Add l r))"
| "CF_binary Base Sub = (\<lambda>l r. CF Base (Builder_Sub l r))"
| "CF_binary Base Mul = commuted Mul Base (CF_Mul_CN Base)"
| "CF_binary Base And = commuted And Base (CF_And_CN Base)"
| "CF_binary Base Or = commuted Or Base (CF_Or_CN Base)"
| "CF_binary Base Xor = commuted Xor Base (CF_Xor_CN Base)"
| "CF_binary Base Eq = commuted Eq Base (CF_Eq_CN Base)"
| "CF_binary Base k = forwarded k (bBin Base k)"

definition specialized :: "builder \<Rightarrow> (bkind \<Rightarrow> expr \<Rightarrow> expr \<Rightarrow> expr option) \<Rightarrow> (expr \<Rightarrow> expr option) \<Rightarrow> builder" where
  "specialized Base binary neg =
     \<lparr>bNotOptimized = bNotOptimized Base,
      bRead = Specialized_Read Base (binary Eq),
      bSelect = Specialized_Select Base,
      bConcat = Specialized_Concat Base,
      bExtract = Specialized_Extract Base,
      bZExt = Specialized_ZExt Base,
      bSExt = Specialized_SExt Base,
      bNot = neg,
      bBin = binary\<rparr>"

definition ConstantFoldingExprBuilder :: "builder \<Rightarrow> builder" where
  "ConstantFoldingExprBuilder Base = specialized Base (CF_binary Base) (Specialized_Not (bNot Base))"

text \<open>
  \<open>SimplifyingExprBuilder\<close>: equality, negation with De Morgan's rule through \<open>Builder->Not\<close> and
  \<open>Builder->And\<close>, and the four swapped comparisons.
\<close>

definition SB_Eq_CN :: "builder \<Rightarrow> apint \<Rightarrow> expr \<Rightarrow> expr option" where
  "SB_Eq_CN Base LHS RHS =
     (if bitWidth LHS = 1
      then if ConstantExpr_isTrue LHS then Some RHS else bNot Base RHS
      else bBin Base Eq (ConstantExpr LHS) RHS)"

definition SB_Eq_NN :: "builder \<Rightarrow> expr \<Rightarrow> expr \<Rightarrow> expr option" where
  "SB_Eq_NN Base LHS RHS =
     (if LHS = RHS then map_option ConstantExpr (ConstantExpr_create 1 1) else bBin Base Eq LHS RHS)"

definition SB_Eq :: "builder \<Rightarrow> expr \<Rightarrow> expr \<Rightarrow> expr option" where
  "SB_Eq Base = Specialized_binary Eq (SB_Eq_CN Base) (\<lambda>l c. SB_Eq_CN Base c l) (SB_Eq_NN Base)"

fun SB_Not :: "builder \<Rightarrow> expr \<Rightarrow> expr option" where
  "SB_Not Base (NotExpr x) = Some x"
| "SB_Not Base (ConstantExpr CE) = Some (ConstantExpr (ConstantExpr_Not CE))"
| "SB_Not Base (BinaryExpr k l r) =
     (if k = Or
      then do { a \<leftarrow> SB_Not Base l; b \<leftarrow> SB_Not Base r; forwarded And (bBin Base And) a b }
      else bNot Base (BinaryExpr k l r))"
| "SB_Not Base e = bNot Base e"

definition SB_Ne :: "builder \<Rightarrow> expr \<Rightarrow> expr \<Rightarrow> expr option" where
  "SB_Ne Base LHS RHS = do { e \<leftarrow> SB_Eq Base LHS RHS; SB_Not Base e }"

fun SB_binary :: "builder \<Rightarrow> bkind \<Rightarrow> expr \<Rightarrow> expr \<Rightarrow> expr option" where
  "SB_binary Base Eq = SB_Eq Base"
| "SB_binary Base Ne = forwarded Ne (SB_Ne Base)"
| "SB_binary Base Ugt = forwarded Ugt (\<lambda>l r. forwarded Ult (bBin Base Ult) r l)"
| "SB_binary Base Uge = forwarded Uge (\<lambda>l r. forwarded Ule (bBin Base Ule) r l)"
| "SB_binary Base Sgt = forwarded Sgt (\<lambda>l r. forwarded Slt (bBin Base Slt) r l)"
| "SB_binary Base Sge = forwarded Sge (\<lambda>l r. forwarded Sle (bBin Base Sle) r l)"
| "SB_binary Base k = forwarded k (bBin Base k)"

definition SimplifyingExprBuilder :: "builder \<Rightarrow> builder" where
  "SimplifyingExprBuilder Base = specialized Base (SB_binary Base) (SB_Not Base)"

text \<open>The factory functions, and the stack of \<^verbatim>\<open>kleaver\<close>'s default.\<close>

definition kleaver_builder :: builder where
  "kleaver_builder = SimplifyingExprBuilder (ConstantFoldingExprBuilder DefaultExprBuilder)"

subsection \<open>The linear rewriting returns\<close>

text \<open>A call returns a well-formed expression of width \<open>w\<close> and size at most \<open>n\<close>.\<close>

definition returns :: "expr option \<Rightarrow> nat \<Rightarrow> nat \<Rightarrow> bool" where
  "returns res w n \<longleftrightarrow> (\<exists>y. res = Some y \<and> wf_expr y \<and> getWidth y = w \<and> esize y \<le> n)"

fun csize :: "cf_call \<Rightarrow> nat" where
  "csize (Builder_Add l r) = esize l + esize r"
| "csize (Builder_Sub l r) = esize l + esize r"

fun cfirst :: "cf_call \<Rightarrow> nat" where
  "cfirst (Builder_Add l r) = esize l"
| "cfirst (Builder_Sub l r) = esize l"

definition smaller :: "cf_call \<Rightarrow> cf_call \<Rightarrow> bool" where
  "smaller c d \<longleftrightarrow> csize c < csize d \<or> csize c = csize d \<and> cfirst c < cfirst d"

lemma smaller_wf: "wfP smaller"
  unfolding wfp_def by (rule wf_subset [of "measures [csize, cfirst]"]) (auto simp: smaller_def)

definition good :: "cf_self \<Rightarrow> cf_call \<Rightarrow> bool" where
  "good self c \<longleftrightarrow> (\<forall>d. wf_call d \<longrightarrow> smaller d c \<longrightarrow> returns (self d) (call_width d) (csize d + 1))"

lemma returns_const_case:
  assumes "\<And>c. x = ConstantExpr c \<Longrightarrow> returns (f c) w n" and "\<And>c. y = ConstantExpr c \<Longrightarrow> returns (g c) w n"
    and "returns h w n"
  shows "returns (case dyn_const x of Some c \<Rightarrow> f c | None \<Rightarrow> (case dyn_const y of Some c \<Rightarrow> g c | None \<Rightarrow> h)) w n"
proof (cases "dyn_const x")
  case None
  show ?thesis
  proof (cases "dyn_const y")
    case y: None
    show ?thesis unfolding None y option.case by (rule assms(3))
  next
    case (Some c)
    show ?thesis unfolding None Some option.case using Some by (intro assms(2)) (simp add: dyn_const_iff)
  qed
next
  case (Some c)
  show ?thesis unfolding Some option.case using Some by (intro assms(1)) (simp add: dyn_const_iff)
qed

lemma returns_binary_case:
  assumes "\<And>x y. e = BinaryExpr k x y \<Longrightarrow> returns (f x y) w n" and "returns h w n"
  shows "returns (case dyn_binary k e of Some (x, y) \<Rightarrow> f x y | None \<Rightarrow> h) w n"
proof (cases "dyn_binary k e")
  case None
  show ?thesis unfolding None option.case by (rule assms(2))
next
  case (Some p)
  then obtain x y where e: "e = BinaryExpr k x y" "p = (x, y)" by (auto simp: dyn_binary_iff)
  show ?thesis unfolding Some e(2) option.case prod.case by (rule assms(1) [OF e(1)])
qed

lemma returns_Specialized:
  assumes "\<And>cl cr. l = ConstantExpr cl \<Longrightarrow> r = ConstantExpr cr \<Longrightarrow>
      returns (map_option ConstantExpr (ConstantExpr_op k cl cr)) w n"
    and "\<And>c. l = ConstantExpr c \<Longrightarrow> \<not> isConstantExpr r \<Longrightarrow> returns (cn c r) w n"
    and "\<And>c. r = ConstantExpr c \<Longrightarrow> \<not> isConstantExpr l \<Longrightarrow> returns (nc l c) w n"
    and "\<not> isConstantExpr l \<Longrightarrow> \<not> isConstantExpr r \<Longrightarrow> returns (nn l r) w n"
  shows "returns (Specialized_binary k cn nc nn l r) w n"
proof -
  consider (CC) cl cr where "l = ConstantExpr cl" "r = ConstantExpr cr"
    | (CN) c where "l = ConstantExpr c" "\<not> isConstantExpr r"
    | (NC) c where "\<not> isConstantExpr l" "r = ConstantExpr c"
    | (NN) "\<not> isConstantExpr l" "\<not> isConstantExpr r"
    by (cases l; cases r) auto
  then show ?thesis
    by cases (use assms in \<open>simp_all add: Specialized_binary_def dyn_const_None [THEN iffD2]\<close>)
qed

lemmas returns_cases = returns_binary_case returns_const_case

lemma esize_nonconstant: "\<not> isConstantExpr e \<Longrightarrow> 1 < esize e"
  by (cases e) (simp_all add: trans_less_add1)

locale linear_base = sound_builder +
  assumes no_growth: "bBin B k l r = Some y \<Longrightarrow> k \<in> {Add, Sub} \<Longrightarrow> esize y \<le> esize l + esize r + 1"
begin

lemma node_returns:
  assumes "wf_expr l" "wf_expr r" "getWidth l = w" "getWidth r = w" "k \<in> {Add, Sub}" "esize l + esize r < n"
  shows "returns (bBin B k l r) w n"
  using Bin [of l r k] no_growth [of k l r] assms
  by (auto simp: builds_if_def div_ok_def isDivision_def returns_def)

lemma tail_returns:
  assumes "good self c" "wf_call d" "smaller d c" "call_width d = w" "csize d < n"
  shows "returns (self d) w n"
  using assms by (force simp: good_def returns_def)

lemma chain_returns:
  assumes "good self c" "wf_call d" "smaller d c"
    and "\<And>z. wf_expr z \<Longrightarrow> getWidth z = call_width d \<Longrightarrow> esize z \<le> csize d + 1 \<Longrightarrow>
      wf_call (h z) \<and> smaller (h z) c \<and> call_width (h z) = w \<and> csize (h z) < n"
  shows "returns (do { z \<leftarrow> self d; self (h z) }) w n"
proof -
  obtain z where z: "self d = Some z" "wf_expr z" "getWidth z = call_width d" "esize z \<le> csize d + 1"
    using assms(1-3) by (auto simp: good_def returns_def)
  then show ?thesis
    using assms(4) [OF z(2-4)] tail_returns [OF assms(1), of "h z" w n] by simp
qed

lemmas call_sizes = smaller_def csize.simps cfirst.simps

lemma CF_Add_CN_returns:
  assumes "good self c" "csize c = 1 + esize r" "wf_apint l" "wf_expr r" "bitWidth l = getWidth r"
  shows "returns (CF_Add_CN self B l r) (getWidth r) (esize r + 2)"
proof (cases "ConstantExpr_isZero l")
  case True
  with assms show ?thesis by (simp add: CF_Add_CN_def returns_def)
next
  case False
  show ?thesis
    unfolding CF_Add_CN_def if_not_P [OF False]
    by (intro returns_cases; (rule node_returns | rule tail_returns [OF assms(1)]))
       (use assms in \<open>auto simp: call_sizes\<close>)
qed

lemma CF_Sub_CN_returns:
  assumes "good self c" "csize c = 1 + esize r" "wf_apint l" "wf_expr r" "bitWidth l = getWidth r"
  shows "returns (CF_Sub_CN self B l r) (getWidth r) (esize r + 2)"
  unfolding CF_Sub_CN_def
  by (intro returns_cases; (rule node_returns | rule tail_returns [OF assms(1)]))
     (use assms in \<open>auto simp: call_sizes\<close>)

lemma CF_Add_NN_returns:
  assumes "good self c" "c = Builder_Add l r" "wf_call c" "\<not> isConstantExpr l"
  shows "returns (CF_Add_NN self B l r) (getWidth l) (csize c + 1)"
  unfolding CF_Add_NN_def
  by (intro returns_cases; (rule node_returns | rule chain_returns [OF assms(1)]))
     (use assms esize_nonconstant [OF assms(4)] in \<open>auto simp: call_sizes\<close>)

lemma CF_Sub_NN_returns:
  assumes "good self c" "c = Builder_Sub l r" "wf_call c" "\<not> isConstantExpr l"
  shows "returns (CF_Sub_NN self B l r) (getWidth l) (csize c + 1)"
  unfolding CF_Sub_NN_def
  by (intro returns_cases; (rule node_returns | rule chain_returns [OF assms(1)]))
     (use assms esize_nonconstant [OF assms(4)] in \<open>auto simp: call_sizes\<close>)

lemma CF_step_returns:
  assumes "good self c" "wf_call c"
  shows "returns (CF_step self B c) (call_width c) (csize c + 1)"
proof (cases c)
  case (Builder_Add l r)
  have "returns (Specialized_binary Add (CF_Add_CN self B) (\<lambda>l c. CF_Add_CN self B c l) (CF_Add_NN self B) l r)
      (getWidth l) (esize l + esize r + 1)"
    by (rule returns_Specialized)
       (use assms Builder_Add CF_Add_CN_returns [OF assms(1), of l] CF_Add_CN_returns [OF assms(1), of r]
          CF_Add_NN_returns [OF assms(1)] in
        \<open>auto simp: returns_def add.commute\<close>)
  then show ?thesis by (simp add: CF_step_def Builder_Add)
next
  case (Builder_Sub l r)
  have "returns (Specialized_binary Sub (CF_Sub_CN self B) (\<lambda>l c. CF_Add_CN self B (ConstantExpr_Neg c) l)
      (CF_Sub_NN self B) l r) (getWidth l) (esize l + esize r + 1)"
    by (rule returns_Specialized)
       (use assms Builder_Sub CF_Sub_CN_returns [OF assms(1), of r] CF_Add_CN_returns [OF assms(1), of l]
          CF_Sub_NN_returns [OF assms(1)] in \<open>auto simp: returns_def add.commute\<close>)
  then show ?thesis by (simp add: CF_step_def Builder_Sub)
qed

lemma CF_returns: "wf_call c \<Longrightarrow> returns (CF B c) (call_width c) (csize c + 1)"
proof (induction c rule: wfp_induct_rule [OF smaller_wf])
  case (1 c)
  then have "good (CF B) c" by (simp add: good_def)
  then show ?case using CF_step_returns "1.prems" by (simp add: CF.simps [of B c])
qed

end

subsection \<open>Soundness of the dispatch\<close>

definition bin_law :: "bkind \<Rightarrow> (expr \<Rightarrow> expr \<Rightarrow> expr option) \<Rightarrow> expr \<Rightarrow> expr \<Rightarrow> bool" where
  "bin_law k f l r \<longleftrightarrow>
     builds_if (\<lambda>\<sigma>. isDivision k \<longrightarrow> eval r \<sigma> \<noteq> 0) (f l r) (bin_width k (getWidth l)) (bin_val k l r)"

definition bin_pre :: "bkind \<Rightarrow> expr \<Rightarrow> expr \<Rightarrow> bool" where
  "bin_pre k l r \<longleftrightarrow> wf_expr l \<and> wf_expr r \<and> getWidth l = getWidth r \<and> div_ok k r"

lemma Specialized_law:
  assumes pre: "bin_pre k l r"
    and "\<And>c. l = ConstantExpr c \<Longrightarrow> \<not> isConstantExpr r \<Longrightarrow> bin_law k (\<lambda>_. cn c) l r"
    and "\<And>c. r = ConstantExpr c \<Longrightarrow> \<not> isConstantExpr l \<Longrightarrow> bin_law k (\<lambda>l _. nc l c) l r"
    and "\<not> isConstantExpr l \<Longrightarrow> \<not> isConstantExpr r \<Longrightarrow> bin_law k nn l r"
  shows "bin_law k (Specialized_binary k cn nc nn) l r"
proof -
  consider (CC) cl cr where "l = ConstantExpr cl" "r = ConstantExpr cr"
    | (CN) c where "l = ConstantExpr c" "\<not> isConstantExpr r"
    | (NC) c where "\<not> isConstantExpr l" "r = ConstantExpr c"
    | (NN) "\<not> isConstantExpr l" "\<not> isConstantExpr r"
    by (cases l; cases r) auto
  then show ?thesis
  proof cases
    case CC
    then have "\<exists>c. ConstantExpr_op k cl cr = Some c \<and> wf_apint c \<and> bitWidth c = bin_width k (bitWidth cl) \<and>
        apval c = sem_bin k (bitWidth cl) (apval cl) (apval cr)"
      using pre by (intro ConstantExpr_op_sound) (auto simp: bin_pre_def div_ok_def)
    with CC show ?thesis by (auto simp: bin_law_def Specialized_binary_def builds_if_def)
  qed (use assms in \<open>simp_all add: bin_law_def Specialized_binary_def dyn_const_None [THEN iffD2]\<close>)
qed

lemma forwarded_law: "bin_pre k l r \<Longrightarrow> bin_law k f l r \<Longrightarrow> bin_law k (forwarded k f) l r"
  unfolding forwarded_def by (rule Specialized_law) (simp_all add: bin_law_def)

lemma rollback_sound:
  assumes "\<And>i. wf_expr i \<Longrightarrow> getWidth i = arrDomain a \<Longrightarrow> bin_law Eq eq Index i" and "wf_ulist us a"
  shows "\<exists>us'. Specialized_rollback eq Index us = Some us' \<and> wf_ulist us' a \<and>
    (\<forall>\<sigma>. env_ok \<sigma> \<longrightarrow> ulookup us' \<sigma> (eval Index \<sigma>) = ulookup us \<sigma> (eval Index \<sigma>))"
  using assms
proof (induction eq Index us rule: Specialized_rollback.induct)
  case (2 eq Index n i v)
  from "2.prems"(1) [of i] "2.prems"(2)
  obtain e where e: "eq Index i = Some e" "getWidth e = 1"
      "\<And>\<sigma>. env_ok \<sigma> \<Longrightarrow> eval e \<sigma> = of_bool (eval Index \<sigma> = eval i \<sigma>)"
    by (auto simp: bin_law_def builds_if_def isDivision_def)
  then obtain f where f: "Expr_isFalse e = Some f" by (cases e) auto
  show ?case
  proof (cases f)
    case True
    with f e have "eval i \<sigma> \<noteq> eval Index \<sigma>" if "env_ok \<sigma>" for \<sigma>
      using e(3) [OF that] by (cases e) (auto split: if_splits)
    moreover obtain us' where "Specialized_rollback eq Index n = Some us'" "wf_ulist us' a"
      "\<And>\<sigma>. env_ok \<sigma> \<Longrightarrow> ulookup us' \<sigma> (eval Index \<sigma>) = ulookup n \<sigma> (eval Index \<sigma>)"
      using "2.IH" [OF e(1) f] True "2.prems" by auto
    ultimately show ?thesis using True e f by auto
  next
    case False
    then show ?thesis using "2.prems"(2) e f by auto
  qed
qed auto

lemma de_morgan_width:
  assumes "in_width w a" "in_width w b"
  shows "(2 ^ w - 1 - a) AND (2 ^ w - 1 - b) = 2 ^ w - 1 - (a OR b)"
proof -
  have "take_bit w (NOT a) AND take_bit w (NOT b) = take_bit w (NOT (a OR b))"
    by (simp only: take_bit_and bit.de_Morgan_disj)
  then show ?thesis
    by (simp only: not_in_width assms in_width_bitops)
qed

lemma const_node_builds:
  assumes "wf_apint c"
  shows "wf_apint d \<Longrightarrow> builds (Some (ConstantExpr (ConstantExpr_Concat c d))) (bitWidth c + bitWidth d)
      (eval (ConcatExpr (ConstantExpr c) (ConstantExpr d)))"
    and "0 < w \<Longrightarrow> off + w \<le> bitWidth c \<Longrightarrow>
      builds (Some (ConstantExpr (ConstantExpr_Extract c off w))) w (eval (ExtractExpr (ConstantExpr c) off w))"
    and "0 < w \<Longrightarrow> bitWidth c \<le> w \<Longrightarrow>
      builds (Some (ConstantExpr (ConstantExpr_ZExt c w))) w (eval (ZExtExpr (ConstantExpr c) w))"
    and "0 < w \<Longrightarrow> builds (Some (ConstantExpr (ConstantExpr_SExt c w))) w (eval (SExtExpr (ConstantExpr c) w))"
  using ConstantExpr_Concat_builds [of c d] ConstantExpr_Extract_builds [of c w off] assms
    in_width_mono [of "bitWidth c" "apval c" w] wf_apint_in_width [of c]
  by (simp_all add: builds_Some_iff)

context sound_builder
begin

lemma Bin_law: "bin_pre k l r \<Longrightarrow> bin_law k (bBin B k) l r"
  unfolding bin_law_def bin_pre_def by (rule Bin) auto

lemma specialized_sound:
  assumes bin: "\<And>k l r. bin_pre k l r \<Longrightarrow> bin_law k (binary k) l r"
    and neg: "\<And>e. wf_expr e \<Longrightarrow> builds (neg e) (getWidth e) (eval (NotExpr e))"
  shows "sound_builder (specialized B binary neg)"
proof unfold_locales
  fix a us i
  assume wf: "wf_expr (ReadExpr a us i)"
  have "bin_law Eq (binary Eq) i j" if "wf_expr j" "getWidth j = arrDomain a" for j
    using that wf by (intro bin) (simp add: bin_pre_def div_ok_def isDivision_def)
  then obtain us' where us': "Specialized_rollback (binary Eq) i us = Some us'" "wf_ulist us' a"
      "\<And>\<sigma>. env_ok \<sigma> \<Longrightarrow> ulookup us' \<sigma> (eval i \<sigma>) = ulookup us \<sigma> (eval i \<sigma>)"
    using rollback_sound [of a "binary Eq" i us] wf by auto
  have "builds (bRead B a us' i) (arrRange a) (eval (ReadExpr a us' i))"
    using wf us' by (intro Read) simp
  then show "builds (bRead (specialized B binary neg) a us i) (arrRange a) (eval (ReadExpr a us i))"
    unfolding specialized_def Specialized_Read_def using us' by (auto simp: builds_if_def)
next
  fix c t f
  assume "wf_expr (SelectExpr c t f)"
  then show "builds (bSelect (specialized B binary neg) c t f) (getWidth t) (eval (SelectExpr c t f))"
    using Select [of c t f]
    by (auto simp: specialized_def Specialized_Select_def dyn_const_iff builds_Some_iff ConstantExpr_isTrue_def
        split: option.split dest!: in_width_1_cases wf_apint_in_width)
next
  fix l r
  assume "wf_expr (ConcatExpr l r)"
  then show "builds (bConcat (specialized B binary neg) l r) (getWidth l + getWidth r) (eval (ConcatExpr l r))"
    using Concat [of l r] const_node_builds(1)
    by (auto simp: specialized_def Specialized_Concat_def dyn_const_iff split: option.split)
next
  fix e off w
  assume "wf_expr (ExtractExpr e off w)"
  then show "builds (bExtract (specialized B binary neg) e off w) w (eval (ExtractExpr e off w))"
    using Extract [of e off w] const_node_builds(2) [of _ w off]
    by (auto simp: specialized_def Specialized_Extract_def dyn_const_iff split: option.split)
next
  fix e w
  assume "wf_expr (ZExtExpr e w)"
  then show "builds (bZExt (specialized B binary neg) e w) w (eval (ZExtExpr e w))"
    using ZExt [of e w] const_node_builds(3) [of _ w]
    by (auto simp: specialized_def Specialized_ZExt_def dyn_const_iff split: option.split)
next
  fix e w
  assume "wf_expr (SExtExpr e w)"
  then show "builds (bSExt (specialized B binary neg) e w) w (eval (SExtExpr e w))"
    using SExt [of e w] const_node_builds(4) [of _ w]
    by (auto simp: specialized_def Specialized_SExt_def dyn_const_iff split: option.split)
next
  fix l r k
  assume "wf_expr l" "wf_expr r" "getWidth l = getWidth r" "div_ok k r"
  then show "builds_if (\<lambda>\<sigma>. isDivision k \<longrightarrow> eval r \<sigma> \<noteq> 0) (bBin (specialized B binary neg) k l r)
      (bin_width k (getWidth l)) (bin_val k l r)"
    using bin [of k l r] by (simp add: bin_law_def bin_pre_def specialized_def)
qed (simp_all add: specialized_def NotOptimized neg del: eval.simps)

lemma CF_sound:
  assumes "CF B c = Some y"
  shows "call_ok c y"
proof -
  have "B' = B \<longrightarrow> call_ok c y" if "CF B' c = Some y" for B' c y
  proof (rule CF.raw_induct [where P = "\<lambda>B' c y. B' = B \<longrightarrow> call_ok c y", OF _ that])
    fix CF' B' c y
    assume "\<And>B' c y. CF' B' c = Some y \<Longrightarrow> B' = B \<longrightarrow> call_ok c y" and "CF_step (CF' B') B' c = Some y"
    then show "B' = B \<longrightarrow> call_ok c y" using CF_step_sound [of "CF' B'" c y] by blast
  qed
  with assms show ?thesis by blast
qed

lemma CN_laws:
  assumes "wf_apint c" "wf_expr r" "bitWidth c = getWidth r"
  shows "bin_law Mul (\<lambda>_. CF_Mul_CN B c) (ConstantExpr c) r"
    and "bin_law And (\<lambda>_. CF_And_CN B c) (ConstantExpr c) r"
    and "bin_law Or (\<lambda>_. CF_Or_CN B c) (ConstantExpr c) r"
    and "bin_law Xor (\<lambda>_. CF_Xor_CN B c) (ConstantExpr c) r"
    and "bin_law Eq (\<lambda>_. CF_Eq_CN B c) (ConstantExpr c) r"
    and "bin_law Eq (\<lambda>_. SB_Eq_CN B c) (ConstantExpr c) r"
proof -
  have node: "bin_law k (bBin B k) (ConstantExpr c) r" if "\<not> isDivision k" for k
    using that assms by (intro Bin_law) (simp add: bin_pre_def div_ok_def)
  have mask: "mask (getWidth r) AND eval r \<sigma> = eval r \<sigma>" "mask (getWidth r) OR eval r \<sigma> = mask (getWidth r)"
    if "env_ok \<sigma>" for \<sigma>
    using and_mask_in_width [OF eval_in_width [OF that assms(2)]] or_mask_in_width [OF eval_in_width [OF that assms(2)]]
    by (simp_all only: and.commute or.commute)
  show "bin_law Mul (\<lambda>_. CF_Mul_CN B c) (ConstantExpr c) r"
    using assms node [of Mul]
    by (auto simp: bin_law_def CF_Mul_CN_def ConstantExpr_isZero_def ConstantExpr_isOne_def builds_Some_iff
        isDivision_def min_def split: if_splits)
  show "bin_law And (\<lambda>_. CF_And_CN B c) (ConstantExpr c) r"
    using assms node [of And] mask(1)
    by (auto simp: bin_law_def CF_And_CN_def ConstantExpr_isZero_def isAllOnes_mask builds_Some_iff
        isDivision_def)
  show "bin_law Or (\<lambda>_. CF_Or_CN B c) (ConstantExpr c) r"
    using assms node [of Or] mask(2)
    by (auto simp: bin_law_def CF_Or_CN_def ConstantExpr_isZero_def isAllOnes_mask builds_Some_iff
        isDivision_def)
  show "bin_law Xor (\<lambda>_. CF_Xor_CN B c) (ConstantExpr c) r"
    using assms node [of Xor]
    by (auto simp: bin_law_def CF_Xor_CN_def ConstantExpr_isZero_def builds_Some_iff isDivision_def)
  show "bin_law Eq (\<lambda>_. CF_Eq_CN B c) (ConstantExpr c) r"
  proof (cases "bitWidth c = 1")
    case True
    then have c: "apval c = 0 \<or> apval c = 1"
      using assms(1) by (auto dest!: wf_apint_in_width in_width_1_cases)
    have w: "getWidth r = 1" using assms(3) True by simp
    have "builds (bNot B r) 1 (\<lambda>\<sigma>. of_bool (0 = eval r \<sigma>))"
      by (rule builds_if_cong [OF Not [OF assms(2)]])
         (use w eval_bool_cases [OF _ assms(2)] in auto)
    with True c assms show ?thesis
      by (auto simp: bin_law_def CF_Eq_CN_def ConstantExpr_isTrue_def builds_Some_iff isDivision_def
          dest: eval_bool_cases)
  qed (use node [of Eq] in \<open>simp add: bin_law_def CF_Eq_CN_def isDivision_def\<close>)
  then show "bin_law Eq (\<lambda>_. SB_Eq_CN B c) (ConstantExpr c) r"
    by (simp add: bin_law_def CF_Eq_CN_def SB_Eq_CN_def)
qed

lemma commuted_law:
  assumes "bin_pre k l r" "k \<in> {Mul, And, Or, Xor, Eq}"
    and "\<And>c e. wf_apint c \<Longrightarrow> wf_expr e \<Longrightarrow> bitWidth c = getWidth e \<Longrightarrow> bin_law k (\<lambda>_. cn c) (ConstantExpr c) e"
    and "\<not> isConstantExpr l \<Longrightarrow> \<not> isConstantExpr r \<Longrightarrow> bin_law k nn l r"
  shows "bin_law k (Specialized_binary k cn (\<lambda>l c. cn c l) nn) l r"
proof (rule Specialized_law [OF assms(1)])
  fix c
  assume "r = ConstantExpr c" "\<not> isConstantExpr l"
  moreover have "sem_bin k w a b = sem_bin k w b a" for w a b
    using assms(2) by (auto simp: ac_simps)
  moreover have "\<not> isDivision k" using assms(2) by (auto simp: isDivision_def)
  ultimately show "bin_law k (\<lambda>l _. cn c l) l r"
    using assms(1) assms(3) [of c l] unfolding bin_law_def bin_pre_def by (auto simp only: simp_thms getWidth.simps eval.simps wf_expr.simps)
qed (use assms in \<open>auto simp: bin_pre_def\<close>)

lemma Specialized_Not_builds:
  assumes "wf_expr e"
  shows "builds (Specialized_Not (bNot B) e) (getWidth e) (eval (NotExpr e))"
  using assms Not [OF assms]
  by (cases e) (auto simp: Specialized_Not_def builds_Some_iff not_in_width dest: wf_apint_in_width)

lemma SB_Eq_law: "bin_pre Eq l r \<Longrightarrow> bin_law Eq (SB_Eq B) l r"
  unfolding SB_Eq_def
proof (rule commuted_law)
  assume "bin_pre Eq l r"
  then show "bin_law Eq (SB_Eq_NN B) l r"
    using Bin_law [of Eq l r]
    by (auto simp: SB_Eq_NN_def bin_law_def bin_pre_def ConstantExpr_create_def builds_Some_iff wf_apint_def in_width_def)
qed (auto intro: CN_laws)

lemma SB_Not_builds: "wf_expr e \<Longrightarrow> builds (SB_Not B e) (getWidth e) (eval (NotExpr e))"
proof (induction e rule: measure_induct_rule [of esize])
  case (less e)
  show ?case
  proof (cases "\<exists>l r. e = BinaryExpr Or l r")
    case True
    then obtain l r where e: "e = BinaryExpr Or l r" by blast
    obtain a b where a: "SB_Not B l = Some a" "wf_expr a" "getWidth a = getWidth l"
        "\<And>\<sigma>. env_ok \<sigma> \<Longrightarrow> eval a \<sigma> = eval (NotExpr l) \<sigma>"
      and b: "SB_Not B r = Some b" "wf_expr b" "getWidth b = getWidth r"
        "\<And>\<sigma>. env_ok \<sigma> \<Longrightarrow> eval b \<sigma> = eval (NotExpr r) \<sigma>"
      using less.IH [of l] less.IH [of r] less.prems by (auto simp: e builds_if_def)
    then have pre: "bin_pre And a b"
      using less.prems by (simp add: e bin_pre_def div_ok_def isDivision_def)
    have "bin_law And (forwarded And (bBin B And)) a b"
      by (rule forwarded_law [OF pre Bin_law [OF pre]])
    moreover have "eval a \<sigma> AND eval b \<sigma> = eval (NotExpr e) \<sigma>" if "env_ok \<sigma>" for \<sigma>
      using a(4) b(4) less.prems eval_in_width [OF that, of l] eval_in_width [OF that, of r] that
      by (auto simp: e de_morgan_width)
    ultimately show ?thesis
      using a b e by (auto simp: bin_law_def builds_if_def isDivision_def simp del: eval.simps)
  next
    case False
    then have "SB_Not B e = Specialized_Not (bNot B) e" by (cases e) (auto simp: Specialized_Not_def)
    then show ?thesis using Specialized_Not_builds [OF less.prems] by (simp only:)
  qed
qed

lemma SB_Ne_law: "bin_pre Ne l r \<Longrightarrow> bin_law Ne (SB_Ne B) l r"
proof -
  assume pre: "bin_pre Ne l r"
  then have "bin_law Eq (SB_Eq B) l r" by (intro SB_Eq_law) (simp add: bin_pre_def div_ok_def isDivision_def)
  then obtain e where e: "SB_Eq B l r = Some e" "wf_expr e" "getWidth e = 1"
      "\<And>\<sigma>. env_ok \<sigma> \<Longrightarrow> eval e \<sigma> = of_bool (eval l \<sigma> = eval r \<sigma>)"
    by (auto simp: bin_law_def builds_if_def isDivision_def)
  have "builds (SB_Not B e) 1 (bin_val Ne l r)"
    by (rule builds_if_cong [OF SB_Not_builds [OF e(2)]]) (use e in auto)
  with e(1) show "bin_law Ne (SB_Ne B) l r"
    by (simp add: bin_law_def SB_Ne_def isDivision_def)
qed

lemma swapped_law:
  assumes "bin_pre k l r" "(k, k') \<in> {(Ugt, Ult), (Uge, Ule), (Sgt, Slt), (Sge, Sle)}"
  shows "bin_law k (forwarded k (\<lambda>l r. forwarded k' (bBin B k') r l)) l r"
proof (rule forwarded_law [OF assms(1)])
  have pre: "bin_pre k' r l" using assms by (auto simp: bin_pre_def div_ok_def isDivision_def)
  have "bin_law k' (forwarded k' (bBin B k')) r l" by (rule forwarded_law [OF pre Bin_law [OF pre]])
  with assms show "bin_law k (\<lambda>l r. forwarded k' (bBin B k') r l) l r"
    by (auto simp: bin_law_def bin_pre_def isDivision_def)
qed

lemma SB_binary_law: "bin_pre k l r \<Longrightarrow> bin_law k (SB_binary B k) l r"
  by (cases k) (simp_all add: SB_Eq_law SB_Ne_law swapped_law forwarded_law Bin_law)

lemma SimplifyingExprBuilder_sound: "sound_builder (SimplifyingExprBuilder B)"
  unfolding SimplifyingExprBuilder_def by (rule specialized_sound [OF SB_binary_law SB_Not_builds])

end

context linear_base
begin

lemma CF_law: "bin_pre Add l r \<Longrightarrow> bin_law Add (\<lambda>l r. CF B (Builder_Add l r)) l r"
    "bin_pre Sub l r \<Longrightarrow> bin_law Sub (\<lambda>l r. CF B (Builder_Sub l r)) l r"
  using CF_returns [of "Builder_Add l r"] CF_returns [of "Builder_Sub l r"] CF_sound
  by (fastforce simp: bin_law_def bin_pre_def builds_if_def returns_def call_ok_def)+

lemma CF_binary_law: "bin_pre k l r \<Longrightarrow> bin_law k (CF_binary B k) l r"
  by (cases k) (simp_all add: CF_law commuted_def commuted_law CN_laws forwarded_law Bin_law)

lemma ConstantFoldingExprBuilder_sound: "sound_builder (ConstantFoldingExprBuilder B)"
  unfolding ConstantFoldingExprBuilder_def by (rule specialized_sound [OF CF_binary_law Specialized_Not_builds])

end

subsection \<open>The builders of the program\<close>

interpretation dflt: linear_base DefaultExprBuilder
  by unfold_locales
     (auto simp: DefaultExprBuilder_def builds_Some_iff simp del: sem_bin.simps)

interpretation folding: sound_builder "ConstantFoldingExprBuilder DefaultExprBuilder"
  by (rule dflt.ConstantFoldingExprBuilder_sound)

interpretation kleaver: sound_builder kleaver_builder
  unfolding kleaver_builder_def by (rule folding.SimplifyingExprBuilder_sound)

subsection \<open>Properties\<close>

text \<open>
  C23. The builder kleaver uses, simplifying over constant folding over the default builder, keeps
  the contract of the plain constructors: every binary method returns a well-formed expression of
  the operator's width with the operator's value. The divisor of a division must not be the
  constant zero.
\<close>

theorem kleaver_builder_binary:
  assumes "wf_expr l" "wf_expr r" "getWidth l = getWidth r" "div_ok k r"
  shows "\<exists>e. bBin kleaver_builder k l r = Some e \<and> wf_expr e \<and>
    getWidth e = (if isCmp k then 1 else getWidth l) \<and>
    (\<forall>\<sigma>. env_ok \<sigma> \<and> (isDivision k \<longrightarrow> eval r \<sigma> \<noteq> 0) \<longrightarrow>
      eval e \<sigma> = sem_bin k (getWidth l) (eval l \<sigma>) (eval r \<sigma>))"
  using kleaver.Bin [OF assms] by (auto simp: builds_if_def)

theorem kleaver_builder_binary_witness:
  "\<exists>e. bBin kleaver_builder Ne (sample_read 0) (sample_read 1) = Some e \<and> getWidth e = 1 \<and>
     eval e sample_env = 1"
proof -
  obtain e where "bBin kleaver_builder Ne (sample_read 0) (sample_read 1) = Some e"
    "getWidth e = (if isCmp Ne then 1 else getWidth (sample_read 0))"
    "\<forall>\<sigma>. env_ok \<sigma> \<and> (isDivision Ne \<longrightarrow> eval (sample_read 1) \<sigma> \<noteq> 0) \<longrightarrow>
      eval e \<sigma> = sem_bin Ne (getWidth (sample_read 0)) (eval (sample_read 0) \<sigma>) (eval (sample_read 1) \<sigma>)"
    using kleaver_builder_binary [of "sample_read 0" "sample_read 1" Ne] by (auto simp: div_ok_def)
  then show ?thesis
    by (auto simp: isDivision_def)
qed

text \<open>
  C33. The reassociation of sums and differences in \<open>ConstantFoldingBuilder\<close>, which calls itself
  through the virtual methods, ends over the default builder: every call on well-formed operands
  of one width returns, and the result has at most one node more than the operands together.
\<close>

theorem constant_folding_returns:
  assumes "wf_expr l" "wf_expr r" "getWidth l = getWidth r"
  shows "(\<exists>y. CF DefaultExprBuilder (Builder_Add l r) = Some y \<and> esize y \<le> esize l + esize r + 1) \<and>
    (\<exists>y. CF DefaultExprBuilder (Builder_Sub l r) = Some y \<and> esize y \<le> esize l + esize r + 1)"
  using dflt.CF_returns [of "Builder_Add l r"] dflt.CF_returns [of "Builder_Sub l r"] assms
  by (auto simp: returns_def)

theorem constant_folding_returns_witness:
  "\<exists>y. CF DefaultExprBuilder (Builder_Sub (sample_read 0) (BinaryExpr Sub (sample_read 1) (sample_read 2))) = Some y \<and>
     esize y \<le> 8"
  using constant_folding_returns [of "sample_read 0" "BinaryExpr Sub (sample_read 1) (sample_read 2)"]
  by (auto simp: sample_read_def wf_apint_def in_width_def)

text \<open>
  Reads and negations of the builder stack: a read that skips the writes whose index the
  builder's own equality refutes has the value of the full read, and the negation that distributes
  over disjunctions has the value of the negation.
\<close>

theorem kleaver_builder_read_not:
  assumes "wf_expr (ReadExpr a us i)" "wf_expr x"
  shows "(\<exists>e. bRead kleaver_builder a us i = Some e \<and> wf_expr e \<and> getWidth e = arrRange a \<and>
      (\<forall>\<sigma>. env_ok \<sigma> \<longrightarrow> eval e \<sigma> = eval (ReadExpr a us i) \<sigma>)) \<and>
    (\<exists>e. bNot kleaver_builder x = Some e \<and> wf_expr e \<and> getWidth e = getWidth x \<and>
      (\<forall>\<sigma>. env_ok \<sigma> \<longrightarrow> eval e \<sigma> = 2 ^ getWidth x - 1 - eval x \<sigma>))"
  using kleaver.Read [OF assms(1)] kleaver.Not [OF assms(2)] by (simp add: builds_if_def)

theorem kleaver_builder_read_not_witness:
  "(\<exists>e. bRead kleaver_builder sample_array (UpdateNode NoUpdates (ConstantExpr (APInt 32 1)) (sample_read 3))
       (ConstantExpr (APInt 32 2)) = Some e \<and> eval e sample_env = 202) \<and>
   (\<exists>e. bNot kleaver_builder (BinaryExpr Or (sample_read 0) (sample_read 0)) = Some e \<and> eval e sample_env = 55)"
  using kleaver_builder_read_not [of sample_array "UpdateNode NoUpdates (ConstantExpr (APInt 32 1)) (sample_read 3)"
      "ConstantExpr (APInt 32 2)" "BinaryExpr Or (sample_read 0) (sample_read 0)"] sample_initial [of 2]
  by (auto simp: wf_apint_def in_width_def)

end
