(* ===== verification/Expr_NoDiv.thy ===== *)
theory Expr_NoDiv
  imports Expr_Rebuild
begin

text \<open>
  The constructors introduce no division and no array: an expression built from expressions without
  division nodes that read the arrays of a set \<open>A\<close> has none and reads no other. The visitors that rewrite constraints rebuild nodes, and a rebuilt division by
  a constant zero fails, so the constraint manager keeps this as an invariant. The set
  \<open>N\<close> has the expressions that may stand under a node that prevents optimisation.
\<close>

primrec pure_in :: "expr set \<Rightarrow> array set \<Rightarrow> expr \<Rightarrow> bool" and pure_u :: "expr set \<Rightarrow> array set \<Rightarrow> ulist \<Rightarrow> bool" where
  "pure_in N A (ConstantExpr _) \<longleftrightarrow> True"
| "pure_in N A (NotOptimizedExpr e) \<longleftrightarrow> e \<in> N \<and> pure_in N A e"
| "pure_in N A (ReadExpr a us i) \<longleftrightarrow> a \<in> A \<and> pure_u N A us \<and> pure_in N A i"
| "pure_in N A (SelectExpr c t f) \<longleftrightarrow> pure_in N A c \<and> pure_in N A t \<and> pure_in N A f"
| "pure_in N A (ConcatExpr l r) \<longleftrightarrow> pure_in N A l \<and> pure_in N A r"
| "pure_in N A (ExtractExpr e _ _) \<longleftrightarrow> pure_in N A e"
| "pure_in N A (ZExtExpr e _) \<longleftrightarrow> pure_in N A e"
| "pure_in N A (SExtExpr e _) \<longleftrightarrow> pure_in N A e"
| "pure_in N A (NotExpr e) \<longleftrightarrow> pure_in N A e"
| "pure_in N A (BinaryExpr k l r) \<longleftrightarrow> \<not> isDivision k \<and> pure_in N A l \<and> pure_in N A r"
| "pure_u N A NoUpdates \<longleftrightarrow> True"
| "pure_u N A (UpdateNode n i v) \<longleftrightarrow> pure_u N A n \<and> pure_in N A i \<and> pure_in N A v"

abbreviation clean :: "array set \<Rightarrow> expr \<Rightarrow> bool" where
  "clean \<equiv> pure_in UNIV"

abbreviation clean_u :: "array set \<Rightarrow> ulist \<Rightarrow> bool" where
  "clean_u \<equiv> pure_u UNIV"

definition nd_in :: "expr set \<Rightarrow> array set \<Rightarrow> expr option \<Rightarrow> bool" where
  "nd_in N A r \<longleftrightarrow> (\<forall>x. r = Some x \<longrightarrow> pure_in N A x)"

abbreviation nd :: "array set \<Rightarrow> expr option \<Rightarrow> bool" where
  "nd \<equiv> nd_in UNIV"

lemma nd_simps [simp]: "nd_in N A None" "nd_in N A (Some x) \<longleftrightarrow> pure_in N A x" "nd_in N A (map_option ConstantExpr c)"
  by (auto simp: nd_in_def)

lemma nd_bind: "nd_in N A a \<Longrightarrow> (\<And>x. pure_in N A x \<Longrightarrow> nd_in N A (f x)) \<Longrightarrow> nd_in N A (Option.bind a f)"
  by (cases a) (auto simp: nd_in_def)

lemma nd_bind_const: "(\<And>x. nd_in N A (f x)) \<Longrightarrow> nd_in N A (Option.bind (a :: apint option) f)"
  by (cases a) (auto simp: nd_in_def)

lemma not_division [simp]:
  "\<not> isDivision Add" "\<not> isDivision Sub" "\<not> isDivision Mul" "\<not> isDivision And" "\<not> isDivision Or" "\<not> isDivision Xor"
  "\<not> isDivision Shl" "\<not> isDivision LShr" "\<not> isDivision AShr" "\<not> isDivision Eq" "\<not> isDivision Ne"
  "\<not> isDivision Ult" "\<not> isDivision Ule" "\<not> isDivision Slt" "\<not> isDivision Sle"
  by (simp_all add: isDivision_def)

lemma BCREATE_R_nd:
  assumes "\<And>c. nd_in N A (pl l c)" "\<And>c. nd_in N A (pr c r)" "nd_in N A (cre l r)"
  shows "nd_in N A (BCREATE_R k pl pr cre l r)"
  using assms unfolding BCREATE_R_def by (cases l; cases r; auto)

lemma BCREATE_R_nd_cases:
  assumes "\<And>c. getWidth l = getWidth r \<Longrightarrow> \<not> isConstantExpr l \<Longrightarrow> ConstantExpr c = r \<Longrightarrow> nd_in N A (pl l c)"
    and "\<And>c. getWidth l = getWidth r \<Longrightarrow> ConstantExpr c = l \<Longrightarrow> \<not> isConstantExpr r \<Longrightarrow> nd_in N A (pr c r)"
    and "getWidth l = getWidth r \<Longrightarrow> \<not> isConstantExpr l \<Longrightarrow> \<not> isConstantExpr r \<Longrightarrow> nd_in N A (cre l r)"
  shows "nd_in N A (BCREATE_R k pl pr cre l r)"
proof -
  have "pure_in N A x" if "BCREATE_R k pl pr cre l r = Some x" for x
    using that by (cases rule: BCREATE_R_cases) (use assms in \<open>auto simp: nd_in_def\<close>)
  then show ?thesis by (simp add: nd_in_def)
qed

lemma BCREATE_nd: "nd_in N A (cre l r) \<Longrightarrow> nd_in N A (BCREATE k cre l r)"
  unfolding BCREATE_def by (cases l; cases r; auto)

lemma And_Or_nd:
  assumes "pure_in N A l" "pure_in N A r"
  shows "nd_in N A (And_create l r)" "nd_in N A (Or_create l r)"
  unfolding And_create_def Or_create_def
  by (rule BCREATE_R_nd; use assms in \<open>auto simp: AndExpr_createPartial_def AndExpr_createPartialR_def
      AndExpr_create_def OrExpr_createPartial_def OrExpr_createPartialR_def OrExpr_create_def\<close>)+

lemma EqExpr_create_nd: "pure_in N A l \<Longrightarrow> pure_in N A r \<Longrightarrow> nd_in N A (EqExpr_create l r)"
  by (simp add: EqExpr_create_def)

lemma Eq_create_const_nd:
  assumes "pure_in N A e" "\<And>c. nd_in N A (EqExpr_createPartialR c e)"
  shows "nd_in N A (Eq_create e (ConstantExpr z))"
proof -
  have "nd_in N A (EqExpr_createPartialR c (ConstantExpr z))" for c
    by (simp add: EqExpr_createPartialR.simps [of c] EqExpr_create_def)
  then show ?thesis
    unfolding Eq_create.simps [of e]
    by (intro BCREATE_R_nd) (use assms in \<open>simp_all add: EqExpr_createPartial.simps EqExpr_create_nd\<close>)
qed

lemma createIsZero_nd_if:
  assumes "pure_in N A e" "\<And>c. nd_in N A (EqExpr_createPartialR c e)"
  shows "nd_in N A (createIsZero e)"
  unfolding createIsZero.simps [of e] by (rule nd_bind_const) (rule Eq_create_const_nd [OF assms])

lemma EqExpr_createPartialR_nd: "pure_in N A r \<Longrightarrow> nd_in N A (EqExpr_createPartialR cl r)"
proof (induction r arbitrary: cl rule: measure_induct_rule [of esize])
  case (less r)
  have eq: "nd_in N A (EqExpr_create (ConstantExpr cl) r)" using less.prems by (simp add: EqExpr_create_nd)
  have IH: "nd_in N A (EqExpr_createPartialR c x)" if "esize x < esize r" "pure_in N A x" for c x
    by (rule less.IH [OF that])
  show ?case
  proof (cases r)
    case (SExtExpr src w)
    have "nd_in N A (Eq_create src (ConstantExpr z))" for z
      by (rule Eq_create_const_nd) (use SExtExpr less.prems IH in auto)
    then show ?thesis
      using eq less.prems SExtExpr by (simp add: EqExpr_createPartialR.simps [of cl] Let_def)
  next
    case (ZExtExpr src w)
    have "nd_in N A (Eq_create src (ConstantExpr z))" for z
      by (rule Eq_create_const_nd) (use ZExtExpr less.prems IH in auto)
    then show ?thesis
      using eq less.prems ZExtExpr by (simp add: EqExpr_createPartialR.simps [of cl] Let_def)
  next
    case (BinaryExpr k a b)
    have z: "nd_in N A (createIsZero a)" "nd_in N A (createIsZero b)"
      by (rule createIsZero_nd_if; use BinaryExpr less.prems IH in simp)+
    have ab: "nd_in N A (do { x \<leftarrow> createIsZero a; y \<leftarrow> createIsZero b; And_create x y })"
      by (intro nd_bind z And_Or_nd)
    have d: "nd_in N A (Option.bind s (\<lambda>d. EqExpr_createPartialR d b))" for s
      by (rule nd_bind_const) (use BinaryExpr less.prems IH in simp)
    have b: "pure_in N A b" using BinaryExpr less.prems by simp
    show ?thesis
      unfolding EqExpr_createPartialR.simps [of cl] BinaryExpr
      by (cases k; cases a; insert eq [unfolded BinaryExpr] ab [unfolded] d b less.prems [unfolded BinaryExpr]; simp)
  qed (use eq less.prems in \<open>simp_all add: EqExpr_createPartialR.simps [of cl] ConstArrayOpt_def\<close>)
qed

lemma Eq_nd:
  assumes "pure_in N A l" "pure_in N A r"
  shows "nd_in N A (Eq_create l r)" "nd_in N A (createIsZero l)" "nd_in N A (EqExpr_createPartial l c)"
  using EqExpr_createPartialR_nd [OF assms(1)] EqExpr_createPartialR_nd [OF assms(2)] assms
  by (auto simp: Eq_create.simps [of l] EqExpr_createPartial.simps intro!: BCREATE_R_nd createIsZero_nd_if EqExpr_create_nd)

lemma nd_bind_result:
  assumes "nd_in N A a" "\<And>x. a = Some x \<Longrightarrow> pure_in N A x \<Longrightarrow> nd_in N A (f x)"
  shows "nd_in N A (Option.bind a f)"
  using assms by (cases a) (auto simp: nd_in_def)

lemma Xor_Mul_nd:
  assumes "pure_in N A l" "pure_in N A r"
  shows "nd_in N A (XorExpr_createPartialR c r)" "nd_in N A (Xor_create l r)" "nd_in N A (Mul_create l r)"
proof -
  have x: "nd_in N A (XorExpr_createPartialR c e)" if "pure_in N A e" for c e
    using that Eq_nd(3) [of N A e e] by (auto simp: XorExpr_createPartialR_def intro!: nd_bind_const)
  show "nd_in N A (XorExpr_createPartialR c r)" by (rule x [OF assms(2)])
  show "nd_in N A (Xor_create l r)"
    unfolding Xor_create_def
    by (rule BCREATE_R_nd) (use assms x in \<open>simp_all add: XorExpr_createPartial_def XorExpr_create_def\<close>)
  show "nd_in N A (Mul_create l r)"
    unfolding Mul_create_def
    by (rule BCREATE_R_nd) (use assms in \<open>simp_all add: MulExpr_createPartial_def MulExpr_createPartialR_def
        MulExpr_create_def AndExpr_createPartialR_def AndExpr_createPartial_def\<close>)
qed

lemma lin_group_nd:
  shows "pure_in N A l1 \<Longrightarrow> pure_in N A r1 \<Longrightarrow> nd_in N A (Add_create l1 r1)"
    and "pure_in N A l2 \<Longrightarrow> pure_in N A r2 \<Longrightarrow> nd_in N A (Sub_create l2 r2)"
    and "pure_in N A l3 \<Longrightarrow> nd_in N A (AddExpr_createPartial l3 c3)"
    and "pure_in N A r4 \<Longrightarrow> nd_in N A (AddExpr_createPartialR c4 r4)"
    and "pure_in N A l5 \<Longrightarrow> pure_in N A r5 \<Longrightarrow> nd_in N A (AddExpr_create l5 r5)"
    and "pure_in N A l6 \<Longrightarrow> nd_in N A (SubExpr_createPartial l6 c6)"
    and "pure_in N A r7 \<Longrightarrow> nd_in N A (SubExpr_createPartialR c7 r7)"
    and "pure_in N A l8 \<Longrightarrow> pure_in N A r8 \<Longrightarrow> nd_in N A (SubExpr_create l8 r8)"
proof (induction l1 r1 and l2 r2 and l3 c3 and c4 r4 and l5 r5 and l6 c6 and c7 r7 and l8 r8
    rule: Add_create_Sub_create_AddExpr_createPartial_AddExpr_createPartialR_AddExpr_create_SubExpr_createPartial_SubExpr_createPartialR_SubExpr_create.induct)
  case (1 l r)
  have "nd_in N A (BCREATE_R Add AddExpr_createPartial AddExpr_createPartialR AddExpr_create l r)"
    by (rule BCREATE_R_nd_cases)
       (use "1.IH" "1.prems" in \<open>blast+\<close>)
  then show ?case by (simp add: Add_create.simps [of l r])
next
  case (2 l r)
  have "nd_in N A (BCREATE_R Sub SubExpr_createPartial SubExpr_createPartialR SubExpr_create l r)"
    by (rule BCREATE_R_nd_cases)
       (use "2.IH" "2.prems" in \<open>blast+\<close>)
  then show ?case by (simp add: Sub_create.simps [of l r])
next
  case (3 l cr)
  then show ?case by (simp add: AddExpr_createPartial.simps)
next
  case (4 cl r)
  note nd = "4.prems" and step = AddExpr_createPartialR.simps [of cl r]
  consider (bool) "bitWidth cl = 1"
    | (zero) "bitWidth cl \<noteq> 1" "ConstantExpr_isZero cl"
    | (addc) k c where "bitWidth cl \<noteq> 1" "\<not> ConstantExpr_isZero cl" "const_left Add r = Some (k, c)"
    | (subc) k c where "bitWidth cl \<noteq> 1" "\<not> ConstantExpr_isZero cl" "const_left Add r = None" "const_left Sub r = Some (k, c)"
    | (other) "bitWidth cl \<noteq> 1" "\<not> ConstantExpr_isZero cl" "const_left Add r = None" "const_left Sub r = None"
    by (cases "const_left Add r"; cases "const_left Sub r") fastforce+
  then show ?case
  proof cases
    case addc
    then have "AddExpr_createPartialR cl r =
        do { y \<leftarrow> Add_create (ConstantExpr cl) (ConstantExpr k); Add_create y c }"
      unfolding step by (simp del: const_left_eq_Some)
    moreover have "nd_in N A \<dots>"
      by (rule nd_bind_result [OF "4.IH"(3) [OF addc refl] "4.IH"(4) [OF addc refl]]) (use nd addc in auto)
    ultimately show ?thesis by simp
  next
    case subc
    then have "AddExpr_createPartialR cl r =
        do { y \<leftarrow> Add_create (ConstantExpr cl) (ConstantExpr k); Sub_create y c }"
      unfolding step by (simp del: const_left_eq_Some)
    moreover have "nd_in N A \<dots>"
      by (rule nd_bind_result [OF "4.IH"(1) [OF subc refl] "4.IH"(2) [OF subc refl]]) (use nd subc in auto)
    ultimately show ?thesis by simp
  qed (use nd Xor_Mul_nd(1) [OF nd nd] in \<open>simp_all add: step\<close>)
next
  case (5 l r)
  note nd = "5.prems" and step = AddExpr_create.simps [of l r]
  show ?case
  proof (cases "getWidth l = 1")
    case True
    then show ?thesis using nd by (simp add: step XorExpr_create_def)
  next
    case False
    then have w: "getWidth l \<noteq> 1" by auto
    show ?thesis
    proof (cases rule: const_sides [where l = l and r = r])
      case (addl k a)
      with w have "AddExpr_create l r = do { y \<leftarrow> Add_create a r; Add_create (ConstantExpr k) y }"
        unfolding step by (simp del: const_left_eq_Some)
      moreover have "nd_in N A \<dots>"
        by (rule nd_bind_result [OF "5.IH"(7) [OF w addl refl] "5.IH"(8) [OF w addl refl]]) (use nd addl in auto)
      ultimately show ?thesis by simp
    next
      case (subl k a)
      with w have "AddExpr_create l r = do { y \<leftarrow> Sub_create r a; Add_create (ConstantExpr k) y }"
        unfolding step by (simp del: const_left_eq_Some)
      moreover have "nd_in N A \<dots>"
        by (rule nd_bind_result [OF "5.IH"(5) [OF w subl refl] "5.IH"(6) [OF w subl refl]]) (use nd subl in auto)
      ultimately show ?thesis by simp
    next
      case (addr k b)
      with w have "AddExpr_create l r = do { y \<leftarrow> Add_create l b; Add_create (ConstantExpr k) y }"
        unfolding step by (simp del: const_left_eq_Some)
      moreover have "nd_in N A \<dots>"
        by (rule nd_bind_result [OF "5.IH"(3) [OF w addr refl] "5.IH"(4) [OF w addr refl]]) (use nd addr in auto)
      ultimately show ?thesis by simp
    next
      case (subr k b)
      with w have "AddExpr_create l r = do { y \<leftarrow> Sub_create l b; Add_create (ConstantExpr k) y }"
        unfolding step by (simp del: const_left_eq_Some)
      moreover have "nd_in N A \<dots>"
        by (rule nd_bind_result [OF "5.IH"(1) [OF w subr refl] "5.IH"(2) [OF w subr refl]]) (use nd subr in auto)
      ultimately show ?thesis by simp
    next
      case none
      then show ?thesis using w nd by (simp add: step)
    qed
  qed
next
  case (6 l cr)
  then show ?case by (simp add: SubExpr_createPartial.simps)
next
  case (7 cl r)
  note nd = "7.prems" and step = SubExpr_createPartialR.simps [of cl r]
  consider (bool) "bitWidth cl = 1"
    | (addc) k c where "bitWidth cl \<noteq> 1" "const_left Add r = Some (k, c)"
    | (subc) k c where "bitWidth cl \<noteq> 1" "const_left Add r = None" "const_left Sub r = Some (k, c)"
    | (other) "bitWidth cl \<noteq> 1" "const_left Add r = None" "const_left Sub r = None"
    by (cases "const_left Add r"; cases "const_left Sub r") fastforce+
  then show ?case
  proof cases
    case addc
    then have "SubExpr_createPartialR cl r =
        do { y \<leftarrow> Sub_create (ConstantExpr cl) (ConstantExpr k); Sub_create y c }"
      unfolding step by (simp del: const_left_eq_Some)
    moreover have "nd_in N A \<dots>"
      by (rule nd_bind_result [OF "7.IH"(3) [OF addc refl] "7.IH"(4) [OF addc refl]]) (use nd addc in auto)
    ultimately show ?thesis by simp
  next
    case subc
    then have "SubExpr_createPartialR cl r =
        do { y \<leftarrow> Sub_create (ConstantExpr cl) (ConstantExpr k); Add_create y c }"
      unfolding step by (simp del: const_left_eq_Some)
    moreover have "nd_in N A \<dots>"
      by (rule nd_bind_result [OF "7.IH"(1) [OF subc refl] "7.IH"(2) [OF subc refl]]) (use nd subc in auto)
    ultimately show ?thesis by simp
  qed (use nd Xor_Mul_nd(1) [OF nd nd] in \<open>simp_all add: step\<close>)
next
  case (8 l r)
  note nd = "8.prems" and step = SubExpr_create.simps [of l r]
  show ?case
  proof (cases "getWidth l = 1 \<or> l = r")
    case True
    then show ?thesis using nd by (auto simp: step XorExpr_create_def)
  next
    case False
    then have w: "getWidth l \<noteq> 1" "l \<noteq> r" by auto
    show ?thesis
    proof (cases rule: const_sides [where l = l and r = r])
      case (addl k a)
      with w have "SubExpr_create l r = do { y \<leftarrow> Sub_create a r; Add_create (ConstantExpr k) y }"
        unfolding step by (simp del: const_left_eq_Some)
      moreover have "nd_in N A \<dots>"
        by (rule nd_bind_result [OF "8.IH"(7) [OF w addl refl] "8.IH"(8) [OF w addl refl]]) (use nd addl in auto)
      ultimately show ?thesis by simp
    next
      case (subl k a)
      with w have "SubExpr_create l r = do { y \<leftarrow> Add_create a r; Sub_create (ConstantExpr k) y }"
        unfolding step by (simp del: const_left_eq_Some)
      moreover have "nd_in N A \<dots>"
        by (rule nd_bind_result [OF "8.IH"(5) [OF w subl refl] "8.IH"(6) [OF w subl refl]]) (use nd subl in auto)
      ultimately show ?thesis by simp
    next
      case (addr k b)
      with w have "SubExpr_create l r = do { y \<leftarrow> Sub_create l b; Sub_create y (ConstantExpr k) }"
        unfolding step by (simp del: const_left_eq_Some)
      moreover have "nd_in N A \<dots>"
        by (rule nd_bind_result [OF "8.IH"(3) [OF w addr refl] "8.IH"(4) [OF w addr refl]]) (use nd addr in auto)
      ultimately show ?thesis by simp
    next
      case (subr k b)
      with w have "SubExpr_create l r = do { y \<leftarrow> Add_create l b; Sub_create y (ConstantExpr k) }"
        unfolding step by (simp del: const_left_eq_Some)
      moreover have "nd_in N A \<dots>"
        by (rule nd_bind_result [OF "8.IH"(1) [OF w subr refl] "8.IH"(2) [OF w subr refl]]) (use nd subr in auto)
      ultimately show ?thesis by simp
    next
      case none
      then show ?thesis using w nd by (simp add: step)
    qed
  qed
qed

lemma Extract_nd: "pure_in N A e \<Longrightarrow> nd_in N A (Extract_create e off w)"
  and Concat_nd: "pure_in N A l \<Longrightarrow> pure_in N A r \<Longrightarrow> nd_in N A (Concat_create l r)"
proof -
  have "pure_in N A l \<Longrightarrow> pure_in N A r \<Longrightarrow> nd_in N A (Concat_create l r)"
    and "pure_in N A e \<Longrightarrow> nd_in N A (Extract_create e off w)" for l r e off w
  proof (induction l r and e off w rule: Concat_create_Extract_create.induct)
    case (1 l r)
    show ?case
    proof (cases "\<exists>e ol wl oo wr. l = ExtractExpr e ol wl \<and> r = ExtractExpr e oo wr \<and> oo + wr = ol")
      case True
      then obtain e ol wl oo wr where x: "l = ExtractExpr e ol wl" "r = ExtractExpr e oo wr" "oo + wr = ol" by blast
      have "nd_in N A (Extract_create e oo (getWidth l + getWidth r))"
        by (rule "1.IH") (use x "1.prems" in auto)
      with x show ?thesis by (simp add: Concat_create.simps)
    next
      case False
      then have "Concat_create l r \<in> {Some (ConcatExpr l r), Some (ConstantExpr (ConstantExpr_Concat (the_const l) (the_const r)))}"
        by (auto simp: Concat_create.simps [of l r] split: expr.split)
      then show ?thesis using "1.prems" by auto
    qed
  next
    case (2 e off w)
    show ?case
    proof (cases e)
      case (ConcatExpr l r)
      show ?thesis
        using "2.IH" "2.prems" ConcatExpr
        by (auto simp: Extract_create.simps [of "ConcatExpr l r"] intro!: nd_bind_result)
    qed (use "2.prems" in \<open>simp_all add: Extract_create.simps\<close>)
  qed
  then show "pure_in N A e \<Longrightarrow> nd_in N A (Extract_create e off w)"
    and "pure_in N A l \<Longrightarrow> pure_in N A r \<Longrightarrow> nd_in N A (Concat_create l r)" by blast+
qed

lemma casts_nd: "pure_in N A e \<Longrightarrow> nd_in N A (ZExt_create e w)" "pure_in N A e \<Longrightarrow> nd_in N A (SExt_create e w)"
  "pure_in N A e \<Longrightarrow> nd_in N A (Not_create e)" "pure_in N A e \<Longrightarrow> e \<in> N \<Longrightarrow> nd_in N A (NotOptimized_create e)"
  using Extract_nd [of N A e 0 w]
  by (cases e; simp add: ZExt_create_def SExt_create_def Not_create_def NotOptimized_create_def)+

lemma Select_nd:
  assumes "pure_in N A c" "pure_in N A t" "pure_in N A f"
  shows "nd_in N A (Select_create c t f)"
proof -
  have z: "nd_in N A (do { z \<leftarrow> createIsZero c; And_create z x })" "nd_in N A (do { z \<leftarrow> createIsZero c; Or_create z x })"
    if "pure_in N A x" for x
    using that by (auto intro!: nd_bind_result Eq_nd(2) [OF assms(1,1)] And_Or_nd)
  have f: "nd_in N A (case f of ConstantExpr CE \<Rightarrow> if ConstantExpr_isTrue CE then do { z \<leftarrow> createIsZero c; Or_create z t }
      else And_create c t | _ \<Rightarrow> Some (SelectExpr c t f))"
    using assms z [OF assms(2)] And_Or_nd [OF assms(1,2)]
    by (cases "isConstantExpr f") (auto simp: isConstantExpr_iff case_not_constant)
  have t: "nd_in N A (case t of ConstantExpr CE \<Rightarrow> if ConstantExpr_isTrue CE then Or_create c f
      else do { z \<leftarrow> createIsZero c; And_create z f } | _ \<Rightarrow> g)" if "nd_in N A g" for g
    using assms z [OF assms(3)] And_Or_nd [OF assms(1,3)] that
    by (cases "isConstantExpr t") (auto simp: isConstantExpr_iff case_not_constant)
  show ?thesis
    using assms t [OF f]
    unfolding Select_create_def by (cases "isConstantExpr c") (auto simp: isConstantExpr_iff case_not_constant)
qed

lemma Read_nd:
  assumes "a \<in> A" "pure_u N A us" "pure_in N A i"
  shows "nd_in N A (Read_create a us i)"
proof -
  have "pure_in N A v" if "Read_rollback us i = Some (Inl v)" for v
    using assms(2) that
  proof (induction us i rule: Read_rollback.induct)
    case (2 n ui uv index)
    then obtain cond where "Eq_create index ui = Some cond" by (auto simp: bind_eq_Some_conv)
    with 2 show ?case by (cases cond) (auto split: if_splits)
  qed simp
  with assms show ?thesis
    unfolding Read_create_def
    by (cases "Read_rollback us i") (auto split: sum.split expr.split)
qed

lemma Binary_nd:
  assumes "pure_in N A l" "pure_in N A r" "\<not> isDivision k"
  shows "nd_in N A (Binary_create k l r)"
proof -
  note z = Eq_nd(2) [OF assms(1,1)] Eq_nd(2) [OF assms(2,2)]
  note parts = BCREATE_nd nd_bind_result And_Or_nd z
  have "nd_in N A (ShlExpr_create l r)" "nd_in N A (LShrExpr_create l r)" "nd_in N A (AShrExpr_create l r)"
    using assms by (auto simp: ShlExpr_create_def LShrExpr_create_def AShrExpr_create_def intro!: parts)
  moreover have "nd_in N A (UltExpr_create x y)" "nd_in N A (UleExpr_create x y)" "nd_in N A (SltExpr_create x y)" "nd_in N A (SleExpr_create x y)"
    if "x = l \<and> y = r \<or> x = r \<and> y = l" for x y
    using assms that by (auto simp: UltExpr_create_def
        UleExpr_create_def SltExpr_create_def SleExpr_create_def intro!: parts)
  moreover have "nd_in N A (Ne_create l r)"
    unfolding Ne_create_def using assms Eq_nd(1)
    by (intro nd_bind_const nd_bind_result) auto
  ultimately show ?thesis
    using assms lin_group_nd(1,2) [of N A l r] Xor_Mul_nd [of N A l r] And_Or_nd [of N A l r] Eq_nd [of N A l r]
    by (cases k) (auto simp: isDivision_def Shl_create_def LShr_create_def AShr_create_def Ult_create_def
        Ule_create_def Slt_create_def Sle_create_def Ugt_create_def Uge_create_def Sgt_create_def Sge_create_def
        intro!: BCREATE_nd)
qed

lemma rebuild_nd:
  assumes "clean A e" "list_all (clean A) ks"
  shows "nd A (rebuild e ks)"
  using assms
  by (cases "(e, ks)" rule: rebuild.cases)
     (auto simp: casts_nd Select_nd Read_nd Binary_nd Concat_nd Extract_nd)

end
