(* ===== verification/Visitor.thy ===== *)
theory Visitor
  imports Expr_NoDiv
begin

text \<open>
  The traversal of \<open>ExprVisitor\<close> (\<^verbatim>\<open>klee/lib/Expr/ExprVisitor.cpp\<close>) over the methods a subclass
  overrides, for visitors that are not recursive and whose methods do not visit themselves. The
  map of visited expressions is modelled too: a traversal with it returns what the traversal
  without it returns. The locale \<open>sound_visitor\<close> is the contract of a visitor that rewritten
  within a set of array contents.
\<close>

subsection \<open>The traversal\<close>

datatype action = SkipChildren | DoChildren | ChangeTo expr

text \<open>
  The virtual methods: \<open>visitExpr\<close>, the method of the expression's kind, and \<open>visitExprPost\<close>, as
  functions of the node. A method that builds an expression may fail an assertion. The recursive mode
  of the traversal is in \<open>Simplify_Expr\<close>, the evaluator's methods, which visit themselves, in \<open>Evaluator\<close>.
\<close>

record visitor =
  vExpr :: "expr \<Rightarrow> action"
  vKind :: "expr \<Rightarrow> action option"
  vPost :: "expr \<Rightarrow> action"

text \<open>The defaults of the class.\<close>

definition ExprVisitor :: visitor where
  "ExprVisitor = \<lparr>vExpr = (\<lambda>_. DoChildren), vKind = (\<lambda>_. Some DoChildren), vPost = (\<lambda>_. SkipChildren)\<rparr>"

text \<open>The end of the \<open>DoChildren\<close> case: rebuild when a kid changed, then \<open>visitExprPost\<close>.\<close>

definition finish :: "visitor \<Rightarrow> expr \<Rightarrow> expr list \<Rightarrow> expr option" where
  "finish v e ks =
     do { e' \<leftarrow> (if ks \<noteq> kids e then rebuild e ks else Some e);
          Some (if isConstantExpr e' then e'
                else (case vPost v e' of ChangeTo a \<Rightarrow> a | _ \<Rightarrow> e')) }"

lemma kids_esize: "k \<in> set (kids e) \<Longrightarrow> esize k < esize e"
  by (cases e) auto

function visitActual :: "visitor \<Rightarrow> expr \<Rightarrow> expr option" where
  "visitActual v e =
     (if isConstantExpr e then Some e
      else (case vExpr v e of
          SkipChildren \<Rightarrow> Some e
        | ChangeTo a \<Rightarrow> Some a
        | DoChildren \<Rightarrow>
            do { res \<leftarrow> vKind v e;
                 (case res of
                    SkipChildren \<Rightarrow> Some e
                  | ChangeTo a \<Rightarrow> Some a
                  | DoChildren \<Rightarrow> do { ks \<leftarrow> those (map (visitActual v) (kids e)); finish v e ks }) }))"
  by pat_completeness auto
termination by (relation "measure (esize \<circ> snd)") (auto simp: kids_esize)

declare visitActual.simps [simp del]

subsection \<open>The map of visited expressions\<close>

text \<open>
  \<open>visit\<close> with its map: a constant is not looked up, another expression is visited once and its
  result inserted.
\<close>

type_synonym visited = "expr \<rightharpoonup> expr"

fun visit_kids :: "(expr \<Rightarrow> visited \<Rightarrow> (expr \<times> visited) option) \<Rightarrow> expr list \<Rightarrow> visited \<Rightarrow> (expr list \<times> visited) option" where
  "visit_kids f [] m = Some ([], m)"
| "visit_kids f (k # ks) m =
     do { r \<leftarrow> f k m; rs \<leftarrow> visit_kids f ks (snd r); Some (fst r # fst rs, snd rs) }"

lemma visit_kids_cong [fundef_cong]:
  assumes "ks = ks'" "m = m'" "\<And>k m. k \<in> set ks' \<Longrightarrow> f k m = g k m"
  shows "visit_kids f ks m = visit_kids g ks' m'"
  using assms(3) unfolding assms(1,2)
proof (induction ks' arbitrary: m')
  case (Cons k ks)
  then have "f k m' = g k m'" "\<And>m. visit_kids f ks m = visit_kids g ks m" by auto
  then show ?case by simp
qed simp

function visit :: "visitor \<Rightarrow> expr \<Rightarrow> visited \<Rightarrow> (expr \<times> visited) option" where
  "visit v e m =
     (if isConstantExpr e then Some (e, m)
      else (case m e of
          Some r \<Rightarrow> Some (r, m)
        | None \<Rightarrow>
            do { p \<leftarrow> (case vExpr v e of
                     SkipChildren \<Rightarrow> Some (e, m)
                   | ChangeTo a \<Rightarrow> Some (a, m)
                   | DoChildren \<Rightarrow>
                       do { res \<leftarrow> vKind v e;
                            (case res of
                               SkipChildren \<Rightarrow> Some (e, m)
                             | ChangeTo a \<Rightarrow> Some (a, m)
                             | DoChildren \<Rightarrow>
                                 do { q \<leftarrow> visit_kids (visit v) (kids e) m;
                                      r \<leftarrow> finish v e (fst q);
                                      Some (r, snd q) }) });
                 Some (fst p, if snd p e = None then (snd p)(e \<mapsto> fst p) else snd p) }))"
  by pat_completeness auto
termination by (relation "measure (\<lambda>(v, e, m). esize e)") (auto simp: kids_esize)

declare visit.simps [simp del]

definition consistent :: "visitor \<Rightarrow> visited \<Rightarrow> bool" where
  "consistent v m \<longleftrightarrow> (\<forall>e r. m e = Some r \<longrightarrow> visitActual v e = Some r)"

definition agrees_with :: "visitor \<Rightarrow> 'a option \<Rightarrow> ('a \<times> visited) option \<Rightarrow> bool" where
  "agrees_with v plain res \<longleftrightarrow>
     (case plain of None \<Rightarrow> res = None | Some r \<Rightarrow> \<exists>m'. res = Some (r, m') \<and> consistent v m')"

lemma visit_kids_agrees:
  assumes "\<And>k m. k \<in> set ks \<Longrightarrow> consistent v m \<Longrightarrow> agrees_with v (f k) (g k m)" "consistent v m"
  shows "agrees_with v (those (map f ks)) (visit_kids g ks m)"
  using assms
proof (induction ks arbitrary: m)
  case (Cons k ks)
  have k: "agrees_with v (f k) (g k m)" using Cons.prems by simp
  show ?case
  proof (cases "f k")
    case None
    with k show ?thesis by (simp add: agrees_with_def)
  next
    case (Some r)
    with k obtain m' where m': "g k m = Some (r, m')" "consistent v m'" by (auto simp: agrees_with_def)
    with Cons.IH [of m'] Cons.prems(1) have "agrees_with v (those (map f ks)) (visit_kids g ks m')" by simp
    with Some m' show ?thesis by (auto simp: agrees_with_def split: option.splits)
  qed
qed (simp add: agrees_with_def)

lemma visit_agrees: "consistent v m \<Longrightarrow> agrees_with v (visitActual v e) (visit v e m)"
proof (induction e arbitrary: m rule: measure_induct_rule [of esize])
  case (less e)
  have ks: "agrees_with v (those (map (visitActual v) (kids e))) (visit_kids (visit v) (kids e) m)"
    by (rule visit_kids_agrees) (use less kids_esize in auto)
  consider (C) "isConstantExpr e" | (M) r where "\<not> isConstantExpr e" "m e = Some r"
    | (N) "\<not> isConstantExpr e" "m e = None" by blast
  then show ?case
  proof cases
    case C
    then show ?thesis using less.prems by (simp add: visit.simps [of v e] visitActual.simps [of v e] agrees_with_def)
  next
    case M
    then have "visitActual v e = Some r" "visit v e m = Some (r, m)"
      using less.prems by (auto simp: consistent_def visit.simps [of v e])
    then show ?thesis using less.prems by (simp add: agrees_with_def)
  next
    case N
    define body where "body = (case vExpr v e of SkipChildren \<Rightarrow> Some (e, m) | ChangeTo a \<Rightarrow> Some (a, m)
      | DoChildren \<Rightarrow> do { res \<leftarrow> vKind v e;
          (case res of SkipChildren \<Rightarrow> Some (e, m) | ChangeTo a \<Rightarrow> Some (a, m)
           | DoChildren \<Rightarrow> do { q \<leftarrow> visit_kids (visit v) (kids e) m; r \<leftarrow> finish v e (fst q); Some (r, snd q) }) })"
    have visit: "visit v e m =
        do { p \<leftarrow> body; Some (fst p, if snd p e = None then (snd p)(e \<mapsto> fst p) else snd p) }"
      unfolding body_def using N by (subst visit.simps) simp
    have "agrees_with v (visitActual v e) body"
    proof (cases "vExpr v e")
      case DoChildren
      then show ?thesis
      proof (cases "vKind v e")
        case (Some a)
        then show ?thesis
          using ks less.prems N DoChildren
          by (cases a) (auto simp: body_def visitActual.simps [of v e] agrees_with_def
              split: option.split option.splits)
      qed (use N in \<open>simp add: body_def visitActual.simps [of v e] agrees_with_def\<close>)
    qed (use less.prems N in \<open>simp_all add: body_def visitActual.simps [of v e] agrees_with_def\<close>)
    then show ?thesis
      unfolding visit by (auto simp: agrees_with_def consistent_def split: option.splits)
  qed
qed

subsection \<open>Sound visitors\<close>

text \<open>
  A rewriting of an expression that keeps its width, and its value where \<open>P\<close> holds, and has no
  division node and reads only arrays of \<open>A\<close>.
\<close>

definition rewritten :: "array set \<Rightarrow> (env \<Rightarrow> bool) \<Rightarrow> expr \<Rightarrow> expr \<Rightarrow> bool" where
  "rewritten A P e e' \<longleftrightarrow> wf_expr e' \<and> clean A e' \<and> getWidth e' = getWidth e \<and>
     (\<forall>\<sigma>. env_ok \<sigma> \<and> P \<sigma> \<longrightarrow> eval e' \<sigma> = eval e \<sigma>)"

lemma rewritten_refl [simp]: "rewritten A P e e = (wf_expr e \<and> clean A e)"
  by (simp add: rewritten_def)

lemma rewritten_trans: "rewritten A P e e' \<Longrightarrow> rewritten A P e' e'' \<Longrightarrow> rewritten A P e e''"
  by (auto simp: rewritten_def)

lemma builds_rewritten:
  "builds_if P res (getWidth e) (eval e) \<Longrightarrow> nd A res \<Longrightarrow> \<exists>e'. res = Some e' \<and> rewritten A P e e'"
  by (auto simp: builds_if_def rewritten_def)

lemma those_map:
  "(\<And>k. k \<in> set ks \<Longrightarrow> \<exists>y. f k = Some y \<and> Q k y) \<Longrightarrow> \<exists>ys. those (map f ks) = Some ys \<and> list_all2 Q ks ys"
  by (induction ks) fastforce+

lemma with_kids_rewritten:
  assumes "\<not> isConstantExpr e" "wf_expr e" "clean A e" "list_all2 (rewritten A P) (kids e) ks"
  shows "\<exists>n. with_kids e ks = Some n \<and> rewritten A P e n \<and> node_div_ok n \<and> node_defined n = (\<lambda>_. True)"
  using assms
  by (cases e) (auto simp: list_all2_Cons1 rewritten_def div_ok_def fun_eq_iff split: option.split)

lemma kids_wf: "wf_expr e \<Longrightarrow> k \<in> set (kids e) \<Longrightarrow> wf_expr k"
  "clean A e \<Longrightarrow> k \<in> set (kids e) \<Longrightarrow> clean A k"
  by (cases e; auto)+

locale sound_visitor =
  fixes v :: visitor and A :: "array set" and P :: "env \<Rightarrow> bool"
  assumes vExpr: "vExpr v e = ChangeTo a \<Longrightarrow> wf_expr e \<Longrightarrow> clean A e \<Longrightarrow> rewritten A P e a"
    and vKind: "wf_expr e \<Longrightarrow> clean A e \<Longrightarrow> \<exists>res. vKind v e = Some res \<and> (\<forall>a. res = ChangeTo a \<longrightarrow> rewritten A P e a)"
    and vPost: "vPost v e = ChangeTo a \<Longrightarrow> wf_expr e \<Longrightarrow> clean A e \<Longrightarrow> rewritten A P e a"
begin

lemma finish_rewritten:
  assumes "\<not> isConstantExpr e" "wf_expr e" "clean A e" "list_all2 (rewritten A P) (kids e) ks"
  shows "\<exists>e'. finish v e ks = Some e' \<and> rewritten A P e e'"
proof -
  have "\<exists>e'. (if ks \<noteq> kids e then rebuild e ks else Some e) = Some e' \<and> rewritten A P e e'"
  proof (cases "ks = kids e")
    case False
    obtain n where n: "with_kids e ks = Some n" "rewritten A P e n" "node_div_ok n" "node_defined n = (\<lambda>_. True)"
      using with_kids_rewritten [OF assms] by blast
    then have "builds (rebuild e ks) (getWidth n) (eval n)"
      using rebuild_builds [of e ks n] by (simp add: rewritten_def)
    then have "builds_if P (rebuild e ks) (getWidth e) (eval e)"
      by (rule builds_if_cong) (use n(2) in \<open>auto simp: rewritten_def\<close>)
    moreover have "nd A (rebuild e ks)"
      by (rule rebuild_nd) (use assms(3,4) in \<open>auto simp: list_all2_conv_all_nth list_all_length rewritten_def\<close>)
    ultimately show ?thesis using False builds_rewritten [of P "rebuild e ks" e] by simp
  qed (use assms in simp)
  then obtain e' where e': "(if ks \<noteq> kids e then rebuild e ks else Some e) = Some e'" "rewritten A P e e'" by blast
  have "rewritten A P e (case vPost v e' of ChangeTo a \<Rightarrow> a | _ \<Rightarrow> e')"
    using e'(2) rewritten_trans [OF e'(2) vPost] by (auto simp: rewritten_def [of A P e e'] split: action.split)
  with e' show ?thesis by (auto simp: finish_def)
qed

lemma visit_rewritten: "wf_expr e \<Longrightarrow> clean A e \<Longrightarrow> \<exists>e'. visitActual v e = Some e' \<and> rewritten A P e e'"
proof (induction e rule: measure_induct_rule [of esize])
  case (less e)
  have ks: "\<exists>ks. those (map (visitActual v) (kids e)) = Some ks \<and> list_all2 (rewritten A P) (kids e) ks"
    by (rule those_map) (use less kids_esize kids_wf in auto)
  show ?case
  proof (cases "isConstantExpr e")
    case False
    obtain res where res: "vKind v e = Some res" "\<And>a. res = ChangeTo a \<Longrightarrow> rewritten A P e a"
      using vKind [OF less.prems] by auto
    show ?thesis
      using res ks finish_rewritten [OF False less.prems] less.prems vExpr [of e] False
      by (auto simp: visitActual.simps [of v e] split: action.split)
  qed (use less.prems in \<open>simp add: visitActual.simps [of v e]\<close>)
qed

lemma visit_cached_rewritten:
  assumes "wf_expr e" "clean A e" "consistent v m"
  obtains e' m' where "visit v e m = Some (e', m')" "rewritten A P e e'" "consistent v m'"
  using visit_rewritten [OF assms(1,2)] visit_agrees [OF assms(3), of e] by (auto simp: agrees_with_def)

end

end
