(* ===== verification/Constraint_Visitors.thy ===== *)
theory Constraint_Visitors
  imports Visitor
begin

text \<open>
  The visitors the constraint manager rewrites with (\<^verbatim>\<open>klee/lib/Expr/Constraints.cpp\<close>): the
  replacement of an expression by another and the three visitors of the xor optimisation. Each
  meets the contract \<open>sound_visitor\<close>.
\<close>

subsection \<open>The visitors\<close>

definition ExprReplaceVisitor :: "expr \<Rightarrow> expr \<Rightarrow> visitor" where
  "ExprReplaceVisitor src dst = ExprVisitor
     \<lparr>vExpr := (\<lambda>e. if e = src then ChangeTo dst else DoChildren),
      vPost := (\<lambda>e. if e = src then ChangeTo dst else DoChildren)\<rparr>"

fun visitExtract :: "expr \<Rightarrow> action option" where
  "visitExtract (ExtractExpr e off w) =
     (case e of
        BinaryExpr k l r \<Rightarrow>
          (if k = Xor
           then do { a \<leftarrow> Extract_create l off w; b \<leftarrow> Extract_create r off w;
                     res \<leftarrow> Xor_create a b; Some (ChangeTo res) }
           else Some DoChildren)
      | _ \<Rightarrow> Some DoChildren)"
| "visitExtract _ = Some DoChildren"

definition ExtractExprVisitor :: visitor where
  "ExtractExprVisitor = ExprVisitor\<lparr>vKind := visitExtract\<rparr>"

fun visitEq :: "expr \<Rightarrow> action option" where
  "visitEq (BinaryExpr Eq l r) =
     (case (l, r) of
        (ConstantExpr c, BinaryExpr Xor k x) \<Rightarrow>
          (case k of
             ConstantExpr d \<Rightarrow>
               do { a \<leftarrow> Xor_create k l; b \<leftarrow> Xor_create k r; res \<leftarrow> Eq_create a b; Some (ChangeTo res) }
           | _ \<Rightarrow> Some DoChildren)
      | _ \<Rightarrow> Some DoChildren)"
| "visitEq _ = Some DoChildren"

definition XorLiftVisitor :: visitor where
  "XorLiftVisitor = ExprVisitor\<lparr>vKind := visitEq\<rparr>"

fun visitXor :: "expr \<Rightarrow> action option" where
  "visitXor (BinaryExpr Xor l r) =
     (case (l, r) of
        (ConstantExpr c, BinaryExpr Xor k x) \<Rightarrow> Some (if k = l then ChangeTo x else DoChildren)
      | _ \<Rightarrow> Some DoChildren)"
| "visitXor _ = Some DoChildren"

definition XorPropagateVisitor :: visitor where
  "XorPropagateVisitor = ExprVisitor\<lparr>vKind := visitXor\<rparr>"

subsection \<open>They keep the meaning\<close>

lemma replace_sound:
  assumes "wf_expr dst" "clean A dst" "getWidth dst = getWidth src"
  shows "sound_visitor (ExprReplaceVisitor src dst) A (\<lambda>\<sigma>. eval dst \<sigma> = eval src \<sigma>)"
  by unfold_locales
     (use assms in \<open>auto simp: ExprReplaceVisitor_def ExprVisitor_def rewritten_def split: if_splits\<close>)

lemma built_rewritten:
  assumes "builds res (getWidth e) (eval e)" "nd A res"
  shows "\<exists>x. res = Some x \<and> rewritten A P e x"
  using builds_rewritten [of P res e A] builds_if_cong [OF assms(1), of "getWidth e" P] assms(2) by auto

lemma kind_sound:
  assumes "\<And>e. wf_expr e \<Longrightarrow> clean A e \<Longrightarrow>
    \<exists>res. f e = Some res \<and> (\<forall>a. res = ChangeTo a \<longrightarrow> rewritten A P e a)"
  shows "sound_visitor (ExprVisitor\<lparr>vKind := f\<rparr>) A P"
  by unfold_locales (use assms in \<open>simp_all add: ExprVisitor_def\<close>)

text \<open>A method that changes to an expression built from two parts.\<close>

lemma change_to_built:
  assumes "builds (do { a \<leftarrow> x; b \<leftarrow> y; mk a b }) w f" "nd A (do { a \<leftarrow> x; b \<leftarrow> y; mk a b })"
    and "w = getWidth e" "\<And>\<sigma>. env_ok \<sigma> \<Longrightarrow> f \<sigma> = eval e \<sigma>"
  shows "\<exists>res. do { a \<leftarrow> x; b \<leftarrow> y; r \<leftarrow> mk a b; Some (ChangeTo r) } = Some res \<and>
    (\<forall>a. res = ChangeTo a \<longrightarrow> rewritten A P e a)"
proof -
  have "builds (do { a \<leftarrow> x; b \<leftarrow> y; mk a b }) (getWidth e) (eval e)"
    by (rule builds_if_cong [OF assms(1,3)]) (use assms(4) in simp)
  from built_rewritten [OF this assms(2)] obtain r
    where "do { a \<leftarrow> x; b \<leftarrow> y; mk a b } = Some r" "rewritten A P e r" by blast
  then show ?thesis by (auto simp: bind_eq_Some_conv)
qed

lemma extract_xor:
  "take_bit w ((a XOR b) div 2 ^ off) = take_bit w (a div 2 ^ off) XOR take_bit w (b div 2 ^ off)" for a b :: int
  by (simp flip: drop_bit_eq_div add: drop_bit_xor)

lemma xor_left_cancel: "k XOR a = k XOR b \<longleftrightarrow> a = b" for k a b :: int
  by (metis xor.assoc xor_self_eq xor.left_neutral)

lemma visitExtract_sound:
  assumes "wf_expr e" "clean A e"
  shows "\<exists>res. visitExtract e = Some res \<and> (\<forall>a. res = ChangeTo a \<longrightarrow> rewritten A P e a)"
proof (cases "\<exists>l r off w. e = ExtractExpr (BinaryExpr Xor l r) off w")
  case True
  then obtain l r off w where e: "e = ExtractExpr (BinaryExpr Xor l r) off w" by blast
  have parts: "builds (Extract_create l off w) w (extract_val l off w)"
      "builds (Extract_create r off w) w (extract_val r off w)"
    using assms(1) e by (auto intro!: Concat_Extract_builds(2))
  have "nd A (do { a \<leftarrow> Extract_create l off w; b \<leftarrow> Extract_create r off w; Xor_create a b })"
    using assms(2) e by (auto intro!: nd_bind Extract_nd Xor_Mul_nd(2))
  then show ?thesis
    using change_to_built [OF excl.composed [OF parts], of A e P] assms(1) e
    by (simp add: extract_xor)
qed (cases e rule: visitExtract.cases; auto split: expr.split)

lemma visitEq_sound:
  assumes "wf_expr e" "clean A e"
  shows "\<exists>res. visitEq e = Some res \<and> (\<forall>a. res = ChangeTo a \<longrightarrow> rewritten A P e a)"
proof (cases "\<exists>c d x. e = BinaryExpr Eq (ConstantExpr c) (BinaryExpr Xor (ConstantExpr d) x)")
  case True
  then obtain c d x where e: "e = BinaryExpr Eq (ConstantExpr c) (BinaryExpr Xor (ConstantExpr d) x)" by blast
  define l r k where "l = ConstantExpr c" and "r = BinaryExpr Xor (ConstantExpr d) x" and "k = ConstantExpr d"
  note defs = l_def r_def k_def
  have w: "wf_expr l" "wf_expr r" "wf_expr k" "getWidth k = getWidth l" "getWidth r = getWidth l"
    and cl: "clean A l" "clean A r" "clean A k"
    using assms e by (auto simp: defs)
  have parts: "builds (Xor_create k l) (getWidth l) (bin_val Xor k l)"
      "builds (Xor_create k r) (getWidth l) (bin_val Xor k r)"
    using excl.mk_builds [of k l] excl.mk_builds [of k r] w by simp_all
  have "nd A (do { a \<leftarrow> Xor_create k l; b \<leftarrow> Xor_create k r; Eq_create a b })"
    using cl by (auto intro!: nd_bind Xor_Mul_nd(2) Eq_nd(1))
  from change_to_built [OF eq.composed [OF parts] this, of "BinaryExpr Eq l r" P]
  have "\<exists>res. do { a \<leftarrow> Xor_create k l; b \<leftarrow> Xor_create k r; r \<leftarrow> Eq_create a b; Some (ChangeTo r) } = Some res \<and>
      (\<forall>a. res = ChangeTo a \<longrightarrow> rewritten A P (BinaryExpr Eq l r) a)"
    using w(4) by (simp only: sem_bin.simps eval.simps getWidth.simps xor_left_cancel isCmp_def insert_iff if_True simp_thms)
  then show ?thesis using e by (simp add: defs)
qed (cases e rule: visitEq.cases; auto split: expr.split bkind.split)

lemma visitXor_sound:
  assumes "wf_expr e" "clean A e"
  shows "\<exists>res. visitXor e = Some res \<and> (\<forall>a. res = ChangeTo a \<longrightarrow> rewritten A P e a)"
  using assms
  by (cases e rule: visitXor.cases)
     (auto simp: rewritten_def xor.assoc [symmetric] split: expr.split bkind.split)

interpretation extract_kids: sound_visitor ExtractExprVisitor A P for A P
  unfolding ExtractExprVisitor_def by (rule kind_sound) (rule visitExtract_sound)

interpretation xor_lift: sound_visitor XorLiftVisitor A P for A P
  unfolding XorLiftVisitor_def by (rule kind_sound) (rule visitEq_sound)

interpretation xor_propagate: sound_visitor XorPropagateVisitor A P for A P
  unfolding XorPropagateVisitor_def by (rule kind_sound) (rule visitXor_sound)

subsection \<open>Properties\<close>

text \<open>\<open>ConstraintManager::simplifyWithXorOptimization\<close>: the three visitors in order, each with a new map.\<close>

definition simplifyWithXorOptimization :: "expr \<Rightarrow> expr option" where
  "simplifyWithXorOptimization e =
     do { p \<leftarrow> visit ExtractExprVisitor e Map.empty;
          q \<leftarrow> visit XorLiftVisitor (fst p) Map.empty;
          r \<leftarrow> visit XorPropagateVisitor (fst q) Map.empty;
          Some (fst r) }"

lemma consistent_empty [simp]: "consistent v Map.empty"
  by (simp add: consistent_def)

text \<open>
  C30. The map of visited expressions is invisible for the visitors of this theory and every other
  visitor that is not recursive and whose methods look at the node alone: a traversal that looks up
  and stores results returns what the traversal that visits every occurrence anew returns. Recursive
  visitors (\<open>ExprReplaceVisitor2\<close>) and visitors whose methods visit (\<open>ExprEvaluator\<close>) are not covered.
\<close>

theorem visit_cache_invisible: "map_option fst (visit v e Map.empty) = visitActual v e"
  using visit_agrees [of v Map.empty e] by (auto simp: agrees_with_def split: option.splits)

text \<open>
  The xor optimisation returns for every well-formed expression without division, and the
  result has the width and the value of the expression under every assignment and reads no
  further array.
\<close>

theorem xor_optimization_sound:
  assumes "wf_expr e" "clean A e"
  shows "\<exists>e'. simplifyWithXorOptimization e = Some e' \<and> wf_expr e' \<and> clean A e' \<and> getWidth e' = getWidth e \<and>
    (\<forall>\<sigma>. env_ok \<sigma> \<longrightarrow> eval e' \<sigma> = eval e \<sigma>)"
proof -
  let ?P = "\<lambda>_. True"
  obtain e1 m1 where 1: "visit ExtractExprVisitor e Map.empty = Some (e1, m1)" "rewritten A ?P e e1"
    using extract_kids.visit_cached_rewritten [OF assms consistent_empty, of ?P thesis] by blast
  then have c1: "wf_expr e1" "clean A e1" by (simp_all add: rewritten_def)
  obtain e2 m2 where 2: "visit XorLiftVisitor e1 Map.empty = Some (e2, m2)" "rewritten A ?P e1 e2"
    using xor_lift.visit_cached_rewritten [OF c1 consistent_empty, of ?P thesis] by blast
  then have c2: "wf_expr e2" "clean A e2" by (simp_all add: rewritten_def)
  obtain e3 m3 where 3: "visit XorPropagateVisitor e2 Map.empty = Some (e3, m3)" "rewritten A ?P e2 e3"
    using xor_propagate.visit_cached_rewritten [OF c2 consistent_empty, of ?P thesis] by blast
  have "rewritten A ?P e e3" using 1(2) 2(2) 3(2) by (blast intro: rewritten_trans)
  then show ?thesis using 1(1) 2(1) 3(1) by (simp add: simplifyWithXorOptimization_def rewritten_def)
qed

theorem xor_optimization_sound_witness:
  "\<exists>e'. simplifyWithXorOptimization
       (BinaryExpr Eq (ConstantExpr (APInt 8 3)) (BinaryExpr Xor (ConstantExpr (APInt 8 5)) (sample_read 1))) = Some e' \<and>
     eval e' sample_env = 0"
  using xor_optimization_sound [of "BinaryExpr Eq (ConstantExpr (APInt 8 3))
    (BinaryExpr Xor (ConstantExpr (APInt 8 5)) (sample_read 1))" "{sample_array}"] sample_initial [of 1]
  by (auto simp: sample_read_def wf_apint_def in_width_def)

end
