(* ===== verification/Union_Find.thy ===== *)
theory Union_Find
  imports Expr_Rebuild
begin

text \<open>
  The union-find structure that groups symbolic arrays by the constraints that mention them:
  \<open>UFElement\<close> and \<open>UFManager\<close> (\<^verbatim>\<open>klee/include/klee/Expr.h\<close>, \<^verbatim>\<open>klee/lib/Expr/Expr.cpp\<close>). The
  manager is the vector of its elements, an index outside it is undefined behaviour and
  \<open>None\<close>. \<open>find\<close> recurses along the parents and is a partial function; it returns in every state
  that the operations reach.
\<close>

subsection \<open>Data and operations\<close>

record uf_element =
  parent :: int
  uf_arr :: array
  rank :: int
  uf_size :: int
  uf_constraints :: "expr list"

type_synonym ufmanager = "uf_element list"

definition UFElement_new :: "array \<Rightarrow> int \<Rightarrow> uf_element" where
  "UFElement_new x idx = \<lparr>parent = idx, uf_arr = x, rank = 0, uf_size = 1, uf_constraints = []\<rparr>"

definition in_range :: "ufmanager \<Rightarrow> int \<Rightarrow> bool" where
  "in_range es i \<longleftrightarrow> 0 \<le> i \<and> i < int (length es)"

text \<open>\<open>operator[]\<close> and the assignment to an element.\<close>

definition UFManager_at :: "ufmanager \<Rightarrow> int \<Rightarrow> uf_element option" where
  "UFManager_at es i = (if in_range es i then Some (es ! nat i) else None)"

definition UFManager_set :: "ufmanager \<Rightarrow> int \<Rightarrow> uf_element \<Rightarrow> ufmanager" where
  "UFManager_set es i x = es[nat i := x]"

definition UFManager_create :: "ufmanager \<Rightarrow> array \<Rightarrow> int \<times> ufmanager" where
  "UFManager_create es x = (int (length es), es @ [UFElement_new x (int (length es))])"

text \<open>
  \<open>destroy\<close>: \<open>remove_if\<close> copies the kept elements to the front and leaves the rest of the vector
  as it was, \<open>erase\<close> with one iterator removes the first element after them; with nothing to
  remove that iterator is the end and the erasure undefined.
\<close>

definition UFManager_destroy :: "ufmanager \<Rightarrow> array \<Rightarrow> ufmanager option" where
  "UFManager_destroy es x =
     (let kept = filter (\<lambda>z. uf_arr z \<noteq> x) es
      in if length kept = length es then None else Some (kept @ drop (length kept + 1) es))"

partial_function (option) UFManager_find :: "ufmanager \<Rightarrow> int \<Rightarrow> (int \<times> ufmanager) option" where
  "UFManager_find es i =
     do { x \<leftarrow> UFManager_at es i;
          p \<leftarrow> UFManager_at es (parent x);
          (if parent x = i then Some (i, es)
           else do { q \<leftarrow> UFManager_find es (parent x);
                     x' \<leftarrow> UFManager_at (snd q) i;
                     Some (fst q, UFManager_set (snd q) i (x'\<lparr>parent := fst q\<rparr>)) }) }"

declare UFManager_find.simps [code]

text \<open>\<open>join\<close>; it ends without a value when the first rank is the smaller one.\<close>

definition UFManager_join :: "ufmanager \<Rightarrow> int \<Rightarrow> int \<Rightarrow> (int \<times> ufmanager) option" where
  "UFManager_join es a b =
     do { p \<leftarrow> UFManager_find es a;
          q \<leftarrow> UFManager_find (snd p) b;
          (if fst p = fst q then Some (fst p, snd q)
           else do {
             x \<leftarrow> UFManager_at (snd q) a;
             y \<leftarrow> UFManager_at (snd q) b;
             (if rank x \<ge> rank y then
                (if rank x = rank y
                 then Some (fst p, UFManager_set
                        (UFManager_set (snd q) a (x\<lparr>uf_constraints := uf_constraints x @ uf_constraints y\<rparr>))
                        b (y\<lparr>parent := parent x, uf_constraints := []\<rparr>))
                 else Some (fst q, UFManager_set
                        (UFManager_set (snd q) a (x\<lparr>uf_constraints := []\<rparr>))
                        b (y\<lparr>parent := parent x, uf_constraints := uf_constraints y @ uf_constraints x\<rparr>)))
              else None) }) }"

text \<open>The push of a constraint on an element, as the constraint manager does it.\<close>

definition push_constraint :: "ufmanager \<Rightarrow> int \<Rightarrow> expr \<Rightarrow> ufmanager option" where
  "push_constraint es i e =
     do { x \<leftarrow> UFManager_at es i; Some (UFManager_set es i (x\<lparr>uf_constraints := uf_constraints x @ [e]\<rparr>)) }"

subsection \<open>The invariant\<close>

text \<open>
  Every parent is an element, the parents form a forest (an element that is no root is higher than
  its parent, for some height), and every rank is zero: no operation changes one.
\<close>

definition forest :: "ufmanager \<Rightarrow> (int \<Rightarrow> nat) \<Rightarrow> bool" where
  "forest es h \<longleftrightarrow>
     (\<forall>i. in_range es i \<longrightarrow>
        in_range es (parent (es ! nat i)) \<and>
        (parent (es ! nat i) \<noteq> i \<longrightarrow> h (parent (es ! nat i)) < h i))"

definition uf_inv :: "ufmanager \<Rightarrow> bool" where
  "uf_inv es \<longleftrightarrow> (\<exists>h. forest es h) \<and> (\<forall>x \<in> set es. rank x = 0)"

text \<open>The representative an element has, as \<open>find\<close> returns it.\<close>

definition rep :: "ufmanager \<Rightarrow> int \<Rightarrow> int" where
  "rep es i = (case UFManager_find es i of Some (r, _) \<Rightarrow> r | None \<Rightarrow> -1)"

definition is_root :: "ufmanager \<Rightarrow> int \<Rightarrow> bool" where
  "is_root es i \<longleftrightarrow> in_range es i \<and> parent (es ! nat i) = i"

lemma at_simps [simp]:
  "in_range es i \<Longrightarrow> UFManager_at es i = Some (es ! nat i)"
  "\<not> in_range es i \<Longrightarrow> UFManager_at es i = None"
  by (simp_all add: UFManager_at_def)

lemma in_range_set [simp]: "in_range (UFManager_set es j x) i = in_range es i"
  by (simp add: in_range_def UFManager_set_def)

lemma length_set [simp]: "length (UFManager_set es j x) = length es"
  by (simp add: UFManager_set_def)

lemma set_nth [simp]:
  "in_range es i \<Longrightarrow> in_range es j \<Longrightarrow> UFManager_set es j x ! nat i = (if i = j then x else es ! nat i)"
  by (auto simp: in_range_def UFManager_set_def nth_list_update nat_eq_iff2)

lemma find_root: "is_root es i \<Longrightarrow> UFManager_find es i = Some (i, es)"
  by (subst UFManager_find.simps) (simp add: is_root_def)

text \<open>
  The effect of \<open>find\<close>: it returns a root, changes parents only, and only of elements with that
  representative, to the representative itself.
\<close>

definition compressed :: "ufmanager \<Rightarrow> int \<Rightarrow> ufmanager \<Rightarrow> bool" where
  "compressed es r es' \<longleftrightarrow> length es' = length es \<and>
     (\<forall>i. in_range es i \<longrightarrow>
        (es' ! nat i = es ! nat i \<or> rep es i = r \<and> es' ! nat i = (es ! nat i)\<lparr>parent := r\<rparr>))"

lemma find_returns:
  assumes "forest es h" "in_range es i"
  shows "\<exists>r es'. UFManager_find es i = Some (r, es') \<and> is_root es r \<and> h r \<le> h i \<and>
    compressed es r es' \<and> is_root es' r \<and> parent (es' ! nat i) = r"
  using assms(2)
proof (induction "h i" arbitrary: i rule: less_induct)
  case less
  show ?case
  proof (cases "parent (es ! nat i) = i")
    case True
    with less.prems have root: "is_root es i" by (simp add: is_root_def)
    then show ?thesis using find_root [OF root] True by (auto simp: compressed_def)
  next
    case False
    let ?p = "parent (es ! nat i)"
    have p: "in_range es ?p" "h ?p < h i"
      using assms(1) less.prems False by (auto simp: forest_def)
    then obtain r es' where IH: "UFManager_find es ?p = Some (r, es')" "is_root es r" "h r \<le> h ?p"
        "compressed es r es'" "is_root es' r"
      using less.hyps [of ?p] by blast
    then have find: "UFManager_find es i = Some (r, UFManager_set es' i ((es' ! nat i)\<lparr>parent := r\<rparr>))"
      using less.prems p False
      by (subst UFManager_find.simps) (auto simp: compressed_def in_range_def)
    have ri: "r \<noteq> i" using IH(3) p(2) by auto
    have rng: "in_range es' k = in_range es k" for k using IH(4) by (simp add: compressed_def in_range_def)
    have "rep es i = r" using find by (simp add: rep_def)
    then have "compressed es r (UFManager_set es' i ((es' ! nat i)\<lparr>parent := r\<rparr>))"
      using IH(4) less.prems by (auto simp: compressed_def rng)
    moreover have "is_root (UFManager_set es' i ((es' ! nat i)\<lparr>parent := r\<rparr>)) r"
      using IH(5) ri less.prems by (simp add: is_root_def rng)
    ultimately show ?thesis
      using find IH(2,3) p less.prems by (auto simp: rng)
  qed
qed

subsection \<open>Representatives\<close>

lemma forest_parent:
  assumes "forest es h" "in_range es i"
  shows "in_range es (parent (es ! nat i))" "parent (es ! nat i) \<noteq> i \<Longrightarrow> h (parent (es ! nat i)) < h i"
  using assms by (auto simp: forest_def)

lemma rep_step:
  assumes "forest es h" "in_range es i"
  shows "rep es i = (if parent (es ! nat i) = i then i else rep es (parent (es ! nat i)))"
proof (cases "parent (es ! nat i) = i")
  case True
  then show ?thesis using assms(2) find_root [of es i] by (simp add: rep_def is_root_def)
next
  case False
  obtain r es' where "UFManager_find es (parent (es ! nat i)) = Some (r, es')" "compressed es r es'"
    using find_returns [OF assms(1) forest_parent(1) [OF assms]] by blast
  then have "UFManager_find es i = Some (r, UFManager_set es' i ((es' ! nat i)\<lparr>parent := r\<rparr>))"
    using assms(2) forest_parent(1) [OF assms] False
    by (subst UFManager_find.simps) (auto simp: compressed_def in_range_def)
  with False \<open>UFManager_find es (parent (es ! nat i)) = Some (r, es')\<close> show ?thesis by (simp add: rep_def)
qed

lemma rep_is_root: "forest es h \<Longrightarrow> in_range es i \<Longrightarrow> is_root es (rep es i)"
  using find_returns [of es h i] by (auto simp: rep_def)

lemma rep_root [simp]: "is_root es i \<Longrightarrow> rep es i = i"
  by (simp add: rep_def find_root)

text \<open>The representatives are the only function that is constant along the parents.\<close>

lemma rep_unique:
  assumes "forest es h" "in_range es i"
    and "\<And>j. in_range es j \<Longrightarrow> f j = (if parent (es ! nat j) = j then j else f (parent (es ! nat j)))"
  shows "rep es i = f i"
  using assms(2)
proof (induction "h i" arbitrary: i rule: less_induct)
  case less
  show ?case
    using less.hyps [of "parent (es ! nat i)"] forest_parent [OF assms(1) less.prems]
      rep_step [OF assms(1) less.prems] assms(3) [OF less.prems] by (auto split: if_splits)
qed

lemma compressed_forest:
  assumes "forest es h" "compressed es r es'" "is_root es r"
  shows "forest es' h"
proof -
  have "in_range es' (parent (es' ! nat i)) \<and> (parent (es' ! nat i) \<noteq> i \<longrightarrow> h (parent (es' ! nat i)) < h i)"
    if i: "in_range es i" for i
  proof (cases "es' ! nat i = es ! nat i")
    case True
    then show ?thesis
      using assms(2) forest_parent [OF assms(1) i] by (simp add: compressed_def in_range_def)
  next
    case False
    with assms(2) i have r: "rep es i = r" "parent (es' ! nat i) = r"
      by (auto simp: compressed_def)
    have "h r < h i" if "r \<noteq> i"
      using find_returns [OF assms(1) i] find_returns [OF assms(1) forest_parent(1) [OF assms(1) i]]
        rep_step [OF assms(1) i] forest_parent(2) [OF assms(1) i] r(1) that
      by (fastforce simp: rep_def split: if_splits)
    then show ?thesis using assms(2,3) r by (auto simp: compressed_def is_root_def in_range_def)
  qed
  then show ?thesis using assms(2) by (simp add: forest_def compressed_def in_range_def)
qed

lemma compressed_rep:
  assumes "forest es h" "compressed es r es'" "is_root es r" "in_range es i"
  shows "rep es' i = rep es i"
proof (rule rep_unique [OF compressed_forest [OF assms(1-3)]])
  show "in_range es' i" using assms(2,4) by (simp add: compressed_def in_range_def)
next
  fix j
  assume "in_range es' j"
  then have j: "in_range es j" using assms(2) by (simp add: compressed_def in_range_def)
  show "rep es j = (if parent (es' ! nat j) = j then j else rep es (parent (es' ! nat j)))"
  proof (cases "es' ! nat j = es ! nat j")
    case True
    then show ?thesis using rep_step [OF assms(1) j] by simp
  next
    case False
    with assms(2) j have "rep es j = r" "parent (es' ! nat j) = r" by (auto simp: compressed_def)
    then show ?thesis using assms(3) by simp
  qed
qed

subsection \<open>The operations keep the invariant\<close>

lemma find_inv:
  assumes "uf_inv es" "in_range es i"
  obtains es' where "UFManager_find es i = Some (rep es i, es')" "uf_inv es'" "length es' = length es"
    "is_root es (rep es i)" "is_root es' (rep es i)" "parent (es' ! nat i) = rep es i"
    "\<And>k. in_range es k \<Longrightarrow> rep es' k = rep es k"
    "\<And>k. in_range es k \<Longrightarrow> uf_constraints (es' ! nat k) = uf_constraints (es ! nat k)"
    "\<And>k. is_root es k \<Longrightarrow> is_root es' k" "compressed es (rep es i) es'"
proof -
  obtain h where h: "forest es h" using assms(1) by (auto simp: uf_inv_def)
  obtain r es' where f: "UFManager_find es i = Some (r, es')" "is_root es r" "compressed es r es'"
      "is_root es' r" "parent (es' ! nat i) = r"
    using find_returns [OF h assms(2)] by blast
  have r: "rep es i = r" using f(1) by (simp add: rep_def)
  have "rank x = 0" if x: "x \<in> set es'" for x
  proof -
    obtain k where "k < length es" "x = es' ! k"
      using x f(3) by (auto simp: in_set_conv_nth compressed_def)
    then show ?thesis
      using f(3) assms(1) by (auto simp: compressed_def in_range_def uf_inv_def dest!: spec [of _ "int k"])
  qed
  then have inv: "uf_inv es'"
    using compressed_forest [OF h f(3,2)] by (auto simp: uf_inv_def)
  have roots: "is_root es' k" if "is_root es k" for k
  proof -
    have "in_range es k" using that by (simp add: is_root_def)
    then have "es' ! nat k = es ! nat k \<or> rep es k = r \<and> es' ! nat k = (es ! nat k)\<lparr>parent := r\<rparr>"
      using f(3) by (simp add: compressed_def)
    then show ?thesis
      using that f(3) by (auto simp: is_root_def compressed_def in_range_def rep_root [OF that])
  qed
  have cons: "uf_constraints (es' ! nat k) = uf_constraints (es ! nat k)" if "in_range es k" for k
    using f(3) that by (fastforce simp: compressed_def)
  show ?thesis
    by (rule that [of es']) (use f r inv roots cons compressed_rep [OF h f(3,2)] in \<open>auto simp: compressed_def\<close>)
qed

lemma create_inv:
  assumes "uf_inv es"
  shows "uf_inv (snd (UFManager_create es x))" "is_root (snd (UFManager_create es x)) (fst (UFManager_create es x))"
proof -
  obtain h where h: "forest es h" using assms by (auto simp: uf_inv_def)
  have "forest (es @ [UFElement_new x (int (length es))]) h"
    unfolding forest_def
  proof (intro allI impI)
    fix i
    assume i: "in_range (es @ [UFElement_new x (int (length es))]) i"
    show "in_range (es @ [UFElement_new x (int (length es))])
        (parent ((es @ [UFElement_new x (int (length es))]) ! nat i)) \<and>
      (parent ((es @ [UFElement_new x (int (length es))]) ! nat i) \<noteq> i \<longrightarrow>
        h (parent ((es @ [UFElement_new x (int (length es))]) ! nat i)) < h i)"
    proof (cases "in_range es i")
      case True
      then have "(es @ [UFElement_new x (int (length es))]) ! nat i = es ! nat i"
        by (auto simp: in_range_def nth_append)
      then show ?thesis using forest_parent [OF h True] by (simp add: in_range_def)
    next
      case False
      with i have "i = int (length es)" by (simp add: in_range_def)
      then show ?thesis by (simp add: UFElement_new_def in_range_def)
    qed
  qed
  then show "uf_inv (snd (UFManager_create es x))"
    using assms by (auto simp: uf_inv_def UFManager_create_def UFElement_new_def)
  show "is_root (snd (UFManager_create es x)) (fst (UFManager_create es x))"
    by (simp add: is_root_def UFManager_create_def in_range_def nth_append UFElement_new_def)
qed

lemma set_keeps:
  assumes "in_range es i" "parent x = parent (es ! nat i)" "rank x = rank (es ! nat i)"
  shows "forest (UFManager_set es i x) h = forest es h" "is_root (UFManager_set es i x) k = is_root es k"
    and "uf_inv es \<Longrightarrow> uf_inv (UFManager_set es i x)"
proof -
  have "parent (UFManager_set es i x ! nat k) = parent (es ! nat k)" if "in_range es k" for k
    using assms that by simp
  then have fr: "forest (UFManager_set es i x) h = forest es h"
    "is_root (UFManager_set es i x) k = is_root es k" for h k
    by (auto simp: forest_def is_root_def)
  then show "forest (UFManager_set es i x) h = forest es h" "is_root (UFManager_set es i x) k = is_root es k"
    by simp_all
  have "rank x = 0" if "uf_inv es"
    using that assms(1,3) by (auto simp: uf_inv_def in_range_def nat_less_iff)
  then show "uf_inv (UFManager_set es i x)" if "uf_inv es"
    using that fr(1) by (auto simp: uf_inv_def UFManager_set_def dest!: set_update_subset_insert [THEN subsetD])
qed

lemma push_inv:
  assumes "uf_inv es" "in_range es i"
  obtains es' where "push_constraint es i e = Some es'" "uf_inv es'" "length es' = length es"
    "\<And>k. is_root es' k = is_root es k"
  using that assms set_keeps [of es i] by (auto simp: push_constraint_def)

text \<open>Linking an element to another root: the forest, the roots and the representatives.\<close>

definition linked :: "ufmanager \<Rightarrow> int \<Rightarrow> int \<Rightarrow> ufmanager \<Rightarrow> bool" where
  "linked es b i es' \<longleftrightarrow> length es' = length es \<and>
     (\<forall>k. in_range es k \<longrightarrow> parent (es' ! nat k) = (if k = b then i else parent (es ! nat k)) \<and>
        rank (es' ! nat k) = rank (es ! nat k))"

lemma linked_inv:
  assumes "uf_inv es" "in_range es b" "is_root es i" "i \<noteq> b" "linked es b i es'"
  shows "uf_inv es'" "is_root es' i" "rep es' b = i"
    and "\<And>k. in_range es k \<Longrightarrow> is_root es b \<Longrightarrow> rep es' k = (if rep es k = b then i else rep es k)"
proof -
  obtain h where h: "forest es h" using assms(1) by (auto simp: uf_inv_def)
  have rng: "in_range es' k = in_range es k" for k using assms(5) by (simp add: linked_def in_range_def)
  have par: "parent (es' ! nat k) = (if k = b then i else parent (es ! nat k))" if "in_range es k" for k
    using assms(5) that by (simp add: linked_def)
  have f: "forest es' (\<lambda>k. if k = i then 0 else h k + 1)"
    using h assms(3) by (auto simp: forest_def rng par is_root_def)
  have "rank x = 0" if x: "x \<in> set es'" for x
  proof -
    obtain k where "k < length es" "x = es' ! k"
      using x assms(5) by (auto simp: in_set_conv_nth linked_def)
    then show ?thesis
      using assms(1,5) by (auto simp: linked_def in_range_def uf_inv_def dest!: spec [of _ "int k"])
  qed
  with f show "uf_inv es'" by (auto simp: uf_inv_def)
  show root: "is_root es' i" using assms(3,4) par by (simp add: is_root_def rng)
  show "rep es' b = i"
    using rep_step [OF f, of b] assms(2,4) par root by (simp add: rng)
  show "rep es' k = (if rep es k = b then i else rep es k)" if k: "in_range es k" and b: "is_root es b" for k
  proof (rule rep_unique [OF f])
    show "in_range es' k" using k by (simp add: rng)
    show "(if rep es j = b then i else rep es j) =
        (if parent (es' ! nat j) = j then j
         else if rep es (parent (es' ! nat j)) = b then i else rep es (parent (es' ! nat j)))"
      if "in_range es' j" for j
      using that rep_step [OF h, of j] assms(2-4) b by (auto simp: rng par)
  qed
qed

lemma join_spec:
  assumes "uf_inv es" "in_range es a" "in_range es b"
  obtains es' where "UFManager_join es a b = Some (rep es a, es')" "uf_inv es'" "length es' = length es"
    "is_root es' (rep es a)" "rep es' a = rep es a" "rep es' b = rep es a"
    "\<And>k. in_range es k \<Longrightarrow> rep es a = rep es b \<or> is_root es b \<Longrightarrow>
      rep es' k = (if rep es k = rep es b then rep es a else rep es k)"
    "is_root es a \<Longrightarrow> is_root es b \<Longrightarrow> a \<noteq> b \<Longrightarrow>
      uf_constraints (es' ! nat a) = uf_constraints (es ! nat a) @ uf_constraints (es ! nat b) \<and>
      uf_constraints (es' ! nat b) = []"
proof -
  obtain e1 where e1: "UFManager_find es a = Some (rep es a, e1)" "uf_inv e1" "length e1 = length es"
      "is_root es (rep es a)" "is_root e1 (rep es a)" "parent (e1 ! nat a) = rep es a"
      "\<And>k. in_range es k \<Longrightarrow> rep e1 k = rep es k"
      "\<And>k. in_range es k \<Longrightarrow> uf_constraints (e1 ! nat k) = uf_constraints (es ! nat k)"
      "\<And>k. is_root es k \<Longrightarrow> is_root e1 k"
    using find_inv [OF assms(1,2)] by metis
  have b1: "in_range e1 b" using assms(3) e1(3) by (simp add: in_range_def)
  obtain e2 where e2: "UFManager_find e1 b = Some (rep e1 b, e2)" "uf_inv e2" "length e2 = length e1"
      "is_root e1 (rep e1 b)" "is_root e2 (rep e1 b)" "parent (e2 ! nat b) = rep e1 b"
      "\<And>k. in_range e1 k \<Longrightarrow> rep e2 k = rep e1 k"
      "\<And>k. in_range e1 k \<Longrightarrow> uf_constraints (e2 ! nat k) = uf_constraints (e1 ! nat k)"
      "\<And>k. is_root e1 k \<Longrightarrow> is_root e2 k" "compressed e1 (rep e1 b) e2"
    using find_inv [OF e1(2) b1] by metis
  have rng: "in_range e1 k = in_range es k" "in_range e2 k = in_range es k" for k
    using e1(3) e2(3) by (simp_all add: in_range_def)
  have reps: "rep e2 k = rep es k" if "in_range es k" for k
    using e1(7) e2(7) that by (simp add: rng)
  have rb: "rep e1 b = rep es b" using e1(7) assms(3) by simp
  show ?thesis
  proof (cases "rep es a = rep es b")
    case True
    have "UFManager_join es a b = Some (rep es a, e2)"
      using True e1(1) e2(1) rb by (simp add: UFManager_join_def)
    moreover have "a = b" if "is_root es a" "is_root es b" using True rep_root that by metis
    ultimately show ?thesis
      using True e1 e2 reps assms by (intro that [of e2]) auto
  next
    case False
    let ?x = "e2 ! nat a" and ?y = "e2 ! nat b"
    let ?e3 = "UFManager_set (UFManager_set e2 a (?x\<lparr>uf_constraints := uf_constraints ?x @ uf_constraints ?y\<rparr>))
      b (?y\<lparr>parent := parent ?x, uf_constraints := []\<rparr>)"
    have px: "parent ?x = rep es a"
      using e2(10) e1(6,7) assms(2) False by (fastforce simp: compressed_def rng rb)
    have "?x \<in> set e2" "?y \<in> set e2"
      using assms(2,3) e1(3) e2(3) by (auto simp: in_range_def nat_less_iff)
    then have rank: "rank ?x = 0" "rank ?y = 0" using e2(2) by (auto simp: uf_inv_def)
    have ab: "a \<noteq> b" using False by auto
    have join: "UFManager_join es a b = Some (rep es a, ?e3)"
      using False e1(1) e2(1) rb rank assms(2,3) by (simp add: UFManager_join_def rng)
    have link: "linked e2 b (rep es a) ?e3"
      using assms(2,3) ab px by (auto simp: linked_def rng)
    have root: "is_root e2 (rep es a)" using e1(5) e2(9) by simp
    have ne: "rep es a \<noteq> b" using False rep_root [OF root] reps [OF assms(3)] by auto
    note L = linked_inv [OF e2(2) _ root ne link]
    have ra: "rep ?e3 a = rep es a"
    proof -
      obtain h where h: "forest ?e3 h" using L(1) assms(3) by (auto simp: uf_inv_def rng)
      show ?thesis
        using rep_step [OF h, of a] px ab assms(2,3) rep_root [OF L(2)] by (auto simp: rng)
    qed
    show ?thesis
    proof (rule that [OF join L(1) _ L(2) ra])
      show "rep ?e3 b = rep es a" using L(3) assms(3) by (simp add: rng)
      show "rep ?e3 k = (if rep es k = rep es b then rep es a else rep es k)"
        if k: "in_range es k" and "rep es a = rep es b \<or> is_root es b" for k
      proof -
        have b: "is_root es b" using that(2) False by simp
        then have "rep ?e3 k = (if rep e2 k = b then rep es a else rep e2 k)"
          using L(4) [of k] k assms(3) e1(9) e2(9) by (simp add: rng)
        then show ?thesis using reps [OF k] rep_root [OF b] by simp
      qed
    qed (use assms ab e1(3,8) e2(3,8) in \<open>auto simp: rng\<close>)
  qed
qed

subsection \<open>Destroying elements\<close>

text \<open>
  \<open>destroy\<close> removes the elements of an array that has exactly one, has no defined behaviour for
  an array that has none, and moves the elements behind it: their indices change.
\<close>

lemma destroy_missing: "(\<And>z. z \<in> set es \<Longrightarrow> uf_arr z \<noteq> x) \<Longrightarrow> UFManager_destroy es x = None"
  by (simp add: UFManager_destroy_def Let_def filter_id_conv)

lemma destroy_unique:
  assumes "es = xs @ z # ys" "uf_arr z = x" "\<And>y. y \<in> set (xs @ ys) \<Longrightarrow> uf_arr y \<noteq> x"
  shows "UFManager_destroy es x = Some (xs @ ys)"
proof -
  have "filter (\<lambda>z. uf_arr z \<noteq> x) es = xs @ ys" using assms by (auto simp: filter_id_conv)
  then show ?thesis using assms(1) by (simp add: UFManager_destroy_def)
qed

lemma destroy_last_inv:
  assumes "uf_inv (ys @ [z])" "\<forall>y \<in> set ys. parent y \<noteq> int (length ys)"
  shows "uf_inv ys"
proof -
  obtain h where h: "forest (ys @ [z]) h" using assms(1) by (auto simp: uf_inv_def)
  have "in_range ys (parent (ys ! nat i)) \<and> (parent (ys ! nat i) \<noteq> i \<longrightarrow> h (parent (ys ! nat i)) < h i)" if i: "in_range ys i" for i
  proof -
    have y: "in_range (ys @ [z]) i" "(ys @ [z]) ! nat i = ys ! nat i" "parent (ys ! nat i) \<noteq> int (length ys)"
      using i assms(2) by (auto simp: in_range_def nth_append)
    then have "in_range (ys @ [z]) (parent (ys ! nat i)) \<and> (parent (ys ! nat i) \<noteq> i \<longrightarrow> h (parent (ys ! nat i)) < h i)"
      using h unfolding forest_def by metis
    then show ?thesis using y(3) by (auto simp: in_range_def)
  qed
  then have "forest ys h" by (simp add: forest_def)
  then show ?thesis using assms(1) by (auto simp: uf_inv_def)
qed

subsection \<open>Reachable states\<close>

text \<open>
  The states the program reaches before the array cache itself is deleted. \<open>destroy\<close> is called then
  only from the destructor of an array that \<open>CreateArray\<close> made and found to be a copy: its element is
  the last one and no other element has it as its parent. Destroying any other element shifts the
  elements behind it and leaves their parents as they were (\<open>destroy_dangling\<close>).
\<close>

inductive uf_reachable :: "ufmanager \<Rightarrow> bool" where
  init: "uf_reachable []"
| create: "uf_reachable es \<Longrightarrow> uf_reachable (snd (UFManager_create es x))"
| find: "uf_reachable es \<Longrightarrow> in_range es i \<Longrightarrow> UFManager_find es i = Some (r, es') \<Longrightarrow> uf_reachable es'"
| join: "uf_reachable es \<Longrightarrow> in_range es a \<Longrightarrow> in_range es b \<Longrightarrow> UFManager_join es a b = Some (r, es') \<Longrightarrow>
    uf_reachable es'"
| push: "uf_reachable es \<Longrightarrow> in_range es i \<Longrightarrow> push_constraint es i e = Some es' \<Longrightarrow> uf_reachable es'"
| destroy: "uf_reachable es \<Longrightarrow> es = ys @ [z] \<Longrightarrow> \<forall>y \<in> set ys. uf_arr y \<noteq> uf_arr z \<and> parent y \<noteq> int (length ys) \<Longrightarrow>
    UFManager_destroy es (uf_arr z) = Some es' \<Longrightarrow> uf_reachable es'"

inductive_cases uf_reachableE: "uf_reachable es"

lemma reachable_uf_inv: "uf_reachable es \<Longrightarrow> uf_inv es"
proof (induction rule: uf_reachable.induct)
  case init
  then show ?case by (simp add: uf_inv_def forest_def in_range_def)
next
  case (create es x)
  then show ?case by (intro create_inv)
next
  case (find es i r es')
  from find.IH find.hyps(2) show ?case by (rule find_inv) (use find.hyps(3) in simp)
next
  case (join es a b r es')
  from join.IH join.hyps(2,3) show ?case by (rule join_spec) (use join.hyps(4) in simp)
next
  case (push es i e es')
  from push.IH push.hyps(2) show ?case by (rule push_inv [where e = e]) (use push.hyps(3) in simp)
next
  case (destroy es ys z es')
  then have "es' = ys" using destroy_unique [of es ys z "[]" "uf_arr z"] by simp
  then show ?case using destroy_last_inv [of ys z] destroy by simp
qed

subsection \<open>Properties\<close>

definition sample_uf :: ufmanager where
  "sample_uf = snd (UFManager_create (snd (UFManager_create (snd (UFManager_create []
     sample_array)) (sample_array\<lparr>arrId := 1\<rparr>))) (sample_array\<lparr>arrId := 2\<rparr>))"

lemma sample_uf_reachable: "uf_reachable sample_uf"
  unfolding sample_uf_def by (intro uf_reachable.intros)

lemma sample_uf_simps [simp]:
  "in_range sample_uf 0" "in_range sample_uf 1" "in_range sample_uf 2"
  "is_root sample_uf 0" "is_root sample_uf 1" "is_root sample_uf 2"
  by (simp_all add: sample_uf_def UFManager_create_def in_range_def is_root_def UFElement_new_def)

text \<open>
  C26. In every state reached by creating elements, finding, joining, pushing constraints and
  destroying the last element while it is no other's parent (the only way \<open>destroy\<close> is called while
  the array cache lives), the parents form a forest, so \<open>find\<close> and \<open>join\<close> on any two elements end, stay
  inside the vector and return a root. Destroying another element is not covered.
\<close>

theorem uf_operations_return:
  assumes "uf_reachable es" "in_range es a" "in_range es b"
  shows "uf_inv es \<and>
    (\<exists>r es'. UFManager_find es a = Some (r, es') \<and> is_root es' r \<and> parent (es' ! nat a) = r) \<and>
    (\<exists>r es'. UFManager_join es a b = Some (r, es') \<and> is_root es' r \<and> rep es' a = r \<and> rep es' b = r)"
proof -
  have inv: "uf_inv es" by (rule reachable_uf_inv [OF assms(1)])
  show ?thesis
    using find_inv [OF inv assms(2)] join_spec [OF inv assms(2,3)] inv by metis
qed

theorem uf_operations_return_witness:
  "\<exists>r es'. UFManager_join sample_uf 0 2 = Some (r, es') \<and> is_root es' r \<and> rep es' 0 = r \<and> rep es' 2 = r"
  using uf_operations_return [OF sample_uf_reachable, of 0 2] by simp

text \<open>
  Path compression is invisible: \<open>find\<close> returns the representative and changes neither the
  representative nor the constraints of any element.
\<close>

theorem find_keeps_classes:
  assumes "uf_reachable es" "in_range es i"
  shows "\<exists>es'. UFManager_find es i = Some (rep es i, es') \<and> length es' = length es \<and>
    (\<forall>k. in_range es k \<longrightarrow> rep es' k = rep es k \<and> uf_constraints (es' ! nat k) = uf_constraints (es ! nat k))"
  using find_inv [OF reachable_uf_inv [OF assms(1)] assms(2)] by metis

theorem find_keeps_classes_witness:
  "\<exists>es'. UFManager_find sample_uf 1 = Some (1, es') \<and> rep es' 0 = 0"
  using find_keeps_classes [OF sample_uf_reachable, of 1] by fastforce

text \<open>
  C27. Joining two roots is the union of their classes: afterwards two elements have one
  representative exactly when they had before or one was in each of the two classes, and the first
  root holds the constraints of both.
\<close>

theorem join_roots_refines_union:
  assumes "uf_reachable es" "is_root es a" "is_root es b" "a \<noteq> b"
  shows "\<exists>es'. UFManager_join es a b = Some (a, es') \<and>
    (\<forall>i j. in_range es i \<longrightarrow> in_range es j \<longrightarrow>
      (rep es' i = rep es' j \<longleftrightarrow>
        rep es i = rep es j \<or> {rep es i, rep es j} = {a, b})) \<and>
    uf_constraints (es' ! nat a) = uf_constraints (es ! nat a) @ uf_constraints (es ! nat b) \<and>
    uf_constraints (es' ! nat b) = []"
proof -
  have "in_range es a" "in_range es b" using assms by (auto simp: is_root_def)
  then obtain es' where es': "UFManager_join es a b = Some (a, es')"
    "\<And>k. in_range es k \<Longrightarrow> rep es' k = (if rep es k = b then a else rep es k)"
    "uf_constraints (es' ! nat a) = uf_constraints (es ! nat a) @ uf_constraints (es ! nat b)"
    "uf_constraints (es' ! nat b) = []"
    using join_spec [OF reachable_uf_inv [OF assms(1)], of a b] assms(2-4) rep_root by metis
  have "rep es' i = rep es' j \<longleftrightarrow> rep es i = rep es j \<or> {rep es i, rep es j} = {a, b}"
    if "in_range es i" "in_range es j" for i j
    using es'(2) that assms(4) by (auto simp: doubleton_eq_iff)
  with es' show ?thesis by blast
qed

theorem join_roots_refines_union_witness:
  "\<exists>es'. UFManager_join sample_uf 0 1 = Some (0, es') \<and> rep es' 0 = rep es' 1 \<and> rep es' 0 \<noteq> rep es' 2"
proof -
  obtain es' where "UFManager_join sample_uf 0 1 = Some (0, es')"
    "\<forall>i j. in_range sample_uf i \<longrightarrow> in_range sample_uf j \<longrightarrow>
      (rep es' i = rep es' j \<longleftrightarrow>
        rep sample_uf i = rep sample_uf j \<or> {rep sample_uf i, rep sample_uf j} = {0, 1})"
    using join_roots_refines_union [OF sample_uf_reachable, of 0 1] by auto
  moreover from this(2) have "rep es' 0 = rep es' 1" "rep es' 0 \<noteq> rep es' 2"
    by (auto simp: doubleton_eq_iff dest: spec)
  ultimately show ?thesis by blast
qed

text \<open>
  The union is lost when the second argument is no root: \<open>join\<close> hangs the element, and not its
  root, below the first representative. After joining 0 with 1 and 2 with 1, the elements 0 and 2
  have different representatives.
\<close>

theorem join_not_transitive:
  "(case UFManager_join sample_uf 0 1 of
      Some (_, e1) \<Rightarrow>
        (case UFManager_join e1 2 1 of
           Some (_, e2) \<Rightarrow> rep e2 1 = rep e2 2 \<and> rep e2 0 \<noteq> rep e2 2
         | None \<Rightarrow> False)
    | None \<Rightarrow> False)"
  by code_simp

text \<open>Destroying an element that is not the last one leaves the parents behind it dangling.\<close>

lemma destroy_dangling:
  "(case UFManager_destroy sample_uf sample_array of
      Some es \<Rightarrow> in_range es 1 \<and> UFManager_find es 1 = None
    | None \<Rightarrow> False)"
  by code_simp

end
