(* ===== verification/Expr_Util.thy ===== *)
theory Expr_Util
  imports Expr_Rebuild
begin

text \<open>
  The searches of \<^verbatim>\<open>klee/lib/Expr/ExprUtil.cpp\<close>: \<open>findReads\<close>, a worklist over the distinct
  subexpressions, and \<open>findSymbolicObjects\<close>, the visitor that collects the symbolic arrays an
  expression reads. Both memoise what they have seen; both are shown to find exactly what occurs.
\<close>

subsection \<open>findReads\<close>

fun isReadExpr :: "expr \<Rightarrow> bool" where
  "isReadExpr (ReadExpr _ _ _) = True"
| "isReadExpr _ = False"

text \<open>The stack with the set of visited expressions; the head of the list is the stack's top.\<close>

type_synonym worklist = "expr list \<times> expr set"

fun push_new :: "expr \<Rightarrow> worklist \<Rightarrow> worklist" where
  "push_new k (stack, visited) =
     (if \<not> isConstantExpr k \<and> k \<notin> visited then (k # stack, insert k visited) else (stack, visited))"

fun push_updates :: "ulist \<Rightarrow> worklist \<Rightarrow> worklist" where
  "push_updates NoUpdates wl = wl"
| "push_updates (UpdateNode n i v) wl = push_updates n (push_new v (push_new i wl))"

fun push_kids :: "expr list \<Rightarrow> worklist \<Rightarrow> worklist" where
  "push_kids [] wl = wl"
| "push_kids (k # ks) wl = push_kids ks (push_new k wl)"

text \<open>The direct successors of an expression, in the order the loop pushes them.\<close>

fun update_exprs :: "ulist \<Rightarrow> expr list" where
  "update_exprs NoUpdates = []"
| "update_exprs (UpdateNode n i v) = i # v # update_exprs n"

fun succs :: "bool \<Rightarrow> expr \<Rightarrow> expr list" where
  "succs visitUpdates (ReadExpr a us i) = i # (if visitUpdates then update_exprs us else [])"
| "succs visitUpdates e = kids e"

lemma push_updates_kids: "push_updates us wl = push_kids (update_exprs us) wl"
  by (induction us wl rule: push_updates.induct) simp_all

text \<open>What occurs in an expression, and the bound the loop's termination rests on.\<close>

primrec subs :: "expr \<Rightarrow> expr set" and subs_u :: "ulist \<Rightarrow> expr set" where
  "subs (ConstantExpr c) = {ConstantExpr c}"
| "subs (NotOptimizedExpr e) = insert (NotOptimizedExpr e) (subs e)"
| "subs (ReadExpr a us i) = insert (ReadExpr a us i) (subs_u us \<union> subs i)"
| "subs (SelectExpr c t f) = insert (SelectExpr c t f) (subs c \<union> subs t \<union> subs f)"
| "subs (ConcatExpr l r) = insert (ConcatExpr l r) (subs l \<union> subs r)"
| "subs (ExtractExpr e off w) = insert (ExtractExpr e off w) (subs e)"
| "subs (ZExtExpr e w) = insert (ZExtExpr e w) (subs e)"
| "subs (SExtExpr e w) = insert (SExtExpr e w) (subs e)"
| "subs (NotExpr e) = insert (NotExpr e) (subs e)"
| "subs (BinaryExpr k l r) = insert (BinaryExpr k l r) (subs l \<union> subs r)"
| "subs_u NoUpdates = {}"
| "subs_u (UpdateNode n i v) = subs_u n \<union> subs i \<union> subs v"

lemma subs_finite: "finite (subs e)" "finite (subs_u us)"
  by (induction e and us) auto

lemma subs_self [simp]: "e \<in> subs e"
  by (cases e) auto

lemma subs_update_exprs: "x \<in> set (update_exprs us) \<Longrightarrow> subs x \<subseteq> subs_u us"
  by (induction us rule: update_exprs.induct) auto

lemma subs_succs: "x \<in> set (succs b e) \<Longrightarrow> subs x \<subseteq> subs e"
  using subs_update_exprs by (cases e) (auto split: if_splits)

lemma subs_kids: "x \<in> set (kids e) \<Longrightarrow> subs x \<subseteq> subs e"
  by (cases e) auto

definition universe :: "expr list \<Rightarrow> expr set" where
  "universe stack = (\<Union>e \<in> set stack. subs e)"

definition pending :: "worklist \<Rightarrow> nat" where
  "pending wl = card (universe (fst wl) - snd wl) + length (fst wl)"

lemma universe_finite [simp]: "finite (universe stack)"
  by (simp add: universe_def subs_finite)

lemma push_kids_spec:
  assumes "push_kids ks (stack, visited) = (stack', visited')"
  shows "\<exists>new. stack' = new @ stack \<and> visited' = visited \<union> set new \<and> distinct new \<and> set new \<inter> visited = {} \<and>
    set new \<subseteq> {k \<in> set ks. \<not> isConstantExpr k} \<and> {k \<in> set ks. \<not> isConstantExpr k} \<subseteq> visited'"
  using assms
proof (induction ks arbitrary: stack visited)
  case (Cons k ks)
  show ?case
  proof (cases "\<not> isConstantExpr k \<and> k \<notin> visited")
    case True
    with Cons.prems have "push_kids ks (k # stack, insert k visited) = (stack', visited')" by simp
    from Cons.IH [OF this] obtain new where "stack' = new @ k # stack" "visited' = insert k visited \<union> set new"
      "distinct new" "set new \<inter> insert k visited = {}" "set new \<subseteq> {k \<in> set ks. \<not> isConstantExpr k}"
      "{k \<in> set ks. \<not> isConstantExpr k} \<subseteq> visited'" by blast
    with True show ?thesis by (intro exI [of _ "new @ [k]"]) auto
  next
    case False
    with Cons.prems have "push_kids ks (stack, visited) = (stack', visited')" by (auto split: if_splits)
    from Cons.IH [OF this] obtain new where "stack' = new @ stack" "visited' = visited \<union> set new"
      "distinct new" "set new \<inter> visited = {}" "set new \<subseteq> {k \<in> set ks. \<not> isConstantExpr k}"
      "{k \<in> set ks. \<not> isConstantExpr k} \<subseteq> visited'" by blast
    with False show ?thesis by (intro exI [of _ new]) auto
  qed
qed auto

lemma push_kids_pending:
  assumes "\<And>k. k \<in> set ks \<Longrightarrow> subs k \<subseteq> subs t0"
  shows "pending (push_kids ks (stack, visited)) < pending (t0 # stack, visited)"
proof -
  obtain stack' visited' where p: "push_kids ks (stack, visited) = (stack', visited')"
    by (cases "push_kids ks (stack, visited)") auto
  obtain new where new: "stack' = new @ stack" "visited' = visited \<union> set new" "distinct new"
      "set new \<inter> visited = {}" "set new \<subseteq> set ks"
    using push_kids_spec [OF p] by blast
  let ?U = "universe (t0 # stack)"
  have sub: "universe stack' \<subseteq> ?U" "set new \<subseteq> ?U"
    using new(1,5) assms subs_self by (fastforce simp: universe_def)+
  have "card (universe stack' - visited') \<le> card ((?U - visited) - set new)"
    using sub(1) new(2) by (intro card_mono) auto
  also have "\<dots> = card (?U - visited) - length new"
    using sub(2) new(3,4) by (subst card_Diff_subset) (auto simp: distinct_card)
  finally have "card (universe stack' - visited') \<le> card (?U - visited) - length new" .
  moreover have "length new \<le> card (?U - visited)"
    using sub(2) new(3,4) by (subst distinct_card [symmetric]) (auto intro: card_mono)
  ultimately show ?thesis by (simp add: p pending_def new(1))
qed

lemma pending_less:
  "pending (push_updates us (push_new i (stack, visited))) < pending (ReadExpr a us i # stack, visited)"
  "pending (push_new i (stack, visited)) < pending (ReadExpr a us i # stack, visited)"
  "pending (push_kids (kids t0) (stack, visited)) < pending (t0 # stack, visited)"
proof -
  have "pending (push_kids (i # update_exprs us) (stack, visited)) < pending (ReadExpr a us i # stack, visited)"
    by (rule push_kids_pending) (use subs_update_exprs [of _ us] in auto)
  then show "pending (push_updates us (push_new i (stack, visited))) < pending (ReadExpr a us i # stack, visited)"
    by (simp only: push_updates_kids push_kids.simps)
  have "pending (push_kids [i] (stack, visited)) < pending (ReadExpr a us i # stack, visited)"
    by (rule push_kids_pending) auto
  then show "pending (push_new i (stack, visited)) < pending (ReadExpr a us i # stack, visited)"
    by (simp only: push_kids.simps)
  show "pending (push_kids (kids t0) (stack, visited)) < pending (t0 # stack, visited)"
    by (rule push_kids_pending) (rule subs_kids)
qed

text \<open>
  The loop. The heads of the update lists already traversed are kept in \<open>updates\<close>.
\<close>

function findReads_loop :: "bool \<Rightarrow> worklist \<Rightarrow> ulist set \<Rightarrow> expr list \<Rightarrow> expr list" where
  "findReads_loop visitUpdates ([], visited) updates results = results"
| "findReads_loop visitUpdates (t0 # stack, visited) updates results =
     (case t0 of
        ReadExpr a us i \<Rightarrow>
          (let wl = push_new i (stack, visited)
           in if visitUpdates \<and> us \<notin> updates
              then findReads_loop visitUpdates (push_updates us wl) (insert us updates) (results @ [t0])
              else findReads_loop visitUpdates wl updates (results @ [t0]))
      | _ \<Rightarrow> findReads_loop visitUpdates (push_kids (kids t0) (stack, visited)) updates results)"
  by pat_completeness auto
termination
  by (relation "measure (\<lambda>(b, wl, us, rs). pending wl)")
     (simp_all add: pending_less del: push_new.simps push_kids.simps kids.simps)

definition findReads :: "expr \<Rightarrow> bool \<Rightarrow> expr list" where
  "findReads e visitUpdates =
     findReads_loop visitUpdates (if \<not> isConstantExpr e then ([e], {e}) else ([], {})) {} []"

text \<open>The expressions the search has to see: the expression and, transitively, what it is built from.\<close>

inductive occurs :: "bool \<Rightarrow> expr \<Rightarrow> expr \<Rightarrow> bool" for b e where
  occurs_self: "\<not> isConstantExpr e \<Longrightarrow> occurs b e e"
| occurs_succ: "occurs b e x \<Longrightarrow> y \<in> set (succs b x) \<Longrightarrow> \<not> isConstantExpr y \<Longrightarrow> occurs b e y"

definition reads_inv :: "bool \<Rightarrow> expr \<Rightarrow> worklist \<Rightarrow> ulist set \<Rightarrow> expr list \<Rightarrow> bool" where
  "reads_inv b e wl updates results \<longleftrightarrow>
     distinct (fst wl) \<and> set (fst wl) \<subseteq> snd wl \<and> snd wl \<subseteq> Collect (occurs b e) \<and>
     (\<not> isConstantExpr e \<longrightarrow> e \<in> snd wl) \<and>
     (\<forall>x \<in> snd wl - set (fst wl). \<forall>y \<in> set (succs b x). \<not> isConstantExpr y \<longrightarrow> y \<in> snd wl) \<and>
     (\<forall>us \<in> updates. \<forall>y \<in> set (update_exprs us). \<not> isConstantExpr y \<longrightarrow> y \<in> snd wl) \<and>
     distinct results \<and> set results = {x \<in> snd wl - set (fst wl). isReadExpr x}"

lemma reads_inv_step:
  assumes inv: "reads_inv b e (t # stack, visited) updates results"
    and push: "push_kids ks (stack, visited) = (stack', visited')" and ks: "set ks \<subseteq> set (succs b t)"
    and covered: "\<And>y. y \<in> set (succs b t) \<Longrightarrow> \<not> isConstantExpr y \<Longrightarrow> y \<in> set ks \<or> y \<in> visited"
    and updates': "\<And>us y. us \<in> updates' \<Longrightarrow> y \<in> set (update_exprs us) \<Longrightarrow> \<not> isConstantExpr y \<Longrightarrow>
      us \<in> updates \<or> y \<in> set ks"
  shows "reads_inv b e (stack', visited') updates' (if isReadExpr t then results @ [t] else results)"
proof -
  obtain new where new: "stack' = new @ stack" "visited' = visited \<union> set new" "distinct new"
      "set new \<inter> visited = {}" "set new \<subseteq> {k \<in> set ks. \<not> isConstantExpr k}"
      "{k \<in> set ks. \<not> isConstantExpr k} \<subseteq> visited'"
    using push_kids_spec [OF push] by blast
  have t: "t \<in> visited" "t \<notin> set stack" "occurs b e t" using inv by (auto simp: reads_inv_def)
  have sets: "visited' - set stack' = insert t (visited - set (t # stack))"
    using new(1,2,4) t(1,2) by auto
  have v: "visited' \<subseteq> Collect (occurs b e)"
  proof
    fix x
    assume "x \<in> visited'"
    then consider "x \<in> visited" | "x \<in> set ks" "\<not> isConstantExpr x" using new(2,5) by blast
    then show "x \<in> Collect (occurs b e)"
      by cases (use inv ks occurs_succ [OF t(3)] in \<open>auto simp: reads_inv_def\<close>)
  qed
  have c: "\<forall>x \<in> visited' - set stack'. \<forall>y \<in> set (succs b x). \<not> isConstantExpr y \<longrightarrow> y \<in> visited'"
    unfolding sets
  proof (intro ballI impI)
    fix x y
    assume x: "x \<in> insert t (visited - set (t # stack))" and y: "y \<in> set (succs b x)" "\<not> isConstantExpr y"
    show "y \<in> visited'"
    proof (cases "x = t")
      case True
      with covered [of y] y new(2,6) show ?thesis by auto
    next
      case False
      with x y inv have "y \<in> visited" by (auto simp: reads_inv_def)
      with new(2) show ?thesis by simp
    qed
  qed
  have u: "\<forall>us \<in> updates'. \<forall>y \<in> set (update_exprs us). \<not> isConstantExpr y \<longrightarrow> y \<in> visited'"
  proof (intro ballI impI)
    fix us y
    assume y: "us \<in> updates'" "y \<in> set (update_exprs us)" "\<not> isConstantExpr y"
    then have "us \<in> updates \<or> y \<in> set ks" by (rule updates')
    then show "y \<in> visited'"
    proof
      assume "us \<in> updates"
      with y inv have "y \<in> visited" by (simp add: reads_inv_def)
      with new(2) show ?thesis by simp
    qed (use y new(6) in auto)
  qed
  have r: "set (if isReadExpr t then results @ [t] else results) = {x \<in> visited' - set stack'. isReadExpr x}"
    unfolding sets using inv by (auto simp: reads_inv_def)
  have d: "distinct (if isReadExpr t then results @ [t] else results)"
    using inv by (auto simp: reads_inv_def)
  have s: "distinct stack'" "set stack' \<subseteq> visited'" "\<not> isConstantExpr e \<longrightarrow> e \<in> visited'"
    using inv new(1-4) by (auto simp: reads_inv_def)
  from s v c u d r show ?thesis unfolding reads_inv_def fst_conv snd_conv by (intro conjI)
qed

lemma findReads_loop_spec:
  "reads_inv b e wl updates results \<Longrightarrow>
     distinct (findReads_loop b wl updates results) \<and>
     set (findReads_loop b wl updates results) = {x. occurs b e x \<and> isReadExpr x}"
proof (induction b wl updates results rule: findReads_loop.induct)
  case (1 b visited updates results)
  have "x \<in> visited" if "occurs b e x" for x
    using that by induction (use 1 in \<open>auto simp: reads_inv_def\<close>)
  with 1 show ?case by (auto simp: reads_inv_def)
next
  case (2 b t stack visited updates results)
  show ?case
  proof (cases "isReadExpr t")
    case True
    then obtain a us i where t: "t = ReadExpr a us i" by (cases t) auto
    show ?thesis
    proof (cases "b \<and> us \<notin> updates")
      case new: True
      obtain st vis where p: "push_kids (i # update_exprs us) (stack, visited) = (st, vis)" by fastforce
      have "reads_inv b e (st, vis) (insert us updates) (results @ [t])"
        using reads_inv_step [OF "2.prems" p, of "insert us updates"] t new by auto
      then show ?thesis
        using "2.IH"(3) [OF t refl new] p new t by (simp add: push_updates_kids)
    next
      case False
      obtain st vis where p: "push_kids [i] (stack, visited) = (st, vis)" by fastforce
      have "y \<in> visited" if "b" "y \<in> set (update_exprs us)" "\<not> isConstantExpr y" for y
        using False "2.prems" that by (auto simp: reads_inv_def)
      then have "reads_inv b e (st, vis) updates (results @ [t])"
        using reads_inv_step [OF "2.prems" p, of updates] t by (auto split: if_splits)
      then show ?thesis
        using "2.IH"(4) [OF t refl False] p False t by (auto simp: Let_def)
    qed
  next
    case False
    obtain st vis where p: "push_kids (kids t) (stack, visited) = (st, vis)" by fastforce
    have "succs b t = kids t" using False by (cases t) auto
    then have inv: "reads_inv b e (st, vis) updates results"
      using reads_inv_step [OF "2.prems" p, of updates] False by auto
    have "findReads_loop b (t # stack, visited) updates results = findReads_loop b (st, vis) updates results"
      using p False by (cases t) auto
    moreover have "distinct (findReads_loop b (st, vis) updates results) \<and>
        set (findReads_loop b (st, vis) updates results) = {x. occurs b e x \<and> isReadExpr x}"
      using "2.IH" inv p False by (cases t) simp_all
    ultimately show ?thesis by simp
  qed
qed

subsection \<open>findSymbolicObjects\<close>

text \<open>
  The state of the visitor: the expressions it has visited and the arrays found. An update list
  is visited from its head, index before value.
\<close>

type_synonym finder = "expr set \<times> array list"

definition memo :: "expr \<Rightarrow> (finder \<Rightarrow> finder) \<Rightarrow> finder \<Rightarrow> finder" where
  "memo e f st = (if e \<in> fst st then st else let st' = f st in (insert e (fst st'), snd st'))"

definition add_object :: "array \<Rightarrow> finder \<Rightarrow> finder" where
  "add_object a st =
     (if isSymbolicArray a \<and> a \<notin> set (snd st) then (fst st, snd st @ [a]) else st)"

primrec SymbolicObjectFinder :: "expr \<Rightarrow> finder \<Rightarrow> finder" and visit_updates :: "ulist \<Rightarrow> finder \<Rightarrow> finder" where
  "SymbolicObjectFinder (ConstantExpr c) = (\<lambda>st. st)"
| "SymbolicObjectFinder (NotOptimizedExpr e) = memo (NotOptimizedExpr e) (SymbolicObjectFinder e)"
| "SymbolicObjectFinder (ReadExpr a us i) = memo (ReadExpr a us i)
     (\<lambda>st. SymbolicObjectFinder i (add_object a (visit_updates us st)))"
| "SymbolicObjectFinder (SelectExpr c t f) = memo (SelectExpr c t f)
     (\<lambda>st. SymbolicObjectFinder f (SymbolicObjectFinder t (SymbolicObjectFinder c st)))"
| "SymbolicObjectFinder (ConcatExpr l r) = memo (ConcatExpr l r)
     (\<lambda>st. SymbolicObjectFinder r (SymbolicObjectFinder l st))"
| "SymbolicObjectFinder (ExtractExpr e off w) = memo (ExtractExpr e off w) (SymbolicObjectFinder e)"
| "SymbolicObjectFinder (ZExtExpr e w) = memo (ZExtExpr e w) (SymbolicObjectFinder e)"
| "SymbolicObjectFinder (SExtExpr e w) = memo (SExtExpr e w) (SymbolicObjectFinder e)"
| "SymbolicObjectFinder (NotExpr e) = memo (NotExpr e) (SymbolicObjectFinder e)"
| "SymbolicObjectFinder (BinaryExpr k l r) = memo (BinaryExpr k l r)
     (\<lambda>st. SymbolicObjectFinder r (SymbolicObjectFinder l st))"
| "visit_updates NoUpdates = (\<lambda>st. st)"
| "visit_updates (UpdateNode n i v) = (\<lambda>st. visit_updates n (SymbolicObjectFinder v (SymbolicObjectFinder i st)))"

definition findSymbolicObjects_all :: "expr list \<Rightarrow> array list" where
  "findSymbolicObjects_all es = snd (fold SymbolicObjectFinder es ({}, []))"

definition findSymbolicObjects :: "expr \<Rightarrow> array list" where
  "findSymbolicObjects e = findSymbolicObjects_all [e]"

text \<open>The symbolic arrays that occur in an expression, update lists included.\<close>

primrec arrays_of :: "expr \<Rightarrow> array set" and arrays_of_u :: "ulist \<Rightarrow> array set" where
  "arrays_of (ConstantExpr c) = {}"
| "arrays_of (NotOptimizedExpr e) = arrays_of e"
| "arrays_of (ReadExpr a us i) = {x. x = a \<and> isSymbolicArray a} \<union> arrays_of_u us \<union> arrays_of i"
| "arrays_of (SelectExpr c t f) = arrays_of c \<union> arrays_of t \<union> arrays_of f"
| "arrays_of (ConcatExpr l r) = arrays_of l \<union> arrays_of r"
| "arrays_of (ExtractExpr e off w) = arrays_of e"
| "arrays_of (ZExtExpr e w) = arrays_of e"
| "arrays_of (SExtExpr e w) = arrays_of e"
| "arrays_of (NotExpr e) = arrays_of e"
| "arrays_of (BinaryExpr k l r) = arrays_of l \<union> arrays_of r"
| "arrays_of_u NoUpdates = {}"
| "arrays_of_u (UpdateNode n i v) = arrays_of_u n \<union> arrays_of i \<union> arrays_of v"

definition finder_inv :: "finder \<Rightarrow> bool" where
  "finder_inv st \<longleftrightarrow> distinct (snd st) \<and> (\<forall>x \<in> fst st. arrays_of x \<subseteq> set (snd st))"

text \<open>A step of the finder that adds the arrays \<open>A\<close>.\<close>

definition adds :: "array set \<Rightarrow> (finder \<Rightarrow> finder) \<Rightarrow> bool" where
  "adds A f \<longleftrightarrow> (\<forall>st. finder_inv st \<longrightarrow> finder_inv (f st) \<and> set (snd (f st)) = set (snd st) \<union> A)"

lemma adds_id: "adds {} (\<lambda>st. st)"
  by (simp add: adds_def)

lemma addsD:
  assumes "adds A f" "finder_inv st"
  shows "finder_inv (f st)" "set (snd (f st)) = set (snd st) \<union> A"
  using assms unfolding adds_def by blast+

lemma adds_comp:
  assumes f: "adds A f" and g: "adds B g"
  shows "adds (A \<union> B) (\<lambda>st. g (f st))"
  unfolding adds_def
proof (intro allI impI)
  fix st
  assume inv: "finder_inv st"
  note f = addsD [OF f inv]
  note g = addsD [OF g f(1)]
  show "finder_inv (g (f st)) \<and> set (snd (g (f st))) = set (snd st) \<union> (A \<union> B)"
    using g f(2) by auto
qed

lemma adds_memo:
  assumes "adds (arrays_of e) f"
  shows "adds (arrays_of e) (memo e f)"
  unfolding adds_def
proof (intro allI impI)
  fix st
  assume inv: "finder_inv st"
  show "finder_inv (memo e f st) \<and> set (snd (memo e f st)) = set (snd st) \<union> arrays_of e"
  proof (cases "e \<in> fst st")
    case True
    then show ?thesis using inv by (auto simp: memo_def finder_inv_def)
  next
    case False
    have "finder_inv (insert e (fst (f st)), snd (f st))"
      using addsD [OF assms inv] by (simp add: finder_inv_def)
    with False show ?thesis using addsD(2) [OF assms inv] by (simp add: memo_def Let_def)
  qed
qed

lemma adds_object: "adds {x. x = a \<and> isSymbolicArray a} (add_object a)"
  by (auto simp: adds_def add_object_def finder_inv_def)

lemma finder_adds:
  "adds (arrays_of e) (SymbolicObjectFinder e)" "adds (arrays_of_u us) (visit_updates us)"
proof (induction e and us)
  case (ReadExpr a us i)
  have "adds (arrays_of_u us \<union> {x. x = a \<and> isSymbolicArray a} \<union> arrays_of i)
      (\<lambda>st. SymbolicObjectFinder i (add_object a (visit_updates us st)))"
    by (intro adds_comp ReadExpr adds_object)
  also have "arrays_of_u us \<union> {x. x = a \<and> isSymbolicArray a} \<union> arrays_of i = arrays_of (ReadExpr a us i)"
    by auto
  finally show ?case unfolding SymbolicObjectFinder.simps by (rule adds_memo)
next
  case (SelectExpr c t f)
  have "adds (arrays_of c \<union> arrays_of t \<union> arrays_of f)
      (\<lambda>st. SymbolicObjectFinder f (SymbolicObjectFinder t (SymbolicObjectFinder c st)))"
    by (intro adds_comp SelectExpr)
  then show ?case using adds_memo [of "SelectExpr c t f"] by simp
next
  case (ConcatExpr l r)
  have "adds (arrays_of l \<union> arrays_of r) (\<lambda>st. SymbolicObjectFinder r (SymbolicObjectFinder l st))"
    by (intro adds_comp ConcatExpr)
  then show ?case using adds_memo [of "ConcatExpr l r"] by simp
next
  case (BinaryExpr k l r)
  have "adds (arrays_of l \<union> arrays_of r) (\<lambda>st. SymbolicObjectFinder r (SymbolicObjectFinder l st))"
    by (intro adds_comp BinaryExpr)
  then show ?case using adds_memo [of "BinaryExpr k l r"] by simp
next
  case (UpdateNode n i v)
  have "adds (arrays_of i \<union> arrays_of v \<union> arrays_of_u n)
      (\<lambda>st. visit_updates n (SymbolicObjectFinder v (SymbolicObjectFinder i st)))"
    by (intro adds_comp UpdateNode)
  also have "arrays_of i \<union> arrays_of v \<union> arrays_of_u n = arrays_of_u (UpdateNode n i v)" by auto
  finally show ?case by simp
next
  case (NotOptimizedExpr e)
  then show ?case using adds_memo [of "NotOptimizedExpr e"] by simp
next
  case (ExtractExpr e off w)
  then show ?case using adds_memo [of "ExtractExpr e off w"] by simp
next
  case (ZExtExpr e w)
  then show ?case using adds_memo [of "ZExtExpr e w"] by simp
next
  case (SExtExpr e w)
  then show ?case using adds_memo [of "SExtExpr e w"] by simp
next
  case (NotExpr e)
  then show ?case using adds_memo [of "NotExpr e"] by simp
qed (simp_all add: adds_id)

lemma finder_fold: "adds (\<Union>e \<in> set es. arrays_of e) (fold SymbolicObjectFinder es)"
proof (induction es)
  case (Cons e es)
  have "adds (arrays_of e \<union> (\<Union>e \<in> set es. arrays_of e)) (\<lambda>st. fold SymbolicObjectFinder es (SymbolicObjectFinder e st))"
    by (rule adds_comp [OF finder_adds(1) Cons.IH])
  then show ?case by (simp add: comp_def)
qed (simp add: adds_id id_def)

lemma findSymbolicObjects_all_spec:
  "distinct (findSymbolicObjects_all es)" "set (findSymbolicObjects_all es) = (\<Union>e \<in> set es. arrays_of e)"
  using finder_fold [of es] by (auto simp: findSymbolicObjects_all_def adds_def finder_inv_def)

lemma findSymbolicObjects_spec:
  "distinct (findSymbolicObjects e)" "set (findSymbolicObjects e) = arrays_of e"
  by (simp_all add: findSymbolicObjects_def findSymbolicObjects_all_spec)

lemma eval_depends:
  assumes const: "\<And>a. isConstantArray a \<Longrightarrow> \<sigma> a = \<tau> a"
  shows "(\<And>a. a \<in> arrays_of e \<Longrightarrow> \<sigma> a = \<tau> a) \<Longrightarrow> eval e \<sigma> = eval e \<tau>"
    and "(\<And>a. a \<in> arrays_of_u us \<Longrightarrow> \<sigma> a = \<tau> a) \<Longrightarrow> ulookup us \<sigma> ix = ulookup us \<tau> ix"
proof (induction e and us arbitrary: and ix)
  case (ReadExpr a us i)
  then have "eval i \<sigma> = eval i \<tau>" "ulookup us \<sigma> (eval i \<tau>) = ulookup us \<tau> (eval i \<tau>)" by auto
  moreover have "\<sigma> a = \<tau> a" using ReadExpr.prems const [of a] by (auto simp: isConstantArray_def)
  ultimately show ?case by (simp add: initial_def split: option.split)
qed auto

subsection \<open>What the searches find\<close>

text \<open>
  C31. \<open>findReads\<close> returns, each once, exactly the reads that occur in the expression, looking into
  the update lists when it is asked to.
\<close>

theorem findReads_exact:
  "distinct (findReads e visitUpdates) \<and>
   set (findReads e visitUpdates) = {x. occurs visitUpdates e x \<and> isReadExpr x}"
  unfolding findReads_def
  by (rule findReads_loop_spec) (auto simp: reads_inv_def intro: occurs_self)

text \<open>
  C32. \<open>findSymbolicObjects\<close> returns, each once, the symbolic arrays that the expression reads, and
  they are all its value depends on.
\<close>

theorem findSymbolicObjects_exact:
  "distinct (findSymbolicObjects e) \<and> set (findSymbolicObjects e) = arrays_of e \<and>
   (\<forall>\<sigma> \<tau>. (\<forall>a. a \<in> set (findSymbolicObjects e) \<or> isConstantArray a \<longrightarrow> \<sigma> a = \<tau> a) \<longrightarrow> eval e \<sigma> = eval e \<tau>)"
proof (intro conjI allI impI)
  fix \<sigma> \<tau> :: env
  assume "\<forall>a. a \<in> set (findSymbolicObjects e) \<or> isConstantArray a \<longrightarrow> \<sigma> a = \<tau> a"
  then show "eval e \<sigma> = eval e \<tau>"
    by (intro eval_depends(1)) (simp_all add: findSymbolicObjects_spec)
qed (rule findSymbolicObjects_spec)+

theorem findSymbolicObjects_exact_witness:
  "eval (sample_read 2) sample_env = eval (sample_read 2) (sample_env(sample_array\<lparr>arrId := 7\<rparr> := (\<lambda>_. 0)))"
proof -
  let ?b = "sample_array\<lparr>arrId := 7\<rparr>"
  have "isSymbolicArray sample_array" by (simp add: sample_array_def isSymbolicArray_def)
  then have "set (findSymbolicObjects (sample_read 2)) = {sample_array}"
    by (simp add: findSymbolicObjects_spec sample_read_def)
  moreover have "arrId ?b \<noteq> arrId sample_array" "\<not> isConstantArray ?b"
    by (simp_all add: sample_array_def isConstantArray_def isSymbolicArray_def)
  ultimately have "\<forall>a. a \<in> set (findSymbolicObjects (sample_read 2)) \<or> isConstantArray a \<longrightarrow>
      sample_env a = (sample_env(?b := (\<lambda>_. 0))) a" by (metis fun_upd_other singletonD)
  then show ?thesis using findSymbolicObjects_exact [of "sample_read 2"] by blast
qed

end
