(* ===== verification/Constraint_Manager.thy ===== *)
theory Constraint_Manager
  imports Constraint_Visitors Union_Find Expr_Util
begin

text \<open>
  \<open>ConstraintManager\<close> (\<^verbatim>\<open>klee/lib/Expr/Constraints.cpp\<close>, \<^verbatim>\<open>klee/include/klee/Constraints.h\<close>): adding
  path and cheat constraints, the rewriting of the constraints already there when an equality with
  a constant is added, and the update of the union-find structures. The two global union-find
  managers are part of the state. An addition may rewrite, which adds again: the fuel bounds the
  nesting of these calls, and a result that does not run out is the same for every larger fuel.
  \<open>Constraint_Termination\<close> shows that there is always enough of it. The command-line option
  \<open>RewriteEqualities\<close> and the flag \<open>useUF\<close> are on, as they are by default.
\<close>

subsection \<open>State and errors\<close>

record cmanager =
  constraints :: "expr list"
  cheatConstraints :: "expr list"
  ufm :: ufmanager
  ufm_cheat :: ufmanager

text \<open>
  The assertion on a false constant, undefined behaviour or an assertion elsewhere, and a nesting
  deeper than the fuel.
\<close>

datatype cm_error = InvalidConstraint | Undefined | OutOfFuel

fun ok_or :: "cm_error \<Rightarrow> 'a option \<Rightarrow> cm_error + 'a" where
  "ok_or x None = Inl x"
| "ok_or x (Some y) = Inr y"

fun and_then :: "cm_error + 'a \<Rightarrow> ('a \<Rightarrow> cm_error + 'b) \<Rightarrow> cm_error + 'b" where
  "and_then (Inl x) f = Inl x"
| "and_then (Inr y) f = f y"

subsection \<open>Union-find update\<close>

fun join_chain :: "ufmanager \<Rightarrow> int list \<Rightarrow> (int \<times> ufmanager) option" where
  "join_chain es (i # j # is) =
     do { p \<leftarrow> UFManager_join es i j;
          (if is = [] then Some p else join_chain (snd p) (j # is)) }"
| "join_chain es _ = None"

definition update_uf :: "ufmanager \<Rightarrow> int list \<Rightarrow> expr \<Rightarrow> ufmanager option" where
  "update_uf es is e =
     (case is of
        [] \<Rightarrow> Some es
      | [i] \<Rightarrow> do { p \<leftarrow> UFManager_find es i; push_constraint (snd p) (fst p) e }
      | _ \<Rightarrow> do { p \<leftarrow> join_chain es is; push_constraint (snd p) (fst p) e })"

definition updateUFStructures :: "array list \<Rightarrow> expr \<Rightarrow> bool \<Rightarrow> cmanager \<Rightarrow> cmanager option" where
  "updateUFStructures arrs e cheat cm =
     (if cheat
      then do { es \<leftarrow> update_uf (ufm_cheat cm) (map (int \<circ> UFE_Cheat) arrs) e; Some (cm\<lparr>ufm_cheat := es\<rparr>) }
      else do { es \<leftarrow> update_uf (ufm cm) (map (int \<circ> UFE) arrs) e; Some (cm\<lparr>ufm := es\<rparr>) })"

subsection \<open>Rewriting and adding\<close>

text \<open>
  \<open>rewriteConstraints\<close>: the old constraints are taken out and put back one by one, a changed one by
  \<open>addConstraint\<close>, which is a parameter here because the two call each other.
\<close>

fun rewrite_loop :: "(cmanager \<Rightarrow> expr \<Rightarrow> cm_error + cmanager) \<Rightarrow> visitor \<Rightarrow> expr list \<Rightarrow> visited \<Rightarrow> bool \<Rightarrow>
    cmanager \<Rightarrow> cm_error + (bool \<times> cmanager)" where
  "rewrite_loop add v [] m changed cm = Inr (changed, cm)"
| "rewrite_loop add v (ce # old) m changed cm =
     and_then (ok_or Undefined (visit v ce m)) (\<lambda>(e, m').
       if e \<noteq> ce then and_then (add cm e) (rewrite_loop add v old m' True)
       else rewrite_loop add v old m' changed (cm\<lparr>constraints := constraints cm @ [ce]\<rparr>))"

definition rewriteConstraints :: "(cmanager \<Rightarrow> expr \<Rightarrow> cm_error + cmanager) \<Rightarrow> visitor \<Rightarrow> cmanager \<Rightarrow>
    cm_error + (bool \<times> cmanager)" where
  "rewriteConstraints add v cm = rewrite_loop add v (constraints cm) Map.empty False (cm\<lparr>constraints := []\<rparr>)"

text \<open>The end of the \<open>Eq\<close> case and the default case of \<open>addConstraintInternal\<close>.\<close>

definition record_constraint :: "expr \<Rightarrow> array list option \<Rightarrow> bool \<Rightarrow> cmanager \<Rightarrow> cm_error + cmanager" where
  "record_constraint e symNames cheat cm =
     and_then (ok_or Undefined (updateUFStructures
        (case symNames of Some arrs \<Rightarrow> arrs | None \<Rightarrow> findSymbolicObjects e) e cheat cm)) (\<lambda>cm.
       Inr (if cheat then cm\<lparr>cheatConstraints := cheatConstraints cm @ [e]\<rparr>
            else cm\<lparr>constraints := constraints cm @ [e]\<rparr>))"

primrec addConstraintInternal :: "nat \<Rightarrow> expr \<Rightarrow> array list option \<Rightarrow> bool \<Rightarrow> cmanager \<Rightarrow> cm_error + cmanager" where
  "addConstraintInternal 0 e symNames cheat cm = Inl OutOfFuel"
| "addConstraintInternal (Suc n) e symNames cheat cm =
     (case e of
        ConstantExpr c \<Rightarrow> (if ConstantExpr_isTrue c then Inr cm else Inl InvalidConstraint)
      | BinaryExpr k l r \<Rightarrow>
          (if k = And
           then and_then (addConstraintInternal n l None cheat cm) (addConstraintInternal n r None cheat)
           else if k = Eq \<and> isConstantExpr l
           then and_then (rewriteConstraints (\<lambda>cm x. addConstraintInternal n x None False cm) (ExprReplaceVisitor r l) cm)
                  (\<lambda>(_, cm). record_constraint e symNames cheat cm)
           else record_constraint e symNames cheat cm)
      | _ \<Rightarrow> record_constraint e symNames cheat cm)"

definition addConstraint :: "nat \<Rightarrow> expr \<Rightarrow> array list option \<Rightarrow> cmanager \<Rightarrow> cm_error + cmanager" where
  "addConstraint n e symNames cm = addConstraintInternal n e symNames False cm"

definition addCheatConstraint :: "nat \<Rightarrow> expr \<Rightarrow> cmanager \<Rightarrow> cm_error + cmanager" where
  "addCheatConstraint n e cm = addConstraintInternal n e None True cm"

definition DoXorOptimization :: "nat \<Rightarrow> cmanager \<Rightarrow> cm_error + cmanager" where
  "DoXorOptimization n cm =
     (let rewrite = (\<lambda>v cm. and_then (rewriteConstraints (\<lambda>cm x. addConstraint n x None cm) v cm) (\<lambda>(_, cm). Inr cm))
      in and_then (rewrite ExtractExprVisitor cm) (\<lambda>cm.
           and_then (rewrite XorLiftVisitor cm) (rewrite XorPropagateVisitor)))"

subsection \<open>The invariant\<close>

definition is_constraint :: "array set \<Rightarrow> expr \<Rightarrow> bool" where
  "is_constraint A e \<longleftrightarrow> wf_expr e \<and> clean A e \<and> getWidth e = 1"

definition registered :: "array set \<Rightarrow> (array \<Rightarrow> nat) \<Rightarrow> ufmanager \<Rightarrow> bool" where
  "registered A f es \<longleftrightarrow> uf_inv es \<and> (\<forall>a \<in> A. isSymbolicArray a \<longrightarrow> in_range es (int (f a)))"

text \<open>Well-formed boolean constraints without division over arrays that have their elements.\<close>

definition cm_inv :: "array set \<Rightarrow> cmanager \<Rightarrow> bool" where
  "cm_inv A cm \<longleftrightarrow> (\<forall>e \<in> set (constraints cm) \<union> set (cheatConstraints cm). is_constraint A e) \<and>
     registered A UFE (ufm cm) \<and> registered A UFE_Cheat (ufm_cheat cm)"

definition holds :: "expr list \<Rightarrow> env \<Rightarrow> bool" where
  "holds es \<sigma> \<longleftrightarrow> (\<forall>e \<in> set es. eval e \<sigma> = 1)"

lemma holds_simps [simp]:
  "holds [] \<sigma>" "holds (e # es) \<sigma> \<longleftrightarrow> eval e \<sigma> = 1 \<and> holds es \<sigma>"
  "holds (es @ es') \<sigma> \<longleftrightarrow> holds es \<sigma> \<and> holds es' \<sigma>"
  by (auto simp: holds_def)

lemma join_returns:
  assumes "uf_inv es" "in_range es a" "in_range es b"
  shows "\<exists>r es'. UFManager_join es a b = Some (r, es') \<and> uf_inv es' \<and> length es' = length es \<and> is_root es' r"
  using assms by (rule join_spec) blast

lemma join_chain_inv:
  assumes "uf_inv es" "\<forall>i \<in> set (i # j # is). in_range es i"
  shows "\<exists>r es'. join_chain es (i # j # is) = Some (r, es') \<and> uf_inv es' \<and> length es' = length es \<and> is_root es' r"
  using assms
proof (induction "is" arbitrary: es i j)
  case Nil
  then show ?case using join_returns [of es i j] by auto
next
  case (Cons k "is")
  obtain r es' where 1: "UFManager_join es i j = Some (r, es')" "uf_inv es'" "length es' = length es"
    using join_returns [of es i j] Cons.prems by auto
  have "\<forall>i \<in> set (j # k # is). in_range es' i" using Cons.prems(2) 1(3) by (simp add: in_range_def)
  from Cons.IH [OF 1(2) this] show ?case using 1 by simp
qed

lemma update_uf_inv:
  assumes "uf_inv es" "\<forall>i \<in> set is. in_range es i"
  shows "\<exists>es'. update_uf es is e = Some es' \<and> uf_inv es' \<and> length es' = length es"
proof -
  have push: "\<exists>es'. push_constraint es1 r e = Some es' \<and> uf_inv es' \<and> length es' = length es"
    if "uf_inv es1" "length es1 = length es" "is_root es1 r" for es1 r
    using that push_inv [of es1 r e] by (metis is_root_def)
  consider "is = []" | i where "is = [i]" | i j is' where "is = i # j # is'" by (metis neq_Nil_conv)
  then show ?thesis
  proof cases
    case 2
    obtain es1 where "UFManager_find es i = Some (rep es i, es1)" "uf_inv es1" "length es1 = length es" "is_root es1 (rep es i)"
      using find_inv [of es i] assms 2 by (metis list.set_intros(1))
    with push show ?thesis by (simp add: update_uf_def 2)
  next
    case 3
    with join_chain_inv [of es i j is'] assms push show ?thesis by (fastforce simp: update_uf_def)
  qed (use assms in \<open>simp add: update_uf_def\<close>)
qed

lemma update_registered:
  assumes "registered A f es" "\<forall>a \<in> set arrs. a \<in> A \<and> isSymbolicArray a"
  shows "\<exists>es'. update_uf es (map (int \<circ> f) arrs) e = Some es' \<and> registered A f es'"
  using update_uf_inv [of es "map (int \<circ> f) arrs" e] assms by (auto simp: registered_def in_range_def)

lemma clean_arrays:
  "clean A e \<Longrightarrow> arrays_of e \<subseteq> {a \<in> A. isSymbolicArray a}" "clean_u A us \<Longrightarrow> arrays_of_u us \<subseteq> {a \<in> A. isSymbolicArray a}"
  by (induction e and us) auto

abbreviation names_ok :: "array set \<Rightarrow> array list option \<Rightarrow> bool" where
  "names_ok A symNames \<equiv> (case symNames of Some arrs \<Rightarrow> list_all (\<lambda>a. a \<in> A \<and> isSymbolicArray a) arrs | None \<Rightarrow> True)"

lemma record_constraint_spec:
  assumes "cm_inv A cm" "is_constraint A e" "names_ok A symNames"
  shows "\<exists>cm'. record_constraint e symNames cheat cm = Inr cm' \<and> cm_inv A cm' \<and>
    constraints cm' = constraints cm @ (if cheat then [] else [e]) \<and>
    cheatConstraints cm' = cheatConstraints cm @ (if cheat then [e] else [])"
proof -
  define arrs where "arrs = (case symNames of Some arrs \<Rightarrow> arrs | None \<Rightarrow> findSymbolicObjects e)"
  have arrs: "\<forall>a \<in> set arrs. a \<in> A \<and> isSymbolicArray a"
    using assms(2,3) clean_arrays(1) [of A e] findSymbolicObjects_spec(2) [of e]
    by (auto simp: arrs_def is_constraint_def list_all_iff split: option.splits)
  have r: "registered A UFE (ufm cm)" "registered A UFE_Cheat (ufm_cheat cm)"
    using assms(1) by (simp_all add: cm_inv_def)
  obtain es1 es2 where "update_uf (ufm cm) (map (int \<circ> UFE) arrs) e = Some es1" "registered A UFE es1"
      "update_uf (ufm_cheat cm) (map (int \<circ> UFE_Cheat) arrs) e = Some es2" "registered A UFE_Cheat es2"
    using update_registered [OF r(1) arrs, of e] update_registered [OF r(2) arrs, of e] by blast
  then show ?thesis
    using assms(1,2) unfolding record_constraint_def arrs_def [symmetric]
    by (auto simp: updateUFStructures_def cm_inv_def)
qed

subsection \<open>Adding a constraint\<close>

text \<open>
  What the manager's constraints say of the array contents: the path constraints alone, or with the
  cheat constraints.
\<close>

definition path :: "bool \<Rightarrow> cmanager \<Rightarrow> env \<Rightarrow> bool" where
  "path cheat cm \<sigma> \<longleftrightarrow> holds (constraints cm) \<sigma> \<and> (cheat \<longrightarrow> holds (cheatConstraints cm) \<sigma>)"

text \<open>
  The outcome of conjoining a condition \<open>Q\<close> where \<open>P\<close> holds: the invariant and the conjunction, the
  assertion on a false constraint only when the conjunction is unsatisfiable, nothing undefined.
\<close>

definition conjoined :: "array set \<Rightarrow> bool \<Rightarrow> (env \<Rightarrow> bool) \<Rightarrow> (env \<Rightarrow> bool) \<Rightarrow> cmanager \<Rightarrow> cm_error + cmanager \<Rightarrow> bool" where
  "conjoined A cheat P Q cm res \<longleftrightarrow>
     (case res of
        Inr cm' \<Rightarrow> cm_inv A cm' \<and> (\<not> cheat \<longrightarrow> cheatConstraints cm' = cheatConstraints cm) \<and>
          (\<forall>\<sigma>. env_ok \<sigma> \<and> P \<sigma> \<longrightarrow> path cheat cm' \<sigma> = (path cheat cm \<sigma> \<and> Q \<sigma>))
      | Inl InvalidConstraint \<Rightarrow> (\<forall>\<sigma>. env_ok \<sigma> \<and> P \<sigma> \<longrightarrow> \<not> (path cheat cm \<sigma> \<and> Q \<sigma>))
      | Inl Undefined \<Rightarrow> False
      | Inl OutOfFuel \<Rightarrow> True)"

lemma conjoined_simps [simp]:
  "conjoined A cheat P Q cm (Inl OutOfFuel)" "\<not> conjoined A cheat P Q cm (Inl Undefined)"
  by (simp_all add: conjoined_def)

lemma conjoined_then:
  assumes "conjoined A cheat P Q cm res"
    and "\<And>cm'. cm_inv A cm' \<Longrightarrow> (\<And>\<sigma>. env_ok \<sigma> \<Longrightarrow> P \<sigma> \<Longrightarrow> path cheat cm' \<sigma> = (path cheat cm \<sigma> \<and> Q \<sigma>)) \<Longrightarrow>
      (\<not> cheat \<Longrightarrow> cheatConstraints cm' = cheatConstraints cm) \<Longrightarrow> conjoined A cheat P R cm' (f cm')"
  shows "conjoined A cheat P (\<lambda>\<sigma>. Q \<sigma> \<and> R \<sigma>) cm (and_then res f)"
proof (cases res)
  case (Inl x)
  then show ?thesis using assms(1) by (cases x) (auto simp: conjoined_def)
next
  case (Inr cm')
  with assms(1) have c: "cm_inv A cm'" "\<And>\<sigma>. env_ok \<sigma> \<Longrightarrow> P \<sigma> \<Longrightarrow> path cheat cm' \<sigma> = (path cheat cm \<sigma> \<and> Q \<sigma>)"
      "\<not> cheat \<Longrightarrow> cheatConstraints cm' = cheatConstraints cm"
    by (auto simp: conjoined_def)
  have "conjoined A cheat P R cm' (f cm')" by (rule assms(2)) (use c in auto)
  with c Inr show ?thesis by (auto simp: conjoined_def split: sum.splits cm_error.splits)
qed

lemma conjoined_cong:
  assumes "conjoined A cheat P Q cm res" "\<And>\<sigma>. env_ok \<sigma> \<Longrightarrow> P' \<sigma> \<Longrightarrow> P \<sigma> \<and> Q \<sigma> = R \<sigma>"
  shows "conjoined A cheat P' R cm res"
  using assms by (auto simp: conjoined_def split: sum.splits cm_error.splits)

definition adds_constraint :: "array set \<Rightarrow> (cmanager \<Rightarrow> expr \<Rightarrow> cm_error + cmanager) \<Rightarrow> bool" where
  "adds_constraint A add \<longleftrightarrow> (\<forall>cm e. cm_inv A cm \<longrightarrow> is_constraint A e \<longrightarrow>
     conjoined A False (\<lambda>_. True) (\<lambda>\<sigma>. eval e \<sigma> = 1) cm (add cm e))"

context sound_visitor
begin

lemma rewrite_loop_conjoined:
  assumes "adds_constraint A add" "consistent v m" "cm_inv A cm" "\<forall>e \<in> set old. is_constraint A e"
  shows "conjoined A False P (holds old) cm (and_then (rewrite_loop add v old m ch cm) (\<lambda>(_, cm). Inr cm))"
  using assms(2-)
proof (induction old arbitrary: m ch cm)
  case Nil
  then show ?case by (simp add: conjoined_def)
next
  case (Cons ce old)
  have ce: "is_constraint A ce" using Cons.prems by simp
  obtain e m' where e: "visit v ce m = Some (e, m')" "rewritten A P ce e" "consistent v m'"
    using visit_cached_rewritten [of ce m thesis] ce Cons.prems(1) by (auto simp: is_constraint_def)
  have val: "eval e \<sigma> = eval ce \<sigma>" if "env_ok \<sigma>" "P \<sigma>" for \<sigma> using e(2) that by (simp add: rewritten_def)
  show ?case
  proof (cases "e = ce")
    case True
    have inv: "cm_inv A (cm\<lparr>constraints := constraints cm @ [ce]\<rparr>)" using Cons.prems ce by (auto simp: cm_inv_def)
    have "conjoined A False P (holds old) (cm\<lparr>constraints := constraints cm @ [ce]\<rparr>)
        (and_then (rewrite_loop add v old m' ch (cm\<lparr>constraints := constraints cm @ [ce]\<rparr>)) (\<lambda>(_, cm). Inr cm))"
      by (rule Cons.IH) (use e inv Cons.prems in auto)
    then show ?thesis
      using e True by (auto simp: conjoined_def path_def split: sum.splits cm_error.splits)
  next
    case False
    have "is_constraint A e" using ce e(2) by (simp add: is_constraint_def rewritten_def)
    then have "conjoined A False (\<lambda>_. True) (\<lambda>\<sigma>. eval e \<sigma> = 1) cm (add cm e)"
      using assms(1) Cons.prems(2) by (simp add: adds_constraint_def)
    then have "conjoined A False P (\<lambda>\<sigma>. eval ce \<sigma> = 1) cm (add cm e)"
      by (rule conjoined_cong) (use val in simp)
    then have "conjoined A False P (\<lambda>\<sigma>. eval ce \<sigma> = 1 \<and> holds old \<sigma>) cm
        (and_then (add cm e) (\<lambda>cm. and_then (rewrite_loop add v old m' True cm) (\<lambda>(_, cm). Inr cm)))"
      by (rule conjoined_then) (use Cons.IH e Cons.prems(3) in auto)
    moreover have "and_then (rewrite_loop add v (ce # old) m ch cm) (\<lambda>(_, cm). Inr cm) =
        and_then (add cm e) (\<lambda>cm. and_then (rewrite_loop add v old m' True cm) (\<lambda>(_, cm). Inr cm))"
      using e False by (cases "add cm e") auto
    ultimately show ?thesis by (simp del: rewrite_loop.simps)
  qed
qed

lemma rewriteConstraints_conjoined:
  assumes "adds_constraint A add" "cm_inv A cm"
  shows "conjoined A False P (\<lambda>_. True) cm (and_then (rewriteConstraints add v cm) (\<lambda>(_, cm). Inr cm))"
proof -
  have "conjoined A False P (holds (constraints cm)) (cm\<lparr>constraints := []\<rparr>)
      (and_then (rewriteConstraints add v cm) (\<lambda>(_, cm). Inr cm))"
    unfolding rewriteConstraints_def
    by (rule rewrite_loop_conjoined [OF assms(1)]) (use assms(2) in \<open>auto simp: cm_inv_def\<close>)
  then show ?thesis by (auto simp: conjoined_def path_def split: sum.splits cm_error.splits)
qed

end

lemma record_conjoined:
  assumes "cm_inv A cm" "is_constraint A e" "names_ok A symNames"
  shows "conjoined A cheat P (\<lambda>\<sigma>. eval e \<sigma> = 1) cm (record_constraint e symNames cheat cm)"
  using record_constraint_spec [OF assms, of cheat] by (auto simp: conjoined_def path_def)

lemma constant_conjoined:
  assumes "cm_inv A cm" "is_constraint A (ConstantExpr c)"
  shows "conjoined A cheat P (\<lambda>\<sigma>. eval (ConstantExpr c) \<sigma> = 1) cm
    (if ConstantExpr_isTrue c then Inr cm else Inl InvalidConstraint)"
  using assms in_width_1_cases [of "apval c"]
  by (auto simp: conjoined_def is_constraint_def ConstantExpr_isTrue_def wf_apint_def)

text \<open>The addition of an equality with a constant, from the rewriting of the others.\<close>

lemma equality_conjoined:
  assumes "cm_inv A cm" "is_constraint A (BinaryExpr Eq l r)" "names_ok A symNames" "adds_constraint A add"
  shows "conjoined A cheat (\<lambda>_. True) (\<lambda>\<sigma>. eval (BinaryExpr Eq l r) \<sigma> = 1) cm
    (and_then (rewriteConstraints add (ExprReplaceVisitor r l) cm) (\<lambda>(_, cm). record_constraint (BinaryExpr Eq l r) symNames cheat cm))"
    (is "conjoined A cheat _ ?Q cm (and_then ?rw ?rec)")
proof -
  let ?P = "\<lambda>\<sigma>. eval l \<sigma> = eval r \<sigma>"
  have "sound_visitor (ExprReplaceVisitor r l) A ?P"
    by (rule replace_sound) (use assms(2) in \<open>simp_all add: is_constraint_def\<close>)
  from sound_visitor.rewriteConstraints_conjoined [OF this assms(4,1)]
  have rw: "conjoined A False ?P (\<lambda>_. True) cm (and_then ?rw (\<lambda>(_, cm). Inr cm))" .
  show ?thesis
  proof (cases ?rw)
    case (Inl x)
    with rw show ?thesis by (cases x) (auto simp: conjoined_def path_def)
  next
    case (Inr p)
    then obtain b cm1 where p: "?rw = Inr (b, cm1)" by (cases p) simp
    with rw have 1: "cm_inv A cm1" "cheatConstraints cm1 = cheatConstraints cm"
        "\<And>\<sigma>. env_ok \<sigma> \<Longrightarrow> ?P \<sigma> \<Longrightarrow> holds (constraints cm1) \<sigma> = holds (constraints cm) \<sigma>"
      by (auto simp: conjoined_def path_def)
    obtain cm2 where "?rec (b, cm1) = Inr cm2" "cm_inv A cm2"
        "constraints cm2 = constraints cm1 @ (if cheat then [] else [BinaryExpr Eq l r])"
        "cheatConstraints cm2 = cheatConstraints cm1 @ (if cheat then [BinaryExpr Eq l r] else [])"
      using record_constraint_spec [OF 1(1) assms(2,3), of cheat] by auto
    then show ?thesis using p 1(2,3) by (auto simp: conjoined_def path_def)
  qed
qed

lemma addConstraintInternal_conjoined:
  assumes "cm_inv A cm" "is_constraint A e" "names_ok A symNames"
  shows "conjoined A cheat (\<lambda>_. True) (\<lambda>\<sigma>. eval e \<sigma> = 1) cm (addConstraintInternal n e symNames cheat cm)"
  using assms
proof (induction n arbitrary: e symNames cheat cm)
  case (Suc n)
  have add: "adds_constraint A (\<lambda>cm x. addConstraintInternal n x None False cm)"
    unfolding adds_constraint_def by (intro allI impI Suc.IH) simp_all
  show ?case
  proof (cases e)
    case (ConstantExpr c)
    then show ?thesis using constant_conjoined [of A cm c] Suc.prems by simp
  next
    case (BinaryExpr k l r)
    consider "k = And" | "k = Eq" "isConstantExpr l" | "k \<noteq> And" "\<not> (k = Eq \<and> isConstantExpr l)" by blast
    then show ?thesis
    proof cases
      case 1
      have c: "is_constraint A l" "is_constraint A r"
        using Suc.prems(2) BinaryExpr 1 by (simp_all add: is_constraint_def)
      have "conjoined A cheat (\<lambda>_. True) (\<lambda>\<sigma>. eval l \<sigma> = 1 \<and> eval r \<sigma> = 1) cm
          (addConstraintInternal (Suc n) e symNames cheat cm)"
        unfolding addConstraintInternal.simps BinaryExpr using 1
        by (auto intro!: conjoined_then Suc.IH [of _ _ None] c Suc.prems)
      then show ?thesis
      proof (rule conjoined_cong)
        fix \<sigma>
        assume "env_ok \<sigma>"
        then have "eval l \<sigma> = 0 \<or> eval l \<sigma> = 1" "eval r \<sigma> = 0 \<or> eval r \<sigma> = 1"
          using c eval_bool_cases by (auto simp: is_constraint_def)
        then show "True \<and> (eval l \<sigma> = 1 \<and> eval r \<sigma> = 1) = (eval e \<sigma> = 1)"
          using BinaryExpr 1 by auto
      qed
    next
      case 2
      then show ?thesis using equality_conjoined [of A cm l r, OF _ _ _ add] BinaryExpr Suc.prems by simp
    next
      case 3
      then have "addConstraintInternal (Suc n) e symNames cheat cm = record_constraint e symNames cheat cm"
        using BinaryExpr by auto
      with record_conjoined [OF Suc.prems] show ?thesis by (simp only:)
    qed
  qed (use record_conjoined [OF Suc.prems] in simp_all)
qed simp

subsection \<open>Fuel\<close>

text \<open>A result that is not a lack of fuel stays the same with more fuel.\<close>

definition refines_fuel :: "cm_error + 'a \<Rightarrow> cm_error + 'a \<Rightarrow> bool" where
  "refines_fuel res res' \<longleftrightarrow> res = Inl OutOfFuel \<or> res' = res"

lemma refines_refl [simp]: "refines_fuel res res"
  by (simp add: refines_fuel_def)

lemma refines_then:
  assumes "refines_fuel res res'" "\<And>x. refines_fuel (f x) (g x)"
  shows "refines_fuel (and_then res f) (and_then res' g)"
  using assms by (cases res) (auto simp: refines_fuel_def)

lemma refines_rewrite:
  assumes "\<And>cm e. refines_fuel (add cm e) (add' cm e)"
  shows "refines_fuel (rewrite_loop add v old m ch cm) (rewrite_loop add' v old m ch cm)"
  by (induction old arbitrary: m ch cm) (auto intro!: refines_then assms)

lemma addConstraintInternal_mono:
  "refines_fuel (addConstraintInternal n e symNames cheat cm) (addConstraintInternal (Suc n) e symNames cheat cm)"
proof (induction n arbitrary: e symNames cheat cm)
  case 0
  then show ?case by (simp add: refines_fuel_def)
next
  case (Suc n)
  have rw: "refines_fuel (rewriteConstraints (\<lambda>cm x. addConstraintInternal n x None False cm) v cm)
      (rewriteConstraints (\<lambda>cm x. addConstraintInternal (Suc n) x None False cm) v cm)" for v
    unfolding rewriteConstraints_def by (rule refines_rewrite) (rule Suc.IH)
  show ?case
    unfolding addConstraintInternal.simps(2) [of "Suc n" e] addConstraintInternal.simps(2) [of n e]
    by (cases e) (auto simp del: addConstraintInternal.simps intro!: refines_then Suc.IH rw)
qed

lemma addConstraintInternal_more_fuel:
  assumes "addConstraintInternal n e symNames cheat cm = res" "res \<noteq> Inl OutOfFuel" "n \<le> m"
  shows "addConstraintInternal m e symNames cheat cm = res"
  using assms(3,1)
proof (induction rule: dec_induct)
  case (step k)
  then show ?case
    using addConstraintInternal_mono [of k e symNames cheat cm] assms(2) by (simp add: refines_fuel_def)
qed

subsection \<open>Constraints that trigger no rewriting\<close>

text \<open>The conjuncts that the splitting of conjunctions reaches, true constants dropped.\<close>

fun conjuncts :: "expr \<Rightarrow> expr list" where
  "conjuncts (BinaryExpr And l r) = conjuncts l @ conjuncts r"
| "conjuncts (ConstantExpr c) = []"
| "conjuncts e = [e]"

fun no_rewrite :: "expr \<Rightarrow> bool" where
  "no_rewrite (BinaryExpr And l r) \<longleftrightarrow> no_rewrite l \<and> no_rewrite r"
| "no_rewrite (BinaryExpr Eq l r) \<longleftrightarrow> \<not> isConstantExpr l"
| "no_rewrite (ConstantExpr c) \<longleftrightarrow> ConstantExpr_isTrue c"
| "no_rewrite e \<longleftrightarrow> True"

lemma plain_node:
  assumes "no_rewrite e" "\<And>l r. e \<noteq> BinaryExpr And l r" "\<not> isConstantExpr e"
  shows "conjuncts e = [e]"
    "addConstraintInternal (Suc n) e symNames cheat cm = record_constraint e symNames cheat cm"
proof -
  show "conjuncts e = [e]" using assms by (cases e rule: conjuncts.cases) auto
  show "addConstraintInternal (Suc n) e symNames cheat cm = record_constraint e symNames cheat cm"
  proof (cases e)
    case (BinaryExpr k l r)
    then have "k \<noteq> And" "\<not> (k = Eq \<and> isConstantExpr l)" using assms(1,2) by auto
    with BinaryExpr show ?thesis by auto
  qed (use assms(3) in simp_all)
qed

lemma add_no_rewrite:
  assumes "no_rewrite e" "cm_inv A cm" "is_constraint A e" "names_ok A symNames" "esize e \<le> n"
  shows "\<exists>cm'. addConstraintInternal n e symNames False cm = Inr cm' \<and> cm_inv A cm' \<and>
    constraints cm' = constraints cm @ conjuncts e \<and> cheatConstraints cm' = cheatConstraints cm"
  using assms
proof (induction n arbitrary: e symNames cm)
  case 0
  then show ?case by (cases e) simp_all
next
  case (Suc n)
  consider l r where "e = BinaryExpr And l r" | c where "e = ConstantExpr c" | "\<And>l r. e \<noteq> BinaryExpr And l r" "\<not> isConstantExpr e"
    by (metis isConstantExpr_iff)
  then show ?case
  proof cases
    case (1 l r)
    have c: "is_constraint A l" "is_constraint A r" "no_rewrite l" "no_rewrite r" "esize l \<le> n" "esize r \<le> n"
      using Suc.prems 1 by (simp_all add: is_constraint_def)
    obtain cm1 where 1: "addConstraintInternal n l None False cm = Inr cm1" "cm_inv A cm1"
        "constraints cm1 = constraints cm @ conjuncts l" "cheatConstraints cm1 = cheatConstraints cm"
      using Suc.IH [of l cm None] c Suc.prems by auto
    obtain cm2 where "addConstraintInternal n r None False cm1 = Inr cm2" "cm_inv A cm2"
        "constraints cm2 = constraints cm1 @ conjuncts r" "cheatConstraints cm2 = cheatConstraints cm1"
      using Suc.IH [of r cm1 None] c 1 by auto
    with 1 \<open>e = BinaryExpr And l r\<close> show ?thesis by simp
  next
    case 2
    then show ?thesis using Suc.prems by simp
  next
    case 3
    then show ?thesis
      using record_constraint_spec [of A cm e symNames False] plain_node [OF Suc.prems(1) 3] Suc.prems by simp
  qed
qed

text \<open>An equality with a constant whose rewriting leads to no further one.\<close>

definition quiet :: "visitor \<Rightarrow> expr list \<Rightarrow> bool" where
  "quiet v es \<longleftrightarrow> (\<forall>ce \<in> set es. \<forall>e. visitActual v ce = Some e \<longrightarrow> e = ce \<or> no_rewrite e)"

definition rewritten_conjuncts :: "visitor \<Rightarrow> expr \<Rightarrow> expr list" where
  "rewritten_conjuncts v ce =
     (case visitActual v ce of Some e \<Rightarrow> (if e = ce then [ce] else conjuncts e) | None \<Rightarrow> [])"

context sound_visitor
begin

lemma rewrite_loop_quiet:
  assumes "quiet v old" "consistent v m" "cm_inv A cm" "\<forall>e \<in> set old. is_constraint A e"
    and "\<forall>ce \<in> set old. \<forall>e. visitActual v ce = Some e \<longrightarrow> esize e \<le> n"
  shows "\<exists>b cm'. rewrite_loop (\<lambda>cm x. addConstraintInternal n x None False cm) v old m ch cm = Inr (b, cm') \<and>
    cm_inv A cm' \<and> constraints cm' = constraints cm @ concat (map (rewritten_conjuncts v) old) \<and>
    cheatConstraints cm' = cheatConstraints cm"
  using assms
proof (induction old arbitrary: m ch cm)
  case (Cons ce old)
  have ce: "is_constraint A ce" using Cons.prems by simp
  obtain e m' where e: "visit v ce m = Some (e, m')" "rewritten A P ce e" "consistent v m'"
    using visit_cached_rewritten [of ce m thesis] ce Cons.prems(2) by (auto simp: is_constraint_def)
  have plain: "visitActual v ce = Some e"
    using visit_agrees [OF Cons.prems(2), of ce] e(1) by (auto simp: agrees_with_def split: option.splits)
  have IH: "\<exists>b cm'. rewrite_loop (\<lambda>cm x. addConstraintInternal n x None False cm) v old m' ch cm1 = Inr (b, cm') \<and>
      cm_inv A cm' \<and> constraints cm' = constraints cm1 @ concat (map (rewritten_conjuncts v) old) \<and>
      cheatConstraints cm' = cheatConstraints cm1" if "cm_inv A cm1" for cm1 ch
    by (rule Cons.IH) (use Cons.prems e that in \<open>auto simp: quiet_def\<close>)
  show ?case
  proof (cases "e = ce")
    case True
    have "cm_inv A (cm\<lparr>constraints := constraints cm @ [ce]\<rparr>)" using Cons.prems(3) ce by (auto simp: cm_inv_def)
    from IH [OF this, of ch] show ?thesis using e(1) True plain by (simp add: rewritten_conjuncts_def [of v ce])
  next
    case False
    have "is_constraint A e" using ce e(2) by (simp add: is_constraint_def rewritten_def)
    then obtain cm1 where 1: "addConstraintInternal n e None False cm = Inr cm1" "cm_inv A cm1"
        "constraints cm1 = constraints cm @ conjuncts e" "cheatConstraints cm1 = cheatConstraints cm"
      using add_no_rewrite [of e A cm None n] Cons.prems plain False by (auto simp: quiet_def)
    from IH [OF 1(2), of True] show ?thesis using e(1) False plain 1 by (simp add: rewritten_conjuncts_def [of v ce])
  qed
qed simp

end

lemma add_quiet_equality:
  assumes "quiet (ExprReplaceVisitor r l) (constraints cm)" "isConstantExpr l"
    and "cm_inv A cm" "is_constraint A (BinaryExpr Eq l r)" "names_ok A symNames"
  shows "\<exists>n0 cm'. cm_inv A cm' \<and>
    constraints cm' = concat (map (rewritten_conjuncts (ExprReplaceVisitor r l)) (constraints cm)) @ [BinaryExpr Eq l r] \<and>
    cheatConstraints cm' = cheatConstraints cm \<and>
    (\<forall>n \<ge> n0. addConstraintInternal n (BinaryExpr Eq l r) symNames False cm = Inr cm')"
proof -
  let ?v = "ExprReplaceVisitor r l"
  define n where "n = sum_list (map (\<lambda>ce. case visitActual ?v ce of Some e \<Rightarrow> esize e | None \<Rightarrow> 0) (constraints cm))"
  have n: "\<forall>ce \<in> set (constraints cm). \<forall>e. visitActual ?v ce = Some e \<longrightarrow> esize e \<le> n"
    unfolding n_def by (auto intro!: member_le_sum_list rev_image_eqI)
  have v: "sound_visitor ?v A (\<lambda>\<sigma>. eval l \<sigma> = eval r \<sigma>)"
    by (rule replace_sound) (use assms(4) in \<open>simp_all add: is_constraint_def\<close>)
  have "cm_inv A (cm\<lparr>constraints := []\<rparr>)" "\<forall>e \<in> set (constraints cm). is_constraint A e"
    using assms(3) by (simp_all add: cm_inv_def)
  from sound_visitor.rewrite_loop_quiet [OF v assms(1) consistent_empty this n, of False]
  obtain b cm1 where 1: "rewriteConstraints (\<lambda>cm x. addConstraintInternal n x None False cm) ?v cm = Inr (b, cm1)"
      "cm_inv A cm1" "constraints cm1 = concat (map (rewritten_conjuncts ?v) (constraints cm))"
      "cheatConstraints cm1 = cheatConstraints cm"
    by (auto simp: rewriteConstraints_def)
  obtain cm2 where 2: "record_constraint (BinaryExpr Eq l r) symNames False cm1 = Inr cm2" "cm_inv A cm2"
      "constraints cm2 = constraints cm1 @ [BinaryExpr Eq l r]" "cheatConstraints cm2 = cheatConstraints cm1"
    using record_constraint_spec [OF 1(2) assms(4,5), of False] by auto
  have "addConstraintInternal (Suc n) (BinaryExpr Eq l r) symNames False cm = Inr cm2"
    using 1(1) 2(1) assms(2) by simp
  then have "\<forall>m \<ge> Suc n. addConstraintInternal m (BinaryExpr Eq l r) symNames False cm = Inr cm2"
    using addConstraintInternal_more_fuel by blast
  then show ?thesis using 1(3,4) 2(2-4) by (intro exI [of _ "Suc n"] exI [of _ cm2]) simp
qed

subsection \<open>Properties\<close>

definition sample_cm :: "expr list \<Rightarrow> cmanager" where
  "sample_cm es = \<lparr>constraints = es, cheatConstraints = [], ufm = sample_uf, ufm_cheat = sample_uf\<rparr>"

definition sample_lt :: "nat \<Rightarrow> int \<Rightarrow> expr" where
  "sample_lt i c = BinaryExpr Ult (sample_read i) (ConstantExpr (APInt 8 c))"

lemma sample_constraint:
  "i < 4 \<Longrightarrow> 0 \<le> c \<Longrightarrow> c < 256 \<Longrightarrow> is_constraint {sample_array} (sample_lt i c)"
  by (simp add: is_constraint_def sample_lt_def wf_apint_def in_width_def) (simp add: sample_read_def)

lemma sample_cm_inv: "(\<forall>e \<in> set es. is_constraint {sample_array} e) \<Longrightarrow> cm_inv {sample_array} (sample_cm es)"
  using reachable_uf_inv [OF sample_uf_reachable]
  by (simp add: cm_inv_def sample_cm_def registered_def) (simp add: sample_array_def)

text \<open>
  A constraint without an equality to a constant on the left, and without a false constant, is
  added for good: fuel of its size is enough, and exactly its conjuncts are appended.
\<close>

theorem addConstraint_appends_conjuncts:
  assumes "no_rewrite e" "cm_inv A cm" "is_constraint A e" "esize e \<le> n"
  shows "\<exists>cm'. addConstraint n e None cm = Inr cm' \<and> cm_inv A cm' \<and>
    constraints cm' = constraints cm @ conjuncts e \<and> cheatConstraints cm' = cheatConstraints cm"
  unfolding addConstraint_def using assms by (intro add_no_rewrite) simp_all

theorem addConstraint_appends_conjuncts_witness:
  "\<exists>cm'. addConstraint 40 (BinaryExpr And (sample_lt 0 210) (sample_lt 1 220)) None (sample_cm []) = Inr cm' \<and>
     constraints cm' = [sample_lt 0 210, sample_lt 1 220]"
proof -
  have "is_constraint {sample_array} (BinaryExpr And (sample_lt 0 210) (sample_lt 1 220))"
    using sample_constraint [of 0 210] sample_constraint [of 1 220] by (simp add: is_constraint_def)
  with addConstraint_appends_conjuncts [of "BinaryExpr And (sample_lt 0 210) (sample_lt 1 220)"
      "{sample_array}" "sample_cm []" 40] sample_cm_inv [of "[]"]
  show ?thesis by (auto simp: sample_lt_def sample_read_def sample_cm_def)
qed

text \<open>
  C28. For boolean, well-formed constraints without division: an equality with a constant on the left
  whose substitution turns no path constraint into a false constant, another such equality, or a
  conjunction with one of these among its conjuncts (\<open>quiet\<close>), is added, the result being the same from
  some fuel on. Every older path constraint is replaced by the conjuncts of its rewriting, in order,
  and the equality comes last.
\<close>

theorem addConstraint_substitutes:
  assumes "quiet (ExprReplaceVisitor r l) (constraints cm)" "isConstantExpr l"
    and "cm_inv A cm" "is_constraint A (BinaryExpr Eq l r)"
  shows "\<exists>n0 cm'. cm_inv A cm' \<and>
    constraints cm' = concat (map (rewritten_conjuncts (ExprReplaceVisitor r l)) (constraints cm)) @ [BinaryExpr Eq l r] \<and>
    cheatConstraints cm' = cheatConstraints cm \<and>
    (\<forall>n \<ge> n0. addConstraint n (BinaryExpr Eq l r) None cm = Inr cm')"
  unfolding addConstraint_def using assms by (intro add_quiet_equality) simp_all

theorem addConstraint_substitutes_witness:
  "\<exists>n0 cm'. constraints cm' = [BinaryExpr Ult (ConstantExpr (APInt 8 5)) (sample_read 1),
       BinaryExpr Eq (ConstantExpr (APInt 8 5)) (sample_read 0)] \<and>
     (\<forall>n \<ge> n0. addConstraint n (BinaryExpr Eq (ConstantExpr (APInt 8 5)) (sample_read 0)) None
        (sample_cm [BinaryExpr Ult (sample_read 0) (sample_read 1)]) = Inr cm')"
proof -
  let ?l = "ConstantExpr (APInt 8 5)" and ?lt = "BinaryExpr Ult (sample_read 0) (sample_read 1)"
  let ?v = "ExprReplaceVisitor (sample_read 0) ?l" and ?cm = "sample_cm [?lt]"
  have v: "visitActual ?v ?lt = Some (BinaryExpr Ult ?l (sample_read 1))" by code_simp
  have cs: "constraints ?cm = [?lt]" by (simp add: sample_cm_def)
  have 1: "quiet ?v (constraints ?cm)" unfolding quiet_def cs using v by simp
  have 2: "is_constraint {sample_array} ?lt" "is_constraint {sample_array} (BinaryExpr Eq ?l (sample_read 0))"
    by (simp_all add: is_constraint_def wf_apint_def in_width_def) (simp_all add: sample_read_def)
  have 3: "cm_inv {sample_array} ?cm" by (rule sample_cm_inv) (use 2(1) in simp)
  have "ConstantExpr c \<noteq> sample_read i" for c i by (simp add: sample_read_def)
  then have r: "concat (map (rewritten_conjuncts ?v) [?lt]) = [BinaryExpr Ult ?l (sample_read 1)]"
    using v by (simp add: rewritten_conjuncts_def)
  show ?thesis using addConstraint_substitutes [OF 1 _ 3 2(2), unfolded cs r] by auto
qed

text \<open>
  The result of an addition does not depend on the fuel: with more fuel it is the same unless it
  was a lack of fuel.
\<close>

theorem addConstraint_fuel_irrelevant:
  assumes "addConstraint n e symNames cm = res" "res \<noteq> Inl OutOfFuel" "n \<le> m"
  shows "addConstraint m e symNames cm = res"
  using addConstraintInternal_more_fuel assms unfolding addConstraint_def by blast

theorem addConstraint_fuel_irrelevant_witness:
  "addConstraint 7 (ConstantExpr (APInt 1 0)) None (sample_cm []) = Inl InvalidConstraint"
  using addConstraint_fuel_irrelevant [of 1 "ConstantExpr (APInt 1 0)" None "sample_cm []" "Inl InvalidConstraint" 7]
  by (simp add: addConstraint_def ConstantExpr_isTrue_def)

subsection \<open>A cheat constraint rewrites the path constraints\<close>

text \<open>
  \<open>addConstraintInternal\<close> substitutes in the path constraints also when it adds a cheat constraint: the
  cheat equality makes the path constraint true and it is dropped, so the path constraints alone
  no longer say what they did.
\<close>

theorem cheat_drops_path_constraint:
  "(case addCheatConstraint 5 (BinaryExpr Eq (ConstantExpr (APInt 8 5)) (sample_read 0)) (sample_cm [sample_lt 0 10]) of
      Inr cm \<Rightarrow> constraints cm = [] | Inl _ \<Rightarrow> False) \<and>
   \<not> holds (constraints (sample_cm [sample_lt 0 10])) sample_env"
proof
  show "case addCheatConstraint 5 (BinaryExpr Eq (ConstantExpr (APInt 8 5)) (sample_read 0)) (sample_cm [sample_lt 0 10]) of
      Inr cm \<Rightarrow> constraints cm = [] | Inl _ \<Rightarrow> False" by code_simp
qed (simp add: sample_cm_def sample_lt_def)

end
