(* ===== verification/Solver_Query.thy ===== *)
theory Solver_Query
  imports Constraint_Manager Evaluator
begin

text \<open>
  What a solver decides: the validity of an expression under constraints, over all array contents
  (\<^verbatim>\<open>klee/include/klee/Solver.h\<close>).
\<close>

subsection \<open>Meaning of a query\<close>

text \<open>
  The array contents a solver decides over: in range, and with a fixed content of constant arrays
  beyond their values.
\<close>

definition contents :: "env \<Rightarrow> bool" where
  "contents \<sigma> \<longleftrightarrow> env_ok \<sigma> \<and> (\<forall>a ix. isConstantArray a \<longrightarrow> \<sigma> a ix = 0)"

definition valid :: "expr list \<Rightarrow> expr \<Rightarrow> bool" where
  "valid cs e \<longleftrightarrow> (\<forall>\<sigma>. contents \<sigma> \<and> holds cs \<sigma> \<longrightarrow> eval e \<sigma> = 1)"

subsection \<open>Queries\<close>

datatype validity = ValidityTrue | ValidityFalse | ValidityUnknown

end
