(* ===== verification/Independent_Solver.thy ===== *)
theory Independent_Solver
  imports Solver_Query "HOL-Library.AList"
begin

text \<open>
  The independence analysis in front of the core solver (\<^verbatim>\<open>klee/lib/Solver/IndependentSolver.cpp\<close>):
  \<open>DenseSet\<close>, \<open>IndependentElementSet\<close>, the closure \<open>getIndependentConstraints\<close> and the queries that
  pass the required constraints on. The core solver is a parameter. \<open>std::set\<close> is an ordered list
  without duplicates, because \<open>DenseSet::add\<close> depends on the order; the maps and sets over
  array pointers are association lists and lists, whose order no result depends on.
\<close>

subsection \<open>DenseSet\<close>

type_synonym dense = "nat list"

definition DenseSet_insert :: "nat \<Rightarrow> dense \<Rightarrow> dense" where
  "DenseSet_insert x s = (if x \<in> set s then s else insort x s)"

text \<open>The addition of a set, with the flag \<open>modified\<close>.\<close>

fun DenseSet_add_loop :: "dense \<Rightarrow> bool \<Rightarrow> dense \<Rightarrow> bool \<times> dense" where
  "DenseSet_add_loop [] modified s = (modified, s)"
| "DenseSet_add_loop (x # b) modified s =
     (if modified \<or> x \<in> set s then DenseSet_add_loop b True (DenseSet_insert x s)
      else DenseSet_add_loop b modified s)"

definition DenseSet_add :: "dense \<Rightarrow> dense \<Rightarrow> bool \<times> dense" where
  "DenseSet_add b s = DenseSet_add_loop b False s"

definition DenseSet_intersects :: "dense \<Rightarrow> dense \<Rightarrow> bool" where
  "DenseSet_intersects s b = list_ex (\<lambda>x. x \<in> set b) s"

subsection \<open>IndependentElementSet\<close>

record ies =
  elements :: "(array \<times> dense) list"
  wholeObjects :: "array list"
  exprs :: "expr list"

definition ies_empty :: ies where
  "ies_empty = \<lparr>elements = [], wholeObjects = [], exprs = []\<rparr>"

text \<open>
  One read in the constructor. The constant index is taken with an assertion that it has at most 32
  bits; \<open>elements[array]\<close> creates an empty set when there is none.
\<close>

fun ies_read :: "expr \<Rightarrow> ies \<Rightarrow> ies option" where
  "ies_read (ReadExpr a us i) s =
     (if isConstantArray a \<and> us = NoUpdates then Some s
      else if a \<in> set (wholeObjects s) then Some s
      else (case i of
          ConstantExpr CE \<Rightarrow>
            (if bitWidth CE > 32 then None
             else Some (s\<lparr>elements := AList.update a
               (DenseSet_insert (nat (apval CE)) (case map_of (elements s) a of Some d \<Rightarrow> d | None \<Rightarrow> []))
               (elements s)\<rparr>))
        | _ \<Rightarrow> Some (s\<lparr>elements := AList.delete a (elements s), wholeObjects := a # wholeObjects s\<rparr>)))"
| "ies_read _ s = None"

fun ies_reads :: "expr list \<Rightarrow> ies \<Rightarrow> ies option" where
  "ies_reads [] s = Some s"
| "ies_reads (r # rs) s = do { s \<leftarrow> ies_read r s; ies_reads rs s }"

definition IndependentElementSet :: "expr \<Rightarrow> ies option" where
  "IndependentElementSet e = ies_reads (findReads e True) (ies_empty\<lparr>exprs := [e]\<rparr>)"

definition ies_intersects :: "ies \<Rightarrow> ies \<Rightarrow> bool" where
  "ies_intersects s b \<longleftrightarrow>
     list_ex (\<lambda>a. a \<in> set (wholeObjects b) \<or> map_of (elements b) a \<noteq> None) (wholeObjects s) \<or>
     list_ex (\<lambda>(a, d). a \<in> set (wholeObjects b) \<or>
        (case map_of (elements b) a of Some d' \<Rightarrow> DenseSet_intersects d d' | None \<Rightarrow> False)) (elements s)"

text \<open>\<open>IndependentElementSet::add\<close>: the whole objects, then the elements.\<close>

fun ies_add_whole :: "array list \<Rightarrow> bool \<Rightarrow> ies \<Rightarrow> bool \<times> ies" where
  "ies_add_whole [] modified s = (modified, s)"
| "ies_add_whole (a # as) modified s =
     (if map_of (elements s) a \<noteq> None
      then ies_add_whole as True
             (s\<lparr>elements := AList.delete a (elements s), wholeObjects := List.insert a (wholeObjects s)\<rparr>)
      else if a \<notin> set (wholeObjects s)
      then ies_add_whole as True (s\<lparr>wholeObjects := a # wholeObjects s\<rparr>)
      else ies_add_whole as modified s)"

fun ies_add_elements :: "(array \<times> dense) list \<Rightarrow> bool \<Rightarrow> ies \<Rightarrow> bool \<times> ies" where
  "ies_add_elements [] modified s = (modified, s)"
| "ies_add_elements ((a, d) # es) modified s =
     (if a \<in> set (wholeObjects s) then ies_add_elements es modified s
      else (case map_of (elements s) a of
          None \<Rightarrow> ies_add_elements es True (s\<lparr>elements := (a, d) # elements s\<rparr>)
        | Some d' \<Rightarrow> (let (changed, d'') = DenseSet_add d d'
            in ies_add_elements es (modified \<or> changed) (s\<lparr>elements := AList.update a d'' (elements s)\<rparr>))))"

definition ies_add :: "ies \<Rightarrow> ies \<Rightarrow> bool \<times> ies" where
  "ies_add b s =
     (let (modified, s') = ies_add_whole (wholeObjects b) False (s\<lparr>exprs := exprs s @ exprs b\<rparr>)
      in ies_add_elements (elements b) modified s')"

subsection \<open>The closure\<close>

type_synonym work = "(expr \<times> ies) list"

text \<open>One pass over the worklist: the new worklist, the closure, whether it is done, and the result.\<close>

fun closure_pass :: "work \<Rightarrow> ies \<Rightarrow> bool \<Rightarrow> expr list \<Rightarrow> work \<times> ies \<times> bool \<times> expr list" where
  "closure_pass [] clo fin result = ([], clo, fin, result)"
| "closure_pass ((e, s) # wl) clo fin result =
     (if ies_intersects s clo
      then (let (changed, clo') = ies_add s clo
            in closure_pass wl clo' (fin \<and> \<not> changed) (result @ [e]))
      else (let (wl', rest) = closure_pass wl clo fin result in ((e, s) # wl', rest)))"

lemma closure_pass_shrinks:
  "closure_pass wl clo fin result = (wl', clo', fin', result') \<Longrightarrow>
     length wl' \<le> length wl \<and> (fin \<and> \<not> fin' \<longrightarrow> length wl' < length wl)"
proof (induction wl clo fin result arbitrary: wl' clo' fin' result' rule: closure_pass.induct)
  case (2 e s wl clo fin result)
  show ?case
  proof (cases "ies_intersects s clo")
    case True
    obtain changed clo1 where "ies_add s clo = (changed, clo1)" by fastforce
    with 2 True show ?thesis by fastforce
  next
    case False
    obtain wl1 clo1 fin1 r1 where "closure_pass wl clo fin result = (wl1, clo1, fin1, r1)" by (rule prod_cases4)
    with 2 False show ?thesis by fastforce
  qed
qed auto

function closure_loop :: "work \<Rightarrow> ies \<Rightarrow> expr list \<Rightarrow> work \<times> ies \<times> expr list" where
  "closure_loop wl clo result =
     (case closure_pass wl clo True result of
        (wl', clo', fin, result') \<Rightarrow>
          (if fin then (wl', clo', result') else closure_loop wl' clo' result'))"
  by pat_completeness auto
termination
  by (relation "measure (\<lambda>(wl, _, _). length wl)") (auto dest!: sym [of "(_, _, _, _)"] closure_pass_shrinks)

declare closure_loop.simps [simp del]

fun element_sets :: "expr list \<Rightarrow> work option" where
  "element_sets [] = Some []"
| "element_sets (e # es) = do { s \<leftarrow> IndependentElementSet e; wl \<leftarrow> element_sets es; Some ((e, s) # wl) }"

text \<open>The required constraints and the closure; the constraints left over are returned too.\<close>

definition getIndependentConstraints :: "expr list \<Rightarrow> expr \<Rightarrow> (work \<times> ies \<times> expr list) option" where
  "getIndependentConstraints cs e =
     do { clo \<leftarrow> IndependentElementSet e; wl \<leftarrow> element_sets cs; Some (closure_loop wl clo []) }"

subsection \<open>The queries\<close>

text \<open>
  The core solver decides a query, constraints and an expression, or fails. \<open>computeTruth\<close> and
  \<open>computeValue\<close> pass the required constraints on; \<open>computeValidity\<close> takes them from the union-find
  elements of the arrays in the expression when \<open>useUF\<close> is set.
\<close>

type_synonym 'a core = "expr list \<Rightarrow> expr \<Rightarrow> 'a option"

definition IndependentSolver_computeTruth :: "bool core \<Rightarrow> expr list \<Rightarrow> expr \<Rightarrow> bool option" where
  "IndependentSolver_computeTruth core cs e =
     do { g \<leftarrow> getIndependentConstraints cs e; core (snd (snd g)) e }"

definition IndependentSolver_computeValue :: "expr core \<Rightarrow> expr list \<Rightarrow> expr \<Rightarrow> expr option" where
  "IndependentSolver_computeValue core cs e =
     do { g \<leftarrow> getIndependentConstraints cs e; core (snd (snd g)) e }"

fun uf_required :: "ufmanager \<Rightarrow> array list \<Rightarrow> expr list option" where
  "uf_required es [] = Some []"
| "uf_required es (a # as) =
     do { x \<leftarrow> UFManager_at es (int (UFE a)); rest \<leftarrow> uf_required es as; Some (uf_constraints x @ rest) }"

definition IndependentSolver_computeValidity :: "validity core \<Rightarrow> bool \<Rightarrow> ufmanager \<Rightarrow> expr list \<Rightarrow> expr \<Rightarrow> validity option" where
  "IndependentSolver_computeValidity core useUF es cs e =
     (if useUF then do { required \<leftarrow> uf_required es (findSymbolicObjects e); core required e }
      else do { g \<leftarrow> getIndependentConstraints cs e; core (snd (snd g)) e })"

definition IndependentSolver_computeValidityCheat :: "validity core \<Rightarrow> expr \<Rightarrow> validity option" where
  "IndependentSolver_computeValidityCheat core e = core [] e"

subsection \<open>UFManager2\<close>

text \<open>The second union-find structure, local to \<open>getAllIndependentConstraintSetsUF\<close>.\<close>

record ufe2 =
  parent2 :: int
  rank2 :: int
  size2 :: int
  accessName :: string
  ies2 :: ies

definition UFElement2_new :: "int \<Rightarrow> string \<Rightarrow> ufe2" where
  "UFElement2_new p an = \<lparr>parent2 = p, rank2 = 0, size2 = 1, accessName = an, ies2 = ies_empty\<rparr>"

definition UFManager2_create :: "ufe2 list \<Rightarrow> string \<Rightarrow> int \<times> ufe2 list" where
  "UFManager2_create es an =
     (let es' = es @ [UFElement2_new (int (length es) + 1) an] in (int (length es'), es'))"

definition UFManager2_at :: "ufe2 list \<Rightarrow> int \<Rightarrow> ufe2 option" where
  "UFManager2_at es i = (if 0 \<le> i \<and> i < int (length es) then Some (es ! nat i) else None)"

partial_function (option) UFManager2_find :: "ufe2 list \<Rightarrow> int \<Rightarrow> (int \<times> ufe2 list) option" where
  "UFManager2_find es i =
     do { x \<leftarrow> UFManager2_at es i;
          p \<leftarrow> UFManager2_at es (parent2 x);
          (if parent2 x = i then Some (i, es)
           else do { q \<leftarrow> UFManager2_find es (parent2 x);
                     x' \<leftarrow> UFManager2_at (snd q) i;
                     Some (fst q, (snd q)[nat i := x'\<lparr>parent2 := fst q\<rparr>]) }) }"

declare UFManager2_find.simps [code]

subsection \<open>What an element set covers\<close>

definition covers :: "ies \<Rightarrow> array \<Rightarrow> nat \<Rightarrow> bool" where
  "covers s a ix \<longleftrightarrow> a \<in> set (wholeObjects s) \<or> (\<exists>d. map_of (elements s) a = Some d \<and> ix \<in> set d)"

text \<open>No key twice, no empty set, no array both whole and by its elements.\<close>

definition ies_inv :: "ies \<Rightarrow> bool" where
  "ies_inv s \<longleftrightarrow> distinct (map fst (elements s)) \<and>
     (\<forall>(a, d) \<in> set (elements s). d \<noteq> [] \<and> a \<notin> set (wholeObjects s))"

fun covered_read :: "ies \<Rightarrow> expr \<Rightarrow> bool" where
  "covered_read s (ReadExpr a us i) \<longleftrightarrow>
     isConstantArray a \<and> us = NoUpdates \<or> a \<in> set (wholeObjects s) \<or>
     (\<exists>c. i = ConstantExpr c \<and> covers s a (nat (apval c)))"
| "covered_read s _ \<longleftrightarrow> False"

lemma insert_set [simp]: "set (DenseSet_insert x s) = insert x (set s)"
  by (auto simp: DenseSet_insert_def set_insort_key)

lemma ies_inv_map_of:
  "ies_inv s \<Longrightarrow> map_of (elements s) a = Some d \<Longrightarrow> d \<noteq> [] \<and> a \<notin> set (wholeObjects s)"
  by (auto simp: ies_inv_def dest!: map_of_SomeD)

lemma ies_invI:
  assumes "distinct (map fst (elements s))"
    and "\<And>a d. map_of (elements s) a = Some d \<Longrightarrow> d \<noteq> [] \<and> a \<notin> set (wholeObjects s)"
  shows "ies_inv s"
  using assms by (auto simp: ies_inv_def dest: map_of_is_SomeI [rotated])

lemma ies_read_spec:
  assumes "ies_read r s = Some s'" "ies_inv s"
  shows "ies_inv s'" "covered_read s' r" "covers s a ix \<Longrightarrow> covers s' a ix" "exprs s' = exprs s"
    and "covered_read s x \<Longrightarrow> covered_read s' x"
proof -
  obtain b us i where r: "r = ReadExpr b us i" using assms(1) by (cases r) auto
  have main: "ies_inv s' \<and> covered_read s' r \<and> (\<forall>a ix. covers s a ix \<longrightarrow> covers s' a ix) \<and>
      set (wholeObjects s) \<subseteq> set (wholeObjects s') \<and> exprs s' = exprs s"
  proof (cases "isConstantArray b \<and> us = NoUpdates \<or> b \<in> set (wholeObjects s)")
    case True
    then show ?thesis using assms r by (auto split: if_splits)
  next
    case nw: False
    show ?thesis
    proof (cases "isConstantExpr i")
      case True
      then obtain c where c: "i = ConstantExpr c" by (auto simp: isConstantExpr_iff)
      let ?d = "case map_of (elements s) b of Some d \<Rightarrow> d | None \<Rightarrow> []"
      have s': "s' = s\<lparr>elements := AList.update b (DenseSet_insert (nat (apval c)) ?d) (elements s)\<rparr>"
        using assms(1) r c nw by (auto split: if_splits)
      have m: "map_of (elements s') a = (if a = b then Some (DenseSet_insert (nat (apval c)) ?d) else map_of (elements s) a)" for a
        by (simp add: s' update_conv')
      have "DenseSet_insert x d \<noteq> []" for x d by (metis insert_set insert_not_empty set_empty)
      then have "ies_inv s'"
        using assms(2) nw m ies_inv_map_of [OF assms(2)]
        by (intro ies_invI) (auto simp: s' distinct_update ies_inv_def split: if_splits)
      moreover have "covers s a ix \<longrightarrow> covers s' a ix" for a ix
        by (auto simp: covers_def m) (auto simp: s')
      moreover have "covered_read s' r" using r c by (auto simp: covers_def m)
      ultimately show ?thesis by (auto simp: s')
    next
      case False
      then have s': "s' = s\<lparr>elements := AList.delete b (elements s), wholeObjects := b # wholeObjects s\<rparr>"
        using assms(1) r nw by (cases i) (auto split: if_splits)
      have m: "map_of (elements s') a = (if a = b then None else map_of (elements s) a)" for a
        by (simp add: s' delete_conv')
      have "ies_inv s'"
        using assms(2) m ies_inv_map_of [OF assms(2)]
        by (intro ies_invI) (auto simp: s' distinct_delete ies_inv_def split: if_splits)
      moreover have "covers s a ix \<longrightarrow> covers s' a ix" for a ix
        by (auto simp: covers_def m) (auto simp: s')
      ultimately show ?thesis using r by (auto simp: s')
    qed
  qed
  then show "ies_inv s'" "covered_read s' r" "covers s a ix \<Longrightarrow> covers s' a ix" "exprs s' = exprs s"
    by blast+
  show "covered_read s x \<Longrightarrow> covered_read s' x" using main by (cases x) auto
qed

lemma ies_reads_spec:
  assumes "ies_reads rs s = Some s'" "ies_inv s"
  shows "ies_inv s' \<and> (\<forall>r \<in> set rs. covered_read s' r) \<and> (\<forall>x. covered_read s x \<longrightarrow> covered_read s' x)"
  using assms
proof (induction rs arbitrary: s)
  case (Cons r rs)
  then obtain s1 where s1: "ies_read r s = Some s1" "ies_reads rs s1 = Some s'" by (auto simp: bind_eq_Some_conv)
  from Cons.IH [OF s1(2)] ies_read_spec [OF s1(1) Cons.prems(2)] show ?case by auto
qed auto

lemma IndependentElementSet_spec:
  assumes "IndependentElementSet e = Some s"
  shows "ies_inv s" "occurs True e x \<Longrightarrow> isReadExpr x \<Longrightarrow> covered_read s x"
proof -
  have "ies_inv (ies_empty\<lparr>exprs := [e]\<rparr>)" by (simp add: ies_inv_def ies_empty_def)
  from ies_reads_spec [OF assms [unfolded IndependentElementSet_def] this]
  have "ies_inv s \<and> (\<forall>r \<in> set (findReads e True). covered_read s r)" by simp
  moreover have "set (findReads e True) = {x. occurs True e x \<and> isReadExpr x}"
    unfolding findReads_def by (rule conjunct2 [OF findReads_loop_spec]) (auto simp: reads_inv_def intro: occurs_self)
  ultimately show "ies_inv s" "occurs True e x \<Longrightarrow> isReadExpr x \<Longrightarrow> covered_read s x" by auto
qed

lemma occurs_below:
  assumes "y \<in> set (succs b e)" "\<not> isConstantExpr e" "occurs b y x"
  shows "occurs b e x"
  using assms(3)
proof induction
  case occurs_self
  then show ?case using assms(1,2) by (blast intro: occurs.intros)
next
  case (occurs_succ x z)
  then show ?case by (blast intro: occurs.occurs_succ)
qed

text \<open>The array contents agree where a set covers them and on constant arrays.\<close>

definition agree :: "ies \<Rightarrow> env \<Rightarrow> env \<Rightarrow> bool" where
  "agree s \<sigma> \<tau> \<longleftrightarrow> (\<forall>a ix. covers s a ix \<or> isConstantArray a \<longrightarrow> \<sigma> a ix = \<tau> a ix)"

definition reads_covered :: "ies \<Rightarrow> expr \<Rightarrow> bool" where
  "reads_covered s e \<longleftrightarrow> (\<forall>x. occurs True e x \<and> isReadExpr x \<longrightarrow> covered_read s x)"

lemma reads_covered_kid:
  "reads_covered s e \<Longrightarrow> y \<in> set (succs True e) \<Longrightarrow> \<not> isConstantExpr e \<Longrightarrow> reads_covered s y"
  by (auto simp: reads_covered_def dest: occurs_below)

lemma eval_covered:
  assumes "agree s \<sigma> \<tau>"
  shows "reads_covered s e \<Longrightarrow> eval e \<sigma> = eval e \<tau>"
    and "(\<And>y. y \<in> set (update_exprs us) \<Longrightarrow> reads_covered s y) \<Longrightarrow> ulookup us \<sigma> ix = ulookup us \<tau> ix"
proof (induction e and us arbitrary: and ix)
  case (ReadExpr a us i)
  have kid: "reads_covered s y" if "y \<in> set (i # update_exprs us)" for y
    by (rule reads_covered_kid [OF ReadExpr.prems]) (use that in simp_all)
  have i: "eval i \<sigma> = eval i \<tau>" and us: "ulookup us \<sigma> ix = ulookup us \<tau> ix" for ix
    using kid by (auto intro!: ReadExpr.IH)
  have "covered_read s (ReadExpr a us i)"
    using ReadExpr.prems occurs_self [of "ReadExpr a us i" True] unfolding reads_covered_def by force
  then have "initial \<sigma> a (eval i \<tau>) = initial \<tau> a (eval i \<tau>)"
    using assms by (auto simp: initial_def agree_def covers_def)
  with i us show ?case by (simp split: option.split)
next
  case (SelectExpr c t f)
  then show ?case using reads_covered_kid [OF SelectExpr.prems] by simp
next
  case (ConcatExpr l r)
  then show ?case using reads_covered_kid [OF ConcatExpr.prems] by simp
next
  case (BinaryExpr k l r)
  then show ?case using reads_covered_kid [OF BinaryExpr.prems] by simp
next
  case (NotOptimizedExpr e)
  then show ?case using reads_covered_kid [OF NotOptimizedExpr.prems] by simp
next
  case (ExtractExpr e off w)
  then show ?case using reads_covered_kid [OF ExtractExpr.prems] by simp
next
  case (ZExtExpr e w)
  then show ?case using reads_covered_kid [OF ZExtExpr.prems] by simp
next
  case (SExtExpr e w)
  then show ?case using reads_covered_kid [OF SExtExpr.prems] by simp
next
  case (NotExpr e)
  then show ?case using reads_covered_kid [OF NotExpr.prems] by simp
qed auto

lemma IndependentElementSet_support:
  assumes "IndependentElementSet e = Some s" "agree s \<sigma> \<tau>"
  shows "eval e \<sigma> = eval e \<tau>"
  using eval_covered(1) [OF assms(2), of e] IndependentElementSet_spec(2) [OF assms(1)] by (auto simp: reads_covered_def)

lemma intersects_iff:
  assumes "ies_inv s" "ies_inv b"
  shows "ies_intersects s b \<longleftrightarrow> (\<exists>a ix. covers s a ix \<and> covers b a ix)"
proof
  have ne: "\<exists>ix. ix \<in> set d" if "map_of (elements t) a = Some d" "ies_inv t" for t a d
    using ies_inv_map_of [OF that(2,1)] by (auto simp: neq_Nil_conv)
  assume "ies_intersects s b"
  then consider a where "a \<in> set (wholeObjects s)" "a \<in> set (wholeObjects b) \<or> map_of (elements b) a \<noteq> None"
    | a d where "(a, d) \<in> set (elements s)" "a \<in> set (wholeObjects b) \<or>
        (\<exists>d'. map_of (elements b) a = Some d' \<and> DenseSet_intersects d d')"
    unfolding ies_intersects_def list_ex_iff by (auto split: option.splits)
  then show "\<exists>a ix. covers s a ix \<and> covers b a ix"
  proof cases
    case 1
    then have "\<exists>ix. covers b a ix" using ne [of b a] assms(2) by (auto simp: covers_def)
    then show ?thesis using 1(1) by (auto simp: covers_def [of s])
  next
    case 2
    have "map_of (elements s) a = Some d" using 2(1) assms(1) by (simp add: ies_inv_def)
    then show ?thesis using 2(2) ne [of s a d] assms(1)
      by (auto simp: covers_def DenseSet_intersects_def list_ex_iff)
  qed
next
  assume "\<exists>a ix. covers s a ix \<and> covers b a ix"
  then show "ies_intersects s b"
    unfolding ies_intersects_def list_ex_iff covers_def DenseSet_intersects_def
    by (fastforce dest: map_of_SomeD)
qed

subsection \<open>Adding element sets\<close>

text \<open>
  \<open>DenseSet::add\<close> keeps the set and adds nothing else; an unset flag means no change. It is the union
  only where the two sets have the same elements: it skips what comes before a common element.
\<close>

lemma DenseSet_add_loop_bounds:
  "DenseSet_add_loop b m s = (m', s') \<Longrightarrow>
     set s \<subseteq> set s' \<and> set s' \<subseteq> set s \<union> set b \<and> (m \<longrightarrow> m') \<and> (\<not> m' \<longrightarrow> s' = s)"
  by (induction b arbitrary: m s) (fastforce split: if_splits)+

lemma DenseSet_add_bounds:
  "DenseSet_add b s = (m, s') \<Longrightarrow> set s \<subseteq> set s' \<and> set s' \<subseteq> set s \<union> set b \<and> (\<not> m \<longrightarrow> s' = s)"
  using DenseSet_add_loop_bounds [of b False s m s'] by (simp add: DenseSet_add_def)

text \<open>The two sets have the same whole objects and elements.\<close>

definition same_elements :: "ies \<Rightarrow> ies \<Rightarrow> bool" where
  "same_elements s t \<longleftrightarrow> wholeObjects s = wholeObjects t \<and> map_of (elements s) = map_of (elements t)"

lemma same_elements_simps:
  "same_elements s s" "same_elements s t \<Longrightarrow> same_elements t u \<Longrightarrow> same_elements s u"
  "same_elements t u \<Longrightarrow> ies_intersects s t = ies_intersects s u" "same_elements s t \<Longrightarrow> covers s = covers t"
  by (simp_all add: same_elements_def ies_intersects_def covers_def fun_eq_iff)

text \<open>The element sets of one family of indices: every array is read at the same constant indices.\<close>

definition indexed_by :: "(array \<Rightarrow> nat set) \<Rightarrow> ies \<Rightarrow> bool" where
  "indexed_by F s \<longleftrightarrow> (\<forall>a d. map_of (elements s) a = Some d \<longrightarrow> set d = F a)"

definition added_to :: "(array \<Rightarrow> nat \<Rightarrow> bool) \<Rightarrow> (array \<Rightarrow> nat set) \<Rightarrow> ies \<Rightarrow> ies \<Rightarrow> bool" where
  "added_to Q F s s' \<longleftrightarrow> ies_inv s' \<and> (indexed_by F s \<longrightarrow> indexed_by F s' \<and> (\<forall>a ix. covers s' a ix \<longleftrightarrow> covers s a ix \<or> Q a ix))"

lemma add_whole_spec:
  assumes "ies_add_whole as m s = (m', s')" "ies_inv s"
  shows "added_to (\<lambda>a ix. a \<in> set as) F s s' \<and> (m \<longrightarrow> m') \<and> (\<not> m' \<longrightarrow> s' = s) \<and> set as \<subseteq> set (wholeObjects s')
    \<and> set (wholeObjects s) \<subseteq> set (wholeObjects s')"
  using assms
proof (induction as arbitrary: m s)
  case Nil
  then show ?case by (auto simp: added_to_def)
next
  case (Cons a as)
  consider (E) "map_of (elements s) a \<noteq> None" | (N) "map_of (elements s) a = None" "a \<notin> set (wholeObjects s)"
    | (W) "map_of (elements s) a = None" "a \<in> set (wholeObjects s)" by blast
  then show ?case
  proof cases
    case W
    with Cons.prems Cons.IH [of m s] show ?thesis by (auto simp: added_to_def covers_def)
  next
    case E
    let ?s = "s\<lparr>elements := AList.delete a (elements s), wholeObjects := List.insert a (wholeObjects s)\<rparr>"
    have m: "map_of (elements ?s) b = (if b = a then None else map_of (elements s) b)" for b by (simp add: delete_conv')
    have "ies_inv ?s"
      by (rule ies_invI) (use Cons.prems(2) m ies_inv_map_of [OF Cons.prems(2)] in
        \<open>auto simp: distinct_delete ies_inv_def split: if_splits\<close>)
    moreover have "indexed_by F s \<Longrightarrow> indexed_by F ?s" unfolding indexed_by_def m by auto
    moreover have "covers ?s b ix \<longleftrightarrow> covers s b ix \<or> b = a" for b ix
      unfolding covers_def m by auto
    ultimately show ?thesis using Cons.IH [of True ?s] Cons.prems(1) E by (auto simp: added_to_def)
  next
    case N
    let ?s = "s\<lparr>wholeObjects := a # wholeObjects s\<rparr>"
    have "ies_inv ?s"
      by (rule ies_invI) (use Cons.prems(2) N ies_inv_map_of [OF Cons.prems(2)] in \<open>auto simp: ies_inv_def\<close>)
    moreover have "indexed_by F s \<Longrightarrow> indexed_by F ?s" unfolding indexed_by_def by auto
    moreover have "covers ?s b ix \<longleftrightarrow> covers s b ix \<or> b = a" for b ix unfolding covers_def by auto
    ultimately show ?thesis using Cons.IH [of True ?s] Cons.prems(1) N by (auto simp: added_to_def)
  qed
qed

lemma add_elements_spec:
  assumes "ies_add_elements es m s = (m', s')" "ies_inv s" "\<forall>(a, d) \<in> set es. d \<noteq> []"
  shows "ies_inv s' \<and> (m \<longrightarrow> m') \<and> (\<not> m' \<longrightarrow> same_elements s' s) \<and>
    (indexed_by F s \<and> (\<forall>(a, d) \<in> set es. set d = F a) \<longrightarrow>
      indexed_by F s' \<and> (\<forall>a ix. covers s' a ix \<longleftrightarrow> covers s a ix \<or> (\<exists>d. (a, d) \<in> set es \<and> ix \<in> set d)))"
  using assms
proof (induction es m s rule: ies_add_elements.induct)
  case (1 m s)
  then show ?case by (auto simp: same_elements_simps)
next
  case (2 a d es m s)
  consider (W) "a \<in> set (wholeObjects s)" | (N) "a \<notin> set (wholeObjects s)" "map_of (elements s) a = None"
    | (E) d' where "a \<notin> set (wholeObjects s)" "map_of (elements s) a = Some d'" by fastforce
  then show ?case
  proof cases
    case W
    then show ?thesis using "2.IH"(1) "2.prems" by (auto simp: covers_def)
  next
    case N
    let ?s = "s\<lparr>elements := (a, d) # elements s\<rparr>"
    have "ies_inv ?s"
      by (rule ies_invI) (use "2.prems" N ies_inv_map_of [OF "2.prems"(2)] in
        \<open>auto simp: ies_inv_def map_of_eq_None_iff split: if_splits\<close>)
    moreover have "indexed_by F s \<Longrightarrow> set d = F a \<Longrightarrow> indexed_by F ?s" unfolding indexed_by_def by auto
    moreover have "covers ?s b ix \<longleftrightarrow> covers s b ix \<or> b = a \<and> ix \<in> set d" for b ix
      using N unfolding covers_def by auto
    ultimately show ?thesis using "2.IH"(2) "2.prems"(1,3) N by auto
  next
    case (E d')
    obtain ch d'' where add: "DenseSet_add d d' = (ch, d'')" by fastforce
    let ?s = "s\<lparr>elements := AList.update a d'' (elements s)\<rparr>"
    have m: "map_of (elements ?s) b = (if b = a then Some d'' else map_of (elements s) b)" for b by (simp add: update_conv')
    note bounds = DenseSet_add_bounds [OF add]
    have "d'' \<noteq> []" using bounds ies_inv_map_of [OF "2.prems"(2) E(2)] by auto
    then have inv: "ies_inv ?s"
      by (intro ies_invI) (use "2.prems"(2) E m ies_inv_map_of [OF "2.prems"(2)] in
        \<open>auto simp: ies_inv_def distinct_update split: if_splits\<close>)
    have same: "\<not> ch \<Longrightarrow> same_elements ?s s"
      using bounds E(2) m by (auto simp: same_elements_def fun_eq_iff)
    have F: "indexed_by F ?s \<and> (\<forall>b ix. covers ?s b ix \<longleftrightarrow> covers s b ix \<or> b = a \<and> ix \<in> set d)"
      if "indexed_by F s" "set d = F a"
    proof -
      have "set d' = F a" using that(1) E(2) by (simp add: indexed_by_def)
      then have "set d'' = F a" using bounds that(2) by auto
      then show ?thesis using that E \<open>set d' = F a\<close> unfolding indexed_by_def covers_def m by auto
    qed
    have rec: "ies_add_elements es (m \<or> ch) ?s = (m', s')" using "2.prems"(1) E add by simp
    have IH: "ies_inv s' \<and> (m \<or> ch \<longrightarrow> m') \<and> (\<not> m' \<longrightarrow> same_elements s' ?s) \<and>
        (indexed_by F ?s \<and> (\<forall>(a, d) \<in> set es. set d = F a) \<longrightarrow>
          indexed_by F s' \<and> (\<forall>a ix. covers s' a ix \<longleftrightarrow> covers ?s a ix \<or> (\<exists>d. (a, d) \<in> set es \<and> ix \<in> set d)))"
      by (rule "2.IH"(3) [OF E add [symmetric] refl rec inv]) (use "2.prems"(3) in auto)
    then have "ies_inv s'" "m \<longrightarrow> m'" by blast+
    moreover have "\<not> m' \<longrightarrow> same_elements s' s" using IH same same_elements_simps(2) by blast
    moreover have "indexed_by F s' \<and> (\<forall>b ix. covers s' b ix \<longleftrightarrow> covers s b ix \<or> (\<exists>e. (b, e) \<in> set ((a, d) # es) \<and> ix \<in> set e))"
      if G: "indexed_by F s" "\<forall>(a, d) \<in> set ((a, d) # es). set d = F a"
    proof -
      have "indexed_by F ?s" "\<forall>b ix. covers ?s b ix \<longleftrightarrow> covers s b ix \<or> b = a \<and> ix \<in> set d"
        using F G by simp_all
      moreover from this(1) G(2) have "indexed_by F s'"
          "\<forall>b ix. covers s' b ix \<longleftrightarrow> covers ?s b ix \<or> (\<exists>e. (b, e) \<in> set es \<and> ix \<in> set e)"
        using IH by simp_all
      ultimately show ?thesis by auto
    qed
    ultimately show ?thesis by blast
  qed
qed

lemma ies_add_spec:
  assumes "ies_add b s = (m, s')" "ies_inv s" "ies_inv b"
  shows "ies_inv s' \<and> (\<not> m \<longrightarrow> same_elements s' s) \<and>
    (indexed_by F s \<and> indexed_by F b \<longrightarrow> indexed_by F s' \<and> (\<forall>a ix. covers s' a ix \<longleftrightarrow> covers s a ix \<or> covers b a ix))"
proof -
  let ?s = "s\<lparr>exprs := exprs s @ exprs b\<rparr>"
  have s: "ies_inv ?s" "same_elements ?s s" using assms(2) by (simp_all add: ies_inv_def same_elements_def)
  obtain m1 s1 where 1: "ies_add_whole (wholeObjects b) False ?s = (m1, s1)" by fastforce
  with assms(1) have 2: "ies_add_elements (elements b) m1 s1 = (m, s')" by (simp add: ies_add_def)
  note whole = add_whole_spec [OF 1 s(1), of F]
  have "ies_inv s1" using whole by (simp add: added_to_def)
  moreover have "\<forall>(a, d) \<in> set (elements b). d \<noteq> []" using assms(3) by (auto simp: ies_inv_def)
  ultimately have elems: "ies_inv s' \<and> (m1 \<longrightarrow> m) \<and> (\<not> m \<longrightarrow> same_elements s' s1) \<and>
      (indexed_by F s1 \<and> (\<forall>(a, d) \<in> set (elements b). set d = F a) \<longrightarrow>
        indexed_by F s' \<and> (\<forall>a ix. covers s' a ix \<longleftrightarrow> covers s1 a ix \<or> (\<exists>d. (a, d) \<in> set (elements b) \<and> ix \<in> set d)))"
    by (rule add_elements_spec [OF 2])
  have mem: "(a, d) \<in> set (elements b) \<longleftrightarrow> map_of (elements b) a = Some d" for a d
    using assms(3) by (auto simp: ies_inv_def)
  have "same_elements s' s" if "\<not> m"
  proof -
    have "s1 = ?s" "same_elements s' s1" using elems whole that by blast+
    then show ?thesis using s(2) same_elements_simps(2) by blast
  qed
  moreover have "indexed_by F s' \<and> (\<forall>a ix. covers s' a ix \<longleftrightarrow> covers s a ix \<or> covers b a ix)"
    if F: "indexed_by F s" "indexed_by F b"
  proof -
    have "indexed_by F ?s" using F(1) by (simp add: indexed_by_def)
    then have w: "indexed_by F s1" "\<forall>a ix. covers s1 a ix \<longleftrightarrow> covers s a ix \<or> a \<in> set (wholeObjects b)"
      using whole same_elements_simps(4) [OF s(2)] by (simp_all add: added_to_def)
    have "\<forall>(a, d) \<in> set (elements b). set d = F a" using F(2) mem by (auto simp: indexed_by_def)
    then have e: "indexed_by F s'"
        "\<forall>a ix. covers s' a ix \<longleftrightarrow> covers s1 a ix \<or> (\<exists>d. (a, d) \<in> set (elements b) \<and> ix \<in> set d)"
      using elems w(1) by blast+
    then show ?thesis using w(2) mem by (auto simp: covers_def [of b])
  qed
  ultimately show ?thesis using elems by blast
qed

subsection \<open>The closure is closed\<close>

definition work_inv :: "work \<Rightarrow> bool" where
  "work_inv wl \<longleftrightarrow> (\<forall>(e, s) \<in> set wl. ies_inv s)"

text \<open>
  What a number of passes has done: the worklist is split into the required constraints and the rest,
  and the closure covers what the required ones do where the indices are of one family.
\<close>

definition progress :: "(array \<Rightarrow> nat set) \<Rightarrow> work \<Rightarrow> ies \<Rightarrow> expr list \<Rightarrow> work \<Rightarrow> ies \<Rightarrow> expr list \<Rightarrow> bool" where
  "progress F wl clo result wl' clo' result' \<longleftrightarrow> ies_inv clo' \<and>
     (\<exists>req. result' = result @ map fst req \<and> set wl = set req \<union> set wl' \<and>
        (indexed_by F clo \<and> (\<forall>(e, s) \<in> set wl. indexed_by F s) \<longrightarrow>
           indexed_by F clo' \<and> (\<forall>a ix. covers clo' a ix \<longleftrightarrow> covers clo a ix \<or> (\<exists>(e, s) \<in> set req. covers s a ix))))"

lemma progress_refl: "ies_inv clo \<Longrightarrow> progress F wl clo result wl clo result"
  by (auto simp: progress_def intro!: exI [of _ "[]"])

lemma progress_trans:
  assumes "progress F wl clo result wl1 clo1 result1" "progress F wl1 clo1 result1 wl2 clo2 result2"
  shows "progress F wl clo result wl2 clo2 result2"
proof -
  obtain r1 r2 where r: "result1 = result @ map fst r1" "set wl = set r1 \<union> set wl1"
      "result2 = result1 @ map fst r2" "set wl1 = set r2 \<union> set wl2" "ies_inv clo2"
    and c1: "indexed_by F clo \<and> (\<forall>(e, s) \<in> set wl. indexed_by F s) \<longrightarrow> indexed_by F clo1 \<and>
        (\<forall>a ix. covers clo1 a ix \<longleftrightarrow> covers clo a ix \<or> (\<exists>(e, s) \<in> set r1. covers s a ix))"
    and c2: "indexed_by F clo1 \<and> (\<forall>(e, s) \<in> set wl1. indexed_by F s) \<longrightarrow> indexed_by F clo2 \<and>
        (\<forall>a ix. covers clo2 a ix \<longleftrightarrow> covers clo1 a ix \<or> (\<exists>(e, s) \<in> set r2. covers s a ix))"
    using assms unfolding progress_def by blast
  have "indexed_by F clo2 \<and> (\<forall>a ix. covers clo2 a ix \<longleftrightarrow> covers clo a ix \<or> (\<exists>(e, s) \<in> set (r1 @ r2). covers s a ix))"
    if i: "indexed_by F clo \<and> (\<forall>(e, s) \<in> set wl. indexed_by F s)"
  proof -
    have "\<forall>(e, s) \<in> set wl1. indexed_by F s" using i r(2) by auto
    with c1 c2 i have "indexed_by F clo2"
        "\<forall>a ix. covers clo2 a ix \<longleftrightarrow> covers clo1 a ix \<or> (\<exists>(e, s) \<in> set r2. covers s a ix)"
        "\<forall>a ix. covers clo1 a ix \<longleftrightarrow> covers clo a ix \<or> (\<exists>(e, s) \<in> set r1. covers s a ix)" by blast+
    then show ?thesis by auto
  qed
  then show ?thesis using r unfolding progress_def by (intro conjI exI [of _ "r1 @ r2"]) auto
qed

lemma closure_pass_spec:
  assumes "closure_pass wl clo fin result = (wl', clo', fin', result')" "work_inv wl" "ies_inv clo"
  shows "progress F wl clo result wl' clo' result' \<and>
    (fin' \<longrightarrow> fin \<and> same_elements clo' clo \<and> (\<forall>(e, s) \<in> set wl'. \<not> ies_intersects s clo'))"
  using assms
proof (induction wl clo fin result arbitrary: wl' clo' fin' result' rule: closure_pass.induct)
  case (1 clo fin result)
  then show ?case by (auto simp: progress_refl same_elements_simps)
next
  case (2 e s wl clo fin result)
  have inv: "ies_inv s" "work_inv wl" using "2.prems"(2) by (auto simp: work_inv_def)
  show ?case
  proof (cases "ies_intersects s clo")
    case True
    obtain ch clo1 where add: "ies_add s clo = (ch, clo1)" by fastforce
    note spec = ies_add_spec [OF add "2.prems"(3) inv(1), of F]
    have rec: "closure_pass wl clo1 (fin \<and> \<not> ch) (result @ [e]) = (wl', clo', fin', result')"
      using "2.prems"(1) True add by simp
    have IH: "progress F wl clo1 (result @ [e]) wl' clo' result' \<and>
        (fin' \<longrightarrow> (fin \<and> \<not> ch) \<and> same_elements clo' clo1 \<and> (\<forall>(e, s) \<in> set wl'. \<not> ies_intersects s clo'))"
      by (rule "2.IH"(1) [OF True add [symmetric] refl rec inv(2)]) (use spec in blast)
    have "progress F ((e, s) # wl) clo result wl clo1 (result @ [e])"
      unfolding progress_def using spec by (intro conjI exI [of _ "[(e, s)]"]) auto
    then show ?thesis using IH progress_trans spec same_elements_simps(2) by blast
  next
    case False
    obtain wl1 clo1 fin1 r1 where p: "closure_pass wl clo fin result = (wl1, clo1, fin1, r1)" by (rule prod_cases4)
    with "2.prems"(1) False have eqs: "wl' = (e, s) # wl1" "clo' = clo1" "fin' = fin1" "result' = r1" by auto
    note IH = "2.IH"(2) [OF False p inv(2) "2.prems"(3)]
    have "progress F ((e, s) # wl) clo result wl' clo' result'"
      using conjunct1 [OF IH] unfolding progress_def eqs by auto
    moreover have "\<not> ies_intersects s clo'" if "fin'"
      using IH that False same_elements_simps(3) [of clo' clo s] eqs by auto
    ultimately show ?thesis using IH eqs by auto
  qed
qed

lemma closure_loop_spec:
  assumes "closure_loop wl clo result = (wl', clo', result')" "work_inv wl" "ies_inv clo"
  shows "progress F wl clo result wl' clo' result' \<and> (\<forall>(e, s) \<in> set wl'. \<not> ies_intersects s clo')"
  using assms
proof (induction wl clo result rule: closure_loop.induct)
  case (1 wl clo result)
  obtain wl1 clo1 fin r1 where p: "closure_pass wl clo True result = (wl1, clo1, fin, r1)" by (rule prod_cases4)
  note spec = closure_pass_spec [OF p "1.prems"(2,3), of F]
  show ?case
  proof (cases fin)
    case True
    then show ?thesis using spec "1.prems"(1) p by (auto simp: closure_loop.simps [of wl])
  next
    case False
    then have rec: "closure_loop wl1 clo1 r1 = (wl', clo', result')"
      using "1.prems"(1) p by (simp add: closure_loop.simps [of wl])
    have "ies_inv clo1" "work_inv wl1" using spec "1.prems"(2) by (auto simp: progress_def work_inv_def)
    from "1.IH" [OF p [symmetric] refl refl False rec this(2,1)] show ?thesis using spec progress_trans by blast
  qed
qed

subsection \<open>Independence and validity\<close>

lemma element_sets_spec:
  "element_sets cs = Some wl \<Longrightarrow> map fst wl = cs \<and> (\<forall>(c, s) \<in> set wl. IndependentElementSet c = Some s)"
  by (induction cs arbitrary: wl) (auto simp: bind_eq_Some_conv)

lemma getIndependentConstraints_spec:
  assumes "getIndependentConstraints cs e = Some (wl', clo', req)"
  obtains clo wl rq where "IndependentElementSet e = Some clo" "element_sets cs = Some wl" "req = map fst rq"
    "set wl = set rq \<union> set wl'" "ies_inv clo'" "\<forall>(c, s) \<in> set wl'. \<not> ies_intersects s clo'"
    "indexed_by F clo \<and> (\<forall>(c, s) \<in> set wl. indexed_by F s) \<Longrightarrow>
      (\<forall>a ix. covers clo' a ix \<longleftrightarrow> covers clo a ix \<or> (\<exists>(c, s) \<in> set rq. covers s a ix))"
proof -
  obtain clo wl where 1: "IndependentElementSet e = Some clo" "element_sets cs = Some wl"
      "closure_loop wl clo [] = (wl', clo', req)"
    using assms by (auto simp: getIndependentConstraints_def bind_eq_Some_conv)
  have "work_inv wl" using element_sets_spec [OF 1(2)] IndependentElementSet_spec(1) by (auto simp: work_inv_def)
  from closure_loop_spec [OF 1(3) this IndependentElementSet_spec(1) [OF 1(1)], of F]
  have inv: "ies_inv clo'" "\<forall>(c, s) \<in> set wl'. \<not> ies_intersects s clo'" and
    "\<exists>rq. req = map fst rq \<and> set wl = set rq \<union> set wl' \<and>
      (indexed_by F clo \<and> (\<forall>(c, s) \<in> set wl. indexed_by F s) \<longrightarrow> indexed_by F clo' \<and>
        (\<forall>a ix. covers clo' a ix \<longleftrightarrow> covers clo a ix \<or> (\<exists>(c, s) \<in> set rq. covers s a ix)))"
    unfolding progress_def append_Nil by blast+
  then obtain rq where rq: "req = map fst rq" "set wl = set rq \<union> set wl'"
      "indexed_by F clo \<and> (\<forall>(c, s) \<in> set wl. indexed_by F s) \<longrightarrow> indexed_by F clo' \<and>
        (\<forall>a ix. covers clo' a ix \<longleftrightarrow> covers clo a ix \<or> (\<exists>(c, s) \<in> set rq. covers s a ix))"
    by blast
  show ?thesis by (rule that [OF 1(1,2) rq(1,2) inv]) (use rq(3) in blast)
qed

text \<open>Array contents put together from two: the first where the closure covers them.\<close>

definition combine :: "ies \<Rightarrow> env \<Rightarrow> env \<Rightarrow> env" where
  "combine clo \<sigma> \<tau> = (\<lambda>a ix. if covers clo a ix then \<sigma> a ix else \<tau> a ix)"

lemma combine_contents: "contents \<sigma> \<Longrightarrow> contents \<tau> \<Longrightarrow> contents (combine clo \<sigma> \<tau>)"
  by (simp add: contents_def combine_def env_ok_def)

lemma combine_agree:
  assumes "contents \<sigma>" "contents \<tau>"
  shows "(\<And>a ix. covers s a ix \<Longrightarrow> covers clo a ix) \<Longrightarrow> agree s \<sigma> (combine clo \<sigma> \<tau>)"
    and "(\<And>a ix. covers s a ix \<Longrightarrow> \<not> covers clo a ix) \<Longrightarrow> agree s \<tau> (combine clo \<sigma> \<tau>)"
  using assms by (auto simp: agree_def combine_def contents_def)

lemma independent_valid_iff:
  assumes g: "getIndependentConstraints cs e = Some (wl', clo', req)"
    and fam: "\<And>x s. x \<in> set (e # cs) \<Longrightarrow> IndependentElementSet x = Some s \<Longrightarrow> indexed_by F s"
    and sat: "contents \<tau>" "holds cs \<tau>"
  shows "valid req e \<longleftrightarrow> valid cs e"
proof -
  obtain clo wl rq where 1: "IndependentElementSet e = Some clo" "element_sets cs = Some wl" "req = map fst rq"
      "set wl = set rq \<union> set wl'" "ies_inv clo'" "\<forall>(c, s) \<in> set wl'. \<not> ies_intersects s clo'"
    and cov': "indexed_by F clo \<and> (\<forall>(c, s) \<in> set wl. indexed_by F s) \<Longrightarrow>
      (\<forall>a ix. covers clo' a ix \<longleftrightarrow> covers clo a ix \<or> (\<exists>(c, s) \<in> set rq. covers s a ix))"
    using getIndependentConstraints_spec [OF g, of F thesis] by blast
  note wl = element_sets_spec [OF 1(2)]
  have cs: "set cs = fst ` set wl" using wl by force
  have cov: "covers clo' a ix \<longleftrightarrow> covers clo a ix \<or> (\<exists>(c, s) \<in> set rq. covers s a ix)" for a ix
  proof -
    have "indexed_by F clo" using fam [of e clo] 1(1) by simp
    moreover have "indexed_by F s" if "(c, s) \<in> set wl" for c s
      using fam [of c s] wl that cs by force
    ultimately show ?thesis using cov' by blast
  qed
  have sub: "set req \<subseteq> set cs" using 1(3,4) cs by auto
  then have "holds cs \<sigma> \<Longrightarrow> holds req \<sigma>" for \<sigma> by (auto simp: holds_def)
  then have "valid req e \<Longrightarrow> valid cs e" unfolding valid_def by blast
  moreover have "eval e \<sigma> = 1" if "valid cs e" "contents \<sigma>" "holds req \<sigma>" for \<sigma>
  proof -
    let ?\<rho> = "combine clo' \<sigma> \<tau>"
    note agree = combine_agree [OF that(2) sat(1), of _ clo']
    have "eval c ?\<rho> = 1" if "(c, s) \<in> set wl" for c s
    proof (cases "(c, s) \<in> set rq")
      case True
      then have "agree s \<sigma> ?\<rho>" by (intro agree) (auto simp: cov)
      moreover have "c \<in> set req" using True 1(3) by force
      then have "eval c \<sigma> = 1" using \<open>holds req \<sigma>\<close> by (simp add: holds_def)
      moreover have "IndependentElementSet c = Some s" using wl that by blast
      ultimately show ?thesis using IndependentElementSet_support by metis
    next
      case False
      then have "(c, s) \<in> set wl'" using that 1(4) by auto
      moreover have "ies_inv s" using wl that IndependentElementSet_spec(1) [of c s] by auto
      ultimately have "agree s \<tau> ?\<rho>" using 1(5,6) intersects_iff [of s clo'] by (intro agree) blast
      moreover have "c \<in> set cs" using that cs by force
      then have "eval c \<tau> = 1" using sat(2) by (simp add: holds_def)
      moreover have "IndependentElementSet c = Some s" using wl that by blast
      ultimately show ?thesis using IndependentElementSet_support by metis
    qed
    then have "\<forall>c \<in> fst ` set wl. eval c ?\<rho> = 1" by auto
    then have "holds cs ?\<rho>" unfolding cs [symmetric] holds_def .
    then have "eval e ?\<rho> = 1" using \<open>valid cs e\<close> combine_contents [OF \<open>contents \<sigma>\<close> sat(1)] by (simp add: valid_def)
    moreover have "agree clo \<sigma> ?\<rho>" by (rule agree) (simp add: cov)
    ultimately show ?thesis using IndependentElementSet_support [OF 1(1)] by metis
  qed
  then have "valid req e" if "valid cs e" unfolding valid_def [of req] using that by blast
  ultimately show ?thesis by blast
qed

subsection \<open>Properties\<close>

text \<open>
  The element set of an expression covers all that its value depends on: the value is the same
  under array contents that agree on the covered bytes and on constant arrays.
\<close>

theorem element_set_supports_value:
  assumes "IndependentElementSet e = Some s" "agree s \<sigma> \<tau>"
  shows "ies_inv s \<and> eval e \<sigma> = eval e \<tau>"
  using IndependentElementSet_support [OF assms] IndependentElementSet_spec(1) [OF assms(1)] by simp

lemma sample_element_set:
  "IndependentElementSet (sample_read 1) = Some \<lparr>elements = [(sample_array, [1])], wholeObjects = [], exprs = [sample_read 1]\<rparr>"
  by code_simp

theorem element_set_supports_value_witness:
  "eval (sample_read 1) (\<lambda>a ix. if ix = 1 \<or> isConstantArray a then sample_env a ix else 0) =
   eval (sample_read 1) (\<lambda>a ix. if ix = 1 \<or> isConstantArray a then sample_env a ix else 7)"
proof -
  let ?s = "\<lparr>elements = [(sample_array, [1])], wholeObjects = [], exprs = [sample_read 1]\<rparr>"
  have "agree ?s (\<lambda>a ix. if ix = 1 \<or> isConstantArray a then sample_env a ix else 0)
      (\<lambda>a ix. if ix = 1 \<or> isConstantArray a then sample_env a ix else 7)"
    by (auto simp: agree_def covers_def)
  from element_set_supports_value [OF sample_element_set this] show ?thesis by simp
qed

text \<open>
  C36. \<open>computeTruth\<close> through the independence analysis answers for all constraints what a core solver
  that decides validity answers, when the constraints are satisfiable and every array is read
  at one set of constant indices or symbolically; an affirmative answer is right without these
  conditions.
\<close>

theorem independent_truth_exact:
  assumes "\<And>req b. core req e = Some b \<Longrightarrow> b = valid req e"
    and "IndependentSolver_computeTruth core cs e = Some b"
  shows "(b \<longrightarrow> valid cs e) \<and>
    ((\<forall>x s. x \<in> set (e # cs) \<longrightarrow> IndependentElementSet x = Some s \<longrightarrow> indexed_by F s) \<and>
     (\<exists>\<tau>. contents \<tau> \<and> holds cs \<tau>) \<longrightarrow> b = valid cs e)"
proof -
  obtain wl' clo' req where g: "getIndependentConstraints cs e = Some (wl', clo', req)" "core req e = Some b"
    using assms(2) by (auto simp: IndependentSolver_computeTruth_def bind_eq_Some_conv)
  obtain clo wl rq where "element_sets cs = Some wl" "req = map fst rq" "set wl = set rq \<union> set wl'"
    using getIndependentConstraints_spec [OF g(1), of F thesis] by blast
  then have "set req \<subseteq> set cs" using element_sets_spec [of cs wl] by force
  then have "holds cs \<sigma> \<Longrightarrow> holds req \<sigma>" for \<sigma> by (auto simp: holds_def)
  then have "valid req e \<Longrightarrow> valid cs e" unfolding valid_def by blast
  moreover have "b = valid req e" by (rule assms(1) [OF g(2)])
  ultimately show ?thesis using independent_valid_iff [OF g(1), of F] by blast
qed

lemma sample_lt_sets:
  "IndependentElementSet (sample_lt 1 220) =
     Some \<lparr>elements = [(sample_array, [1])], wholeObjects = [], exprs = [sample_lt 1 220]\<rparr>"
  "IndependentElementSet (sample_lt 1 230) =
     Some \<lparr>elements = [(sample_array, [1])], wholeObjects = [], exprs = [sample_lt 1 230]\<rparr>"
  by code_simp+

lemma zero_contents: "contents (\<lambda>a ix. 0)"
  by (simp add: contents_def env_ok_def in_width_def)

lemma symbolic_read [simp]: "eval (sample_read i) \<sigma> = \<sigma> sample_array i"
  by (simp add: sample_read_def initial_def isConstantArray_def isSymbolicArray_def sample_array_def)

theorem independent_truth_exact_witness:
  "IndependentSolver_computeTruth (\<lambda>req e. Some (valid req e)) [sample_lt 1 220] (sample_lt 1 230) =
     Some (valid [sample_lt 1 220] (sample_lt 1 230))"
proof -
  let ?core = "\<lambda>req e. Some (valid req e)" and ?cs = "[sample_lt 1 220]" and ?e = "sample_lt 1 230"
  let ?s = "\<lambda>e. \<lparr>elements = [(sample_array, [1])], wholeObjects = [], exprs = [e]\<rparr>"
  obtain b where b: "IndependentSolver_computeTruth ?core ?cs ?e = Some b"
    by (simp add: IndependentSolver_computeTruth_def getIndependentConstraints_def sample_lt_sets [simplified])
  have F: "indexed_by (\<lambda>_. {1}) (?s e)" for e by (simp add: indexed_by_def)
  have "\<forall>x s. x \<in> set (?e # ?cs) \<longrightarrow> IndependentElementSet x = Some s \<longrightarrow> indexed_by (\<lambda>_. {1}) s"
    using F sample_lt_sets by auto
  moreover have "holds ?cs (\<lambda>a ix. 0)" by (simp add: sample_lt_def)
  ultimately show ?thesis
    using independent_truth_exact [of ?core ?e ?cs b "\<lambda>_. {1}"] b zero_contents by blast
qed

definition sample_eq :: "int \<Rightarrow> nat \<Rightarrow> expr" where
  "sample_eq c i = BinaryExpr Eq (ConstantExpr (APInt 8 c)) (sample_read i)"

lemma DenseSet_insert_sorted: "sorted s \<and> distinct s \<Longrightarrow> sorted (DenseSet_insert x s) \<and> distinct (DenseSet_insert x s)"
  by (simp add: DenseSet_insert_def sorted_insort distinct_insort)

lemma DenseSet_add_loop_sorted:
  "sorted s \<and> distinct s \<Longrightarrow> sorted (snd (DenseSet_add_loop b m s)) \<and> distinct (snd (DenseSet_add_loop b m s))"
  by (induction b arbitrary: m s) (simp_all add: DenseSet_insert_sorted)

lemma DenseSet_add_loop_modified: "DenseSet_add_loop b True s = (True, s') \<Longrightarrow> set s' = set s \<union> set b"
  and DenseSet_add_loop_True: "fst (DenseSet_add_loop b True s)"
  by (induction b arbitrary: s) auto

lemma DenseSet_add_loop_exact:
  assumes "sorted b"
  shows "set (snd (DenseSet_add_loop b False s)) = set s \<union> {x \<in> set b. \<exists>y \<in> set b \<inter> set s. y \<le> x} \<and>
    fst (DenseSet_add_loop b False s) = (set b \<inter> set s \<noteq> {})"
  using assms
proof (induction b)
  case (Cons x b)
  show ?case
  proof (cases "x \<in> set s")
    case True
    have "set (snd (DenseSet_add_loop b True (DenseSet_insert x s))) = insert x (set s) \<union> set b"
      using DenseSet_add_loop_modified [of b "DenseSet_insert x s"] DenseSet_add_loop_True [of b "DenseSet_insert x s"]
      by (cases "DenseSet_add_loop b True (DenseSet_insert x s)") auto
    then show ?thesis using True Cons.prems DenseSet_add_loop_True by auto
  next
    case False
    then show ?thesis using Cons by auto
  qed
qed simp

text \<open>
  C37. \<open>DenseSet::add\<close> is not the union: it adds exactly the elements from the first common one on, and
  returns whether there is a common one, for every set (its elements in ascending order). An element
  of \<open>b\<close> below all common ones is dropped, and nothing is added where the sets are disjoint.
\<close>

theorem DenseSet_add_exact:
  assumes "sorted b"
  shows "set (snd (DenseSet_add b s)) = set s \<union> {x \<in> set b. \<exists>y \<in> set b \<inter> set s. y \<le> x} \<and>
    fst (DenseSet_add b s) = (set b \<inter> set s \<noteq> {}) \<and>
    (set (snd (DenseSet_add b s)) = set s \<union> set b \<longleftrightarrow> (\<forall>x \<in> set b - set s. \<exists>y \<in> set b \<inter> set s. y \<le> x)) \<and>
    (sorted s \<and> distinct s \<longrightarrow> sorted (snd (DenseSet_add b s)) \<and> distinct (snd (DenseSet_add b s)))"
proof -
  have "set (snd (DenseSet_add b s)) = set s \<union> {x \<in> set b. \<exists>y \<in> set b \<inter> set s. y \<le> x}"
    using DenseSet_add_loop_exact [OF assms, of s] by (simp add: DenseSet_add_def)
  moreover from this have "set (snd (DenseSet_add b s)) = set s \<union> set b \<longleftrightarrow> (\<forall>x \<in> set b - set s. \<exists>y \<in> set b \<inter> set s. y \<le> x)"
    by blast
  ultimately show ?thesis
    using DenseSet_add_loop_exact [OF assms, of s] DenseSet_add_loop_sorted [of s b False] by (simp add: DenseSet_add_def)
qed

theorem DenseSet_add_exact_witness: "set (snd (DenseSet_add [0, 1, 3] [1, 7])) = {1, 3, 7}"
proof -
  have "{x \<in> set [0, 1, 3]. \<exists>y \<in> set [0, 1, 3] \<inter> set [1, 7]. y \<le> x} = {1, 3 :: nat}" by auto
  then show ?thesis using DenseSet_add_exact [of "[0, 1, 3]" "[1, 7]"] by auto
qed

text \<open>
  So the closure loses bytes that required constraints read: of \<open>a[0] = a[1]\<close> and \<open>5 = a[0]\<close>, the query
  \<open>5 = a[1]\<close> keeps the first constraint only, and what follows from both does not follow from it.
\<close>

lemma dense_set_add_loses_constraint:
  "map_option (snd \<circ> snd) (getIndependentConstraints
       [BinaryExpr Eq (sample_read 0) (sample_read 1), sample_eq 5 0] (sample_eq 5 1)) =
     Some [BinaryExpr Eq (sample_read 0) (sample_read 1)] \<and>
   valid [BinaryExpr Eq (sample_read 0) (sample_read 1), sample_eq 5 0] (sample_eq 5 1) \<and>
   \<not> valid [BinaryExpr Eq (sample_read 0) (sample_read 1)] (sample_eq 5 1)"
proof (intro conjI)
  show "map_option (snd \<circ> snd) (getIndependentConstraints
       [BinaryExpr Eq (sample_read 0) (sample_read 1), sample_eq 5 0] (sample_eq 5 1)) =
     Some [BinaryExpr Eq (sample_read 0) (sample_read 1)]" by code_simp
  show "valid [BinaryExpr Eq (sample_read 0) (sample_read 1), sample_eq 5 0] (sample_eq 5 1)"
    by (simp add: valid_def sample_eq_def)
  show "\<not> valid [BinaryExpr Eq (sample_read 0) (sample_read 1)] (sample_eq 5 1)"
    using zero_contents by (auto simp: valid_def sample_eq_def)
qed

definition other_array :: array where
  "other_array = sample_array\<lparr>arrId := 1, UFE := 1, UFE_Cheat := 1\<rparr>"

definition other_read :: expr where
  "other_read = ReadExpr other_array NoUpdates (ConstantExpr (APInt 32 0))"

definition five_is_other :: expr where
  "five_is_other = BinaryExpr Eq (ConstantExpr (APInt 8 5)) other_read"

text \<open>
  C38. With the union-find structures, \<open>computeValidity\<close> reads the constraints of the array's own element
  and not of its representative. When a constraint over two arrays is recorded whose elements are
  the roots \<open>a\<close> and \<open>b\<close> of two classes, \<open>a\<close> gets the constraints of both and the new one and \<open>b\<close> is left with
  none; a query whose only symbolic array is that of \<open>b\<close> is then decided under no constraints,
  whatever the query's constraints are and whatever the solver below.
\<close>

theorem uf_validity_drops_class:
  assumes "uf_reachable es" "is_root es a" "is_root es b" "a \<noteq> b"
    and "findSymbolicObjects q = [x]" "int (UFE x) = b"
  shows "\<exists>es'. update_uf es [a, b] e = Some es' \<and>
    uf_constraints (es' ! nat a) = uf_constraints (es ! nat a) @ uf_constraints (es ! nat b) @ [e] \<and>
    (\<forall>core cs. IndependentSolver_computeValidity core True es' cs q = core [] q)"
proof -
  have ab: "in_range es a" "in_range es b" using assms(2,3) by (simp_all add: is_root_def)
  obtain es1 where es1: "UFManager_join es a b = Some (a, es1)" "length es1 = length es"
    "uf_constraints (es1 ! nat a) = uf_constraints (es ! nat a) @ uf_constraints (es ! nat b)" "uf_constraints (es1 ! nat b) = []"
    using join_spec [OF reachable_uf_inv [OF assms(1)] ab] assms(2-4) rep_root by metis
  have rng: "in_range es1 a" "in_range es1 b" using ab es1(2) by (simp_all add: in_range_def)
  define es' where "es' = UFManager_set es1 a ((es1 ! nat a)\<lparr>uf_constraints := uf_constraints (es1 ! nat a) @ [e]\<rparr>)"
  have "update_uf es [a, b] e = Some es'" using es1(1) rng by (simp add: update_uf_def push_constraint_def es'_def)
  moreover have "es' ! nat b = es1 ! nat b" "in_range es' b" "uf_constraints (es' ! nat a) = uf_constraints (es1 ! nat a) @ [e]"
    using rng assms(4) by (simp_all add: es'_def)
  ultimately show ?thesis using assms(5,6) es1(3,4) by (simp add: IndependentSolver_computeValidity_def)
qed

theorem uf_validity_drops_class_witness:
  "\<exists>es'. update_uf sample_uf [0, 1] (BinaryExpr Eq (sample_read 0) other_read) = Some es' \<and>
     (\<forall>core cs. IndependentSolver_computeValidity core True es' cs five_is_other = core [] five_is_other)"
proof -
  have "findSymbolicObjects five_is_other = [other_array]" by code_simp
  moreover have "int (UFE other_array) = 1" by (simp add: other_array_def)
  ultimately show ?thesis
    using uf_validity_drops_class [OF sample_uf_reachable, of 0 1 five_is_other other_array "BinaryExpr Eq (sample_read 0) other_read"] by auto
qed

text \<open>
  After \<open>a[0] = b[0]\<close> and \<open>5 = a[0]\<close> are added, a query about \<open>b\<close> that follows from the constraints does not
  follow from the constraints of its element.
\<close>

lemma uf_validity_loses_constraints:
  "(case addConstraint 4 (BinaryExpr Eq (sample_read 0) other_read) None (sample_cm []) of
      Inr cm1 \<Rightarrow>
        (case addConstraint 4 (sample_eq 5 0) None cm1 of
           Inr cm2 \<Rightarrow> constraints cm2 = [five_is_other, sample_eq 5 0] \<and>
             uf_required (ufm cm2) (findSymbolicObjects five_is_other) = Some []
         | Inl _ \<Rightarrow> False)
    | Inl _ \<Rightarrow> False) \<and>
   valid [five_is_other, sample_eq 5 0] five_is_other \<and> \<not> valid [] five_is_other"
proof (intro conjI)
  show "case addConstraint 4 (BinaryExpr Eq (sample_read 0) other_read) None (sample_cm []) of
      Inr cm1 \<Rightarrow>
        (case addConstraint 4 (sample_eq 5 0) None cm1 of
           Inr cm2 \<Rightarrow> constraints cm2 = [five_is_other, sample_eq 5 0] \<and>
             uf_required (ufm cm2) (findSymbolicObjects five_is_other) = Some []
         | Inl _ \<Rightarrow> False)
    | Inl _ \<Rightarrow> False" by code_simp
  show "valid [five_is_other, sample_eq 5 0] five_is_other" by (simp add: valid_def)
  have "eval five_is_other (\<lambda>a ix. 0) \<noteq> 1"
    by (simp add: five_is_other_def other_read_def initial_def isConstantArray_def isSymbolicArray_def
        other_array_def sample_array_def)
  then show "\<not> valid [] five_is_other" using zero_contents by (auto simp: valid_def)
qed

primrec create_all :: "string list \<Rightarrow> ufe2 list \<Rightarrow> ufe2 list" where
  "create_all [] es = es"
| "create_all (an # ans) es = create_all ans (snd (UFManager2_create es an))"

lemma create_all_chain:
  assumes "\<forall>i < length es. parent2 (es ! i) = int i + 1"
  shows "\<forall>i < length (create_all ans es). parent2 (create_all ans es ! i) = int i + 1"
  using assms
proof (induction ans arbitrary: es)
  case (Cons an ans)
  have "\<forall>i < length (snd (UFManager2_create es an)). parent2 (snd (UFManager2_create es an) ! i) = int i + 1"
    using Cons.prems by (auto simp: UFManager2_create_def Let_def UFElement2_new_def nth_append less_Suc_eq)
  from Cons.IH [OF this] show ?case by simp
qed simp

lemma chain_find_leaves:
  assumes "\<forall>i < length es. parent2 (es ! i) = int i + 1"
  shows "UFManager2_find es i = None"
proof (induction "nat (int (length es) - i)" arbitrary: i rule: less_induct)
  case less
  show ?case
  proof (cases "0 \<le> i \<and> i < int (length es)")
    case True
    then have p: "parent2 (es ! nat i) = i + 1" using assms by auto
    have "UFManager2_find es (i + 1) = None" by (rule less) (use True in simp)
    then show ?thesis using True p by (subst UFManager2_find.simps) (simp add: UFManager2_at_def Option.bind_eq_None_conv)
  next
    case False
    then have "UFManager2_at es i = None" by (auto simp: UFManager2_at_def)
    then show ?thesis by (subst UFManager2_find.simps) simp
  qed
qed

text \<open>
  \<open>UFManager2::create\<close> returns the index after the new element and makes it the parent: in a
  manager built by creations every element's parent is the next index, so \<open>find\<close> leaves the vector,
  whichever element it starts from.
\<close>

theorem created_elements_have_no_representative:
  "UFManager2_find (create_all ans []) i = None"
  using create_all_chain [of "[]" ans] by (intro chain_find_leaves) simp

end
