(* ===== verification/Immutable_Tree.thy ===== *)
theory Immutable_Tree
  imports Main
begin

text \<open>
  The persistent balanced tree under KLEE's immutable maps and sets
  (\<^verbatim>\<open>klee/include/klee/Internal/ADT/ImmutableTree.h\<close>). A node stores its height; two subtrees may
  differ in height by two. The key of a stored value is a function of it (the template's
  \<open>KOV\<close>), keys are compared by the order of their type. Nodes are shared and never changed, so a
  tree is a value; reference counts free memory only and are left out.
\<close>

subsection \<open>Nodes\<close>

datatype 'v node = Terminator | Node (left: "'v node") (val: 'v) (ht: nat) (right: "'v node")
where
  "left Terminator = Terminator"
| "ht Terminator = 0"
| "right Terminator = Terminator"

text \<open>The constructor of a node, with its height.\<close>

definition new_node :: "'v node \<Rightarrow> 'v node \<Rightarrow> 'v \<Rightarrow> 'v node" where
  "new_node l r v = Node l v (max (ht l) (ht r) + 1) r"

text \<open>
  \<open>balance\<close>. The node that is taken apart is higher than another one, so it is not the terminator,
  and the remaining cases are never reached.
\<close>

definition balance :: "'v node \<Rightarrow> 'v \<Rightarrow> 'v node \<Rightarrow> 'v node" where
  "balance l v r =
     (if ht l > ht r + 2 then
        (case l of
           Node ll lv _ lr \<Rightarrow>
             (if ht ll \<ge> ht lr then new_node ll (new_node lr r v) lv
              else (case lr of
                  Node lrl lrv _ lrr \<Rightarrow> new_node (new_node ll lrl lv) (new_node lrr r v) lrv
                | Terminator \<Rightarrow> new_node l r v))
         | Terminator \<Rightarrow> new_node l r v)
      else if ht r > ht l + 2 then
        (case r of
           Node rl rv _ rr \<Rightarrow>
             (if ht rr \<ge> ht rl then new_node (new_node l rl v) rr rv
              else (case rl of
                  Node rll rlv _ rlr \<Rightarrow> new_node (new_node l rll v) (new_node rlr rr rv) rlv
                | Terminator \<Rightarrow> new_node l r v))
         | Terminator \<Rightarrow> new_node l r v)
      else new_node l r v)"

fun node_size :: "'v node \<Rightarrow> nat" where
  "node_size Terminator = 0"
| "node_size (Node l v h r) = node_size l + 1 + node_size r"

text \<open>\<open>popMin\<close> and \<open>popMax\<close> of a node that is not the terminator: the value and the rest.\<close>

fun popMin :: "'v node \<Rightarrow> ('v \<times> 'v node) option" where
  "popMin Terminator = None"
| "popMin (Node l v h r) =
     (if l = Terminator then Some (v, r)
      else map_option (\<lambda>(x, l'). (x, balance l' v r)) (popMin l))"

fun popMax :: "'v node \<Rightarrow> ('v \<times> 'v node) option" where
  "popMax Terminator = None"
| "popMax (Node l v h r) =
     (if r = Terminator then Some (v, l)
      else map_option (\<lambda>(x, r'). (x, balance l v r')) (popMax r))"

fun insert_node :: "('v \<Rightarrow> 'k::linorder) \<Rightarrow> 'v \<Rightarrow> 'v node \<Rightarrow> 'v node" where
  "insert_node kov v Terminator = new_node Terminator Terminator v"
| "insert_node kov v (Node l x h r) =
     (if kov v < kov x then balance (insert_node kov v l) x r
      else if kov x < kov v then balance l x (insert_node kov v r)
      else Node l x h r)"

fun replace_node :: "('v \<Rightarrow> 'k::linorder) \<Rightarrow> 'v \<Rightarrow> 'v node \<Rightarrow> 'v node" where
  "replace_node kov v Terminator = new_node Terminator Terminator v"
| "replace_node kov v (Node l x h r) =
     (if kov v < kov x then balance (replace_node kov v l) x r
      else if kov x < kov v then balance l x (replace_node kov v r)
      else new_node l r v)"

fun remove_node :: "('v \<Rightarrow> 'k::linorder) \<Rightarrow> 'k \<Rightarrow> 'v node \<Rightarrow> 'v node" where
  "remove_node kov k Terminator = Terminator"
| "remove_node kov k (Node l x h r) =
     (if k < kov x then balance (remove_node kov k l) x r
      else if kov x < k then balance l x (remove_node kov k r)
      else if l = Terminator then r
      else if r = Terminator then l
      else (case popMin r of Some (m, nr) \<Rightarrow> balance l m nr | None \<Rightarrow> r))"

subsection \<open>Searches\<close>

fun lookup :: "('v \<Rightarrow> 'k::linorder) \<Rightarrow> 'k \<Rightarrow> 'v node \<Rightarrow> 'v option" where
  "lookup kov k Terminator = None"
| "lookup kov k (Node l x h r) =
     (if k < kov x then lookup kov k l else if kov x < k then lookup kov k r else Some x)"

fun tree_count :: "('v \<Rightarrow> 'k::linorder) \<Rightarrow> 'k \<Rightarrow> 'v node \<Rightarrow> nat" where
  "tree_count kov k Terminator = 0"
| "tree_count kov k (Node l x h r) =
     (if k < kov x then tree_count kov k l else if kov x < k then tree_count kov k r else 1)"

fun lookup_previous_loop :: "('v \<Rightarrow> 'k::linorder) \<Rightarrow> 'k \<Rightarrow> 'v option \<Rightarrow> 'v node \<Rightarrow> 'v option" where
  "lookup_previous_loop kov k result Terminator = result"
| "lookup_previous_loop kov k result (Node l x h r) =
     (if k < kov x then lookup_previous_loop kov k result l
      else if kov x < k then lookup_previous_loop kov k (Some x) r
      else Some x)"

definition lookup_previous :: "('v \<Rightarrow> 'k::linorder) \<Rightarrow> 'k \<Rightarrow> 'v node \<Rightarrow> 'v option" where
  "lookup_previous kov k t = lookup_previous_loop kov k None t"

fun tree_min :: "'v node \<Rightarrow> 'v option" where
  "tree_min Terminator = None"
| "tree_min (Node l x h r) = (if l = Terminator then Some x else tree_min l)"

fun tree_max :: "'v node \<Rightarrow> 'v option" where
  "tree_max Terminator = None"
| "tree_max (Node l x h r) = (if r = Terminator then Some x else tree_max r)"

subsection \<open>Iterators\<close>

text \<open>
  The stack of an iterator, its top first; the empty stack is the end. Two children of a node
  hold different keys, so comparing a child with the node just left by value and by address is
  the same.
\<close>

fun push_left :: "'v node \<Rightarrow> 'v node list \<Rightarrow> 'v node list" where
  "push_left Terminator st = st"
| "push_left (Node l x h r) st = push_left l (Node l x h r # st)"

fun push_right :: "'v node \<Rightarrow> 'v node list \<Rightarrow> 'v node list" where
  "push_right Terminator st = st"
| "push_right (Node l x h r) st = push_right r (Node l x h r # st)"

definition tree_begin :: "'v node \<Rightarrow> 'v node list" where
  "tree_begin root = push_left root []"

fun climb_from_right :: "'v node \<Rightarrow> 'v node list \<Rightarrow> 'v node list" where
  "climb_from_right prev [] = []"
| "climb_from_right prev (n # st) = (if prev = left n then n # st else climb_from_right n st)"

fun climb_from_left :: "'v node \<Rightarrow> 'v node list \<Rightarrow> 'v node list" where
  "climb_from_left prev [] = []"
| "climb_from_left prev (n # st) = (if prev = right n then n # st else climb_from_left n st)"

text \<open>\<open>operator++\<close> asserts that the iterator is not at the end; \<open>operator--\<close> starts there from the root.\<close>

fun iter_next :: "'v node list \<Rightarrow> 'v node list option" where
  "iter_next [] = None"
| "iter_next (n # st) =
     Some (if right n = Terminator then climb_from_right n st else push_left (right n) (n # st))"

fun iter_prev :: "'v node \<Rightarrow> 'v node list \<Rightarrow> 'v node list" where
  "iter_prev root [] = push_right root []"
| "iter_prev root (n # st) =
     (if left n = Terminator then climb_from_left n st else push_right (left n) (n # st))"

fun bound_path :: "('v \<Rightarrow> 'k::linorder) \<Rightarrow> 'k \<Rightarrow> 'v node \<Rightarrow> 'v node list \<Rightarrow> bool \<times> 'v node list" where
  "bound_path kov k Terminator st = (False, st)"
| "bound_path kov k (Node l x h r) st =
     (if k < kov x then bound_path kov k l (Node l x h r # st)
      else if kov x < k then bound_path kov k r (Node l x h r # st)
      else (True, Node l x h r # st))"

definition lower_bound :: "('v \<Rightarrow> 'k::linorder) \<Rightarrow> 'k \<Rightarrow> 'v node \<Rightarrow> 'v node list option" where
  "lower_bound kov k root =
     (case bound_path kov k root [] of
        (True, st) \<Rightarrow> Some st
      | (False, []) \<Rightarrow> Some []
      | (False, n # st) \<Rightarrow> (if kov (val n) < k then iter_next (n # st) else Some (n # st)))"

definition upper_bound :: "('v \<Rightarrow> 'k::linorder) \<Rightarrow> 'k \<Rightarrow> 'v node \<Rightarrow> 'v node list option" where
  "upper_bound kov k root =
     (case lower_bound kov k root of
        Some (n # st) \<Rightarrow> (if \<not> k < kov (val n) then iter_next (n # st) else Some (n # st))
      | res \<Rightarrow> res)"

definition tree_find :: "('v \<Rightarrow> 'k::linorder) \<Rightarrow> 'k \<Rightarrow> 'v node \<Rightarrow> 'v node list option" where
  "tree_find kov k root =
     (case lower_bound kov k root of
        Some (n # st) \<Rightarrow> Some (if k < kov (val n) then [] else n # st)
      | res \<Rightarrow> res)"

subsection \<open>Invariants\<close>

fun inorder :: "'v node \<Rightarrow> 'v list" where
  "inorder Terminator = []"
| "inorder (Node l x h r) = inorder l @ x # inorder r"

text \<open>The stored height is the height, and two subtrees differ by at most two.\<close>

fun balanced :: "'v node \<Rightarrow> bool" where
  "balanced Terminator \<longleftrightarrow> True"
| "balanced (Node l x h r) \<longleftrightarrow> balanced l \<and> balanced r \<and> h = max (ht l) (ht r) + 1 \<and>
     ht l \<le> ht r + 2 \<and> ht r \<le> ht l + 2"

definition ordered :: "('v \<Rightarrow> 'k::linorder) \<Rightarrow> 'v node \<Rightarrow> bool" where
  "ordered kov t \<longleftrightarrow> sorted_wrt (\<lambda>x y. kov x < kov y) (inorder t)"

definition elems :: "'v node \<Rightarrow> 'v set" where
  "elems t = set (inorder t)"

lemma elems_simps [simp]:
  "elems Terminator = {}" "elems (Node l x h r) = insert x (elems l \<union> elems r)"
  by (auto simp: elems_def)

lemma ordered_simps [simp]:
  "ordered kov Terminator"
  "ordered kov (Node l x h r) \<longleftrightarrow> ordered kov l \<and> ordered kov r \<and>
     (\<forall>y \<in> elems l. kov y < kov x) \<and> (\<forall>y \<in> elems r. kov x < kov y) \<and>
     (\<forall>y \<in> elems l. \<forall>z \<in> elems r. kov y < kov z)"
  by (auto simp: ordered_def elems_def sorted_wrt_append)

lemma inorder_new_node [simp]: "inorder (new_node l r v) = inorder l @ v # inorder r"
  by (simp add: new_node_def)

lemma inorder_balance [simp]: "inorder (balance l v r) = inorder l @ v # inorder r"
  by (auto simp: balance_def split: node.split)

lemma elems_balance [simp]: "elems (balance l v r) = insert v (elems l \<union> elems r)"
  by (auto simp: elems_def)

lemma ordered_balance [simp]: "ordered kov (balance l v r) = ordered kov (Node l v h r)"
  by (simp add: ordered_def)

lemma ht_new_node [simp]: "ht (new_node l r v) = max (ht l) (ht r) + 1"
  by (simp add: new_node_def)

lemma balanced_new_node [simp]:
  "balanced (new_node l r v) \<longleftrightarrow> balanced l \<and> balanced r \<and> ht l \<le> ht r + 2 \<and> ht r \<le> ht l + 2"
  by (auto simp: new_node_def)

lemma balanced_ht_0: "balanced t \<Longrightarrow> ht t = 0 \<longleftrightarrow> t = Terminator"
  by (cases t) auto

lemma balance_flat: "ht l \<le> ht r + 2 \<Longrightarrow> ht r \<le> ht l + 2 \<Longrightarrow> balance l v r = new_node l r v"
  by (simp add: balance_def)

lemma balance_left:
  assumes "balanced l" "balanced r" "ht l = ht r + 3"
  shows "balanced (balance l v r) \<and> ht r + 3 \<le> ht (balance l v r) \<and> ht (balance l v r) \<le> ht r + 4"
proof -
  obtain ll lv h lr where l: "l = Node ll lv h lr" using assms(3) by (cases l) auto
  show ?thesis
  proof (cases "ht lr \<le> ht ll")
    case True
    then have "balance l v r = new_node ll (new_node lr r v) lv" using assms(3) l by (simp add: balance_def)
    then show ?thesis using assms l True by (simp add: max_def split: if_splits)
  next
    case False
    then obtain lrl lrv h' lrr where lr: "lr = Node lrl lrv h' lrr" by (cases lr) auto
    have "balance l v r = new_node (new_node ll lrl lv) (new_node lrr r v) lrv"
      using assms(3) l lr False by (simp add: balance_def)
    then show ?thesis using assms l lr False by (simp add: max_def split: if_splits)
  qed
qed

lemma balance_right:
  assumes "balanced l" "balanced r" "ht r = ht l + 3"
  shows "balanced (balance l v r) \<and> ht l + 3 \<le> ht (balance l v r) \<and> ht (balance l v r) \<le> ht l + 4"
proof -
  obtain rl rv h rr where r: "r = Node rl rv h rr" using assms(3) by (cases r) auto
  show ?thesis
  proof (cases "ht rl \<le> ht rr")
    case True
    then have "balance l v r = new_node (new_node l rl v) rr rv" using assms(3) r by (simp add: balance_def)
    then show ?thesis using assms r True by (simp add: max_def split: if_splits)
  next
    case False
    then obtain rll rlv h' rlr where rl: "rl = Node rll rlv h' rlr" by (cases rl) auto
    have "balance l v r = new_node (new_node l rll v) (new_node rlr rr rv) rlv"
      using assms(3) r rl False by (simp add: balance_def)
    then show ?thesis using assms r rl False by (simp add: max_def split: if_splits)
  qed
qed

text \<open>
  Balancing a node after one side has grown or shrunk by at most one: the result is balanced and
  no higher than the node by more than that.
\<close>

lemma balance_grown:
  assumes n: "balanced (Node l x h r)" and t: "balanced t"
  shows "ht l \<le> ht t \<Longrightarrow> ht t \<le> ht l + 1 \<Longrightarrow>
      balanced (balance t x r) \<and> h \<le> ht (balance t x r) \<and> ht (balance t x r) \<le> h + 1"
    and "ht r \<le> ht t \<Longrightarrow> ht t \<le> ht r + 1 \<Longrightarrow>
      balanced (balance l x t) \<and> h \<le> ht (balance l x t) \<and> ht (balance l x t) \<le> h + 1"
proof -
  assume g: "ht l \<le> ht t" "ht t \<le> ht l + 1"
  show "balanced (balance t x r) \<and> h \<le> ht (balance t x r) \<and> ht (balance t x r) \<le> h + 1"
  proof (cases "ht t = ht r + 3")
    case True
    then show ?thesis using balance_left [OF t, of r x] n g by (auto simp: max_def)
  next
    case False
    then have "balance t x r = new_node t r x" using n g by (intro balance_flat) auto
    then show ?thesis using n t g False by (auto simp: max_def)
  qed
next
  assume g: "ht r \<le> ht t" "ht t \<le> ht r + 1"
  show "balanced (balance l x t) \<and> h \<le> ht (balance l x t) \<and> ht (balance l x t) \<le> h + 1"
  proof (cases "ht t = ht l + 3")
    case True
    then show ?thesis using balance_right [OF _ t, of l x] n g by (auto simp: max_def)
  next
    case False
    then have "balance l x t = new_node l t x" using n g by (intro balance_flat) auto
    then show ?thesis using n t g False by (auto simp: max_def)
  qed
qed

lemma balance_shrunk:
  assumes n: "balanced (Node l x h r)" and t: "balanced t"
  shows "ht t \<le> ht l \<Longrightarrow> ht l \<le> ht t + 1 \<Longrightarrow>
      balanced (balance t y r) \<and> ht (balance t y r) \<le> h \<and> h \<le> ht (balance t y r) + 1"
    and "ht t \<le> ht r \<Longrightarrow> ht r \<le> ht t + 1 \<Longrightarrow>
      balanced (balance l y t) \<and> ht (balance l y t) \<le> h \<and> h \<le> ht (balance l y t) + 1"
proof -
  assume g: "ht t \<le> ht l" "ht l \<le> ht t + 1"
  show "balanced (balance t y r) \<and> ht (balance t y r) \<le> h \<and> h \<le> ht (balance t y r) + 1"
  proof (cases "ht r = ht t + 3")
    case True
    then show ?thesis using balance_right [OF t, of r y] n g by (auto simp: max_def)
  next
    case False
    then have "balance t y r = new_node t r y" using n g by (intro balance_flat) auto
    then show ?thesis using n t g False by (auto simp: max_def)
  qed
next
  assume g: "ht t \<le> ht r" "ht r \<le> ht t + 1"
  show "balanced (balance l y t) \<and> ht (balance l y t) \<le> h \<and> h \<le> ht (balance l y t) + 1"
  proof (cases "ht l = ht t + 3")
    case True
    then show ?thesis using balance_left [OF _ t, of l y] n g by (auto simp: max_def)
  next
    case False
    then have "balance l y t = new_node l t y" using n g by (intro balance_flat) auto
    then show ?thesis using n t g False by (auto simp: max_def)
  qed
qed

subsection \<open>The operations keep the tree balanced\<close>

lemma insert_balanced:
  "balanced t \<Longrightarrow> balanced (insert_node kov v t) \<and>
     ht t \<le> ht (insert_node kov v t) \<and> ht (insert_node kov v t) \<le> ht t + 1"
proof (induction t)
  case (Node l x h r)
  then have "balanced l" "balanced r" by auto
  from Node.IH(1) [OF this(1)] Node.IH(2) [OF this(2)] show ?case
    using balance_grown(1) [OF Node.prems, of "insert_node kov v l"] balance_grown(2) [OF Node.prems, of "insert_node kov v r"]
      Node.prems by (simp add: le_SucI)
qed (simp add: new_node_def)

lemma replace_balanced:
  "balanced t \<Longrightarrow> balanced (replace_node kov v t) \<and>
     ht t \<le> ht (replace_node kov v t) \<and> ht (replace_node kov v t) \<le> ht t + 1"
proof (induction t)
  case (Node l x h r)
  then have "balanced l" "balanced r" by auto
  from Node.IH(1) [OF this(1)] Node.IH(2) [OF this(2)] show ?case
    using balance_grown(1) [OF Node.prems, of "replace_node kov v l"] balance_grown(2) [OF Node.prems, of "replace_node kov v r"]
      Node.prems by (simp add: le_SucI)
qed (simp add: new_node_def)

lemma popMin_spec:
  assumes "t \<noteq> Terminator"
  obtains m t' where "popMin t = Some (m, t')" "inorder t = m # inorder t'"
    "balanced t \<Longrightarrow> balanced t' \<and> ht t' \<le> ht t \<and> ht t \<le> ht t' + 1"
proof -
  have "\<exists>m t'. popMin t = Some (m, t') \<and> inorder t = m # inorder t' \<and>
      (balanced t \<longrightarrow> balanced t' \<and> ht t' \<le> ht t \<and> ht t \<le> ht t' + 1)"
    using assms
  proof (induction t)
    case (Node l x h r)
    show ?case
    proof (cases "l = Terminator")
      case False
      with Node.IH(1) obtain m l' where l': "popMin l = Some (m, l')" "inorder l = m # inorder l'"
        "balanced l \<longrightarrow> balanced l' \<and> ht l' \<le> ht l \<and> ht l \<le> ht l' + 1" by blast
      then show ?thesis using balance_shrunk(1) [of l x h r l'] False by auto
    qed auto
  qed simp
  then show ?thesis using that by blast
qed

lemma popMax_spec:
  assumes "t \<noteq> Terminator"
  obtains m t' where "popMax t = Some (m, t')" "inorder t = inorder t' @ [m]"
    "balanced t \<Longrightarrow> balanced t' \<and> ht t' \<le> ht t \<and> ht t \<le> ht t' + 1"
proof -
  have "\<exists>m t'. popMax t = Some (m, t') \<and> inorder t = inorder t' @ [m] \<and>
      (balanced t \<longrightarrow> balanced t' \<and> ht t' \<le> ht t \<and> ht t \<le> ht t' + 1)"
    using assms
  proof (induction t)
    case (Node l x h r)
    show ?case
    proof (cases "r = Terminator")
      case False
      with Node.IH(2) obtain m r' where r': "popMax r = Some (m, r')" "inorder r = inorder r' @ [m]"
        "balanced r \<longrightarrow> balanced r' \<and> ht r' \<le> ht r \<and> ht r \<le> ht r' + 1" by blast
      then show ?thesis using balance_shrunk(2) [of l x h r r'] False by auto
    qed auto
  qed simp
  then show ?thesis using that by blast
qed

lemma remove_balanced:
  "balanced t \<Longrightarrow> balanced (remove_node kov k t) \<and>
     ht (remove_node kov k t) \<le> ht t \<and> ht t \<le> ht (remove_node kov k t) + 1"
proof (induction t)
  case (Node l x h r)
  then have b: "balanced l" "balanced r" by auto
  show ?case
  proof (cases "k < kov x \<or> kov x < k \<or> l = Terminator \<or> r = Terminator")
    case True
    then show ?thesis
      using Node.IH(1) [OF b(1)] Node.IH(2) [OF b(2)] Node.prems
        balance_shrunk(1) [OF Node.prems, of "remove_node kov k l"] balance_shrunk(2) [OF Node.prems, of "remove_node kov k r"]
      by auto
  next
    case False
    obtain m r' where "popMin r = Some (m, r')" "balanced r \<Longrightarrow> balanced r' \<and> ht r' \<le> ht r \<and> ht r \<le> ht r' + 1"
      using popMin_spec [of r thesis] False by blast
    then show ?thesis using False balance_shrunk(2) [OF Node.prems, of r' m] b by auto
  qed
qed simp

subsection \<open>The operations on the ordered elements\<close>

lemma insert_elems:
  "ordered kov t \<Longrightarrow> ordered kov (insert_node kov v t) \<and>
     elems (insert_node kov v t) = (if kov v \<in> kov ` elems t then elems t else insert v (elems t))"
proof (induction t)
  case (Node l x h r)
  then show ?case by (cases "kov v" "kov x" rule: linorder_cases) (auto simp: ordered_balance [where h = h])
qed (simp add: new_node_def)

lemma replace_elems:
  "ordered kov t \<Longrightarrow> ordered kov (replace_node kov v t) \<and>
     elems (replace_node kov v t) = insert v {x \<in> elems t. kov x \<noteq> kov v}"
proof (induction t)
  case (Node l x h r)
  then show ?case
    by (cases "kov v" "kov x" rule: linorder_cases) (auto simp: ordered_balance [where h = h] new_node_def)
qed (simp add: new_node_def)

lemma remove_elems:
  "ordered kov t \<Longrightarrow> ordered kov (remove_node kov k t) \<and>
     elems (remove_node kov k t) = {x \<in> elems t. kov x \<noteq> k}"
proof (induction t)
  case (Node l x h r)
  show ?case
  proof (cases "k = kov x \<and> l \<noteq> Terminator \<and> r \<noteq> Terminator")
    case True
    then obtain m r' where p: "popMin r = Some (m, r')" "inorder r = m # inorder r'"
      using popMin_spec [of r thesis] by blast
    then have "elems r = insert m (elems r')" "ordered kov r = (ordered kov r' \<and> (\<forall>y \<in> elems r'. kov m < kov y))"
      by (auto simp: elems_def ordered_def)
    then show ?thesis using True p(1) Node.prems by (auto simp: ordered_balance [where h = h])
  next
    case False
    then show ?thesis
      using Node by (cases k "kov x" rule: linorder_cases) (auto simp: ordered_balance [where h = h])
  qed
qed simp

lemma lookup_iff: "ordered kov t \<Longrightarrow> lookup kov k t = Some x \<longleftrightarrow> x \<in> elems t \<and> kov x = k"
  by (induction t) auto

lemma lookup_None: "ordered kov t \<Longrightarrow> lookup kov k t = None \<longleftrightarrow> k \<notin> kov ` elems t"
  by (induction t) auto

lemma count_lookup: "tree_count kov k t = (if lookup kov k t = None then 0 else 1)"
  by (induction t) auto

lemma size_elems: "ordered kov t \<Longrightarrow> node_size t = card (elems t)"
proof -
  assume "ordered kov t"
  then have "distinct (inorder t)" by (induction t) (auto simp flip: elems_def)
  moreover have "node_size t = length (inorder t)" by (induction t) auto
  ultimately show ?thesis by (simp add: elems_def distinct_card)
qed

lemma lookup_previous_loop_spec:
  assumes "ordered kov t" "\<And>b y. best = Some b \<Longrightarrow> y \<in> elems t \<Longrightarrow> kov b < kov y"
  shows "lookup_previous_loop kov k best t = Some x \<longleftrightarrow>
    (x \<in> elems t \<and> kov x \<le> k \<and> (\<forall>y \<in> elems t. kov y \<le> k \<longrightarrow> kov y \<le> kov x)) \<or>
    ((\<forall>y \<in> elems t. k < kov y) \<and> best = Some x)"
  using assms
proof (induction t arbitrary: best)
  case (Node l y h r)
  show ?case
  proof (cases k "kov y" rule: linorder_cases)
    case less
    then show ?thesis using Node.IH(1) [of best] Node.prems by (auto dest: less_trans)
  next
    case equal
    then show ?thesis using Node.prems by (auto dest: leD less_imp_le)
  next
    case greater
    have "lookup_previous_loop kov k (Some y) r = Some x \<longleftrightarrow>
        (x \<in> elems r \<and> kov x \<le> k \<and> (\<forall>z \<in> elems r. kov z \<le> k \<longrightarrow> kov z \<le> kov x)) \<or>
        ((\<forall>z \<in> elems r. k < kov z) \<and> y = x)"
    proof -
      have "ordered kov r" "\<And>b z. Some y = Some b \<Longrightarrow> z \<in> elems r \<Longrightarrow> kov b < kov z" using Node.prems(1) by auto
      from Node.IH(2) [of "Some y", OF this] show ?thesis by simp
    qed
    moreover have o: "\<forall>z \<in> elems l. kov z < kov y" "\<forall>z \<in> elems r. kov y < kov z" using Node.prems(1) by auto
    moreover have "(x \<in> elems (Node l y h r) \<and> kov x \<le> k \<and> (\<forall>z \<in> elems (Node l y h r). kov z \<le> k \<longrightarrow> kov z \<le> kov x)) \<longleftrightarrow>
        (x \<in> elems r \<and> kov x \<le> k \<and> (\<forall>z \<in> elems r. kov z \<le> k \<longrightarrow> kov z \<le> kov x)) \<or> ((\<forall>z \<in> elems r. k < kov z) \<and> y = x)"
    proof (cases "\<forall>z \<in> elems r. k < kov z")
      case True
      then show ?thesis using o greater by (auto simp: not_le less_imp_le intro: leD)
    next
      case False
      then obtain z where z: "z \<in> elems r" "kov z \<le> k" by (auto simp: not_less)
      with o have yz: "kov y < kov z" and lz: "\<forall>u \<in> elems l. kov u < kov z" by (auto intro: less_trans)
      have inR: "x \<in> elems r" if "x \<in> elems (Node l y h r)" "\<forall>u \<in> elems (Node l y h r). kov u \<le> k \<longrightarrow> kov u \<le> kov x"
      proof -
        have "kov z \<le> kov x" using that(2) z by simp
        then show ?thesis using that(1) yz lz by (auto dest: leD)
      qed
      have low: "kov u \<le> kov x" if "x \<in> elems r" "u \<in> elems l \<or> u = y" for u
        using that o by (meson less_imp_le less_trans)
      show ?thesis
      proof
        assume *: "x \<in> elems (Node l y h r) \<and> kov x \<le> k \<and> (\<forall>z \<in> elems (Node l y h r). kov z \<le> k \<longrightarrow> kov z \<le> kov x)"
        then have "x \<in> elems r" using inR by blast
        with * show "(x \<in> elems r \<and> kov x \<le> k \<and> (\<forall>z \<in> elems r. kov z \<le> k \<longrightarrow> kov z \<le> kov x)) \<or>
            ((\<forall>z \<in> elems r. k < kov z) \<and> y = x)" by simp
      next
        assume "(x \<in> elems r \<and> kov x \<le> k \<and> (\<forall>z \<in> elems r. kov z \<le> k \<longrightarrow> kov z \<le> kov x)) \<or>
            ((\<forall>z \<in> elems r. k < kov z) \<and> y = x)"
        with False have "x \<in> elems r" "kov x \<le> k" "\<forall>z \<in> elems r. kov z \<le> k \<longrightarrow> kov z \<le> kov x" by auto
        then show "x \<in> elems (Node l y h r) \<and> kov x \<le> k \<and> (\<forall>z \<in> elems (Node l y h r). kov z \<le> k \<longrightarrow> kov z \<le> kov x)"
          using low by auto
      qed
    qed
    moreover have "lookup_previous_loop kov k best (Node l y h r) = lookup_previous_loop kov k (Some y) r"
      using greater by (simp add: less_not_sym)
    moreover have "\<not> (\<forall>z \<in> elems (Node l y h r). k < kov z)" using greater by (simp add: not_less less_imp_le)
    ultimately show ?thesis by argo
  qed
qed auto

lemma lookup_previous_iff:
  "ordered kov t \<Longrightarrow> lookup_previous kov k t = Some x \<longleftrightarrow>
     x \<in> elems t \<and> kov x \<le> k \<and> (\<forall>y \<in> elems t. kov y \<le> k \<longrightarrow> kov y \<le> kov x)"
  unfolding lookup_previous_def using lookup_previous_loop_spec [of kov t None k x] by simp

subsection \<open>Iteration\<close>

text \<open>The values still to come from an iterator's position, the current one first.\<close>

fun above :: "'v node \<Rightarrow> 'v node list \<Rightarrow> 'v list" where
  "above prev [] = []"
| "above prev (n # st) = (if prev = left n then val n # inorder (right n) else []) @ above n st"

fun upcoming :: "'v node list \<Rightarrow> 'v list" where
  "upcoming [] = []"
| "upcoming (n # st) = val n # inorder (right n) @ above n st"

text \<open>The values before an iterator's position; at the end these are all.\<close>

fun below :: "'v node \<Rightarrow> 'v node list \<Rightarrow> 'v list" where
  "below prev [] = []"
| "below prev (n # st) = below n st @ (if prev = right n then inorder (left n) @ [val n] else [])"

fun passed :: "'v node \<Rightarrow> 'v node list \<Rightarrow> 'v list" where
  "passed root [] = inorder root"
| "passed root (n # st) = below n st @ inorder (left n)"

text \<open>A stack is a path up to the root.\<close>

fun is_path :: "'v node \<Rightarrow> 'v node list \<Rightarrow> bool" where
  "is_path root [] \<longleftrightarrow> True"
| "is_path root [n] \<longleftrightarrow> n = root \<and> n \<noteq> Terminator"
| "is_path root (n # m # st) \<longleftrightarrow> (n = left m \<or> n = right m) \<and> n \<noteq> Terminator \<and> is_path root (m # st)"

lemma ordered_children:
  assumes "ordered kov n"
  shows "ordered kov (left n)" "ordered kov (right n)" "left n \<noteq> Terminator \<Longrightarrow> left n \<noteq> right n"
proof -
  show "ordered kov (left n)" "ordered kov (right n)" using assms by (cases n; simp)+
  assume "left n \<noteq> Terminator"
  then obtain x where "x \<in> elems (left n)" by (cases "left n") auto
  with assms have "x \<notin> elems (right n)" by (cases n) auto
  with \<open>x \<in> elems (left n)\<close> show "left n \<noteq> right n" by auto
qed

lemma path_ordered: "is_path root st \<Longrightarrow> ordered kov root \<Longrightarrow> n \<in> set st \<Longrightarrow> ordered kov n \<and> n \<noteq> Terminator"
proof (induction root st arbitrary: n rule: is_path.induct)
  case (3 root n' m st)
  then have "ordered kov m" by auto
  with 3 show ?case using ordered_children [of kov m] by auto
qed auto

lemma path_tail: "is_path root (n # st) \<Longrightarrow> is_path root st"
  by (cases st) auto

lemma path_height:
  assumes "is_path root st" "balanced root" "st = n # st'"
  shows "balanced n \<and> length st + ht n \<le> ht root + 1"
  using assms
proof (induction root st arbitrary: n st' rule: is_path.induct)
  case (3 root n' m st)
  then have m: "balanced m" "length (m # st) + ht m \<le> ht root + 1" by auto
  obtain l x h r where "m = Node l x h r" using 3(2) by (cases m) auto
  with m 3 show ?case by auto
qed auto

lemma push_left_spec:
  "t \<noteq> Terminator \<Longrightarrow> upcoming (push_left t st) = inorder t @ above t st \<and> push_left t st \<noteq> [] \<and>
     (is_path root (t # st) \<longrightarrow> is_path root (push_left t st))"
proof (induction t arbitrary: st)
  case (Node l x h r)
  show ?case
  proof (cases "l = Terminator")
    case False
    from Node.IH(1) [OF this, of "Node l x h r # st"] False show ?thesis by auto
  qed simp
qed simp

lemma push_right_spec:
  "t \<noteq> Terminator \<Longrightarrow> passed root (push_right t st) @ [val (hd (push_right t st))] = below t st @ inorder t \<and>
     push_right t st \<noteq> [] \<and> (is_path root (t # st) \<longrightarrow> is_path root (push_right t st))"
proof (induction t arbitrary: st)
  case (Node l x h r)
  show ?case
  proof (cases "r = Terminator")
    case False
    from Node.IH(2) [OF this, of "Node l x h r # st"] False show ?thesis by auto
  qed simp
qed simp

lemma climb_from_right_spec:
  "upcoming (climb_from_right prev st) = above prev st"
  "is_path root st \<Longrightarrow> is_path root (climb_from_right prev st)"
  by (induction prev st rule: climb_from_right.induct) (auto dest: path_tail)

lemma climb_from_left_spec:
  "below prev st \<noteq> [] \<Longrightarrow> climb_from_left prev st \<noteq> [] \<and>
     passed root (climb_from_left prev st) @ [val (hd (climb_from_left prev st))] = below prev st"
  "is_path root st \<Longrightarrow> is_path root (climb_from_left prev st)"
  by (induction prev st rule: climb_from_left.induct) (auto dest: path_tail)

lemma begin_spec: "upcoming (tree_begin t) = inorder t" "is_path t (tree_begin t)"
  using push_left_spec [of t "[]" t] by (cases t; simp add: tree_begin_def)+

lemma iter_next_spec:
  assumes "is_path root (n # st)" "ordered kov root"
  shows "\<exists>st'. iter_next (n # st) = Some st' \<and> upcoming (n # st) = val n # upcoming st' \<and> is_path root st'"
proof (cases "right n = Terminator")
  case True
  then show ?thesis
    using climb_from_right_spec(1) [of n st] climb_from_right_spec(2) [of root st n] path_tail [OF assms(1)] by simp
next
  case False
  have "right n \<noteq> left n"
    using ordered_children(3) [of kov n] path_ordered [OF assms, of n] False by force
  then show ?thesis using push_left_spec [OF False, of "n # st" root] assms(1) False by simp
qed

lemma iter_prev_spec:
  assumes "is_path root st" "ordered kov root" "passed root st \<noteq> []"
  shows "iter_prev root st \<noteq> [] \<and> is_path root (iter_prev root st) \<and>
    passed root st = passed root (iter_prev root st) @ [val (hd (iter_prev root st))]"
proof (cases st)
  case Nil
  then have "root \<noteq> Terminator" using assms(3) by auto
  then show ?thesis using push_right_spec [of root root "[]"] Nil by simp
next
  case (Cons n st')
  show ?thesis
  proof (cases "left n = Terminator")
    case True
    then show ?thesis
      using climb_from_left_spec(1) [of n st' root] climb_from_left_spec(2) [of root st' n]
        path_tail [of root n st'] assms Cons by simp
  next
    case False
    have "left n \<noteq> right n" using ordered_children(3) [of kov n] path_ordered [OF assms(1,2), of n] Cons False by auto
    then show ?thesis using push_right_spec [OF False, of root "n # st'"] False assms(1) Cons by simp
  qed
qed

text \<open>The position reached by the descent of \<open>lower_bound\<close>, with its last step.\<close>

fun settle :: "('v \<Rightarrow> 'k::linorder) \<Rightarrow> 'k \<Rightarrow> bool \<times> 'v node list \<Rightarrow> 'v node list option" where
  "settle kov k (True, st) = Some st"
| "settle kov k (False, []) = Some []"
| "settle kov k (False, n # st) = (if kov (val n) < k then iter_next (n # st) else Some (n # st))"

lemma lower_bound_settle: "lower_bound kov k root = settle kov k (bound_path kov k root [])"
  by (cases "(kov, k, bound_path kov k root [])" rule: settle.cases) (auto simp: lower_bound_def)

lemma bound_path_spec:
  assumes "t \<noteq> Terminator" "is_path root (t # st)" "ordered kov root" "ordered kov t"
  shows "\<exists>st'. settle kov k (bound_path kov k t st) = Some st' \<and> is_path root st' \<and>
    upcoming st' = dropWhile (\<lambda>x. kov x < k) (inorder t) @ above t st"
  using assms
proof (induction t arbitrary: st)
  case (Node l x h r)
  let ?n = "Node l x h r"
  have tail: "is_path root st" using Node.prems(2) by (rule path_tail)
  show ?case
  proof (cases k "kov x" rule: linorder_cases)
    case less
    have drop: "dropWhile (\<lambda>x. kov x < k) (inorder ?n) = dropWhile (\<lambda>x. kov x < k) (inorder l) @ x # inorder r"
      using less_not_sym [OF less] by (auto simp: dropWhile_append)
    show ?thesis
    proof (cases "l = Terminator")
      case True
      then show ?thesis using less Node.prems(2) drop by auto
    next
      case False
      have "is_path root (l # ?n # st)" using Node.prems(2) False by simp
      from Node.IH(1) [OF False this Node.prems(3)] Node.prems(4) show ?thesis using less drop by auto
    qed
  next
    case equal
    have "dropWhile (\<lambda>x. kov x < k) (inorder ?n) = x # inorder r"
      using equal Node.prems(4) by (simp add: dropWhile_append elems_def)
    then show ?thesis using equal Node.prems(2) by auto
  next
    case greater
    have drop: "dropWhile (\<lambda>x. kov x < k) (inorder ?n) = dropWhile (\<lambda>x. kov x < k) (inorder r)"
      using greater Node.prems(4) by (auto simp: dropWhile_append elems_def)
    show ?thesis
    proof (cases "r = Terminator")
      case True
      then show ?thesis using greater drop climb_from_right_spec(1) [of ?n st]
          climb_from_right_spec(2) [of root st ?n] tail by auto
    next
      case False
      have "is_path root (r # ?n # st)" using Node.prems(2) False by simp
      moreover have "r \<noteq> l" using ordered_children(3) [OF Node.prems(4)] False by force
      ultimately show ?thesis using Node.IH(2) [OF False, of "?n # st"] Node.prems greater drop by auto
    qed
  qed
qed simp

lemma lower_bound_spec:
  assumes "ordered kov t"
  shows "\<exists>st. lower_bound kov k t = Some st \<and> is_path t st \<and> upcoming st = dropWhile (\<lambda>x. kov x < k) (inorder t)"
proof (cases "t = Terminator")
  case True
  then show ?thesis by (simp add: lower_bound_settle)
next
  case False
  then show ?thesis using bound_path_spec [of t t "[]" kov k] assms by (simp add: lower_bound_settle)
qed

lemma sorted_dropWhile_eq:
  "sorted_wrt (\<lambda>x y. kov x < kov y) xs \<Longrightarrow>
     dropWhile (\<lambda>x. kov x \<le> (k :: 'k::linorder)) xs =
     (case dropWhile (\<lambda>x. kov x < k) xs of [] \<Rightarrow> [] | x # ys \<Rightarrow> if k < kov x then x # ys else ys)"
proof (induction xs)
  case (Cons x xs)
  show ?case
  proof (cases "kov x" k rule: linorder_cases)
    case equal
    then have "dropWhile (\<lambda>x. kov x \<le> k) xs = xs" using Cons.prems by (cases xs) auto
    then show ?thesis using equal by simp
  qed (use Cons in auto)
qed simp

lemma upper_bound_spec:
  assumes "ordered kov t"
  shows "\<exists>st. upper_bound kov k t = Some st \<and> is_path t st \<and> upcoming st = dropWhile (\<lambda>x. kov x \<le> k) (inorder t)"
proof -
  obtain st where st: "lower_bound kov k t = Some st" "is_path t st" "upcoming st = dropWhile (\<lambda>x. kov x < k) (inorder t)"
    using lower_bound_spec [OF assms] by blast
  note eq = sorted_dropWhile_eq [OF assms [unfolded ordered_def], of k, folded st(3)]
  show ?thesis
  proof (cases st)
    case Nil
    then show ?thesis using st(1,2) by (simp add: upper_bound_def eq)
  next
    case (Cons n st')
    then obtain st'' where n: "iter_next (n # st') = Some st''" "upcoming (n # st') = val n # upcoming st''" "is_path t st''"
      using iter_next_spec [of t n st' kov] st(2) assms by blast
    show ?thesis using st Cons n eq by (simp add: upper_bound_def)
  qed
qed

subsection \<open>The map a tree implements\<close>

text \<open>
  What the users of \<^verbatim>\<open>ImmutableMap\<close> and \<^verbatim>\<open>ImmutableSet\<close> rely on: the values a container holds,
  one per key, and what each operation makes of them.
\<close>

lemma option_eqI: "(\<And>x. a = Some x \<longleftrightarrow> b = Some x) \<Longrightarrow> a = b"
  by (cases a; cases b) auto

locale immutable_map =
  fixes valid :: "'t \<Rightarrow> bool" and kov :: "'v \<Rightarrow> 'k::linorder" and contents :: "'t \<Rightarrow> 'v set"
    and ins :: "'v \<Rightarrow> 't \<Rightarrow> 't" and rep :: "'v \<Rightarrow> 't \<Rightarrow> 't" and rem :: "'k \<Rightarrow> 't \<Rightarrow> 't"
    and find :: "'k \<Rightarrow> 't \<Rightarrow> 'v option" and previous :: "'k \<Rightarrow> 't \<Rightarrow> 'v option"
  assumes one_per_key: "valid t \<Longrightarrow> inj_on kov (contents t)"
    and ins_valid: "valid t \<Longrightarrow> valid (ins v t)"
    and rep_valid: "valid t \<Longrightarrow> valid (rep v t)"
    and rem_valid: "valid t \<Longrightarrow> valid (rem k t)"
    and ins_contents: "valid t \<Longrightarrow>
      contents (ins v t) = (if kov v \<in> kov ` contents t then contents t else insert v (contents t))"
    and rep_contents: "valid t \<Longrightarrow> contents (rep v t) = insert v {x \<in> contents t. kov x \<noteq> kov v}"
    and rem_contents: "valid t \<Longrightarrow> contents (rem k t) = {x \<in> contents t. kov x \<noteq> k}"
    and find_Some: "valid t \<Longrightarrow> find k t = Some x \<longleftrightarrow> x \<in> contents t \<and> kov x = k"
    and previous_Some: "valid t \<Longrightarrow> previous k t = Some x \<longleftrightarrow>
      x \<in> contents t \<and> kov x \<le> k \<and> (\<forall>y \<in> contents t. kov y \<le> k \<longrightarrow> kov y \<le> kov x)"
begin

lemma find_None: "valid t \<Longrightarrow> find k t = None \<longleftrightarrow> k \<notin> kov ` contents t"
  using find_Some [of t k] by (cases "find k t") force+

lemma find_rep: "valid t \<Longrightarrow> find k (rep v t) = (if k = kov v then Some v else find k t)"
  by (rule option_eqI) (auto simp: find_Some rep_valid rep_contents)

lemma find_rem: "valid t \<Longrightarrow> find k (rem k' t) = (if k = k' then None else find k t)"
  by (rule option_eqI) (auto simp: find_Some rem_valid rem_contents)

lemma find_ins:
  assumes "valid t"
  shows "find k (ins v t) = (if k = kov v \<and> find k t = None then Some v else find k t)"
proof (cases "kov v \<in> kov ` contents t")
  case True
  then have "find (kov v) t \<noteq> None" using assms by (simp add: find_None)
  moreover have "find k (ins v t) = find k t"
    by (rule option_eqI) (simp add: find_Some ins_valid ins_contents assms True)
  ultimately show ?thesis by auto
next
  case False
  then have none: "find (kov v) t = None" using assms by (simp add: find_None)
  have mem: "find k (ins v t) = Some x \<longleftrightarrow> (x = v \<or> x \<in> contents t) \<and> kov x = k" for x
    using False by (simp add: find_Some ins_valid ins_contents assms)
  show ?thesis
  proof (cases "k = kov v")
    case True
    then show ?thesis using mem [of v] none by simp
  next
    case False
    then have "find k (ins v t) = find k t"
      by (intro option_eqI) (unfold mem find_Some [OF assms], blast)
    with False show ?thesis by simp
  qed
qed

lemma previous_hit: "valid t \<Longrightarrow> find k t = Some x \<Longrightarrow> previous k t = Some x"
  by (auto simp: find_Some previous_Some)

lemma previous_unique:
  assumes "valid t" "x \<in> contents t" "kov x \<le> k" "\<And>y. y \<in> contents t \<Longrightarrow> kov y \<le> k \<Longrightarrow> kov y \<le> kov x"
  shows "previous k t = Some x"
  using assms by (simp add: previous_Some)

lemma previous_None:
  assumes "valid t" "finite (contents t)"
  shows "previous k t = None \<longleftrightarrow> (\<forall>x \<in> contents t. k < kov x)"
proof
  assume "previous k t = None"
  show "\<forall>x \<in> contents t. k < kov x"
  proof (rule ccontr)
    let ?S = "{x \<in> contents t. kov x \<le> k}"
    assume "\<not> ?thesis"
    then have "finite (kov ` ?S)" "kov ` ?S \<noteq> {}" using assms(2) by (auto simp: not_less)
    then have "Max (kov ` ?S) \<in> kov ` ?S" by (rule Max_in)
    then obtain x where "x \<in> ?S" "kov x = Max (kov ` ?S)" by auto
    moreover have "\<And>y. y \<in> ?S \<Longrightarrow> kov y \<le> Max (kov ` ?S)" using assms(2) by simp
    ultimately have "previous k t = Some x" using assms(1) by (auto simp: previous_Some)
    then show False using \<open>previous k t = None\<close> by simp
  qed
next
  assume "\<forall>x \<in> contents t. k < kov x"
  then show "previous k t = None"
    using assms(1) by (cases "previous k t") (auto simp: previous_Some dest: leD)
qed

end

definition tree_ok :: "('v \<Rightarrow> 'k::linorder) \<Rightarrow> 'v node \<Rightarrow> bool" where
  "tree_ok kov t \<longleftrightarrow> balanced t \<and> ordered kov t"

lemma elems_finite [simp]: "finite (elems t)"
  by (simp add: elems_def)

lemma ordered_inj: "ordered kov t \<Longrightarrow> inj_on kov (elems t)"
proof (rule inj_onI)
  fix x y assume "ordered kov t" "x \<in> elems t" "y \<in> elems t" "kov x = kov y"
  then show "x = y" using lookup_iff [of kov t "kov x" x] lookup_iff [of kov t "kov x" y] by simp
qed

interpretation tm: immutable_map "tree_ok kov" kov elems "insert_node kov" "replace_node kov" "remove_node kov"
    "lookup kov" "lookup_previous kov"
  for kov :: "'v \<Rightarrow> 'k::linorder"
proof unfold_locales
  fix t :: "'v node" and v :: 'v and k :: 'k and x :: 'v
  assume "tree_ok kov t"
  then have b: "balanced t" and o: "ordered kov t" by (simp_all add: tree_ok_def)
  show "inj_on kov (elems t)" using o by (rule ordered_inj)
  show "tree_ok kov (insert_node kov v t)"
    using insert_balanced [OF b, of kov v] insert_elems [OF o, of v] by (simp add: tree_ok_def)
  show "tree_ok kov (replace_node kov v t)"
    using replace_balanced [OF b, of kov v] replace_elems [OF o, of v] by (simp add: tree_ok_def)
  show "tree_ok kov (remove_node kov k t)"
    using remove_balanced [OF b, of kov k] remove_elems [OF o, of k] by (simp add: tree_ok_def)
  show "elems (insert_node kov v t) = (if kov v \<in> kov ` elems t then elems t else insert v (elems t))"
    using insert_elems [OF o, of v] by simp
  show "elems (replace_node kov v t) = insert v {x \<in> elems t. kov x \<noteq> kov v}"
    using replace_elems [OF o, of v] by simp
  show "elems (remove_node kov k t) = {x \<in> elems t. kov x \<noteq> k}"
    using remove_elems [OF o, of k] by simp
  show "lookup kov k t = Some x \<longleftrightarrow> x \<in> elems t \<and> kov x = k" using o by (rule lookup_iff)
  show "lookup_previous kov k t = Some x \<longleftrightarrow>
      x \<in> elems t \<and> kov x \<le> k \<and> (\<forall>y \<in> elems t. kov y \<le> k \<longrightarrow> kov y \<le> kov x)"
    using o by (rule lookup_previous_iff)
qed

subsection \<open>Reachable trees\<close>

inductive tree_reach :: "('v \<Rightarrow> 'k::linorder) \<Rightarrow> 'v node \<Rightarrow> bool" for kov where
  empty: "tree_reach kov Terminator"
| insert: "tree_reach kov t \<Longrightarrow> tree_reach kov (insert_node kov v t)"
| replace: "tree_reach kov t \<Longrightarrow> tree_reach kov (replace_node kov v t)"
| remove: "tree_reach kov t \<Longrightarrow> tree_reach kov (remove_node kov k t)"
| popMin: "tree_reach kov t \<Longrightarrow> popMin t = Some (v, t') \<Longrightarrow> tree_reach kov t'"
| popMax: "tree_reach kov t \<Longrightarrow> popMax t = Some (v, t') \<Longrightarrow> tree_reach kov t'"

lemma popMin_ok:
  assumes "tree_ok kov t" "popMin t = Some (v, t')"
  shows "tree_ok kov t' \<and> inorder t = v # inorder t'"
proof -
  have "t \<noteq> Terminator" using assms(2) by auto
  then show ?thesis by (rule popMin_spec) (use assms in \<open>auto simp: tree_ok_def ordered_def\<close>)
qed

lemma popMax_ok:
  assumes "tree_ok kov t" "popMax t = Some (v, t')"
  shows "tree_ok kov t' \<and> inorder t = inorder t' @ [v]"
proof -
  have "t \<noteq> Terminator" using assms(2) by auto
  then show ?thesis by (rule popMax_spec) (use assms in \<open>auto simp: tree_ok_def ordered_def sorted_wrt_append\<close>)
qed

lemma reach_ok: "tree_reach kov t \<Longrightarrow> tree_ok kov t"
proof (induction rule: tree_reach.induct)
  case empty
  then show ?case by (simp add: tree_ok_def)
qed (auto intro: tm.ins_valid tm.rep_valid tm.rem_valid dest: popMin_ok popMax_ok)

text \<open>A balanced tree is shallow: two subtrees of a node of height \<open>h\<close> have heights \<open>h - 1\<close> and at least \<open>h - 3\<close>.\<close>

lemma square_sum:
  fixes a b n :: nat
  assumes "2 ^ (n + 2) \<le> a ^ 2" "2 ^ n \<le> b ^ 2"
  shows "2 ^ (n + 3) \<le> (a + b) ^ 2"
proof -
  have "(2 ^ (n + 1)) ^ 2 = (2 ^ (n + 2) * 2 ^ n :: nat)" by (simp flip: power_add power_mult add: algebra_simps)
  also have "\<dots> \<le> a ^ 2 * b ^ 2" using assms by (rule mult_le_mono)
  also have "\<dots> = (a * b) ^ 2" by (simp add: power_mult_distrib)
  finally have "2 ^ (n + 1) \<le> a * b" by (rule power2_le_imp_le) simp
  then show ?thesis using assms(1) by (simp add: power2_sum numeral_3_eq_3)
qed

lemma height_bound: "balanced t \<Longrightarrow> 2 ^ ht t \<le> (node_size t + 1) ^ 2"
proof (induction t)
  case (Node l x h r)
  have step: "2 ^ (ht a + 1) \<le> (node_size a + 1 + (node_size b + 1)) ^ 2"
    if "2 ^ ht a \<le> (node_size a + 1) ^ 2" "2 ^ ht b \<le> (node_size b + 1) ^ 2" "ht a \<le> ht b + 2" for a b :: "'a node"
  proof (cases "ht a \<le> 1")
    case True
    have "(2::nat) ^ (ht a + 1) \<le> 2 ^ 2" using True by (intro power_increasing) auto
    also have "\<dots> \<le> (node_size a + 1 + (node_size b + 1)) ^ 2" by (intro power_mono) auto
    finally show ?thesis .
  next
    case False
    then obtain n where n: "ht a = n + 2" by (metis add.commute le_Suc_ex not_less_eq_eq numeral_2_eq_2 One_nat_def)
    have "(2::nat) ^ n \<le> 2 ^ ht b" using that(3) n by (intro power_increasing) auto
    then have "2 ^ n \<le> (node_size b + 1) ^ 2" using that(2) by linarith
    from square_sum [OF that(1) [unfolded n] this] show ?thesis by (simp add: n numeral_3_eq_3)
  qed
  show ?case
  proof (cases "ht r \<le> ht l")
    case True
    then show ?thesis using step [of l r] Node by (simp add: max_def)
  next
    case False
    then show ?thesis using step [of r l] Node by (simp add: max_def add_ac)
  qed
qed simp

lemma reach_path:
  assumes "tree_reach kov t" "is_path t st"
  shows "length st \<le> ht t"
proof (cases st)
  case (Cons n st')
  then have "n \<noteq> Terminator" using assms(2) by (cases st') auto
  moreover have "balanced t" using reach_ok [OF assms(1)] by (simp add: tree_ok_def)
  ultimately show ?thesis using path_height [OF assms(2) _ Cons] balanced_ht_0 [of n] by fastforce
qed simp

text \<open>
  The loop \<open>for (; it != end; ++it)\<close> over an iterator, with the values it sees. It is given as many
  steps as it may take; without enough of them there is no result.
\<close>

fun iterate :: "nat \<Rightarrow> 'v node list \<Rightarrow> 'v list option" where
  "iterate n [] = Some []"
| "iterate 0 (t # st) = None"
| "iterate (Suc n) (t # st) = Option.bind (iter_next (t # st)) (\<lambda>st'. map_option (Cons (val t)) (iterate n st'))"

lemma iterate_upcoming:
  assumes "ordered kov root" "is_path root st" "length (upcoming st) \<le> n"
  shows "iterate n st = Some (upcoming st)"
  using assms(2,3)
proof (induction n arbitrary: st)
  case 0
  then show ?case by (cases st) auto
next
  case (Suc n)
  show ?case
  proof (cases st)
    case (Cons t st')
    from iter_next_spec [of root t st'] Suc.prems(1) assms(1) Cons
    obtain s where s: "iter_next st = Some s" "upcoming st = val t # upcoming s" "is_path root s" by blast
    moreover have "iterate n s = Some (upcoming s)" using Suc.IH [OF s(3)] Suc.prems(2) s(2) by simp
    ultimately show ?thesis using Cons by simp
  qed simp
qed

lemma size_inorder: "node_size t = length (inorder t)"
  by (induction t) auto

lemma sorted_dropWhile_filter:
  "sorted_wrt (\<lambda>x y. kov x < (kov y :: 'k::linorder)) xs \<Longrightarrow>
     dropWhile (\<lambda>x. kov x < k) xs = filter (\<lambda>x. k \<le> kov x) xs \<and>
     dropWhile (\<lambda>x. kov x \<le> k) xs = filter (\<lambda>x. k < kov x) xs"
proof (induction xs)
  case (Cons x xs)
  have "filter (\<lambda>y. k \<le> kov y) xs = xs" if "k \<le> kov x"
    using Cons.prems that by (intro filter_True) (auto intro: order.trans less_imp_le)
  moreover have "filter (\<lambda>y. k < kov y) xs = xs" if "k \<le> kov x"
    using Cons.prems that by (intro filter_True) (auto intro: le_less_trans)
  ultimately show ?case using Cons by (auto simp: not_less not_le)
qed simp

lemma no_key_upto: "(\<forall>x \<in> S. k < f x) \<longleftrightarrow> (\<forall>j \<le> k. j \<notin> f ` S)" for f :: "'v \<Rightarrow> 'k::linorder"
  by (metis (no_types) image_iff leD leI)

lemma no_key_between:
  "(\<forall>y \<in> S. f y \<le> k \<longrightarrow> f y \<le> b) \<longleftrightarrow> (\<forall>j. b < j \<and> j \<le> k \<longrightarrow> j \<notin> f ` S)" for f :: "'v \<Rightarrow> 'k::linorder"
  by (metis (no_types) image_iff leD leI)

text \<open>A tree for the witnesses.\<close>

definition sample_tree :: "nat node" where
  "sample_tree = remove_node id 4 (insert_node id 2 (insert_node id 4 (insert_node id 1 (insert_node id 3 Terminator))))"

lemma sample_tree_reach: "tree_reach id sample_tree"
  unfolding sample_tree_def by (intro tree_reach.intros)

lemma sample_tree_eq: "sample_tree = Node (Node Terminator 1 2 (Node Terminator 2 1 Terminator)) 3 3 Terminator"
  by code_simp

section \<open>Properties\<close>

text \<open>
  C6. Every tree built by the public operations is sorted by key, stores the true heights, and its
  height is at most twice the binary logarithm of its size plus one; an iterator's fixed stack,
  which holds a node per level, is never exceeded.
\<close>

theorem reachable_tree_invariant:
  assumes "tree_reach kov t"
  shows "ordered kov t \<and> balanced t \<and> 2 ^ ht t \<le> (node_size t + 1) ^ 2 \<and>
    (\<forall>st. is_path t st \<longrightarrow> length st \<le> ht t)"
  using reach_ok [OF assms] reach_path [OF assms] height_bound [of t] by (simp add: tree_ok_def)

theorem reachable_tree_invariant_witness:
  "ordered id sample_tree \<and> balanced sample_tree \<and> ht sample_tree = 3 \<and> node_size sample_tree = 3 \<and>
   length (tree_begin sample_tree) \<le> 3"
  using reachable_tree_invariant [OF sample_tree_reach] begin_spec(2) [of sample_tree] by (simp add: sample_tree_eq)

text \<open>
  C7. A reachable tree implements a finite map from keys to values: \<open>insert\<close> keeps a value already
  there, \<open>replace\<close> overwrites it, \<open>remove\<close> deletes it, each changes no other key, and
  \<open>lookup_previous\<close> finds the value with the greatest key that is not above the one asked for.
\<close>

theorem tree_implements_map:
  assumes "tree_reach kov t"
  shows "lookup kov k (insert_node kov v t) = (if k = kov v \<and> lookup kov k t = None then Some v else lookup kov k t) \<and>
    lookup kov k (replace_node kov v t) = (if k = kov v then Some v else lookup kov k t) \<and>
    lookup kov k (remove_node kov k' t) = (if k = k' then None else lookup kov k t) \<and>
    (lookup_previous kov k t = None \<longleftrightarrow> (\<forall>j \<le> k. lookup kov j t = None)) \<and>
    (lookup_previous kov k t = Some x \<longleftrightarrow> kov x \<le> k \<and> lookup kov (kov x) t = Some x \<and>
      (\<forall>j. kov x < j \<and> j \<le> k \<longrightarrow> lookup kov j t = None))"
proof (intro conjI)
  note ok = reach_ok [OF assms]
  show "lookup kov k (insert_node kov v t) = (if k = kov v \<and> lookup kov k t = None then Some v else lookup kov k t)"
    using ok by (rule tm.find_ins)
  show "lookup kov k (replace_node kov v t) = (if k = kov v then Some v else lookup kov k t)"
    using ok by (rule tm.find_rep)
  show "lookup kov k (remove_node kov k' t) = (if k = k' then None else lookup kov k t)"
    using ok by (rule tm.find_rem)
  show "lookup_previous kov k t = None \<longleftrightarrow> (\<forall>j \<le> k. lookup kov j t = None)"
    unfolding tm.previous_None [OF ok elems_finite] tm.find_None [OF ok] by (rule no_key_upto)
  show "lookup_previous kov k t = Some x \<longleftrightarrow> kov x \<le> k \<and> lookup kov (kov x) t = Some x \<and>
      (\<forall>j. kov x < j \<and> j \<le> k \<longrightarrow> lookup kov j t = None)"
    unfolding tm.previous_Some [OF ok] tm.find_None [OF ok] tm.find_Some [OF ok] no_key_between by blast
qed

theorem tree_implements_map_witness:
  "lookup id 4 sample_tree = None \<and> lookup id 4 (insert_node id 4 sample_tree) = Some 4 \<and>
   lookup_previous id 5 sample_tree = Some 3"
proof -
  have "lookup id 4 sample_tree = None" "lookup_previous id 5 sample_tree = Some 3"
    by (simp_all add: sample_tree_eq lookup_previous_def)
  then show ?thesis
    using tree_implements_map [OF sample_tree_reach, of 4 4 0 0] by simp
qed

text \<open>
  C8. Running an iterator to the end gives the values in ascending order: all of them from
  \<open>begin\<close>, those with a key not below \<open>k\<close> from \<open>lower_bound(k)\<close>, and those with a key above \<open>k\<close>
  from \<open>upper_bound(k)\<close>.
\<close>

theorem iteration_complete:
  assumes "tree_reach kov t"
  shows "iterate (node_size t) (tree_begin t) = Some (inorder t) \<and>
    Option.bind (lower_bound kov k t) (iterate (node_size t)) = Some (filter (\<lambda>x. k \<le> kov x) (inorder t)) \<and>
    Option.bind (upper_bound kov k t) (iterate (node_size t)) = Some (filter (\<lambda>x. k < kov x) (inorder t))"
proof -
  have o: "ordered kov t" using reach_ok [OF assms] by (simp add: tree_ok_def)
  note run = iterate_upcoming [OF o]
  obtain l where l: "lower_bound kov k t = Some l" "is_path t l" "upcoming l = filter (\<lambda>x. k \<le> kov x) (inorder t)"
    using lower_bound_spec [OF o, of k] unfolding sorted_dropWhile_filter [OF o [unfolded ordered_def], THEN conjunct1] by blast
  obtain u where u: "upper_bound kov k t = Some u" "is_path t u" "upcoming u = filter (\<lambda>x. k < kov x) (inorder t)"
    using upper_bound_spec [OF o, of k] unfolding sorted_dropWhile_filter [OF o [unfolded ordered_def], THEN conjunct2] by blast
  show ?thesis
    using run [OF begin_spec(2), of "node_size t"] run [OF l(2), of "node_size t"] run [OF u(2), of "node_size t"]
    by (simp add: begin_spec(1) size_inorder l(1,3) u(1,3))
qed

theorem iteration_complete_witness:
  "iterate 3 (tree_begin sample_tree) = Some [1, 2, 3] \<and>
   Option.bind (upper_bound id 1 sample_tree) (iterate 3) = Some [2, 3]"
  using iteration_complete [OF sample_tree_reach, of 1] by (simp add: sample_tree_eq numeral_3_eq_3)

end
