(* ===== verification/Bit_Array.thy ===== *)
theory Bit_Array
  imports Klee_Prelude
begin

text \<open>
  The bit vectors of an object's masks (\<^verbatim>\<open>klee/include/klee/util/BitArray.h\<close>): one bit per byte of
  the object in an array of 32-bit words. The number of words is computed in 32-bit arithmetic.
  The locale \<open>bit_masks\<close> is what the object states rely on.
\<close>

text \<open>A value of type \<open>unsigned\<close>: 32-bit arithmetic wraps.\<close>

definition u32 :: "nat \<Rightarrow> nat" where
  "u32 n = n mod 2 ^ 32"

lemma u32_code [code]: "u32 n = nat (int n mod 2 ^ 32)"
  by (simp add: u32_def nat_mod_distrib)

lemma u32_small [simp]: "n < 2 ^ 32 \<Longrightarrow> u32 n = n"
  by (simp add: u32_def)

type_synonym bit_array = "32 word list"

definition BitArray_length :: "nat \<Rightarrow> nat" where
  "BitArray_length sz = u32 (sz + 31) div 32"

definition BitArray_new :: "nat \<Rightarrow> bool \<Rightarrow> bit_array" where
  "BitArray_new sz v = replicate (BitArray_length sz) (if v then 0xFFFFFFFF else 0)"

definition BitArray_get :: "bit_array \<Rightarrow> nat \<Rightarrow> bool" where
  "BitArray_get b idx = (drop_bit (idx mod 32) (b ! (idx div 32)) AND 1 \<noteq> 0)"

definition BitArray_set :: "bit_array \<Rightarrow> nat \<Rightarrow> bit_array" where
  "BitArray_set b idx = b[idx div 32 := b ! (idx div 32) OR push_bit (idx mod 32) 1]"

definition BitArray_unset :: "bit_array \<Rightarrow> nat \<Rightarrow> bit_array" where
  "BitArray_unset b idx = b[idx div 32 := b ! (idx div 32) AND NOT (push_bit (idx mod 32) 1)]"

subsection \<open>What the masks of an object promise\<close>

locale bit_masks =
  fixes valid :: "nat \<Rightarrow> 'b \<Rightarrow> bool" and fresh :: "nat \<Rightarrow> bool \<Rightarrow> 'b" and get :: "'b \<Rightarrow> nat \<Rightarrow> bool"
    and set :: "'b \<Rightarrow> nat \<Rightarrow> 'b" and unset :: "'b \<Rightarrow> nat \<Rightarrow> 'b" and fits :: "nat \<Rightarrow> bool"
  assumes fresh_valid: "fits n \<Longrightarrow> valid n (fresh n v)"
    and set_valid: "valid n b \<Longrightarrow> valid n (set b i)"
    and unset_valid: "valid n b \<Longrightarrow> valid n (unset b i)"
    and get_fresh: "fits n \<Longrightarrow> i < n \<Longrightarrow> get (fresh n v) i = v"
    and get_set: "valid n b \<Longrightarrow> i < n \<Longrightarrow> j < n \<Longrightarrow> get (set b i) j = (j = i \<or> get b j)"
    and get_unset: "valid n b \<Longrightarrow> i < n \<Longrightarrow> j < n \<Longrightarrow> get (unset b i) j = (j \<noteq> i \<and> get b j)"
begin

lemma set_unset_other: "valid n b \<Longrightarrow> i < n \<Longrightarrow> j < n \<Longrightarrow> i \<noteq> j \<Longrightarrow> get (set b i) j = get b j \<and> get (unset b i) j = get b j"
  by (simp add: get_set get_unset)

lemma unset_all:
  assumes "valid n b" "m \<le> n"
  shows "valid n (fold (\<lambda>i b. unset b i) [0..<m] b) \<and>
    (\<forall>j < n. get (fold (\<lambda>i b. unset b i) [0..<m] b) j = (m \<le> j \<and> get b j))"
  using assms(2)
proof (induction m)
  case (Suc m)
  then have "valid n (fold (\<lambda>i b. unset b i) [0..<m] b)" "\<forall>j < n. get (fold (\<lambda>i b. unset b i) [0..<m] b) j = (m \<le> j \<and> get b j)"
    by auto
  then show ?case using Suc.prems by (auto simp: get_unset unset_valid)
qed (use assms in simp)

end

definition bits_fit :: "nat \<Rightarrow> bool" where
  "bits_fit n \<longleftrightarrow> n + 31 < 2 ^ 32"

definition bits_valid :: "nat \<Rightarrow> bit_array \<Rightarrow> bool" where
  "bits_valid n b \<longleftrightarrow> bits_fit n \<and> length b = (n + 31) div 32"

lemma get_bit: "BitArray_get b i = bit (b ! (i div 32)) (i mod 32)"
proof -
  have "(drop_bit k w AND 1 \<noteq> 0) = bit w k" for w :: "32 word" and k
    by (simp add: bit_iff_odd_drop_bit and_one_eq mod_2_eq_odd)
  then show ?thesis by (simp add: BitArray_get_def)
qed

lemma word_index: "bits_valid n b \<Longrightarrow> i < n \<Longrightarrow> i div 32 < length b"
  by (auto simp: bits_valid_def)

lemma same_bit: "(i :: nat) mod 32 = j mod 32 \<Longrightarrow> i div 32 = j div 32 \<Longrightarrow> i = j"
  by (metis div_mult_mod_eq)

interpretation ba: bit_masks bits_valid BitArray_new BitArray_get BitArray_set BitArray_unset bits_fit
proof unfold_locales
  fix n i j :: nat and b :: bit_array and v :: bool
  show "bits_valid n (BitArray_new n v)" if "bits_fit n"
    using that by (simp add: bits_valid_def BitArray_new_def BitArray_length_def bits_fit_def)
  show "bits_valid n (BitArray_set b i)" if "bits_valid n b"
    using that by (simp add: bits_valid_def BitArray_set_def)
  show "bits_valid n (BitArray_unset b i)" if "bits_valid n b"
    using that by (simp add: bits_valid_def BitArray_unset_def)
  show "BitArray_get (BitArray_new n v) i = v" if "bits_fit n" "i < n"
  proof -
    have "i div 32 < (n + 31) div 32" using that(2) by linarith
    moreover have "bit (0xFFFFFFFF :: 32 word) (i mod 32)"
    proof -
      have m: "(0xFFFFFFFF :: 32 word) = mask 32" by (simp add: mask_eq_exp_minus_1)
      have "i mod 32 < 32" by simp
      then show ?thesis unfolding m bit_mask_iff by (simp del: One_nat_def)
    qed
    ultimately show ?thesis
      using that(1) by (simp add: get_bit BitArray_new_def BitArray_length_def bits_fit_def)
  qed
  have one: "bit (push_bit (i mod 32) (1 :: 32 word)) (j mod 32) = (j mod 32 = i mod 32)"
    unfolding bit_push_bit_iff bit_1_iff by (auto simp: not_le)
  show "BitArray_get (BitArray_set b i) j = (j = i \<or> BitArray_get b j)" if "bits_valid n b" "i < n" "j < n"
  proof (cases "i div 32 = j div 32")
    case True
    have "j mod 32 = i mod 32 \<longleftrightarrow> j = i" using same_bit [of j i] True by auto
    with True show ?thesis using word_index [OF that(1,2)] unfolding get_bit BitArray_set_def
      by (simp only: nth_list_update_eq bit_or_iff one) blast
  next
    case False
    then show ?thesis by (auto simp: get_bit BitArray_set_def)
  qed
  show "BitArray_get (BitArray_unset b i) j = (j \<noteq> i \<and> BitArray_get b j)" if "bits_valid n b" "i < n" "j < n"
  proof (cases "i div 32 = j div 32")
    case True
    have "j mod 32 = i mod 32 \<longleftrightarrow> j = i" using same_bit [of j i] True by auto
    with True show ?thesis using word_index [OF that(1,2)] unfolding get_bit BitArray_unset_def
      by (simp only: nth_list_update_eq bit_and_iff bit_not_iff one) (auto dest: bit_imp_le_length)
  next
    case False
    then show ?thesis by (auto simp: get_bit BitArray_unset_def)
  qed
qed

end
