(* ===== verification/Array_Cache.thy ===== *)
theory Array_Cache
  imports Union_Find Bit_Array
begin

text \<open>
  Creation of arrays: the constructor and destructor of \<open>Array\<close> (\<^verbatim>\<open>klee/lib/Expr/Expr.cpp\<close>), which
  register an array with the two union-find managers, and \<open>ArrayCache::CreateArray\<close>
  (\<^verbatim>\<open>klee/lib/Expr/ArrayCache.cpp\<close>), which keeps one object per symbolic array. The state they
  share is a record: the managers, the cache, the identity the next object gets, and the static
  counters that number the arrays of object states.
\<close>

record array_world =
  nextObject :: nat
  ufm :: ufmanager
  ufm_cheat :: ufmanager
  cachedSymbolicArrays :: "array list"
  concreteArrays :: "array list"
  tmp_arr_id :: nat
  const_arr_id :: nat

text \<open>
  The constructor with its assertions. The size is cut to 32 bits. Without cheat constraints the
  index in their manager is never set; it is zero here.
\<close>

definition Array_new :: "bool \<Rightarrow> string \<Rightarrow> nat \<Rightarrow> apint list \<Rightarrow> nat \<Rightarrow> nat \<Rightarrow> array_world \<Rightarrow> (array \<times> array_world) option" where
  "Array_new useCheatCons nm sz vals dm rng W =
     (let a = \<lparr>arrId = nextObject W, arrName = nm, UFE = length (ufm W),
               UFE_Cheat = (if useCheatCons then length (ufm_cheat W) else 0),
               arrSize = u32 sz, arrDomain = dm, arrRange = rng, constantValues = vals\<rparr>
      in if (isSymbolicArray a \<or> length vals = arrSize a) \<and> list_all (\<lambda>c. bitWidth c = rng) vals
         then Some (a, W\<lparr>nextObject := nextObject W + 1,
                         ufm := snd (UFManager_create (ufm W) a),
                         ufm_cheat := (if useCheatCons then snd (UFManager_create (ufm_cheat W) a) else ufm_cheat W)\<rparr>)
         else None)"

definition Array_delete :: "array \<Rightarrow> array_world \<Rightarrow> array_world option" where
  "Array_delete a W =
     do { u \<leftarrow> UFManager_destroy (ufm W) a;
          c \<leftarrow> UFManager_destroy (ufm_cheat W) a;
          Some (W\<lparr>ufm := u, ufm_cheat := c\<rparr>) }"

definition EquivArrayCmpFn :: "array \<Rightarrow> array \<Rightarrow> bool" where
  "EquivArrayCmpFn a b \<longleftrightarrow> arrSize a = arrSize b \<and> arrName a = arrName b"

definition CreateArray :: "bool \<Rightarrow> string \<Rightarrow> nat \<Rightarrow> apint list \<Rightarrow> nat \<Rightarrow> nat \<Rightarrow> array_world \<Rightarrow> (array \<times> array_world) option" where
  "CreateArray useCheatCons nm sz vals dm rng W =
     do { (a, W') \<leftarrow> Array_new useCheatCons nm sz vals dm rng W;
          (if isSymbolicArray a then
             (case find (EquivArrayCmpFn a) (cachedSymbolicArrays W') of
                None \<Rightarrow> Some (a, W'\<lparr>cachedSymbolicArrays := a # cachedSymbolicArrays W'\<rparr>)
              | Some b \<Rightarrow>
                  do { W'' \<leftarrow> Array_delete a W';
                       (if isSymbolicArray b then Some (b, W'') else None) })
           else Some (a, W'\<lparr>concreteArrays := concreteArrays W' @ [a]\<rparr>)) }"

subsection \<open>What creation returns\<close>

lemma create_constant:
  assumes "vals \<noteq> []" "length vals = u32 sz" "list_all (\<lambda>c. bitWidth c = rng) vals"
  obtains a W' where "CreateArray ch nm sz vals dm rng W = Some (a, W')" "constantValues a = vals"
    "arrSize a = u32 sz" "arrDomain a = dm" "arrRange a = rng" "arrName a = nm" "arrId a = nextObject W"
  using assms by (auto simp: CreateArray_def Array_new_def isSymbolicArray_def Let_def)

lemma create_symbolic_new:
  assumes "find (\<lambda>b. u32 sz = arrSize b \<and> nm = arrName b) (cachedSymbolicArrays W) = None"
  obtains a W' where "CreateArray ch nm sz [] dm rng W = Some (a, W')" "isSymbolicArray a"
    "arrSize a = u32 sz" "arrDomain a = dm" "arrRange a = rng" "arrName a = nm"
    "cachedSymbolicArrays W' = a # cachedSymbolicArrays W"
  using assms by (auto simp: CreateArray_def Array_new_def isSymbolicArray_def EquivArrayCmpFn_def [abs_def] Let_def)

text \<open>
  The states the program reaches: cached arrays are symbolic, and the elements of the managers
  are those of existing objects.
\<close>

definition world_ok :: "array_world \<Rightarrow> bool" where
  "world_ok W \<longleftrightarrow> (\<forall>a \<in> set (cachedSymbolicArrays W). isSymbolicArray a) \<and>
     (\<forall>x \<in> set (ufm W) \<union> set (ufm_cheat W). arrId (uf_arr x) < nextObject W)"

lemma destroy_last:
  assumes "\<forall>x \<in> set es. uf_arr x \<noteq> a"
  shows "UFManager_destroy (snd (UFManager_create es a)) a = Some es"
proof -
  have "filter (\<lambda>z. uf_arr z \<noteq> a) es = es" using assms by (intro filter_True) auto
  then show ?thesis by (simp add: UFManager_destroy_def UFManager_create_def UFElement_new_def Let_def)
qed

lemma destroy_absent: "\<forall>x \<in> set es. uf_arr x \<noteq> a \<Longrightarrow> UFManager_destroy es a = None"
proof -
  assume "\<forall>x \<in> set es. uf_arr x \<noteq> a"
  then have "filter (\<lambda>z. uf_arr z \<noteq> a) es = es" by (intro filter_True) auto
  then show ?thesis by (simp add: UFManager_destroy_def Let_def)
qed

lemma create_symbolic_hit:
  assumes ok: "world_ok W"
    and hit: "find (\<lambda>b. u32 sz = arrSize b \<and> nm = arrName b) (cachedSymbolicArrays W) = Some b"
  shows "CreateArray True nm sz [] dm rng W = Some (b, W\<lparr>nextObject := nextObject W + 1\<rparr>)"
    and "CreateArray False nm sz [] dm rng W = None"
proof -
  have b: "isSymbolicArray b" using ok hit by (auto simp: world_ok_def find_Some_iff)
  have fresh: "\<forall>x \<in> set (ufm W) \<union> set (ufm_cheat W). uf_arr x \<noteq> a" if "arrId a = nextObject W" for a
  proof
    fix x assume "x \<in> set (ufm W) \<union> set (ufm_cheat W)"
    then have "arrId (uf_arr x) < nextObject W" using ok by (simp add: world_ok_def)
    then show "uf_arr x \<noteq> a" using that by auto
  qed
  let ?a = "\<lambda>c. \<lparr>arrId = nextObject W, arrName = nm, UFE = length (ufm W),
      UFE_Cheat = c, arrSize = u32 sz, arrDomain = dm, arrRange = rng, constantValues = []\<rparr>"
  have "\<forall>x \<in> set (ufm W). uf_arr x \<noteq> ?a c" "\<forall>x \<in> set (ufm_cheat W). uf_arr x \<noteq> ?a c" for c
    using fresh [of "?a c"] by auto
  then have d: "UFManager_destroy (snd (UFManager_create (ufm W) (?a c))) (?a c) = Some (ufm W)"
    "UFManager_destroy (snd (UFManager_create (ufm_cheat W) (?a c))) (?a c) = Some (ufm_cheat W)"
    "UFManager_destroy (ufm_cheat W) (?a c) = None" for c
    by (auto intro: destroy_last destroy_absent)
  show "CreateArray True nm sz [] dm rng W = Some (b, W\<lparr>nextObject := nextObject W + 1\<rparr>)"
    using hit b d by (simp add: CreateArray_def Array_new_def isSymbolicArray_def EquivArrayCmpFn_def [abs_def] Array_delete_def Let_def)
  show "CreateArray False nm sz [] dm rng W = None"
    using hit d by (simp add: CreateArray_def Array_new_def isSymbolicArray_def EquivArrayCmpFn_def [abs_def] Array_delete_def Let_def)
qed

lemma world_ok_create:
  assumes "world_ok W" "CreateArray ch nm sz vals dm rng W = Some (a, W')"
  shows "world_ok W'"
proof (cases "vals = [] \<and> find (\<lambda>b. u32 sz = arrSize b \<and> nm = arrName b) (cachedSymbolicArrays W) \<noteq> None")
  case True
  then have "CreateArray True nm sz vals dm rng W = Some (the (find (\<lambda>b. u32 sz = arrSize b \<and> nm = arrName b) (cachedSymbolicArrays W)), W\<lparr>nextObject := nextObject W + 1\<rparr>)"
    "CreateArray False nm sz vals dm rng W = None"
    using create_symbolic_hit [OF assms(1), of sz nm] by auto
  then have "W' = W\<lparr>nextObject := nextObject W + 1\<rparr>" using assms(2) by (cases ch) auto
  then show ?thesis using assms(1) by (auto simp: world_ok_def less_Suc_eq)
next
  case False
  then show ?thesis
    using assms by (auto simp: CreateArray_def Array_new_def world_ok_def UFManager_create_def UFElement_new_def
        isSymbolicArray_def EquivArrayCmpFn_def [abs_def] Let_def less_Suc_eq split: if_splits option.splits)
qed

end
