(* ===== verification/Object_State.thy ===== *)
theory Object_State
  imports Array_Cache Bit_Array
begin

text \<open>
  Memory objects and their contents (\<^verbatim>\<open>klee/lib/Core/Memory.h\<close>, \<^verbatim>\<open>klee/lib/Core/Memory.cpp\<close>). An
  object state keeps each byte in up to three places: a concrete store, a cache of symbolic bytes
  and a list of updates to an array that reads at symbolic offsets use; two masks say which are
  current. This theory has the data and the operations; an access outside the object, a failed
  assertion and an exit are \<open>None\<close>. Reads may create a constant array, so they pass the state of
  the array cache on. The store of an object created for TASE is the program's own memory at the
  object's address, which the poison operations write through.
\<close>

subsection \<open>Data\<close>

record mem_config =
  useCheatCons :: bool
  isLittleEndian :: bool
  UseConstantArrays :: bool
  poisonSize :: nat

record memory_object =
  moId :: nat
  moAddress :: "64 word"
  moSize :: nat
  moName :: string
  isLocal :: bool
  isGlobal :: bool
  isFixed :: bool
  isUserSpecified :: bool

record object_state =
  os_object :: memory_object
  concreteMask :: "bit_array option"
  flushMask :: "bit_array option"
  knownSymbolics :: "expr option list option"
  updRoot :: "array option"
  updHead :: ulist
  os_size :: nat
  concreteStore :: "8 word list"
  readOnly :: bool

type_synonym mstate = "array_world \<times> object_state"

fun utostr :: "nat \<Rightarrow> string" where
  "utostr n = (if n < 10 then [] else utostr (n div 10)) @ [char_of (48 + n mod 10)]"

declare utostr.simps [simp del]

subsection \<open>Memory objects\<close>

definition getBaseExpr :: "nat \<Rightarrow> memory_object \<Rightarrow> apint option" where
  "getBaseExpr pw mo = ConstantExpr_create (uint (moAddress mo)) pw"

definition getSizeExpr :: "nat \<Rightarrow> memory_object \<Rightarrow> apint option" where
  "getSizeExpr pw mo = ConstantExpr_create (int (moSize mo)) pw"

definition getOffsetExpr :: "nat \<Rightarrow> memory_object \<Rightarrow> expr \<Rightarrow> expr option" where
  "getOffsetExpr pw mo pointer = do { b \<leftarrow> getBaseExpr pw mo; Sub_create pointer (ConstantExpr b) }"

definition getBoundsCheckOffset :: "nat \<Rightarrow> memory_object \<Rightarrow> expr \<Rightarrow> expr option" where
  "getBoundsCheckOffset pw mo off =
     (if moSize mo = 0 then Eq_create off (ConstantExpr (ConstantExpr_alloc 0 pw))
      else do { s \<leftarrow> getSizeExpr pw mo; Ult_create off (ConstantExpr s) })"

definition getBoundsCheckOffsetBytes :: "nat \<Rightarrow> memory_object \<Rightarrow> expr \<Rightarrow> nat \<Rightarrow> expr option" where
  "getBoundsCheckOffsetBytes pw mo off bytes =
     (if bytes \<le> moSize mo
      then Ult_create off (ConstantExpr (ConstantExpr_alloc (int (u32 (moSize mo - bytes + 1))) pw))
      else Some (ConstantExpr (ConstantExpr_alloc 0 1)))"

definition getBoundsCheckPointer :: "nat \<Rightarrow> memory_object \<Rightarrow> expr \<Rightarrow> expr option" where
  "getBoundsCheckPointer pw mo pointer = Option.bind (getOffsetExpr pw mo pointer) (getBoundsCheckOffset pw mo)"

definition getBoundsCheckPointerBytes :: "nat \<Rightarrow> memory_object \<Rightarrow> expr \<Rightarrow> nat \<Rightarrow> expr option" where
  "getBoundsCheckPointerBytes pw mo pointer bytes =
     Option.bind (getOffsetExpr pw mo pointer) (\<lambda>off. getBoundsCheckOffsetBytes pw mo off bytes)"

subsection \<open>Masks and the cache\<close>

definition isByteConcrete :: "object_state \<Rightarrow> nat \<Rightarrow> bool" where
  "isByteConcrete os off = (case concreteMask os of None \<Rightarrow> True | Some m \<Rightarrow> BitArray_get m off)"

definition isByteFlushed :: "object_state \<Rightarrow> nat \<Rightarrow> bool" where
  "isByteFlushed os off = (case flushMask os of None \<Rightarrow> False | Some m \<Rightarrow> \<not> BitArray_get m off)"

definition knownSymbolic :: "object_state \<Rightarrow> nat \<Rightarrow> expr option" where
  "knownSymbolic os off = (case knownSymbolics os of None \<Rightarrow> None | Some ks \<Rightarrow> ks ! off)"

definition isByteKnownSymbolic :: "object_state \<Rightarrow> nat \<Rightarrow> bool" where
  "isByteKnownSymbolic os off \<longleftrightarrow> knownSymbolic os off \<noteq> None"

definition markByteConcrete :: "nat \<Rightarrow> object_state \<Rightarrow> object_state" where
  "markByteConcrete off os = os\<lparr>concreteMask := map_option (\<lambda>m. BitArray_set m off) (concreteMask os)\<rparr>"

definition markByteSymbolic :: "nat \<Rightarrow> object_state \<Rightarrow> object_state" where
  "markByteSymbolic off os =
     (let m = (case concreteMask os of None \<Rightarrow> BitArray_new (os_size os) True | Some m \<Rightarrow> m)
      in os\<lparr>concreteMask := Some (BitArray_unset m off)\<rparr>)"

definition markByteUnflushed :: "nat \<Rightarrow> object_state \<Rightarrow> object_state" where
  "markByteUnflushed off os = os\<lparr>flushMask := map_option (\<lambda>m. BitArray_set m off) (flushMask os)\<rparr>"

definition markByteFlushed :: "nat \<Rightarrow> object_state \<Rightarrow> object_state" where
  "markByteFlushed off os =
     os\<lparr>flushMask := Some (case flushMask os of None \<Rightarrow> BitArray_new (os_size os) False | Some m \<Rightarrow> BitArray_unset m off)\<rparr>"

definition setKnownSymbolic :: "nat \<Rightarrow> expr option \<Rightarrow> object_state \<Rightarrow> object_state" where
  "setKnownSymbolic off v os =
     (case knownSymbolics os of
        Some ks \<Rightarrow> os\<lparr>knownSymbolics := Some (ks[off := v])\<rparr>
      | None \<Rightarrow> (if v = None then os else os\<lparr>knownSymbolics := Some ((replicate (os_size os) None)[off := v])\<rparr>))"

subsection \<open>Construction\<close>

definition makeConcrete :: "object_state \<Rightarrow> object_state" where
  "makeConcrete os = os\<lparr>concreteMask := None, flushMask := None, knownSymbolics := None\<rparr>"

definition makeSymbolic :: "object_state \<Rightarrow> object_state option" where
  "makeSymbolic os =
     (if updHead os \<noteq> NoUpdates then None
      else Some (fold (\<lambda>i os. markByteFlushed i (setKnownSymbolic i None (markByteSymbolic i os))) [0..<os_size os] os))"

definition initializeToZero :: "object_state \<Rightarrow> object_state" where
  "initializeToZero os = (makeConcrete os)\<lparr>concreteStore := replicate (os_size os) 0\<rparr>"

definition initializeToRandom :: "object_state \<Rightarrow> object_state" where
  "initializeToRandom os = (makeConcrete os)\<lparr>concreteStore := replicate (os_size os) 0xAB\<rparr>"

text \<open>
  The constructors. \<open>native\<close> is the memory at the object's address: the caller of the first makes
  it the store of an object created for TASE. The second has no argument \<open>forTASE\<close> in the model: with
  the flag the store is the memory at \<open>mo->address\<close> and without it a new array, and in both cases it
  is set to zero before \<open>makeSymbolic\<close>, so the object's state is the same.
\<close>

definition ObjectState_concrete :: "mem_config \<Rightarrow> memory_object \<Rightarrow> bool \<Rightarrow> 8 word list \<Rightarrow> array_world \<Rightarrow> (mstate) option" where
  "ObjectState_concrete cfg mo forTASE native W =
     do { (root, W') \<leftarrow>
            (if UseConstantArrays cfg then Some (None, W)
             else map_option (\<lambda>(a, W'). (Some a, W'))
               (CreateArray (useCheatCons cfg) (''tmp_arr'' @ utostr (tmp_arr_id W + 1)) (moSize mo) [] 32 8
                  (W\<lparr>tmp_arr_id := tmp_arr_id W + 1\<rparr>)));
          Some (W', \<lparr>os_object = mo, concreteMask = None, flushMask = None, knownSymbolics = None,
                     updRoot = root, updHead = NoUpdates, os_size = moSize mo,
                     concreteStore = (if forTASE then native else replicate (moSize mo) 0), readOnly = False\<rparr>) }"

definition ObjectState_symbolic :: "memory_object \<Rightarrow> array \<Rightarrow> object_state option" where
  "ObjectState_symbolic mo a =
     makeSymbolic \<lparr>os_object = mo, concreteMask = None, flushMask = None, knownSymbolics = None,
       updRoot = Some a, updHead = NoUpdates, os_size = moSize mo,
       concreteStore = replicate (moSize mo) 0, readOnly = False\<rparr>"

definition ObjectState_copy :: "object_state \<Rightarrow> object_state option" where
  "ObjectState_copy os = (if readOnly os then None else Some os)"

subsection \<open>Updates\<close>

definition os_extend :: "expr \<Rightarrow> expr \<Rightarrow> object_state \<Rightarrow> object_state option" where
  "os_extend i v os =
     map_option (\<lambda>u. os\<lparr>updHead := u\<rparr>)
       (case updRoot os of
          None \<Rightarrow> Some (UpdateNode (updHead os) i v)
        | Some a \<Rightarrow> UpdateList_extend a (updHead os) i v)"

text \<open>The writes of a list, the oldest first.\<close>

fun uwrites :: "ulist \<Rightarrow> (expr \<times> expr) list" where
  "uwrites NoUpdates = []"
| "uwrites (UpdateNode n i v) = uwrites n @ [(i, v)]"

fun pull_concrete :: "apint list \<Rightarrow> (expr \<times> expr) list \<Rightarrow> (apint list \<times> (expr \<times> expr) list) option" where
  "pull_concrete contents ((ConstantExpr i, ConstantExpr v) # ws) =
     (if bitWidth i \<le> 64 \<and> apval i < int (length contents) then pull_concrete (contents[nat (apval i) := v]) ws else None)"
| "pull_concrete contents ws = Some (contents, ws)"

fun extend_all :: "(expr \<times> expr) list \<Rightarrow> object_state \<Rightarrow> object_state option" where
  "extend_all [] os = Some os"
| "extend_all ((i, v) # ws) os = Option.bind (os_extend i v os) (extend_all ws)"

definition getUpdates :: "mem_config \<Rightarrow> mstate \<Rightarrow> (array \<times> mstate) option" where
  "getUpdates cfg s =
     (let (W, os) = s in
      case updRoot os of
        Some a \<Rightarrow> Some (a, s)
      | None \<Rightarrow>
          do { z \<leftarrow> ConstantExpr_create 0 8;
               (contents, rest) \<leftarrow> pull_concrete (replicate (os_size os) z) (uwrites (updHead os));
               (a, W') \<leftarrow> CreateArray (useCheatCons cfg) (''const_arr'' @ utostr (const_arr_id W + 1)) (os_size os)
                  contents 32 8 (W\<lparr>const_arr_id := const_arr_id W + 1\<rparr>);
               os' \<leftarrow> extend_all rest (os\<lparr>updRoot := Some a, updHead := NoUpdates\<rparr>);
               Some (a, (W', os')) })"

subsection \<open>Flushing\<close>

text \<open>The byte as it goes into the updates; a byte in neither cache fails the assertion.\<close>

definition cached_byte :: "object_state \<Rightarrow> nat \<Rightarrow> expr option" where
  "cached_byte os off =
     (if isByteConcrete os off then map_option ConstantExpr (ConstantExpr_create (uint (concreteStore os ! off)) 8)
      else knownSymbolic os off)"

definition flush_out :: "nat \<Rightarrow> object_state \<Rightarrow> object_state option" where
  "flush_out off os =
     do { i \<leftarrow> ConstantExpr_create (int off) 32;
          v \<leftarrow> cached_byte os off;
          os_extend (ConstantExpr i) v os }"

definition unset_flush :: "nat \<Rightarrow> object_state \<Rightarrow> object_state" where
  "unset_flush off os = os\<lparr>flushMask := map_option (\<lambda>m. BitArray_unset m off) (flushMask os)\<rparr>"

definition need_flush_mask :: "object_state \<Rightarrow> object_state" where
  "need_flush_mask os =
     (case flushMask os of None \<Rightarrow> os\<lparr>flushMask := Some (BitArray_new (os_size os) True)\<rparr> | Some _ \<Rightarrow> os)"

definition flush_byte_read :: "nat \<Rightarrow> object_state \<Rightarrow> object_state option" where
  "flush_byte_read off os =
     (if isByteFlushed os off then Some os else map_option (unset_flush off) (flush_out off os))"

definition drop_cached :: "nat \<Rightarrow> object_state \<Rightarrow> object_state" where
  "drop_cached off os =
     (if isByteConcrete os off then markByteSymbolic off os
      else if isByteKnownSymbolic os off then setKnownSymbolic off None os else os)"

definition flush_byte_write :: "nat \<Rightarrow> object_state \<Rightarrow> object_state option" where
  "flush_byte_write off os =
     (if isByteFlushed os off then Some (drop_cached off os)
      else map_option (\<lambda>os'. unset_flush off (drop_cached off os')) (flush_out off os))"

fun each_byte :: "(nat \<Rightarrow> 's \<Rightarrow> 's option) \<Rightarrow> nat list \<Rightarrow> 's \<Rightarrow> 's option" where
  "each_byte f [] os = Some os"
| "each_byte f (i # is) os = Option.bind (f i os) (each_byte f is)"

definition flushRangeForRead :: "nat \<Rightarrow> nat \<Rightarrow> object_state \<Rightarrow> object_state option" where
  "flushRangeForRead base n os = each_byte flush_byte_read [base..<base + n] (need_flush_mask os)"

definition flushRangeForWrite :: "nat \<Rightarrow> nat \<Rightarrow> object_state \<Rightarrow> object_state option" where
  "flushRangeForWrite base n os = each_byte flush_byte_write [base..<base + n] (need_flush_mask os)"

text \<open>The range a symbolic offset may touch: always the whole object.\<close>

definition fastRangeCheckOffset :: "object_state \<Rightarrow> expr \<Rightarrow> nat \<times> nat" where
  "fastRangeCheckOffset os off = (0, os_size os)"

subsection \<open>Bytes\<close>

definition read8 :: "mem_config \<Rightarrow> nat \<Rightarrow> mstate \<Rightarrow> (expr \<times> mstate) option" where
  "read8 cfg off s =
     (let os = snd s in
      if off \<ge> os_size os then None
      else if isByteConcrete os off then
        do { c \<leftarrow> ConstantExpr_create (uint (concreteStore os ! off)) 8; Some (ConstantExpr c, s) }
      else (case knownSymbolic os off of
          Some e \<Rightarrow> Some (e, s)
        | None \<Rightarrow>
            (if \<not> isByteFlushed os off then None
             else do { (a, s') \<leftarrow> getUpdates cfg s;
                       i \<leftarrow> ConstantExpr_create (int off) 32;
                       e \<leftarrow> Read_create a (updHead (snd s')) (ConstantExpr i);
                       Some (e, s') })))"

definition read8_sym :: "mem_config \<Rightarrow> expr \<Rightarrow> mstate \<Rightarrow> (expr \<times> mstate) option" where
  "read8_sym cfg off s =
     (if isConstantExpr off then None
      else (let (base, n) = fastRangeCheckOffset (snd s) off in
        do { os \<leftarrow> flushRangeForRead base n (snd s);
             (a, s') \<leftarrow> getUpdates cfg (fst s, os);
             i \<leftarrow> ZExt_create off 32;
             e \<leftarrow> Read_create a (updHead (snd s')) i;
             Some (e, s') }))"

definition write8 :: "nat \<Rightarrow> 8 word \<Rightarrow> object_state \<Rightarrow> object_state option" where
  "write8 off v os =
     (if off \<ge> os_size os then None
      else Some (markByteUnflushed off (markByteConcrete off
             (setKnownSymbolic off None (os\<lparr>concreteStore := (concreteStore os)[off := v]\<rparr>)))))"

definition write8AsExpr :: "nat \<Rightarrow> expr \<Rightarrow> object_state \<Rightarrow> object_state option" where
  "write8AsExpr off v os =
     (if off \<ge> os_size os then None
      else Some (markByteUnflushed off (markByteSymbolic off (setKnownSymbolic off (Some v) os))))"

definition write8_expr :: "nat \<Rightarrow> expr \<Rightarrow> object_state \<Rightarrow> object_state option" where
  "write8_expr off v os =
     (case v of
        ConstantExpr c \<Rightarrow> (if bitWidth c \<le> 8 then write8 off (word_of_int (apval c)) os else None)
      | _ \<Rightarrow> write8AsExpr off v os)"

definition write8_sym :: "expr \<Rightarrow> expr \<Rightarrow> object_state \<Rightarrow> object_state option" where
  "write8_sym off v os =
     (if isConstantExpr off then None
      else (let (base, n) = fastRangeCheckOffset os off in
        do { os' \<leftarrow> flushRangeForWrite base n os;
             i \<leftarrow> ZExt_create off 32;
             os_extend i v os' }))"

definition isObjectEntirelyConcrete :: "object_state \<Rightarrow> bool" where
  "isObjectEntirelyConcrete os \<longleftrightarrow> list_all (isByteConcrete os) [0..<os_size os]"

end
