(* ===== verification/Object_Bytes.thy ===== *)
theory Object_Bytes
  imports Object_State
begin

text \<open>
  What a byte of an object state is worth, the invariant that keeps its three places consistent
  (the cache invariants stated in \<^verbatim>\<open>klee/lib/Core/Memory.cpp\<close>), and the byte operations against it.
\<close>

named_theorems byte_simps \<open>what the marking operations change\<close>

subsection \<open>The observers after the marking operations\<close>

definition shape :: "object_state \<Rightarrow> bool" where
  "shape os \<longleftrightarrow> bits_fit (os_size os) \<and> length (concreteStore os) = os_size os \<and>
     (\<forall>m. concreteMask os = Some m \<longrightarrow> bits_valid (os_size os) m) \<and>
     (\<forall>m. flushMask os = Some m \<longrightarrow> bits_valid (os_size os) m) \<and>
     (\<forall>ks. knownSymbolics os = Some ks \<longrightarrow> length ks = os_size os)"

lemmas mark_defs = markByteConcrete_def markByteSymbolic_def markByteUnflushed_def markByteFlushed_def
  setKnownSymbolic_def unset_flush_def need_flush_mask_def

lemma mark_fields [simp]:
  "os_size (markByteConcrete i os) = os_size os" "os_size (markByteSymbolic i os) = os_size os"
  "os_size (markByteUnflushed i os) = os_size os" "os_size (markByteFlushed i os) = os_size os"
  "os_size (setKnownSymbolic i v os) = os_size os" "os_size (unset_flush i os) = os_size os"
  "os_size (need_flush_mask os) = os_size os"
  "concreteStore (markByteConcrete i os) = concreteStore os" "concreteStore (markByteSymbolic i os) = concreteStore os"
  "concreteStore (markByteUnflushed i os) = concreteStore os" "concreteStore (markByteFlushed i os) = concreteStore os"
  "concreteStore (setKnownSymbolic i v os) = concreteStore os" "concreteStore (unset_flush i os) = concreteStore os"
  "concreteStore (need_flush_mask os) = concreteStore os"
  "updHead (markByteConcrete i os) = updHead os" "updHead (markByteSymbolic i os) = updHead os"
  "updHead (markByteUnflushed i os) = updHead os" "updHead (markByteFlushed i os) = updHead os"
  "updHead (setKnownSymbolic i v os) = updHead os" "updHead (unset_flush i os) = updHead os"
  "updHead (need_flush_mask os) = updHead os"
  "updRoot (markByteConcrete i os) = updRoot os" "updRoot (markByteSymbolic i os) = updRoot os"
  "updRoot (markByteUnflushed i os) = updRoot os" "updRoot (markByteFlushed i os) = updRoot os"
  "updRoot (setKnownSymbolic i v os) = updRoot os" "updRoot (unset_flush i os) = updRoot os"
  "updRoot (need_flush_mask os) = updRoot os"
  "os_object (markByteConcrete i os) = os_object os" "os_object (markByteSymbolic i os) = os_object os"
  "os_object (markByteUnflushed i os) = os_object os" "os_object (markByteFlushed i os) = os_object os"
  "os_object (setKnownSymbolic i v os) = os_object os" "os_object (unset_flush i os) = os_object os"
  "os_object (need_flush_mask os) = os_object os"
  by (simp_all add: mark_defs Let_def split: option.split)

lemma mark_shape [simp]:
  "shape os \<Longrightarrow> shape (markByteConcrete i os)" "shape os \<Longrightarrow> shape (markByteSymbolic i os)"
  "shape os \<Longrightarrow> shape (markByteUnflushed i os)" "shape os \<Longrightarrow> shape (markByteFlushed i os)"
  "shape os \<Longrightarrow> shape (setKnownSymbolic i v os)" "shape os \<Longrightarrow> shape (unset_flush i os)"
  "shape os \<Longrightarrow> shape (need_flush_mask os)"
  by (auto simp: shape_def mark_defs Let_def ba.set_valid ba.unset_valid ba.fresh_valid split: option.split)

lemma concrete_simps [byte_simps]:
  assumes "shape os" "i < os_size os" "j < os_size os"
  shows "isByteConcrete (markByteConcrete i os) j = (j = i \<or> isByteConcrete os j)"
    "isByteConcrete (markByteSymbolic i os) j = (j \<noteq> i \<and> isByteConcrete os j)"
    "isByteConcrete (markByteUnflushed i os) j = isByteConcrete os j"
    "isByteConcrete (markByteFlushed i os) j = isByteConcrete os j"
    "isByteConcrete (setKnownSymbolic i v os) j = isByteConcrete os j"
    "isByteConcrete (unset_flush i os) j = isByteConcrete os j"
    "isByteConcrete (need_flush_mask os) j = isByteConcrete os j"
  using assms by (auto simp: isByteConcrete_def mark_defs shape_def Let_def ba.get_set ba.get_unset
      ba.get_unset [OF ba.fresh_valid] ba.get_fresh split: option.splits)

lemma flushed_simps [byte_simps]:
  assumes "shape os" "i < os_size os" "j < os_size os"
  shows "isByteFlushed (markByteUnflushed i os) j = (j \<noteq> i \<and> isByteFlushed os j)"
    "isByteFlushed (unset_flush i os) j = (isByteFlushed os j \<or> j = i \<and> flushMask os \<noteq> None)"
    "isByteFlushed (markByteConcrete i os) j = isByteFlushed os j"
    "isByteFlushed (markByteSymbolic i os) j = isByteFlushed os j"
    "isByteFlushed (setKnownSymbolic i v os) j = isByteFlushed os j"
    "isByteFlushed (need_flush_mask os) j = isByteFlushed os j"
  using assms by (auto simp: isByteFlushed_def mark_defs shape_def Let_def ba.get_set ba.get_unset
      ba.get_unset [OF ba.fresh_valid] ba.get_fresh split: option.splits)

lemma known_simps [byte_simps]:
  assumes "shape os" "i < os_size os" "j < os_size os"
  shows "knownSymbolic (setKnownSymbolic i v os) j = (if j = i then v else knownSymbolic os j)"
    "knownSymbolic (markByteConcrete i os) j = knownSymbolic os j"
    "knownSymbolic (markByteSymbolic i os) j = knownSymbolic os j"
    "knownSymbolic (markByteUnflushed i os) j = knownSymbolic os j"
    "knownSymbolic (markByteFlushed i os) j = knownSymbolic os j"
    "knownSymbolic (unset_flush i os) j = knownSymbolic os j"
    "knownSymbolic (need_flush_mask os) j = knownSymbolic os j"
  using assms by (auto simp: knownSymbolic_def mark_defs shape_def Let_def split: option.splits)

lemma mask_exists [simp]:
  "flushMask (need_flush_mask os) \<noteq> None" "flushMask (unset_flush i os) = None \<longleftrightarrow> flushMask os = None"
  "flushMask (markByteSymbolic i os) = flushMask os" "flushMask (setKnownSymbolic i v os) = flushMask os"
  by (auto simp: mark_defs Let_def split: option.splits)

text \<open>The updates are not looked at by the observers, and the store only where it is read.\<close>

lemma observers_update [simp]:
  "isByteConcrete (os\<lparr>updHead := u\<rparr>) j = isByteConcrete os j" "isByteFlushed (os\<lparr>updHead := u\<rparr>) j = isByteFlushed os j"
  "knownSymbolic (os\<lparr>updHead := u\<rparr>) j = knownSymbolic os j" "shape (os\<lparr>updHead := u\<rparr>) = shape os"
  "isByteConcrete (os\<lparr>updRoot := r\<rparr>) j = isByteConcrete os j" "isByteFlushed (os\<lparr>updRoot := r\<rparr>) j = isByteFlushed os j"
  "knownSymbolic (os\<lparr>updRoot := r\<rparr>) j = knownSymbolic os j" "shape (os\<lparr>updRoot := r\<rparr>) = shape os"
  "isByteConcrete (os\<lparr>concreteStore := b\<rparr>) j = isByteConcrete os j"
  "isByteFlushed (os\<lparr>concreteStore := b\<rparr>) j = isByteFlushed os j"
  "knownSymbolic (os\<lparr>concreteStore := b\<rparr>) j = knownSymbolic os j"
  by (simp_all add: isByteConcrete_def isByteFlushed_def knownSymbolic_def shape_def)

lemma shape_store [simp]: "shape os \<Longrightarrow> length b = length (concreteStore os) \<Longrightarrow> shape (os\<lparr>concreteStore := b\<rparr>)"
  by (simp add: shape_def)

subsection \<open>The value of a byte\<close>

text \<open>The value the updates hold for an index. An array created lazily starts with zeros.\<close>

definition default :: "'a \<Rightarrow> 'a option \<Rightarrow> 'a" where
  "default d r = (case r of None \<Rightarrow> d | Some v \<Rightarrow> v)"

lemma default_simps [simp]: "default d None = d" "default d (Some v) = v"
  by (simp_all add: default_def)

definition root_val :: "env \<Rightarrow> array option \<Rightarrow> int \<Rightarrow> int" where
  "root_val \<sigma> r ix = (case r of Some a \<Rightarrow> initial \<sigma> a ix | None \<Rightarrow> 0)"

definition stored :: "env \<Rightarrow> object_state \<Rightarrow> int \<Rightarrow> int" where
  "stored \<sigma> os ix = default (root_val \<sigma> (updRoot os) ix) (ulookup (updHead os) \<sigma> ix)"

definition byte_val :: "env \<Rightarrow> object_state \<Rightarrow> nat \<Rightarrow> int" where
  "byte_val \<sigma> os i =
     (if isByteConcrete os i then uint (concreteStore os ! i)
      else default (stored \<sigma> os (int i)) (map_option (\<lambda>e. eval e \<sigma>) (knownSymbolic os i)))"

text \<open>An array of bytes with 32-bit indices, the only kind an object state uses.\<close>

definition byte_array :: "array \<Rightarrow> bool" where
  "byte_array a \<longleftrightarrow> wf_array a \<and> arrDomain a = 32 \<and> arrRange a = 8"

definition wf_updates :: "ulist \<Rightarrow> bool" where
  "wf_updates us \<longleftrightarrow> (\<forall>(i, v) \<in> set (uwrites us). wf_expr i \<and> wf_expr v \<and> getWidth i = 32 \<and> getWidth v = 8)"

lemma wf_ulist_updates: "byte_array a \<Longrightarrow> wf_ulist us a \<longleftrightarrow> wf_updates us"
  by (induction us rule: uwrites.induct) (auto simp: wf_updates_def byte_array_def)

definition const_bounded :: "nat \<Rightarrow> ulist \<Rightarrow> bool" where
  "const_bounded n us \<longleftrightarrow> (\<forall>(i, v) \<in> set (uwrites us). \<forall>c. i = ConstantExpr c \<longrightarrow> apval c < int n)"

text \<open>The invariant of one byte: the cache invariants, and that a flushed byte is in the updates.\<close>

definition byte_ok :: "object_state \<Rightarrow> nat \<Rightarrow> bool" where
  "byte_ok os i \<longleftrightarrow>
     (\<forall>e. knownSymbolic os i = Some e \<longrightarrow> wf_expr e \<and> getWidth e = 8 \<and> \<not> isByteConcrete os i) \<and>
     (\<not> isByteFlushed os i \<longrightarrow> isByteConcrete os i \<or> knownSymbolic os i \<noteq> None) \<and>
     (isByteFlushed os i \<longrightarrow> (\<forall>\<sigma>. env_ok \<sigma> \<longrightarrow> stored \<sigma> os (int i) = byte_val \<sigma> os i))"

definition os_ok :: "object_state \<Rightarrow> bool" where
  "os_ok os \<longleftrightarrow> shape os \<and> (\<forall>a. updRoot os = Some a \<longrightarrow> byte_array a) \<and> wf_updates (updHead os) \<and>
     (updRoot os = None \<longrightarrow> const_bounded (os_size os) (updHead os)) \<and> (\<forall>i < os_size os. byte_ok os i)"

text \<open>Two states hold the same bytes.\<close>

definition same_bytes :: "object_state \<Rightarrow> object_state \<Rightarrow> bool" where
  "same_bytes os os' \<longleftrightarrow> os_size os' = os_size os \<and> os_object os' = os_object os \<and>
     (\<forall>\<sigma> i. env_ok \<sigma> \<longrightarrow> i < os_size os \<longrightarrow> byte_val \<sigma> os' i = byte_val \<sigma> os i)"

lemma same_bytes_refl [simp]: "same_bytes os os"
  by (simp add: same_bytes_def)

lemma same_bytes_trans: "same_bytes a b \<Longrightarrow> same_bytes b c \<Longrightarrow> same_bytes a c"
  by (simp add: same_bytes_def)

lemma byte_width:
  assumes "os_ok os" "i < os_size os" "env_ok \<sigma>"
  shows "in_width 8 (byte_val \<sigma> os i)"
proof -
  have "in_width 8 (uint b)" for b :: "8 word"
    using uint_lt2p [of b] by (simp add: in_width_def)
  moreover have "in_width 8 (eval e \<sigma>)" if "knownSymbolic os i = Some e" for e
    using assms that eval_in_width [of \<sigma> e] by (auto simp: os_ok_def byte_ok_def)
  moreover have "in_width 8 (stored \<sigma> os (int i))"
  proof -
    have "in_width 8 v" if "ulookup us \<sigma> ix = Some v" "wf_updates us" for us ix v
      using that(1,2) assms(3)
      by (induction us rule: uwrites.induct) (auto simp: wf_updates_def dest: eval_in_width split: if_splits)
    then show ?thesis
      using assms initial_in_width [of _ \<sigma> "int i"]
      by (fastforce simp: stored_def root_val_def default_def os_ok_def byte_array_def split: option.split)
  qed
  ultimately show ?thesis by (cases "knownSymbolic os i") (auto simp: byte_val_def)
qed

subsection \<open>Writes at constant offsets\<close>

text \<open>The second state is the first with the byte at a position replaced.\<close>

definition puts :: "object_state \<Rightarrow> (env \<Rightarrow> int) \<Rightarrow> (env \<Rightarrow> int) \<Rightarrow> object_state \<Rightarrow> bool" where
  "puts os pos f os' \<longleftrightarrow> os_ok os' \<and> os_size os' = os_size os \<and> os_object os' = os_object os \<and>
     (\<forall>\<sigma> j. env_ok \<sigma> \<longrightarrow> j < os_size os \<longrightarrow>
        byte_val \<sigma> os' j = (if int j = pos \<sigma> then f \<sigma> else byte_val \<sigma> os j))"

lemma frame_byte_val:
  assumes "isByteConcrete os' j = isByteConcrete os j" "knownSymbolic os' j = knownSymbolic os j"
    "updHead os' = updHead os" "updRoot os' = updRoot os"
    "isByteConcrete os j \<Longrightarrow> concreteStore os' ! j = concreteStore os ! j"
  shows "byte_val \<sigma> os' j = byte_val \<sigma> os j"
proof -
  have "stored \<sigma> os' (int j) = stored \<sigma> os (int j)" using assms(3,4) by (simp add: stored_def)
  then show ?thesis using assms by (simp add: byte_val_def)
qed

lemma frame_byte_ok:
  assumes "isByteConcrete os' j = isByteConcrete os j" "isByteFlushed os' j = isByteFlushed os j"
    "knownSymbolic os' j = knownSymbolic os j" "updHead os' = updHead os" "updRoot os' = updRoot os"
    "isByteConcrete os j \<Longrightarrow> concreteStore os' ! j = concreteStore os ! j"
  shows "byte_ok os' j = byte_ok os j"
  using assms frame_byte_val [of os' j os] by (simp add: byte_ok_def stored_def)

lemma putsI:
  assumes "os_ok os" "shape os'" "os_size os' = os_size os" "os_object os' = os_object os"
    "updHead os' = updHead os" "updRoot os' = updRoot os" "i < os_size os" "byte_ok os' i"
    "\<And>j. j < os_size os \<Longrightarrow> j \<noteq> i \<Longrightarrow> isByteConcrete os' j = isByteConcrete os j \<and>
       isByteFlushed os' j = isByteFlushed os j \<and> knownSymbolic os' j = knownSymbolic os j \<and>
       concreteStore os' ! j = concreteStore os ! j"
    "\<And>\<sigma>. byte_val \<sigma> os' i = f \<sigma>"
  shows "puts os (\<lambda>_. int i) f os'"
proof -
  have other: "byte_val \<sigma> os' j = byte_val \<sigma> os j \<and> byte_ok os' j" if "j < os_size os" "j \<noteq> i" for j \<sigma>
    using frame_byte_val [of os' j os \<sigma>] frame_byte_ok [of os' j os] assms that by (simp add: os_ok_def)
  have "byte_ok os' j" if "j < os_size os" for j
    using other [OF that] assms(8) by (cases "j = i") auto
  then have "os_ok os'" using assms by (simp add: os_ok_def)
  then show ?thesis using other assms(3,4,10) by (auto simp: puts_def)
qed

lemma write8_puts:
  assumes "os_ok os" "i < os_size os"
  shows "\<exists>os'. write8 i v os = Some os' \<and> puts os (\<lambda>_. int i) (\<lambda>_. uint v) os'"
proof -
  have sh: "shape os" using assms(1) by (simp add: os_ok_def)
  let ?stored = "os\<lparr>concreteStore := (concreteStore os)[i := v]\<rparr>"
  let ?os = "markByteUnflushed i (markByteConcrete i (setKnownSymbolic i None ?stored))"
  have s0: "shape ?stored" "i < os_size ?stored" using sh assms(2) by simp_all
  have obs: "isByteConcrete ?os j = (j = i \<or> isByteConcrete os j)" "isByteFlushed ?os j = (j \<noteq> i \<and> isByteFlushed os j)"
    "knownSymbolic ?os j = (if j = i then None else knownSymbolic os j)" if "j < os_size os" for j
    using s0 that by (simp_all add: byte_simps)
  have len: "i < length (concreteStore os)" using sh assms(2) by (simp add: shape_def)
  have "puts os (\<lambda>_. int i) (\<lambda>_. uint v) ?os"
  proof (rule putsI [OF assms(1)])
    show "byte_ok ?os i" using obs assms(2) by (simp add: byte_ok_def)
    show "byte_val \<sigma> ?os i = uint v" for \<sigma> using obs assms(2) len by (simp add: byte_val_def)
    show "shape ?os" using s0 by simp
  qed (use obs assms(2) in \<open>auto\<close>)
  moreover have "write8 i v os = Some ?os" using assms(2) by (simp add: write8_def)
  ultimately show ?thesis by blast
qed

lemma write8AsExpr_puts:
  assumes "os_ok os" "i < os_size os" "wf_expr e" "getWidth e = 8"
  shows "\<exists>os'. write8AsExpr i e os = Some os' \<and> puts os (\<lambda>_. int i) (eval e) os' \<and>
    concreteStore os' = concreteStore os \<and> knownSymbolic os' i = Some e \<and> \<not> isByteConcrete os' i \<and> \<not> isByteFlushed os' i \<and>
    (\<forall>j < os_size os. j \<noteq> i \<longrightarrow> isByteConcrete os' j = isByteConcrete os j \<and> isByteFlushed os' j = isByteFlushed os j \<and>
       knownSymbolic os' j = knownSymbolic os j)"
proof -
  have sh: "shape os" using assms(1) by (simp add: os_ok_def)
  let ?os = "markByteUnflushed i (markByteSymbolic i (setKnownSymbolic i (Some e) os))"
  have obs: "isByteConcrete ?os j = (j \<noteq> i \<and> isByteConcrete os j)" "isByteFlushed ?os j = (j \<noteq> i \<and> isByteFlushed os j)"
    "knownSymbolic ?os j = (if j = i then Some e else knownSymbolic os j)" if "j < os_size os" for j
    using sh assms(2) that by (simp_all add: byte_simps)
  have "puts os (\<lambda>_. int i) (eval e) ?os"
  proof (rule putsI [OF assms(1)])
    show "byte_ok ?os i" using obs assms by (simp add: byte_ok_def)
    show "byte_val \<sigma> ?os i = eval e \<sigma>" for \<sigma> using obs assms(2) by (simp add: byte_val_def)
    show "shape ?os" using sh by simp
  qed (use obs assms(2) in \<open>auto\<close>)
  moreover have "write8AsExpr i e os = Some ?os" using assms(2) by (simp add: write8AsExpr_def)
  ultimately show ?thesis using obs assms(2) by auto
qed

lemma write8_expr_puts:
  assumes "os_ok os" "i < os_size os" "wf_expr e" "getWidth e = 8"
  shows "\<exists>os'. write8_expr i e os = Some os' \<and> puts os (\<lambda>_. int i) (eval e) os'"
proof (cases e)
  case (ConstantExpr c)
  then have "uint (word_of_int (apval c) :: 8 word) = apval c" "bitWidth c = 8"
    using assms(3,4) by (simp_all add: wf_apint_def uint_word_of_int_eq)
  moreover have "eval e = (\<lambda>_. apval c)" using ConstantExpr by auto
  ultimately show ?thesis
    using write8_puts [OF assms(1,2), of "word_of_int (apval c)"] ConstantExpr by (simp add: write8_expr_def)
qed (use write8AsExpr_puts [OF assms] in \<open>auto simp: write8_expr_def\<close>)

subsection \<open>Extending the updates\<close>

lemma os_extend_eq:
  assumes "\<And>a. updRoot os = Some a \<Longrightarrow> byte_array a" "getWidth i = 32" "getWidth v = 8"
  shows "os_extend i v os = Some (os\<lparr>updHead := UpdateNode (updHead os) i v\<rparr>)"
  using assms by (auto simp: os_extend_def UpdateList_extend_def byte_array_def split: option.split)

lemma stored_extend:
  "stored \<sigma> (os\<lparr>updHead := UpdateNode (updHead os) i v\<rparr>) ix = (if eval i \<sigma> = ix then eval v \<sigma> else stored \<sigma> os ix)"
  by (simp add: stored_def)

lemma stored_marks [simp]:
  "stored \<sigma> (unset_flush i os) ix = stored \<sigma> os ix" "stored \<sigma> (markByteSymbolic i os) ix = stored \<sigma> os ix"
  "stored \<sigma> (setKnownSymbolic i v os) ix = stored \<sigma> os ix" "stored \<sigma> (need_flush_mask os) ix = stored \<sigma> os ix"
  by (simp_all add: stored_def)

lemma const_index:
  assumes "i < 2 ^ 32"
  obtains c where "ConstantExpr_create (int i) 32 = Some c" "wf_apint c" "bitWidth c = 32" "apval c = int i"
proof -
  have "take_bit 32 (int i) = int i" using assms by (intro take_bit_in_width) (simp add: in_width_def)
  then show ?thesis using that [of "ConstantExpr_alloc (int i) 32"] by (simp add: ConstantExpr_create_def)
qed

lemma const_byte:
  obtains c where "ConstantExpr_create (uint (b :: 8 word)) 8 = Some c" "wf_apint c" "bitWidth c = 8" "apval c = uint b"
proof -
  have "take_bit 8 (uint b) = uint b" using uint_lt2p [of b] by (intro take_bit_in_width) (simp add: in_width_def)
  then show ?thesis using that [of "ConstantExpr_alloc (uint b) 8"] by (simp add: ConstantExpr_create_def)
qed

lemma size_bound: "shape os \<Longrightarrow> i < os_size os \<Longrightarrow> i < 2 ^ 32"
  by (simp add: shape_def bits_fit_def)

lemma flush_out_eq:
  assumes "os_ok os" "i < os_size os" "\<not> isByteFlushed os i"
  obtains c v where "flush_out i os = Some (os\<lparr>updHead := UpdateNode (updHead os) (ConstantExpr c) v\<rparr>)"
    "wf_apint c" "bitWidth c = 32" "apval c = int i" "wf_expr v" "getWidth v = 8" "\<And>\<sigma>. eval v \<sigma> = byte_val \<sigma> os i"
proof -
  have sh: "shape os" and b: "byte_ok os i" using assms by (auto simp: os_ok_def)
  obtain c where c: "ConstantExpr_create (int i) 32 = Some c" "wf_apint c" "bitWidth c = 32" "apval c = int i"
    using const_index [OF size_bound [OF sh assms(2)]] by blast
  obtain v where v: "cached_byte os i = Some v" "wf_expr v" "getWidth v = 8" "\<And>\<sigma>. eval v \<sigma> = byte_val \<sigma> os i"
  proof (cases "isByteConcrete os i")
    case True
    obtain d where "ConstantExpr_create (uint (concreteStore os ! i)) 8 = Some d" "wf_apint d" "bitWidth d = 8"
      "apval d = uint (concreteStore os ! i)" by (rule const_byte)
    then show thesis using that [of "ConstantExpr d"] True by (simp add: cached_byte_def byte_val_def)
  next
    case False
    then obtain e where "knownSymbolic os i = Some e" using b assms(3) by (auto simp: byte_ok_def)
    then show thesis using that [of e] b False by (simp add: cached_byte_def byte_val_def byte_ok_def)
  qed
  have "flush_out i os = Some (os\<lparr>updHead := UpdateNode (updHead os) (ConstantExpr c) v\<rparr>)"
    using c v assms(1) os_extend_eq [of os "ConstantExpr c" v] by (simp add: flush_out_def os_ok_def)
  then show thesis using that c v by blast
qed

subsection \<open>Flushing\<close>

lemma same_bytesI:
  assumes "os_size os' = os_size os" "os_object os' = os_object os"
    "\<And>\<sigma> i. env_ok \<sigma> \<Longrightarrow> i < os_size os \<Longrightarrow> byte_val \<sigma> os' i = byte_val \<sigma> os i"
  shows "same_bytes os os'"
  using assms by (simp add: same_bytes_def)

text \<open>The updates of a state that a flush extends.\<close>

lemma extend_ok:
  assumes "os_ok os" "wf_expr ie" "getWidth ie = 32" "wf_expr v" "getWidth v = 8"
    "\<And>c. ie = ConstantExpr c \<Longrightarrow> apval c < int (os_size os)"
  shows "wf_updates (UpdateNode (updHead os) ie v)"
    "updRoot os = None \<Longrightarrow> const_bounded (os_size os) (UpdateNode (updHead os) ie v)"
  using assms by (auto simp: os_ok_def wf_updates_def const_bounded_def)

definition flush_step :: "object_state \<Rightarrow> nat \<Rightarrow> object_state \<Rightarrow> bool" where
  "flush_step os i os' \<longleftrightarrow> os_ok os' \<and> same_bytes os os' \<and> flushMask os' \<noteq> None \<and>
     concreteStore os' = concreteStore os \<and>
     (\<forall>j < os_size os. isByteFlushed os' j = (j = i \<or> isByteFlushed os j)) \<and>
     (\<forall>j < os_size os. j \<noteq> i \<longrightarrow> isByteConcrete os' j = isByteConcrete os j \<and> knownSymbolic os' j = knownSymbolic os j)"

text \<open>Flushing a byte that is not flushed, whatever the caches hold for it afterwards.\<close>

lemma flush_stepI:
  assumes ok: "os_ok os" "i < os_size os" "flushMask os \<noteq> None" "\<not> isByteFlushed os i"
    and out: "flush_out i os = Some os1" and mask: "flushMask os2 = flushMask os1" and sh: "shape os2"
    and fields: "os_size os2 = os_size os1" "os_object os2 = os_object os1" "concreteStore os2 = concreteStore os1"
      "updHead os2 = updHead os1" "updRoot os2 = updRoot os1"
    and obs: "\<And>j. j < os_size os \<Longrightarrow> isByteFlushed os2 j = isByteFlushed os1 j"
      "\<And>j. j < os_size os \<Longrightarrow> j \<noteq> i \<Longrightarrow> isByteConcrete os2 j = isByteConcrete os1 j \<and> knownSymbolic os2 j = knownSymbolic os1 j"
    and own: "isByteConcrete os2 i = isByteConcrete os i \<and> knownSymbolic os2 i = knownSymbolic os i \<or>
      \<not> isByteConcrete os2 i \<and> knownSymbolic os2 i = None"
  shows "flush_step os i (unset_flush i os2)"
proof -
  let ?os = "unset_flush i os2"
  obtain c v where c: "os1 = os\<lparr>updHead := UpdateNode (updHead os) (ConstantExpr c) v\<rparr>"
    "wf_apint c" "bitWidth c = 32" "apval c = int i" "wf_expr v" "getWidth v = 8" "\<And>\<sigma>. eval v \<sigma> = byte_val \<sigma> os i"
    using flush_out_eq [OF ok(1,2,4), of thesis] out by auto
  have st: "stored \<sigma> ?os (int j) = (if j = i then byte_val \<sigma> os i else stored \<sigma> os (int j))" for \<sigma> j
  proof -
    have "stored \<sigma> os2 (int j) = stored \<sigma> os1 (int j)" using fields by (simp add: stored_def)
    then show ?thesis using c(1,4,7) by (simp add: stored_extend)
  qed
  have o2: "isByteConcrete ?os j = isByteConcrete os2 j" "knownSymbolic ?os j = knownSymbolic os2 j"
    "isByteFlushed ?os j = (j = i \<or> isByteFlushed os j)" if "j < os_size os" for j
    using that sh fields(1) c(1) ok obs(1) [OF that] mask by (auto simp: byte_simps)
  have own_val: "byte_val \<sigma> ?os i = byte_val \<sigma> os i" for \<sigma>
    using own
  proof
    assume "isByteConcrete os2 i = isByteConcrete os i \<and> knownSymbolic os2 i = knownSymbolic os i"
    then show ?thesis
      using o2 [OF ok(2)] st [of \<sigma> i] fields(3) c(1) by (cases "knownSymbolic os i") (auto simp: byte_val_def)
  next
    assume "\<not> isByteConcrete os2 i \<and> knownSymbolic os2 i = None"
    then show ?thesis using o2 [OF ok(2)] st [of \<sigma> i] by (simp add: byte_val_def)
  qed
  have other_val: "byte_val \<sigma> ?os j = byte_val \<sigma> os j" if "j < os_size os" "j \<noteq> i" for \<sigma> j
    using o2 [OF that(1)] obs(2) [OF that] st [of \<sigma> j] that(2) c(1) fields(3) by (simp add: byte_val_def)
  have vals: "byte_val \<sigma> ?os j = byte_val \<sigma> os j" if "j < os_size os" for \<sigma> j
    using own_val other_val that by (cases "j = i") auto
  have "byte_ok ?os j" if j: "j < os_size os" for j
  proof (cases "j = i")
    case True
    have "byte_ok os i" using ok by (simp add: os_ok_def)
    then show ?thesis using True o2 [OF ok(2)] own st [of _ i] own_val by (auto simp: byte_ok_def)
  next
    case False
    have "byte_ok os j" using ok(1) j by (simp add: os_ok_def)
    then show ?thesis using False o2 [OF j] obs(2) [OF j False] st [of _ j] vals [OF j] c(1) by (simp add: byte_ok_def)
  qed
  moreover have "shape ?os" "wf_updates (updHead ?os)" "\<And>a. updRoot ?os = Some a \<Longrightarrow> byte_array a"
    "updRoot ?os = None \<Longrightarrow> const_bounded (os_size os) (updHead ?os)"
    using sh fields c ok extend_ok [OF ok(1), of "ConstantExpr c" v] by (auto simp: os_ok_def)
  ultimately have "os_ok ?os" using fields(1) c(1) by (simp add: os_ok_def)
  then show ?thesis
    using vals o2 obs(2) c(1) fields mask ok(3) by (auto simp: flush_step_def same_bytes_def)
qed

lemma flush_byte_read_step:
  assumes "os_ok os" "i < os_size os" "flushMask os \<noteq> None"
  shows "\<exists>os'. flush_byte_read i os = Some os' \<and> flush_step os i os' \<and>
    isByteConcrete os' i = isByteConcrete os i \<and> knownSymbolic os' i = knownSymbolic os i"
proof (cases "isByteFlushed os i")
  case True
  then show ?thesis using assms by (auto simp: flush_byte_read_def flush_step_def)
next
  case False
  obtain os1 where out: "flush_out i os = Some os1" and os1: "\<exists>u. os1 = os\<lparr>updHead := u\<rparr>"
    using flush_out_eq [OF assms(1,2) False, of thesis] by blast
  have "shape os" using assms(1) by (simp add: os_ok_def)
  then have "flush_step os i (unset_flush i os1)"
    using flush_stepI [OF assms False out, of os1] os1 by auto
  moreover have "isByteConcrete (unset_flush i os1) i = isByteConcrete os i \<and> knownSymbolic (unset_flush i os1) i = knownSymbolic os i"
    using os1 assms(2) \<open>shape os\<close> by (auto simp: byte_simps)
  ultimately show ?thesis using False out by (simp add: flush_byte_read_def)
qed

lemma drop_cached_obs:
  assumes "shape os" "i < os_size os" "byte_ok os i"
  shows "\<not> isByteConcrete (drop_cached i os) i" "knownSymbolic (drop_cached i os) i = None"
    "j < os_size os \<Longrightarrow> j \<noteq> i \<Longrightarrow> isByteConcrete (drop_cached i os) j = isByteConcrete os j \<and>
       knownSymbolic (drop_cached i os) j = knownSymbolic os j"
    "j < os_size os \<Longrightarrow> isByteFlushed (drop_cached i os) j = isByteFlushed os j"
  using assms by (auto simp: drop_cached_def byte_simps isByteKnownSymbolic_def byte_ok_def)

lemma drop_cached_fields [simp]:
  "os_size (drop_cached i os) = os_size os" "os_object (drop_cached i os) = os_object os"
  "concreteStore (drop_cached i os) = concreteStore os" "updHead (drop_cached i os) = updHead os"
  "updRoot (drop_cached i os) = updRoot os" "flushMask (drop_cached i os) = flushMask os"
  "shape os \<Longrightarrow> shape (drop_cached i os)"
  by (simp_all add: drop_cached_def)

lemma drop_flushed_step:
  assumes "os_ok os" "i < os_size os" "flushMask os \<noteq> None" "isByteFlushed os i"
  shows "flush_step os i (drop_cached i os)"
proof -
  let ?os = "drop_cached i os"
  have sh: "shape os" and bi: "byte_ok os i" using assms by (auto simp: os_ok_def)
  note obs = drop_cached_obs [OF sh assms(2) bi]
  have st: "stored \<sigma> ?os ix = stored \<sigma> os ix" for \<sigma> ix by (simp add: stored_def)
  have own: "byte_val \<sigma> ?os i = byte_val \<sigma> os i" if "env_ok \<sigma>" for \<sigma>
    using obs(1,2) bi assms(4) that st by (simp add: byte_val_def [of _ ?os] byte_ok_def)
  have other: "byte_val \<sigma> ?os j = byte_val \<sigma> os j \<and> byte_ok ?os j" if "j < os_size os" "j \<noteq> i" for \<sigma> j
    using frame_byte_val [of ?os j os \<sigma>] frame_byte_ok [of ?os j os] obs(3,4) that assms(1) by (simp add: os_ok_def)
  have "byte_ok ?os j" if "j < os_size os" for j
  proof (cases "j = i")
    case True
    then show ?thesis using obs(1,2) obs(4) [OF assms(2)] assms(4) by (simp add: byte_ok_def byte_val_def)
  qed (use other that in simp)
  then have "os_ok ?os" using assms(1) sh by (simp add: os_ok_def)
  moreover have "byte_val \<sigma> ?os j = byte_val \<sigma> os j" if "j < os_size os" "env_ok \<sigma>" for \<sigma> j
    using own other that by (cases "j = i") auto
  ultimately show ?thesis using obs(3,4) assms(3,4) by (auto simp: flush_step_def same_bytes_def)
qed

lemma flush_byte_write_step:
  assumes "os_ok os" "i < os_size os" "flushMask os \<noteq> None"
  shows "\<exists>os'. flush_byte_write i os = Some os' \<and> flush_step os i os' \<and>
    \<not> isByteConcrete os' i \<and> knownSymbolic os' i = None"
proof (cases "isByteFlushed os i")
  case True
  then show ?thesis
    using drop_flushed_step [OF assms True] drop_cached_obs(1,2) [of os i] assms
    by (auto simp: flush_byte_write_def os_ok_def)
next
  case False
  obtain os1 where out: "flush_out i os = Some os1" and os1: "\<exists>u. os1 = os\<lparr>updHead := u\<rparr>"
    using flush_out_eq [OF assms(1,2) False, of thesis] by blast
  have sh: "shape os" "shape os1" and b: "byte_ok os i" using assms os1 by (auto simp: os_ok_def)
  have d: "\<not> isByteConcrete (drop_cached i os1) i" "knownSymbolic (drop_cached i os1) i = None"
    "\<And>j. j < os_size os \<Longrightarrow> j \<noteq> i \<Longrightarrow> isByteConcrete (drop_cached i os1) j = isByteConcrete os1 j \<and>
       knownSymbolic (drop_cached i os1) j = knownSymbolic os1 j"
    "\<And>j. j < os_size os \<Longrightarrow> isByteFlushed (drop_cached i os1) j = isByteFlushed os1 j"
    using sh assms(2) os1 b by (auto simp: drop_cached_def byte_simps isByteKnownSymbolic_def byte_ok_def)
  have "flush_step os i (unset_flush i (drop_cached i os1))"
    using flush_stepI [OF assms False out, of "drop_cached i os1"] d sh by simp
  moreover have "\<not> isByteConcrete (unset_flush i (drop_cached i os1)) i"
    "knownSymbolic (unset_flush i (drop_cached i os1)) i = None"
    using d(1,2) sh(2) assms(2) os1 by (auto simp: byte_simps)
  ultimately show ?thesis using False out by (simp add: flush_byte_write_def)
qed

lemma each_byte_append: "each_byte f (xs @ ys) s = Option.bind (each_byte f xs s) (each_byte f ys)"
  by (induction xs arbitrary: s) (auto simp: Option.bind_eq_None_conv split: bind_splits)

text \<open>A loop over the bytes of a state of which each step keeps an invariant.\<close>

lemma each_byte_upto:
  assumes "Q 0 s" "\<And>i s. i < n \<Longrightarrow> Q i s \<Longrightarrow> \<exists>s'. f i s = Some s' \<and> Q (Suc i) s'"
  shows "\<exists>s'. each_byte f [0..<n] s = Some s' \<and> Q n s'"
  using assms(2)
proof (induction n)
  case (Suc n)
  then obtain s' where "each_byte f [0..<n] s = Some s'" "Q n s'" by auto
  moreover then obtain s'' where "f n s' = Some s''" "Q (Suc n) s''" using Suc.prems by blast
  ultimately show ?case by (simp add: each_byte_append)
qed (simp add: assms(1))

lemma need_flush_mask_ok: "os_ok os \<Longrightarrow> os_ok (need_flush_mask os) \<and> same_bytes os (need_flush_mask os)"
proof -
  assume ok: "os_ok os"
  then have sh: "shape os" by (simp add: os_ok_def)
  have obs: "byte_val \<sigma> (need_flush_mask os) j = byte_val \<sigma> os j" "byte_ok (need_flush_mask os) j = byte_ok os j"
    if "j < os_size os" for \<sigma> j
    using frame_byte_val [of "need_flush_mask os" j os \<sigma>] frame_byte_ok [of "need_flush_mask os" j os]
    by (simp_all add: byte_simps [OF sh that that])
  then show ?thesis using ok sh by (simp add: os_ok_def same_bytes_def)
qed

lemma flushRangeForRead_spec:
  assumes "os_ok os"
  shows "\<exists>os'. flushRangeForRead 0 (os_size os) os = Some os' \<and> os_ok os' \<and> same_bytes os os' \<and>
    concreteStore os' = concreteStore os \<and>
    (\<forall>j < os_size os. isByteFlushed os' j \<and> isByteConcrete os' j = isByteConcrete os j \<and> knownSymbolic os' j = knownSymbolic os j)"
proof -
  let ?Q = "\<lambda>k os'. os_ok os' \<and> same_bytes os os' \<and> flushMask os' \<noteq> None \<and> concreteStore os' = concreteStore os \<and>
    (\<forall>j < os_size os. (j < k \<longrightarrow> isByteFlushed os' j) \<and> isByteConcrete os' j = isByteConcrete os j \<and> knownSymbolic os' j = knownSymbolic os j)"
  have sh: "shape os" using assms by (simp add: os_ok_def)
  have "\<exists>os'. each_byte flush_byte_read [0..<os_size os] (need_flush_mask os) = Some os' \<and> ?Q (os_size os) os'"
  proof (rule each_byte_upto [where Q = ?Q])
    show "?Q 0 (need_flush_mask os)"
      using need_flush_mask_ok [OF assms] sh by (auto simp: byte_simps)
  next
    fix i s assume i: "i < os_size os" and Q: "?Q i s"
    then have sz: "i < os_size s" "os_size s = os_size os" by (auto simp: same_bytes_def)
    from flush_byte_read_step [of s i] Q sz obtain s' where s': "flush_byte_read i s = Some s'" "flush_step s i s'"
      "isByteConcrete s' i = isByteConcrete s i" "knownSymbolic s' i = knownSymbolic s i" by blast
    have "?Q (Suc i) s'"
      using Q s' sz(2) same_bytes_trans [of os s s'] unfolding flush_step_def by (metis less_Suc_eq)
    then show "\<exists>s'. flush_byte_read i s = Some s' \<and> ?Q (Suc i) s'" using s'(1) by blast
  qed
  then show ?thesis by (auto simp: flushRangeForRead_def)
qed

lemma flushRangeForWrite_spec:
  assumes "os_ok os"
  shows "\<exists>os'. flushRangeForWrite 0 (os_size os) os = Some os' \<and> os_ok os' \<and> same_bytes os os' \<and>
    concreteStore os' = concreteStore os \<and>
    (\<forall>j < os_size os. isByteFlushed os' j \<and> \<not> isByteConcrete os' j \<and> knownSymbolic os' j = None)"
proof -
  let ?Q = "\<lambda>k os'. os_ok os' \<and> same_bytes os os' \<and> flushMask os' \<noteq> None \<and> concreteStore os' = concreteStore os \<and>
    (\<forall>j < os_size os. j < k \<longrightarrow> isByteFlushed os' j \<and> \<not> isByteConcrete os' j \<and> knownSymbolic os' j = None)"
  have "\<exists>os'. each_byte flush_byte_write [0..<os_size os] (need_flush_mask os) = Some os' \<and> ?Q (os_size os) os'"
  proof (rule each_byte_upto [where Q = ?Q])
    show "?Q 0 (need_flush_mask os)" using need_flush_mask_ok [OF assms] by auto
  next
    fix i s assume i: "i < os_size os" and Q: "?Q i s"
    then have sz: "i < os_size s" "os_size s = os_size os" by (auto simp: same_bytes_def)
    from flush_byte_write_step [of s i] Q sz obtain s' where s': "flush_byte_write i s = Some s'" "flush_step s i s'"
      "\<not> isByteConcrete s' i" "knownSymbolic s' i = None" by blast
    have "?Q (Suc i) s'"
      using Q s' sz(2) same_bytes_trans [of os s s'] unfolding flush_step_def by (metis less_Suc_eq)
    then show "\<exists>s'. flush_byte_write i s = Some s' \<and> ?Q (Suc i) s'" using s'(1) by blast
  qed
  then show ?thesis by (auto simp: flushRangeForWrite_def)
qed

end
