(* ===== verification/Object_Reads.thy ===== *)
theory Object_Reads
  imports Object_Bytes
begin

text \<open>
  The lazily created array of an object state, and the byte operations at symbolic offsets: they
  agree with the bytes at the offsets' values.
\<close>

subsection \<open>Lists of writes\<close>

definition apply_writes :: "env \<Rightarrow> int \<Rightarrow> (expr \<times> expr) list \<Rightarrow> int \<Rightarrow> int" where
  "apply_writes \<sigma> ix ws b = fold (\<lambda>(i, v) acc. if eval i \<sigma> = ix then eval v \<sigma> else acc) ws b"

lemma apply_writes_simps [simp]:
  "apply_writes \<sigma> ix [] b = b"
  "apply_writes \<sigma> ix ((i, v) # ws) b = apply_writes \<sigma> ix ws (if eval i \<sigma> = ix then eval v \<sigma> else b)"
  by (simp_all add: apply_writes_def)

lemma ulookup_writes: "default b (ulookup us \<sigma> ix) = apply_writes \<sigma> ix (uwrites us) b"
  by (induction us rule: uwrites.induct) (simp_all add: apply_writes_def)

lemma pull_concrete_spec:
  assumes "\<And>i v c. (i, v) \<in> set ws \<Longrightarrow> wf_expr i \<and> wf_expr v \<and> getWidth i = 32 \<and> getWidth v = 8"
    "\<And>i v c. (ConstantExpr c, v) \<in> set ws \<Longrightarrow> apval c < int (length cs)"
    "\<And>c. c \<in> set cs \<Longrightarrow> wf_apint c \<and> bitWidth c = 8"
  shows "\<exists>cs' ws'. pull_concrete cs ws = Some (cs', ws') \<and> length cs' = length cs \<and> set ws' \<subseteq> set ws \<and>
    (\<forall>c \<in> set cs'. wf_apint c \<and> bitWidth c = 8) \<and>
    (\<forall>\<sigma> k. k < length cs \<longrightarrow> apply_writes \<sigma> (int k) ws' (apval (cs' ! k)) = apply_writes \<sigma> (int k) ws (apval (cs ! k)))"
  using assms
proof (induction cs ws rule: pull_concrete.induct)
  case (1 contents i v ws)
  have i: "wf_apint i" "bitWidth i = 32" "wf_apint v" "bitWidth v = 8"
    using 1(2) [of "ConstantExpr i" "ConstantExpr v"] by auto
  then have b: "0 \<le> apval i" "apval i < int (length contents)"
    using 1(3) [of i "ConstantExpr v"] by (auto simp: wf_apint_def in_width_def)
  let ?cs = "contents[nat (apval i) := v]"
  have "\<exists>cs' ws'. pull_concrete ?cs ws = Some (cs', ws') \<and> length cs' = length ?cs \<and> set ws' \<subseteq> set ws \<and>
      (\<forall>c \<in> set cs'. wf_apint c \<and> bitWidth c = 8) \<and>
      (\<forall>\<sigma> k. k < length ?cs \<longrightarrow> apply_writes \<sigma> (int k) ws' (apval (cs' ! k)) = apply_writes \<sigma> (int k) ws (apval (?cs ! k)))"
  proof (rule 1(1))
    show "bitWidth i \<le> 64 \<and> apval i < int (length contents)" using i b by simp
    show "wf_apint c \<and> bitWidth c = 8" if "c \<in> set ?cs" for c
      using that 1(4) i set_update_subset_insert [of contents "nat (apval i)" v] by blast
  qed (use 1(2,3) in auto)
  then obtain cs' ws' where r: "pull_concrete ?cs ws = Some (cs', ws')" "length cs' = length contents" "set ws' \<subseteq> set ws"
    "\<forall>c \<in> set cs'. wf_apint c \<and> bitWidth c = 8"
    "\<And>\<sigma> k. k < length contents \<Longrightarrow> apply_writes \<sigma> (int k) ws' (apval (cs' ! k)) = apply_writes \<sigma> (int k) ws (apval (?cs ! k))"
    by auto
  have "apval (?cs ! k) = (if apval i = int k then apval v else apval (contents ! k))" if "k < length contents" for k
    using that b by (auto simp: nth_list_update)
  then have "\<And>\<sigma> k. k < length contents \<Longrightarrow> apply_writes \<sigma> (int k) ws' (apval (cs' ! k)) =
      apply_writes \<sigma> (int k) ((ConstantExpr i, ConstantExpr v) # ws) (apval (contents ! k))"
    using r(5) by simp
  then show ?case using r(1-4) i b by auto
qed auto

lemma extend_all_spec:
  assumes "updRoot os = Some a" "byte_array a" "\<And>i v. (i, v) \<in> set ws \<Longrightarrow> getWidth i = 32 \<and> getWidth v = 8"
  shows "\<exists>u. extend_all ws os = Some (os\<lparr>updHead := u\<rparr>) \<and> uwrites u = uwrites (updHead os) @ ws"
  using assms
proof (induction ws arbitrary: os)
  case Nil
  then show ?case by (intro exI [of _ "updHead os"]) simp
next
  case (Cons w ws)
  obtain i v where w: "w = (i, v)" by (cases w)
  let ?os = "os\<lparr>updHead := UpdateNode (updHead os) i v\<rparr>"
  have "os_extend i v os = Some ?os" using Cons.prems w by (intro os_extend_eq) auto
  moreover have "\<exists>u. extend_all ws ?os = Some (?os\<lparr>updHead := u\<rparr>) \<and> uwrites u = uwrites (updHead ?os) @ ws"
    using Cons.prems by (intro Cons.IH) auto
  ultimately show ?case using w by auto
qed

subsection \<open>The array of an object state\<close>

definition same_caches :: "object_state \<Rightarrow> object_state \<Rightarrow> bool" where
  "same_caches os os' \<longleftrightarrow> os_size os' = os_size os \<and> os_object os' = os_object os \<and> concreteStore os' = concreteStore os \<and>
     concreteMask os' = concreteMask os \<and> flushMask os' = flushMask os \<and> knownSymbolics os' = knownSymbolics os"

lemma same_caches_obs:
  assumes "same_caches os os'"
  shows "isByteConcrete os' = isByteConcrete os" "isByteFlushed os' = isByteFlushed os" "knownSymbolic os' = knownSymbolic os"
    "shape os' = shape os"
  using assms by (auto simp: same_caches_def isByteConcrete_def isByteFlushed_def knownSymbolic_def shape_def fun_eq_iff)

lemma same_caches_ok:
  assumes "os_ok os" "same_caches os os'" "wf_updates (updHead os')" "updRoot os' = Some a" "byte_array a"
    "\<And>\<sigma> j. j < os_size os \<Longrightarrow> stored \<sigma> os' (int j) = stored \<sigma> os (int j)"
  shows "os_ok os' \<and> same_bytes os os'"
proof -
  note obs = same_caches_obs [OF assms(2)]
  have v: "byte_val \<sigma> os' j = byte_val \<sigma> os j" if "j < os_size os" for \<sigma> j
    using assms(2,6) that by (simp add: byte_val_def obs same_caches_def)
  have "byte_ok os' j" if "j < os_size os" for j
    using assms(1) v [OF that] assms(6) [OF that] that by (simp add: os_ok_def byte_ok_def obs)
  then show ?thesis
    using assms v by (simp add: os_ok_def obs same_bytes_def same_caches_def)
qed

lemma getUpdates_spec:
  assumes "os_ok os" "0 < os_size os"
  shows "\<exists>a W' os'. getUpdates cfg (W, os) = Some (a, (W', os')) \<and> os_ok os' \<and> updRoot os' = Some a \<and>
    same_caches os os' \<and> same_bytes os os' \<and>
    (\<forall>\<sigma> j. j < os_size os \<longrightarrow> stored \<sigma> os' (int j) = stored \<sigma> os (int j))"
proof (cases "updRoot os")
  case (Some a)
  then show ?thesis using assms by (simp add: getUpdates_def same_caches_def)
next
  case None
  have w: "wf_updates (updHead os)" "const_bounded (os_size os) (updHead os)" "os_size os < 2 ^ 32"
    using assms None by (auto simp: os_ok_def shape_def bits_fit_def)
  let ?z = "ConstantExpr_alloc 0 8"
  have "ConstantExpr_create 0 8 = Some ?z" by (simp add: ConstantExpr_create_def)
  moreover obtain cs ws where p: "pull_concrete (replicate (os_size os) ?z) (uwrites (updHead os)) = Some (cs, ws)"
    "length cs = os_size os" "set ws \<subseteq> set (uwrites (updHead os))" "\<forall>c \<in> set cs. wf_apint c \<and> bitWidth c = 8"
    "\<And>\<sigma> k. k < os_size os \<Longrightarrow> apply_writes \<sigma> (int k) ws (apval (cs ! k)) = apply_writes \<sigma> (int k) (uwrites (updHead os)) 0"
    using pull_concrete_spec [of "uwrites (updHead os)" "replicate (os_size os) ?z"] w(1,2)
    by (fastforce simp: wf_updates_def const_bounded_def)
  moreover obtain a W' where a: "CreateArray (useCheatCons cfg) (''const_arr'' @ utostr (const_arr_id W + 1)) (os_size os)
      cs 32 8 (W\<lparr>const_arr_id := const_arr_id W + 1\<rparr>) = Some (a, W')" "constantValues a = cs" "arrSize a = os_size os"
    "arrDomain a = 32" "arrRange a = 8"
  proof (rule create_constant [of cs "os_size os" 8])
    show "cs \<noteq> []" using p(2) assms(2) by auto
  qed (use p(2,4) w(3) in \<open>auto simp: list_all_iff intro: that\<close>)
  have ba: "byte_array a"
    using a p(2,4) by (simp add: byte_array_def wf_array_def list_all_iff)
  let ?os = "os\<lparr>updRoot := Some a, updHead := NoUpdates\<rparr>"
  have ws: "\<And>i v. (i, v) \<in> set ws \<Longrightarrow> wf_expr i \<and> wf_expr v \<and> getWidth i = 32 \<and> getWidth v = 8"
    using p(3) w(1) by (auto simp: wf_updates_def)
  moreover obtain u where u: "extend_all ws ?os = Some (?os\<lparr>updHead := u\<rparr>)" "uwrites u = ws"
    using extend_all_spec [of ?os a ws] ba ws by auto
  let ?os' = "?os\<lparr>updHead := u\<rparr>"
  have st: "stored \<sigma> ?os' (int j) = stored \<sigma> os (int j)" if "j < os_size os" for \<sigma> j
  proof -
    have "initial \<sigma> a (int j) = apval (cs ! j)"
      using that a p(2) by (auto simp: initial_def isConstantArray_def isSymbolicArray_def)
    then show ?thesis
      using p(5) [OF that] None u(2) by (simp add: stored_def root_val_def ulookup_writes)
  qed
  have sc: "same_caches os ?os'" by (simp add: same_caches_def)
  have "os_ok ?os' \<and> same_bytes os ?os'"
    by (rule same_caches_ok [OF assms(1) sc _ _ ba st]) (use ws u(2) in \<open>auto simp: wf_updates_def\<close>)
  moreover have "getUpdates cfg (W, os) = Some (a, (W', ?os'))"
    using None calculation p(1) a(1) u(1) by (simp add: getUpdates_def)
  ultimately show ?thesis using sc st by auto
qed

subsection \<open>Reads of a byte\<close>

lemma read_stored:
  assumes "os_ok os" "updRoot os = Some a" "wf_expr i" "getWidth i = 32"
  shows "\<exists>e. Read_create a (updHead os) i = Some e \<and> wf_expr e \<and> getWidth e = 8 \<and>
    (\<forall>\<sigma>. env_ok \<sigma> \<longrightarrow> eval e \<sigma> = stored \<sigma> os (eval i \<sigma>))"
proof -
  have a: "byte_array a" "wf_updates (updHead os)" using assms(1,2) by (auto simp: os_ok_def)
  then have "wf_array a" "wf_ulist (updHead os) a" "arrDomain a = 32" "arrRange a = 8"
    by (simp_all add: wf_ulist_updates) (simp_all add: byte_array_def)
  moreover have "eval (ReadExpr a (updHead os) i) \<sigma> = stored \<sigma> os (eval i \<sigma>)" for \<sigma>
    using assms(2) by (simp add: stored_def root_val_def default_def)
  ultimately show ?thesis
    using Read_create_builds [of a "updHead os" i] assms(3,4) by (auto simp: builds_if_def)
qed

definition reads_byte :: "object_state \<Rightarrow> (env \<Rightarrow> bool) \<Rightarrow> (env \<Rightarrow> int) \<Rightarrow> (expr \<times> mstate) option \<Rightarrow> bool" where
  "reads_byte os P pos r \<longleftrightarrow> (\<exists>e W' os'. r = Some (e, (W', os')) \<and> os_ok os' \<and> same_bytes os os' \<and> wf_expr e \<and> getWidth e = 8 \<and>
     (\<forall>\<sigma>. env_ok \<sigma> \<and> P \<sigma> \<longrightarrow> eval e \<sigma> = byte_val \<sigma> os (nat (pos \<sigma>))))"

lemma read8_full:
  assumes "os_ok os" "i < os_size os"
  shows "\<exists>e W' os'. read8 cfg i (W, os) = Some (e, (W', os')) \<and> os_ok os' \<and> same_bytes os os' \<and> same_caches os os' \<and>
    wf_expr e \<and> getWidth e = 8 \<and> (\<forall>\<sigma>. env_ok \<sigma> \<longrightarrow> eval e \<sigma> = byte_val \<sigma> os i)"
proof (cases "isByteConcrete os i")
  case True
  obtain c where "ConstantExpr_create (uint (concreteStore os ! i)) 8 = Some c" "wf_apint c" "bitWidth c = 8"
    "apval c = uint (concreteStore os ! i)" by (rule const_byte)
  then show ?thesis using True assms by (auto simp: read8_def byte_val_def same_caches_def)
next
  case F: False
  have b: "byte_ok os i" using assms by (simp add: os_ok_def)
  show ?thesis
  proof (cases "knownSymbolic os i")
    case (Some e)
    then show ?thesis using F b assms by (auto simp: read8_def byte_val_def byte_ok_def same_caches_def)
  next
    case None
    then have fl: "isByteFlushed os i" using b F by (auto simp: byte_ok_def)
    obtain a W' os' where u: "getUpdates cfg (W, os) = Some (a, (W', os'))" "os_ok os'" "updRoot os' = Some a"
      "same_caches os os'" "same_bytes os os'" "\<And>\<sigma> j. j < os_size os \<Longrightarrow> stored \<sigma> os' (int j) = stored \<sigma> os (int j)"
      using getUpdates_spec [OF assms(1), of cfg W] assms(2) by auto
    have "shape os" using assms(1) by (simp add: os_ok_def)
    then obtain c where c: "ConstantExpr_create (int i) 32 = Some c" "wf_apint c" "bitWidth c = 32" "apval c = int i"
      using const_index [OF size_bound [OF _ assms(2)]] by blast
    obtain e where e: "Read_create a (updHead os') (ConstantExpr c) = Some e" "wf_expr e" "getWidth e = 8"
      "\<And>\<sigma>. env_ok \<sigma> \<Longrightarrow> eval e \<sigma> = stored \<sigma> os' (int i)"
      using read_stored [OF u(2,3), of "ConstantExpr c"] c(2-4) by auto
    have "read8 cfg i (W, os) = Some (e, (W', os'))"
      using assms(2) F None fl u(1) c(1) e(1) by (simp add: read8_def)
    then show ?thesis using u e F None assms(2) by (auto simp: byte_val_def)
  qed
qed

lemma read8_reads:
  "os_ok os \<Longrightarrow> i < os_size os \<Longrightarrow> reads_byte os (\<lambda>_. True) (\<lambda>_. int i) (read8 cfg i (W, os))"
  using read8_full [of os i cfg W] by (auto simp: reads_byte_def)

lemma ZExt_same: "getWidth e = w \<Longrightarrow> ZExt_create e w = Some e"
  by (simp add: ZExt_create_def)

lemma read8_sym_full:
  assumes "os_ok os" "0 < os_size os" "\<not> isConstantExpr off" "wf_expr off" "getWidth off = 32"
  shows "\<exists>e W' os'. read8_sym cfg off (W, os) = Some (e, (W', os')) \<and> os_ok os' \<and> same_bytes os os' \<and>
    concreteStore os' = concreteStore os \<and>
    (\<forall>j < os_size os. isByteConcrete os' j = isByteConcrete os j \<and> knownSymbolic os' j = knownSymbolic os j \<and> isByteFlushed os' j) \<and>
    wf_expr e \<and> getWidth e = 8 \<and>
    (\<forall>\<sigma>. env_ok \<sigma> \<and> eval off \<sigma> < int (os_size os) \<longrightarrow> eval e \<sigma> = byte_val \<sigma> os (nat (eval off \<sigma>)))"
proof -
  obtain os1 where f: "flushRangeForRead 0 (os_size os) os = Some os1" "os_ok os1" "same_bytes os os1"
    "concreteStore os1 = concreteStore os" "\<And>j. j < os_size os \<Longrightarrow> isByteFlushed os1 j \<and>
      isByteConcrete os1 j = isByteConcrete os j \<and> knownSymbolic os1 j = knownSymbolic os j"
    using flushRangeForRead_spec [OF assms(1)] by blast
  have sz: "os_size os1 = os_size os" using f(3) by (simp add: same_bytes_def)
  obtain a W' os2 where u: "getUpdates cfg (W, os1) = Some (a, (W', os2))" "os_ok os2" "updRoot os2 = Some a"
    "same_caches os1 os2" "same_bytes os1 os2" "\<And>\<sigma> j. j < os_size os \<Longrightarrow> stored \<sigma> os2 (int j) = stored \<sigma> os1 (int j)"
    using getUpdates_spec [OF f(2), of cfg W] sz assms(2) by auto
  obtain e where e: "Read_create a (updHead os2) off = Some e" "wf_expr e" "getWidth e = 8"
    "\<And>\<sigma>. env_ok \<sigma> \<Longrightarrow> eval e \<sigma> = stored \<sigma> os2 (eval off \<sigma>)"
    using read_stored [OF u(2,3) assms(4,5)] by blast
  have "eval e \<sigma> = byte_val \<sigma> os (nat (eval off \<sigma>))" if h: "env_ok \<sigma>" "eval off \<sigma> < int (os_size os)" for \<sigma>
  proof -
    have p: "0 \<le> eval off \<sigma>" using eval_in_width [OF h(1) assms(4)] by (rule in_width_nonneg)
    then obtain j where j: "j < os_size os" "eval off \<sigma> = int j"
      using h(2) by (metis nonneg_int_cases of_nat_less_iff)
    have "stored \<sigma> os2 (int j) = stored \<sigma> os1 (int j)" using u(6) j(1) by blast
    also have "\<dots> = byte_val \<sigma> os1 j"
      using f(2) f(5) [OF j(1)] j(1) sz h(1) by (simp add: os_ok_def byte_ok_def)
    also have "\<dots> = byte_val \<sigma> os j" using f(3) j(1) h(1) by (simp add: same_bytes_def)
    finally show ?thesis using e(4) [OF h(1)] j(2) by simp
  qed
  moreover have "read8_sym cfg off (W, os) = Some (e, (W', os2))"
    using assms(3) f(1) u(1) e(1) ZExt_same [OF assms(5)] by (simp add: read8_sym_def fastRangeCheckOffset_def)
  moreover have "concreteStore os2 = concreteStore os" using u(4) f(4) by (simp add: same_caches_def)
  ultimately show ?thesis
    using u(2) e(2,3) f(5) same_bytes_trans [OF f(3) u(5)] same_caches_obs [OF u(4)] by auto
qed

lemma read8_sym_reads:
  assumes "os_ok os" "0 < os_size os" "\<not> isConstantExpr off" "wf_expr off" "getWidth off = 32"
  shows "reads_byte os (\<lambda>\<sigma>. eval off \<sigma> < int (os_size os)) (eval off) (read8_sym cfg off (W, os))"
  using read8_sym_full [OF assms, of cfg W] by (auto simp: reads_byte_def)

subsection \<open>Writes of a byte at a symbolic offset\<close>

lemma write8_sym_full:
  assumes "os_ok os" "\<not> isConstantExpr off" "wf_expr off" "getWidth off = 32" "wf_expr v" "getWidth v = 8"
  shows "\<exists>os'. write8_sym off v os = Some os' \<and> puts os (eval off) (eval v) os' \<and> concreteStore os' = concreteStore os \<and>
    (\<forall>j < os_size os. isByteFlushed os' j \<and> \<not> isByteConcrete os' j \<and> knownSymbolic os' j = None)"
proof -
  obtain os1 where f: "flushRangeForWrite 0 (os_size os) os = Some os1" "os_ok os1" "same_bytes os os1"
    "concreteStore os1 = concreteStore os"
    "\<And>j. j < os_size os \<Longrightarrow> isByteFlushed os1 j \<and> \<not> isByteConcrete os1 j \<and> knownSymbolic os1 j = None"
    using flushRangeForWrite_spec [OF assms(1)] by blast
  have sz: "os_size os1 = os_size os" "os_object os1 = os_object os" using f(3) by (auto simp: same_bytes_def)
  let ?os = "os1\<lparr>updHead := UpdateNode (updHead os1) off v\<rparr>"
  have "os_extend off v os1 = Some ?os" using f(2) assms(4,6) by (intro os_extend_eq) (auto simp: os_ok_def)
  then have w: "write8_sym off v os = Some ?os"
    using assms(2) f(1) ZExt_same [OF assms(4)] by (simp add: write8_sym_def fastRangeCheckOffset_def)
  have vals: "byte_val \<sigma> ?os j = (if int j = eval off \<sigma> then eval v \<sigma> else byte_val \<sigma> os j)"
    if "env_ok \<sigma>" "j < os_size os" for \<sigma> j
  proof -
    have "byte_val \<sigma> ?os j = stored \<sigma> ?os (int j)" "byte_val \<sigma> os1 j = stored \<sigma> os1 (int j)"
      using f(5) [OF that(2)] by (simp_all add: byte_val_def)
    then show ?thesis using f(3) that by (auto simp: stored_extend same_bytes_def)
  qed
  have "byte_ok ?os j" if "j < os_size os" for j
    using f(5) [OF that] by (simp add: byte_ok_def byte_val_def)
  moreover have "wf_updates (UpdateNode (updHead os1) off v)"
    "updRoot os1 = None \<Longrightarrow> const_bounded (os_size os1) (UpdateNode (updHead os1) off v)"
    using extend_ok [OF f(2) assms(3-6)] assms(2) by (metis isConstantExpr.simps(1))+
  ultimately have "os_ok ?os" using f(2) sz by (simp add: os_ok_def)
  then have "puts os (eval off) (eval v) ?os" using vals sz by (simp add: puts_def)
  then show ?thesis using w f(4,5) by auto
qed

end
