(* ===== verification/Object_Access.thy ===== *)
theory Object_Access
  imports Object_Reads Int_Eval
begin

text \<open>
  Reads and writes of several bytes (\<open>ObjectState::read\<close> and \<open>ObjectState::write\<close> of
  \<^verbatim>\<open>klee/lib/Core/Memory.cpp\<close>), with the fast path of TASE that returns the bytes of the store when
  none carries the poison tag (\<open>tase_buf_has_taint\<close> of \<^verbatim>\<open>klee/lib/Core/Executor.cpp\<close>). The loops
  are the same at constant and at symbolic offsets; the two locales are what they rely on.
\<close>

subsection \<open>The poison tag\<close>

text \<open>The 16-bit word at an offset; the host is little endian.\<close>

definition half_at :: "object_state \<Rightarrow> nat \<Rightarrow> 16 word option" where
  "half_at os off =
     (if off + 1 < os_size os
      then Some (ucast (concreteStore os ! off) OR push_bit 8 (ucast (concreteStore os ! (off + 1)))) else None)"

definition poison_val :: "16 word" where
  "poison_val = 0xDEAD"

text \<open>The parity of the address of a byte.\<close>

definition odd_address :: "object_state \<Rightarrow> nat \<Rightarrow> bool" where
  "odd_address os off \<longleftrightarrow> odd (unat (moAddress (os_object os)) + off)"

text \<open>
  The two loops. \<open>end - x > 0\<close> is a difference of pointers to 16-bit words, which is undefined where the
  two addresses are an odd number of bytes apart.
\<close>

function taint_loop2 :: "object_state \<Rightarrow> nat \<Rightarrow> nat \<Rightarrow> bool option" where
  "taint_loop2 os x fin =
     (if odd (x + fin) then None
      else if x < fin then do { h \<leftarrow> half_at os x; (if h = poison_val then Some True else taint_loop2 os (x + 2) fin) }
      else Some False)"
  by auto
termination by (relation "measure (\<lambda>(os, x, fin). fin - x)") auto

function taint_loop4 :: "object_state \<Rightarrow> nat \<Rightarrow> nat \<Rightarrow> bool option" where
  "taint_loop4 os x fin =
     (if odd (x + fin) then None
      else if x < fin then
        do { h \<leftarrow> half_at os x;
             hit \<leftarrow> (if h = poison_val then map_option (\<lambda>h2. h2 = poison_val) (half_at os (x + 2)) else Some False);
             (if hit then Some True else taint_loop4 os (x + 4) fin) }
      else Some False)"
  by auto
termination by (relation "measure (\<lambda>(os, x, fin). fin - x)") auto

declare taint_loop2.simps [simp del] taint_loop4.simps [simp del]

definition tase_buf_has_taint :: "mem_config \<Rightarrow> object_state \<Rightarrow> nat \<Rightarrow> nat \<Rightarrow> bool option" where
  "tase_buf_has_taint cfg os off n =
     (if odd_address os off \<and> off = 0 then None
      else (let start = (if odd_address os off then off - 1 else off) in
        if poisonSize cfg = 2 then taint_loop2 os start (off + n) else taint_loop4 os start (off + n)))"

subsection \<open>Reads\<close>

definition byte_index :: "bool \<Rightarrow> nat \<Rightarrow> nat \<Rightarrow> nat" where
  "byte_index le n i = (if le then i else n - i - 1)"

primrec read_loop :: "(nat \<Rightarrow> 's \<Rightarrow> (expr \<times> 's) option) \<Rightarrow> bool \<Rightarrow> nat \<Rightarrow> nat \<Rightarrow> 's \<Rightarrow> (expr \<times> 's) option" where
  "read_loop rd le n 0 s = None"
| "read_loop rd le n (Suc i) s =
     (if i = 0 then rd (byte_index le n 0) s
      else do { (res, s1) \<leftarrow> read_loop rd le n i s;
                (b, s2) \<leftarrow> rd (byte_index le n i) s1;
                e \<leftarrow> Concat_create b res;
                Some (e, s2) })"

definition native_value :: "object_state \<Rightarrow> nat \<Rightarrow> nat \<Rightarrow> int" where
  "native_value os off n = le_bytes (\<lambda>i. uint (concreteStore os ! (off + i))) n"

definition read_slow :: "mem_config \<Rightarrow> nat \<Rightarrow> nat \<Rightarrow> mstate \<Rightarrow> (expr \<times> mstate) option" where
  "read_slow cfg off n s =
     read_loop (\<lambda>k. read8 cfg (u32 (off + k))) (isLittleEndian cfg) n n s"

definition read_const :: "mem_config \<Rightarrow> nat \<Rightarrow> nat \<Rightarrow> mstate \<Rightarrow> (expr \<times> mstate) option" where
  "read_const cfg off w s =
     (if w = 1 then do { (b, s') \<leftarrow> read8 cfg off s; e \<leftarrow> Extract_create b 0 1; Some (e, s') }
      else if w \<noteq> 8 * (w div 8) then None
      else if w div 8 \<in> {2, 4, 8} then
        do { t \<leftarrow> tase_buf_has_taint cfg (snd s) off (w div 8);
             (if t then read_slow cfg off (w div 8) s
              else if off + w div 8 \<le> os_size (snd s)
              then do { c \<leftarrow> ConstantExpr_create (native_value (snd s) off (w div 8)) w; Some (ConstantExpr c, s) }
              else None) }
      else read_slow cfg off (w div 8) s)"

definition read8_at :: "mem_config \<Rightarrow> expr \<Rightarrow> nat \<Rightarrow> mstate \<Rightarrow> (expr \<times> mstate) option" where
  "read8_at cfg off k s =
     do { c \<leftarrow> ConstantExpr_create (int k) 32; a \<leftarrow> Add_create off (ConstantExpr c); read8_sym cfg a s }"

definition read_expr :: "mem_config \<Rightarrow> expr \<Rightarrow> nat \<Rightarrow> mstate \<Rightarrow> (expr \<times> mstate) option" where
  "read_expr cfg offset w s =
     do { off \<leftarrow> ZExt_create offset 32;
          (case off of
             ConstantExpr c \<Rightarrow> read_const cfg (nat (apval c)) w s
           | _ \<Rightarrow>
             (if w = 1 then do { (b, s') \<leftarrow> read8_sym cfg off s; e \<leftarrow> Extract_create b 0 1; Some (e, s') }
              else if w \<noteq> 8 * (w div 8) then None
              else read_loop (read8_at cfg off) (isLittleEndian cfg) (w div 8) (w div 8) s)) }"

subsection \<open>Writes\<close>

primrec write_loop :: "(nat \<Rightarrow> nat \<Rightarrow> 's \<Rightarrow> 's option) \<Rightarrow> bool \<Rightarrow> nat \<Rightarrow> nat \<Rightarrow> 's \<Rightarrow> 's option" where
  "write_loop wr le n 0 s = Some s"
| "write_loop wr le n (Suc i) s = Option.bind (write_loop wr le n i s) (wr (byte_index le n i) i)"

text \<open>\<open>write16\<close>, \<open>write32\<close> and \<open>write64\<close> differ in the number of bytes.\<close>

definition write_int :: "mem_config \<Rightarrow> nat \<Rightarrow> nat \<Rightarrow> 64 word \<Rightarrow> object_state \<Rightarrow> object_state option" where
  "write_int cfg off n v os =
     write_loop (\<lambda>k i. write8 (u32 (off + k)) (ucast (drop_bit (8 * i) v))) (isLittleEndian cfg) n n os"

definition write_slow :: "mem_config \<Rightarrow> nat \<Rightarrow> expr \<Rightarrow> object_state \<Rightarrow> object_state option" where
  "write_slow cfg off v os =
     (let w = getWidth v in
      if w = 1 then Option.bind (ZExt_create v 8) (\<lambda>z. write8_expr off z os)
      else if w \<noteq> 8 * (w div 8) then None
      else write_loop (\<lambda>k i os. Option.bind (Extract_create v (8 * i) 8) (\<lambda>b. write8_expr (u32 (off + k)) b os))
             (isLittleEndian cfg) (w div 8) (w div 8) os)"

definition write_const :: "mem_config \<Rightarrow> nat \<Rightarrow> expr \<Rightarrow> object_state \<Rightarrow> object_state option" where
  "write_const cfg off v os =
     (case v of
        ConstantExpr c \<Rightarrow>
          (let w = bitWidth c; x = (word_of_int (apval c) :: 64 word) in
           if w \<le> 64 \<and> bits64_isPowerOfTwo (of_nat w) then
             (if w = 1 \<or> w = 8 then write8 off (ucast x) os
              else if w = 16 \<or> w = 32 \<or> w = 64 then write_int cfg off (w div 8) x os
              else None)
           else write_slow cfg off v os)
      | _ \<Rightarrow> write_slow cfg off v os)"

definition write8_at :: "expr \<Rightarrow> expr \<Rightarrow> nat \<Rightarrow> nat \<Rightarrow> object_state \<Rightarrow> object_state option" where
  "write8_at off v k i os =
     do { c \<leftarrow> ConstantExpr_create (int k) 32;
          a \<leftarrow> Add_create off (ConstantExpr c);
          b \<leftarrow> Extract_create v (8 * i) 8;
          write8_sym a b os }"

definition write_expr :: "mem_config \<Rightarrow> expr \<Rightarrow> expr \<Rightarrow> object_state \<Rightarrow> object_state option" where
  "write_expr cfg offset v os =
     do { off \<leftarrow> ZExt_create offset 32;
          (case off of
             ConstantExpr c \<Rightarrow> write_const cfg (nat (apval c)) v os
           | _ \<Rightarrow>
             (let w = getWidth v in
              if w = 1 then Option.bind (ZExt_create v 8) (\<lambda>z. write8_sym off z os)
              else if w \<noteq> 8 * (w div 8) then None
              else write_loop (write8_at off v) (isLittleEndian cfg) (w div 8) (w div 8) os)) }"

subsection \<open>The loop of a read\<close>

lemma le_bytes_cong: "(\<And>i. i < n \<Longrightarrow> f i = g i) \<Longrightarrow> le_bytes f n = le_bytes g n"
  by (induction n) auto

text \<open>
  What the loop of a read relies on: the byte at each of the \<open>n\<close> places is read with its value, and
  reading changes no byte.
\<close>

locale byte_reader =
  fixes ok :: "'s \<Rightarrow> bool" and same :: "'s \<Rightarrow> 's \<Rightarrow> bool" and rd :: "nat \<Rightarrow> 's \<Rightarrow> (expr \<times> 's) option"
    and val :: "env \<Rightarrow> 's \<Rightarrow> nat \<Rightarrow> int" and adm :: "env \<Rightarrow> bool" and n :: nat
  assumes same_refl: "same s s"
    and same_trans: "same s s' \<Longrightarrow> same s' s'' \<Longrightarrow> same s s''"
    and same_val: "same s s' \<Longrightarrow> ok s \<Longrightarrow> env_ok \<sigma> \<Longrightarrow> adm \<sigma> \<Longrightarrow> k < n \<Longrightarrow> val \<sigma> s' k = val \<sigma> s k"
    and rd_byte: "ok s \<Longrightarrow> k < n \<Longrightarrow> \<exists>e s'. rd k s = Some (e, s') \<and> ok s' \<and> same s s' \<and> wf_expr e \<and> getWidth e = 8 \<and>
      (\<forall>\<sigma>. env_ok \<sigma> \<and> adm \<sigma> \<longrightarrow> eval e \<sigma> = val \<sigma> s k)"
begin

lemma index_less: "i < n \<Longrightarrow> byte_index le n i < n"
  by (auto simp: byte_index_def)

lemma read_loop_value:
  assumes "ok s" "0 < m" "m \<le> n"
  shows "\<exists>e s'. read_loop rd le n m s = Some (e, s') \<and> ok s' \<and> same s s' \<and> wf_expr e \<and> getWidth e = 8 * m \<and>
    (\<forall>\<sigma>. env_ok \<sigma> \<and> adm \<sigma> \<longrightarrow> eval e \<sigma> = le_bytes (\<lambda>i. val \<sigma> s (byte_index le n i)) m)"
  using assms(2,3)
proof (induction m)
  case (Suc m)
  have k: "byte_index le n m < n" using Suc.prems by (intro index_less) simp
  show ?case
  proof (cases "m = 0")
    case True
    then show ?thesis using rd_byte [OF assms(1) k] by auto
  next
    case False
    then obtain res s1 where r: "read_loop rd le n m s = Some (res, s1)" "ok s1" "same s s1" "wf_expr res" "getWidth res = 8 * m"
      "\<And>\<sigma>. env_ok \<sigma> \<Longrightarrow> adm \<sigma> \<Longrightarrow> eval res \<sigma> = le_bytes (\<lambda>i. val \<sigma> s (byte_index le n i)) m"
      using Suc by auto
    obtain b s2 where b: "rd (byte_index le n m) s1 = Some (b, s2)" "ok s2" "same s1 s2" "wf_expr b" "getWidth b = 8"
      "\<And>\<sigma>. env_ok \<sigma> \<Longrightarrow> adm \<sigma> \<Longrightarrow> eval b \<sigma> = val \<sigma> s1 (byte_index le n m)"
      using rd_byte [OF r(2) k] by auto
    obtain e where e: "Concat_create b res = Some e" "wf_expr e" "getWidth e = 8 + 8 * m"
      "\<And>\<sigma>. env_ok \<sigma> \<Longrightarrow> eval e \<sigma> = eval b \<sigma> * 2 ^ (8 * m) + eval res \<sigma>"
      using Concat_Extract_builds(1) [OF b(4) r(4)] b(5) r(5) by (auto simp: builds_if_def)
    have "read_loop rd le n (Suc m) s = Some (e, s2)" using False r(1) b(1) e(1) by simp
    moreover have "eval e \<sigma> = le_bytes (\<lambda>i. val \<sigma> s (byte_index le n i)) (Suc m)" if "env_ok \<sigma>" "adm \<sigma>" for \<sigma>
      using e(4) b(6) r(6) that same_val [OF r(3) assms(1) that k] by simp
    ultimately show ?thesis using b(2) e(2,3) same_trans [OF r(3) b(3)] by auto
  qed
qed simp

end

subsection \<open>The loop of a write\<close>

locale byte_writer =
  fixes ok :: "'s \<Rightarrow> bool" and val :: "env \<Rightarrow> 's \<Rightarrow> nat \<Rightarrow> int" and size :: nat
    and wr :: "nat \<Rightarrow> nat \<Rightarrow> 's \<Rightarrow> 's option" and pos :: "nat \<Rightarrow> env \<Rightarrow> int" and src :: "nat \<Rightarrow> env \<Rightarrow> int" and n :: nat
  assumes pos_inj: "env_ok \<sigma> \<Longrightarrow> k < n \<Longrightarrow> k' < n \<Longrightarrow> pos k \<sigma> = pos k' \<sigma> \<Longrightarrow> k = k'"
    and wr_byte: "ok s \<Longrightarrow> k < n \<Longrightarrow> i < n \<Longrightarrow> \<exists>s'. wr k i s = Some s' \<and> ok s' \<and>
      (\<forall>\<sigma> j. env_ok \<sigma> \<longrightarrow> j < size \<longrightarrow> val \<sigma> s' j = (if int j = pos k \<sigma> then src i \<sigma> else val \<sigma> s j))"
begin

lemma index_inj: "i < n \<Longrightarrow> j < n \<Longrightarrow> byte_index le n i = byte_index le n j \<Longrightarrow> i = j"
  by (auto simp: byte_index_def split: if_splits)

lemma write_loop_value:
  assumes "ok s" "m \<le> n"
  shows "\<exists>s'. write_loop wr le n m s = Some s' \<and> ok s' \<and>
    (\<forall>\<sigma> j. env_ok \<sigma> \<longrightarrow> j < size \<longrightarrow>
       (\<forall>i < m. int j = pos (byte_index le n i) \<sigma> \<longrightarrow> val \<sigma> s' j = src i \<sigma>) \<and>
       ((\<forall>i < m. int j \<noteq> pos (byte_index le n i) \<sigma>) \<longrightarrow> val \<sigma> s' j = val \<sigma> s j))"
  using assms(2)
proof (induction m)
  case (Suc m)
  then obtain s1 where s1: "write_loop wr le n m s = Some s1" "ok s1"
    "\<And>\<sigma> j i. env_ok \<sigma> \<Longrightarrow> j < size \<Longrightarrow> i < m \<Longrightarrow> int j = pos (byte_index le n i) \<sigma> \<Longrightarrow> val \<sigma> s1 j = src i \<sigma>"
    "\<And>\<sigma> j. env_ok \<sigma> \<Longrightarrow> j < size \<Longrightarrow> (\<forall>i < m. int j \<noteq> pos (byte_index le n i) \<sigma>) \<Longrightarrow> val \<sigma> s1 j = val \<sigma> s j"
    by auto
  have k: "byte_index le n m < n" using Suc.prems by (auto simp: byte_index_def)
  obtain s2 where s2: "wr (byte_index le n m) m s1 = Some s2" "ok s2"
    "\<And>\<sigma> j. env_ok \<sigma> \<Longrightarrow> j < size \<Longrightarrow> val \<sigma> s2 j = (if int j = pos (byte_index le n m) \<sigma> then src m \<sigma> else val \<sigma> s1 j)"
    using wr_byte [OF s1(2) k Suc_le_lessD [OF Suc.prems]] by blast
  have "val \<sigma> s2 j = src i \<sigma>" if "env_ok \<sigma>" "j < size" "i < Suc m" "int j = pos (byte_index le n i) \<sigma>" for \<sigma> j i
  proof (cases "i = m")
    case False
    have "byte_index le n i < n" using that(3) Suc.prems by (auto simp: byte_index_def)
    moreover have "byte_index le n i \<noteq> byte_index le n m" using index_inj [of i m le] that(3) False Suc.prems by auto
    ultimately have "pos (byte_index le n i) \<sigma> \<noteq> pos (byte_index le n m) \<sigma>"
      using pos_inj [OF that(1) _ k] by blast
    then show ?thesis using s2(3) s1(3) that False by simp
  qed (use s2(3) that in simp)
  moreover have "val \<sigma> s2 j = val \<sigma> s j" if "env_ok \<sigma>" "j < size" "\<forall>i < Suc m. int j \<noteq> pos (byte_index le n i) \<sigma>" for \<sigma> j
    using s2(3) [OF that(1,2)] s1(4) [OF that(1,2)] that(3) by simp
  moreover have "write_loop wr le n (Suc m) s = Some s2" using s1(1) s2(1) by simp
  ultimately show ?case using s2(2) by blast
qed (simp add: assms(1))

end

subsection \<open>The loops at constant and at symbolic offsets\<close>

definition same_mem :: "mstate \<Rightarrow> mstate \<Rightarrow> bool" where
  "same_mem s s' \<longleftrightarrow> same_bytes (snd s) (snd s')"

interpretation const_reader: byte_reader "\<lambda>s. os_ok (snd s) \<and> off + n \<le> os_size (snd s)" same_mem
    "\<lambda>k. read8 cfg (u32 (off + k))" "\<lambda>\<sigma> s k. byte_val \<sigma> (snd s) (off + k)" "\<lambda>_. True" n
  for cfg :: mem_config and off n :: nat
proof
  fix s s' s'' :: mstate and \<sigma> k
  show "same_mem s s" by (simp add: same_mem_def)
  show "same_mem s s''" if "same_mem s s'" "same_mem s' s''"
    using that by (auto simp: same_mem_def elim: same_bytes_trans)
  show "byte_val \<sigma> (snd s') (off + k) = byte_val \<sigma> (snd s) (off + k)"
    if "same_mem s s'" "os_ok (snd s) \<and> off + n \<le> os_size (snd s)" "env_ok \<sigma>" "True" "k < n"
    using that by (simp add: same_mem_def same_bytes_def)
  show "\<exists>e s'. read8 cfg (u32 (off + k)) s = Some (e, s') \<and> (os_ok (snd s') \<and> off + n \<le> os_size (snd s')) \<and>
      same_mem s s' \<and> wf_expr e \<and> getWidth e = 8 \<and> (\<forall>\<sigma>. env_ok \<sigma> \<and> True \<longrightarrow> eval e \<sigma> = byte_val \<sigma> (snd s) (off + k))"
    if h: "os_ok (snd s) \<and> off + n \<le> os_size (snd s)" "k < n"
  proof -
    have b: "off + k < os_size (snd s)" using h by simp
    then have m: "u32 (off + k) = off + k"
      using size_bound [of "snd s"] h(1) by (simp add: os_ok_def)
    from read8_full [OF conjunct1 [OF h(1)] b, of cfg "fst s"] obtain e W' os' where
      r: "read8 cfg (off + k) s = Some (e, (W', os'))" "os_ok os'" "same_bytes (snd s) os'" "wf_expr e" "getWidth e = 8"
      "\<forall>\<sigma>. env_ok \<sigma> \<longrightarrow> eval e \<sigma> = byte_val \<sigma> (snd s) (off + k)" by auto
    moreover have "os_size os' = os_size (snd s)" using r(3) by (simp add: same_bytes_def)
    ultimately show ?thesis using h(1) unfolding m by (intro exI [of _ e] exI [of _ "(W', os')"]) (simp add: same_mem_def)
  qed
qed

text \<open>The offsets of the bytes of a read or write at a symbolic offset are symbolic themselves.\<close>

definition symbolic_offsets :: "expr \<Rightarrow> nat \<Rightarrow> bool" where
  "symbolic_offsets off n \<longleftrightarrow> wf_expr off \<and> getWidth off = 32 \<and> int n \<le> 2 ^ 32 \<and>
     list_all (\<lambda>k. case Add_create off (ConstantExpr (APInt 32 (int k))) of Some a \<Rightarrow> \<not> isConstantExpr a | None \<Rightarrow> False) [0..<n]"

definition offset_at :: "expr \<Rightarrow> nat \<Rightarrow> env \<Rightarrow> int" where
  "offset_at off k \<sigma> = take_bit 32 (eval off \<sigma> + int k)"

lemma symbolic_offset_at:
  assumes "symbolic_offsets off n" "k < n"
  obtains c a where "ConstantExpr_create (int k) 32 = Some c" "Add_create off (ConstantExpr c) = Some a"
    "\<not> isConstantExpr a" "wf_expr a" "getWidth a = 32" "\<And>\<sigma>. env_ok \<sigma> \<Longrightarrow> eval a \<sigma> = offset_at off k \<sigma>"
proof -
  have k: "k < 2 ^ 32" "in_width 32 (int k)" using assms by (auto simp: symbolic_offsets_def in_width_def)
  then have c: "ConstantExpr_create (int k) 32 = Some (APInt 32 (int k))" "wf_apint (APInt 32 (int k))"
    by (simp_all add: ConstantExpr_create_def ConstantExpr_alloc_def wf_apint_def)
  have "\<not> isConstantExpr a" if "Add_create off (ConstantExpr (APInt 32 (int k))) = Some a" for a
  proof -
    have "case Add_create off (ConstantExpr (APInt 32 (int k))) of Some a \<Rightarrow> \<not> isConstantExpr a | None \<Rightarrow> False"
      using assms by (simp add: symbolic_offsets_def list_all_iff)
    then show ?thesis by (simp add: that)
  qed
  moreover have "builds (Add_create off (ConstantExpr (APInt 32 (int k)))) 32 (offset_at off k)"
    using sum.mk_builds [of off "ConstantExpr (APInt 32 (int k))"] c(2) assms(1)
    by (simp add: symbolic_offsets_def offset_at_def [abs_def])
  ultimately show thesis using that c(1) by (auto simp: builds_if_def)
qed

lemma offset_nonneg: "0 \<le> offset_at off k \<sigma>"
  by (simp add: offset_at_def)

interpretation sym_reader: byte_reader
    "\<lambda>s. os_ok (snd s) \<and> os_size (snd s) = sz \<and> 0 < sz \<and> symbolic_offsets off n" same_mem
    "read8_at cfg off" "\<lambda>\<sigma> s k. byte_val \<sigma> (snd s) (nat (offset_at off k \<sigma>))"
    "\<lambda>\<sigma>. \<forall>k < n. offset_at off k \<sigma> < int sz" n
  for cfg :: mem_config and off :: expr and sz n :: nat
proof
  fix s s' s'' :: mstate and \<sigma> k
  show "same_mem s s" by (simp add: same_mem_def)
  show "same_mem s s''" if "same_mem s s'" "same_mem s' s''"
    using that by (auto simp: same_mem_def elim: same_bytes_trans)
  show "byte_val \<sigma> (snd s') (nat (offset_at off k \<sigma>)) = byte_val \<sigma> (snd s) (nat (offset_at off k \<sigma>))"
    if "same_mem s s'" "os_ok (snd s) \<and> os_size (snd s) = sz \<and> 0 < sz \<and> symbolic_offsets off n" "env_ok \<sigma>"
      "\<forall>k < n. offset_at off k \<sigma> < int sz" "k < n"
  proof -
    have "nat (offset_at off k \<sigma>) < os_size (snd s)" using that offset_nonneg [of off k \<sigma>] by (simp add: nat_less_iff)
    then show ?thesis using that by (simp add: same_mem_def same_bytes_def)
  qed
  show "\<exists>e s'. read8_at cfg off k s = Some (e, s') \<and>
      (os_ok (snd s') \<and> os_size (snd s') = sz \<and> 0 < sz \<and> symbolic_offsets off n) \<and> same_mem s s' \<and> wf_expr e \<and> getWidth e = 8 \<and>
      (\<forall>\<sigma>. env_ok \<sigma> \<and> (\<forall>k < n. offset_at off k \<sigma> < int sz) \<longrightarrow> eval e \<sigma> = byte_val \<sigma> (snd s) (nat (offset_at off k \<sigma>)))"
    if h: "os_ok (snd s) \<and> os_size (snd s) = sz \<and> 0 < sz \<and> symbolic_offsets off n" "k < n"
  proof -
    obtain c a where a: "ConstantExpr_create (int k) 32 = Some c" "Add_create off (ConstantExpr c) = Some a"
      "\<not> isConstantExpr a" "wf_expr a" "getWidth a = 32" "\<And>\<sigma>. env_ok \<sigma> \<Longrightarrow> eval a \<sigma> = offset_at off k \<sigma>"
      using symbolic_offset_at [of off n k thesis] h by blast
    have "reads_byte (snd s) (\<lambda>\<sigma>. eval a \<sigma> < int sz) (eval a) (read8_sym cfg a s)"
      using read8_sym_reads [of "snd s" a cfg "fst s"] h a(3-5) by simp
    then obtain e W' os' where r: "read8_sym cfg a s = Some (e, (W', os'))" "os_ok os'" "same_bytes (snd s) os'"
      "wf_expr e" "getWidth e = 8" "\<And>\<sigma>. env_ok \<sigma> \<Longrightarrow> eval a \<sigma> < int sz \<Longrightarrow> eval e \<sigma> = byte_val \<sigma> (snd s) (nat (eval a \<sigma>))"
      by (auto simp: reads_byte_def)
    have "os_size os' = sz" using r(3) h(1) by (simp add: same_bytes_def)
    moreover have "read8_at cfg off k s = Some (e, (W', os'))" using a(1,2) r(1) by (simp add: read8_at_def)
    ultimately show ?thesis
      using h r(2-6) a(6) by (intro exI [of _ e] exI [of _ "(W', os')"]) (simp add: same_mem_def)
  qed
qed

end
