(* ===== verification/Object_Values.thy ===== *)
theory Object_Values
  imports Object_Access
begin

text \<open>
  Reads and writes of several bytes against the bytes of an object state: the value read is made
  of the bytes at the offsets, a write replaces exactly those, at constant and at symbolic offsets.
\<close>

subsection \<open>The bytes of a value\<close>

definition byte_of :: "int \<Rightarrow> nat \<Rightarrow> int" where
  "byte_of x i = take_bit 8 (x div 2 ^ (8 * i))"

lemma le_bytes_of: "le_bytes (byte_of x) n = take_bit (8 * n) x"
proof (induction n)
  case (Suc n)
  have "take_bit (8 * Suc n) x = x mod (2 ^ (8 * n) * 2 ^ 8)"
    unfolding take_bit_eq_mod mult_Suc_right power_add [symmetric] by (simp add: add.commute)
  also have "\<dots> = 2 ^ (8 * n) * (x div 2 ^ (8 * n) mod 2 ^ 8) + x mod 2 ^ (8 * n)"
    by (rule zmod_zmult2_eq) simp
  finally show ?case using Suc by (simp add: byte_of_def take_bit_eq_mod)
qed simp

lemma in_width_byte_of [simp]: "in_width 8 (byte_of x i)"
  by (simp add: byte_of_def)

lemma byte_ucast: "uint (ucast (drop_bit (8 * i) (x :: 64 word)) :: 8 word) = byte_of (uint x) i"
proof -
  have "uint (drop_bit (8 * i) x) = uint x div 2 ^ (8 * i)"
    using take_bit_in_width [of 64 "uint x"] uint_lt2p [of x]
    by (subst unsigned_drop_bit_eq) (simp add: drop_bit_eq_div in_width_def)
  then show ?thesis unfolding byte_of_def by (subst unsigned_ucast_eq) simp
qed

subsection \<open>The loops of a write\<close>

interpretation const_writer: byte_writer
    "\<lambda>os. os_ok os \<and> os_size os = sz \<and> os_object os = ob \<and> off + n \<le> sz \<and> wf_expr v \<and> getWidth v = 8 * n" byte_val sz
    "\<lambda>k i os. Option.bind (Extract_create v (8 * i) 8) (\<lambda>b. write8_expr (u32 (off + k)) b os)"
    "\<lambda>k _. int (off + k)" "\<lambda>i \<sigma>. byte_of (eval v \<sigma>) i" n
  for off n sz :: nat and ob v
proof
  fix s :: object_state and k i :: nat
  assume h: "os_ok s \<and> os_size s = sz \<and> os_object s = ob \<and> off + n \<le> sz \<and> wf_expr v \<and> getWidth v = 8 * n" "k < n" "i < n"
  have b: "off + k < os_size s" using h by simp
  then have m: "u32 (off + k) = off + k" using size_bound [of s] h(1) by (simp add: os_ok_def)
  obtain x where x: "Extract_create v (8 * i) 8 = Some x" "wf_expr x" "getWidth x = 8"
    "\<And>\<sigma>. env_ok \<sigma> \<Longrightarrow> eval x \<sigma> = byte_of (eval v \<sigma>) i"
    using Concat_Extract_builds(2) [of v 8 "8 * i"] h by (auto simp: builds_if_def byte_of_def)
  then obtain s' where "write8_expr (off + k) x s = Some s'" "puts s (\<lambda>_. int (off + k)) (eval x) s'"
    using write8_expr_puts [of s "off + k" x] h(1) b by auto
  then show "\<exists>s'. Option.bind (Extract_create v (8 * i) 8) (\<lambda>b. write8_expr (u32 (off + k)) b s) = Some s' \<and>
      (os_ok s' \<and> os_size s' = sz \<and> os_object s' = ob \<and> off + n \<le> sz \<and> wf_expr v \<and> getWidth v = 8 * n) \<and>
      (\<forall>\<sigma> j. env_ok \<sigma> \<longrightarrow> j < sz \<longrightarrow> byte_val \<sigma> s' j = (if int j = int (off + k) then byte_of (eval v \<sigma>) i else byte_val \<sigma> s j))"
    unfolding m using x h(1) by (auto simp: puts_def)
qed simp

interpretation int_writer: byte_writer
    "\<lambda>os. os_ok os \<and> os_size os = sz \<and> os_object os = ob \<and> off + n \<le> sz" byte_val sz
    "\<lambda>k i. write8 (u32 (off + k)) (ucast (drop_bit (8 * i) x))"
    "\<lambda>k _. int (off + k)" "\<lambda>i _. byte_of (uint x) i" n
  for off n sz :: nat and ob and x :: "64 word"
proof
  fix s :: object_state and k i :: nat
  assume h: "os_ok s \<and> os_size s = sz \<and> os_object s = ob \<and> off + n \<le> sz" "k < n" "i < n"
  have b: "off + k < os_size s" using h by simp
  then have m: "u32 (off + k) = off + k" using size_bound [of s] h(1) by (simp add: os_ok_def)
  obtain s' where "write8 (off + k) (ucast (drop_bit (8 * i) x)) s = Some s'"
    "puts s (\<lambda>_. int (off + k)) (\<lambda>_. uint (ucast (drop_bit (8 * i) x) :: 8 word)) s'"
    using write8_puts [of s "off + k" "ucast (drop_bit (8 * i) x)"] h(1) b by auto
  then show "\<exists>s'. write8 (u32 (off + k)) (ucast (drop_bit (8 * i) x)) s = Some s' \<and>
      (os_ok s' \<and> os_size s' = sz \<and> os_object s' = ob \<and> off + n \<le> sz) \<and>
      (\<forall>\<sigma> j. env_ok \<sigma> \<longrightarrow> j < sz \<longrightarrow> byte_val \<sigma> s' j = (if int j = int (off + k) then byte_of (uint x) i else byte_val \<sigma> s j))"
    unfolding m using h(1) by (auto simp: puts_def byte_ucast)
qed simp

lemma offset_at_inj:
  assumes "offset_at off k \<sigma> = offset_at off k' \<sigma>" "k < 2 ^ 32" "k' < 2 ^ 32"
  shows "k = k'"
proof -
  have "(eval off \<sigma> + int k) mod 2 ^ 32 = (eval off \<sigma> + int k') mod 2 ^ 32"
    using assms(1) by (simp add: offset_at_def take_bit_eq_mod)
  then have "2 ^ 32 dvd (int k - int k')" by (simp add: mod_eq_dvd_iff)
  moreover have "\<bar>int k - int k'\<bar> < 2 ^ 32" using assms(2,3) by (auto simp: abs_if)
  ultimately show ?thesis by (metis dvd_imp_le_int eq_iff_diff_eq_0 linorder_not_le of_nat_eq_iff abs_of_nonneg zero_le_numeral zero_le_power)
qed

interpretation sym_writer: byte_writer
    "\<lambda>os. os_ok os \<and> os_size os = sz \<and> os_object os = ob \<and> symbolic_offsets off n \<and> wf_expr v \<and> getWidth v = 8 * n" byte_val sz
    "write8_at off v" "\<lambda>k \<sigma>. if symbolic_offsets off n then offset_at off k \<sigma> else int k" "\<lambda>i \<sigma>. byte_of (eval v \<sigma>) i" n
  for off v :: expr and n sz :: nat and ob
proof
  fix k k' :: nat and \<sigma>
  assume "k < n" "k' < n" and eq: "(if symbolic_offsets off n then offset_at off k \<sigma> else int k) =
    (if symbolic_offsets off n then offset_at off k' \<sigma> else int k')"
  then show "k = k'" using offset_at_inj [of off k \<sigma> k'] by (auto simp: symbolic_offsets_def split: if_splits)
next
  fix s :: object_state and k i :: nat
  assume h: "os_ok s \<and> os_size s = sz \<and> os_object s = ob \<and> symbolic_offsets off n \<and> wf_expr v \<and> getWidth v = 8 * n" "k < n" "i < n"
  obtain c a where a: "ConstantExpr_create (int k) 32 = Some c" "Add_create off (ConstantExpr c) = Some a"
    "\<not> isConstantExpr a" "wf_expr a" "getWidth a = 32" "\<And>\<sigma>. env_ok \<sigma> \<Longrightarrow> eval a \<sigma> = offset_at off k \<sigma>"
    using symbolic_offset_at [of off n k thesis] h by blast
  obtain x where x: "Extract_create v (8 * i) 8 = Some x" "wf_expr x" "getWidth x = 8"
    "\<And>\<sigma>. env_ok \<sigma> \<Longrightarrow> eval x \<sigma> = byte_of (eval v \<sigma>) i"
    using Concat_Extract_builds(2) [of v 8 "8 * i"] h by (auto simp: builds_if_def byte_of_def)
  obtain s' where "write8_sym a x s = Some s'" "puts s (eval a) (eval x) s'"
    using write8_sym_full [of s a x] h(1) a(3-5) x(2,3) by auto
  then show "\<exists>s'. write8_at off v k i s = Some s' \<and>
      (os_ok s' \<and> os_size s' = sz \<and> os_object s' = ob \<and> symbolic_offsets off n \<and> wf_expr v \<and> getWidth v = 8 * n) \<and>
      (\<forall>\<sigma> j. env_ok \<sigma> \<longrightarrow> j < sz \<longrightarrow> byte_val \<sigma> s' j =
        (if int j = (if symbolic_offsets off n then offset_at off k \<sigma> else int k) then byte_of (eval v \<sigma>) i else byte_val \<sigma> s j))"
    using a(1,2,6) x(1,4) h(1) by (auto simp: write8_at_def puts_def)
qed

subsection \<open>Values read and written\<close>

text \<open>
  The second state is the first with the \<open>n\<close> bytes of a value at the positions \<open>pos\<close>.
\<close>

definition puts_value :: "object_state \<Rightarrow> bool \<Rightarrow> nat \<Rightarrow> (nat \<Rightarrow> env \<Rightarrow> int) \<Rightarrow> (env \<Rightarrow> int) \<Rightarrow> object_state \<Rightarrow> bool" where
  "puts_value os le n pos f os' \<longleftrightarrow> os_ok os' \<and> os_size os' = os_size os \<and> os_object os' = os_object os \<and>
     (\<forall>\<sigma> j. env_ok \<sigma> \<longrightarrow> j < os_size os \<longrightarrow>
        (\<forall>i < n. int j = pos (byte_index le n i) \<sigma> \<longrightarrow> byte_val \<sigma> os' j = byte_of (f \<sigma>) i) \<and>
        ((\<forall>i < n. int j \<noteq> pos (byte_index le n i) \<sigma>) \<longrightarrow> byte_val \<sigma> os' j = byte_val \<sigma> os j))"

definition value_at :: "env \<Rightarrow> object_state \<Rightarrow> bool \<Rightarrow> nat \<Rightarrow> (nat \<Rightarrow> int) \<Rightarrow> int" where
  "value_at \<sigma> os le n pos = le_bytes (\<lambda>i. byte_val \<sigma> os (nat (pos (byte_index le n i)))) n"

text \<open>A value that was put somewhere is found there.\<close>

lemma puts_value_at:
  assumes "puts_value os le n pos f os'" "env_ok \<sigma>" "\<And>k. k < n \<Longrightarrow> 0 \<le> pos k \<sigma> \<and> pos k \<sigma> < int (os_size os)"
  shows "value_at \<sigma> os' le n (\<lambda>k. pos k \<sigma>) = take_bit (8 * n) (f \<sigma>)"
proof -
  have "byte_val \<sigma> os' (nat (pos (byte_index le n i) \<sigma>)) = byte_of (f \<sigma>) i" if "i < n" for i
  proof -
    have k: "byte_index le n i < n" using that by (auto simp: byte_index_def)
    then have "nat (pos (byte_index le n i) \<sigma>) < os_size os" "int (nat (pos (byte_index le n i) \<sigma>)) = pos (byte_index le n i) \<sigma>"
      using assms(3) [OF k] by auto
    then show ?thesis using assms(1,2) that unfolding puts_value_def by blast
  qed
  then show ?thesis by (simp add: value_at_def le_bytes_of [symmetric] cong: le_bytes_cong)
qed

lemma value_at_other:
  assumes "puts_value os le n pos f os'" "env_ok \<sigma>" "\<And>k. k < m \<Longrightarrow> 0 \<le> q k \<and> q k < int (os_size os)"
    "\<And>k i. k < m \<Longrightarrow> i < n \<Longrightarrow> q k \<noteq> pos i \<sigma>"
  shows "value_at \<sigma> os' le' m q = value_at \<sigma> os le' m q"
proof -
  have "byte_val \<sigma> os' (nat (q (byte_index le' m i))) = byte_val \<sigma> os (nat (q (byte_index le' m i)))" if "i < m" for i
  proof -
    have k: "byte_index le' m i < m" using that by (auto simp: byte_index_def)
    then have "nat (q (byte_index le' m i)) < os_size os" "int (nat (q (byte_index le' m i))) = q (byte_index le' m i)"
      using assms(3) [OF k] by auto
    moreover have "\<forall>i' < n. q (byte_index le' m i) \<noteq> pos (byte_index le n i') \<sigma>"
      using assms(4) [OF k] by (auto simp: byte_index_def)
    ultimately show ?thesis using assms(1,2) unfolding puts_value_def by simp
  qed
  then show ?thesis by (simp add: value_at_def cong: le_bytes_cong)
qed

abbreviation const_pos :: "nat \<Rightarrow> nat \<Rightarrow> env \<Rightarrow> int" where
  "const_pos off \<equiv> (\<lambda>k _. int (off + k))"

lemma read_slow_value:
  assumes "os_ok os" "off + n \<le> os_size os" "0 < n"
  shows "\<exists>e W' os'. read_slow cfg off n (W, os) = Some (e, (W', os')) \<and> os_ok os' \<and> same_bytes os os' \<and>
    wf_expr e \<and> getWidth e = 8 * n \<and>
    (\<forall>\<sigma>. env_ok \<sigma> \<longrightarrow> eval e \<sigma> = value_at \<sigma> os (isLittleEndian cfg) n (\<lambda>k. const_pos off k \<sigma>))"
proof -
  have v: "value_at \<sigma> os le n (\<lambda>k. const_pos off k \<sigma>) = le_bytes (\<lambda>i. byte_val \<sigma> os (off + byte_index le n i)) n" for \<sigma> le
    by (simp add: value_at_def nat_int_add)
  show ?thesis
    using const_reader.read_loop_value [of "(W, os)" off n n cfg "isLittleEndian cfg"] assms
    unfolding v read_slow_def same_mem_def by fastforce
qed

lemma read_sym_value:
  assumes "os_ok os" "0 < os_size os" "symbolic_offsets off n" "0 < n"
  shows "\<exists>e W' os'. read_loop (read8_at cfg off) (isLittleEndian cfg) n n (W, os) = Some (e, (W', os')) \<and> os_ok os' \<and>
    same_bytes os os' \<and> wf_expr e \<and> getWidth e = 8 * n \<and>
    (\<forall>\<sigma>. env_ok \<sigma> \<and> (\<forall>k < n. offset_at off k \<sigma> < int (os_size os)) \<longrightarrow>
       eval e \<sigma> = value_at \<sigma> os (isLittleEndian cfg) n (\<lambda>k. offset_at off k \<sigma>))"
  using sym_reader.read_loop_value [of "(W, os)" "os_size os" off n n cfg "isLittleEndian cfg"] assms
  unfolding value_at_def same_mem_def by fastforce

lemma write_slow_puts:
  assumes "os_ok os" "off + n \<le> os_size os" "0 < n" "wf_expr v" "getWidth v = 8 * n"
  shows "\<exists>os'. write_slow cfg off v os = Some os' \<and> puts_value os (isLittleEndian cfg) n (const_pos off) (eval v) os'"
proof -
  have "getWidth v \<noteq> 1" "getWidth v div 8 = n" using assms(3,5) by auto
  then have eq: "write_slow cfg off v os = write_loop
      (\<lambda>k i os. Option.bind (Extract_create v (8 * i) 8) (\<lambda>b. write8_expr (u32 (off + k)) b os)) (isLittleEndian cfg) n n os"
    using assms(5) by (simp add: write_slow_def)
  show ?thesis
    using const_writer.write_loop_value [of os "os_size os" "os_object os" off n v n "isLittleEndian cfg"] assms
    unfolding eq puts_value_def by fastforce
qed

lemma write_int_puts:
  assumes "os_ok os" "off + n \<le> os_size os"
  shows "\<exists>os'. write_int cfg off n x os = Some os' \<and> puts_value os (isLittleEndian cfg) n (const_pos off) (\<lambda>_. uint x) os'"
  using int_writer.write_loop_value [of os "os_size os" "os_object os" off n n x "isLittleEndian cfg"] assms
  unfolding write_int_def puts_value_def by fastforce

lemma pow2_width:
  assumes "bits64_isPowerOfTwo (of_nat (8 * n))" "8 * n \<le> 64"
  shows "n \<in> {1, 2, 4, 8}"
proof -
  have "n \<in> {0, 1, 2, 3, 4, 5, 6, 7, 8}" using assms(2) by auto
  moreover have "\<not> bits64_isPowerOfTwo (of_nat (8 * m))" if "m \<in> {0, 3, 5, 6, 7}" for m
    using that by (auto simp: bits64_isPowerOfTwo_def)
  ultimately show ?thesis using assms(1) by blast
qed

lemma write_const_puts:
  assumes "os_ok os" "off + n \<le> os_size os" "0 < n" "wf_expr v" "getWidth v = 8 * n"
  shows "\<exists>os'. write_const cfg off v os = Some os' \<and> puts_value os (isLittleEndian cfg) n (const_pos off) (eval v) os'"
proof (cases "\<exists>c. v = ConstantExpr c \<and> bitWidth c \<le> 64 \<and> bits64_isPowerOfTwo (of_nat (bitWidth c))")
  case False
  then have "write_const cfg off v os = write_slow cfg off v os"
    by (cases v) (auto simp: write_const_def Let_def)
  then show ?thesis using write_slow_puts [OF assms] by simp
next
  case True
  then obtain c where c: "v = ConstantExpr c" "bitWidth c \<le> 64" "bits64_isPowerOfTwo (of_nat (bitWidth c))" by blast
  have n: "n \<in> {1, 2, 4, 8}" and w: "bitWidth c = 8 * n" using pow2_width [of n] c assms(5) by auto
  let ?x = "word_of_int (apval c) :: 64 word"
  have x: "uint ?x = apval c"
    using assms(4) c(1,2) in_width_mono [of "bitWidth c" "apval c" 64] by (simp add: wf_apint_def uint_word_of_int_eq)
  have "\<exists>os'. write_const cfg off v os = Some os' \<and> puts_value os (isLittleEndian cfg) n (const_pos off) (\<lambda>_. uint ?x) os'"
  proof (cases "n = 1")
    case True
    have "write_const cfg off v os = write_int cfg off 1 ?x os"
    proof -
      have "off < os_size os" using assms(2) True by simp
      then have "u32 off = off" using size_bound [of os off] assms(1) by (simp add: os_ok_def)
      then show ?thesis using True c w by (simp add: write_const_def write_int_def byte_index_def Let_def)
    qed
    then show ?thesis using write_int_puts [OF assms(1), of off 1 cfg ?x] assms(2) True by simp
  next
    case False
    then have "write_const cfg off v os = write_int cfg off n ?x os"
      using n c w by (auto simp: write_const_def Let_def)
    then show ?thesis using write_int_puts [OF assms(1,2)] by simp
  qed
  moreover have "eval v = (\<lambda>_. uint ?x)" using c(1) x by auto
  ultimately show ?thesis by simp
qed

lemma write_sym_puts:
  assumes "os_ok os" "symbolic_offsets off n" "0 < n" "wf_expr v" "getWidth v = 8 * n"
  shows "\<exists>os'. write_loop (write8_at off v) (isLittleEndian cfg) n n os = Some os' \<and>
    puts_value os (isLittleEndian cfg) n (offset_at off) (eval v) os'"
  using sym_writer.write_loop_value [of os "os_size os" "os_object os" off n v n "isLittleEndian cfg"] assms
  unfolding puts_value_def by fastforce

text \<open>An access that stays inside the object, or one at a symbolic offset.\<close>

definition access_ok :: "object_state \<Rightarrow> expr \<Rightarrow> nat \<Rightarrow> bool" where
  "access_ok os off n \<longleftrightarrow> 0 < n \<and>
     (case off of ConstantExpr c \<Rightarrow> nat (apval c) + n \<le> os_size os | _ \<Rightarrow> symbolic_offsets off n \<and> 0 < os_size os)"

lemma const_offset_at:
  assumes "os_ok os" "nat (apval c) + n \<le> os_size os" "wf_apint c" "k < n"
  shows "offset_at (ConstantExpr c) k \<sigma> = int (nat (apval c) + k)"
proof -
  have "0 \<le> apval c" using assms(3) by (simp add: wf_apint_def in_width_def)
  moreover have "nat (apval c) + k < 2 ^ 32"
    using assms size_bound [of os "nat (apval c) + k"] by (simp add: os_ok_def)
  ultimately show ?thesis by (simp add: offset_at_def in_width_def)
qed

lemma write_expr_puts:
  assumes "os_ok os" "ZExt_create offset 32 = Some off" "wf_expr off" "access_ok os off n" "wf_expr v" "getWidth v = 8 * n"
  shows "\<exists>os'. write_expr cfg offset v os = Some os' \<and> puts_value os (isLittleEndian cfg) n (offset_at off) (eval v) os'"
proof (cases "isConstantExpr off")
  case True
  then obtain c where c: "off = ConstantExpr c" by (cases off) auto
  then have b: "nat (apval c) + n \<le> os_size os" "0 < n" "wf_apint c" using assms(3,4) by (auto simp: access_ok_def)
  have pos: "offset_at off k \<sigma> = const_pos (nat (apval c)) k \<sigma>" if "k < n" for k \<sigma>
    using const_offset_at [OF assms(1) b(1,3) that] c by simp
  have "puts_value os le n (offset_at off) f os'" if "puts_value os le n (const_pos (nat (apval c))) f os'" for le f os'
  proof -
    have "byte_index le n i < n" if "i < n" for i using that by (auto simp: byte_index_def)
    then show ?thesis using that pos unfolding puts_value_def by simp
  qed
  then show ?thesis using write_const_puts [OF assms(1) b(1,2) assms(5,6), of cfg] c assms(2) by (auto simp: write_expr_def)
next
  case False
  then have s: "symbolic_offsets off n" "0 < n" using assms(4) by (cases off; auto simp: access_ok_def)+
  have "getWidth v \<noteq> 1" "getWidth v div 8 = n" using assms(6) s(2) by auto
  then have "write_expr cfg offset v os = write_loop (write8_at off v) (isLittleEndian cfg) n n os"
    using assms(2,6) False by (cases off) (simp_all add: write_expr_def Let_def)
  then show ?thesis using write_sym_puts [OF assms(1) s assms(5,6)] by simp
qed

end
