(* ===== verification/Object_Poison.thy ===== *)
theory Object_Poison
  imports Object_Values
begin

text \<open>
  The poison scheme of TASE (\<open>applyPsnOnMakeSymbolic\<close>, \<open>applyPsnOnRead\<close> and \<open>applyPsnOnWrite\<close> of
  \<^verbatim>\<open>klee/lib/Core/Memory.cpp\<close>). Natively executed code cannot see the masks of an object state; a
  pair of bytes at an even address that holds the tag \<open>0xDEAD\<close> tells it to trap. The operations
  write the tag through the object's address, which is its store. A write to memory is the write
  to the object state followed by \<open>applyPsnOnWrite\<close>.
\<close>

subsection \<open>Operations\<close>

definition poke_tag :: "nat \<Rightarrow> object_state \<Rightarrow> object_state option" where
  "poke_tag p os =
     (if p + 1 < os_size os
      then Some (os\<lparr>concreteStore := (concreteStore os)[p := ucast poison_val, p + 1 := ucast (drop_bit 8 poison_val)]\<rparr>)
      else None)"

definition applyPsnOnMakeSymbolic :: "object_state \<Rightarrow> object_state option" where
  "applyPsnOnMakeSymbolic os =
     (if odd (unat (moAddress (os_object os))) \<or> odd (moSize (os_object os)) then None
      else each_byte (\<lambda>i. poke_tag (2 * i)) [0..<moSize (os_object os) div 2] os)"

definition reexpress :: "mem_config \<Rightarrow> nat \<Rightarrow> mstate \<Rightarrow> mstate option" where
  "reexpress cfg i s =
     do { (e, s') \<leftarrow> read8 cfg i s; os \<leftarrow> write8AsExpr i e (snd s'); Some (fst s', os) }"

definition applyPsnOnRead :: "mem_config \<Rightarrow> expr \<Rightarrow> mstate \<Rightarrow> mstate option" where
  "applyPsnOnRead cfg off s =
     (if isConstantExpr off then Some s else each_byte (reexpress cfg) [0..<os_size (snd s)] s)"

text \<open>Both bytes of a pair are read, kept as expressions, and the pair gets the tag.\<close>

definition poison_pair :: "mem_config \<Rightarrow> nat \<Rightarrow> mstate \<Rightarrow> mstate option" where
  "poison_pair cfg p s =
     do { (b1, s1) \<leftarrow> read8 cfg p s;
          (b2, s2) \<leftarrow> read8 cfg (p + 1) s1;
          os1 \<leftarrow> write8AsExpr p b1 (snd s2);
          os2 \<leftarrow> write8AsExpr (p + 1) b2 os1;
          os3 \<leftarrow> poke_tag p os2;
          Some (fst s2, os3) }"

definition nice :: "object_state \<Rightarrow> nat \<Rightarrow> bool" where
  "nice os i \<longleftrightarrow> isByteConcrete os i \<and> \<not> isByteFlushed os i"

definition psn_bytes :: "nat \<Rightarrow> nat option" where
  "psn_bytes w = (if w = 1 \<or> w = 8 then Some 1 else if w = 16 then Some 2 else if w = 32 then Some 4
     else if w = 64 then Some 8 else None)"

definition psn_middle :: "mem_config \<Rightarrow> nat \<Rightarrow> bool \<Rightarrow> expr \<Rightarrow> mstate \<Rightarrow> mstate option" where
  "psn_middle cfg first twoByteAligned v s =
     (if isConstantExpr v \<or> getWidth v = 8 \<or> getWidth v = 1 then Some s
      else if getWidth v = 16 then
        (if twoByteAligned then map_option (Pair (fst s)) (poke_tag first (snd s)) else Some s)
      else if getWidth v = 32 then
        each_byte (poison_pair cfg) (if twoByteAligned then [first, first + 2] else [first + 1]) s
      else each_byte (poison_pair cfg)
        (if twoByteAligned then [first, first + 2, first + 4, first + 6] else [first + 1, first + 3, first + 5]) s)"

definition psn_front :: "mem_config \<Rightarrow> nat \<Rightarrow> mstate \<Rightarrow> mstate option" where
  "psn_front cfg first s =
     (if odd_address (snd s) first then
        (if first = 0 then None
         else if nice (snd s) first \<and> nice (snd s) (first - 1) then Some s else poison_pair cfg (first - 1) s)
      else Some s)"

definition psn_back :: "mem_config \<Rightarrow> nat \<Rightarrow> mstate \<Rightarrow> mstate option" where
  "psn_back cfg fin s =
     (if \<not> odd_address (snd s) fin then
        (if fin + 1 \<ge> os_size (snd s) then None
         else if nice (snd s) fin \<and> nice (snd s) (fin + 1) then Some s else poison_pair cfg fin s)
      else Some s)"

definition applyPsnOnWrite :: "mem_config \<Rightarrow> expr \<Rightarrow> expr \<Rightarrow> mstate \<Rightarrow> mstate option" where
  "applyPsnOnWrite cfg offset v s =
     do { off \<leftarrow> ZExt_create offset 32;
          (case off of
             ConstantExpr c \<Rightarrow>
               do { n \<leftarrow> psn_bytes (getWidth v);
                    (let first = nat (apval c); fin = u32 (first + n - 1) in
                     do { s1 \<leftarrow> psn_middle cfg first (\<not> odd_address (snd s) first \<and> odd_address (snd s) fin) v s;
                          s2 \<leftarrow> psn_front cfg first s1;
                          psn_back cfg fin s2 }) }
           | _ \<Rightarrow>
             (if odd (os_size (snd s)) \<or> odd_address (snd s) 0 then None
              else map_option (Pair (fst s)) (each_byte (\<lambda>i. poke_tag (2 * i)) [0..<os_size (snd s) div 2] (snd s)))) }"

text \<open>The end of \<open>Executor::tase_helper_write\<close> and of \<open>Executor::tase_helper_read\<close>.\<close>

definition tase_write :: "mem_config \<Rightarrow> expr \<Rightarrow> expr \<Rightarrow> mstate \<Rightarrow> mstate option" where
  "tase_write cfg off v s =
     do { os \<leftarrow> write_expr cfg off v (snd s); applyPsnOnWrite cfg off v (fst s, os) }"

definition tase_read :: "mem_config \<Rightarrow> expr \<Rightarrow> nat \<Rightarrow> mstate \<Rightarrow> (expr \<times> mstate) option" where
  "tase_read cfg off w s =
     do { (e, s1) \<leftarrow> read_expr cfg off w s; s2 \<leftarrow> applyPsnOnRead cfg off s1; Some (e, s2) }"

subsection \<open>The invariant of the tags\<close>

definition pair_of :: "object_state \<Rightarrow> nat \<Rightarrow> nat" where
  "pair_of os i = (if odd_address os i then i - 1 else i)"

definition isBytePoison :: "object_state \<Rightarrow> nat \<Rightarrow> bool" where
  "isBytePoison os i \<longleftrightarrow> half_at os (pair_of os i) = Some poison_val"

text \<open>The first of the extra invariants: a byte that does not carry the tag is concrete and not flushed.\<close>

definition tag_ok :: "object_state \<Rightarrow> nat \<Rightarrow> bool" where
  "tag_ok os i \<longleftrightarrow> (\<not> isBytePoison os i \<longrightarrow> nice os i)"

definition aligned_object :: "object_state \<Rightarrow> bool" where
  "aligned_object os \<longleftrightarrow> even (unat (moAddress (os_object os))) \<and> even (os_size os)"

definition psn_ok :: "object_state \<Rightarrow> bool" where
  "psn_ok os \<longleftrightarrow> aligned_object os \<and> list_all (tag_ok os) [0..<os_size os]"

lemma psn_ok_iff: "psn_ok os \<longleftrightarrow> aligned_object os \<and> (\<forall>i < os_size os. tag_ok os i)"
  by (auto simp: psn_ok_def list_all_iff)

lemma aligned_parity: "aligned_object os \<Longrightarrow> odd_address os i = odd i"
  by (simp add: aligned_object_def odd_address_def)

lemma aligned_cong: "os_object os' = os_object os \<Longrightarrow> os_size os' = os_size os \<Longrightarrow> aligned_object os' = aligned_object os"
  by (simp add: aligned_object_def)

subsection \<open>The fast path of a read\<close>

lemma taint_loop2_spec:
  "x \<le> fin \<Longrightarrow> fin \<le> os_size os \<Longrightarrow> even (fin - x) \<Longrightarrow>
     taint_loop2 os x fin = Some (\<exists>p. x \<le> p \<and> p < fin \<and> even (p - x) \<and> half_at os p = Some poison_val)"
proof (induction os x fin rule: taint_loop2.induct)
  case (1 os x fin)
  have even: "even (x + fin)" using "1.prems"(1,3) by presburger
  show ?case
  proof (cases "x + 2 \<le> fin")
    case True
    then obtain h where h: "half_at os x = Some h" using "1.prems" by (simp add: half_at_def)
    have split: "(\<exists>p. x \<le> p \<and> p < fin \<and> even (p - x) \<and> half_at os p = Some poison_val) \<longleftrightarrow>
      h = poison_val \<or> (\<exists>p. x + 2 \<le> p \<and> p < fin \<and> even (p - (x + 2)) \<and> half_at os p = Some poison_val)"
    proof
      assume "\<exists>p. x \<le> p \<and> p < fin \<and> even (p - x) \<and> half_at os p = Some poison_val"
      then obtain p where p: "x \<le> p" "p < fin" "even (p - x)" "half_at os p = Some poison_val" by blast
      show "h = poison_val \<or> (\<exists>p. x + 2 \<le> p \<and> p < fin \<and> even (p - (x + 2)) \<and> half_at os p = Some poison_val)"
      proof (cases "p = x")
        case False
        then have "x + 2 \<le> p" using p(1,3) by presburger
        moreover have "even (p - (x + 2))" using p(3) \<open>x + 2 \<le> p\<close> by presburger
        ultimately show ?thesis using p by blast
      qed (use h p in simp)
    next
      assume "h = poison_val \<or> (\<exists>p. x + 2 \<le> p \<and> p < fin \<and> even (p - (x + 2)) \<and> half_at os p = Some poison_val)"
      then show "\<exists>p. x \<le> p \<and> p < fin \<and> even (p - x) \<and> half_at os p = Some poison_val"
      proof
        assume "h = poison_val"
        then show ?thesis using h True by (intro exI [of _ x]) simp
      next
        assume "\<exists>p. x + 2 \<le> p \<and> p < fin \<and> even (p - (x + 2)) \<and> half_at os p = Some poison_val"
        then obtain p where "x + 2 \<le> p" "p < fin" "even (p - (x + 2))" "half_at os p = Some poison_val" by blast
        moreover then have "even (p - x)" by presburger
        ultimately show ?thesis by (intro exI [of _ p]) simp
      qed
    qed
    have "even (fin - (x + 2))" using "1.prems"(3) True by presburger
    then have "taint_loop2 os (x + 2) fin = Some (\<exists>p. x + 2 \<le> p \<and> p < fin \<and> even (p - (x + 2)) \<and> half_at os p = Some poison_val)"
      if "h \<noteq> poison_val" using "1.IH" [OF _ _ h that] even True "1.prems"(2) by simp
    then show ?thesis
      using True h even unfolding split by (subst taint_loop2.simps) (cases "h = poison_val"; simp)
  next
    case False
    then have "x = fin" using "1.prems" by presburger
    then show ?thesis by (subst taint_loop2.simps) auto
  qed
qed

text \<open>On an aligned buffer of even length the check finds a tag exactly if some byte carries one.\<close>

lemma has_taint_iff:
  assumes "aligned_object os" "poisonSize cfg = 2" "even off" "even n" "off + n \<le> os_size os"
  shows "tase_buf_has_taint cfg os off n = Some (\<exists>i < n. isBytePoison os (off + i))"
proof -
  have eq: "(\<exists>p. off \<le> p \<and> p < off + n \<and> even (p - off) \<and> half_at os p = Some poison_val) \<longleftrightarrow> (\<exists>i < n. isBytePoison os (off + i))"
  proof
    assume "\<exists>p. off \<le> p \<and> p < off + n \<and> even (p - off) \<and> half_at os p = Some poison_val"
    then obtain p where "off \<le> p" "p < off + n" "even (p - off)" "half_at os p = Some poison_val" by blast
    then show "\<exists>i < n. isBytePoison os (off + i)"
      using assms(1,3) by (intro exI [of _ "p - off"]) (auto simp: isBytePoison_def pair_of_def aligned_parity)
  next
    assume "\<exists>i < n. isBytePoison os (off + i)"
    then obtain i where i: "i < n" "half_at os (if odd i then off + i - 1 else off + i) = Some poison_val"
      using assms(1,3) by (auto simp: isBytePoison_def pair_of_def aligned_parity)
    define p where "p = (if odd i then off + i - 1 else off + i)"
    have "off \<le> p" "p < off + n" "even (p - off)" using i(1) by (auto simp: p_def elim: oddE)
    then show "\<exists>p. off \<le> p \<and> p < off + n \<and> even (p - off) \<and> half_at os p = Some poison_val"
      using i(2) unfolding p_def by blast
  qed
  have "taint_loop2 os off (off + n) = Some (\<exists>i < n. isBytePoison os (off + i))"
    using taint_loop2_spec [of off "off + n" os] assms(4,5) unfolding eq by simp
  then show ?thesis using assms(1-3) by (simp add: tase_buf_has_taint_def aligned_parity)
qed

lemma native_value_bytes:
  assumes "\<And>i. i < n \<Longrightarrow> isByteConcrete os (off + i)"
  shows "native_value os off n = value_at \<sigma> os True n (\<lambda>k. const_pos off k \<sigma>)"
  unfolding native_value_def value_at_def using assms
  by (intro le_bytes_cong) (simp add: byte_val_def byte_index_def nat_int_add)

lemma le_bytes_width: "(\<And>i. i < n \<Longrightarrow> in_width 8 (f i)) \<Longrightarrow> in_width (8 * n) (le_bytes f n)"
proof (induction n)
  case (Suc n)
  then show ?case using concat_in_width [of 8 "f n" "8 * n" "le_bytes f n"] by (simp add: add.commute)
qed simp

lemma read_const_value:
  assumes ok: "os_ok os" "psn_ok os" and cfg: "poisonSize cfg = 2" "isLittleEndian cfg"
    and n: "0 < n" "off + n \<le> os_size os" "n \<in> {2, 4, 8} \<Longrightarrow> even off"
  shows "\<exists>e W' os'. read_const cfg off (8 * n) (W, os) = Some (e, (W', os')) \<and> os_ok os' \<and> same_bytes os os' \<and>
    wf_expr e \<and> getWidth e = 8 * n \<and> (\<forall>\<sigma>. env_ok \<sigma> \<longrightarrow> eval e \<sigma> = value_at \<sigma> os True n (\<lambda>k. const_pos off k \<sigma>))"
proof -
  note slow = read_slow_value [OF ok(1) n(2,1), of cfg W]
  have al: "aligned_object os" using ok(2) by (simp add: psn_ok_iff)
  show ?thesis
  proof (cases "n \<in> {2, 4, 8} \<and> \<not> (\<exists>i < n. isBytePoison os (off + i))")
    case False
    have "read_const cfg off (8 * n) (W, os) = read_slow cfg off n (W, os)"
    proof (cases "n \<in> {2, 4, 8}")
      case True
      then have "tase_buf_has_taint cfg os off n = Some True"
        using has_taint_iff [OF al cfg(1), of off n] n False by auto
      then show ?thesis using True by (auto simp: read_const_def)
    qed (use n(1) in \<open>auto simp: read_const_def\<close>)
    then show ?thesis using slow cfg(2) by simp
  next
    case True
    then have t: "tase_buf_has_taint cfg os off n = Some False"
      using has_taint_iff [OF al cfg(1), of off n] n by auto
    have con: "isByteConcrete os (off + i)" if "i < n" for i
      using True that ok(2) n(2) by (auto simp: psn_ok_iff tag_ok_def nice_def)
    have "in_width (8 * n) (native_value os off n)"
      unfolding native_value_def
    proof (rule le_bytes_width)
      show "in_width 8 (uint (concreteStore os ! (off + i)))" for i
        using uint_lt2p [of "concreteStore os ! (off + i)"] by (simp add: in_width_def)
    qed
    then have c: "ConstantExpr_create (native_value os off n) (8 * n) = Some (APInt (8 * n) (native_value os off n))"
      "wf_apint (APInt (8 * n) (native_value os off n))"
      using n(1) by (simp_all add: ConstantExpr_create_def ConstantExpr_alloc_def wf_apint_def)
    have "read_const cfg off (8 * n) (W, os) = Some (ConstantExpr (APInt (8 * n) (native_value os off n)), (W, os))"
      using True t c(1) n(2) by (auto simp: read_const_def)
    then show ?thesis using ok(1) c(2) native_value_bytes [of n os off, OF con] by auto
  qed
qed

end
