(* ===== verification/Poison_Invariant.thy ===== *)
theory Poison_Invariant
  imports Object_Poison
begin

text \<open>
  Writes to an object keep the invariant of the poison tags: which bytes a write touches, what the
  tagging of a pair changes, and that the pairs \<open>applyPsnOnWrite\<close> visits are all that need it.
\<close>

subsection \<open>The bytes a write touches\<close>

text \<open>
  Only the bytes in the set changed, and none of these is left flushed; \<open>c\<close> says whether they are
  all concrete or all symbolic, when that is known.
\<close>

definition touched :: "bool option \<Rightarrow> object_state \<Rightarrow> nat set \<Rightarrow> object_state \<Rightarrow> bool" where
  "touched c os A os' \<longleftrightarrow> os_size os' = os_size os \<and> os_object os' = os_object os \<and> shape os' \<and>
     (\<forall>j < os_size os. j \<notin> A \<longrightarrow> isByteConcrete os' j = isByteConcrete os j \<and> isByteFlushed os' j = isByteFlushed os j \<and>
        concreteStore os' ! j = concreteStore os ! j) \<and>
     (\<forall>j < os_size os. j \<in> A \<longrightarrow> \<not> isByteFlushed os' j \<and> c \<in> {None, Some (isByteConcrete os' j)})"

lemma touched_trans:
  assumes "touched c os A os1" "touched c os1 B os2"
  shows "touched c os (A \<union> B) os2"
  using assms unfolding touched_def by auto

lemma touched_none: "touched c os A os' \<Longrightarrow> touched None os A os'"
  by (simp add: touched_def)

lemma touched_in: "touched (Some b) os A os' \<Longrightarrow> j < os_size os \<Longrightarrow> j \<in> A \<Longrightarrow> isByteConcrete os' j = b"
  by (simp add: touched_def)

lemma touched_out:
  "touched c os A os' \<Longrightarrow> j < os_size os \<Longrightarrow> j \<notin> A \<Longrightarrow> isByteConcrete os' j = isByteConcrete os j \<and>
     isByteFlushed os' j = isByteFlushed os j \<and> concreteStore os' ! j = concreteStore os ! j"
  by (simp add: touched_def)

lemma write8_touched:
  assumes "shape os" "write8 i v os = Some os'"
  shows "touched (Some True) os {i} os'"
proof -
  let ?base = "os\<lparr>concreteStore := (concreteStore os)[i := v]\<rparr>"
  have i: "i < os_size os" and os': "os' = markByteUnflushed i (markByteConcrete i (setKnownSymbolic i None ?base))"
    using assms(2) by (auto simp: write8_def split: if_splits)
  have "shape ?base" "i < os_size ?base" using assms(1) i by simp_all
  then show ?thesis unfolding os' touched_def by (auto simp: byte_simps)
qed

lemma write8AsExpr_touched:
  assumes "shape os" "write8AsExpr i v os = Some os'"
  shows "touched (Some False) os {i} os'"
proof -
  have i: "i < os_size os" and os': "os' = markByteUnflushed i (markByteSymbolic i (setKnownSymbolic i (Some v) os))"
    using assms(2) by (auto simp: write8AsExpr_def split: if_splits)
  show ?thesis unfolding os' touched_def using assms(1) i by (auto simp: byte_simps)
qed

lemma write8_expr_touched:
  assumes "shape os" "write8_expr i v os = Some os'"
  shows "touched None os {i} os'" "\<not> isConstantExpr v \<Longrightarrow> touched (Some False) os {i} os'"
proof -
  have sym: "touched (Some False) os {i} os'" if "\<not> isConstantExpr v"
    using that assms(2) write8AsExpr_touched [OF assms(1)] by (cases v) (auto simp: write8_expr_def)
  then show "\<not> isConstantExpr v \<Longrightarrow> touched (Some False) os {i} os'" .
  show "touched None os {i} os'"
  proof (cases "isConstantExpr v")
    case True
    then obtain c where "write8 i (word_of_int (apval c)) os = Some os'"
      using assms(2) by (cases v) (auto simp: write8_expr_def split: if_splits)
    from write8_touched [OF assms(1) this] show ?thesis by (rule touched_none)
  qed (use sym touched_none in blast)
qed

lemma write_loop_touched:
  assumes "\<And>k i os os'. k < n \<Longrightarrow> i < n \<Longrightarrow> shape os \<Longrightarrow> wr k i os = Some os' \<Longrightarrow> touched c os {off + k} os'"
    "shape os" "write_loop wr le n m os = Some os'" "m \<le> n"
  shows "touched c os ((\<lambda>i. off + byte_index le n i) ` {..<m}) os'"
  using assms(3,4)
proof (induction m arbitrary: os')
  case 0
  then show ?case using assms(2) by (simp add: touched_def)
next
  case (Suc m)
  then obtain os1 where os1: "write_loop wr le n m os = Some os1" "wr (byte_index le n m) m os1 = Some os'"
    by (auto simp: bind_eq_Some_conv)
  have "touched c os ((\<lambda>i. off + byte_index le n i) ` {..<m}) os1" using Suc os1(1) by simp
  moreover have "touched c os1 {off + byte_index le n m} os'"
    using assms(1) [OF _ _ _ os1(2)] Suc.prems(2) calculation by (auto simp: touched_def byte_index_def)
  ultimately show ?case using touched_trans by (fastforce simp: lessThan_Suc)
qed

lemma index_image: "(\<lambda>i. off + byte_index le n i) ` {..<n} = {off..<off + n}"
proof
  show "(\<lambda>i. off + byte_index le n i) ` {..<n} \<subseteq> {off..<off + n}" by (auto simp: byte_index_def)
  show "{off..<off + n} \<subseteq> (\<lambda>i. off + byte_index le n i) ` {..<n}"
  proof
    fix j assume j: "j \<in> {off..<off + n}"
    show "j \<in> (\<lambda>i. off + byte_index le n i) ` {..<n}"
      using j by (intro image_eqI [of _ _ "byte_index le n (j - off)"]) (auto simp: byte_index_def)
  qed
qed

definition symbolic_bytes :: "expr \<Rightarrow> bool" where
  "symbolic_bytes v \<longleftrightarrow> list_all (\<lambda>i. case Extract_create v (8 * i) 8 of Some x \<Rightarrow> \<not> isConstantExpr x | None \<Rightarrow> True) [0..<getWidth v div 8]"

lemma offset_mod: "shape os \<Longrightarrow> off + n \<le> os_size os \<Longrightarrow> k < n \<Longrightarrow> u32 (off + k) = off + k"
  using size_bound [of os "off + k"] by simp

lemma write_const_touched:
  assumes "shape os" "off + n \<le> os_size os" "0 < n" "wf_expr v" "getWidth v = 8 * n" "write_const cfg off v os = Some os'"
  shows "touched None os {off..<off + n} os'"
    "isConstantExpr v \<Longrightarrow> n \<in> {1, 2, 4, 8} \<Longrightarrow> touched (Some True) os {off..<off + n} os'"
    "\<not> isConstantExpr v \<Longrightarrow> symbolic_bytes v \<Longrightarrow> touched (Some False) os {off..<off + n} os'"
proof -
  have mod: "u32 (off + k) = off + k" if "k < n" for k using offset_mod [OF assms(1,2) that] .
  have w: "getWidth v \<noteq> 1" "getWidth v div 8 = n" using assms(3,5) by auto
  let ?wr = "\<lambda>k i os. Option.bind (Extract_create v (8 * i) 8) (\<lambda>b. write8_expr (u32 (off + k)) b os)"
  have slow: "write_slow cfg off v os = write_loop ?wr (isLittleEndian cfg) n n os"
    using w assms(5) by (simp add: write_slow_def)
  have slow_touched: "touched c os {off..<off + n} os'"
    if h: "write_slow cfg off v os = Some os'" "c = None \<or> c = Some False \<and> symbolic_bytes v" for c
  proof -
    have "touched c os0 {off + k} os1"
      if k: "k < n" "i < n" "shape os0" "?wr k i os0 = Some os1" for k i os0 os1
    proof -
      obtain b where b: "Extract_create v (8 * i) 8 = Some b" "write8_expr (off + k) b os0 = Some os1"
        using k(4) unfolding mod [OF k(1)] by (auto simp: bind_eq_Some_conv)
      have "\<not> isConstantExpr b" if "symbolic_bytes v"
      proof -
        have "case Extract_create v (8 * i) 8 of Some x \<Rightarrow> \<not> isConstantExpr x | None \<Rightarrow> True"
          using that k(2) w(2) by (simp add: symbolic_bytes_def list_all_iff)
        then show ?thesis using b(1) by simp
      qed
      then show ?thesis using write8_expr_touched [OF k(3) b(2)] h(2) by auto
    qed
    then have "touched c os ((\<lambda>i. off + byte_index (isLittleEndian cfg) n i) ` {..<n}) os'"
      by (rule write_loop_touched [where wr = ?wr and m = n and n = n, OF _ assms(1)]) (use h(1) slow in auto)
    then show ?thesis by (simp add: index_image)
  qed
  have int_touched: "touched (Some True) os {off..<off + n} os'" if "write_int cfg off n x os = Some os'" for x
  proof -
    let ?wi = "\<lambda>k i. write8 (u32 (off + k)) (ucast (drop_bit (8 * i) x))"
    have "touched (Some True) os0 {off + k} os1" if "k < n" "i < n" "shape os0" "?wi k i os0 = Some os1" for k i os0 os1
      using write8_touched [of os0 "off + k"] that mod [OF that(1)] by simp
    then have "touched (Some True) os ((\<lambda>i. off + byte_index (isLittleEndian cfg) n i) ` {..<n}) os'"
      by (rule write_loop_touched [where wr = ?wi and m = n and n = n, OF _ assms(1)]) (use that in \<open>auto simp: write_int_def\<close>)
    then show ?thesis by (simp add: index_image)
  qed
  have one: "touched (Some True) os {off..<off + n} os'" if "n = 1" "write8 off x os = Some os'" for x
    using write8_touched [OF assms(1) that(2)] that(1) by simp
  have route: "isConstantExpr v \<and> (n = 1 \<and> (\<exists>x. write8 off x os = Some os') \<or> (\<exists>x. write_int cfg off n x os = Some os')) \<or>
      write_slow cfg off v os = Some os' \<and> (isConstantExpr v \<longrightarrow> n \<notin> {1, 2, 4, 8})"
  proof (cases v)
    case (ConstantExpr c)
    have pow: "bits64_isPowerOfTwo (of_nat (8 * m))" if "m \<in> {1, 2, 4, 8}" for m
      using that by (auto simp: bits64_isPowerOfTwo_def)
    show ?thesis
      using assms(5,6) ConstantExpr pow [of n] by (auto simp: write_const_def Let_def split: if_splits)
  qed (use assms(6) in \<open>auto simp: write_const_def\<close>)
  show "touched None os {off..<off + n} os'"
    using route one int_touched slow_touched [of None] touched_none by blast
  show "touched (Some True) os {off..<off + n} os'" if "isConstantExpr v" "n \<in> {1, 2, 4, 8}"
    using route one int_touched that by auto
  show "touched (Some False) os {off..<off + n} os'" if "\<not> isConstantExpr v" "symbolic_bytes v"
    using route slow_touched [of "Some False"] that by auto
qed

subsection \<open>Tagging a pair\<close>

lemma tag_half: "(ucast (ucast poison_val :: 8 word) OR push_bit 8 (ucast (ucast (drop_bit 8 poison_val) :: 8 word)) :: 16 word) = poison_val"
  by (simp add: poison_val_def)

text \<open>A store write to bytes that are not concrete changes no value.\<close>

lemma poke_tag_spec:
  assumes "os_ok os" "p + 1 < os_size os" "\<not> isByteConcrete os p" "\<not> isByteConcrete os (p + 1)"
  shows "\<exists>os'. poke_tag p os = Some os' \<and> os_ok os' \<and> same_bytes os os' \<and> half_at os' p = Some poison_val \<and>
    isByteConcrete os' = isByteConcrete os \<and> isByteFlushed os' = isByteFlushed os \<and>
    (\<forall>j. j \<noteq> p \<and> j \<noteq> p + 1 \<longrightarrow> concreteStore os' ! j = concreteStore os ! j)"
proof -
  let ?os = "os\<lparr>concreteStore := (concreteStore os)[p := ucast poison_val, p + 1 := ucast (drop_bit 8 poison_val)]\<rparr>"
  have sh: "shape os" using assms(1) by (simp add: os_ok_def)
  have len: "length (concreteStore os) = os_size os" using sh by (simp add: shape_def)
  have keep: "isByteConcrete os j \<Longrightarrow> concreteStore ?os ! j = concreteStore os ! j" for j
    using assms(3,4) by (cases "j = p \<or> j = p + 1") auto
  have vals: "byte_val \<sigma> ?os j = byte_val \<sigma> os j" "byte_ok ?os j = byte_ok os j" for \<sigma> j
    using frame_byte_val [of ?os j os \<sigma>] frame_byte_ok [of ?os j os] keep [of j] by simp_all
  have "os_ok ?os" using assms(1) sh vals(2) by (simp add: os_ok_def)
  moreover have "same_bytes os ?os" using vals(1) by (simp add: same_bytes_def)
  moreover have "half_at ?os p = Some poison_val" using assms(2) len by (simp add: half_at_def tag_half)
  moreover have "poke_tag p os = Some ?os" using assms(2) by (simp add: poke_tag_def)
  ultimately show ?thesis by (auto simp: fun_eq_iff)
qed

text \<open>The pair at an even offset carries the tag afterwards, the other bytes are as they were.\<close>

definition pair_tagged :: "object_state \<Rightarrow> nat \<Rightarrow> object_state \<Rightarrow> bool" where
  "pair_tagged os p os' \<longleftrightarrow> os_ok os' \<and> same_bytes os os' \<and> half_at os' p = Some poison_val \<and>
     (\<forall>j < os_size os. j \<noteq> p \<and> j \<noteq> p + 1 \<longrightarrow> isByteConcrete os' j = isByteConcrete os j \<and>
        isByteFlushed os' j = isByteFlushed os j \<and> concreteStore os' ! j = concreteStore os ! j)"

lemma puts_same:
  assumes "puts os (\<lambda>_. int i) f os'" "\<And>\<sigma>. env_ok \<sigma> \<Longrightarrow> f \<sigma> = byte_val \<sigma> os i"
  shows "os_ok os' \<and> same_bytes os os'"
  using assms by (auto simp: puts_def same_bytes_def)

lemma poison_pair_spec:
  assumes "os_ok os" "p + 1 < os_size os"
  shows "\<exists>W' os'. poison_pair cfg p (W, os) = Some (W', os') \<and> pair_tagged os p os'"
proof -
  have "p < os_size os" using assms(2) by simp
  from read8_full [OF assms(1) this, of cfg W] obtain b1 W1 os1 where r1: "read8 cfg p (W, os) = Some (b1, (W1, os1))"
    "os_ok os1" "same_bytes os os1" "same_caches os os1" "wf_expr b1" "getWidth b1 = 8"
    "\<And>\<sigma>. env_ok \<sigma> \<Longrightarrow> eval b1 \<sigma> = byte_val \<sigma> os p" by blast
  have s1: "os_size os1 = os_size os" using r1(3) by (simp add: same_bytes_def)
  from read8_full [OF r1(2), of "p + 1" cfg W1] s1 assms(2) obtain b2 W2 os2 where
    r2: "read8 cfg (p + 1) (W1, os1) = Some (b2, (W2, os2))" "os_ok os2" "same_bytes os1 os2" "same_caches os1 os2"
    "wf_expr b2" "getWidth b2 = 8" "\<And>\<sigma>. env_ok \<sigma> \<Longrightarrow> eval b2 \<sigma> = byte_val \<sigma> os1 (p + 1)" by auto
  have s2: "os_size os2 = os_size os" using r2(3) s1 by (simp add: same_bytes_def)
  have c2: "same_caches os os2" using r1(4) r2(4) by (simp add: same_caches_def)
  have e1: "byte_val \<sigma> os2 p = byte_val \<sigma> os p" "byte_val \<sigma> os2 (p + 1) = byte_val \<sigma> os1 (p + 1)" if "env_ok \<sigma>" for \<sigma>
    using r1(3) r2(3) that assms(2) s1 by (auto simp: same_bytes_def)
  from write8AsExpr_puts [OF r2(2), of p b1] s2 assms(2) r1(5,6) obtain os3 where
    w3: "write8AsExpr p b1 os2 = Some os3" "puts os2 (\<lambda>_. int p) (eval b1) os3" by auto
  have t3: "touched (Some False) os2 {p} os3" using write8AsExpr_touched [OF _ w3(1)] r2(2) by (simp add: os_ok_def)
  have p3: "os_ok os3" "same_bytes os2 os3" using puts_same [OF w3(2)] r1(7) e1(1) by auto
  have s3: "os_size os3 = os_size os" using p3(2) s2 by (simp add: same_bytes_def)
  from write8AsExpr_puts [OF p3(1), of "p + 1" b2] s3 assms(2) r2(5,6) obtain os4 where
    w4: "write8AsExpr (p + 1) b2 os3 = Some os4" "puts os3 (\<lambda>_. int (p + 1)) (eval b2) os4" by auto
  have t4: "touched (Some False) os3 {p + 1} os4" using write8AsExpr_touched [OF _ w4(1)] p3(1) by (simp add: os_ok_def)
  have t: "touched (Some False) os2 ({p} \<union> {p + 1}) os4" using t3 t4 by (rule touched_trans)
  have "byte_val \<sigma> os3 (p + 1) = byte_val \<sigma> os2 (p + 1)" if "env_ok \<sigma>" for \<sigma>
    using p3(2) that s2 assms(2) by (simp add: same_bytes_def)
  then have p4: "os_ok os4" "same_bytes os3 os4" using puts_same [OF w4(2)] r2(7) e1(2) by auto
  have s4: "os_size os4 = os_size os" using p4(2) s3 by (simp add: same_bytes_def)
  have nc: "\<not> isByteConcrete os4 p" "\<not> isByteConcrete os4 (p + 1)"
    using touched_in [OF t, of p] touched_in [OF t, of "p + 1"] s2 assms(2) by auto
  from poke_tag_spec [OF p4(1) _ nc] s4 assms(2) obtain os5 where
    k: "poke_tag p os4 = Some os5" "os_ok os5" "same_bytes os4 os5" "half_at os5 p = Some poison_val"
    "isByteConcrete os5 = isByteConcrete os4" "isByteFlushed os5 = isByteFlushed os4"
    "\<forall>j. j \<noteq> p \<and> j \<noteq> p + 1 \<longrightarrow> concreteStore os5 ! j = concreteStore os4 ! j" by auto
  have "same_bytes os os5"
    using r1(3) r2(3) p3(2) p4(2) k(3) by (meson same_bytes_trans)
  moreover have "isByteConcrete os5 j = isByteConcrete os j \<and> isByteFlushed os5 j = isByteFlushed os j \<and>
      concreteStore os5 ! j = concreteStore os ! j" if "j < os_size os" "j \<noteq> p" "j \<noteq> p + 1" for j
    using touched_out [OF t, of j] that s2 k(5-7) same_caches_obs [OF c2] c2 by (simp add: same_caches_def)
  ultimately have "pair_tagged os p os5" using k(2,4) by (simp add: pair_tagged_def)
  moreover have "poison_pair cfg p (W, os) = Some (W2, os5)"
    using r1(1) r2(1) w3(1) w4(1) k(1) by (simp add: poison_pair_def)
  ultimately show ?thesis by blast
qed

subsection \<open>Tags of the other pairs\<close>

lemma pair_bounds:
  assumes "aligned_object os" "j < os_size os"
  shows "even (pair_of os j)" "pair_of os j + 1 < os_size os" "j = pair_of os j \<or> j = pair_of os j + 1"
proof -
  have e: "even (os_size os)" and o: "odd_address os j = odd j"
    using assms(1) by (simp_all add: aligned_object_def aligned_parity)
  show "even (pair_of os j)" "pair_of os j + 1 < os_size os" "j = pair_of os j \<or> j = pair_of os j + 1"
    using e assms(2) by (auto simp: pair_of_def o elim: oddE) (metis Suc_lessI dvd_def even_Suc)
qed

lemma pair_of_cong: "os_object os' = os_object os \<Longrightarrow> pair_of os' j = pair_of os j"
  by (simp add: pair_of_def odd_address_def)

lemma tag_ok_frame:
  assumes "aligned_object os" "os_object os' = os_object os" "os_size os' = os_size os" "j < os_size os"
    "isByteConcrete os' j = isByteConcrete os j" "isByteFlushed os' j = isByteFlushed os j"
    "concreteStore os' ! pair_of os j = concreteStore os ! pair_of os j"
    "concreteStore os' ! (pair_of os j + 1) = concreteStore os ! (pair_of os j + 1)"
  shows "tag_ok os' j = tag_ok os j"
  using assms pair_of_cong [OF assms(2), of j]
  by (simp add: tag_ok_def isBytePoison_def half_at_def nice_def)

lemma same_bytes_object: "same_bytes os os' \<Longrightarrow> os_object os' = os_object os \<and> os_size os' = os_size os"
  by (simp add: same_bytes_def)

lemma pair_tagged_tags:
  assumes "aligned_object os" "pair_tagged os p os'" "even p" "p + 1 < os_size os" "j < os_size os"
  shows "j = p \<or> j = p + 1 \<Longrightarrow> tag_ok os' j" "tag_ok os j \<Longrightarrow> tag_ok os' j"
proof -
  have so: "os_object os' = os_object os" "os_size os' = os_size os"
    using assms(2) same_bytes_object by (auto simp: pair_tagged_def)
  have own: "tag_ok os' j" if "j = p \<or> j = p + 1"
  proof -
    have "pair_of os j = p" using that assms(1,3) by (auto simp: pair_of_def aligned_parity)
    then show ?thesis using assms(2) pair_of_cong [OF so(1), of j] by (simp add: tag_ok_def isBytePoison_def pair_tagged_def)
  qed
  then show "j = p \<or> j = p + 1 \<Longrightarrow> tag_ok os' j" .
  show "tag_ok os' j" if "tag_ok os j"
  proof (cases "j = p \<or> j = p + 1")
    case False
    note b = pair_bounds [OF assms(1,5)]
    have "pair_of os j \<noteq> p" "pair_of os j \<noteq> p + 1" "pair_of os j + 1 \<noteq> p" using b(1,3) False assms(3) by auto
    then have "tag_ok os' j = tag_ok os j"
      using assms(2,5) b(2) False by (intro tag_ok_frame [OF assms(1) so assms(5)]) (auto simp: pair_tagged_def)
    then show ?thesis using that by simp
  qed (rule own)
qed

text \<open>A step that keeps the bytes and the tags that were right.\<close>

definition tags_more :: "object_state \<Rightarrow> object_state \<Rightarrow> bool" where
  "tags_more os os' \<longleftrightarrow> os_ok os' \<and> same_bytes os os' \<and> (\<forall>j < os_size os. tag_ok os j \<longrightarrow> tag_ok os' j)"

lemma tags_more_trans: "tags_more a b \<Longrightarrow> tags_more b c \<Longrightarrow> tags_more a c"
  by (auto simp: tags_more_def same_bytes_def)

lemma tags_more_refl: "os_ok os \<Longrightarrow> tags_more os os"
  by (simp add: tags_more_def)

lemma poison_pair_tags:
  assumes "os_ok os" "aligned_object os" "even p" "p + 1 < os_size os"
  obtains W' os' where "poison_pair cfg p (W, os) = Some (W', os')" "tags_more os os'" "tag_ok os' p" "tag_ok os' (p + 1)"
proof -
  obtain W' os' where r: "poison_pair cfg p (W, os) = Some (W', os')" "pair_tagged os p os'"
    using poison_pair_spec [OF assms(1,4)] by blast
  have "tags_more os os'"
    using r(2) pair_tagged_tags(2) [OF assms(2) r(2) assms(3,4)] by (simp add: tags_more_def pair_tagged_def)
  moreover have "tag_ok os' p" "tag_ok os' (p + 1)"
    using pair_tagged_tags(1) [OF assms(2) r(2) assms(3,4)] assms(4) by auto
  ultimately show thesis using that r(1) by blast
qed

lemma poison_pairs_tags:
  assumes "os_ok os" "aligned_object os" "\<And>p. p \<in> set ps \<Longrightarrow> even p \<and> p + 1 < os_size os"
  shows "\<exists>W' os'. each_byte (poison_pair cfg) ps (W, os) = Some (W', os') \<and> tags_more os os' \<and>
    (\<forall>p \<in> set ps. tag_ok os' p \<and> tag_ok os' (p + 1))"
  using assms
proof (induction ps arbitrary: W os)
  case Nil
  then show ?case by (auto intro: tags_more_refl)
next
  case (Cons p ps)
  obtain W1 os1 where r: "poison_pair cfg p (W, os) = Some (W1, os1)" "tags_more os os1" "tag_ok os1 p" "tag_ok os1 (p + 1)"
    using poison_pair_tags [of os p cfg W thesis] Cons.prems by auto
  have so: "os_object os1 = os_object os" "os_size os1 = os_size os"
    using r(2) same_bytes_object by (auto simp: tags_more_def)
  have "\<exists>W' os'. each_byte (poison_pair cfg) ps (W1, os1) = Some (W', os') \<and> tags_more os1 os' \<and>
      (\<forall>p \<in> set ps. tag_ok os' p \<and> tag_ok os' (p + 1))"
    using r(2) Cons.prems so aligned_cong [OF so] by (intro Cons.IH) (auto simp: tags_more_def)
  then obtain W2 os2 where q: "each_byte (poison_pair cfg) ps (W1, os1) = Some (W2, os2)" "tags_more os1 os2"
    "\<forall>p \<in> set ps. tag_ok os2 p \<and> tag_ok os2 (p + 1)" by blast
  have "tag_ok os2 p" "tag_ok os2 (p + 1)"
    using q(2) r(3,4) Cons.prems(3) [of p] so(2) by (auto simp: tags_more_def)
  then show ?case using r(1) q tags_more_trans [OF r(2) q(2)] by auto
qed

subsection \<open>The ends and the middle of a write\<close>

lemma nice_tag: "nice os i \<Longrightarrow> tag_ok os i"
  by (simp add: tag_ok_def)

lemma psn_front_tags:
  assumes "os_ok os" "aligned_object os" "first < os_size os"
  shows "\<exists>W' os'. psn_front cfg first (W, os) = Some (W', os') \<and> tags_more os os' \<and>
    (odd first \<longrightarrow> tag_ok os' first \<and> tag_ok os' (first - 1))"
proof -
  have par: "odd_address os i = odd i" for i using assms(2) by (rule aligned_parity)
  show ?thesis
  proof (cases "odd first \<and> \<not> (nice os first \<and> nice os (first - 1))")
    case True
    then have f: "even (first - 1)" "first - 1 + 1 = first" "0 < first" by (auto dest: odd_pos)
    then obtain W1 os1 where "poison_pair cfg (first - 1) (W, os) = Some (W1, os1)" "tags_more os os1"
      "tag_ok os1 (first - 1)" "tag_ok os1 first"
      using poison_pair_tags [OF assms(1,2), of "first - 1" cfg W thesis] assms(3) by auto
    then show ?thesis using True par f by (auto simp: psn_front_def)
  next
    case False
    then have "psn_front cfg first (W, os) = Some (W, os)" using par odd_pos by (auto simp: psn_front_def)
    then show ?thesis using False tags_more_refl [OF assms(1)] by (auto simp: nice_tag)
  qed
qed

lemma psn_back_tags:
  assumes "os_ok os" "aligned_object os" "fin < os_size os"
  shows "\<exists>W' os'. psn_back cfg fin (W, os) = Some (W', os') \<and> tags_more os os' \<and>
    (even fin \<longrightarrow> tag_ok os' fin \<and> tag_ok os' (fin + 1))"
proof (cases "even fin")
  case True
  have par: "\<not> odd_address os fin" using aligned_parity [OF assms(2)] True by simp
  have b: "fin + 1 < os_size os"
    using pair_bounds(2) [OF assms(2,3)] par by (simp add: pair_of_def)
  show ?thesis
  proof (cases "nice os fin \<and> nice os (fin + 1)")
    case True
    then show ?thesis using par b tags_more_refl [OF assms(1)] by (simp add: psn_back_def nice_tag)
  next
    case False
    obtain W1 os1 where "poison_pair cfg fin (W, os) = Some (W1, os1)" "tags_more os os1" "tag_ok os1 fin" "tag_ok os1 (fin + 1)"
      using poison_pair_tags [OF assms(1,2) True b, of cfg W thesis] by blast
    then show ?thesis using False par b by (auto simp: psn_back_def)
  qed
next
  case False
  then have "psn_back cfg fin (W, os) = Some (W, os)" using aligned_parity [OF assms(2)] by (simp add: psn_back_def)
  then show ?thesis using False tags_more_refl [OF assms(1)] by simp
qed

lemma tagged_half_tags:
  assumes "aligned_object os" "even p" "half_at os p = Some poison_val"
  shows "tag_ok os p" "tag_ok os (p + 1)"
  using assms by (simp_all add: tag_ok_def isBytePoison_def pair_of_def aligned_parity)

text \<open>The middle of a write with a value that is not constant: all pairs inside it get the tag.\<close>

lemma psn_middle_tags:
  assumes "os_ok os" "aligned_object os" "psn_bytes (getWidth v) = Some n" "first + n \<le> os_size os"
    "\<not> isConstantExpr v" "getWidth v = 16 \<Longrightarrow> even first \<Longrightarrow> \<not> isByteConcrete os first \<and> \<not> isByteConcrete os (first + 1)"
  shows "\<exists>W' os'. psn_middle cfg first (even first \<and> odd (first + n - 1)) v (W, os) = Some (W', os') \<and> tags_more os os' \<and>
    (\<forall>p. even p \<and> first \<le> p \<and> p + 1 < first + n \<longrightarrow> tag_ok os' p \<and> tag_ok os' (p + 1))"
proof -
  let ?al = "even first \<and> odd (first + n - 1)"
  have pairs: "\<exists>W' os'. each_byte (poison_pair cfg) ps (W, os) = Some (W', os') \<and> tags_more os os' \<and>
      (\<forall>p. even p \<and> first \<le> p \<and> p + 1 < first + n \<longrightarrow> tag_ok os' p \<and> tag_ok os' (p + 1))"
    if "\<And>p. p \<in> set ps \<longleftrightarrow> even p \<and> first \<le> p \<and> p + 1 < first + n" for ps
    using poison_pairs_tags [OF assms(1,2), of ps cfg W] that assms(4) by fastforce
  consider (n1) "n = 1" "getWidth v = 8 \<or> getWidth v = 1" | (n2) "n = 2" "getWidth v = 16"
    | (n4) "n = 4" "getWidth v = 32" | (n8) "n = 8" "getWidth v = 64"
    using assms(3) by (auto simp: psn_bytes_def split: if_splits)
  then show ?thesis
  proof cases
    case n1
    then show ?thesis using tags_more_refl [OF assms(1)] by (auto simp: psn_middle_def)
  next
    case n2
    show ?thesis
    proof (cases "even first")
      case True
      have b: "first + 1 < os_size os" using assms(4) n2 by simp
      obtain os' where k: "poke_tag first os = Some os'" "os_ok os'" "same_bytes os os'" "half_at os' first = Some poison_val"
        "isByteConcrete os' = isByteConcrete os" "isByteFlushed os' = isByteFlushed os"
        "\<forall>j. j \<noteq> first \<and> j \<noteq> first + 1 \<longrightarrow> concreteStore os' ! j = concreteStore os ! j"
        using poke_tag_spec [OF assms(1) b] assms(6) n2 True by blast
      have "pair_tagged os first os'" using k by (simp add: pair_tagged_def)
      then have "tags_more os os'" "tag_ok os' first \<and> tag_ok os' (first + 1)"
        using pair_tagged_tags [OF assms(2) _ True b] k(2,3) b by (auto simp: tags_more_def)
      moreover have "p = first" if "even p" "first \<le> p" "p + 1 < first + n" for p using that n2 by presburger
      ultimately have "\<forall>p. even p \<and> first \<le> p \<and> p + 1 < first + n \<longrightarrow> tag_ok os' p \<and> tag_ok os' (p + 1)" by blast
      then show ?thesis using k(1) n2 True assms(5) \<open>tags_more os os'\<close> by (simp add: psn_middle_def)
    next
      case False
      then have "psn_middle cfg first ?al v (W, os) = Some (W, os)" using n2 assms(5) by (simp add: psn_middle_def)
      moreover have "\<not> (even p \<and> first \<le> p \<and> p + 1 < first + n)" for p using False n2 by presburger
      ultimately show ?thesis using tags_more_refl [OF assms(1)] by blast
    qed
  next
    case n4
    have "p \<in> set (if ?al then [first, first + 2] else [first + 1]) \<longleftrightarrow> even p \<and> first \<le> p \<and> p + 1 < first + n" for p
      using n4(1) by (auto, presburger+)
    from pairs [OF this] show ?thesis using n4 assms(5) by (simp add: psn_middle_def)
  next
    case n8
    have "p \<in> set (if ?al then [first, first + 2, first + 4, first + 6] else [first + 1, first + 3, first + 5]) \<longleftrightarrow>
        even p \<and> first \<le> p \<and> p + 1 < first + n" for p
      using n8(1) by (auto, presburger+)
    from pairs [OF this] show ?thesis using n8 assms(5) by (simp add: psn_middle_def)
  qed
qed

subsection \<open>Writes keep the invariant\<close>

lemma puts_value_same:
  assumes "puts_value os le n pos f os1" "same_bytes os1 os'" "os_ok os'"
  shows "puts_value os le n pos f os'"
  using assms by (simp add: puts_value_def same_bytes_def)

lemma tags_after_write:
  assumes "psn_ok os" "touched c os {first..<first + n} os1" "j < os_size os"
    "pair_of os j \<notin> {first..<first + n}" "pair_of os j + 1 \<notin> {first..<first + n}"
  shows "tag_ok os1 j"
proof -
  have al: "aligned_object os" and t: "tag_ok os j" using assms(1,3) by (auto simp: psn_ok_iff)
  note b = pair_bounds [OF al assms(3)]
  have so: "os_object os1 = os_object os" "os_size os1 = os_size os" using assms(2) by (auto simp: touched_def)
  have "j \<notin> {first..<first + n}" using b(3) assms(4,5) by auto
  then have "tag_ok os1 j = tag_ok os j"
    using touched_out [OF assms(2)] assms(3-5) b(2) by (intro tag_ok_frame [OF al so]) auto
  then show ?thesis using t by simp
qed

text \<open>
  A 16-bit write at an even address stores the tag without keeping the bytes as expressions, which
  is right only if neither byte is a constant; the other widths need no such condition.
\<close>

definition no_constant_half :: "nat \<Rightarrow> expr \<Rightarrow> bool" where
  "no_constant_half first v \<longleftrightarrow> isConstantExpr v \<or> getWidth v \<noteq> 16 \<or> odd first \<or> symbolic_bytes v"

lemma psn_middle_after_write:
  assumes ok: "os_ok os" "psn_ok os" and n: "psn_bytes (8 * n) = Some n" "first + n \<le> os_size os"
    and v: "wf_expr v" "getWidth v = 8 * n" "no_constant_half first v"
    and w: "write_const cfg first v os = Some os1" "os_ok os1"
  shows "\<exists>W' os2. psn_middle cfg first (even first \<and> odd (first + n - 1)) v (W, os1) = Some (W', os2) \<and> tags_more os1 os2 \<and>
    (\<forall>p. even p \<and> first \<le> p \<and> p + 1 < first + n \<longrightarrow> tag_ok os2 p \<and> tag_ok os2 (p + 1))"
proof -
  have sh: "shape os" and al: "aligned_object os" using ok by (auto simp: os_ok_def psn_ok_iff)
  have n': "0 < n" "n \<in> {1, 2, 4, 8}" using n(1) by (auto simp: psn_bytes_def split: if_splits)
  note t = write_const_touched [OF sh n(2) n'(1) v(1,2) w(1)]
  have so: "os_object os1 = os_object os" "os_size os1 = os_size os" using t(1) by (auto simp: touched_def)
  have al1: "aligned_object os1" using al aligned_cong [OF so] by simp
  show ?thesis
  proof (cases "isConstantExpr v")
    case True
    have tc: "touched (Some True) os {first..<first + n} os1" using t(2) [OF True n'(2)] .
    have "tag_ok os1 j" if "j \<in> {first..<first + n}" for j
      using touched_in [OF tc _ that] that n(2) tc by (intro nice_tag) (auto simp: nice_def touched_def)
    then have "\<forall>p. even p \<and> first \<le> p \<and> p + 1 < first + n \<longrightarrow> tag_ok os1 p \<and> tag_ok os1 (p + 1)" by auto
    moreover have "psn_middle cfg first (even first \<and> odd (first + n - 1)) v (W, os1) = Some (W, os1)"
      using True by (simp add: psn_middle_def)
    ultimately show ?thesis using tags_more_refl [OF w(2)] by blast
  next
    case False
    have nc: "\<not> isByteConcrete os1 first \<and> \<not> isByteConcrete os1 (first + 1)" if "getWidth v = 16" "even first"
    proof -
      have "symbolic_bytes v" using v(3) False that by (simp add: no_constant_half_def)
      then have ts: "touched (Some False) os {first..<first + n} os1" using t(3) False by blast
      have "n = 2" using that(1) v(2) by simp
      then show ?thesis using touched_in [OF ts, of first] touched_in [OF ts, of "first + 1"] n(2) by simp
    qed
    show ?thesis
      using psn_middle_tags [OF w(2) al1, of v n first cfg W] n v(2) so False nc by simp
  qed
qed

text \<open>The two ends after the middle.\<close>

lemma psn_ends_tags:
  assumes "os_ok os" "aligned_object os" "first \<le> fin" "fin < os_size os"
  obtains W1 os1 W' os' where "psn_front cfg first (W, os) = Some (W1, os1)" "psn_back cfg fin (W1, os1) = Some (W', os')"
    "tags_more os os'" "odd first \<Longrightarrow> tag_ok os' first \<and> tag_ok os' (first - 1)"
    "even fin \<Longrightarrow> tag_ok os' fin \<and> tag_ok os' (fin + 1)"
proof -
  have b: "first < os_size os" using assms(3,4) by simp
  obtain W1 os1 where f: "psn_front cfg first (W, os) = Some (W1, os1)" "tags_more os os1"
    "odd first \<longrightarrow> tag_ok os1 first \<and> tag_ok os1 (first - 1)"
    using psn_front_tags [OF assms(1,2) b, of cfg W] by blast
  have so: "os_object os1 = os_object os" "os_size os1 = os_size os" and ok: "os_ok os1"
    using f(2) same_bytes_object by (auto simp: tags_more_def)
  have al: "aligned_object os1" and e: "fin < os_size os1" using assms(2,4) aligned_cong [OF so] so(2) by auto
  obtain W2 os2 where r: "psn_back cfg fin (W1, os1) = Some (W2, os2)" "tags_more os1 os2"
    "even fin \<longrightarrow> tag_ok os2 fin \<and> tag_ok os2 (fin + 1)"
    using psn_back_tags [OF ok al e, of cfg W1] by blast
  have "tag_ok os2 first \<and> tag_ok os2 (first - 1)" if "odd first"
    using f(3) r(2) that b so(2) by (auto simp: tags_more_def)
  then show thesis using that f(1) r(1,3) tags_more_trans [OF f(2) r(2)] by blast
qed

text \<open>Which pairs the phases have to care for.\<close>

lemma all_tags:
  assumes ok: "psn_ok os" "touched c os {first..<first + n} os1" "0 < n" "first + n \<le> os_size os"
    and more: "tags_more os1 os2" "tags_more os2 os3"
    and mid: "\<And>p. even p \<Longrightarrow> first \<le> p \<Longrightarrow> p + 1 < first + n \<Longrightarrow> tag_ok os2 p \<and> tag_ok os2 (p + 1)"
    and ends: "odd first \<Longrightarrow> tag_ok os3 first \<and> tag_ok os3 (first - 1)"
      "even (first + n - 1) \<Longrightarrow> tag_ok os3 (first + n - 1) \<and> tag_ok os3 (first + n - 1 + 1)"
  shows "psn_ok os3"
proof -
  have al: "aligned_object os" using ok(1) by (simp add: psn_ok_iff)
  have so1: "os_object os1 = os_object os" "os_size os1 = os_size os" using ok(2) by (auto simp: touched_def)
  have so2: "os_object os2 = os_object os" "os_size os2 = os_size os"
    using more(1) same_bytes_object so1 by (auto simp: tags_more_def)
  have so3: "os_object os3 = os_object os" "os_size os3 = os_size os"
    using more(2) same_bytes_object so2 by (auto simp: tags_more_def)
  have "tag_ok os3 j" if j: "j < os_size os" for j
  proof -
    note b = pair_bounds [OF al j]
    let ?p = "pair_of os j"
    consider (out) "?p \<notin> {first..<first + n}" "?p + 1 \<notin> {first..<first + n}" | (inside) "first \<le> ?p" "?p + 1 < first + n"
      | (front) "?p + 1 = first" | (rear) "?p = first + n - 1" using ok(3) by fastforce
    then show ?thesis
    proof cases
      case out
      have "tag_ok os1 j" using tags_after_write [OF ok(1,2) j out] .
      then show ?thesis using more j so1 so2 by (simp add: tags_more_def)
    next
      case inside
      then have "tag_ok os2 j" using mid [OF b(1)] b(3) by auto
      then show ?thesis using more(2) j so2 by (simp add: tags_more_def)
    next
      case front
      then have "odd first" using b(1) by (metis even_plus_one_iff)
      then show ?thesis using ends(1) front b(3) by auto
    next
      case rear
      then show ?thesis using ends(2) b(1,3) by metis
    qed
  qed
  then show ?thesis using al aligned_cong [OF so3] so3(2) by (simp add: psn_ok_iff)
qed

lemma tase_write_const:
  assumes ok: "os_ok os" "psn_ok os" and off: "ZExt_create offset 32 = Some (ConstantExpr c)" "wf_apint c"
    and n: "n \<in> {1, 2, 4, 8}" "nat (apval c) + n \<le> os_size os"
    and v: "wf_expr v" "getWidth v = 8 * n" "no_constant_half (nat (apval c)) v"
  shows "\<exists>W' os'. tase_write cfg offset v (W, os) = Some (W', os') \<and> psn_ok os' \<and>
    puts_value os (isLittleEndian cfg) n (const_pos (nat (apval c))) (eval v) os'"
proof -
  define f where "f = nat (apval c)"
  define e where "e = f + n - 1"
  have pb: "psn_bytes (8 * n) = Some n" "0 < n" using n(1) by (auto simp: psn_bytes_def)
  note b = n(2) [folded f_def] and v' = v(1,2) v(3) [folded f_def]
  have eb: "f \<le> e" "e < os_size os" using b pb(2) by (auto simp: e_def)
  obtain os1 where w: "write_const cfg f v os = Some os1" "puts_value os (isLittleEndian cfg) n (const_pos f) (eval v) os1"
    using write_const_puts [OF ok(1) b pb(2) v(1,2), of cfg] by blast
  have ok1: "os_ok os1" and so: "os_object os1 = os_object os" "os_size os1 = os_size os"
    using w(2) by (auto simp: puts_value_def)
  have sh: "shape os" and al: "aligned_object os1"
    using ok aligned_cong [OF so] by (auto simp: os_ok_def psn_ok_iff)
  obtain W2 os2 where m: "psn_middle cfg f (even f \<and> odd e) v (W, os1) = Some (W2, os2)" "tags_more os1 os2"
    "\<And>p. even p \<Longrightarrow> f \<le> p \<Longrightarrow> p + 1 < f + n \<Longrightarrow> tag_ok os2 p \<and> tag_ok os2 (p + 1)"
    using psn_middle_after_write [OF ok pb(1) b v' w(1) ok1, of W] unfolding e_def by blast
  have so2: "os_object os2 = os_object os1" "os_size os2 = os_size os1" and ok2: "os_ok os2"
    using m(2) same_bytes_object by (auto simp: tags_more_def)
  obtain W3 os3 W4 os4 where r: "psn_front cfg f (W2, os2) = Some (W3, os3)" "psn_back cfg e (W3, os3) = Some (W4, os4)"
    "tags_more os2 os4" "odd f \<Longrightarrow> tag_ok os4 f \<and> tag_ok os4 (f - 1)" "even e \<Longrightarrow> tag_ok os4 e \<and> tag_ok os4 (e + 1)"
    using psn_ends_tags [OF ok2, of f e cfg W2 thesis] eb so so2 al aligned_cong [OF so2] by auto
  have "psn_ok os4"
    by (rule all_tags [OF ok(2) write_const_touched(1) [OF sh b pb(2) v(1,2) w(1)] pb(2) b m(2) r(3) m(3) r(4) r(5) [unfolded e_def]])
  moreover have "puts_value os (isLittleEndian cfg) n (const_pos f) (eval v) os4"
    using puts_value_same [OF w(2)] tags_more_trans [OF m(2) r(3)] by (simp add: tags_more_def)
  moreover have "tase_write cfg offset v (W, os) = Some (W4, os4)"
  proof -
    have "u32 (f + n - 1) = e" using size_bound [OF sh eb(2)] by (simp add: e_def)
    moreover have "odd_address os1 i = odd i" for i using al by (rule aligned_parity)
    ultimately show ?thesis
      using off(1) w(1) m(1) r(1,2) pb(1) v(2)
      by (simp add: tase_write_def write_expr_def applyPsnOnWrite_def f_def [symmetric] Let_def del: One_nat_def)
  qed
  ultimately show ?thesis unfolding f_def by blast
qed

end
