(* ===== verification/Memory_Properties.thy ===== *)
theory Memory_Properties
  imports Poison_Invariant
begin

text \<open>
  The properties of memory objects: their states implement arrays of bytes, reads and writes keep
  the cache invariants and the poison tags, and three corner cases in which the code does not.
\<close>

subsection \<open>Fresh objects\<close>

lemma fresh_object_ok:
  assumes "bits_fit (moSize mo)" "length native = moSize mo" "even (unat (moAddress mo))" "even (moSize mo)"
    "UseConstantArrays cfg"
  shows "\<exists>os. ObjectState_concrete cfg mo fT native W = Some (W, os) \<and> os_ok os \<and> psn_ok os \<and> os_size os = moSize mo \<and>
    concreteStore os = (if fT then native else replicate (moSize mo) 0) \<and> (\<forall>i. isByteConcrete os i)"
proof -
  define os where "os = \<lparr>os_object = mo, concreteMask = None, flushMask = None, knownSymbolics = None,
    updRoot = None, updHead = NoUpdates, os_size = moSize mo,
    concreteStore = (if fT then native else replicate (moSize mo) 0), readOnly = False\<rparr>"
  have obs: "isByteConcrete os i" "\<not> isByteFlushed os i" "knownSymbolic os i = None" for i
    by (simp_all add: os_def isByteConcrete_def isByteFlushed_def knownSymbolic_def)
  have "shape os" using assms(1,2) by (simp add: os_def shape_def)
  then have "os_ok os"
    using obs by (simp add: os_ok_def byte_ok_def) (simp add: os_def wf_updates_def const_bounded_def)
  moreover have "psn_ok os"
    using obs assms(3,4) by (simp add: psn_ok_iff tag_ok_def nice_def aligned_object_def os_def)
  moreover have "ObjectState_concrete cfg mo fT native W = Some (W, os)"
    using assms(5) by (simp add: ObjectState_concrete_def os_def)
  ultimately show ?thesis using obs by (auto simp: os_def)
qed

text \<open>The loop of \<open>makeSymbolic\<close>: its first step marks every byte flushed, each step makes one byte symbolic.\<close>

lemma make_symbolic_loop:
  assumes "shape os" "concreteMask os = None" "flushMask os = None" "knownSymbolics os = None" "k \<le> os_size os" "0 < k"
  defines "step \<equiv> \<lambda>i os. markByteFlushed i (setKnownSymbolic i None (markByteSymbolic i os))"
  shows "\<exists>m f. fold step [0..<k] os = os\<lparr>concreteMask := Some m, flushMask := Some f\<rparr> \<and>
    bits_valid (os_size os) m \<and> bits_valid (os_size os) f \<and>
    (\<forall>j < os_size os. BitArray_get m j = (k \<le> j) \<and> \<not> BitArray_get f j)"
  using assms(5,6)
proof (induction k)
  case (Suc k)
  have fit: "bits_fit (os_size os)" using assms(1) by (simp add: shape_def)
  show ?case
  proof (cases "k = 0")
    case True
    have v: "bits_valid (os_size os) (BitArray_new (os_size os) b)" for b using fit by (rule ba.fresh_valid)
    have "step 0 os = os\<lparr>concreteMask := Some (BitArray_unset (BitArray_new (os_size os) True) 0), flushMask := Some (BitArray_new (os_size os) False)\<rparr>"
      using assms(2-4) by (simp add: step_def mark_defs)
    moreover have "\<forall>j < os_size os. BitArray_get (BitArray_unset (BitArray_new (os_size os) True) 0) j = (1 \<le> j) \<and>
        \<not> BitArray_get (BitArray_new (os_size os) False) j"
      using fit v Suc.prems by (auto simp: ba.get_unset [OF v] ba.get_fresh)
    ultimately show ?thesis
      using True v by (intro exI [of _ "BitArray_unset (BitArray_new (os_size os) True) 0"] exI [of _ "BitArray_new (os_size os) False"])
        (simp add: ba.unset_valid)
  next
    case False
    then obtain m f where h: "fold step [0..<k] os = os\<lparr>concreteMask := Some m, flushMask := Some f\<rparr>"
      "bits_valid (os_size os) m" "bits_valid (os_size os) f"
      "\<forall>j < os_size os. BitArray_get m j = (k \<le> j) \<and> \<not> BitArray_get f j"
      using Suc by auto
    have "fold step [0..<Suc k] os = os\<lparr>concreteMask := Some (BitArray_unset m k), flushMask := Some (BitArray_unset f k)\<rparr>"
      using h(1) assms(4) by (simp add: step_def mark_defs)
    moreover have "\<forall>j < os_size os. BitArray_get (BitArray_unset m k) j = (Suc k \<le> j) \<and> \<not> BitArray_get (BitArray_unset f k) j"
      using h(2-4) Suc.prems by (auto simp: ba.get_unset [OF h(2)] ba.get_unset [OF h(3)])
    ultimately show ?thesis
      using h(2,3) by (intro exI [of _ "BitArray_unset m k"] exI [of _ "BitArray_unset f k"]) (simp add: ba.unset_valid)
  qed
qed simp

lemma symbolic_object_ok:
  assumes "bits_fit (moSize mo)" "0 < moSize mo" "byte_array a"
  shows "\<exists>os. ObjectState_symbolic mo a = Some os \<and> os_ok os \<and> os_size os = moSize mo \<and> os_object os = mo \<and>
    (\<forall>j < moSize mo. \<not> isByteConcrete os j) \<and>
    (\<forall>\<sigma> j. j < moSize mo \<longrightarrow> byte_val \<sigma> os j = initial \<sigma> a (int j))"
proof -
  define os where "os = \<lparr>os_object = mo, concreteMask = None, flushMask = None, knownSymbolics = None,
    updRoot = Some a, updHead = NoUpdates, os_size = moSize mo, concreteStore = replicate (moSize mo) 0, readOnly = False\<rparr>"
  have sh: "shape os" using assms(1) by (simp add: os_def shape_def)
  obtain m f where l: "makeSymbolic os = Some (os\<lparr>concreteMask := Some m, flushMask := Some f\<rparr>)"
    "bits_valid (os_size os) m" "bits_valid (os_size os) f"
    "\<And>j. j < os_size os \<Longrightarrow> \<not> BitArray_get m j \<and> \<not> BitArray_get f j"
    using make_symbolic_loop [OF sh, of "os_size os"] assms(2) by (auto simp: makeSymbolic_def os_def)
  let ?os = "os\<lparr>concreteMask := Some m, flushMask := Some f\<rparr>"
  have obs: "\<not> isByteConcrete ?os j" "isByteFlushed ?os j" "knownSymbolic ?os j = None" if "j < moSize mo" for j
    using l(4) that by (auto simp: isByteConcrete_def isByteFlushed_def knownSymbolic_def os_def)
  have "shape ?os" using sh l(2,3) by (simp add: shape_def)
  moreover have "byte_val \<sigma> ?os j = initial \<sigma> a (int j)" "byte_ok ?os j" if "j < moSize mo" for \<sigma> j
    using obs [OF that] by (simp_all add: byte_ok_def byte_val_def) (simp add: stored_def root_val_def os_def)
  ultimately have "os_ok ?os" using assms(3) by (simp add: os_ok_def os_def wf_updates_def)
  moreover have "ObjectState_symbolic mo a = Some ?os" using l(1) by (simp add: ObjectState_symbolic_def os_def)
  ultimately show ?thesis
    using obs(1) \<open>\<And>\<sigma> j. j < moSize mo \<Longrightarrow> byte_val \<sigma> ?os j = initial \<sigma> a (int j)\<close> by (auto simp: os_def)
qed

subsection \<open>Writes at symbolic offsets\<close>

lemma poke_all:
  assumes "os_ok os" "\<And>j. j < os_size os \<Longrightarrow> \<not> isByteConcrete os j" "m \<le> os_size os div 2"
  shows "\<exists>os'. each_byte (\<lambda>i. poke_tag (2 * i)) [0..<m] os = Some os' \<and> os_ok os' \<and> same_bytes os os' \<and>
    (\<forall>i < m. half_at os' (2 * i) = Some poison_val)"
proof -
  let ?Q = "\<lambda>k os'. os_ok os' \<and> same_bytes os os' \<and> isByteConcrete os' = isByteConcrete os \<and>
    (\<forall>i < k. half_at os' (2 * i) = Some poison_val)"
  have "\<exists>os'. each_byte (\<lambda>i. poke_tag (2 * i)) [0..<m] os = Some os' \<and> ?Q m os'"
  proof (rule each_byte_upto [where Q = ?Q])
    show "?Q 0 os" using assms(1) by simp
  next
    fix k s assume k: "k < m" and Q: "?Q k s"
    have sz: "os_size s = os_size os" using Q by (simp add: same_bytes_def)
    have b: "2 * k + 1 < os_size s" using k assms(3) sz by linarith
    then have "\<not> isByteConcrete s (2 * k)" "\<not> isByteConcrete s (2 * k + 1)" using assms(2) Q sz by auto
    from poke_tag_spec [OF _ b this] Q obtain s' where s': "poke_tag (2 * k) s = Some s'" "os_ok s'" "same_bytes s s'"
      "half_at s' (2 * k) = Some poison_val" "isByteConcrete s' = isByteConcrete s"
      "\<forall>j. j \<noteq> 2 * k \<and> j \<noteq> 2 * k + 1 \<longrightarrow> concreteStore s' ! j = concreteStore s ! j" by blast
    have "half_at s' (2 * i) = Some poison_val" if "i < Suc k" for i
    proof (cases "i = k")
      case False
      have "2 * i \<noteq> 2 * k" "2 * i \<noteq> 2 * k + 1" "2 * i + 1 \<noteq> 2 * k" "2 * i + 1 \<noteq> 2 * k + 1"
        using False by presburger+
      then have "half_at s' (2 * i) = half_at s (2 * i)"
        using s'(3,6) by (simp add: half_at_def same_bytes_def)
      then show ?thesis using Q that False by simp
    qed (use s'(4) in simp)
    then have "?Q (Suc k) s'" using s'(2,5) Q same_bytes_trans [OF _ s'(3)] by auto
    then show "\<exists>s'. poke_tag (2 * k) s = Some s' \<and> ?Q (Suc k) s'" using s'(1) by blast
  qed
  then show ?thesis by blast
qed

lemma all_tagged:
  assumes "aligned_object os" "\<And>i. i < os_size os div 2 \<Longrightarrow> half_at os (2 * i) = Some poison_val"
  shows "psn_ok os"
proof -
  have "tag_ok os j" if "j < os_size os" for j
  proof -
    note b = pair_bounds [OF assms(1) that]
    obtain i where i: "pair_of os j = 2 * i" using b(1) by (auto elim: evenE)
    then have "i < os_size os div 2" using b(2) by linarith
    then show ?thesis using assms(2) i by (simp add: tag_ok_def isBytePoison_def)
  qed
  then show ?thesis using assms(1) by (simp add: psn_ok_iff)
qed

lemma symbolic_object_tagged:
  assumes "os_ok os" "\<forall>j < os_size os. \<not> isByteConcrete os j" "aligned_object os" "moSize (os_object os) = os_size os"
  shows "\<exists>os'. applyPsnOnMakeSymbolic os = Some os' \<and> os_ok os' \<and> psn_ok os' \<and> same_bytes os os'"
proof -
  obtain os' where p: "each_byte (\<lambda>i. poke_tag (2 * i)) [0..<os_size os div 2] os = Some os'" "os_ok os'" "same_bytes os os'"
    "\<And>i. i < os_size os div 2 \<Longrightarrow> half_at os' (2 * i) = Some poison_val"
    using poke_all [OF assms(1), of "os_size os div 2"] assms(2) by auto
  have so: "os_object os' = os_object os" "os_size os' = os_size os" using p(3) by (auto simp: same_bytes_def)
  have "psn_ok os'" using aligned_cong [OF so] assms(3) so(2) p(4) by (intro all_tagged) auto
  moreover have "applyPsnOnMakeSymbolic os = Some os'"
    using p(1) assms(3,4) by (simp add: applyPsnOnMakeSymbolic_def aligned_object_def)
  ultimately show ?thesis using p(2,3) by blast
qed

lemma write_sym_all_symbolic:
  assumes "os_ok os" "symbolic_offsets off n" "0 < n" "wf_expr v" "getWidth v = 8 * n"
    "write_loop (write8_at off v) le n n os = Some os'" "j < os_size os"
  shows "\<not> isByteConcrete os' j"
proof -
  obtain m where m: "n = Suc m" using assms(3) by (cases n) auto
  obtain os1 where l: "write_loop (write8_at off v) le n m os = Some os1" "os_ok os1" "os_size os1 = os_size os"
    using sym_writer.write_loop_value [of os "os_size os" "os_object os" off n v m le] assms(1,2,4,5) m by auto
  let ?k = "byte_index le n m"
  have k: "?k < n" using m by (auto simp: byte_index_def)
  obtain c a where a: "ConstantExpr_create (int ?k) 32 = Some c" "Add_create off (ConstantExpr c) = Some a"
    "\<not> isConstantExpr a" "wf_expr a" "getWidth a = 32"
    using symbolic_offset_at [OF assms(2) k, of thesis] by blast
  obtain x where x: "Extract_create v (8 * m) 8 = Some x" "wf_expr x" "getWidth x = 8"
    using Concat_Extract_builds(2) [of v 8 "8 * m"] assms(4,5) m by (auto simp: builds_if_def)
  have "write8_sym a x os1 = Some os'"
    using assms(6) l(1) a(1,2) x(1) m by (simp add: write8_at_def)
  then show ?thesis using write8_sym_full [OF l(2) a(3-5) x(2,3)] l(3) assms(7) by auto
qed

lemma tase_write_sym:
  assumes ok: "os_ok os" "psn_ok os" and off: "ZExt_create offset 32 = Some off" "\<not> isConstantExpr off" "symbolic_offsets off n"
    and v: "0 < n" "wf_expr v" "getWidth v = 8 * n"
  shows "\<exists>W' os'. tase_write cfg offset v (W, os) = Some (W', os') \<and> psn_ok os' \<and>
    puts_value os (isLittleEndian cfg) n (offset_at off) (eval v) os'"
proof -
  let ?loop = "write_loop (write8_at off v) (isLittleEndian cfg) n n os"
  obtain os1 where w: "?loop = Some os1" "puts_value os (isLittleEndian cfg) n (offset_at off) (eval v) os1"
    using write_sym_puts [OF ok(1) off(3) v, of cfg] by blast
  have ok1: "os_ok os1" and so: "os_object os1 = os_object os" "os_size os1 = os_size os"
    using w(2) by (auto simp: puts_value_def)
  have nc: "\<not> isByteConcrete os1 j" if "j < os_size os1" for j
    using write_sym_all_symbolic [OF ok(1) off(3) v w(1)] that so(2) by simp
  obtain os2 where p: "each_byte (\<lambda>i. poke_tag (2 * i)) [0..<os_size os1 div 2] os1 = Some os2" "os_ok os2" "same_bytes os1 os2"
    "\<And>i. i < os_size os1 div 2 \<Longrightarrow> half_at os2 (2 * i) = Some poison_val"
    using poke_all [OF ok1 nc, of "os_size os1 div 2"] by auto
  have so2: "os_object os2 = os_object os" "os_size os2 = os_size os" using p(3) so by (auto simp: same_bytes_def)
  have al: "aligned_object os" "aligned_object os1" "aligned_object os2"
    using ok(2) aligned_cong [OF so] aligned_cong [OF so2] by (auto simp: psn_ok_iff)
  have "psn_ok os2" using p(4) so so2 by (intro all_tagged [OF al(3)]) simp
  moreover have "puts_value os (isLittleEndian cfg) n (offset_at off) (eval v) os2"
    using puts_value_same [OF w(2) p(3,2)] .
  moreover have "tase_write cfg offset v (W, os) = Some (W, os2)"
  proof -
    have nw: "getWidth v \<noteq> 1" "getWidth v div 8 = n" using v by auto
    have "write_expr cfg offset v os = Some os1"
      using off(1,2) w(1) nw v(3) by (cases off) (simp_all add: write_expr_def Let_def)
    moreover have "even (os_size os1)" "\<not> odd_address os1 0"
      using al(2) aligned_parity [OF al(2), of 0] by (auto simp: aligned_object_def)
    ultimately show ?thesis
      using off(1,2) p(1) by (cases off) (simp_all add: tase_write_def applyPsnOnWrite_def)
  qed
  ultimately show ?thesis by blast
qed

subsection \<open>Reads\<close>

lemma reexpress_spec:
  assumes "os_ok os" "i < os_size os"
  shows "\<exists>W' os'. reexpress cfg i (W, os) = Some (W', os') \<and> os_ok os' \<and> same_bytes os os'"
proof -
  obtain e W1 os1 where r: "read8 cfg i (W, os) = Some (e, (W1, os1))" "os_ok os1" "same_bytes os os1" "wf_expr e" "getWidth e = 8"
    "\<And>\<sigma>. env_ok \<sigma> \<Longrightarrow> eval e \<sigma> = byte_val \<sigma> os i"
    using read8_full [OF assms, of cfg W] by blast
  have sz: "i < os_size os1" using r(3) assms(2) by (simp add: same_bytes_def)
  obtain os2 where w: "write8AsExpr i e os1 = Some os2" "puts os1 (\<lambda>_. int i) (eval e) os2"
    using write8AsExpr_puts [OF r(2) sz r(4,5)] by blast
  have "eval e \<sigma> = byte_val \<sigma> os1 i" if "env_ok \<sigma>" for \<sigma> using r(3,6) that assms(2) by (simp add: same_bytes_def)
  then have "os_ok os2" "same_bytes os1 os2" using puts_same [OF w(2)] by auto
  then show ?thesis using r(1) w(1) same_bytes_trans [OF r(3)] by (auto simp: reexpress_def)
qed

lemma applyPsnOnRead_keeps_bytes:
  assumes "os_ok os"
  shows "\<exists>W' os'. applyPsnOnRead cfg off (W, os) = Some (W', os') \<and> os_ok os' \<and> same_bytes os os'"
proof (cases "isConstantExpr off")
  case False
  have "\<exists>s'. each_byte (reexpress cfg) [0..<os_size os] (W, os) = Some s' \<and> os_ok (snd s') \<and> same_bytes os (snd s')"
  proof (rule each_byte_upto [where Q = "\<lambda>_ s. os_ok (snd s) \<and> same_bytes os (snd s)"])
    fix i and s :: mstate assume i: "i < os_size os" and Q: "os_ok (snd s) \<and> same_bytes os (snd s)"
    then have "i < os_size (snd s)" by (simp add: same_bytes_def)
    then show "\<exists>s'. reexpress cfg i s = Some s' \<and> os_ok (snd s') \<and> same_bytes os (snd s')"
      using reexpress_spec [of "snd s" i cfg "fst s"] Q same_bytes_trans by auto
  qed (use assms in simp)
  then show ?thesis using False by (auto simp: applyPsnOnRead_def)
qed (use assms in \<open>simp add: applyPsnOnRead_def\<close>)

subsection \<open>Reads and writes through one interface\<close>

lemma puts_value_offset:
  assumes "os_ok os" "nat (apval c) + n \<le> os_size os" "wf_apint c" "puts_value os le n (const_pos (nat (apval c))) f os'"
  shows "puts_value os le n (offset_at (ConstantExpr c)) f os'"
proof -
  have "byte_index le n i < n" if "i < n" for i using that by (auto simp: byte_index_def)
  then show ?thesis using assms(4) const_offset_at [OF assms(1-3)] unfolding puts_value_def by simp
qed

text \<open>
  The widths the poison operations handle at a constant offset, and the alignment the fast path of
  a read needs.
\<close>

definition write_safe :: "expr \<Rightarrow> expr \<Rightarrow> nat \<Rightarrow> bool" where
  "write_safe off v n \<longleftrightarrow>
     (case off of ConstantExpr c \<Rightarrow> n \<in> {1, 2, 4, 8} \<and> no_constant_half (nat (apval c)) v | _ \<Rightarrow> True)"

definition read_safe :: "expr \<Rightarrow> nat \<Rightarrow> bool" where
  "read_safe off n \<longleftrightarrow> (case off of ConstantExpr c \<Rightarrow> n \<in> {2, 4, 8} \<longrightarrow> even (nat (apval c)) | _ \<Rightarrow> True)"

lemma object_write:
  assumes "os_ok os" "psn_ok os" "ZExt_create offset 32 = Some off" "wf_expr off" "access_ok os off n"
    "wf_expr v" "getWidth v = 8 * n" "write_safe off v n"
  shows "\<exists>W' os'. tase_write cfg offset v (W, os) = Some (W', os') \<and> psn_ok os' \<and>
    puts_value os (isLittleEndian cfg) n (offset_at off) (eval v) os'"
proof (cases "isConstantExpr off")
  case True
  then obtain c where c: "off = ConstantExpr c" by (cases off) auto
  have b: "nat (apval c) + n \<le> os_size os" "wf_apint c" "n \<in> {1, 2, 4, 8}" "no_constant_half (nat (apval c)) v"
    using assms(4,5,8) c by (auto simp: access_ok_def write_safe_def)
  show ?thesis
    using tase_write_const [OF assms(1,2) assms(3) [unfolded c] b(2,3,1) assms(6,7) b(4), of cfg W]
      puts_value_offset [OF assms(1) b(1,2)] unfolding c by blast
next
  case False
  then have "symbolic_offsets off n" "0 < n" using assms(5) by (cases off; auto simp: access_ok_def)+
  then show ?thesis using tase_write_sym [OF assms(1-3) False _ _ assms(6,7)] by blast
qed

lemma read_expr_value:
  assumes "os_ok os" "psn_ok os" "poisonSize cfg = 2" "isLittleEndian cfg" "ZExt_create offset 32 = Some off" "wf_expr off"
    "access_ok os off n" "read_safe off n"
  shows "\<exists>e W' os'. read_expr cfg offset (8 * n) (W, os) = Some (e, (W', os')) \<and> os_ok os' \<and> same_bytes os os' \<and>
    wf_expr e \<and> getWidth e = 8 * n \<and>
    (\<forall>\<sigma>. env_ok \<sigma> \<and> (\<forall>k < n. offset_at off k \<sigma> < int (os_size os)) \<longrightarrow>
       eval e \<sigma> = value_at \<sigma> os True n (\<lambda>k. offset_at off k \<sigma>))"
proof (cases "isConstantExpr off")
  case True
  then obtain c where c: "off = ConstantExpr c" by (cases off) auto
  have b: "nat (apval c) + n \<le> os_size os" "wf_apint c" "0 < n" "n \<in> {2, 4, 8} \<Longrightarrow> even (nat (apval c))"
    using assms(6-8) c by (auto simp: access_ok_def read_safe_def)
  have v: "value_at \<sigma> os True n (\<lambda>k. offset_at off k \<sigma>) = value_at \<sigma> os True n (\<lambda>k. const_pos (nat (apval c)) k \<sigma>)" for \<sigma>
    unfolding value_at_def c using const_offset_at [OF assms(1) b(1,2)]
    by (intro le_bytes_cong) (simp add: byte_index_def)
  have "read_expr cfg offset (8 * n) (W, os) = read_const cfg (nat (apval c)) (8 * n) (W, os)"
    using assms(5) c by (simp add: read_expr_def)
  then show ?thesis using read_const_value [OF assms(1-4) b(3,1,4), of W] unfolding v by auto
next
  case False
  then have s: "symbolic_offsets off n" "0 < n" "0 < os_size os" using assms(7) by (cases off; auto simp: access_ok_def)+
  have "8 * n \<noteq> 1" by presburger
  then have "read_expr cfg offset (8 * n) (W, os) = read_loop (read8_at cfg off) (isLittleEndian cfg) n n (W, os)"
    using assms(5) False by (cases off) (simp_all add: read_expr_def)
  then show ?thesis using read_sym_value [OF assms(1) s(3,1,2), of cfg W] assms(4) by simp
qed

lemma object_read:
  assumes "os_ok os" "psn_ok os" "poisonSize cfg = 2" "isLittleEndian cfg" "ZExt_create offset 32 = Some off" "wf_expr off"
    "access_ok os off n" "read_safe off n"
  shows "\<exists>e W' os'. tase_read cfg offset (8 * n) (W, os) = Some (e, (W', os')) \<and> os_ok os' \<and> same_bytes os os' \<and>
    wf_expr e \<and> getWidth e = 8 * n \<and>
    (\<forall>\<sigma>. env_ok \<sigma> \<and> (\<forall>k < n. offset_at off k \<sigma> < int (os_size os)) \<longrightarrow>
       eval e \<sigma> = value_at \<sigma> os True n (\<lambda>k. offset_at off k \<sigma>))"
proof -
  obtain e W1 os1 where r: "read_expr cfg offset (8 * n) (W, os) = Some (e, (W1, os1))" "os_ok os1" "same_bytes os os1"
    "wf_expr e" "getWidth e = 8 * n" "\<forall>\<sigma>. env_ok \<sigma> \<and> (\<forall>k < n. offset_at off k \<sigma> < int (os_size os)) \<longrightarrow>
       eval e \<sigma> = value_at \<sigma> os True n (\<lambda>k. offset_at off k \<sigma>)"
    using read_expr_value [OF assms, of W] by blast
  obtain W2 os2 where p: "applyPsnOnRead cfg offset (W1, os1) = Some (W2, os2)" "os_ok os2" "same_bytes os1 os2"
    using applyPsnOnRead_keeps_bytes [OF r(2), of cfg offset W1] by blast
  have "tase_read cfg offset (8 * n) (W, os) = Some (e, (W2, os2))" using r(1) p(1) by (simp add: tase_read_def)
  then show ?thesis using r(4-6) p(2) same_bytes_trans [OF r(3) p(3)] by blast
qed

subsection \<open>Sample objects\<close>

definition sample_cfg :: mem_config where
  "sample_cfg = \<lparr>useCheatCons = True, isLittleEndian = True, UseConstantArrays = True, poisonSize = 2\<rparr>"

definition sample_world :: array_world where
  "sample_world = \<lparr>nextObject = 1, ufm = [], ufm_cheat = [], cachedSymbolicArrays = [], concreteArrays = [],
     tmp_arr_id = 0, const_arr_id = 0\<rparr>"

definition sample_mo :: memory_object where
  "sample_mo = \<lparr>moId = 0, moAddress = 0x10, moSize = 8, moName = ''buf'', isLocal = False, isGlobal = True,
     isFixed = True, isUserSpecified = False\<rparr>"

definition sample_os :: object_state where
  "sample_os = snd (the (ObjectState_concrete sample_cfg sample_mo True [1, 2, 3, 4, 5, 6, 7, 8] sample_world))"

definition const32 :: "int \<Rightarrow> expr" where
  "const32 i = ConstantExpr (APInt 32 i)"

lemma sample_os_ok:
  "os_ok sample_os" "psn_ok sample_os" "os_size sample_os = 8" "concreteStore sample_os = [1, 2, 3, 4, 5, 6, 7, 8]"
  "\<And>i. isByteConcrete sample_os i"
proof -
  have "bits_fit (moSize sample_mo)" "length [1, 2, 3, 4, 5, 6, 7, 8 :: 8 word] = moSize sample_mo"
    "even (unat (moAddress sample_mo))" "even (moSize sample_mo)" "UseConstantArrays sample_cfg"
    by (simp_all add: bits_fit_def sample_mo_def sample_cfg_def)
  from fresh_object_ok [OF this, of True sample_world]
  show "os_ok sample_os" "psn_ok sample_os" "os_size sample_os = 8" "concreteStore sample_os = [1, 2, 3, 4, 5, 6, 7, 8]"
    "\<And>i. isByteConcrete sample_os i"
    by (auto simp: sample_os_def sample_mo_def)
qed

lemma const32_wf: "0 \<le> i \<Longrightarrow> i < 2 ^ 32 \<Longrightarrow> wf_expr (const32 i) \<and> ZExt_create (const32 i) 32 = Some (const32 i)"
  by (simp add: const32_def wf_apint_def in_width_def ZExt_create_def)

lemma sample_access: "i + n \<le> 8 \<Longrightarrow> 0 < n \<Longrightarrow> access_ok sample_os (const32 (int i)) n"
  by (simp add: access_ok_def const32_def sample_os_ok)

section \<open>Properties\<close>

text \<open>
  C3. A write to memory returns; the object then holds the bytes of the value at the places the
  offset denotes and its old bytes everywhere else, under every assignment. The cache invariants
  hold again, and so does the invariant of the poison tags: a byte without the tag is concrete and
  not flushed. At a constant offset the bytes lie inside the object, there are 1, 2, 4 or 8 of them,
  and a write of 2 bytes of an expression at an even offset has no constant byte
  (\<open>constant_half_overwritten\<close> shows why). A symbolic offset stays symbolic when the byte numbers are added.
\<close>

theorem object_write_refines:
  assumes "os_ok os" "psn_ok os" "ZExt_create offset 32 = Some off" "wf_expr off" "access_ok os off n"
    "wf_expr v" "getWidth v = 8 * n"
    and "\<And>c. off = ConstantExpr c \<Longrightarrow> n \<in> {1, 2, 4, 8} \<and> (n = 2 \<and> even (nat (apval c)) \<longrightarrow> isConstantExpr v \<or> symbolic_bytes v)"
  shows "\<exists>W' os'. tase_write cfg offset v (W, os) = Some (W', os') \<and> psn_ok os' \<and>
    puts_value os (isLittleEndian cfg) n (offset_at off) (eval v) os'"
proof -
  have "write_safe off v n" using assms(7,8) by (cases off) (auto simp: write_safe_def no_constant_half_def)
  with assms(1-7) show ?thesis by (rule object_write)
qed

theorem object_write_refines_witness:
  "\<exists>W' os'. tase_write sample_cfg (const32 2) (sample_read 0) (sample_world, sample_os) = Some (W', os') \<and> psn_ok os' \<and>
     byte_val sample_env os' 2 = 200 \<and> byte_val sample_env os' 3 = 4"
proof -
  have "access_ok sample_os (const32 2) 1" using sample_access [of 2 1] by simp
  then obtain W' os' where w: "tase_write sample_cfg (const32 2) (sample_read 0) (sample_world, sample_os) = Some (W', os')"
    "psn_ok os'" "puts_value sample_os True 1 (offset_at (const32 2)) (eval (sample_read 0)) os'"
    using object_write_refines [OF sample_os_ok(1,2), of "const32 2" "const32 2" 1 "sample_read 0" sample_cfg sample_world]
      const32_wf [of 2] by (auto simp: sample_cfg_def)
  have "offset_at (const32 2) 0 sample_env = 2" by (simp add: offset_at_def const32_def)
  then have "byte_val sample_env os' 2 = byte_of 200 0" "byte_val sample_env os' 3 = byte_val sample_env sample_os 3"
    using w(3) sample_read_eval [of 0] by (auto simp: puts_value_def sample_os_ok byte_index_def)
  then show ?thesis using w(1,2) by (simp add: byte_of_def byte_val_def sample_os_ok take_bit_eq_mod)
qed

text \<open>
  C4. With tags of 2 bytes on a little-endian host, a read of \<open>n\<close> bytes returns an expression of the
  width asked for whose value, under every assignment that keeps the offset inside the object, is
  made of the object's bytes there, the lowest address least significant; it changes no byte. A
  constant offset lies inside the object and is even for reads of 2, 4 or 8 bytes, which may take
  the fast path: it returns the bytes of the store when none carries the tag. A symbolic offset
  stays symbolic when the byte numbers are added.
\<close>

theorem object_read_value:
  assumes "os_ok os" "psn_ok os" "poisonSize cfg = 2" "isLittleEndian cfg" "ZExt_create offset 32 = Some off" "wf_expr off"
    "access_ok os off n"
    and "\<And>c. off = ConstantExpr c \<Longrightarrow> n \<in> {2, 4, 8} \<Longrightarrow> even (nat (apval c))"
  shows "\<exists>e W' os'. tase_read cfg offset (8 * n) (W, os) = Some (e, (W', os')) \<and> os_ok os' \<and> same_bytes os os' \<and>
    wf_expr e \<and> getWidth e = 8 * n \<and>
    (\<forall>\<sigma>. env_ok \<sigma> \<and> (\<forall>k < n. offset_at off k \<sigma> < int (os_size os)) \<longrightarrow>
       eval e \<sigma> = value_at \<sigma> os True n (\<lambda>k. offset_at off k \<sigma>))"
proof -
  have "read_safe off n" using assms(8) by (cases off) (auto simp: read_safe_def)
  with assms(1-7) show ?thesis by (rule object_read)
qed

text \<open>An offset the sample assignment puts at 200 modulo 8, and the value found there.\<close>

definition sample_offset :: expr where
  "sample_offset = ZExtExpr (ExtractExpr (sample_read 1) 0 3) 32"

lemma sample_offset_facts:
  "wf_expr sample_offset" "getWidth sample_offset = 32" "symbolic_offsets sample_offset 1" "eval sample_offset sample_env = 1"
proof -
  show "symbolic_offsets sample_offset 1" by code_simp
  show "wf_expr sample_offset" "getWidth sample_offset = 32" "eval sample_offset sample_env = 1"
    by (simp_all add: sample_offset_def take_bit_eq_mod)
qed

theorem object_read_value_witness:
  "\<exists>e W' os'. tase_read sample_cfg sample_offset 8 (sample_world, sample_os) = Some (e, (W', os')) \<and> eval e sample_env = 2"
proof -
  note f = sample_offset_facts
  have "access_ok sample_os sample_offset 1" "\<And>c. sample_offset \<noteq> ConstantExpr c"
    using f(3) by (simp_all add: access_ok_def sample_offset_def sample_os_ok)
  then obtain e W' os' where r: "tase_read sample_cfg sample_offset (8 * 1) (sample_world, sample_os) = Some (e, (W', os'))"
    "\<forall>\<sigma>. env_ok \<sigma> \<and> (\<forall>k < 1. offset_at sample_offset k \<sigma> < int (os_size sample_os)) \<longrightarrow>
       eval e \<sigma> = value_at \<sigma> sample_os True 1 (\<lambda>k. offset_at sample_offset k \<sigma>)"
    using object_read_value [OF sample_os_ok(1,2), of sample_cfg sample_offset sample_offset 1 sample_world]
      ZExt_same [OF f(2)] f(1) by (auto simp: sample_cfg_def)
  have "offset_at sample_offset 0 sample_env = 1" by (simp add: offset_at_def f(4))
  then have "eval e sample_env = 2"
    using r(2) by (simp add: sample_os_ok value_at_def byte_val_def byte_index_def)
  then show ?thesis using r(1) by auto
qed

text \<open>
  C5. With tags of 2 bytes on a little-endian host, what is written at a constant offset inside the
  object, 1, 2, 4 or 8 bytes and at an even offset if more than one, is read back there: the
  expression the read returns has the value of the expression written. An expression of 2 bytes
  that is no constant must have no constant byte (\<open>constant_half_overwritten\<close>).
\<close>

theorem object_write_read:
  assumes "os_ok os" "psn_ok os" "poisonSize cfg = 2" "isLittleEndian cfg" "ZExt_create offset 32 = Some (ConstantExpr c)"
    "wf_apint c" "nat (apval c) + n \<le> os_size os" "n \<in> {1, 2, 4, 8}" "n \<noteq> 1 \<longrightarrow> even (nat (apval c))"
    "wf_expr v" "getWidth v = 8 * n" "n = 2 \<longrightarrow> isConstantExpr v \<or> symbolic_bytes v"
  shows "\<exists>W1 os1 e s2. tase_write cfg offset v (W, os) = Some (W1, os1) \<and> tase_read cfg offset (8 * n) (W1, os1) = Some (e, s2) \<and>
    wf_expr e \<and> getWidth e = getWidth v \<and> (\<forall>\<sigma>. env_ok \<sigma> \<longrightarrow> eval e \<sigma> = eval v \<sigma>)"
proof -
  have n: "0 < n" using assms(8) by auto
  have half: "no_constant_half (nat (apval c)) v" using assms(11,12) by (auto simp: no_constant_half_def)
  obtain W1 os1 where w: "tase_write cfg offset v (W, os) = Some (W1, os1)" "psn_ok os1"
    "puts_value os (isLittleEndian cfg) n (const_pos (nat (apval c))) (eval v) os1"
    using tase_write_const [OF assms(1,2,5,6,8,7,10,11) half, of cfg W] by blast
  have ok1: "os_ok os1" "os_size os1 = os_size os" using w(3) by (auto simp: puts_value_def)
  have acc: "access_ok os1 (ConstantExpr c) n" "read_safe (ConstantExpr c) n"
    using assms(7,8,9) n ok1(2) by (auto simp: access_ok_def read_safe_def)
  obtain e W2 os2 where r: "tase_read cfg offset (8 * n) (W1, os1) = Some (e, (W2, os2))" "wf_expr e" "getWidth e = 8 * n"
    "\<And>\<sigma>. env_ok \<sigma> \<Longrightarrow> \<forall>k < n. offset_at (ConstantExpr c) k \<sigma> < int (os_size os1) \<Longrightarrow>
       eval e \<sigma> = value_at \<sigma> os1 True n (\<lambda>k. offset_at (ConstantExpr c) k \<sigma>)"
    using object_read [OF ok1(1) w(2) assms(3,4,5) _ acc] assms(6) by (metis wf_expr.simps(1))
  have "eval e \<sigma> = eval v \<sigma>" if "env_ok \<sigma>" for \<sigma>
  proof -
    have pv: "puts_value os True n (offset_at (ConstantExpr c)) (eval v) os1"
      using puts_value_offset [OF assms(1,7,6) w(3)] assms(4) by simp
    have b: "0 \<le> offset_at (ConstantExpr c) k \<sigma> \<and> offset_at (ConstantExpr c) k \<sigma> < int (os_size os)" if "k < n" for k
      unfolding const_offset_at [OF assms(1,7,6) that] using assms(7) that by linarith
    have "eval e \<sigma> = take_bit (8 * n) (eval v \<sigma>)"
      using r(4) [OF that] puts_value_at [OF pv that b] b ok1(2) by simp
    then show ?thesis using eval_in_width [OF that assms(10)] assms(11) by simp
  qed
  then show ?thesis using w(1) r(1-3) assms(11) by auto
qed

theorem object_write_read_witness:
  "\<exists>W1 os1 e s2. tase_write sample_cfg (const32 4) (ZExtExpr (sample_read 2) 32) (sample_world, sample_os) = Some (W1, os1) \<and>
     tase_read sample_cfg (const32 4) 32 (W1, os1) = Some (e, s2) \<and> eval e sample_env = 202"
proof -
  have "ZExt_create (const32 4) 32 = Some (ConstantExpr (APInt 32 4))" by (simp add: const32_def ZExt_create_def)
  moreover have "wf_apint (APInt 32 4)" by (simp add: wf_apint_def in_width_def)
  ultimately obtain W1 os1 e s2 where
    "tase_write sample_cfg (const32 4) (ZExtExpr (sample_read 2) 32) (sample_world, sample_os) = Some (W1, os1)"
    "tase_read sample_cfg (const32 4) (8 * 4) (W1, os1) = Some (e, s2)"
    "\<forall>\<sigma>. env_ok \<sigma> \<longrightarrow> eval e \<sigma> = eval (ZExtExpr (sample_read 2) 32) \<sigma>"
    using object_write_read [OF sample_os_ok(1,2), of sample_cfg "const32 4" "APInt 32 4" 4 "ZExtExpr (sample_read 2) 32" sample_world]
    by (auto simp: sample_cfg_def sample_os_ok)
  then show ?thesis by auto
qed

text \<open>
  C20. The constructors establish the invariants: an object with concrete contents is well formed
  and needs no tags; an object with symbolic contents is well formed, its bytes have the values of
  its array, and after \<open>applyPsnOnMakeSymbolic\<close> all of them carry the tag.
\<close>

theorem new_objects_wellformed:
  assumes "bits_fit (moSize mo)" "0 < moSize mo" "even (unat (moAddress mo))" "even (moSize mo)" "UseConstantArrays cfg"
    "length native = moSize mo" "byte_array a"
  shows "(\<exists>os. ObjectState_concrete cfg mo True native W = Some (W, os) \<and> os_ok os \<and> psn_ok os) \<and>
    (\<exists>os os'. ObjectState_symbolic mo a = Some os \<and> applyPsnOnMakeSymbolic os = Some os' \<and> os_ok os' \<and> psn_ok os' \<and>
       (\<forall>\<sigma> j. env_ok \<sigma> \<longrightarrow> j < moSize mo \<longrightarrow> byte_val \<sigma> os' j = initial \<sigma> a (int j)))"
proof
  show "\<exists>os. ObjectState_concrete cfg mo True native W = Some (W, os) \<and> os_ok os \<and> psn_ok os"
    using fresh_object_ok [OF assms(1,6,3,4,5), of True W] by blast
  obtain os where os: "ObjectState_symbolic mo a = Some os" "os_ok os" "os_size os = moSize mo" "os_object os = mo"
    "\<forall>j < moSize mo. \<not> isByteConcrete os j" "\<And>\<sigma> j. j < moSize mo \<Longrightarrow> byte_val \<sigma> os j = initial \<sigma> a (int j)"
    using symbolic_object_ok [OF assms(1,2,7)] by blast
  have "aligned_object os" using assms(3,4) os(3,4) by (simp add: aligned_object_def)
  then obtain os' where "applyPsnOnMakeSymbolic os = Some os'" "os_ok os'" "psn_ok os'" "same_bytes os os'"
    using symbolic_object_tagged [OF os(2)] os(3-5) by auto
  then show "\<exists>os os'. ObjectState_symbolic mo a = Some os \<and> applyPsnOnMakeSymbolic os = Some os' \<and> os_ok os' \<and> psn_ok os' \<and>
      (\<forall>\<sigma> j. env_ok \<sigma> \<longrightarrow> j < moSize mo \<longrightarrow> byte_val \<sigma> os' j = initial \<sigma> a (int j))"
    using os(1,3,6) by (auto simp: same_bytes_def)
qed

theorem new_objects_wellformed_witness:
  "\<exists>os os'. ObjectState_symbolic sample_mo sample_array = Some os \<and> applyPsnOnMakeSymbolic os = Some os' \<and> psn_ok os' \<and>
     byte_val sample_env os' 3 = 203"
proof -
  have "bits_fit (moSize sample_mo)" "0 < moSize sample_mo" "even (unat (moAddress sample_mo))" "even (moSize sample_mo)"
    "UseConstantArrays sample_cfg" "length [1, 2, 3, 4, 5, 6, 7, 8 :: 8 word] = moSize sample_mo" "byte_array sample_array"
    by (simp_all add: bits_fit_def sample_mo_def sample_cfg_def byte_array_def)
  from new_objects_wellformed [OF this, of sample_world]
  obtain os os' where "ObjectState_symbolic sample_mo sample_array = Some os" "applyPsnOnMakeSymbolic os = Some os'" "psn_ok os'"
    "byte_val sample_env os' 3 = initial sample_env sample_array (int 3)" by (auto simp: sample_mo_def)
  then show ?thesis using sample_initial [of 3] by auto
qed

text \<open>
  A 16-bit write at an even address of a value with one constant byte stores the tag over that
  byte although it stays marked concrete: the byte 7 is read back as \<open>0xAD\<close>.
\<close>

theorem constant_half_overwritten:
  "\<exists>W os. tase_write sample_cfg (const32 0) (ConcatExpr (sample_read 0) (ConstantExpr (APInt 8 7))) (sample_world, sample_os) = Some (W, os) \<and>
     map_option fst (tase_read sample_cfg (const32 0) 8 (W, os)) = Some (ConstantExpr (APInt 8 0xAD))"
proof -
  have "map_option (\<lambda>s. map_option fst (tase_read sample_cfg (const32 0) 8 s))
      (tase_write sample_cfg (const32 0) (ConcatExpr (sample_read 0) (ConstantExpr (APInt 8 7))) (sample_world, sample_os)) =
    Some (Some (ConstantExpr (APInt 8 0xAD)))" by code_simp
  then show ?thesis by auto
qed

text \<open>
  After a read at a symbolic offset every byte is kept as an expression and marked symbolic,
  but no tag is written: the invariant of the tags is lost, and native code takes the bytes for
  concrete ones.
\<close>

theorem symbolic_read_loses_tags:
  "\<exists>e W os. tase_read sample_cfg sample_offset 8 (sample_world, sample_os) = Some (e, (W, os)) \<and> psn_ok sample_os \<and>
     \<not> psn_ok os \<and> \<not> isByteConcrete os 0 \<and> \<not> isBytePoison os 0"
proof -
  have "map_option (\<lambda>(e, W, os). (psn_ok os, isByteConcrete os 0, isBytePoison os 0))
      (tase_read sample_cfg sample_offset 8 (sample_world, sample_os)) = Some (False, False, False)" by code_simp
  then show ?thesis using sample_os_ok(2) by auto
qed

end
