(* ===== verification/Solver_Front.thy ===== *)
theory Solver_Front
  imports Solver_Query Int_Eval
begin

text \<open>
  Queries to a solver and the front end \<open>Solver\<close> (\<^verbatim>\<open>klee/include/klee/Solver.h\<close>,
  \<^verbatim>\<open>klee/lib/Solver/Solver.cpp\<close>), and the interface of a solver implementation with its default
  method (\<^verbatim>\<open>klee/include/klee/SolverImpl.h\<close>, \<^verbatim>\<open>klee/lib/Solver/SolverImpl.cpp\<close>). The virtual methods
  are the fields of a record. A call changes the implementation's state; its result is \<open>None\<close> if
  the program stops (an assertion, \<open>abort\<close>), and otherwise an answer, or \<open>None\<close> where the method
  returns false. The locale \<open>solver_contract\<close> states what the answers mean; its laws are those the
  comments of the headers give.
\<close>

subsection \<open>Meaning of a query\<close>

definition satisfiable :: "expr list \<Rightarrow> bool" where
  "satisfiable cs \<longleftrightarrow> (\<exists>\<sigma>. contents \<sigma> \<and> holds cs \<sigma>)"

definition invalid :: "expr list \<Rightarrow> expr \<Rightarrow> bool" where
  "invalid cs e \<longleftrightarrow> (\<forall>\<sigma>. contents \<sigma> \<and> holds cs \<sigma> \<longrightarrow> eval e \<sigma> = 0)"

subsection \<open>Queries\<close>

record query =
  qconstraints :: "expr list"
  qexpr :: expr

definition withExpr :: "expr \<Rightarrow> query \<Rightarrow> query" where
  "withExpr e q = q\<lparr>qexpr := e\<rparr>"

definition withFalse :: "query \<Rightarrow> query" where
  "withFalse q = q\<lparr>qexpr := ConstantExpr (ConstantExpr_alloc 0 1)\<rparr>"

definition negateExpr :: "query \<Rightarrow> query option" where
  "negateExpr q = map_option (\<lambda>z. withExpr z q) (createIsZero (qexpr q))"

text \<open>Where a method returns false its caller does too.\<close>

type_synonym ('s, 'a) call = "'s \<Rightarrow> ('a option \<times> 's) option"

definition returns :: "'a \<Rightarrow> ('s, 'a) call" where
  "returns x s = Some (Some x, s)"

definition fails :: "('s, 'a) call" where
  "fails s = Some (None, s)"

definition andthen :: "('s, 'a) call \<Rightarrow> ('a \<Rightarrow> ('s, 'b) call) \<Rightarrow> ('s, 'b) call" where
  "andthen m f s = (case m s of None \<Rightarrow> None | Some (None, s') \<Rightarrow> Some (None, s') | Some (Some x, s') \<Rightarrow> f x s')"

text \<open>A call that builds an expression first.\<close>

definition building :: "'e option \<Rightarrow> ('e \<Rightarrow> ('s, 'a) call) \<Rightarrow> ('s, 'a) call" where
  "building x f s = Option.bind x (\<lambda>e. f e s)"

text \<open>\<open>computeInitialValues\<close> answers whether there is a solution, with the values of the arrays.\<close>

type_synonym init_values = "8 word list list option"

record 's solver_impl =
  computeTruth :: "query \<Rightarrow> ('s, bool) call"
  computeValidity :: "query \<Rightarrow> ('s, validity) call"
  computeValue :: "query \<Rightarrow> ('s, expr) call"
  computeInitialValues :: "query \<Rightarrow> array list \<Rightarrow> ('s, init_values) call"

text \<open>\<open>SolverImpl::computeValidity\<close>, which an implementation inherits.\<close>

definition SolverImpl_computeValidity :: "(query \<Rightarrow> ('s, bool) call) \<Rightarrow> query \<Rightarrow> ('s, validity) call" where
  "SolverImpl_computeValidity truth q =
     andthen (truth q) (\<lambda>isTrue.
       if isTrue then returns ValidityTrue
       else building (negateExpr q) (\<lambda>n. andthen (truth n) (\<lambda>isFalse.
         returns (if isFalse then ValidityFalse else ValidityUnknown))))"

subsection \<open>The front end\<close>

definition Solver_evaluate :: "'s solver_impl \<Rightarrow> query \<Rightarrow> ('s, validity) call" where
  "Solver_evaluate impl q s =
     (if getWidth (qexpr q) \<noteq> 1 then None
      else case qexpr q of
          ConstantExpr CE \<Rightarrow> returns (if ConstantExpr_isTrue CE then ValidityTrue else ValidityFalse) s
        | _ \<Rightarrow> computeValidity impl q s)"

definition Solver_mustBeTrue :: "'s solver_impl \<Rightarrow> query \<Rightarrow> ('s, bool) call" where
  "Solver_mustBeTrue impl q s =
     (if getWidth (qexpr q) \<noteq> 1 then None
      else case qexpr q of
          ConstantExpr CE \<Rightarrow> returns (ConstantExpr_isTrue CE) s
        | _ \<Rightarrow> computeTruth impl q s)"

definition Solver_mustBeFalse :: "'s solver_impl \<Rightarrow> query \<Rightarrow> ('s, bool) call" where
  "Solver_mustBeFalse impl q = building (negateExpr q) (Solver_mustBeTrue impl)"

definition Solver_mayBeTrue :: "'s solver_impl \<Rightarrow> query \<Rightarrow> ('s, bool) call" where
  "Solver_mayBeTrue impl q = andthen (Solver_mustBeFalse impl q) (\<lambda>res. returns (\<not> res))"

definition Solver_mayBeFalse :: "'s solver_impl \<Rightarrow> query \<Rightarrow> ('s, bool) call" where
  "Solver_mayBeFalse impl q = andthen (Solver_mustBeTrue impl q) (\<lambda>res. returns (\<not> res))"

definition Solver_getValue :: "'s solver_impl \<Rightarrow> query \<Rightarrow> ('s, apint) call" where
  "Solver_getValue impl q =
     (case qexpr q of
        ConstantExpr CE \<Rightarrow> returns CE
      | _ \<Rightarrow> andthen (computeValue impl q) (\<lambda>tmp. case tmp of ConstantExpr c \<Rightarrow> returns c | _ \<Rightarrow> (\<lambda>s. None)))"

definition Solver_getInitialValues :: "'s solver_impl \<Rightarrow> query \<Rightarrow> array list \<Rightarrow> ('s, 8 word list list) call" where
  "Solver_getInitialValues impl q objects =
     andthen (computeInitialValues impl q objects)
       (\<lambda>r. case r of None \<Rightarrow> fails | Some vals \<Rightarrow> returns vals)"

subsection \<open>\<open>getRange\<close>\<close>

text \<open>
  A binary search between \<open>lo\<close> and \<open>hi\<close>; a call that fails is an assertion failure. The bounds stay
  within 64 bits, since \<open>lo \<le> mid < hi\<close>.
\<close>

function bsearch :: "(nat \<Rightarrow> ('s, bool) call) \<Rightarrow> nat \<Rightarrow> nat \<Rightarrow> 's \<Rightarrow> (nat \<times> 's) option" where
  "bsearch ask lo hi s =
     (if lo < hi then
        (let mid = lo + (hi - lo) div 2 in
         case ask mid s of
           Some (Some res, s') \<Rightarrow> if res then bsearch ask lo mid s' else bsearch ask (mid + 1) hi s'
         | _ \<Rightarrow> None)
      else Some (lo, s))"
  by pat_completeness auto
termination
  by (relation "measure (\<lambda>(_, lo, hi, _). hi - lo)") auto

declare bsearch.simps [simp del]

text \<open>The three questions: whether the value has no bit from \<open>mid\<close> on, whether it can be 0, and whether it is at most \<open>mid\<close>.\<close>

definition no_bits_from :: "expr \<Rightarrow> nat \<Rightarrow> expr option" where
  "no_bits_from e mid =
     do { m \<leftarrow> ConstantExpr_create (int mid) (getWidth e);
          sh \<leftarrow> LShr_create e (ConstantExpr m);
          z \<leftarrow> ConstantExpr_create 0 (getWidth e);
          Eq_create sh (ConstantExpr z) }"

definition is_null :: "expr \<Rightarrow> expr option" where
  "is_null e = do { z \<leftarrow> ConstantExpr_create 0 (getWidth e); Eq_create e (ConstantExpr z) }"

definition at_most :: "expr \<Rightarrow> nat \<Rightarrow> expr option" where
  "at_most e mid = do { m \<leftarrow> ConstantExpr_create (int mid) (getWidth e); Ule_create e (ConstantExpr m) }"

definition range_bounds :: "'s solver_impl \<Rightarrow> query \<Rightarrow> 's \<Rightarrow> ((nat \<times> nat) \<times> 's) option" where
  "range_bounds impl q s0 =
     (let e = qexpr q in
      do { (bits, s1) \<leftarrow> bsearch (\<lambda>mid. building (no_bits_from e mid) (\<lambda>x. Solver_mustBeTrue impl (withExpr x q))) 0 (getWidth e) s0;
           (res, s2) \<leftarrow> building (is_null e) (\<lambda>x. Solver_mayBeTrue impl (withExpr x q)) s1;
           zero \<leftarrow> res;
           top_value \<leftarrow> bits64_maxValueOfNBits bits;
           (mn, s3) \<leftarrow> (if zero then Some (0, s2)
              else bsearch (\<lambda>mid. building (at_most e mid) (\<lambda>x. Solver_mayBeTrue impl (withExpr x q))) 0 (unat top_value) s2);
           (mx, s4) \<leftarrow> bsearch (\<lambda>mid. building (at_most e mid) (\<lambda>x. Solver_mustBeTrue impl (withExpr x q))) mn (unat top_value) s3;
           Some ((mn, mx), s4) })"

definition Solver_getRange :: "'s solver_impl \<Rightarrow> query \<Rightarrow> 's \<Rightarrow> ((apint \<times> apint) \<times> 's) option" where
  "Solver_getRange impl q s =
     do { ((mn, mx), s') \<leftarrow>
            (if getWidth (qexpr q) = 1 then
               (case Solver_evaluate impl q s of
                  Some (Some ValidityTrue, s') \<Rightarrow> Some ((1, 1), s')
                | Some (Some ValidityFalse, s') \<Rightarrow> Some ((0, 0), s')
                | Some (Some ValidityUnknown, s') \<Rightarrow> Some ((0, 1), s')
                | _ \<Rightarrow> None)
             else case qexpr q of
                 ConstantExpr CE \<Rightarrow> (if bitWidth CE \<le> 64 then Some ((nat (apval CE), nat (apval CE)), s) else None)
               | _ \<Rightarrow> range_bounds impl q s);
          l \<leftarrow> ConstantExpr_create (int mn) (getWidth (qexpr q));
          h \<leftarrow> ConstantExpr_create (int mx) (getWidth (qexpr q));
          Some ((l, h), s') }"

subsection \<open>The contract of a solver\<close>

text \<open>
  The expressions of queries: well-formed, over the arrays of \<open>A\<close>, without division and without
  nodes that prevent optimisation, which an evaluation would not fold.
\<close>

definition askable :: "array set \<Rightarrow> expr \<Rightarrow> bool" where
  "askable A e \<longleftrightarrow> wf_expr e \<and> pure_in {} A e"

definition query_ok :: "array set \<Rightarrow> query \<Rightarrow> bool" where
  "query_ok A q \<longleftrightarrow> (\<forall>c \<in> set (qconstraints q). askable A c \<and> getWidth c = 1) \<and> askable A (qexpr q) \<and>
     satisfiable (qconstraints q)"

definition bool_query :: "array set \<Rightarrow> query \<Rightarrow> bool" where
  "bool_query A q \<longleftrightarrow> query_ok A q \<and> getWidth (qexpr q) = 1"

definition true_validity :: "query \<Rightarrow> validity" where
  "true_validity q = (if valid (qconstraints q) (qexpr q) then ValidityTrue
     else if invalid (qconstraints q) (qexpr q) then ValidityFalse else ValidityUnknown)"

definition feasible :: "query \<Rightarrow> int \<Rightarrow> bool" where
  "feasible q x \<longleftrightarrow> (\<exists>\<sigma>. contents \<sigma> \<and> holds (qconstraints q) \<sigma> \<and> eval (qexpr q) \<sigma> = x)"

text \<open>The truth of the constraints and the value of the expression depend on the contents of \<open>B\<close> alone.\<close>

definition determined_by :: "query \<Rightarrow> array set \<Rightarrow> bool" where
  "determined_by q B \<longleftrightarrow> (\<forall>\<sigma> \<tau>. contents \<sigma> \<and> contents \<tau> \<and> (\<forall>a \<in> B. \<sigma> a = \<tau> a) \<longrightarrow>
     holds (qconstraints q) \<sigma> = holds (qconstraints q) \<tau> \<and> eval (qexpr q) \<sigma> = eval (qexpr q) \<tau>)"

text \<open>The values given for the arrays make the constraints true and the expression false.\<close>

definition refutes :: "query \<Rightarrow> array list \<Rightarrow> 8 word list list \<Rightarrow> bool" where
  "refutes q objects vals \<longleftrightarrow> length vals = length objects \<and>
     (\<forall>m. Assignment_bind Map.empty objects vals = Some m \<longrightarrow>
        (let \<sigma> = assignment_env \<lparr>allowFreeValues = False, bindings = m\<rparr>
         in holds (qconstraints q) \<sigma> \<and> eval (qexpr q) \<sigma> = 0))"

definition good_init :: "query \<Rightarrow> array list \<Rightarrow> init_values \<Rightarrow> bool" where
  "good_init q objects r = (case r of None \<Rightarrow> valid (qconstraints q) (qexpr q) | Some vals \<Rightarrow> refutes q objects vals)"

text \<open>
  A call returns, keeps the invariant, and an answer satisfies \<open>P\<close>; there is an answer unless \<open>may_fail\<close>
  says that the call may return false.
\<close>

definition answers :: "bool \<Rightarrow> ('s \<Rightarrow> bool) \<Rightarrow> ('a \<Rightarrow> bool) \<Rightarrow> ('a option \<times> 's) option \<Rightarrow> bool" where
  "answers may_fail sinv P res \<longleftrightarrow>
     (\<exists>r s. res = Some (r, s) \<and> sinv s \<and> (\<forall>x. r = Some x \<longrightarrow> P x) \<and> (r = None \<longrightarrow> may_fail))"

text \<open>The laws, for solvers that may fail on a query (a timeout, say) and for those that never do.\<close>

locale solver_contract =
  fixes may_fail :: bool and A :: "array set" and S :: "'s solver_impl" and sinv :: "'s \<Rightarrow> bool"
  assumes truth: "sinv s \<Longrightarrow> bool_query A q \<Longrightarrow> answers may_fail sinv (\<lambda>b. b = valid (qconstraints q) (qexpr q)) (computeTruth S q s)"
    and validity: "sinv s \<Longrightarrow> bool_query A q \<Longrightarrow> answers may_fail sinv (\<lambda>v. v = true_validity q) (computeValidity S q s)"
    and value_ok: "sinv s \<Longrightarrow> query_ok A q \<Longrightarrow> answers may_fail sinv (\<lambda>v. \<exists>c. v = ConstantExpr c \<and> wf_apint c \<and>
       bitWidth c = getWidth (qexpr q) \<and> feasible q (apval c)) (computeValue S q s)"
    and init: "sinv s \<Longrightarrow> bool_query A q \<Longrightarrow> distinct objects \<Longrightarrow> set objects \<subseteq> A \<Longrightarrow> determined_by q (set objects) \<Longrightarrow>
       answers may_fail sinv (good_init q objects) (computeInitialValues S q objects s)"

subsection \<open>Rules for calls\<close>

lemma answersI: "res = Some (r, s) \<Longrightarrow> sinv s \<Longrightarrow> (\<And>x. r = Some x \<Longrightarrow> P x) \<Longrightarrow> (r = None \<Longrightarrow> may_fail) \<Longrightarrow> answers may_fail sinv P res"
  by (auto simp: answers_def)

lemma answers_returns [simp]: "answers may_fail sinv P (returns x s) \<longleftrightarrow> sinv s \<and> P x"
  by (auto simp: answers_def returns_def)

lemma answers_fails [simp]: "answers may_fail sinv P (fails s) \<longleftrightarrow> sinv s \<and> may_fail"
  by (auto simp: answers_def fails_def)

lemma answers_andthen:
  assumes "answers may_fail sinv P (m s)" "\<And>x s'. P x \<Longrightarrow> sinv s' \<Longrightarrow> answers may_fail sinv Q (f x s')"
  shows "answers may_fail sinv Q (andthen m f s)"
  using assms by (auto simp: answers_def andthen_def split: option.splits)

lemma answers_building: "x = Some e \<Longrightarrow> answers may_fail sinv P (f e s) \<Longrightarrow> answers may_fail sinv P (building x f s)"
  by (simp add: building_def)

lemma answers_weaken: "answers may_fail sinv P m \<Longrightarrow> (\<And>x. P x \<Longrightarrow> Q x) \<Longrightarrow> answers may_fail sinv Q m"
  by (auto simp: answers_def)

lemma answers_fail_weaken: "answers may_fail sinv P m \<Longrightarrow> answers (may_fail \<or> F) sinv P m"
  by (auto simp: answers_def)

lemma query_simps [simp]:
  "qexpr (withExpr e q) = e" "qconstraints (withExpr e q) = qconstraints q"
  "qexpr (withFalse q) = ConstantExpr (APInt 1 0)" "qconstraints (withFalse q) = qconstraints q"
  by (simp_all add: withExpr_def withFalse_def ConstantExpr_alloc_def)

lemma contents_env_ok [simp]: "contents \<sigma> \<Longrightarrow> env_ok \<sigma>"
  by (simp add: contents_def)

lemma askable_wf [simp]: "askable A e \<Longrightarrow> wf_expr e"
  by (simp add: askable_def)

lemma askable_const [simp]: "askable A (ConstantExpr c) \<longleftrightarrow> wf_apint c"
  by (simp add: askable_def)

lemma askable_built:
  assumes "builds res w f" "nd_in {} A res"
  obtains x where "res = Some x" "askable A x" "getWidth x = w" "\<And>\<sigma>. env_ok \<sigma> \<Longrightarrow> eval x \<sigma> = f \<sigma>"
  using assms by (auto simp: builds_if_def askable_def)

lemma negate_built:
  assumes "askable A e"
  obtains z where "createIsZero e = Some z" "askable A z" "getWidth z = 1"
    "\<And>\<sigma>. env_ok \<sigma> \<Longrightarrow> eval z \<sigma> = of_bool (eval e \<sigma> = 0)"
  by (rule askable_built [OF createIsZero_builds Eq_nd(2)]) (use assms in \<open>auto simp: askable_def\<close>)

lemma bool_value: "wf_expr e \<Longrightarrow> getWidth e = 1 \<Longrightarrow> env_ok \<sigma> \<Longrightarrow> eval e \<sigma> = 0 \<or> eval e \<sigma> = 1"
  using eval_in_width [of \<sigma> e] by (auto simp: in_width_def)

lemma query_okD:
  assumes "query_ok A q"
  shows "askable A (qexpr q)" "satisfiable (qconstraints q)" "c \<in> set (qconstraints q) \<Longrightarrow> askable A c \<and> getWidth c = 1"
  using assms by (auto simp: query_ok_def)

lemma query_ok_withExpr: "query_ok A q \<Longrightarrow> askable A e \<Longrightarrow> query_ok A (withExpr e q)"
  by (simp add: query_ok_def)

lemma query_ok_withFalse: "query_ok A q \<Longrightarrow> bool_query A (withFalse q)"
  by (simp add: query_ok_def bool_query_def wf_apint_def in_width_def)

lemma negateExpr_ok:
  assumes "bool_query A q"
  obtains n where "negateExpr q = Some n" "bool_query A n" "qconstraints n = qconstraints q"
    "valid (qconstraints n) (qexpr n) = invalid (qconstraints q) (qexpr q)"
    "invalid (qconstraints n) (qexpr n) = valid (qconstraints q) (qexpr q)" "createIsZero (qexpr q) = Some (qexpr n)"
proof -
  have q: "askable A (qexpr q)" "getWidth (qexpr q) = 1" using assms by (auto simp: bool_query_def query_ok_def)
  obtain z where z: "createIsZero (qexpr q) = Some z" "askable A z" "getWidth z = 1"
    "\<And>\<sigma>. env_ok \<sigma> \<Longrightarrow> eval z \<sigma> = of_bool (eval (qexpr q) \<sigma> = 0)" using negate_built [OF q(1)] by blast
  have "eval z \<sigma> = 1 \<longleftrightarrow> eval (qexpr q) \<sigma> = 0" "eval z \<sigma> = 0 \<longleftrightarrow> eval (qexpr q) \<sigma> = 1" if "contents \<sigma>" for \<sigma>
    using z(4) [of \<sigma>] bool_value [of "qexpr q" \<sigma>] q that by auto
  then show ?thesis
    using z assms q(1) by (intro that [of "withExpr z q"])
      (auto simp: negateExpr_def bool_query_def query_ok_withExpr valid_def invalid_def)
qed

lemma bool_queryD: "bool_query A q \<Longrightarrow> query_ok A q" "bool_query A q \<Longrightarrow> getWidth (qexpr q) = 1"
  by (simp_all add: bool_query_def)

lemma constant_answer:
  assumes "bool_query A q" "qexpr q = ConstantExpr CE"
  shows "valid (qconstraints q) (qexpr q) = ConstantExpr_isTrue CE" "invalid (qconstraints q) (qexpr q) = (\<not> ConstantExpr_isTrue CE)"
proof -
  have "bitWidth CE = 1" "apval CE = 0 \<or> apval CE = 1"
    using assms by (auto simp: bool_query_def query_ok_def askable_def wf_apint_def in_width_def)
  then show "valid (qconstraints q) (qexpr q) = ConstantExpr_isTrue CE" "invalid (qconstraints q) (qexpr q) = (\<not> ConstantExpr_isTrue CE)"
    using assms by (auto simp: valid_def invalid_def bool_query_def query_ok_def satisfiable_def ConstantExpr_isTrue_def)
qed

lemma not_both: "satisfiable cs \<Longrightarrow> \<not> (valid cs e \<and> invalid cs e)"
  by (auto simp: satisfiable_def valid_def invalid_def)

text \<open>\<open>SolverImpl::computeValidity\<close> is right if \<open>computeTruth\<close> is.\<close>

lemma default_validity:
  assumes "\<And>q s. sinv s \<Longrightarrow> bool_query A q \<Longrightarrow> answers may_fail sinv (\<lambda>b. b = valid (qconstraints q) (qexpr q)) (truth q s)"
    and "sinv s" "bool_query A q"
  shows "answers may_fail sinv (\<lambda>v. v = true_validity q) (SolverImpl_computeValidity truth q s)"
proof -
  obtain n where n: "negateExpr q = Some n" "bool_query A n" "valid (qconstraints n) (qexpr n) = invalid (qconstraints q) (qexpr q)"
    using negateExpr_ok [OF assms(3)] by metis
  have neg: "answers may_fail sinv (\<lambda>v. v = true_validity q) (building (negateExpr q) (\<lambda>n. andthen (truth n)
      (\<lambda>isFalse. returns (if isFalse then ValidityFalse else ValidityUnknown))) s')"
    if "sinv s'" "\<not> valid (qconstraints q) (qexpr q)" for s'
    by (rule answers_building [OF n(1)], rule answers_andthen, rule assms(1) [OF that(1) n(2)])
       (use n(3) that(2) in \<open>simp add: true_validity_def\<close>)
  show ?thesis
    unfolding SolverImpl_computeValidity_def
    by (rule answers_andthen, rule assms(1) [OF assms(2,3)]) (use neg in \<open>auto simp: true_validity_def\<close>)
qed

context solver_contract
begin

lemma mustBeTrue_answers:
  assumes "sinv s" "bool_query A q"
  shows "answers may_fail sinv (\<lambda>b. b = valid (qconstraints q) (qexpr q)) (Solver_mustBeTrue S q s)"
  using assms truth [OF assms] constant_answer(1) [OF assms(2)] bool_queryD(2) [OF assms(2)]
  by (cases "qexpr q") (simp_all add: Solver_mustBeTrue_def)

lemma mustBeFalse_answers:
  assumes "sinv s" "bool_query A q"
  shows "answers may_fail sinv (\<lambda>b. b = invalid (qconstraints q) (qexpr q)) (Solver_mustBeFalse S q s)"
  unfolding Solver_mustBeFalse_def
  by (rule negateExpr_ok [OF assms(2)], rule answers_building, assumption)
     (use mustBeTrue_answers [OF assms(1)] in force)

lemma mayBeTrue_answers:
  assumes "sinv s" "bool_query A q"
  shows "answers may_fail sinv (\<lambda>b. b = (\<not> invalid (qconstraints q) (qexpr q))) (Solver_mayBeTrue S q s)"
  unfolding Solver_mayBeTrue_def by (rule answers_andthen, rule mustBeFalse_answers [OF assms]) simp

lemma mayBeFalse_answers:
  assumes "sinv s" "bool_query A q"
  shows "answers may_fail sinv (\<lambda>b. b = (\<not> valid (qconstraints q) (qexpr q))) (Solver_mayBeFalse S q s)"
  unfolding Solver_mayBeFalse_def by (rule answers_andthen, rule mustBeTrue_answers [OF assms]) simp

lemma evaluate_answers:
  assumes "sinv s" "bool_query A q"
  shows "answers may_fail sinv (\<lambda>v. v = true_validity q) (Solver_evaluate S q s)"
  using assms validity [OF assms] constant_answer [OF assms(2)] bool_queryD(2) [OF assms(2)]
  by (cases "qexpr q") (auto simp: Solver_evaluate_def true_validity_def)

lemma getValue_answers:
  assumes "sinv s" "query_ok A q"
  shows "answers may_fail sinv (\<lambda>c. wf_apint c \<and> bitWidth c = getWidth (qexpr q) \<and> feasible q (apval c)) (Solver_getValue S q s)"
proof (cases "isConstantExpr (qexpr q)")
  case True
  then obtain c where c: "qexpr q = ConstantExpr c" by (cases "qexpr q") auto
  then have "wf_apint c" "feasible q (apval c)"
    using query_okD(1,2) [OF assms(2)] by (auto simp: satisfiable_def feasible_def)
  then show ?thesis using assms(1) c by (simp add: Solver_getValue_def)
next
  case False
  then have "Solver_getValue S q =
      andthen (computeValue S q) (\<lambda>tmp. case tmp of ConstantExpr c \<Rightarrow> returns c | _ \<Rightarrow> (\<lambda>s. None))"
    by (cases "qexpr q") (simp_all add: Solver_getValue_def)
  moreover have "answers may_fail sinv (\<lambda>c. wf_apint c \<and> bitWidth c = getWidth (qexpr q) \<and> feasible q (apval c))
      (andthen (computeValue S q) (\<lambda>tmp. case tmp of ConstantExpr c \<Rightarrow> returns c | _ \<Rightarrow> (\<lambda>s. None)) s)"
    by (rule answers_andthen, rule value_ok [OF assms]) auto
  ultimately show ?thesis by simp
qed

lemma getInitialValues_answers:
  assumes "sinv s" "bool_query A q" "distinct objects" "set objects \<subseteq> A" "determined_by q (set objects)"
  shows "answers (may_fail \<or> valid (qconstraints q) (qexpr q)) sinv (refutes q objects) (Solver_getInitialValues S q objects s)"
  unfolding Solver_getInitialValues_def
  by (rule answers_andthen, rule answers_fail_weaken, rule init [OF assms]) (auto simp: good_init_def split: option.split)

end

end
