(* ===== verification/Expr_Compare.thy ===== *)
theory Expr_Compare
  imports Expr_Data "HOL-Library.List_Lexorder"
begin

text \<open>
  Hash values and the comparison of expressions (\<^verbatim>\<open>klee/lib/Expr/Expr.cpp\<close>, \<^verbatim>\<open>klee/lib/Expr/Updates.cpp\<close>,
  the classes of \<^verbatim>\<open>klee/include/klee/Expr.h\<close>). Caches and ordered containers of expressions use
  this order. The hash of a constant's value is LLVM's, and arrays are compared by the address of
  their object, which the allocator chooses: both are parameters. Expressions are values here; the
  shortcuts of the code for one object met twice and for a pair already found equal return 0,
  which is what the comparison of an expression with an equal one returns.
\<close>

subsection \<open>Hash values\<close>

record layout =
  hash_value :: "apint \<Rightarrow> 64 word"
  address :: "array \<Rightarrow> nat"

definition MAGIC_HASH_CONSTANT :: "32 word" where
  "MAGIC_HASH_CONSTANT = 39"

fun bkindIndex :: "bkind \<Rightarrow> nat" where
  "bkindIndex Add = 10" | "bkindIndex Sub = 11" | "bkindIndex Mul = 12" | "bkindIndex UDiv = 13"
| "bkindIndex SDiv = 14" | "bkindIndex URem = 15" | "bkindIndex SRem = 16" | "bkindIndex And = 17"
| "bkindIndex Or = 18" | "bkindIndex Xor = 19" | "bkindIndex Shl = 20" | "bkindIndex LShr = 21"
| "bkindIndex AShr = 22" | "bkindIndex Eq = 23" | "bkindIndex Ne = 24" | "bkindIndex Ult = 25"
| "bkindIndex Ule = 26" | "bkindIndex Ugt = 27" | "bkindIndex Uge = 28" | "bkindIndex Slt = 29"
| "bkindIndex Sle = 30" | "bkindIndex Sgt = 31" | "bkindIndex Sge = 32"

fun kindIndex :: "expr \<Rightarrow> nat" where
  "kindIndex (ConstantExpr _) = 0"
| "kindIndex (NotOptimizedExpr _) = 1"
| "kindIndex (ReadExpr _ _ _) = 3"
| "kindIndex (SelectExpr _ _ _) = 4"
| "kindIndex (ConcatExpr _ _) = 5"
| "kindIndex (ExtractExpr _ _ _) = 6"
| "kindIndex (ZExtExpr _ _) = 7"
| "kindIndex (SExtExpr _ _) = 8"
| "kindIndex (NotExpr _) = 9"
| "kindIndex (BinaryExpr k _ _) = bkindIndex k"

text \<open>The general \<open>computeHash\<close>, over the hash values of the kids.\<close>

definition hash_kids :: "nat \<Rightarrow> 32 word list \<Rightarrow> 32 word" where
  "hash_kids k hs = fold (\<lambda>h res. push_bit 1 res XOR h * MAGIC_HASH_CONSTANT) hs (of_nat k * MAGIC_HASH_CONSTANT)"

text \<open>A \<open>char\<close> is signed.\<close>

definition name_hash :: "string \<Rightarrow> 32 word" where
  "name_hash s = fold (\<lambda>c res. res * MAGIC_HASH_CONSTANT + scast (of_char c :: 8 word)) s 0"

primrec expr_hash :: "layout \<Rightarrow> expr \<Rightarrow> 32 word" and UpdateNode_hash :: "layout \<Rightarrow> ulist \<Rightarrow> 32 word" where
  "expr_hash L (ConstantExpr c) =
     ucast (hash_value L c XOR ucast (of_nat (bitWidth c) * MAGIC_HASH_CONSTANT))"
| "expr_hash L (NotOptimizedExpr e) = hash_kids 1 [expr_hash L e]"
| "expr_hash L (ReadExpr a us i) =
     expr_hash L i * MAGIC_HASH_CONSTANT XOR (name_hash (arrName a) XOR UpdateNode_hash L us)"
| "expr_hash L (SelectExpr c t f) = hash_kids 4 [expr_hash L c, expr_hash L t, expr_hash L f]"
| "expr_hash L (ConcatExpr l r) = hash_kids 5 [expr_hash L l, expr_hash L r]"
| "expr_hash L (ExtractExpr e off w) =
     of_nat off * MAGIC_HASH_CONSTANT XOR of_nat w * MAGIC_HASH_CONSTANT XOR expr_hash L e * MAGIC_HASH_CONSTANT"
| "expr_hash L (ZExtExpr e w) = of_nat w * MAGIC_HASH_CONSTANT XOR expr_hash L e * MAGIC_HASH_CONSTANT"
| "expr_hash L (SExtExpr e w) = of_nat w * MAGIC_HASH_CONSTANT XOR expr_hash L e * MAGIC_HASH_CONSTANT"
| "expr_hash L (NotExpr e) = expr_hash L e * MAGIC_HASH_CONSTANT * 9"
| "expr_hash L (BinaryExpr k l r) = hash_kids (bkindIndex k) [expr_hash L l, expr_hash L r]"
| "UpdateNode_hash L NoUpdates = 0"
| "UpdateNode_hash L (UpdateNode n i v) = expr_hash L i XOR expr_hash L v XOR UpdateNode_hash L n"

definition Array_computeHash :: "array \<Rightarrow> 32 word" where
  "Array_computeHash a = name_hash (arrName a) * MAGIC_HASH_CONSTANT + of_nat (arrSize a)"

subsection \<open>Comparison\<close>

definition order_of :: "'a::linorder \<Rightarrow> 'a \<Rightarrow> int" where
  "order_of x y = (if x \<noteq> y then if x < y then - 1 else 1 else 0)"

text \<open>The first result that is not 0.\<close>

fun first_of :: "int list \<Rightarrow> int" where
  "first_of [] = 0"
| "first_of (r # rs) = (if r \<noteq> 0 then r else first_of rs)"

text \<open>
  \<open>UpdateList::compare\<close> up to its loop: names as \<open>std::string\<close> compares them, then the objects, then
  the lengths.
\<close>

definition root_order :: "layout \<Rightarrow> array \<Rightarrow> ulist \<Rightarrow> array \<Rightarrow> ulist \<Rightarrow> int" where
  "root_order L a us a' us' =
     first_of [order_of (map of_char (arrName a) :: nat list) (map of_char (arrName a')),
               order_of (address L a) (address L a'), order_of (usize us) (usize us')]"

text \<open>The part of \<open>compare\<close> before \<open>compareContents\<close>.\<close>

definition head_order :: "layout \<Rightarrow> expr \<Rightarrow> expr \<Rightarrow> int" where
  "head_order L a b = first_of [order_of (kindIndex a) (kindIndex b), order_of (expr_hash L a) (expr_hash L b)]"

text \<open>Each equation has the contents of its class and then the kids. Expressions of different kinds differ in the head.\<close>

primrec compare :: "layout \<Rightarrow> expr \<Rightarrow> expr \<Rightarrow> int" and UpdateNode_compare :: "layout \<Rightarrow> ulist \<Rightarrow> ulist \<Rightarrow> int" where
  "compare L (ConstantExpr c) b = first_of [head_order L (ConstantExpr c) b,
     (case b of ConstantExpr c' \<Rightarrow> first_of [order_of (bitWidth c) (bitWidth c'), order_of (apval c) (apval c')] | _ \<Rightarrow> 0)]"
| "compare L (NotOptimizedExpr e) b = first_of [head_order L (NotOptimizedExpr e) b,
     (case b of NotOptimizedExpr e' \<Rightarrow> compare L e e' | _ \<Rightarrow> 0)]"
| "compare L (ReadExpr a us i) b = first_of [head_order L (ReadExpr a us i) b,
     (case b of ReadExpr a' us' i' \<Rightarrow> first_of [root_order L a us a' us', UpdateNode_compare L us us', compare L i i'] | _ \<Rightarrow> 0)]"
| "compare L (SelectExpr c t f) b = first_of [head_order L (SelectExpr c t f) b,
     (case b of SelectExpr c' t' f' \<Rightarrow> first_of [compare L c c', compare L t t', compare L f f'] | _ \<Rightarrow> 0)]"
| "compare L (ConcatExpr l r) b = first_of [head_order L (ConcatExpr l r) b,
     (case b of ConcatExpr l' r' \<Rightarrow>
        first_of [order_of (getWidth (ConcatExpr l r)) (getWidth b), compare L l l', compare L r r'] | _ \<Rightarrow> 0)]"
| "compare L (ExtractExpr e off w) b = first_of [head_order L (ExtractExpr e off w) b,
     (case b of ExtractExpr e' off' w' \<Rightarrow> first_of [order_of off off', order_of w w', compare L e e'] | _ \<Rightarrow> 0)]"
| "compare L (ZExtExpr e w) b = first_of [head_order L (ZExtExpr e w) b,
     (case b of ZExtExpr e' w' \<Rightarrow> first_of [order_of w w', compare L e e'] | _ \<Rightarrow> 0)]"
| "compare L (SExtExpr e w) b = first_of [head_order L (SExtExpr e w) b,
     (case b of SExtExpr e' w' \<Rightarrow> first_of [order_of w w', compare L e e'] | _ \<Rightarrow> 0)]"
| "compare L (NotExpr e) b = first_of [head_order L (NotExpr e) b,
     (case b of NotExpr e' \<Rightarrow> compare L e e' | _ \<Rightarrow> 0)]"
| "compare L (BinaryExpr k l r) b = first_of [head_order L (BinaryExpr k l r) b,
     (case b of BinaryExpr k' l' r' \<Rightarrow> first_of [compare L l l', compare L r r'] | _ \<Rightarrow> 0)]"
| "UpdateNode_compare L NoUpdates u = 0"
| "UpdateNode_compare L (UpdateNode n i v) u =
     (case u of UpdateNode n' i' v' \<Rightarrow> first_of [first_of [compare L i i', compare L v v'], UpdateNode_compare L n n']
      | NoUpdates \<Rightarrow> 0)"

subsection \<open>A total order\<close>

text \<open>The arrays of an expression.\<close>

primrec expr_arrays :: "expr \<Rightarrow> array set" and ulist_arrays :: "ulist \<Rightarrow> array set" where
  "expr_arrays (ConstantExpr c) = {}"
| "expr_arrays (NotOptimizedExpr e) = expr_arrays e"
| "expr_arrays (ReadExpr a us i) = insert a (ulist_arrays us \<union> expr_arrays i)"
| "expr_arrays (SelectExpr c t f) = expr_arrays c \<union> expr_arrays t \<union> expr_arrays f"
| "expr_arrays (ConcatExpr l r) = expr_arrays l \<union> expr_arrays r"
| "expr_arrays (ExtractExpr e off w) = expr_arrays e"
| "expr_arrays (ZExtExpr e w) = expr_arrays e"
| "expr_arrays (SExtExpr e w) = expr_arrays e"
| "expr_arrays (NotExpr e) = expr_arrays e"
| "expr_arrays (BinaryExpr k l r) = expr_arrays l \<union> expr_arrays r"
| "ulist_arrays NoUpdates = {}"
| "ulist_arrays (UpdateNode n i v) = ulist_arrays n \<union> expr_arrays i \<union> expr_arrays v"

lemma order_of_zero [simp]: "order_of x x = 0" "order_of x y = 0 \<longleftrightarrow> x = y"
  by (auto simp: order_of_def)

lemma order_of_swap: "order_of y x = - order_of x y"
  by (auto simp: order_of_def)

lemma first_of_single: "first_of [r] = r"
  by simp

lemma first_of_head: "first_of [0, r] = r"
  by simp

lemma first_of_zero: "first_of rs = 0 \<longleftrightarrow> (\<forall>r \<in> set rs. r = 0)"
  by (induction rs) auto

lemma head_order_zero: "head_order L a b = 0 \<longleftrightarrow> kindIndex a = kindIndex b \<and> expr_hash L a = expr_hash L b"
  by (simp add: head_order_def)

lemma compare_head: "compare L a b = first_of [head_order L a b, compare L a b]"
  by (cases a) simp_all

lemma bkindIndex_small: "n < 10 \<Longrightarrow> bkindIndex k \<noteq> n" "n < 10 \<Longrightarrow> n \<noteq> bkindIndex k"
  by (cases k; simp)+

lemma bkindIndex_inj [simp]: "bkindIndex k = bkindIndex k' \<longleftrightarrow> k = k'"
  by (cases k; cases k') simp_all

lemma same_kind:
  "kindIndex (ConstantExpr c) = kindIndex b \<longleftrightarrow> (\<exists>c'. b = ConstantExpr c')"
  "kindIndex (NotOptimizedExpr e) = kindIndex b \<longleftrightarrow> (\<exists>e'. b = NotOptimizedExpr e')"
  "kindIndex (ReadExpr a us i) = kindIndex b \<longleftrightarrow> (\<exists>a' us' i'. b = ReadExpr a' us' i')"
  "kindIndex (SelectExpr c' t f) = kindIndex b \<longleftrightarrow> (\<exists>c'' t' f'. b = SelectExpr c'' t' f')"
  "kindIndex (ConcatExpr l r) = kindIndex b \<longleftrightarrow> (\<exists>l' r'. b = ConcatExpr l' r')"
  "kindIndex (ExtractExpr e off w) = kindIndex b \<longleftrightarrow> (\<exists>e' off' w'. b = ExtractExpr e' off' w')"
  "kindIndex (ZExtExpr e w) = kindIndex b \<longleftrightarrow> (\<exists>e' w'. b = ZExtExpr e' w')"
  "kindIndex (SExtExpr e w) = kindIndex b \<longleftrightarrow> (\<exists>e' w'. b = SExtExpr e' w')"
  "kindIndex (NotExpr e) = kindIndex b \<longleftrightarrow> (\<exists>e'. b = NotExpr e')"
  "kindIndex (BinaryExpr k l r) = kindIndex b \<longleftrightarrow> (\<exists>l' r'. b = BinaryExpr k l' r')"
  by (cases b; auto simp: bkindIndex_small)+

lemma compare_refl: "compare L e e = 0" "UpdateNode_compare L u u = 0"
  by (induction e and u) (simp_all add: head_order_def root_order_def)

lemma compare_kind: "compare L a b = 0 \<Longrightarrow> kindIndex a = kindIndex b"
  using compare_head [of L a b] by (simp add: head_order_zero split: if_splits)

lemma compare_zeroD:
  "compare L (ConstantExpr c) b = 0 \<Longrightarrow> b = ConstantExpr c"
  "compare L (NotOptimizedExpr e) b = 0 \<Longrightarrow> \<exists>e'. b = NotOptimizedExpr e' \<and> compare L e e' = 0"
  "compare L (ReadExpr a us i) b = 0 \<Longrightarrow> \<exists>a' us' i'. b = ReadExpr a' us' i' \<and> address L a = address L a' \<and>
     usize us = usize us' \<and> UpdateNode_compare L us us' = 0 \<and> compare L i i' = 0"
  "compare L (SelectExpr c' t f) b = 0 \<Longrightarrow>
     \<exists>c'' t' f'. b = SelectExpr c'' t' f' \<and> compare L c' c'' = 0 \<and> compare L t t' = 0 \<and> compare L f f' = 0"
  "compare L (ConcatExpr l r) b = 0 \<Longrightarrow> \<exists>l' r'. b = ConcatExpr l' r' \<and> compare L l l' = 0 \<and> compare L r r' = 0"
  "compare L (ExtractExpr e off w) b = 0 \<Longrightarrow> \<exists>e'. b = ExtractExpr e' off w \<and> compare L e e' = 0"
  "compare L (ZExtExpr e w) b = 0 \<Longrightarrow> \<exists>e'. b = ZExtExpr e' w \<and> compare L e e' = 0"
  "compare L (SExtExpr e w) b = 0 \<Longrightarrow> \<exists>e'. b = SExtExpr e' w \<and> compare L e e' = 0"
  "compare L (NotExpr e) b = 0 \<Longrightarrow> \<exists>e'. b = NotExpr e' \<and> compare L e e' = 0"
  "compare L (BinaryExpr k l r) b = 0 \<Longrightarrow> \<exists>l' r'. b = BinaryExpr k l' r' \<and> compare L l l' = 0 \<and> compare L r r' = 0"
  by (cases b; simp add: head_order_def root_order_def bkindIndex_small apint.expand split: if_splits; fail)+

lemma compare_zero_eq:
  assumes inj: "inj_on (address L) A"
  shows "expr_arrays a \<subseteq> A \<Longrightarrow> expr_arrays b \<subseteq> A \<Longrightarrow> compare L a b = 0 \<Longrightarrow> a = b"
    and "ulist_arrays u \<subseteq> A \<Longrightarrow> ulist_arrays u' \<subseteq> A \<Longrightarrow> usize u = usize u' \<Longrightarrow>
      UpdateNode_compare L u u' = 0 \<Longrightarrow> u = u'"
proof (induction a and u arbitrary: b and u')
  case (ReadExpr a us i)
  from compare_zeroD(3) [OF ReadExpr.prems(3)] show ?case using ReadExpr inj by (auto dest: inj_onD)
next
  case (UpdateNode n i v)
  then obtain n' i' v' where u': "u' = UpdateNode n' i' v'" by (cases u') auto
  then have "compare L i i' = 0" "compare L v v' = 0" "UpdateNode_compare L n n' = 0"
    using UpdateNode.prems(4) by (simp_all split: if_splits)
  then show ?case using UpdateNode u' by auto
next
  case NoUpdates
  then show ?case by (cases u') auto
next
  case (ConstantExpr c)
  from compare_zeroD(1) [OF ConstantExpr.prems(3)] show ?case using ConstantExpr by auto
next
  case (NotOptimizedExpr e)
  from compare_zeroD(2) [OF NotOptimizedExpr.prems(3)] show ?case using NotOptimizedExpr by auto
next
  case (SelectExpr c t f)
  from compare_zeroD(4) [OF SelectExpr.prems(3)] show ?case using SelectExpr by auto
next
  case (ConcatExpr l r)
  from compare_zeroD(5) [OF ConcatExpr.prems(3)] show ?case using ConcatExpr by auto
next
  case (ExtractExpr e off w)
  from compare_zeroD(6) [OF ExtractExpr.prems(3)] show ?case using ExtractExpr by auto
next
  case (ZExtExpr e w)
  from compare_zeroD(7) [OF ZExtExpr.prems(3)] show ?case using ZExtExpr by auto
next
  case (SExtExpr e w)
  from compare_zeroD(8) [OF SExtExpr.prems(3)] show ?case using SExtExpr by auto
next
  case (NotExpr e)
  from compare_zeroD(9) [OF NotExpr.prems(3)] show ?case using NotExpr by auto
next
  case (BinaryExpr k l r)
  from compare_zeroD(10) [OF BinaryExpr.prems(3)] show ?case using BinaryExpr by auto
qed

lemma first_of_uminus: "first_of (map uminus rs) = - first_of rs"
  by (induction rs) auto

lemma head_order_swap: "head_order L b a = - head_order L a b"
  by (auto simp: head_order_def order_of_swap [of "kindIndex b"] order_of_swap [of "expr_hash L b"])

lemma root_order_swap: "root_order L a' us' a us = - root_order L a us a' us'"
  by (simp add: root_order_def order_of_swap [of _ "map of_char (arrName a)"] order_of_swap [of _ "address L a"]
      order_of_swap [of _ "usize us"])

text \<open>The results for three expressions taken pairwise, where the order is transitive.\<close>

definition ctrans :: "int \<Rightarrow> int \<Rightarrow> int \<Rightarrow> bool" where
  "ctrans p q r \<longleftrightarrow> (p = 0 \<and> q = 0 \<longrightarrow> r = 0) \<and> (p \<le> 0 \<and> q \<le> 0 \<and> (p < 0 \<or> q < 0) \<longrightarrow> r < 0)"

lemma ctrans_first:
  "ctrans p q r \<Longrightarrow> (p = 0 \<Longrightarrow> q = 0 \<Longrightarrow> r = 0 \<Longrightarrow> ctrans (first_of ps) (first_of qs) (first_of rs)) \<Longrightarrow>
     ctrans (first_of (p # ps)) (first_of (q # qs)) (first_of (r # rs))"
  by (auto simp: ctrans_def)

lemma ctrans_nil [simp]: "ctrans (first_of []) (first_of []) (first_of [])" "ctrans 0 0 0"
  by (simp_all add: ctrans_def)

lemma ctrans_order: "ctrans (order_of x y) (order_of y z) (order_of x z)"
  by (auto simp: ctrans_def order_of_def)

lemmas ctrans_firsts = ctrans_first ctrans_order

lemma head_order_trans: "ctrans (head_order L a b) (head_order L b c) (head_order L a c)"
  unfolding head_order_def by (intro ctrans_firsts ctrans_nil)

lemma root_order_trans: "ctrans (root_order L a us a' us') (root_order L a' us' a'' us'') (root_order L a us a'' us'')"
  unfolding root_order_def by (intro ctrans_firsts ctrans_nil)

lemma compare_trans_step:
  assumes "kindIndex a = kindIndex b \<Longrightarrow> kindIndex b = kindIndex c \<Longrightarrow> head_order L a b = 0 \<Longrightarrow> head_order L b c = 0 \<Longrightarrow>
    head_order L a c = 0 \<Longrightarrow> ctrans (compare L a b) (compare L b c) (compare L a c)"
  shows "ctrans (compare L a b) (compare L b c) (compare L a c)"
proof -
  have "ctrans (first_of [compare L a b]) (first_of [compare L b c]) (first_of [compare L a c])"
    if "head_order L a b = 0" "head_order L b c = 0" "head_order L a c = 0"
    unfolding first_of_single using assms that by (auto simp: head_order_zero)
  then have "ctrans (first_of [head_order L a b, compare L a b]) (first_of [head_order L b c, compare L b c])
    (first_of [head_order L a c, compare L a c])" by (rule ctrans_first [OF head_order_trans])
  then show ?thesis unfolding compare_head [symmetric] .
qed

lemma compare_trans: "ctrans (compare L a b) (compare L b c) (compare L a c)"
  and ucompare_trans: "usize u = usize v \<Longrightarrow> usize v = usize w \<Longrightarrow>
    ctrans (UpdateNode_compare L u v) (UpdateNode_compare L v w) (UpdateNode_compare L u w)"
proof (induction a and u arbitrary: b c and v w)
  case (ReadExpr x us i)
  show ?case
  proof (rule compare_trans_step)
    assume k: "kindIndex (ReadExpr x us i) = kindIndex b" "kindIndex b = kindIndex c"
      and h: "head_order L (ReadExpr x us i) b = 0" "head_order L b c = 0" "head_order L (ReadExpr x us i) c = 0"
    obtain x' us' i' x'' us'' i'' where bc: "b = ReadExpr x' us' i'" "c = ReadExpr x'' us'' i''"
      using k(1) k [unfolded k(1) [symmetric]] unfolding same_kind by blast
    have "ctrans (UpdateNode_compare L us us') (UpdateNode_compare L us' us'') (UpdateNode_compare L us us'')"
      if "root_order L x us x' us' = 0" "root_order L x' us' x'' us'' = 0"
      using that ReadExpr.IH(1) by (auto simp: root_order_def split: if_splits)
    then have "ctrans (first_of [root_order L x us x' us', UpdateNode_compare L us us', compare L i i'])
      (first_of [root_order L x' us' x'' us'', UpdateNode_compare L us' us'', compare L i' i''])
      (first_of [root_order L x us x'' us'', UpdateNode_compare L us us'', compare L i i''])"
      by (intro ctrans_first root_order_trans ReadExpr.IH(2) ctrans_nil) blast
    then show "ctrans (compare L (ReadExpr x us i) b) (compare L b c) (compare L (ReadExpr x us i) c)"
      using h unfolding bc by (simp only: compare.simps expr.case first_of_head)
  qed
next
  case (ConstantExpr x)
  show ?case
    by (rule compare_trans_step, unfold same_kind, elim exE, hypsubst, unfold same_kind, elim exE, hypsubst,
        simp only: compare.simps expr.case first_of_head) (intro ctrans_firsts ctrans_nil)
next
  case (NotOptimizedExpr x)
  show ?case
    by (rule compare_trans_step, unfold same_kind, elim exE, hypsubst, unfold same_kind, elim exE, hypsubst,
        simp only: compare.simps expr.case first_of_head) (intro NotOptimizedExpr.IH ctrans_firsts ctrans_nil)
next
  case (SelectExpr x y z)
  show ?case
    by (rule compare_trans_step, unfold same_kind, elim exE, hypsubst, unfold same_kind, elim exE, hypsubst,
        simp only: compare.simps expr.case first_of_head) (intro SelectExpr.IH ctrans_firsts ctrans_nil)
next
  case (ConcatExpr x y)
  show ?case
    by (rule compare_trans_step, unfold same_kind, elim exE, hypsubst, unfold same_kind, elim exE, hypsubst,
        simp only: compare.simps expr.case first_of_head) (intro ConcatExpr.IH ctrans_firsts ctrans_nil)
next
  case (ExtractExpr x y z)
  show ?case
    by (rule compare_trans_step, unfold same_kind, elim exE, hypsubst, unfold same_kind, elim exE, hypsubst,
        simp only: compare.simps expr.case first_of_head) (intro ExtractExpr.IH ctrans_firsts ctrans_nil)
next
  case (ZExtExpr x y)
  show ?case
    by (rule compare_trans_step, unfold same_kind, elim exE, hypsubst, unfold same_kind, elim exE, hypsubst,
        simp only: compare.simps expr.case first_of_head) (intro ZExtExpr.IH ctrans_firsts ctrans_nil)
next
  case (SExtExpr x y)
  show ?case
    by (rule compare_trans_step, unfold same_kind, elim exE, hypsubst, unfold same_kind, elim exE, hypsubst,
        simp only: compare.simps expr.case first_of_head) (intro SExtExpr.IH ctrans_firsts ctrans_nil)
next
  case (NotExpr x)
  show ?case
    by (rule compare_trans_step, unfold same_kind, elim exE, hypsubst, unfold same_kind, elim exE, hypsubst,
        simp only: compare.simps expr.case first_of_head) (intro NotExpr.IH ctrans_firsts ctrans_nil)
next
  case (BinaryExpr x y z)
  show ?case
    by (rule compare_trans_step, unfold same_kind, elim exE, hypsubst, unfold same_kind, elim exE, hypsubst,
        simp only: compare.simps expr.case first_of_head) (intro BinaryExpr.IH ctrans_firsts ctrans_nil)
next
  case NoUpdates
  then show ?case by (cases v; cases w) simp_all
next
  case (UpdateNode n i x)
  then obtain n' i' x' n'' i'' x'' where vw: "v = UpdateNode n' i' x'" "w = UpdateNode n'' i'' x''"
    by (cases v; cases w) auto
  show ?case unfolding vw
    by (simp only: compare.simps UpdateNode_compare.simps ulist.case)
       (intro ctrans_first UpdateNode.IH ctrans_nil; use UpdateNode.prems vw in simp)
qed

lemma swap_first:
  "q = - p \<Longrightarrow> (p = 0 \<Longrightarrow> first_of qs = - first_of ps) \<Longrightarrow> first_of (q # qs) = - first_of (p # ps)"
  by simp

lemma swap_nil: "first_of [] = - first_of []"
  by simp

lemmas swap_firsts = swap_first order_of_swap swap_nil

lemma compare_swap_step:
  assumes "kindIndex a = kindIndex b \<Longrightarrow> head_order L a b = 0 \<Longrightarrow> head_order L b a = 0 \<Longrightarrow> compare L b a = - compare L a b"
  shows "compare L b a = - compare L a b"
proof -
  have "first_of [compare L b a] = - first_of [compare L a b]" if "head_order L a b = 0"
    unfolding first_of_single using assms that head_order_swap [of L b a] by (simp add: head_order_zero)
  then have "first_of [head_order L b a, compare L b a] = - first_of [head_order L a b, compare L a b]"
    by (rule swap_first [OF head_order_swap])
  then show ?thesis unfolding compare_head [symmetric] .
qed

lemma compare_swap: "compare L b a = - compare L a b"
  and ucompare_swap: "usize u = usize u' \<Longrightarrow> UpdateNode_compare L u' u = - UpdateNode_compare L u u'"
proof (induction a and u arbitrary: b and u')
  case (ReadExpr x us i)
  show ?case
  proof (rule compare_swap_step)
    assume k: "kindIndex (ReadExpr x us i) = kindIndex b"
      and h: "head_order L (ReadExpr x us i) b = 0" "head_order L b (ReadExpr x us i) = 0"
    obtain x' us' i' where b: "b = ReadExpr x' us' i'" using k unfolding same_kind by blast
    have "first_of [root_order L x' us' x us, UpdateNode_compare L us' us, compare L i' i] =
      - first_of [root_order L x us x' us', UpdateNode_compare L us us', compare L i i']"
      by (intro swap_first root_order_swap ReadExpr.IH swap_nil) (auto simp: root_order_def split: if_splits)
    then show "compare L b (ReadExpr x us i) = - compare L (ReadExpr x us i) b" using h unfolding b
      by (simp only: compare.simps expr.case first_of_head)
  qed
next
  case (ConstantExpr x)
  show ?case
    by (rule compare_swap_step, unfold same_kind, elim exE, hypsubst, simp only: compare.simps expr.case first_of_head)
       (intro swap_firsts)
next
  case (NotOptimizedExpr x)
  show ?case
    by (rule compare_swap_step, unfold same_kind, elim exE, hypsubst, simp only: compare.simps expr.case first_of_head)
       (intro NotOptimizedExpr.IH swap_firsts)
next
  case (SelectExpr x y z)
  show ?case
    by (rule compare_swap_step, unfold same_kind, elim exE, hypsubst, simp only: compare.simps expr.case first_of_head)
       (intro SelectExpr.IH swap_firsts)
next
  case (ConcatExpr x y)
  show ?case
    by (rule compare_swap_step, unfold same_kind, elim exE, hypsubst, simp only: compare.simps expr.case first_of_head)
       (intro ConcatExpr.IH swap_firsts)
next
  case (ExtractExpr x y z)
  show ?case
    by (rule compare_swap_step, unfold same_kind, elim exE, hypsubst, simp only: compare.simps expr.case first_of_head)
       (intro ExtractExpr.IH swap_firsts)
next
  case (ZExtExpr x y)
  show ?case
    by (rule compare_swap_step, unfold same_kind, elim exE, hypsubst, simp only: compare.simps expr.case first_of_head)
       (intro ZExtExpr.IH swap_firsts)
next
  case (SExtExpr x y)
  show ?case
    by (rule compare_swap_step, unfold same_kind, elim exE, hypsubst, simp only: compare.simps expr.case first_of_head)
       (intro SExtExpr.IH swap_firsts)
next
  case (NotExpr x)
  show ?case
    by (rule compare_swap_step, unfold same_kind, elim exE, hypsubst, simp only: compare.simps expr.case first_of_head)
       (intro NotExpr.IH swap_firsts)
next
  case (BinaryExpr x y z)
  show ?case
    by (rule compare_swap_step, unfold same_kind, elim exE, hypsubst, simp only: compare.simps expr.case first_of_head)
       (intro BinaryExpr.IH swap_firsts)
next
  case NoUpdates
  then show ?case by (cases u') simp_all
next
  case (UpdateNode n i x)
  then obtain n' i' x' where u': "u' = UpdateNode n' i' x'" by (cases u') auto
  show ?case unfolding u'
    by (simp only: UpdateNode_compare.simps ulist.case)
       (intro swap_first UpdateNode.IH swap_nil; use UpdateNode.prems u' in simp)
qed

text \<open>
  What an ordered container relies on: a comparison of the keys of \<open>C\<close> is a strict total order,
  and keys that compare equal are equal.
\<close>

locale key_order =
  fixes lt :: "'k \<Rightarrow> 'k \<Rightarrow> bool" and C :: "'k set"
  assumes irrefl: "x \<in> C \<Longrightarrow> \<not> lt x x"
    and trans: "x \<in> C \<Longrightarrow> y \<in> C \<Longrightarrow> z \<in> C \<Longrightarrow> lt x y \<Longrightarrow> lt y z \<Longrightarrow> lt x z"
    and total: "x \<in> C \<Longrightarrow> y \<in> C \<Longrightarrow> x \<noteq> y \<Longrightarrow> lt x y \<or> lt y x"
begin

lemma asym: "x \<in> C \<Longrightarrow> y \<in> C \<Longrightarrow> lt x y \<Longrightarrow> \<not> lt y x"
  using irrefl trans by blast

lemma sorted_distinct: "set xs \<subseteq> C \<Longrightarrow> sorted_wrt lt xs \<Longrightarrow> distinct xs"
  by (induction xs) (use irrefl in auto)

end

text \<open>\<open>ref<Expr>::operator<\<close>.\<close>

definition expr_less :: "layout \<Rightarrow> expr \<Rightarrow> expr \<Rightarrow> bool" where
  "expr_less L a b \<longleftrightarrow> compare L a b < 0"

text \<open>The expressions over objects that share their address with no other.\<close>

definition placed :: "layout \<Rightarrow> expr set" where
  "placed L = {e. \<forall>a \<in> expr_arrays e. \<forall>b. address L b = address L a \<longrightarrow> b = a}"

lemma compare_zero_iff:
  assumes "a \<in> placed L" "b \<in> placed L"
  shows "compare L a b = 0 \<longleftrightarrow> a = b"
proof -
  have "inj_on (address L) (expr_arrays a \<union> expr_arrays b)" using assms by (auto simp: placed_def inj_on_def)
  from compare_zero_eq(1) [OF this, of a b] show ?thesis using compare_refl(1) by auto
qed

interpretation ek: key_order "expr_less L" "placed L"
proof
  show "\<not> expr_less L x x" for x by (simp add: expr_less_def compare_refl)
  show "expr_less L x z" if "expr_less L x y" "expr_less L y z" for x y z
    using compare_trans [of L x y z] that by (auto simp: expr_less_def ctrans_def)
  show "expr_less L x y \<or> expr_less L y x" if "x \<in> placed L" "y \<in> placed L" "x \<noteq> y" for x y
    using compare_zero_iff [OF that(1,2)] that(3) compare_swap [of L x y] by (auto simp: expr_less_def)
qed

text \<open>A layout with two objects, for the examples.\<close>

definition cmp_array :: "string \<Rightarrow> array" where
  "cmp_array nm = \<lparr>arrId = 0, arrName = nm, UFE = 0, UFE_Cheat = 0, arrSize = 4, arrDomain = 32, arrRange = 8,
     constantValues = []\<rparr>"

definition cmp_layout :: layout where
  "cmp_layout = \<lparr>hash_value = (\<lambda>c. of_int (apval c)),
     address = (\<lambda>a. if a = cmp_array ''a'' then 1 else if a = cmp_array ''b'' then 2 else 0)\<rparr>"

definition cmp_read :: "string \<Rightarrow> int \<Rightarrow> expr" where
  "cmp_read nm i = ReadExpr (cmp_array nm) NoUpdates (ConstantExpr (APInt 32 i))"

lemma cmp_read_placed: "nm = ''a'' \<or> nm = ''b'' \<Longrightarrow> cmp_read nm i \<in> placed cmp_layout"
  by (auto simp: placed_def cmp_read_def cmp_layout_def cmp_array_def split: if_splits)

text \<open>
  C15. On expressions whose arrays are distinct objects, \<open>Expr::compare\<close> is a total order: it is 0
  exactly on structurally equal expressions, changing the sides changes the sign, and it is
  transitive.
\<close>

theorem compare_total_order:
  assumes "a \<in> placed L" "b \<in> placed L"
  shows "(compare L a b = 0 \<longleftrightarrow> a = b) \<and> compare L b a = - compare L a b \<and>
    (compare L a b < 0 \<and> compare L b c < 0 \<longrightarrow> compare L a c < 0)"
  using compare_zero_iff [OF assms] compare_swap [of L b a] compare_trans [of L a b c] by (simp add: ctrans_def)

theorem compare_total_order_witness:
  "cmp_read ''a'' 1 \<noteq> cmp_read ''b'' 1 \<and> compare cmp_layout (cmp_read ''a'' 1) (cmp_read ''b'' 1) \<noteq> 0 \<and>
   compare cmp_layout (cmp_read ''b'' 1) (cmp_read ''a'' 1) = - compare cmp_layout (cmp_read ''a'' 1) (cmp_read ''b'' 1)"
  using compare_total_order [of "cmp_read ''a'' 1" cmp_layout "cmp_read ''b'' 1" "cmp_read ''b'' 1"] cmp_read_placed
  by (auto simp: cmp_read_def cmp_array_def)

end
