(* ===== verification/Caching_Solver.thy ===== *)
theory Caching_Solver
  imports Solver_Front Expr_Compare
begin

text \<open>
  The solver that keeps the results of queries (\<^verbatim>\<open>klee/lib/Solver/CachingSolver.cpp\<close>), and the solver
  that asks an incomplete one first (\<^verbatim>\<open>klee/include/klee/IncompleteSolver.h\<close>,
  \<^verbatim>\<open>klee/lib/Solver/IncompleteSolver.cpp\<close>). Both keep the contract of the solver they call.
\<close>

subsection \<open>Partial validity\<close>

datatype PartialValidity = MustBeTrue | MustBeFalse | MayBeTrue | MayBeFalse | TrueOrFalse | NoValidity

text \<open>On \<open>None\<close> the assertion fails.\<close>

fun negatePartialValidity :: "PartialValidity \<Rightarrow> PartialValidity option" where
  "negatePartialValidity MustBeTrue = Some MustBeFalse"
| "negatePartialValidity MustBeFalse = Some MustBeTrue"
| "negatePartialValidity MayBeTrue = Some MayBeFalse"
| "negatePartialValidity MayBeFalse = Some MayBeTrue"
| "negatePartialValidity TrueOrFalse = Some TrueOrFalse"
| "negatePartialValidity NoValidity = None"

subsection \<open>The cache\<close>

text \<open>
  The cache is a hash table; the order of expressions compares their hashes too, so entries that
  \<open>operator==\<close> finds equal are in one bucket. \<open>insert\<close> leaves an entry that exists as it is.
\<close>

type_synonym cache_entry = "expr list \<times> expr"
type_synonym cache_map = "(cache_entry \<times> PartialValidity) list"

definition same_entry :: "layout \<Rightarrow> cache_entry \<Rightarrow> cache_entry \<Rightarrow> bool" where
  "same_entry L a b \<longleftrightarrow> list_all2 (\<lambda>x y. compare L x y = 0) (fst a) (fst b) \<and> compare L (snd a) (snd b) = 0"

definition cache_find :: "layout \<Rightarrow> cache_entry \<Rightarrow> cache_map \<Rightarrow> PartialValidity option" where
  "cache_find L ce cache = map_option snd (find (\<lambda>p. same_entry L (fst p) ce) cache)"

definition cache_add :: "layout \<Rightarrow> cache_entry \<Rightarrow> PartialValidity \<Rightarrow> cache_map \<Rightarrow> cache_map" where
  "cache_add L ce pv cache = (if cache_find L ce cache = None then (ce, pv) # cache else cache)"

definition canonicalizeQuery :: "layout \<Rightarrow> expr \<Rightarrow> (expr \<times> bool) option" where
  "canonicalizeQuery L originalQuery =
     do { negatedQuery \<leftarrow> createIsZero originalQuery;
          Some (if compare L originalQuery negatedQuery < 0 then (originalQuery, False) else (negatedQuery, True)) }"

definition cacheLookup :: "layout \<Rightarrow> cache_map \<Rightarrow> query \<Rightarrow> PartialValidity option option" where
  "cacheLookup L cache q =
     do { (canonicalQuery, negationUsed) \<leftarrow> canonicalizeQuery L (qexpr q);
          case cache_find L (qconstraints q, canonicalQuery) cache of
            Some pv \<Rightarrow> if negationUsed then map_option Some (negatePartialValidity pv) else Some (Some pv)
          | None \<Rightarrow> Some None }"

definition cacheInsert :: "layout \<Rightarrow> query \<Rightarrow> PartialValidity \<Rightarrow> cache_map \<Rightarrow> cache_map option" where
  "cacheInsert L q result cache =
     do { (canonicalQuery, negationUsed) \<leftarrow> canonicalizeQuery L (qexpr q);
          cachedResult \<leftarrow> (if negationUsed then negatePartialValidity result else Some result);
          Some (cache_add L (qconstraints q, canonicalQuery) cachedResult cache) }"

subsection \<open>The caching solver\<close>

text \<open>A call of the solver below, and the result that is inserted into the cache.\<close>

definition inner :: "('s, 'a) call \<Rightarrow> ('s \<times> 'c, 'a) call" where
  "inner m st = map_option (\<lambda>(r, s). (r, (s, snd st))) (m (fst st))"

definition remember :: "layout \<Rightarrow> query \<Rightarrow> PartialValidity \<Rightarrow> 'a \<Rightarrow> ('s \<times> cache_map, 'a) call" where
  "remember L q pv r st = do { cache \<leftarrow> cacheInsert L q pv (snd st); returns r (fst st, cache) }"

definition CachingSolver_computeValidity :: "layout \<Rightarrow> 's solver_impl \<Rightarrow> query \<Rightarrow> ('s \<times> cache_map, validity) call" where
  "CachingSolver_computeValidity L S q st =
     do { hit \<leftarrow> cacheLookup L (snd st) q;
          case hit of
            Some MustBeTrue \<Rightarrow> returns ValidityTrue st
          | Some MustBeFalse \<Rightarrow> returns ValidityFalse st
          | Some TrueOrFalse \<Rightarrow> returns ValidityUnknown st
          | Some MayBeTrue \<Rightarrow> andthen (inner (computeTruth S q)) (\<lambda>tmp.
              if tmp then remember L q MustBeTrue ValidityTrue else remember L q TrueOrFalse ValidityUnknown) st
          | Some MayBeFalse \<Rightarrow> building (negateExpr q) (\<lambda>n. andthen (inner (computeTruth S n)) (\<lambda>tmp.
              if tmp then remember L q MustBeFalse ValidityFalse else remember L q TrueOrFalse ValidityUnknown)) st
          | Some NoValidity \<Rightarrow> None
          | None \<Rightarrow> andthen (inner (computeValidity S q)) (\<lambda>result.
              remember L q (case result of ValidityTrue \<Rightarrow> MustBeTrue | ValidityFalse \<Rightarrow> MustBeFalse | ValidityUnknown \<Rightarrow> TrueOrFalse) result) st }"

definition CachingSolver_computeTruth :: "layout \<Rightarrow> 's solver_impl \<Rightarrow> query \<Rightarrow> ('s \<times> cache_map, bool) call" where
  "CachingSolver_computeTruth L S q st =
     do { hit \<leftarrow> cacheLookup L (snd st) q;
          if hit \<noteq> None \<and> hit \<noteq> Some MayBeTrue then returns (hit = Some MustBeTrue) st
          else andthen (inner (computeTruth S q)) (\<lambda>isValid.
            remember L q (if isValid then MustBeTrue else if hit \<noteq> None then TrueOrFalse else MayBeFalse) isValid) st }"

definition CachingSolver :: "layout \<Rightarrow> 's solver_impl \<Rightarrow> ('s \<times> cache_map) solver_impl" where
  "CachingSolver L S = \<lparr>computeTruth = CachingSolver_computeTruth L S, computeValidity = CachingSolver_computeValidity L S,
     computeValue = \<lambda>q. inner (computeValue S q), computeInitialValues = \<lambda>q objects. inner (computeInitialValues S q objects)\<rparr>"

subsection \<open>The incomplete solver and the stages\<close>

record incomplete_impl =
  incTruth :: "query \<Rightarrow> PartialValidity option"
  incValidity :: "query \<Rightarrow> PartialValidity option"
  incValue :: "query \<Rightarrow> expr option option"
  incInitialValues :: "query \<Rightarrow> array list \<Rightarrow> init_values option option"

definition IncompleteSolver_computeValidity :: "(query \<Rightarrow> PartialValidity option) \<Rightarrow> query \<Rightarrow> PartialValidity option" where
  "IncompleteSolver_computeValidity truth q =
     do { trueResult \<leftarrow> truth q;
          if trueResult = MustBeTrue then Some MustBeTrue
          else do { n \<leftarrow> negateExpr q;
                    falseResult \<leftarrow> truth n;
                    Some (if falseResult = MustBeTrue then MustBeFalse
                          else if trueResult \<noteq> NoValidity \<and> falseResult \<noteq> NoValidity then TrueOrFalse
                          else if trueResult \<noteq> NoValidity then MayBeFalse
                          else if falseResult \<noteq> NoValidity then MayBeTrue else NoValidity) } }"

definition StagedSolverImpl_computeTruth :: "incomplete_impl \<Rightarrow> 's solver_impl \<Rightarrow> query \<Rightarrow> ('s, bool) call" where
  "StagedSolverImpl_computeTruth primary secondary q =
     building (incTruth primary q) (\<lambda>trueResult.
       if trueResult \<noteq> NoValidity then returns (trueResult = MustBeTrue) else computeTruth secondary q)"

definition StagedSolverImpl_computeValidity :: "incomplete_impl \<Rightarrow> 's solver_impl \<Rightarrow> query \<Rightarrow> ('s, validity) call" where
  "StagedSolverImpl_computeValidity primary secondary q =
     building (incValidity primary q) (\<lambda>pv. case pv of
         MustBeTrue \<Rightarrow> returns ValidityTrue
       | MustBeFalse \<Rightarrow> returns ValidityFalse
       | TrueOrFalse \<Rightarrow> returns ValidityUnknown
       | MayBeTrue \<Rightarrow> andthen (computeTruth secondary q) (\<lambda>tmp. returns (if tmp then ValidityTrue else ValidityUnknown))
       | MayBeFalse \<Rightarrow> building (negateExpr q) (\<lambda>n. andthen (computeTruth secondary n)
            (\<lambda>tmp. returns (if tmp then ValidityFalse else ValidityUnknown)))
       | NoValidity \<Rightarrow> computeValidity secondary q)"

definition StagedSolverImpl :: "incomplete_impl \<Rightarrow> 's solver_impl \<Rightarrow> 's solver_impl" where
  "StagedSolverImpl primary secondary = \<lparr>computeTruth = StagedSolverImpl_computeTruth primary secondary,
     computeValidity = StagedSolverImpl_computeValidity primary secondary,
     computeValue = \<lambda>q. building (incValue primary q) (\<lambda>r. case r of Some e \<Rightarrow> returns e | None \<Rightarrow> computeValue secondary q),
     computeInitialValues = \<lambda>q objects. building (incInitialValues primary q objects)
       (\<lambda>r. case r of Some v \<Rightarrow> returns v | None \<Rightarrow> computeInitialValues secondary q objects)\<rparr>"

subsection \<open>Meaning of the cache\<close>

fun means :: "expr list \<Rightarrow> expr \<Rightarrow> PartialValidity \<Rightarrow> bool" where
  "means cs e MustBeTrue = valid cs e"
| "means cs e MustBeFalse = invalid cs e"
| "means cs e MayBeTrue = (\<not> invalid cs e)"
| "means cs e MayBeFalse = (\<not> valid cs e)"
| "means cs e TrueOrFalse = (\<not> valid cs e \<and> \<not> invalid cs e)"
| "means cs e NoValidity = False"

definition cache_inv :: "array set \<Rightarrow> cache_map \<Rightarrow> bool" where
  "cache_inv A cache \<longleftrightarrow> (\<forall>((cs, e), pv) \<in> set cache. bool_query A \<lparr>qconstraints = cs, qexpr = e\<rparr> \<and> means cs e pv)"

text \<open>No other array has the address of one of \<open>A\<close>.\<close>

definition unshared :: "layout \<Rightarrow> array set \<Rightarrow> bool" where
  "unshared L A \<longleftrightarrow> (\<forall>a \<in> A. \<forall>b. address L b = address L a \<longrightarrow> b = a)"

lemma pure_arrays: "pure_in N A e \<Longrightarrow> expr_arrays e \<subseteq> A" "pure_u N A us \<Longrightarrow> ulist_arrays us \<subseteq> A"
  by (induction e and us) auto

lemma askable_placed: "unshared L A \<Longrightarrow> askable A e \<Longrightarrow> e \<in> placed L"
  using pure_arrays(1) [of "{}" A e] by (auto simp: unshared_def askable_def placed_def)

lemma same_entry_eq:
  assumes "unshared L A" "bool_query A q" "bool_query A q'"
  shows "same_entry L (qconstraints q, qexpr q) (qconstraints q', qexpr q') \<longleftrightarrow> qconstraints q = qconstraints q' \<and> qexpr q = qexpr q'"
proof -
  have p: "e \<in> placed L" if "e \<in> set (qconstraints q) \<or> e \<in> set (qconstraints q') \<or> e = qexpr q \<or> e = qexpr q'" for e
    using that assms by (auto simp: bool_query_def query_ok_def intro: askable_placed)
  have "list_all2 (\<lambda>x y. compare L x y = 0) (qconstraints q) (qconstraints q') \<longleftrightarrow> list_all2 (=) (qconstraints q) (qconstraints q')"
    using p compare_zero_iff by (auto simp: list_all2_conv_all_nth)
  then show ?thesis using compare_zero_iff [of "qexpr q" L "qexpr q'"] p by (simp add: same_entry_def list_all2_eq)
qed

lemma canonicalizeQuery_ok:
  assumes "bool_query A q"
  obtains c neg where "canonicalizeQuery L (qexpr q) = Some (c, neg)" "bool_query A \<lparr>qconstraints = qconstraints q, qexpr = c\<rparr>"
    "\<not> neg \<Longrightarrow> c = qexpr q"
    "neg \<Longrightarrow> valid (qconstraints q) c = invalid (qconstraints q) (qexpr q)"
    "neg \<Longrightarrow> invalid (qconstraints q) c = valid (qconstraints q) (qexpr q)"
proof (rule negateExpr_ok [OF assms])
  fix n assume n: "bool_query A n" "qconstraints n = qconstraints q" "createIsZero (qexpr q) = Some (qexpr n)"
    "valid (qconstraints n) (qexpr n) = invalid (qconstraints q) (qexpr q)"
    "invalid (qconstraints n) (qexpr n) = valid (qconstraints q) (qexpr q)"
  have "\<lparr>qconstraints = qconstraints q, qexpr = qexpr n\<rparr> = n" "\<lparr>qconstraints = qconstraints q, qexpr = qexpr q\<rparr> = q"
    using n(2) by (cases n; cases q; simp)+
  then have "bool_query A \<lparr>qconstraints = qconstraints q, qexpr = qexpr n\<rparr>" "bool_query A \<lparr>qconstraints = qconstraints q, qexpr = qexpr q\<rparr>"
    using n(1) assms by metis+
  then show ?thesis
    using n by (intro that [of "if compare L (qexpr q) (qexpr n) < 0 then qexpr q else qexpr n" "\<not> compare L (qexpr q) (qexpr n) < 0"])
      (simp_all add: canonicalizeQuery_def split: if_splits)
qed

lemma negate_means:
  assumes "valid cs e' = invalid cs e" "invalid cs e' = valid cs e" "means cs e pv"
  shows "\<exists>pv'. negatePartialValidity pv = Some pv' \<and> means cs e' pv'"
  using assms by (cases pv) auto

lemma cacheLookup_ok:
  assumes "unshared L A" "cache_inv A cache" "bool_query A q"
  shows "\<exists>hit. cacheLookup L cache q = Some hit \<and> (\<forall>pv. hit = Some pv \<longrightarrow> means (qconstraints q) (qexpr q) pv)"
proof (rule canonicalizeQuery_ok [OF assms(3), of L])
  fix c neg assume c: "canonicalizeQuery L (qexpr q) = Some (c, neg)" "bool_query A \<lparr>qconstraints = qconstraints q, qexpr = c\<rparr>"
    "\<not> neg \<Longrightarrow> c = qexpr q" "neg \<Longrightarrow> valid (qconstraints q) c = invalid (qconstraints q) (qexpr q)"
    "neg \<Longrightarrow> invalid (qconstraints q) c = valid (qconstraints q) (qexpr q)"
  have m: "means (qconstraints q) c pv" if h: "cache_find L (qconstraints q, c) cache = Some pv" for pv
  proof -
    obtain cs e where e: "((cs, e), pv) \<in> set cache" "same_entry L (cs, e) (qconstraints q, c)"
      using h by (auto simp: cache_find_def find_Some_iff) (metis fst_conv nth_mem)
    then have "bool_query A \<lparr>qconstraints = cs, qexpr = e\<rparr>" "means cs e pv" using assms(2) by (auto simp: cache_inv_def)
    then show ?thesis using same_entry_eq [OF assms(1) _ c(2), of "\<lparr>qconstraints = cs, qexpr = e\<rparr>"] e(2) by simp
  qed
  show ?thesis
  proof (cases "cache_find L (qconstraints q, c) cache")
    case (Some pv)
    show ?thesis
    proof (cases neg)
      case True
      then obtain pv' where "negatePartialValidity pv = Some pv'" "means (qconstraints q) (qexpr q) pv'"
        using negate_means [OF c(5,4) [symmetric] m [OF Some]] by blast
      then show ?thesis using True c(1) Some by (simp add: cacheLookup_def)
    qed (use m [OF Some] c(1,3) Some in \<open>auto simp: cacheLookup_def\<close>)
  qed (use c(1) in \<open>auto simp: cacheLookup_def\<close>)
qed

lemma cacheInsert_ok:
  assumes "cache_inv A cache" "bool_query A q" "means (qconstraints q) (qexpr q) pv"
  shows "\<exists>cache'. cacheInsert L q pv cache = Some cache' \<and> cache_inv A cache'"
proof (rule canonicalizeQuery_ok [OF assms(2), of L])
  fix c neg assume c: "canonicalizeQuery L (qexpr q) = Some (c, neg)" "bool_query A \<lparr>qconstraints = qconstraints q, qexpr = c\<rparr>"
    "\<not> neg \<Longrightarrow> c = qexpr q" "neg \<Longrightarrow> valid (qconstraints q) c = invalid (qconstraints q) (qexpr q)"
    "neg \<Longrightarrow> invalid (qconstraints q) c = valid (qconstraints q) (qexpr q)"
  obtain pv' where pv': "(if neg then negatePartialValidity pv else Some pv) = Some pv'" "means (qconstraints q) c pv'"
    using c(3) negate_means [OF c(4,5) assms(3)] assms(3) by (cases neg) auto
  then show ?thesis
    using c(1,2) assms(1) by (auto simp: cacheInsert_def cache_add_def cache_inv_def)
qed

lemma remember_answers:
  assumes "sinv (fst st)" "cache_inv A (snd st)" "bool_query A q" "means (qconstraints q) (qexpr q) pv" "P r"
  shows "answers may_fail (\<lambda>st. sinv (fst st) \<and> cache_inv A (snd st)) P (remember L q pv r st)"
proof -
  obtain cache' where "cacheInsert L q pv (snd st) = Some cache'" "cache_inv A cache'"
    using cacheInsert_ok [OF assms(2-4)] by blast
  then show ?thesis using assms by (simp add: remember_def)
qed

lemma inner_answers:
  assumes "answers may_fail sinv P (m (fst st))" "I (snd st)"
  shows "answers may_fail (\<lambda>st. sinv (fst st) \<and> I (snd st)) P (inner m st)"
  using assms by (auto simp: answers_def inner_def)

subsection \<open>Both solvers keep the contract\<close>

lemma means_validity:
  "means (qconstraints q) (qexpr q) (case true_validity q of ValidityTrue \<Rightarrow> MustBeTrue | ValidityFalse \<Rightarrow> MustBeFalse | ValidityUnknown \<Rightarrow> TrueOrFalse)"
  by (simp add: true_validity_def)

abbreviation cached :: "array set \<Rightarrow> ('s \<Rightarrow> bool) \<Rightarrow> 's \<times> cache_map \<Rightarrow> bool" where
  "cached A sinv \<equiv> \<lambda>st. sinv (fst st) \<and> cache_inv A (snd st)"

context solver_contract
begin

lemma inner_truth:
  assumes "cached A sinv st" "bool_query A q"
  shows "answers may_fail (cached A sinv) (\<lambda>b. b = valid (qconstraints q) (qexpr q)) (inner (computeTruth S q) st)"
  by (rule inner_answers, rule truth) (use assms in auto)

lemma CachingSolver_truth:
  assumes "unshared L A" "cached A sinv st" "bool_query A q"
  shows "answers may_fail (cached A sinv) (\<lambda>b. b = valid (qconstraints q) (qexpr q)) (CachingSolver_computeTruth L S q st)"
proof -
  obtain hit where hit: "cacheLookup L (snd st) q = Some hit" "\<And>pv. hit = Some pv \<Longrightarrow> means (qconstraints q) (qexpr q) pv"
    using cacheLookup_ok [OF assms(1) _ assms(3)] assms(2) by blast
  have sat: "\<not> (valid (qconstraints q) (qexpr q) \<and> invalid (qconstraints q) (qexpr q))"
    using assms(3) not_both by (simp add: bool_query_def query_ok_def)
  have ask: "answers may_fail (cached A sinv) (\<lambda>b. b = valid (qconstraints q) (qexpr q)) (andthen (inner (computeTruth S q)) (\<lambda>isValid.
      remember L q (if isValid then MustBeTrue else if hit \<noteq> None then TrueOrFalse else MayBeFalse) isValid) st)"
    if "hit = None \<or> hit = Some MayBeTrue"
    by (rule answers_andthen, rule inner_truth [OF assms(2,3)])
       (use that hit(2) assms(3) in \<open>auto intro!: remember_answers\<close>)
  show ?thesis
  proof (cases "hit = None \<or> hit = Some MayBeTrue")
    case True
    then show ?thesis using ask hit(1) by (auto simp: CachingSolver_computeTruth_def)
  next
    case False
    then obtain pv where "hit = Some pv" "means (qconstraints q) (qexpr q) pv" using hit(2) by (cases hit) auto
    then show ?thesis
      using False hit(1) sat assms(2) by (cases pv) (auto simp: CachingSolver_computeTruth_def)
  qed
qed

lemma CachingSolver_validity:
  assumes "unshared L A" "cached A sinv st" "bool_query A q"
  shows "answers may_fail (cached A sinv) (\<lambda>v. v = true_validity q) (CachingSolver_computeValidity L S q st)"
proof -
  obtain hit where hit: "cacheLookup L (snd st) q = Some hit" "\<And>pv. hit = Some pv \<Longrightarrow> means (qconstraints q) (qexpr q) pv"
    using cacheLookup_ok [OF assms(1) _ assms(3)] assms(2) by blast
  have sat: "\<not> (valid (qconstraints q) (qexpr q) \<and> invalid (qconstraints q) (qexpr q))"
    using assms(3) not_both by (simp add: bool_query_def query_ok_def)
  obtain n where n: "negateExpr q = Some n" "bool_query A n" "valid (qconstraints n) (qexpr n) = invalid (qconstraints q) (qexpr q)"
    using negateExpr_ok [OF assms(3)] by metis
  have miss: "answers may_fail (cached A sinv) (\<lambda>v. v = true_validity q) (andthen (inner (computeValidity S q)) (\<lambda>result.
      remember L q (case result of ValidityTrue \<Rightarrow> MustBeTrue | ValidityFalse \<Rightarrow> MustBeFalse | ValidityUnknown \<Rightarrow> TrueOrFalse) result) st)"
    by (rule answers_andthen, rule inner_answers, rule validity)
       (use assms means_validity in \<open>auto intro!: remember_answers\<close>)
  have may: "answers may_fail (cached A sinv) (\<lambda>v. v = true_validity q) (andthen (inner (computeTruth S q)) (\<lambda>tmp.
      if tmp then remember L q MustBeTrue ValidityTrue else remember L q TrueOrFalse ValidityUnknown) st)"
    if "\<not> invalid (qconstraints q) (qexpr q)"
    by (rule answers_andthen, rule inner_truth [OF assms(2,3)])
       (use that assms(3) in \<open>auto simp: true_validity_def intro!: remember_answers\<close>)
  have mayf: "answers may_fail (cached A sinv) (\<lambda>v. v = true_validity q) (building (negateExpr q) (\<lambda>n. andthen (inner (computeTruth S n)) (\<lambda>tmp.
      if tmp then remember L q MustBeFalse ValidityFalse else remember L q TrueOrFalse ValidityUnknown)) st)"
    if "\<not> valid (qconstraints q) (qexpr q)"
    by (rule answers_building [OF n(1)], rule answers_andthen, rule inner_truth [OF assms(2) n(2)])
       (use that n(3) assms(3) in \<open>auto simp: true_validity_def intro!: remember_answers\<close>)
  show ?thesis
  proof (cases hit)
    case None
    then show ?thesis using miss hit(1) by (simp add: CachingSolver_computeValidity_def)
  next
    case (Some pv)
    then show ?thesis
      using hit sat may mayf assms(2) by (cases pv) (auto simp: CachingSolver_computeValidity_def true_validity_def)
  qed
qed

end

lemma CachingSolver_contract:
  assumes "solver_contract may_fail A S sinv" "unshared L A"
  shows "solver_contract may_fail A (CachingSolver L S) (\<lambda>st. sinv (fst st) \<and> cache_inv A (snd st))"
proof
  fix q objects and st :: "'a \<times> cache_map" assume st: "cached A sinv st"
  show "answers may_fail (cached A sinv) (\<lambda>b. b = valid (qconstraints q) (qexpr q)) (computeTruth (CachingSolver L S) q st)" if "bool_query A q"
    using solver_contract.CachingSolver_truth [OF assms st that] by (simp add: CachingSolver_def)
  show "answers may_fail (cached A sinv) (\<lambda>v. v = true_validity q) (computeValidity (CachingSolver L S) q st)" if "bool_query A q"
    using solver_contract.CachingSolver_validity [OF assms st that] by (simp add: CachingSolver_def)
  show "answers may_fail (cached A sinv) (\<lambda>v. \<exists>c. v = ConstantExpr c \<and> wf_apint c \<and> bitWidth c = getWidth (qexpr q) \<and> feasible q (apval c))
      (computeValue (CachingSolver L S) q st)" if "query_ok A q"
    unfolding CachingSolver_def solver_impl.simps
    by (rule inner_answers, rule solver_contract.value_ok [OF assms(1)]) (use st that in auto)
  show "answers may_fail (cached A sinv) (good_init q objects) (computeInitialValues (CachingSolver L S) q objects st)"
    if "bool_query A q" "distinct objects" "set objects \<subseteq> A" "determined_by q (set objects)"
    unfolding CachingSolver_def solver_impl.simps
    by (rule inner_answers, rule solver_contract.init [OF assms(1)]) (use st that in auto)
qed

subsection \<open>The stages\<close>

text \<open>
  What an incomplete solver promises: of the truth, that the query is valid, that it is not, or
  nothing; of the validity and the values, only what is right.
\<close>

definition truth_law :: "array set \<Rightarrow> (query \<Rightarrow> PartialValidity option) \<Rightarrow> bool" where
  "truth_law A truth \<longleftrightarrow> (\<forall>q. bool_query A q \<longrightarrow> (\<exists>pv. truth q = Some pv \<and>
     (pv = NoValidity \<or> pv \<in> {MustBeTrue, MayBeFalse} \<and> means (qconstraints q) (qexpr q) pv)))"

definition validity_law :: "array set \<Rightarrow> (query \<Rightarrow> PartialValidity option) \<Rightarrow> bool" where
  "validity_law A val \<longleftrightarrow> (\<forall>q. bool_query A q \<longrightarrow> (\<exists>pv. val q = Some pv \<and> (pv = NoValidity \<or> means (qconstraints q) (qexpr q) pv)))"

definition values_law :: "array set \<Rightarrow> incomplete_impl \<Rightarrow> bool" where
  "values_law A P \<longleftrightarrow>
     (\<forall>q. query_ok A q \<longrightarrow> (\<exists>r. incValue P q = Some r \<and> (\<forall>e. r = Some e \<longrightarrow>
        (\<exists>c. e = ConstantExpr c \<and> wf_apint c \<and> bitWidth c = getWidth (qexpr q) \<and> feasible q (apval c))))) \<and>
     (\<forall>q objects. bool_query A q \<longrightarrow> (\<exists>r. incInitialValues P q objects = Some r \<and> (\<forall>v. r = Some v \<longrightarrow> good_init q objects v)))"

lemma IncompleteSolver_computeValidity_law:
  assumes "truth_law A truth"
  shows "validity_law A (IncompleteSolver_computeValidity truth)"
  unfolding validity_law_def
proof (intro allI impI)
  fix q assume q: "bool_query A q"
  obtain n where n: "negateExpr q = Some n" "bool_query A n" "valid (qconstraints n) (qexpr n) = invalid (qconstraints q) (qexpr q)"
    using negateExpr_ok [OF q] by metis
  have t: "\<exists>pv. truth q = Some pv \<and> (pv = NoValidity \<or> pv = MustBeTrue \<and> valid (qconstraints q) (qexpr q) \<or> pv = MayBeFalse \<and> \<not> valid (qconstraints q) (qexpr q))"
    if "bool_query A q" for q
    using assms that by (force simp: truth_law_def)
  obtain p p' where "truth q = Some p" "truth n = Some p'"
    "p = NoValidity \<or> p = MustBeTrue \<and> valid (qconstraints q) (qexpr q) \<or> p = MayBeFalse \<and> \<not> valid (qconstraints q) (qexpr q)"
    "p' = NoValidity \<or> p' = MustBeTrue \<and> invalid (qconstraints q) (qexpr q) \<or> p' = MayBeFalse \<and> \<not> invalid (qconstraints q) (qexpr q)"
    using t [OF q] t [OF n(2)] n(3) by auto
  then show "\<exists>pv. IncompleteSolver_computeValidity truth q = Some pv \<and> (pv = NoValidity \<or> means (qconstraints q) (qexpr q) pv)"
    using n(1) by (auto simp: IncompleteSolver_computeValidity_def)
qed

context solver_contract
begin

lemma StagedSolverImpl_truth:
  assumes "truth_law A (incTruth P)" "sinv s" "bool_query A q"
  shows "answers may_fail sinv (\<lambda>b. b = valid (qconstraints q) (qexpr q)) (StagedSolverImpl_computeTruth P S q s)"
proof -
  obtain pv where "incTruth P q = Some pv" "pv = NoValidity \<or> pv \<in> {MustBeTrue, MayBeFalse} \<and> means (qconstraints q) (qexpr q) pv"
    using assms by (auto simp: truth_law_def)
  then show ?thesis
    using truth [OF assms(2,3)] assms(2) by (auto simp: StagedSolverImpl_computeTruth_def building_def)
qed

lemma StagedSolverImpl_validity:
  assumes "validity_law A (incValidity P)" "sinv s" "bool_query A q"
  shows "answers may_fail sinv (\<lambda>v. v = true_validity q) (StagedSolverImpl_computeValidity P S q s)"
proof -
  obtain pv where pv: "incValidity P q = Some pv" "pv = NoValidity \<or> means (qconstraints q) (qexpr q) pv"
    using assms by (auto simp: validity_law_def)
  have sat: "\<not> (valid (qconstraints q) (qexpr q) \<and> invalid (qconstraints q) (qexpr q))"
    using assms(3) not_both by (simp add: bool_query_def query_ok_def)
  obtain n where n: "negateExpr q = Some n" "bool_query A n" "valid (qconstraints n) (qexpr n) = invalid (qconstraints q) (qexpr q)"
    using negateExpr_ok [OF assms(3)] by metis
  have may: "answers may_fail sinv (\<lambda>v. v = true_validity q)
      (andthen (computeTruth S q) (\<lambda>tmp. returns (if tmp then ValidityTrue else ValidityUnknown)) s)"
    if "\<not> invalid (qconstraints q) (qexpr q)"
    by (rule answers_andthen, rule truth [OF assms(2,3)]) (use that in \<open>simp add: true_validity_def\<close>)
  have mayf: "answers may_fail sinv (\<lambda>v. v = true_validity q)
      (andthen (computeTruth S n) (\<lambda>tmp. returns (if tmp then ValidityFalse else ValidityUnknown)) s)"
    if "\<not> valid (qconstraints q) (qexpr q)"
    by (rule answers_andthen, rule truth [OF assms(2) n(2)]) (use that n(3) in \<open>simp add: true_validity_def\<close>)
  show ?thesis
    using pv sat may mayf assms(2) n(1) validity [OF assms(2,3)]
    by (cases pv) (auto simp: StagedSolverImpl_computeValidity_def building_def true_validity_def)
qed

lemma StagedSolverImpl_keeps:
  assumes "truth_law A (incTruth P)" "validity_law A (incValidity P)" "values_law A P"
  shows "solver_contract may_fail A (StagedSolverImpl P S) sinv"
proof
  fix q objects s assume s: "sinv s"
  show "answers may_fail sinv (\<lambda>b. b = valid (qconstraints q) (qexpr q)) (computeTruth (StagedSolverImpl P S) q s)" if "bool_query A q"
    using StagedSolverImpl_truth [OF assms(1) s that] by (simp add: StagedSolverImpl_def)
  show "answers may_fail sinv (\<lambda>v. v = true_validity q) (computeValidity (StagedSolverImpl P S) q s)" if "bool_query A q"
    using StagedSolverImpl_validity [OF assms(2) s that] by (simp add: StagedSolverImpl_def)
  show "answers may_fail sinv (\<lambda>v. \<exists>c. v = ConstantExpr c \<and> wf_apint c \<and> bitWidth c = getWidth (qexpr q) \<and> feasible q (apval c))
      (computeValue (StagedSolverImpl P S) q s)" if q: "query_ok A q"
  proof -
    obtain r where "incValue P q = Some r" "\<And>e. r = Some e \<Longrightarrow>
      \<exists>c. e = ConstantExpr c \<and> wf_apint c \<and> bitWidth c = getWidth (qexpr q) \<and> feasible q (apval c)"
      using assms(3) q unfolding values_law_def by blast
    then show ?thesis using value_ok [OF s q] s by (cases r) (auto simp: StagedSolverImpl_def building_def)
  qed
  show "answers may_fail sinv (good_init q objects) (computeInitialValues (StagedSolverImpl P S) q objects s)"
    if q: "bool_query A q" "distinct objects" "set objects \<subseteq> A" "determined_by q (set objects)"
  proof -
    obtain r where "incInitialValues P q objects = Some r" "\<And>v. r = Some v \<Longrightarrow> good_init q objects v"
      using assms(3) q(1) unfolding values_law_def by blast
    then show ?thesis using init [OF s q] s by (cases r) (auto simp: StagedSolverImpl_def building_def)
  qed
qed

end

end
