(* ===== verification/Map_Of_Sets.thy ===== *)
theory Map_Of_Sets
  imports Expr_Compare
begin

text \<open>
  The tree of sets that indexes cached counterexamples (\<^verbatim>\<open>klee/include/klee/Internal/ADT/MapOfSets.h\<close>).
  A node has a value if a set ends there, and children for the next larger elements. A
  \<open>std::set\<close> is the list of its elements in the order \<open>lt\<close> of the keys, a \<open>std::map\<close> of children the
  list of its entries in that order. The order is a parameter; the laws it needs are those of
  \<open>key_order\<close>.
\<close>

subsection \<open>Operations\<close>

datatype ('k, 'v) mnode = MNode (mvalue: "'v option") (children: "('k \<times> ('k, 'v) mnode) list")

definition MapOfSets_empty :: "('k, 'v) mnode" where
  "MapOfSets_empty = MNode None []"

text \<open>\<open>std::map::insert\<close> of a new node, with the update of the node found or inserted.\<close>

fun with_child :: "('k \<Rightarrow> 'k \<Rightarrow> bool) \<Rightarrow> 'k \<Rightarrow> (('k, 'v) mnode \<Rightarrow> ('k, 'v) mnode) \<Rightarrow> ('k \<times> ('k, 'v) mnode) list \<Rightarrow> ('k \<times> ('k, 'v) mnode) list" where
  "with_child lt k f [] = [(k, f (MNode None []))]"
| "with_child lt k f ((k', n) # cs) =
     (if lt k k' then (k, f (MNode None [])) # (k', n) # cs
      else if lt k' k then (k', n) # with_child lt k f cs
      else (k', f n) # cs)"

fun MapOfSets_insert :: "('k \<Rightarrow> 'k \<Rightarrow> bool) \<Rightarrow> 'k list \<Rightarrow> 'v \<Rightarrow> ('k, 'v) mnode \<Rightarrow> ('k, 'v) mnode" where
  "MapOfSets_insert lt [] v (MNode x cs) = MNode (Some v) cs"
| "MapOfSets_insert lt (k # ks) v (MNode x cs) = MNode x (with_child lt k (MapOfSets_insert lt ks v) cs)"

definition kid_lower_bound :: "('k \<Rightarrow> 'k \<Rightarrow> bool) \<Rightarrow> 'k \<Rightarrow> ('k \<times> 'n) list \<Rightarrow> ('k \<times> 'n) list" where
  "kid_lower_bound lt k cs = dropWhile (\<lambda>c. lt (fst c) k) cs"

definition find_child :: "('k \<Rightarrow> 'k \<Rightarrow> bool) \<Rightarrow> 'k \<Rightarrow> ('k \<times> 'n) list \<Rightarrow> 'n option" where
  "find_child lt k cs =
     (case kid_lower_bound lt k cs of [] \<Rightarrow> None | (k', n) # _ \<Rightarrow> if lt k k' then None else Some n)"

text \<open>\<open>std::set::insert\<close>.\<close>

fun set_insert :: "('k \<Rightarrow> 'k \<Rightarrow> bool) \<Rightarrow> 'k \<Rightarrow> 'k list \<Rightarrow> 'k list" where
  "set_insert lt x [] = [x]"
| "set_insert lt x (y # ys) = (if lt x y then x # y # ys else if lt y x then y # set_insert lt x ys else y # ys)"

fun MapOfSets_lookup :: "('k \<Rightarrow> 'k \<Rightarrow> bool) \<Rightarrow> 'k list \<Rightarrow> ('k, 'v) mnode \<Rightarrow> 'v option" where
  "MapOfSets_lookup lt [] n = mvalue n"
| "MapOfSets_lookup lt (k # ks) n =
     (case find_child lt k (children n) of None \<Rightarrow> None | Some n' \<Rightarrow> MapOfSets_lookup lt ks n')"

text \<open>A set ends at the node and its value satisfies the predicate.\<close>

fun ends_with :: "('v \<Rightarrow> bool) \<Rightarrow> ('k, 'v) mnode \<Rightarrow> bool" where
  "ends_with p (MNode (Some v) _) = p v"
| "ends_with p (MNode None _) = False"

lemma dropWhile_shorter: "dropWhile P xs = x # ys \<Longrightarrow> length ys < length xs"
  using length_dropWhile_le [of P xs] by simp

lemma kid_lower_bound_shorter: "length (kid_lower_bound lt k cs) \<le> length cs"
  by (simp add: kid_lower_bound_def length_dropWhile_le)

text \<open>
  \<open>findSubset\<close> and its loop over the positions \<open>it\<close> in the set and \<open>kb\<close> in the children. In an
  order one of two elements that differ is less than the other, so the last case of the loop is
  not reached.
\<close>

function findSubset :: "('k \<Rightarrow> 'k \<Rightarrow> bool) \<Rightarrow> ('v \<Rightarrow> bool) \<Rightarrow> ('k, 'v) mnode \<Rightarrow> 'k list \<Rightarrow> 'v option"
  and subset_loop :: "('k \<Rightarrow> 'k \<Rightarrow> bool) \<Rightarrow> ('v \<Rightarrow> bool) \<Rightarrow> 'k list \<Rightarrow> ('k \<times> ('k, 'v) mnode) list \<Rightarrow> 'v option" where
  "findSubset lt p n ks =
     (if ends_with p n then mvalue n
      else if ks = [] then None
      else subset_loop lt p ks (kid_lower_bound lt (hd ks) (children n)))"
| "subset_loop lt p ks [] = None"
| "subset_loop lt p ks ((k, n) # kb) =
     (case dropWhile (\<lambda>x. lt x k) ks of
        [] \<Rightarrow> None
      | x # it \<Rightarrow>
          (if x = k then
             (case findSubset lt p n it of
                Some v \<Rightarrow> Some v
              | None \<Rightarrow> (if it = [] then None else subset_loop lt p it (kid_lower_bound lt (hd it) ((k, n) # kb))))
           else if lt k x then subset_loop lt p (x # it) (kid_lower_bound lt x kb)
           else None))"
  by pat_completeness auto

termination
  by (relation "inv_image (less_than <*lex*> less_than)
        (case_sum (\<lambda>(_, _, n, ks). (length ks, Suc (length (children n)))) (\<lambda>(_, _, ks, kb). (length ks, length kb)))")
     (auto dest!: dropWhile_shorter simp: le_imp_less_Suc [OF kid_lower_bound_shorter] le_eq_less_or_eq
       intro: le_imp_less_Suc kid_lower_bound_shorter)

declare findSubset.simps [simp del]

lemma kid_size: "(k, n) \<in> set cs \<Longrightarrow> size n < Suc (size_list (size_prod (\<lambda>_. 0) size) cs)"
  by (induction cs) auto

lemma lower_bound_kid: "kid_lower_bound lt k cs = (k', n) # kb \<Longrightarrow> (k', n) \<in> set cs"
  unfolding kid_lower_bound_def by (metis list.set_intros(1) set_dropWhileD)

function findSuperset :: "('k \<Rightarrow> 'k \<Rightarrow> bool) \<Rightarrow> ('v \<Rightarrow> bool) \<Rightarrow> ('k, 'v) mnode \<Rightarrow> 'k list \<Rightarrow> 'v option"
  and superset_kids :: "('k \<Rightarrow> 'k \<Rightarrow> bool) \<Rightarrow> ('v \<Rightarrow> bool) \<Rightarrow> ('k \<times> ('k, 'v) mnode) list \<Rightarrow> 'k list \<Rightarrow> 'v option" where
  "findSuperset lt p (MNode x cs) [] =
     (if ends_with p (MNode x cs) then x else superset_kids lt p cs [])"
| "findSuperset lt p (MNode x cs) (k # ks) =
     (case superset_kids lt p cs (k # ks) of
        Some v \<Rightarrow> Some v
      | None \<Rightarrow>
          (case kid_lower_bound lt k cs of
             [] \<Rightarrow> None
           | (k', n) # _ \<Rightarrow> if k = k' then findSuperset lt p n ks else None))"
| "superset_kids lt p [] ks = None"
| "superset_kids lt p ((k, n) # cs) ks =
     (case findSuperset lt p n ks of Some v \<Rightarrow> Some v | None \<Rightarrow> superset_kids lt p cs ks)"
  by pat_completeness auto

termination
  by (relation "measure (case_sum (\<lambda>(_, _, n, _). size n) (\<lambda>(_, _, cs, _). size_list (size_prod (\<lambda>_. 0) size) cs))")
     (auto dest!: lower_bound_kid kid_size)

text \<open>All stored subsets and all stored supersets of a set, with their values.\<close>

function findSubsets :: "('k \<Rightarrow> 'k \<Rightarrow> bool) \<Rightarrow> ('k, 'v) mnode \<Rightarrow> 'k list \<Rightarrow> 'k list \<Rightarrow> ('k list \<times> 'v) list"
  and subsets_loop :: "('k \<Rightarrow> 'k \<Rightarrow> bool) \<Rightarrow> ('k, 'v) mnode \<Rightarrow> 'k list \<Rightarrow> 'k list \<Rightarrow> ('k list \<times> 'v) list" where
  "findSubsets lt n accum ks =
     (case mvalue n of Some v \<Rightarrow> [(accum, v)] | None \<Rightarrow> []) @ subsets_loop lt n accum ks"
| "subsets_loop lt n accum [] = []"
| "subsets_loop lt n accum (elt # it) =
     (case find_child lt elt (children n) of Some n' \<Rightarrow> findSubsets lt n' (accum @ [elt]) it | None \<Rightarrow> []) @
     subsets_loop lt n accum it"
  by pat_completeness auto
termination
  by (relation "measure (case_sum (\<lambda>(_, _, _, ks). 2 * length ks + 1) (\<lambda>(_, _, _, ks). 2 * length ks))") auto

function findSupersets :: "('k \<Rightarrow> 'k \<Rightarrow> bool) \<Rightarrow> ('k, 'v) mnode \<Rightarrow> 'k list \<Rightarrow> 'k list \<Rightarrow> ('k list \<times> 'v) list"
  and supersets_kids :: "('k \<Rightarrow> 'k \<Rightarrow> bool) \<Rightarrow> ('k \<times> ('k, 'v) mnode) list \<Rightarrow> 'k list \<Rightarrow> 'k list \<Rightarrow> ('k list \<times> 'v) list" where
  "findSupersets lt (MNode x cs) accum [] =
     (case x of Some v \<Rightarrow> [(accum, v)] | None \<Rightarrow> []) @ supersets_kids lt cs accum []"
| "findSupersets lt (MNode x cs) accum (elt # ks) = supersets_kids lt cs accum (elt # ks)"
| "supersets_kids lt [] accum ks = []"
| "supersets_kids lt ((k, n) # cs) accum [] =
     findSupersets lt n (accum @ [k]) [] @ supersets_kids lt cs accum []"
| "supersets_kids lt ((k, n) # cs) accum (elt # ks) =
     (if elt = k then findSupersets lt n (accum @ [k]) ks @ supersets_kids lt cs accum (elt # ks)
      else if lt k elt then findSupersets lt n (accum @ [k]) (elt # ks) @ supersets_kids lt cs accum (elt # ks)
      else [])"
  by pat_completeness auto
termination
  by (relation "measure (case_sum (\<lambda>(_, n, _, _). size n) (\<lambda>(_, cs, _, _). size_list (size_prod (\<lambda>_. 0) size) cs))") auto

definition subsets :: "('k \<Rightarrow> 'k \<Rightarrow> bool) \<Rightarrow> ('k, 'v) mnode \<Rightarrow> 'k list \<Rightarrow> ('k list \<times> 'v) list" where
  "subsets lt root ks = findSubsets lt root [] ks"

definition supersets :: "('k \<Rightarrow> 'k \<Rightarrow> bool) \<Rightarrow> ('k, 'v) mnode \<Rightarrow> 'k list \<Rightarrow> ('k list \<times> 'v) list" where
  "supersets lt root ks = findSupersets lt root [] ks"

subsection \<open>Stored sets\<close>

inductive in_trie :: "('k, 'v) mnode \<Rightarrow> 'k list \<Rightarrow> 'v \<Rightarrow> bool" where
  here: "in_trie (MNode (Some v) cs) [] v"
| down: "(k, n) \<in> set cs \<Longrightarrow> in_trie n ks v \<Longrightarrow> in_trie (MNode x cs) (k # ks) v"

inductive_simps in_trie_nil: "in_trie (MNode x cs) [] v"
inductive_simps in_trie_cons: "in_trie (MNode x cs) (k # ks) v"

lemma in_trie_iff:
  "in_trie (MNode x cs) qs v \<longleftrightarrow>
     (qs = [] \<and> x = Some v) \<or> (\<exists>k n ks. qs = k # ks \<and> (k, n) \<in> set cs \<and> in_trie n ks v)"
  by (cases qs) (auto simp: in_trie_nil in_trie_cons)

lemma in_trie_superset:
  "(\<exists>qs. in_trie (MNode x cs) qs v \<and> set (k # ks) \<subseteq> set qs) \<longleftrightarrow>
     (\<exists>k' n qs. (k', n) \<in> set cs \<and> in_trie n qs v \<and> set (k # ks) \<subseteq> set (k' # qs))"
proof
  assume "\<exists>qs. in_trie (MNode x cs) qs v \<and> set (k # ks) \<subseteq> set qs"
  then obtain qs where qs: "in_trie (MNode x cs) qs v" "set (k # ks) \<subseteq> set qs" by blast
  then obtain k' qs' where "qs = k' # qs'" by (cases qs) auto
  then show "\<exists>k' n qs. (k', n) \<in> set cs \<and> in_trie n qs v \<and> set (k # ks) \<subseteq> set (k' # qs)"
    using qs by (auto simp: in_trie_cons)
qed (blast intro: in_trie.down)

lemma ends_with_iff: "ends_with p n \<longleftrightarrow> (\<exists>v. mvalue n = Some v \<and> p v)"
  by (cases n rule: mnode.exhaust; cases "mvalue n") auto

text \<open>Children in order, with larger elements below.\<close>

inductive kids_ok :: "('k \<Rightarrow> 'k \<Rightarrow> bool) \<Rightarrow> 'k set \<Rightarrow> ('k \<times> ('k, 'v) mnode) list \<Rightarrow> bool" for lt C where
  kids_ok_nil: "kids_ok lt C []"
| kids_ok_cons: "kids_ok lt C (children n) \<Longrightarrow> kids_ok lt C cs \<Longrightarrow> k \<in> C \<Longrightarrow>
     (\<forall>k' \<in> fst ` set (children n). lt k k') \<Longrightarrow> (\<forall>k' \<in> fst ` set cs. lt k k') \<Longrightarrow> kids_ok lt C ((k, n) # cs)"

inductive_simps kids_ok_simps [simp]: "kids_ok lt C []" "kids_ok lt C ((k, n) # cs)"

definition trie_ok :: "('k \<Rightarrow> 'k \<Rightarrow> bool) \<Rightarrow> 'k set \<Rightarrow> ('k, 'v) mnode \<Rightarrow> bool" where
  "trie_ok lt C n \<longleftrightarrow> kids_ok lt C (children n)"

definition set_list :: "('k \<Rightarrow> 'k \<Rightarrow> bool) \<Rightarrow> 'k set \<Rightarrow> 'k list \<Rightarrow> bool" where
  "set_list lt C ks \<longleftrightarrow> sorted_wrt lt ks \<and> set ks \<subseteq> C"

lemma set_list_simps [simp]:
  "set_list lt C []" "set_list lt C (k # ks) \<longleftrightarrow> k \<in> C \<and> (\<forall>x \<in> set ks. lt k x) \<and> set_list lt C ks"
  by (auto simp: set_list_def)

lemma kids_ok_kid: "kids_ok lt C cs \<Longrightarrow> (k, n) \<in> set cs \<Longrightarrow> k \<in> C \<and> trie_ok lt C n \<and> (\<forall>k' \<in> fst ` set (children n). lt k k')"
  by (induction cs rule: kids_ok.induct) (auto simp: trie_ok_def)

lemma kids_ok_dropWhile: "kids_ok lt C cs \<Longrightarrow> kids_ok lt C (dropWhile P cs)"
  by (induction cs rule: kids_ok.induct) (auto intro: kids_ok_cons)

lemma kids_ok_lower [simp]: "kids_ok lt C cs \<Longrightarrow> kids_ok lt C (kid_lower_bound lt k cs)"
  by (simp add: kid_lower_bound_def kids_ok_dropWhile)

lemma set_list_dropWhile: "set_list lt C ks \<Longrightarrow> set_list lt C (dropWhile P ks)"
  by (induction ks) auto

lemma with_child_key: "(k', n') \<in> set (with_child lt k f cs) \<Longrightarrow> k' = k \<or> k' \<in> fst ` set cs"
  by (induction lt k f cs rule: with_child.induct) (auto split: if_splits simp: rev_image_eqI)

lemma with_child_keys: "fst ` set (with_child lt k f cs) \<subseteq> insert k (fst ` set cs)"
  using with_child_key by fastforce

text \<open>A stored set below one of the children that is a subset and has a wanted value.\<close>

definition hit :: "('v \<Rightarrow> bool) \<Rightarrow> ('k \<times> ('k, 'v) mnode) list \<Rightarrow> 'k list \<Rightarrow> 'v \<Rightarrow> bool" where
  "hit p kb ks v \<longleftrightarrow> p v \<and> (\<exists>k n qs. (k, n) \<in> set kb \<and> in_trie n qs v \<and> set (k # qs) \<subseteq> set ks)"

lemma hit_node:
  "p v \<Longrightarrow> (\<exists>qs. in_trie n qs v \<and> set qs \<subseteq> set ks) \<longleftrightarrow> mvalue n = Some v \<or> hit p (children n) ks v"
proof (cases n)
  case (MNode x cs)
  assume p: "p v"
  have "(\<exists>qs. in_trie n qs v \<and> set qs \<subseteq> set ks) \<longleftrightarrow>
    x = Some v \<or> (\<exists>k n' qs. (k, n') \<in> set cs \<and> in_trie n' qs v \<and> set (k # qs) \<subseteq> set ks)"
    unfolding MNode in_trie_iff by (metis empty_subsetI list.set(1))
  then show ?thesis using p MNode by (simp add: hit_def)
qed

lemma hit_nil [simp]: "\<not> hit p kb [] v"
  by (simp add: hit_def)

lemma hit_cons: "hit p ((k, n) # kb) ks v \<longleftrightarrow> p v \<and> (\<exists>qs. in_trie n qs v \<and> set (k # qs) \<subseteq> set ks) \<or> hit p kb ks v"
  by (auto simp: hit_def)

context key_order
begin

lemma path_set_list: "in_trie n ks v \<Longrightarrow> trie_ok lt C n \<Longrightarrow> set_list lt C ks"
proof (induction rule: in_trie.induct)
  case (down k n cs ks v x)
  have kid: "k \<in> C" "trie_ok lt C n" "\<forall>k' \<in> fst ` set (children n). lt k k'"
    using kids_ok_kid [of lt C, OF _ down.hyps(1)] down.prems by (simp_all add: trie_ok_def)
  then have ks: "set_list lt C ks" using down.IH by simp
  show ?case
  proof (cases ks)
    case (Cons k' ks')
    then obtain n' where "(k', n') \<in> set (children n)" using down.hyps(2) by (cases n) (auto simp: in_trie_iff)
    then have "lt k k'" using kid(3) by force
    moreover have "lt k x" if "x \<in> set ks'" for x
      using trans [of k k' x] that Cons ks kid(1) \<open>lt k k'\<close> by (auto simp: set_list_def)
    ultimately show ?thesis using kid(1) ks Cons by simp
  qed (use kid in simp)
qed simp

lemma path_above:
  assumes "kids_ok lt C cs" "(k, n) \<in> set cs" "in_trie n qs v" "x \<in> set qs"
  shows "lt k x"
proof -
  have "trie_ok lt C (MNode None cs)" using assms(1) by (simp add: trie_ok_def)
  from path_set_list [OF in_trie.down [OF assms(2,3)] this] assms(4) show ?thesis by simp
qed

lemma lower_bound_kids:
  "kids_ok lt C cs \<Longrightarrow> k \<in> C \<Longrightarrow> (k', n) \<in> set (kid_lower_bound lt k cs) \<longleftrightarrow> (k', n) \<in> set cs \<and> \<not> lt k' k"
proof (induction cs rule: kids_ok.induct)
  case (kids_ok_cons n0 cs k0)
  have "\<not> lt k'' k" if "\<not> lt k0 k" "(k'', n'') \<in> set cs" for k'' n''
    using that kids_ok_cons.hyps kids_ok_kid [OF kids_ok_cons.hyps(2) that(2)] kids_ok_cons.prems
      trans [of k0 k'' k] by force
  then show ?case using kids_ok_cons by (auto simp: kid_lower_bound_def)
qed (simp add: kid_lower_bound_def)

lemma find_child_iff:
  assumes "kids_ok lt C cs" "k \<in> C"
  shows "find_child lt k cs = Some n \<longleftrightarrow> (k, n) \<in> set cs"
  using assms
proof (induction cs rule: kids_ok.induct)
  case (kids_ok_cons n0 cs k0)
  show ?case
  proof (cases "lt k0 k")
    case True
    then show ?thesis using kids_ok_cons irrefl by (auto simp: find_child_def kid_lower_bound_def)
  next
    case False
    then have "(k, n) \<notin> set cs" using kids_ok_cons.hyps(5) by force
    then show ?thesis using False kids_ok_cons.hyps kids_ok_cons.prems total [of k k0] irrefl
      by (auto simp: find_child_def kid_lower_bound_def)
  qed
qed (simp add: find_child_def kid_lower_bound_def)

lemma trie_lookup_iff: "trie_ok lt C n \<Longrightarrow> set ks \<subseteq> C \<Longrightarrow> MapOfSets_lookup lt ks n = Some v \<longleftrightarrow> in_trie n ks v"
proof (induction ks arbitrary: n)
  case Nil
  then show ?case by (cases n) (auto simp: in_trie_iff)
next
  case (Cons k ks)
  have 1: "find_child lt k (children n) = Some n' \<longleftrightarrow> (k, n') \<in> set (children n)" for n'
    using find_child_iff [of "children n" k] Cons.prems by (simp add: trie_ok_def)
  have 2: "trie_ok lt C n'" if "(k, n') \<in> set (children n)" for n'
    using kids_ok_kid [of lt C, OF _ that] Cons.prems(1) by (simp add: trie_ok_def)
  show ?case
  proof (cases "find_child lt k (children n)")
    case None
    then show ?thesis using 1 by (cases n) (auto simp: in_trie_iff)
  next
    case (Some n')
    then have "(k, n'') \<in> set (children n) \<longleftrightarrow> n'' = n'" for n'' using 1 [of n''] by auto
    then show ?thesis using Some Cons 2 [of n'] by (cases n) (auto simp: in_trie_iff)
  qed
qed

text \<open>Insertion.\<close>

lemma with_child_kids:
  assumes "kids_ok lt C cs" "k \<in> C"
  shows "(k', n') \<in> set (with_child lt k f cs) \<longleftrightarrow>
    (if k' = k then n' = f (case find_child lt k cs of Some n \<Rightarrow> n | None \<Rightarrow> MNode None []) else (k', n') \<in> set cs)"
  using assms
proof (induction cs rule: kids_ok.induct)
  case (kids_ok_cons n0 cs k0)
  consider "lt k k0" | "lt k0 k" | "k = k0" using total kids_ok_cons by blast
  then show ?case
  proof cases
    case 1
    have "(k, n'') \<notin> set cs" for n'' using 1 kids_ok_cons asym [of k k0] by force
    then show ?thesis using 1 kids_ok_cons.hyps kids_ok_cons.prems irrefl asym [of k k0]
      by (auto simp: find_child_def kid_lower_bound_def)
  next
    case 2
    then show ?thesis using kids_ok_cons asym [of k0 k] irrefl by (auto simp: find_child_def kid_lower_bound_def)
  next
    case 3
    then have "(k, n'') \<notin> set cs" for n'' using kids_ok_cons irrefl by force
    then show ?thesis using 3 kids_ok_cons irrefl by (auto simp: find_child_def kid_lower_bound_def)
  qed
qed (auto simp: find_child_def kid_lower_bound_def)

lemma with_child_ok:
  assumes "kids_ok lt C cs" "k \<in> C"
    and f: "\<And>n. trie_ok lt C n \<Longrightarrow> \<forall>k' \<in> fst ` set (children n). lt k k' \<Longrightarrow>
      trie_ok lt C (f n) \<and> (\<forall>k' \<in> fst ` set (children (f n)). lt k k')"
  shows "kids_ok lt C (with_child lt k f cs)"
  using assms(1)
proof (induction cs rule: kids_ok.induct)
  case kids_ok_nil
  then show ?case using f [of "MNode None []"] assms(2) by (simp add: trie_ok_def)
next
  case (kids_ok_cons n0 cs k0)
  have new: "trie_ok lt C (f (MNode None [])) \<and> (\<forall>k' \<in> fst ` set (children (f (MNode None []))). lt k k')"
    by (rule f) (simp_all add: trie_ok_def)
  consider "lt k k0" | "lt k0 k" | "k = k0" using total kids_ok_cons assms(2) by blast
  then show ?case
  proof cases
    case 1
    have "\<forall>k' \<in> fst ` set cs. lt k k'"
      using 1 kids_ok_cons.hyps trans [of k k0] assms(2) kids_ok_kid [OF kids_ok_cons.hyps(2)] by force
    then show ?thesis using 1 new kids_ok_cons.hyps assms(2) by (simp add: trie_ok_def)
  next
    case 2
    then have "\<forall>k' \<in> fst ` set (with_child lt k f cs). lt k0 k'"
      using with_child_keys [of lt k f cs] kids_ok_cons.hyps(5) by blast
    then show ?thesis using 2 kids_ok_cons asym [of k0 k] assms(2) by simp
  next
    case 3
    then show ?thesis using kids_ok_cons.hyps f [of n0] irrefl by (simp add: trie_ok_def)
  qed
qed

lemma insert_ok:
  "trie_ok lt C n \<Longrightarrow> set_list lt C ks \<Longrightarrow> trie_ok lt C (MapOfSets_insert lt ks v n) \<and>
     fst ` set (children (MapOfSets_insert lt ks v n)) \<subseteq> (case ks of [] \<Rightarrow> {} | k # _ \<Rightarrow> {k}) \<union> fst ` set (children n)"
proof (induction ks arbitrary: n)
  case Nil
  then show ?case by (cases n) (simp add: trie_ok_def)
next
  case (Cons k ks)
  obtain x cs where n: "n = MNode x cs" by (cases n)
  have "kids_ok lt C (with_child lt k (MapOfSets_insert lt ks v) cs)"
  proof (rule with_child_ok)
    show "trie_ok lt C (MapOfSets_insert lt ks v m) \<and>
      (\<forall>k' \<in> fst ` set (children (MapOfSets_insert lt ks v m)). lt k k')"
      if m: "trie_ok lt C m" "\<forall>k' \<in> fst ` set (children m). lt k k'" for m
    proof -
      have "\<forall>k' \<in> (case ks of [] \<Rightarrow> {} | q # _ \<Rightarrow> {q}) \<union> fst ` set (children m). lt k k'"
        using m(2) Cons.prems(2) by (cases ks) auto
      then show ?thesis using Cons.IH [OF m(1)] Cons.prems(2) by (meson set_list_simps(2) subsetD)
    qed
  qed (use Cons.prems n in \<open>simp_all add: trie_ok_def\<close>)
  then show ?case using with_child_keys [of lt k _ cs] n by (simp add: trie_ok_def)
qed

lemma insert_iff:
  "trie_ok lt C n \<Longrightarrow> set_list lt C ks \<Longrightarrow>
     in_trie (MapOfSets_insert lt ks v n) qs w \<longleftrightarrow> (if qs = ks then w = v else in_trie n qs w)"
proof (induction ks arbitrary: n qs)
  case Nil
  then show ?case by (cases n) (auto simp: in_trie_iff)
next
  case (Cons k ks)
  obtain x cs where n: "n = MNode x cs" by (cases n)
  then have cs: "kids_ok lt C cs" "k \<in> C" "set_list lt C ks" using Cons.prems by (simp_all add: trie_ok_def)
  show ?case
  proof (cases qs)
    case (Cons q qs')
    show ?thesis
    proof (cases "q = k")
      case False
      then show ?thesis using n Cons with_child_kids [OF cs(1,2)] by (auto simp: in_trie_iff)
    next
      case True
      let ?m = "case find_child lt k cs of Some n \<Rightarrow> n | None \<Rightarrow> MNode None []"
      have "trie_ok lt C ?m"
        using find_child_iff [OF cs(1,2)] kids_ok_kid [OF cs(1)] by (auto simp: trie_ok_def split: option.split)
      moreover have "in_trie ?m qs' w \<longleftrightarrow> in_trie n (k # qs') w"
      proof (cases "find_child lt k cs")
        case None
        then show ?thesis using find_child_iff [OF cs(1,2)] n by (auto simp: in_trie_iff)
      next
        case (Some m)
        then have "(k, m') \<in> set cs \<longleftrightarrow> m' = m" for m' using find_child_iff [OF cs(1,2), of m'] by auto
        then show ?thesis using Some n by (auto simp: in_trie_iff)
      qed
      ultimately show ?thesis
        using Cons True n with_child_kids [OF cs(1,2)] Cons.IH [of ?m qs'] cs(3) by (auto simp: in_trie_iff)
    qed
  qed (use n in \<open>auto simp: in_trie_iff\<close>)
qed

lemma hit_lower:
  assumes "kids_ok lt C kb" "set_list lt C (x # ks)"
  shows "hit p (kid_lower_bound lt x kb) (x # ks) v = hit p kb (x # ks) v"
proof -
  have "(k, n) \<in> set (kid_lower_bound lt x kb) \<longleftrightarrow> (k, n) \<in> set kb" if "k \<in> set (x # ks)" for k n
    using lower_bound_kids [OF assms(1), of x k n] that assms(2) irrefl asym [of x k] by (auto simp: set_list_def)
  then show ?thesis unfolding hit_def by (metis list.set_intros(1) subsetD)
qed

lemma hit_dropWhile:
  assumes ok: "kids_ok lt C ((k, n) # kb)" and ks: "set_list lt C ks"
  shows "hit p ((k, n) # kb) (dropWhile (\<lambda>x. lt x k) ks) v = hit p ((k, n) # kb) ks v"
proof -
  have drop: "x \<in> set (dropWhile (\<lambda>x. lt x k) ks) \<longleftrightarrow> x \<in> set ks" if x: "\<not> lt x k" for x
    using x by (induction ks) auto
  have "set (k' # qs) \<subseteq> set (dropWhile (\<lambda>x. lt x k) ks) \<longleftrightarrow> set (k' # qs) \<subseteq> set ks"
    if kid: "(k', n') \<in> set ((k, n) # kb)" and path: "in_trie n' qs v" for k' n' qs
  proof -
    have k': "k \<in> C" "k' \<in> C" "\<not> lt k' k"
      using kid ok kids_ok_kid [OF ok kid] irrefl asym [of k k'] by (auto simp: rev_image_eqI)
    have "\<not> lt x k" if "x \<in> set (k' # qs)" for x
    proof (cases "x = k'")
      case False
      then have "lt k' x" using path_above [OF ok kid path] that by simp
      moreover have "x \<in> C"
        using path_set_list [OF path] kids_ok_kid [OF ok kid] that False by (auto simp: set_list_def)
      ultimately show ?thesis using k' trans [of k' x k] by blast
    qed (use k' in simp)
    then show ?thesis using drop by blast
  qed
  then show ?thesis unfolding hit_def by blast
qed

lemma hit_equal:
  assumes ok: "kids_ok lt C ((k, n) # kb)" and ks: "set_list lt C (k # it)"
  shows "hit p ((k, n) # kb) (k # it) v \<longleftrightarrow> (p v \<and> (\<exists>qs. in_trie n qs v \<and> set qs \<subseteq> set it)) \<or> hit p ((k, n) # kb) it v"
proof -
  have "k \<notin> set it" using ks irrefl by auto
  moreover have "k \<notin> set qs" if "in_trie n qs v" for qs
    using path_above [OF ok _ that] irrefl ks by fastforce
  moreover have notin: "k \<notin> set (k' # qs)" if "(k', n') \<in> set kb" "in_trie n' qs v" for k' n' qs
  proof -
    have "lt k k'" "k' \<in> C" using ok that(1) kids_ok_kid [of lt C kb] by auto
    moreover have "lt k' x" "x \<in> C" if "x \<in> set qs" for x
      using path_above [of kb k' n'] path_set_list [OF \<open>in_trie n' qs v\<close>] kids_ok_kid [of lt C kb] ok that
        \<open>(k', n') \<in> set kb\<close> \<open>in_trie n' qs v\<close> by (auto simp: set_list_def)
    ultimately show ?thesis using ks irrefl asym [of k k'] by auto
  qed
  ultimately have 1: "(set (k # qs) \<subseteq> set (k # it) \<longleftrightarrow> set qs \<subseteq> set it) \<and> \<not> set (k # qs) \<subseteq> set it"
      if "in_trie n qs v" for qs using that by auto
  have "set (k' # qs) \<subseteq> set (k # it) \<longleftrightarrow> set (k' # qs) \<subseteq> set it" if "(k', n') \<in> set kb" "in_trie n' qs v" for k' n' qs
    using notin [OF that] by auto
  then have "hit p kb (k # it) v = hit p kb it v" unfolding hit_def by blast
  then show ?thesis unfolding hit_cons using 1 by blast
qed

lemma findSubset_spec:
  "lt' = lt \<Longrightarrow> trie_ok lt C n \<Longrightarrow> set_list lt C ks \<Longrightarrow>
     (\<forall>v. findSubset lt' p n ks = Some v \<longrightarrow> p v \<and> (\<exists>qs. in_trie n qs v \<and> set qs \<subseteq> set ks)) \<and>
     (findSubset lt' p n ks = None \<longrightarrow> (\<forall>v qs. in_trie n qs v \<and> set qs \<subseteq> set ks \<longrightarrow> \<not> p v))"
  "lt' = lt \<Longrightarrow> kids_ok lt C kb \<Longrightarrow> set_list lt C ks \<Longrightarrow>
     (\<forall>v. subset_loop lt' p ks kb = Some v \<longrightarrow> hit p kb ks v) \<and>
     (subset_loop lt' p ks kb = None \<longrightarrow> (\<forall>v. \<not> hit p kb ks v))"
proof (induction lt' p n ks and lt' p ks kb rule: findSubset_subset_loop.induct)
  case (1 lt' p n ks)
  show ?case
  proof (cases "ends_with p n")
    case True
    then obtain v where "mvalue n = Some v" "p v" by (auto simp: ends_with_iff)
    then show ?thesis using True hit_node [of p v n ks] by (simp add: findSubset.simps)
  next
    case e: False
    then have none: "mvalue n \<noteq> Some v" if "p v" for v using that by (auto simp: ends_with_iff)
    have node: "p v \<and> (\<exists>qs. in_trie n qs v \<and> set qs \<subseteq> set ks) \<longleftrightarrow> hit p (children n) ks v" for v
      using hit_node [of p v n ks] none [of v] by (auto simp: hit_def)
    show ?thesis
    proof (cases ks)
      case Nil
      then show ?thesis using e node by (auto simp: hit_def findSubset.simps)
    next
      case (Cons x it)
      have "hit p (kid_lower_bound lt x (children n)) ks v = hit p (children n) ks v" for v
        using hit_lower "1.prems" Cons by (simp add: trie_ok_def)
      then show ?thesis using "1.IH" [OF e] "1.prems" Cons e node by (auto simp: trie_ok_def findSubset.simps)
    qed
  qed
next
  case (2 lt' p ks)
  then show ?case by (simp add: hit_def)
next
  case (3 lt' p ks k n kb)
  note hd = hit_dropWhile [OF "3.prems"(2,3)]
  have sl: "set_list lt C (dropWhile (\<lambda>x. lt x k) ks)" using "3.prems"(3) by (rule set_list_dropWhile)
  show ?case
  proof (cases "dropWhile (\<lambda>x. lt x k) ks")
    case Nil
    then have D: "dropWhile (\<lambda>x. lt' x k) ks = []" using "3.prems"(1) by simp
    have "subset_loop lt' p ks ((k, n) # kb) = None" by (subst subset_loop.simps) (simp only: D list.case)
    then show ?thesis using hd [of p, unfolded Nil] by simp
  next
    case (Cons x it)
    then have D: "dropWhile (\<lambda>x. lt' x k) ks = x # it" and sl': "set_list lt C (x # it)" and nlt: "\<not> lt x k"
      using "3.prems"(1) sl hd_dropWhile [of "\<lambda>x. lt x k" ks] by auto
    have xk: "x \<in> C" "k \<in> C" using sl' "3.prems"(2) by simp_all
    show ?thesis
    proof (cases "x = k")
      case True
      have eq: "hit p ((k, n) # kb) ks v \<longleftrightarrow> (p v \<and> (\<exists>qs. in_trie n qs v \<and> set qs \<subseteq> set it)) \<or> hit p ((k, n) # kb) it v" for v
        using hd [of p v] hit_equal [OF "3.prems"(2), of it p v] sl' Cons True by simp
      have sub: "(\<forall>v. findSubset lt' p n it = Some v \<longrightarrow> p v \<and> (\<exists>qs. in_trie n qs v \<and> set qs \<subseteq> set it)) \<and>
          (findSubset lt' p n it = None \<longrightarrow> (\<forall>v qs. in_trie n qs v \<and> set qs \<subseteq> set it \<longrightarrow> \<not> p v))"
        using "3.IH"(1) [OF D True] "3.prems" sl' by (simp add: trie_ok_def)
      show ?thesis
      proof (cases "findSubset lt' p n it")
        case (Some v)
        then show ?thesis using sub D True eq by auto
      next
        case None
        then have eq': "hit p ((k, n) # kb) ks v \<longleftrightarrow> hit p ((k, n) # kb) it v" for v using eq sub by blast
        show ?thesis
        proof (cases it)
          case Nil
          then show ?thesis using None D True eq' by (simp add: hit_def)
        next
          case (Cons y it')
          have "hit p (kid_lower_bound lt y ((k, n) # kb)) it v = hit p ((k, n) # kb) it v" for v
            using hit_lower [OF "3.prems"(2)] sl' Cons by simp
          then show ?thesis using "3.IH"(2) [OF D True None] "3.prems" None D True eq' Cons sl' by simp
        qed
      qed
    next
      case False
      then have lt: "lt k x" using total [OF xk] nlt by blast
      have "k \<notin> set (x # it)" using False nlt sl' by auto
      then have "hit p ((k, n) # kb) (x # it) v = hit p kb (x # it) v" for v
        unfolding hit_cons by (metis list.set_intros(1) subsetD)
      moreover have "hit p (kid_lower_bound lt x kb) (x # it) v = hit p kb (x # it) v" for v
        using hit_lower [of kb x it] "3.prems"(2) sl' by simp
      ultimately have eq: "hit p ((k, n) # kb) ks v = hit p (kid_lower_bound lt x kb) (x # it) v" for v
        using hd [of p v, unfolded Cons] by simp
      have "lt' k x" using lt "3.prems"(1) by simp
      have "subset_loop lt' p ks ((k, n) # kb) = subset_loop lt' p (x # it) (kid_lower_bound lt' x kb)"
        by (subst subset_loop.simps) (simp only: D list.case False if_False \<open>lt' k x\<close> if_True)
      then show ?thesis unfolding eq
        using "3.IH"(3) [OF D False \<open>lt' k x\<close>] "3.prems"(1,2) sl' by simp
    qed
  qed
qed

lemma first_below:
  assumes "kids_ok lt C cs" "(k, n) \<in> set cs" "in_trie n qs v" "set_list lt C (x # ks)" "x \<in> set qs"
  shows "set ks \<subseteq> set (k # qs) \<longleftrightarrow> set ks \<subseteq> set qs"
proof -
  have "lt k x" "k \<in> C" using path_above [OF assms(1,2,3)] assms(5) kids_ok_kid [OF assms(1,2)] by auto
  then have "k \<notin> set ks" using assms(4) asym [of k x] by auto
  then show ?thesis by auto
qed

lemma findSuperset_spec:
  "lt' = lt \<Longrightarrow> trie_ok lt C n \<Longrightarrow> set_list lt C ks \<Longrightarrow>
     (\<forall>v. findSuperset lt' p n ks = Some v \<longrightarrow> p v \<and> (\<exists>qs. in_trie n qs v \<and> set ks \<subseteq> set qs)) \<and>
     (findSuperset lt' p n ks = None \<longrightarrow> (\<forall>v qs. in_trie n qs v \<and> set ks \<subseteq> set qs \<longrightarrow> \<not> p v))"
  "lt' = lt \<Longrightarrow> kids_ok lt C cs \<Longrightarrow> set_list lt C ks \<Longrightarrow>
     (\<forall>v. superset_kids lt' p cs ks = Some v \<longrightarrow> p v \<and> (\<exists>k n qs. (k, n) \<in> set cs \<and> in_trie n qs v \<and> set ks \<subseteq> set qs)) \<and>
     (superset_kids lt' p cs ks = None \<longrightarrow> (\<forall>v k n qs. (k, n) \<in> set cs \<and> in_trie n qs v \<and> set ks \<subseteq> set qs \<longrightarrow> \<not> p v))"
proof (induction lt' p n ks and lt' p cs ks rule: findSuperset_superset_kids.induct)
  case (1 lt' p x cs)
  show ?case
  proof (cases "ends_with p (MNode x cs)")
    case True
    then show ?thesis by (auto simp: ends_with_iff in_trie_iff)
  next
    case False
    then have "(\<forall>v. superset_kids lt' p cs [] = Some v \<longrightarrow> p v \<and> (\<exists>k n qs. (k, n) \<in> set cs \<and> in_trie n qs v)) \<and>
       (superset_kids lt' p cs [] = None \<longrightarrow> (\<forall>v k n qs. (k, n) \<in> set cs \<and> in_trie n qs v \<longrightarrow> \<not> p v))"
      using 1 by (simp add: trie_ok_def)
    then show ?thesis using False by (auto simp: ends_with_iff in_trie_iff; blast)
  qed
next
  case (2 lt' p x cs k ks)
  then have ok: "kids_ok lt C cs" "k \<in> C" "set_list lt C ks" "set_list lt C (k # ks)" by (simp_all add: trie_ok_def)
  have kids: "(\<forall>v. superset_kids lt' p cs (k # ks) = Some v \<longrightarrow>
        p v \<and> (\<exists>k' n qs. (k', n) \<in> set cs \<and> in_trie n qs v \<and> set (k # ks) \<subseteq> set qs)) \<and>
     (superset_kids lt' p cs (k # ks) = None \<longrightarrow>
        (\<forall>v k' n qs. (k', n) \<in> set cs \<and> in_trie n qs v \<and> set (k # ks) \<subseteq> set qs \<longrightarrow> \<not> p v))"
    by (rule "2.IH"(1)) (use "2.prems"(1) ok in simp_all)
  have node: "(\<exists>qs. in_trie (MNode x cs) qs v \<and> set (k # ks) \<subseteq> set qs) \<longleftrightarrow>
     (\<exists>k' n qs. (k', n) \<in> set cs \<and> in_trie n qs v \<and> set (k # ks) \<subseteq> set qs) \<or>
     (\<exists>n qs. (k, n) \<in> set cs \<and> in_trie n qs v \<and> set ks \<subseteq> set qs)" for v
  proof -
    have "set (k # ks) \<subseteq> set (k' # qs) \<longleftrightarrow> set (k # ks) \<subseteq> set qs \<or> k' = k \<and> set ks \<subseteq> set qs"
      if "(k', n) \<in> set cs" "in_trie n qs v" for k' n qs
    proof (cases "k' = k")
      case True
      then have "k \<notin> set ks" using ok(4) irrefl by auto
      then show ?thesis using True by auto
    next
      case False
      then show ?thesis using first_below [OF ok(1) that ok(4)] by auto
    qed
    then show ?thesis unfolding in_trie_superset by blast
  qed
  show ?case
  proof (cases "superset_kids lt' p cs (k # ks)")
    case (Some v)
    then show ?thesis using kids node [of v] by auto
  next
    case None
    show ?thesis
    proof (cases "find_child lt k cs")
      case absent: None
      have "(k, n) \<notin> set cs" for n using find_child_iff [OF ok(1,2), of n] absent by simp
      then have r: "findSuperset lt' p (MNode x cs) (k # ks) = None"
        using None by (auto split: list.split simp: "2.prems"(1) dest!: lower_bound_kid)
      have "\<not> p v" if "in_trie (MNode x cs) qs v" "set (k # ks) \<subseteq> set qs" for v qs
        using None node [of v] kids that \<open>\<And>n. (k, n) \<notin> set cs\<close> by blast
      then show ?thesis unfolding r by blast
    next
      case (Some n)
      then have n: "(k, n') \<in> set cs \<longleftrightarrow> n' = n" for n' using find_child_iff [OF ok(1,2), of n'] by auto
      obtain k' rest where "kid_lower_bound lt k cs = (k', n) # rest" "\<not> lt k k'"
        using Some by (auto simp: find_child_def split: list.splits if_splits)
      moreover from this have "k' = k"
        using lower_bound_kids [OF ok(1,2), of k' n] kids_ok_kid [OF ok(1), of k' n] total [of k k'] ok(2) by auto
      ultimately have low: "kid_lower_bound lt k cs = (k, n) # rest" by simp
      have sub: "(\<forall>v. findSuperset lt' p n ks = Some v \<longrightarrow> p v \<and> (\<exists>qs. in_trie n qs v \<and> set ks \<subseteq> set qs)) \<and>
         (findSuperset lt' p n ks = None \<longrightarrow> (\<forall>v qs. in_trie n qs v \<and> set ks \<subseteq> set qs \<longrightarrow> \<not> p v))"
      proof (rule "2.IH"(2) [OF None, of "(k, n)" rest k n])
        show "kid_lower_bound lt' k cs = (k, n) # rest" using low "2.prems"(1) by simp
        show "trie_ok lt C n" using kids_ok_kid [OF ok(1)] n by blast
      qed (use "2.prems"(1) ok(3) in simp_all)
      have "findSuperset lt' p (MNode x cs) (k # ks) = findSuperset lt' p n ks"
        using None low "2.prems"(1) by simp
      then show ?thesis using sub kids None node n by auto
    qed
  qed
next
  case (3 lt' p ks)
  then show ?case by simp
next
  case (4 lt' p k n cs ks)
  then have IH: "(\<forall>v. findSuperset lt' p n ks = Some v \<longrightarrow> p v \<and> (\<exists>qs. in_trie n qs v \<and> set ks \<subseteq> set qs)) \<and>
     (findSuperset lt' p n ks = None \<longrightarrow> (\<forall>v qs. in_trie n qs v \<and> set ks \<subseteq> set qs \<longrightarrow> \<not> p v))"
    by (simp add: trie_ok_def)
  show ?case
  proof (cases "findSuperset lt' p n ks")
    case (Some v)
    then show ?thesis using IH by auto
  next
    case None
    then show ?thesis using IH "4.IH"(2) "4.prems" by (auto; blast)
  qed
qed

lemma findSubsets_spec:
  "lt' = lt \<Longrightarrow> trie_ok lt C n \<Longrightarrow> set_list lt C ks \<Longrightarrow>
     set (findSubsets lt' n accum ks) = {(accum @ qs, v) | qs v. in_trie n qs v \<and> set qs \<subseteq> set ks}"
  "lt' = lt \<Longrightarrow> trie_ok lt C n \<Longrightarrow> set_list lt C ks \<Longrightarrow>
     set (subsets_loop lt' n accum ks) = {(accum @ qs, v) | qs v. in_trie n qs v \<and> qs \<noteq> [] \<and> set qs \<subseteq> set ks}"
proof (induction lt' n accum ks and lt' n accum ks rule: findSubsets_subsets_loop.induct)
  case (1 lt' n accum ks)
  have "in_trie n [] v \<longleftrightarrow> mvalue n = Some v" for v by (cases n) (simp add: in_trie_iff)
  then show ?case using 1 by (auto split: option.splits)
next
  case (2 lt' n accum)
  then show ?case by simp
next
  case (3 lt' n accum elt it)
  have ok: "kids_ok lt C (children n)" "elt \<in> C" "set_list lt C it" using "3.prems" by (simp_all add: trie_ok_def)
  have cons: "in_trie n (k # qs) v \<longleftrightarrow> (\<exists>n'. (k, n') \<in> set (children n) \<and> in_trie n' qs v)" for k qs v
    by (cases n) (auto simp: in_trie_iff)
  have path: "set qs \<subseteq> set (elt # it) \<longleftrightarrow> set qs \<subseteq> set it \<or> hd qs = elt \<and> set (tl qs) \<subseteq> set it"
    if t: "in_trie n qs v" "qs \<noteq> []" for qs v
  proof -
    obtain q qs' where q: "qs = q # qs'" using t(2) by (cases qs) auto
    then have sl: "set_list lt C (q # qs')" using path_set_list [OF t(1) "3.prems"(2)] by simp
    have "elt \<notin> set qs'" if "set qs \<subseteq> set (elt # it)"
      using that sl q "3.prems"(3) asym [of elt q] irrefl by auto
    then show ?thesis using q by auto
  qed
  have split: "{(accum @ qs, v) | qs v. in_trie n qs v \<and> qs \<noteq> [] \<and> set qs \<subseteq> set (elt # it)} =
    {(accum @ elt # qs, v) | qs v. in_trie n (elt # qs) v \<and> set qs \<subseteq> set it} \<union>
    {(accum @ qs, v) | qs v. in_trie n qs v \<and> qs \<noteq> [] \<and> set qs \<subseteq> set it}" (is "?L = ?A \<union> ?B")
  proof
    show "?L \<subseteq> ?A \<union> ?B"
    proof
      fix z assume "z \<in> ?L"
      then obtain qs v where z: "z = (accum @ qs, v)" "in_trie n qs v" "qs \<noteq> []" "set qs \<subseteq> set (elt # it)" by blast
      then consider "set qs \<subseteq> set it" | "hd qs = elt" "set (tl qs) \<subseteq> set it" using path by blast
      then show "z \<in> ?A \<union> ?B"
      proof cases
        case 1
        then show ?thesis using z by blast
      next
        case 2
        obtain qs' where "qs = elt # qs'" using 2(1) z(3) by (cases qs) auto
        then have "z \<in> ?A" using z(1,2) 2(2) by simp
        then show ?thesis ..
      qed
    qed
    show "?A \<union> ?B \<subseteq> ?L" by auto
  qed
  have "set (case find_child lt' elt (children n) of Some n' \<Rightarrow> findSubsets lt' n' (accum @ [elt]) it | None \<Rightarrow> []) =
    {(accum @ elt # qs, v) | qs v. in_trie n (elt # qs) v \<and> set qs \<subseteq> set it}"
  proof (cases "find_child lt elt (children n)")
    case None
    then show ?thesis using find_child_iff [OF ok(1,2)] "3.prems"(1) cons by auto
  next
    case (Some n')
    then have "(elt, m) \<in> set (children n) \<longleftrightarrow> m = n'" for m using find_child_iff [OF ok(1,2), of m] by auto
    moreover from this have "trie_ok lt C n'" using kids_ok_kid [OF ok(1)] by blast
    ultimately show ?thesis using Some "3.IH"(1) "3.prems"(1) ok(3) cons by simp
  qed
  then show ?case unfolding split using "3.IH"(2) "3.prems" by simp
qed

lemma findSupersets_spec:
  fixes n :: "('k, 'v) mnode" and cs :: "('k \<times> ('k, 'v) mnode) list"
  shows "lt' = lt \<Longrightarrow> trie_ok lt C n \<Longrightarrow> set_list lt C ks \<Longrightarrow>
     set (findSupersets lt' n accum ks) = {(accum @ qs, v) | qs v. in_trie n qs v \<and> set ks \<subseteq> set qs}"
  "lt' = lt \<Longrightarrow> kids_ok lt C cs \<Longrightarrow> set_list lt C ks \<Longrightarrow>
     set (supersets_kids lt' cs accum ks) =
       {(accum @ k # qs, v) | k n qs v. (k, n) \<in> set cs \<and> in_trie n qs v \<and> set ks \<subseteq> set (k # qs)}"
proof (induction lt' n accum ks and lt' cs accum ks rule: findSupersets_supersets_kids.induct)
  case (1 lt' x cs accum)
  then show ?case by (fastforce simp: in_trie_iff trie_ok_def split: option.splits)
next
  case (2 lt' x cs accum elt ks)
  then show ?case by (fastforce simp: in_trie_iff trie_ok_def)
next
  case (3 lt' accum ks)
  then show ?case by simp
next
  case (4 lt' k n cs accum)
  then show ?case by (auto simp: trie_ok_def)
next
  case (5 lt' k n cs accum elt ks)
  have kids: "trie_ok lt C n" "kids_ok lt C cs" "elt \<in> C" "k \<in> C" "set_list lt C ks" "elt \<notin> set ks"
    using "5.prems" irrefl by (auto simp: trie_ok_def)
  have rest: "elt \<notin> set (k' # qs)" if "lt elt k \<or> elt = k" "(k', n') \<in> set cs" "in_trie n' qs v" for k' n' qs v
  proof -
    have k': "lt k k'" "k' \<in> C" using "5.prems"(2) that(2) kids_ok_kid [OF kids(2) that(2)] by auto
    then have lt: "lt elt k'" using that(1) trans [of elt k k'] kids by blast
    have "lt k' x" "x \<in> C" if "x \<in> set qs" for x
      using path_above [OF kids(2) \<open>(k', n') \<in> set cs\<close> \<open>in_trie n' qs v\<close>] that
        path_set_list [OF \<open>in_trie n' qs v\<close>] kids_ok_kid [OF kids(2) \<open>(k', n') \<in> set cs\<close>] by (auto simp: set_list_def)
    then show ?thesis using lt k' irrefl [of elt] asym [of elt k'] kids(3) by auto
  qed
  have here: "elt \<notin> set qs" if "lt elt k \<or> elt = k" "in_trie n qs v" for qs v
    using path_above [OF "5.prems"(2), of k n] that asym [of elt k] irrefl kids(3,4) by fastforce
  have split: "{(accum @ k' # qs, v) | k' n' qs v. (k', n') \<in> set ((k, n) # cs) \<and> in_trie n' qs v \<and> set (elt # ks) \<subseteq> set (k' # qs)} =
    {(accum @ k # qs, v) | qs v. in_trie n qs v \<and> set (elt # ks) \<subseteq> set (k # qs)} \<union>
    {(accum @ k' # qs, v) | k' n' qs v. (k', n') \<in> set cs \<and> in_trie n' qs v \<and> set (elt # ks) \<subseteq> set (k' # qs)}"
    (is "_ = ?A \<union> ?B") by auto
  consider "elt = k" | "elt \<noteq> k" "lt k elt" | "elt \<noteq> k" "lt elt k" using total kids by blast
  then show ?case
  proof cases
    case 1
    have "?A = {(accum @ k # qs, v) | qs v. in_trie n qs v \<and> set ks \<subseteq> set qs}" using 1 kids(6) by auto
    moreover have "set (supersets_kids lt' cs accum (elt # ks)) = ?B" using "5.IH"(2) [OF 1] "5.prems" kids by simp
    ultimately show ?thesis unfolding split using 1 "5.IH"(1) [OF 1 "5.prems"(1) kids(1,5)] by simp
  next
    case 2
    have "k \<notin> set (elt # ks)" using 2 "5.prems"(3) kids asym [of k elt] by auto
    then have "?A = {(accum @ k # qs, v) | qs v. in_trie n qs v \<and> set (elt # ks) \<subseteq> set qs}" by auto
    moreover have "set (supersets_kids lt' cs accum (elt # ks)) = ?B" using "5.IH"(4) 2 "5.prems" kids by simp
    moreover have "set (findSupersets lt' n (accum @ [k]) (elt # ks)) =
        {((accum @ [k]) @ qs, v) | qs v. in_trie n qs v \<and> set (elt # ks) \<subseteq> set qs}"
      using "5.IH"(3) 2 "5.prems" kids(1) by simp
    ultimately show ?thesis unfolding split using 2 "5.prems"(1) by simp
  next
    case 3
    then have "?A = {}" "?B = {}" using here rest by auto
    then show ?thesis unfolding split using 3 "5.prems"(1) asym [of elt k] kids by simp
  qed
qed

lemma set_insert_spec:
  "set_list lt C ks \<Longrightarrow> x \<in> C \<Longrightarrow> set_list lt C (set_insert lt x ks) \<and> set (set_insert lt x ks) = insert x (set ks)"
proof (induction ks)
  case (Cons y ys)
  consider "lt x y" | "lt y x" | "x = y" using total Cons.prems by auto
  then show ?case
  proof cases
    case 1
    have "lt x z" if "z \<in> set ys" for z using trans [of x y z] 1 that Cons.prems by (auto simp: set_list_def)
    then show ?thesis using 1 Cons.prems by simp
  next
    case 2
    then show ?thesis using Cons asym [of y x] by auto
  next
    case 3
    then show ?thesis using Cons.prems irrefl by auto
  qed
qed simp

lemma set_list_unique: "set_list lt C ks \<Longrightarrow> set_list lt C qs \<Longrightarrow> set ks = set qs \<Longrightarrow> ks = qs"
proof (induction ks arbitrary: qs)
  case (Cons x xs)
  then obtain y ys where qs: "qs = y # ys" by (cases qs) auto
  have "x = y"
  proof (rule ccontr)
    assume "x \<noteq> y"
    then have "x \<in> set ys" "y \<in> set xs" using Cons.prems(3) qs by auto
    then show False using Cons.prems(1,2) qs asym [of x y] by auto
  qed
  moreover have "x \<notin> set xs" "y \<notin> set ys" using Cons.prems qs irrefl by auto
  ultimately have "set xs = set ys" using Cons.prems(3) qs by auto
  then show ?case using Cons.IH [of ys] Cons.prems qs \<open>x = y\<close> by simp
qed simp

text \<open>The tree stands for a map from finite sets.\<close>

definition stands_for :: "('k, 'v) mnode \<Rightarrow> ('k set \<rightharpoonup> 'v) \<Rightarrow> bool" where
  "stands_for t m \<longleftrightarrow> trie_ok lt C t \<and> (\<forall>A v. m A = Some v \<longleftrightarrow> (\<exists>ks. set ks = A \<and> in_trie t ks v))"

lemma stands_forD:
  assumes "stands_for t m"
  shows "trie_ok lt C t" "in_trie t ks v \<Longrightarrow> m (set ks) = Some v" "m A = Some v \<Longrightarrow> \<exists>ks. set ks = A \<and> in_trie t ks v"
  using assms by (auto simp: stands_for_def)

lemma stands_for_path:
  assumes "stands_for t m" "set_list lt C ks"
  shows "in_trie t ks v \<longleftrightarrow> m (set ks) = Some v"
proof
  assume "m (set ks) = Some v"
  then obtain qs where qs: "set qs = set ks" "in_trie t qs v" using stands_forD(3) [OF assms(1)] by blast
  then have "qs = ks" using set_list_unique [OF path_set_list [OF qs(2) stands_forD(1) [OF assms(1)]] assms(2)] by simp
  then show "in_trie t ks v" using qs(2) by simp
qed (rule stands_forD(2) [OF assms(1)])

lemma stands_for_empty: "stands_for MapOfSets_empty Map.empty"
  by (auto simp: stands_for_def MapOfSets_empty_def trie_ok_def in_trie_iff)

lemma stands_for_insert:
  assumes t: "stands_for t m" and ks: "set_list lt C ks"
  shows "stands_for (MapOfSets_insert lt ks v t) (m(set ks \<mapsto> v))"
proof -
  have ok: "trie_ok lt C t" "trie_ok lt C (MapOfSets_insert lt ks v t)"
    by (rule stands_forD(1) [OF t], rule insert_ok [OF stands_forD(1) [OF t] ks, THEN conjunct1])
  have "(m(set ks \<mapsto> v)) A = Some w \<longleftrightarrow> (\<exists>qs. set qs = A \<and> in_trie (MapOfSets_insert lt ks v t) qs w)" for A w
  proof (cases "A = set ks")
    case True
    have "qs = ks" if "set qs = A" "in_trie (MapOfSets_insert lt ks v t) qs w" for qs
      using set_list_unique [OF path_set_list [OF that(2) ok(2)] ks] that(1) True by simp
    then have "(\<exists>qs. set qs = A \<and> in_trie (MapOfSets_insert lt ks v t) qs w) \<longleftrightarrow>
        in_trie (MapOfSets_insert lt ks v t) ks w" using True by blast
    then show ?thesis using True insert_iff [OF ok(1) ks] by auto
  next
    case False
    then have "(\<exists>qs. set qs = A \<and> in_trie (MapOfSets_insert lt ks v t) qs w) \<longleftrightarrow> (\<exists>qs. set qs = A \<and> in_trie t qs w)"
      using insert_iff [OF ok(1) ks] by metis
    then show ?thesis using t False by (simp add: stands_for_def)
  qed
  then show ?thesis using ok(2) by (simp add: stands_for_def)
qed

lemma stands_for_lookup:
  assumes "stands_for t m" "set_list lt C ks"
  shows "MapOfSets_lookup lt ks t = m (set ks)"
proof -
  have "MapOfSets_lookup lt ks t = Some v \<longleftrightarrow> m (set ks) = Some v" for v
    using trie_lookup_iff [of t ks v] stands_for_path [OF assms] assms by (auto simp: stands_for_def set_list_def)
  then show ?thesis by (metis option.exhaust)
qed

lemma stands_for_findSubset:
  assumes "stands_for t m" "set_list lt C ks"
  shows "findSubset lt p t ks = Some v \<Longrightarrow> p v \<and> (\<exists>A \<subseteq> set ks. m A = Some v)"
    and "findSubset lt p t ks = None \<Longrightarrow> A \<subseteq> set ks \<Longrightarrow> m A = Some v \<Longrightarrow> \<not> p v"
proof -
  note spec = findSubset_spec(1) [OF refl stands_forD(1) [OF assms(1)] assms(2), of p]
  show "p v \<and> (\<exists>A \<subseteq> set ks. m A = Some v)" if "findSubset lt p t ks = Some v"
    using spec stands_forD(2) [OF assms(1)] that by blast
  show "\<not> p v" if "findSubset lt p t ks = None" "A \<subseteq> set ks" "m A = Some v"
    using spec stands_forD(3) [OF assms(1) that(3)] that(1,2) by blast
qed

lemma stands_for_findSuperset:
  assumes "stands_for t m" "set_list lt C ks"
  shows "findSuperset lt p t ks = Some v \<Longrightarrow> p v \<and> (\<exists>A. set ks \<subseteq> A \<and> m A = Some v)"
    and "findSuperset lt p t ks = None \<Longrightarrow> set ks \<subseteq> A \<Longrightarrow> m A = Some v \<Longrightarrow> \<not> p v"
proof -
  note spec = findSuperset_spec(1) [OF refl stands_forD(1) [OF assms(1)] assms(2), of p]
  show "p v \<and> (\<exists>A. set ks \<subseteq> A \<and> m A = Some v)" if "findSuperset lt p t ks = Some v"
    using spec stands_forD(2) [OF assms(1)] that by blast
  show "\<not> p v" if "findSuperset lt p t ks = None" "set ks \<subseteq> A" "m A = Some v"
    using spec stands_forD(3) [OF assms(1) that(3)] that(1,2) by blast
qed

lemma stands_for_subsets:
  assumes "stands_for t m" "set_list lt C ks"
  shows "map_prod set id ` set (subsets lt t ks) = {(A, v). m A = Some v \<and> A \<subseteq> set ks}"
    and "map_prod set id ` set (supersets lt t ks) = {(A, v). m A = Some v \<and> set ks \<subseteq> A}"
proof -
  have img: "map_prod set id ` {(qs, v) | qs v. in_trie t qs v \<and> P (set qs)} = {(A, v). m A = Some v \<and> P A}" for P
    using stands_forD(2,3) [OF assms(1)] by (fastforce simp: image_iff)
  show "map_prod set id ` set (subsets lt t ks) = {(A, v). m A = Some v \<and> A \<subseteq> set ks}"
    using findSubsets_spec(1) [OF refl stands_forD(1) [OF assms(1)] assms(2), of "[]"] img [of "\<lambda>A. A \<subseteq> set ks"]
    by (simp only: subsets_def append_Nil)
  show "map_prod set id ` set (supersets lt t ks) = {(A, v). m A = Some v \<and> set ks \<subseteq> A}"
    using findSupersets_spec(1) [OF refl stands_forD(1) [OF assms(1)] assms(2), of "[]"] img [of "\<lambda>A. set ks \<subseteq> A"]
    by (simp only: supersets_def append_Nil)
qed

end

subsection \<open>The index of expression sets\<close>

inductive set_map :: "layout \<Rightarrow> (expr, 'v) mnode \<Rightarrow> (expr set \<rightharpoonup> 'v) \<Rightarrow> bool" for L where
  set_map_empty: "set_map L MapOfSets_empty Map.empty"
| set_map_insert: "set_map L t m \<Longrightarrow> set_list (expr_less L) (placed L) ks \<Longrightarrow>
     set_map L (MapOfSets_insert (expr_less L) ks v t) (m(set ks \<mapsto> v))"

lemma set_map_stands_for: "set_map L t m \<Longrightarrow> ek.stands_for L t m"
  by (induction rule: set_map.induct) (rule ek.stands_for_empty, rule ek.stands_for_insert)

lemma cmp_read_set:
  "set_list (expr_less cmp_layout) (placed cmp_layout)
     (set_insert (expr_less cmp_layout) (cmp_read ''a'' 1) [cmp_read ''b'' 1])"
  "set (set_insert (expr_less cmp_layout) (cmp_read ''a'' 1) [cmp_read ''b'' 1]) = {cmp_read ''a'' 1, cmp_read ''b'' 1}"
  using ek.set_insert_spec [of cmp_layout "[cmp_read ''b'' 1]" "cmp_read ''a'' 1"] cmp_read_placed by auto

text \<open>
  C14. The tree built by inserting sets of expressions implements a map from sets: \<open>lookup\<close> finds the
  value of a set, \<open>findSubset\<close> and \<open>findSuperset\<close> find a stored subset or superset whose value
  satisfies the predicate exactly if there is one, and \<open>subsets\<close> and \<open>supersets\<close> list all of them.
\<close>

theorem map_of_sets_refines:
  assumes "set_map L t m" "set_list (expr_less L) (placed L) ks"
  shows "MapOfSets_lookup (expr_less L) ks t = m (set ks) \<and>
    (case findSubset (expr_less L) p t ks of
       Some v \<Rightarrow> p v \<and> (\<exists>A \<subseteq> set ks. m A = Some v) | None \<Rightarrow> \<forall>A v. A \<subseteq> set ks \<and> m A = Some v \<longrightarrow> \<not> p v) \<and>
    (case findSuperset (expr_less L) p t ks of
       Some v \<Rightarrow> p v \<and> (\<exists>A. set ks \<subseteq> A \<and> m A = Some v) | None \<Rightarrow> \<forall>A v. set ks \<subseteq> A \<and> m A = Some v \<longrightarrow> \<not> p v) \<and>
    map_prod set id ` set (subsets (expr_less L) t ks) = {(A, v). m A = Some v \<and> A \<subseteq> set ks} \<and>
    map_prod set id ` set (supersets (expr_less L) t ks) = {(A, v). m A = Some v \<and> set ks \<subseteq> A}"
proof -
  note t = set_map_stands_for [OF assms(1)] assms(2)
  show ?thesis
    using ek.stands_for_lookup [OF t] ek.stands_for_subsets [OF t]
      ek.stands_for_findSubset [OF t, of p] ek.stands_for_findSuperset [OF t, of p]
    by (cases "findSubset (expr_less L) p t ks"; cases "findSuperset (expr_less L) p t ks") auto
qed

theorem map_of_sets_refines_witness:
  "findSubset (expr_less cmp_layout) (\<lambda>v. v = (5::nat))
     (MapOfSets_insert (expr_less cmp_layout) [cmp_read ''a'' 1] 5 MapOfSets_empty)
     (set_insert (expr_less cmp_layout) (cmp_read ''a'' 1) [cmp_read ''b'' 1]) = Some 5"
proof -
  let ?lt = "expr_less cmp_layout" and ?ks = "set_insert (expr_less cmp_layout) (cmp_read ''a'' 1) [cmp_read ''b'' 1]"
  let ?t = "MapOfSets_insert ?lt [cmp_read ''a'' 1] (5::nat) MapOfSets_empty"
  have "set_map cmp_layout ?t (Map.empty(set [cmp_read ''a'' 1] \<mapsto> 5))"
    by (intro set_map.intros) (simp add: cmp_read_placed)
  note res = map_of_sets_refines [OF this cmp_read_set(1), of "\<lambda>v. v = 5", THEN conjunct2, THEN conjunct1]
  show ?thesis
  proof (cases "findSubset ?lt (\<lambda>v. v = 5) ?t ?ks")
    case None
    show ?thesis using res [unfolded None option.case, rule_format, of "set [cmp_read ''a'' 1]" 5] unfolding cmp_read_set(2) by simp
  next
    case (Some v)
    show ?thesis using res [unfolded Some option.case] Some by simp
  qed
qed

end
