(* ===== verification/Cex_Caching_Solver.thy ===== *)
theory Cex_Caching_Solver
  imports Caching_Solver Map_Of_Sets
begin

text \<open>
  The solver that keeps counterexamples (\<^verbatim>\<open>klee/lib/Solver/CexCachingSolver.cpp\<close>): a map from sets of
  constraints to an assignment that satisfies them, or to nothing where there is none, and the table
  of the assignments.
\<close>

subsection \<open>Assignments in the table\<close>

text \<open>The bindings in the order of the map, by the addresses of the arrays.\<close>

type_synonym binding = "(array \<times> 8 word list) list"

definition binding_of :: "layout \<Rightarrow> array list \<Rightarrow> 8 word list list \<Rightarrow> binding option" where
  "binding_of L objects vals =
     (if length objects \<le> length vals then Some (sort_key (\<lambda>p. address L (fst p)) (zip objects vals)) else None)"

definition to_assignment :: "binding \<Rightarrow> assignment" where
  "to_assignment b = \<lparr>allowFreeValues = False, bindings = map_of b\<rparr>"

text \<open>\<open>AssignmentLessThan\<close>, the order of \<open>std::map\<close>.\<close>

definition binding_key :: "layout \<Rightarrow> binding \<Rightarrow> nat list list" where
  "binding_key L b = map (\<lambda>(a, bytes). address L a # map unat bytes) b"

definition AssignmentLessThan :: "layout \<Rightarrow> binding \<Rightarrow> binding \<Rightarrow> bool" where
  "AssignmentLessThan L a b \<longleftrightarrow> binding_key L a < binding_key L b"

definition table_insert :: "layout \<Rightarrow> binding \<Rightarrow> binding list \<Rightarrow> binding \<times> binding list" where
  "table_insert L b table =
     (case find (\<lambda>y. \<not> AssignmentLessThan L b y \<and> \<not> AssignmentLessThan L y b) table of
        Some y \<Rightarrow> (y, table)
      | None \<Rightarrow> (b, set_insert (AssignmentLessThan L) b table))"

text \<open>\<open>satisfies\<close> returns on the expressions of queries (\<open>satisfying_iff\<close> below).\<close>

definition satisfying :: "expr list \<Rightarrow> binding \<Rightarrow> bool" where
  "satisfying key b \<longleftrightarrow> Assignment_satisfies (to_assignment b) key = Some True"

subsection \<open>The solver\<close>

record cex_options =
  CexCacheTryAll :: bool
  CexCacheSuperSet :: bool
  CexCacheExperimental :: bool
  DebugCexCacheCheckBinding :: bool

record cex_state =
  cex_cache :: "(expr, binding option) mnode"
  assignmentsTable :: "binding list"

definition searchForAssignment :: "cex_options \<Rightarrow> layout \<Rightarrow> cex_state \<Rightarrow> expr list \<Rightarrow> binding option option" where
  "searchForAssignment opt L st key =
     (let lt = expr_less L; cache = cex_cache st in
      case MapOfSets_lookup lt key cache of
        Some r \<Rightarrow> Some r
      | None \<Rightarrow>
          case (if CexCacheSuperSet opt then findSuperset lt (\<lambda>a. a \<noteq> None) cache key else None) of
            Some r \<Rightarrow> Some r
          | None \<Rightarrow>
              if CexCacheTryAll opt then
                (case findSubset lt (\<lambda>a. a = None) cache key of
                   Some r \<Rightarrow> Some r
                 | None \<Rightarrow> map_option Some (find (satisfying key) (assignmentsTable st)))
              else findSubset lt (\<lambda>a. case a of None \<Rightarrow> True | Some b \<Rightarrow> satisfying key b) cache key)"

definition constraint_key :: "layout \<Rightarrow> expr list \<Rightarrow> expr list" where
  "constraint_key L cs = fold (set_insert (expr_less L)) cs []"

definition lookupAssignment :: "cex_options \<Rightarrow> layout \<Rightarrow> cex_state \<Rightarrow> query \<Rightarrow> (expr list \<times> binding option option) option" where
  "lookupAssignment opt L st q =
     (let key = constraint_key L (qconstraints q) in
      do { neg \<leftarrow> createIsZero (qexpr q);
           case neg of
             ConstantExpr CE \<Rightarrow>
               Some (key, if ConstantExpr_isFalse CE then Some None else searchForAssignment opt L st key)
           | _ \<Rightarrow> let key' = set_insert (expr_less L) neg key in Some (key', searchForAssignment opt L st key') })"

definition store_result :: "cex_options \<Rightarrow> layout \<Rightarrow> expr list \<Rightarrow> array list \<Rightarrow> init_values \<Rightarrow> ('s \<times> cex_state, binding option) call" where
  "store_result opt L key objects r st =
     (let c = snd st in
      case r of
        None \<Rightarrow> returns None (fst st, c\<lparr>cex_cache := MapOfSets_insert (expr_less L) key None (cex_cache c)\<rparr>)
      | Some vals \<Rightarrow>
          do { b \<leftarrow> binding_of L objects vals;
               let (b', table) = table_insert L b (assignmentsTable c);
               if DebugCexCacheCheckBinding opt \<and> \<not> satisfying key b' then None
               else returns (Some b') (fst st, c\<lparr>cex_cache := MapOfSets_insert (expr_less L) key (Some b') (cex_cache c),
                                                assignmentsTable := table\<rparr>) })"

definition getAssignment :: "cex_options \<Rightarrow> layout \<Rightarrow> 's solver_impl \<Rightarrow> query \<Rightarrow> ('s \<times> cex_state, binding option) call" where
  "getAssignment opt L S q st =
     do { (key, found) \<leftarrow> lookupAssignment opt L (snd st) q;
          case found of
            Some r \<Rightarrow> returns r st
          | None \<Rightarrow> let objects = findSymbolicObjects_all key
                   in andthen (inner (computeInitialValues S q objects)) (store_result opt L key objects) st }"

text \<open>The assignment that must exist, and the constant the expression evaluates to.\<close>

definition evaluated :: "expr \<Rightarrow> binding option \<Rightarrow> apint option" where
  "evaluated e a =
     do { b \<leftarrow> a;
          v \<leftarrow> Assignment_evaluate (to_assignment b) e;
          case v of ConstantExpr c \<Rightarrow> Some c | _ \<Rightarrow> None }"

definition CexCachingSolver_computeValidity :: "cex_options \<Rightarrow> layout \<Rightarrow> 's solver_impl \<Rightarrow> query \<Rightarrow> ('s \<times> cex_state, validity) call" where
  "CexCachingSolver_computeValidity opt L S q =
     andthen (getAssignment opt L S (withFalse q)) (\<lambda>a.
       building (evaluated (qexpr q) a) (\<lambda>c.
         if ConstantExpr_isTrue c
         then andthen (getAssignment opt L S q) (\<lambda>a. returns (if a = None then ValidityTrue else ValidityUnknown))
         else building (negateExpr q) (\<lambda>n.
           andthen (getAssignment opt L S n) (\<lambda>a. returns (if a = None then ValidityFalse else ValidityUnknown)))))"

definition CexCachingSolver_computeTruth :: "cex_options \<Rightarrow> layout \<Rightarrow> 's solver_impl \<Rightarrow> query \<Rightarrow> ('s \<times> cex_state, bool) call" where
  "CexCachingSolver_computeTruth opt L S q st =
     do { known \<leftarrow> (if CexCacheExperimental opt
            then do { n \<leftarrow> negateExpr q; (key, found) \<leftarrow> lookupAssignment opt L (snd st) n; Some (found = Some None) }
            else Some False);
          if known then fails st
          else andthen (getAssignment opt L S q) (\<lambda>a. returns (a = None)) st }"

definition CexCachingSolver_computeValue :: "cex_options \<Rightarrow> layout \<Rightarrow> 's solver_impl \<Rightarrow> query \<Rightarrow> ('s \<times> cex_state, expr) call" where
  "CexCachingSolver_computeValue opt L S q =
     andthen (getAssignment opt L S (withFalse q)) (\<lambda>a.
       building (evaluated (qexpr q) a) (\<lambda>c. returns (ConstantExpr c)))"

definition CexCachingSolver_computeInitialValues ::
  "cex_options \<Rightarrow> layout \<Rightarrow> 's solver_impl \<Rightarrow> query \<Rightarrow> array list \<Rightarrow> ('s \<times> cex_state, init_values) call" where
  "CexCachingSolver_computeInitialValues opt L S q objects =
     andthen (getAssignment opt L S q) (\<lambda>a. returns (case a of
         None \<Rightarrow> None
       | Some b \<Rightarrow> Some (map (\<lambda>os. case map_of b os of None \<Rightarrow> replicate (arrSize os) 0 | Some bytes \<Rightarrow> bytes) objects)))"

definition CexCachingSolver :: "cex_options \<Rightarrow> layout \<Rightarrow> 's solver_impl \<Rightarrow> ('s \<times> cex_state) solver_impl" where
  "CexCachingSolver opt L S = \<lparr>computeTruth = CexCachingSolver_computeTruth opt L S,
     computeValidity = CexCachingSolver_computeValidity opt L S, computeValue = CexCachingSolver_computeValue opt L S,
     computeInitialValues = CexCachingSolver_computeInitialValues opt L S\<rparr>"

subsection \<open>Assignments and keys\<close>

definition good_binding :: "array set \<Rightarrow> binding \<Rightarrow> bool" where
  "good_binding A b \<longleftrightarrow> distinct (map fst b) \<and> (\<forall>a \<in> fst ` set b. a \<in> A \<and> isSymbolicArray a)"

abbreviation binding_env :: "binding \<Rightarrow> env" where
  "binding_env b \<equiv> assignment_env (to_assignment b)"

definition key_ok :: "array set \<Rightarrow> expr set \<Rightarrow> bool" where
  "key_ok A K \<longleftrightarrow> (\<forall>k \<in> K. askable A k \<and> getWidth k = 1)"

definition solves :: "array set \<Rightarrow> expr set \<Rightarrow> binding option \<Rightarrow> bool" where
  "solves A K r = (case r of
       None \<Rightarrow> \<forall>\<sigma>. contents \<sigma> \<longrightarrow> (\<exists>k \<in> K. eval k \<sigma> \<noteq> 1)
     | Some b \<Rightarrow> good_binding A b \<and> (\<forall>k \<in> K. eval k (binding_env b) = 1))"

definition cex_inv :: "array set \<Rightarrow> layout \<Rightarrow> cex_state \<Rightarrow> bool" where
  "cex_inv A L st \<longleftrightarrow> (\<exists>m. ek.stands_for L (cex_cache st) m \<and> (\<forall>K r. m K = Some r \<longrightarrow> key_ok A K \<and> solves A K r)) \<and>
     (\<forall>b \<in> set (assignmentsTable st). good_binding A b)"

text \<open>The arrays have addresses of their own and are indexed with at most 32 bits.\<close>

definition usable :: "layout \<Rightarrow> array set \<Rightarrow> bool" where
  "usable L A \<longleftrightarrow> unshared L A \<and> (\<forall>a \<in> A. arrDomain a \<le> 32)"

lemma pure_evaluable:
  assumes "\<And>a. a \<in> A \<Longrightarrow> arrDomain a \<le> 32"
  shows "pure_in {} A e \<Longrightarrow> no_zero_div e \<and> short_index e \<and> foldable e \<and> defined e \<sigma>"
    and "pure_u {} A us \<Longrightarrow> no_zero_div_u us \<and> short_index_u us \<and> foldable_u us \<and> defined_u us \<sigma>"
  by (induction e and us) (use assms in \<open>auto simp: div_ok_def\<close>)

lemma askable_evaluable: "usable L A \<Longrightarrow> askable A e \<Longrightarrow> evaluable \<sigma> e"
  using pure_evaluable(1) [of A e \<sigma>] by (simp add: usable_def askable_def evaluable_def)

lemma pure_symbolic_arrays: "pure_in N A e \<Longrightarrow> arrays_of e \<subseteq> A" "pure_u N A us \<Longrightarrow> arrays_of_u us \<subseteq> A"
  by (induction e and us) auto

lemma arrays_symbolic: "a \<in> arrays_of e \<Longrightarrow> isSymbolicArray a" "a \<in> arrays_of_u us \<Longrightarrow> isSymbolicArray a"
  by (induction e and us) auto

lemma satisfying_iff:
  assumes "usable L A" "key_ok A (set key)"
  shows "Assignment_satisfies (to_assignment b) key = Some (\<forall>k \<in> set key. eval k (binding_env b) = 1)"
    "satisfying key b \<longleftrightarrow> (\<forall>k \<in> set key. eval k (binding_env b) = 1)"
proof -
  show "Assignment_satisfies (to_assignment b) key = Some (\<forall>k \<in> set key. eval k (binding_env b) = 1)"
    using assms(2) unfolding key_ok_def
    by (induction key) (auto simp: satisfies_step askable_evaluable [OF assms(1)] to_assignment_def simp del: Assignment_satisfies.simps(2))
  then show "satisfying key b \<longleftrightarrow> (\<forall>k \<in> set key. eval k (binding_env b) = 1)" by (simp add: satisfying_def)
qed

lemma good_contents: "good_binding A b \<Longrightarrow> contents (binding_env b)"
proof -
  assume b: "good_binding A b"
  have "map_of b a = None" if "isConstantArray a" for a
    using b that by (auto simp: good_binding_def map_of_eq_None_iff isConstantArray_def)
  then show ?thesis
    by (auto simp: contents_def assignment_env_ok assignment_env_def to_assignment_def)
qed

subsection \<open>Lookup\<close>

lemma search_solves:
  assumes "usable L A" "cex_inv A L st" "set_list (expr_less L) (placed L) key" "key_ok A (set key)"
    and "searchForAssignment opt L st key = Some r"
  shows "solves A (set key) r"
proof -
  obtain m where m: "ek.stands_for L (cex_cache st) m" "\<And>K r. m K = Some r \<Longrightarrow> key_ok A K \<and> solves A K r"
    using assms(2) by (auto simp: cex_inv_def)
  have super: "solves A (set key) r" if "set key \<subseteq> K" "m K = Some r" "r \<noteq> None" for K r
    using m(2) [OF that(2)] that by (auto simp: solves_def split: option.splits)
  have sub: "solves A (set key) None" if "K \<subseteq> set key" "m K = Some None" for K
    using m(2) [OF that(2)] that(1) by (fastforce simp: solves_def)
  have sat: "solves A (set key) (Some b)" if "satisfying key b" "good_binding A b" for b
    using that satisfying_iff(2) [OF assms(1,4)] by (simp add: solves_def)
  have stored: "good_binding A b" if "m K = Some (Some b)" for K b using m(2) [OF that] by (simp add: solves_def)
  note lookups = ek.stands_for_lookup [OF m(1) assms(3)] ek.stands_for_findSubset(1) [OF m(1) assms(3)]
    ek.stands_for_findSuperset(1) [OF m(1) assms(3)]
  consider "MapOfSets_lookup (expr_less L) key (cex_cache st) = Some r"
    | "findSuperset (expr_less L) (\<lambda>a. a \<noteq> None) (cex_cache st) key = Some r"
    | "findSubset (expr_less L) (\<lambda>a. a = None) (cex_cache st) key = Some r"
    | b where "find (satisfying key) (assignmentsTable st) = Some b" "r = Some b"
    | "findSubset (expr_less L) (\<lambda>a. case a of None \<Rightarrow> True | Some b \<Rightarrow> satisfying key b) (cex_cache st) key = Some r"
    using assms(5) by (auto simp: searchForAssignment_def Let_def split: option.splits if_splits)
  then show ?thesis
  proof cases
    case 1
    then show ?thesis using lookups(1) m(2) by simp
  next
    case 2
    then show ?thesis using lookups(3) super by blast
  next
    case 3
    then show ?thesis using lookups(2) sub by blast
  next
    case 4
    then have "satisfying key b" "b \<in> set (assignmentsTable st)" by (auto simp: find_Some_iff)
    then show ?thesis using 4(2) sat assms(2) by (auto simp: cex_inv_def)
  next
    case 5
    then obtain K where K: "case r of None \<Rightarrow> True | Some b \<Rightarrow> satisfying key b" "K \<subseteq> set key" "m K = Some r"
      using lookups(2) [OF 5] by blast
    then show ?thesis using sub sat stored by (cases r) auto
  qed
qed

definition key_for :: "array set \<Rightarrow> layout \<Rightarrow> query \<Rightarrow> expr list \<Rightarrow> bool" where
  "key_for A L q key \<longleftrightarrow> set_list (expr_less L) (placed L) key \<and> key_ok A (set key) \<and>
     determined_by q (\<Union>k \<in> set key. arrays_of k) \<and>
     (\<forall>\<sigma>. contents \<sigma> \<longrightarrow> ((\<forall>k \<in> set key. eval k \<sigma> = 1) \<longleftrightarrow> holds (qconstraints q) \<sigma> \<and> eval (qexpr q) \<sigma> = 0))"

lemma contents_depends:
  assumes "contents \<sigma>" "contents \<tau>" "\<And>a. a \<in> arrays_of e \<Longrightarrow> \<sigma> a = \<tau> a"
  shows "eval e \<sigma> = eval e \<tau>"
  by (rule eval_depends(1)) (use assms in \<open>auto simp: contents_def fun_eq_iff\<close>)

lemma constraint_key_ok:
  assumes "usable L A" "\<forall>c \<in> set cs. askable A c"
  shows "set_list (expr_less L) (placed L) (constraint_key L cs) \<and> set (constraint_key L cs) = set cs"
proof -
  have "set_list (expr_less L) (placed L) (fold (set_insert (expr_less L)) cs ks) \<and>
      set (fold (set_insert (expr_less L)) cs ks) = set ks \<union> set cs"
    if "set_list (expr_less L) (placed L) ks" "set cs \<subseteq> placed L" for ks
    using that by (induction cs arbitrary: ks) (use ek.set_insert_spec [of L] in auto)
  moreover have "set cs \<subseteq> placed L" using assms askable_placed by (auto simp: usable_def)
  ultimately show ?thesis by (simp add: constraint_key_def)
qed

lemma lookupAssignment_ok:
  assumes "usable L A" "bool_query A q"
  shows "\<exists>key found. lookupAssignment opt L st q = Some (key, found) \<and>
    (found = Some None \<and> valid (qconstraints q) (qexpr q) \<or> found = searchForAssignment opt L st key \<and> key_for A L q key)"
proof (rule negateExpr_ok [OF assms(2)])
  fix n assume n: "bool_query A n" "qconstraints n = qconstraints q" "createIsZero (qexpr q) = Some (qexpr n)"
    "valid (qconstraints n) (qexpr n) = invalid (qconstraints q) (qexpr q)" "invalid (qconstraints n) (qexpr n) = valid (qconstraints q) (qexpr q)"
  let ?key = "constraint_key L (qconstraints q)" and ?neg = "qexpr n"
  have cs: "\<forall>c \<in> set (qconstraints q). askable A c \<and> getWidth c = 1" "askable A ?neg" "getWidth ?neg = 1"
    using assms(2) n(1) by (auto simp: bool_query_def query_ok_def)
  have e: "eval ?neg \<sigma> = of_bool (eval (qexpr q) \<sigma> = 0)" if "contents \<sigma>" for \<sigma>
  proof -
    have "askable A (qexpr q)" using assms(2) by (simp add: bool_query_def query_ok_def)
    from negate_built [OF this] n(3) that show ?thesis by (metis contents_env_ok option.inject)
  qed
  have bit: "eval (qexpr q) \<sigma> = 0 \<or> eval (qexpr q) \<sigma> = 1" if "contents \<sigma>" for \<sigma>
    using bool_value [of "qexpr q" \<sigma>] that assms(2) by (auto simp: bool_query_def query_ok_def)
  have k: "set_list (expr_less L) (placed L) ?key" "set ?key = set (qconstraints q)"
    using constraint_key_ok [OF assms(1)] cs(1) by auto
  have h: "holds (qconstraints q) \<sigma> = holds (qconstraints q) \<tau>"
    if "contents \<sigma>" "contents \<tau>" "\<forall>a \<in> \<Union> (arrays_of ` set (qconstraints q)). \<sigma> a = \<tau> a" for \<sigma> \<tau>
    using contents_depends [OF that(1,2)] that(3) by (simp add: holds_def)
  have det: "determined_by q B" if "\<Union> (arrays_of ` set (qconstraints q)) \<subseteq> B" "isConstantExpr ?neg \<or> arrays_of ?neg \<subseteq> B" for B
    unfolding determined_by_def
  proof (intro allI impI, elim conjE)
    fix \<sigma> \<tau> assume c: "contents \<sigma>" "contents \<tau>" "\<forall>a \<in> B. \<sigma> a = \<tau> a"
    have "eval ?neg \<sigma> = eval ?neg \<tau>"
      using that(2) contents_depends [OF c(1,2), of ?neg] c(3) by (cases "isConstantExpr ?neg") (cases ?neg; auto)+
    then have "eval (qexpr q) \<sigma> = eval (qexpr q) \<tau>" using e c bit [OF c(1)] bit [OF c(2)] by (auto simp: of_bool_eq_iff)
    then show "holds (qconstraints q) \<sigma> = holds (qconstraints q) \<tau> \<and> eval (qexpr q) \<sigma> = eval (qexpr q) \<tau>"
      using h [OF c(1,2)] c(3) that(1) by blast
  qed
  show ?thesis
  proof (cases "isConstantExpr ?neg")
    case True
    then obtain c where c: "?neg = ConstantExpr c" by (cases "qexpr n") auto
    then have w: "bitWidth c = 1" "apval c = 0 \<or> apval c = 1" using cs(2,3) by (auto simp: wf_apint_def in_width_def)
    have v: "valid (qconstraints q) (qexpr q)" if "apval c = 0"
      using e bit c that by (auto simp: valid_def)
    have "key_for A L q ?key" if "apval c = 1"
      using k cs(1) det [of "\<Union> (arrays_of ` set (qconstraints q))"] e c that True
      by (auto simp: key_for_def key_ok_def holds_def)
    then show ?thesis
      using n(3) c w v by (auto simp: lookupAssignment_def ConstantExpr_isFalse_def Let_def)
  next
    case False
    let ?k = "set_insert (expr_less L) ?neg ?key"
    have ki: "set_list (expr_less L) (placed L) ?k" "set ?k = insert ?neg (set (qconstraints q))"
      using ek.set_insert_spec [OF k(1), of ?neg] k(2) askable_placed cs(2) assms(1) by (auto simp: usable_def)
    then have "key_for A L q ?k"
      using cs det [of "\<Union> (arrays_of ` set ?k)"] e by (auto simp: key_for_def key_ok_def holds_def)
    moreover have "lookupAssignment opt L st q = Some (?k, searchForAssignment opt L st ?k)"
      using n(3) False by (cases "qexpr n") (simp_all add: lookupAssignment_def Let_def)
    ultimately show ?thesis by blast
  qed
qed

subsection \<open>The table\<close>

lemma map_of_sort_key:
  assumes "distinct (map fst xs)"
  shows "map_of (sort_key f xs) = map_of xs" "distinct (map fst (sort_key f xs))"
proof -
  show d: "distinct (map fst (sort_key f xs))" using assms by (simp add: distinct_map)
  show "map_of (sort_key f xs) = map_of xs" by (simp add: map_of_inject_set [OF d assms])
qed

lemma Assignment_bind_zip:
  assumes "distinct objects" "length vals = length objects" "\<forall>a \<in> set objects. m a = None"
  shows "Assignment_bind m objects vals = Some (m ++ map_of (zip objects vals))"
  using assms
proof (induction m objects vals rule: Assignment_bind.induct)
  case (2 m os objs arr vs)
  then have "os \<notin> dom (map_of (zip objs vs))" by (auto dest!: map_of_SomeD set_zip_leftD)
  moreover have u: "(case m os of None \<Rightarrow> m(os \<mapsto> arr) | Some _ \<Rightarrow> m) = m(os \<mapsto> arr)" using "2.prems" by simp
  have "Assignment_bind (m(os \<mapsto> arr)) objs vs = Some (m(os \<mapsto> arr) ++ map_of (zip objs vs))"
    by (rule "2.IH" [unfolded u]) (use "2.prems" in auto)
  ultimately show ?case by (simp only: Assignment_bind.simps u zip_Cons_Cons map_of.simps fst_conv snd_conv map_add_upd map_add_upd_left not_False_eq_True)
qed auto

lemma binding_of_ok:
  assumes "distinct objects" "length vals = length objects"
  shows "\<exists>b. binding_of L objects vals = Some b \<and> map_of b = map_of (zip objects vals) \<and> distinct (map fst b) \<and>
    fst ` set b = set objects \<and> Assignment_bind Map.empty objects vals = Some (map_of b)"
proof -
  have z: "map fst (zip objects vals) = objects" using assms(2) by simp
  then have "distinct (map fst (zip objects vals))" using assms(1) by simp
  note s = this [THEN map_of_sort_key(1), of "\<lambda>p. address L (fst p)"] this [THEN map_of_sort_key(2), of "\<lambda>p. address L (fst p)"]
  have "fst ` set (zip objects vals) = set objects" using z by (metis image_set)
  then show ?thesis using assms s Assignment_bind_zip [OF assms, of Map.empty] by (simp add: binding_of_def)
qed

lemma binding_key_inj:
  assumes "unshared L A" "good_binding A x" "good_binding A y" "binding_key L x = binding_key L y"
  shows "x = y"
proof -
  have "inj_on (\<lambda>(a, bytes). address L a # map unat bytes) (set x \<union> set y)"
  proof (rule inj_onI)
    fix p p' assume p: "p \<in> set x \<union> set y" "p' \<in> set x \<union> set y"
      "(case p of (a, bytes) \<Rightarrow> address L a # map unat bytes) = (case p' of (a, bytes) \<Rightarrow> address L a # map unat bytes)"
    have "fst p \<in> A" using p(1) assms(2,3) by (auto simp: good_binding_def)
    moreover have "inj (unat :: 8 word \<Rightarrow> nat)" by (rule injI) (simp add: unsigned_word_eqI)
    ultimately show "p = p'"
      using p(3) assms(1) by (cases p; cases p') (auto simp: unshared_def inj_map_eq_map)
  qed
  then show ?thesis using assms(4) map_inj_on unfolding binding_key_def by blast
qed

lemma set_insert_subset: "set (set_insert lt x ks) \<subseteq> insert x (set ks)"
  by (induction ks) auto

lemma table_insert_ok:
  assumes "unshared L A" "good_binding A b" "\<forall>y \<in> set table. good_binding A y"
  shows "\<exists>table'. table_insert L b table = (b, table') \<and> (\<forall>y \<in> set table'. good_binding A y)"
proof (cases "find (\<lambda>y. \<not> AssignmentLessThan L b y \<and> \<not> AssignmentLessThan L y b) table")
  case None
  then show ?thesis using set_insert_subset [of "AssignmentLessThan L" b table] assms by (auto simp: table_insert_def)
next
  case (Some y)
  then have "y \<in> set table" "binding_key L b = binding_key L y"
    by (auto simp: find_Some_iff AssignmentLessThan_def)
  then have "b = y" using binding_key_inj [OF assms(1,2)] assms(3) by blast
  then show ?thesis using Some assms(3) by (simp add: table_insert_def)
qed

subsection \<open>The solver keeps the contract\<close>

lemma cex_insert:
  assumes "cex_inv A L c" "set_list (expr_less L) (placed L) key" "key_ok A (set key)" "solves A (set key) r"
    and "\<forall>b \<in> set table. good_binding A b"
  shows "cex_inv A L (c\<lparr>cex_cache := MapOfSets_insert (expr_less L) key r (cex_cache c), assignmentsTable := table\<rparr>)"
proof -
  obtain m where m: "ek.stands_for L (cex_cache c) m" "\<And>K r. m K = Some r \<Longrightarrow> key_ok A K \<and> solves A K r"
    using assms(1) by (auto simp: cex_inv_def)
  from ek.stands_for_insert [OF m(1) assms(2), of r] show ?thesis
    using m(2) assms(3-5) unfolding cex_inv_def by (intro conjI exI [of _ "m(set key \<mapsto> r)"]) auto
qed

lemma key_objects:
  assumes "key_for A L q key"
  shows "distinct (findSymbolicObjects_all key)" "set (findSymbolicObjects_all key) = (\<Union>k \<in> set key. arrays_of k)"
    "a \<in> set (findSymbolicObjects_all key) \<Longrightarrow> a \<in> A \<and> isSymbolicArray a" "determined_by q (set (findSymbolicObjects_all key))"
proof -
  note spec = findSymbolicObjects_all_spec [of key]
  show "distinct (findSymbolicObjects_all key)" "set (findSymbolicObjects_all key) = (\<Union>k \<in> set key. arrays_of k)" by (rule spec)+
  show "determined_by q (set (findSymbolicObjects_all key))" using assms spec(2) by (simp add: key_for_def)
  show "a \<in> A \<and> isSymbolicArray a" if "a \<in> set (findSymbolicObjects_all key)"
    using that assms spec(2) pure_symbolic_arrays(1) [of "{}" A] arrays_symbolic(1)
    by (force simp: key_for_def key_ok_def askable_def)
qed

text \<open>What an assignment got for a query is: a counterexample, or nothing where the query is valid.\<close>

definition counterexample :: "array set \<Rightarrow> query \<Rightarrow> binding option \<Rightarrow> bool" where
  "counterexample A q r = (case r of
       None \<Rightarrow> valid (qconstraints q) (qexpr q)
     | Some b \<Rightarrow> good_binding A b \<and> holds (qconstraints q) (binding_env b) \<and> eval (qexpr q) (binding_env b) = 0)"

lemma solves_counterexample:
  assumes "key_for A L q key" "bool_query A q"
  shows "solves A (set key) r \<longleftrightarrow> counterexample A q r"
proof -
  have bit: "eval (qexpr q) \<sigma> = 0 \<or> eval (qexpr q) \<sigma> = 1" if "contents \<sigma>" for \<sigma>
    using bool_value [of "qexpr q" \<sigma>] that assms(2) by (auto simp: bool_query_def query_ok_def)
  have k: "(\<forall>k \<in> set key. eval k \<sigma> = 1) \<longleftrightarrow> holds (qconstraints q) \<sigma> \<and> eval (qexpr q) \<sigma> = 0" if "contents \<sigma>" for \<sigma>
    using assms(1) that by (simp add: key_for_def)
  show ?thesis
  proof (cases r)
    case None
    have "(\<exists>k \<in> set key. eval k \<sigma> \<noteq> 1) \<longleftrightarrow> (holds (qconstraints q) \<sigma> \<longrightarrow> eval (qexpr q) \<sigma> = 1)" if "contents \<sigma>" for \<sigma>
      using k [OF that] bit [OF that] by auto
    then show ?thesis using None by (auto simp: solves_def counterexample_def valid_def)
  qed (use k good_contents in \<open>auto simp: solves_def counterexample_def\<close>)
qed

abbreviation cexed :: "array set \<Rightarrow> layout \<Rightarrow> ('s \<Rightarrow> bool) \<Rightarrow> 's \<times> cex_state \<Rightarrow> bool" where
  "cexed A L sinv \<equiv> \<lambda>st. sinv (fst st) \<and> cex_inv A L (snd st)"

lemma store_result_answers:
  assumes "usable L A" "bool_query A q" "key_for A L q key" "cexed A L sinv st" "good_init q (findSymbolicObjects_all key) r"
  shows "answers may_fail (cexed A L sinv) (counterexample A q) (store_result opt L key (findSymbolicObjects_all key) r st)"
proof -
  have key: "set_list (expr_less L) (placed L) key" "key_ok A (set key)" using assms(3) by (simp_all add: key_for_def)
  have table: "\<forall>b \<in> set (assignmentsTable (snd st)). good_binding A b" using assms(4) by (simp add: cex_inv_def)
  note ins = cex_insert [OF conjunct2 [OF assms(4)] key]
  note same = solves_counterexample [OF assms(3,2)]
  show ?thesis
  proof (cases r)
    case None
    then have c: "counterexample A q None" using assms(5) by (simp add: good_init_def counterexample_def)
    then show ?thesis using None ins [OF _ table, of None] same assms(4) by (simp add: store_result_def Let_def)
  next
    case (Some vals)
    note objs = key_objects [OF assms(3)]
    have r: "length vals = length (findSymbolicObjects_all key)" "refutes q (findSymbolicObjects_all key) vals"
      using assms(5) Some by (simp_all add: good_init_def refutes_def)
    obtain b where b: "binding_of L (findSymbolicObjects_all key) vals = Some b" "distinct (map fst b)"
        "fst ` set b = set (findSymbolicObjects_all key)" "Assignment_bind Map.empty (findSymbolicObjects_all key) vals = Some (map_of b)"
      using binding_of_ok [OF objs(1) r(1), of L] by blast
    have good: "good_binding A b" using b objs(3) by (auto simp: good_binding_def)
    then have c: "counterexample A q (Some b)"
      using r(2) b(4) by (auto simp: refutes_def counterexample_def to_assignment_def Let_def)
    obtain table' where t: "table_insert L b (assignmentsTable (snd st)) = (b, table')" "\<forall>y \<in> set table'. good_binding A y"
      using table_insert_ok [OF _ good table, of L] assms(1) unfolding usable_def by blast
    have "solves A (set key) (Some b)" using same c by simp
    then have "satisfying key b" using satisfying_iff(2) [OF assms(1) key(2)] by (simp add: solves_def)
    then show ?thesis
      using Some b(1) t(1) ins [OF _ t(2), of "Some b"] same c assms(4) by (simp add: store_result_def Let_def)
  qed
qed

lemma evaluated_ok:
  assumes "usable L A" "query_ok A q" "counterexample A (withFalse q) r"
  obtains \<sigma> c where "evaluated (qexpr q) r = Some c" "wf_apint c" "bitWidth c = getWidth (qexpr q)" "apval c = eval (qexpr q) \<sigma>"
    "contents \<sigma>" "holds (qconstraints q) \<sigma>"
proof (cases r)
  case None
  then have False using assms(2,3) by (auto simp: counterexample_def valid_def query_ok_def satisfiable_def)
  then show ?thesis ..
next
  case (Some b)
  then have b: "good_binding A b" "holds (qconstraints q) (binding_env b)" using assms(3) by (simp_all add: counterexample_def)
  have "\<not> allowFreeValues (to_assignment b)" by (simp add: to_assignment_def)
  from total_evaluate [OF this askable_evaluable [OF assms(1) query_okD(1) [OF assms(2)]]] obtain c where
    "Assignment_evaluate (to_assignment b) (qexpr q) = Some (ConstantExpr c)" "wf_apint c" "bitWidth c = getWidth (qexpr q)"
    "apval c = eval (qexpr q) (binding_env b)" .
  then show ?thesis using Some b good_contents by (intro that [of c "binding_env b"]) (auto simp: evaluated_def)
qed

lemma zero_fill:
  assumes "distinct objects" "good_binding A b" "determined_by q (set objects)"
    and "holds (qconstraints q) (binding_env b)" "eval (qexpr q) (binding_env b) = 0"
  shows "refutes q objects (map (\<lambda>os. case map_of b os of None \<Rightarrow> replicate (arrSize os) 0 | Some bytes \<Rightarrow> bytes) objects)"
proof -
  let ?vals = "map (\<lambda>os. case map_of b os of None \<Rightarrow> replicate (arrSize os) 0 | Some bytes \<Rightarrow> bytes) objects"
  let ?\<tau> = "assignment_env \<lparr>allowFreeValues = False, bindings = map_of (zip objects ?vals)\<rparr>"
  have v: "map_of (zip objects ?vals) a = (if a \<in> set objects then
      Some (case map_of b a of None \<Rightarrow> replicate (arrSize a) 0 | Some bytes \<Rightarrow> bytes) else None)" for a
    by (simp add: map_of_zip_map)
  have same: "\<forall>a \<in> set objects. ?\<tau> a = binding_env b a"
    by (auto simp: fun_eq_iff assignment_env_def to_assignment_def v split: option.split)
  have "?\<tau> a ix = 0" if "isConstantArray a" for a ix
    using that assms(2) by (auto simp: assignment_env_def v good_binding_def isConstantArray_def dest!: map_of_SomeD split: option.split)
  then have "contents ?\<tau>" by (simp add: contents_def assignment_env_ok)
  with same good_contents [OF assms(2)] have "holds (qconstraints q) ?\<tau>" "eval (qexpr q) ?\<tau> = 0"
    using assms(3) [unfolded determined_by_def, rule_format, of ?\<tau> "binding_env b"] assms(4,5) by simp_all
  moreover have "Assignment_bind Map.empty objects ?vals = Some (map_of (zip objects ?vals))"
    using Assignment_bind_zip [OF assms(1), of ?vals Map.empty] by simp
  ultimately show ?thesis by (simp add: refutes_def Let_def)
qed

context solver_contract
begin

lemma getAssignment_answers:
  assumes "usable L A" "cexed A L sinv st" "bool_query A q"
  shows "answers may_fail (cexed A L sinv) (counterexample A q) (getAssignment opt L S q st)"
proof -
  obtain key found where l: "lookupAssignment opt L (snd st) q = Some (key, found)"
    "found = Some None \<and> valid (qconstraints q) (qexpr q) \<or> found = searchForAssignment opt L (snd st) key \<and> key_for A L q key"
    using lookupAssignment_ok [OF assms(1,3)] by blast
  show ?thesis
  proof (cases found)
    case None
    then have k: "key_for A L q key" using l(2) by simp
    note objs = key_objects [OF k]
    have "answers may_fail (cexed A L sinv) (counterexample A q)
        (andthen (inner (computeInitialValues S q (findSymbolicObjects_all key))) (store_result opt L key (findSymbolicObjects_all key)) st)"
      by (rule answers_andthen, rule inner_answers, rule init)
         (use assms objs in \<open>auto simp del: objs(2) intro!: store_result_answers [OF assms(1,3) k]\<close>)
    then show ?thesis using l(1) None by (simp add: getAssignment_def Let_def)
  next
    case (Some r)
    have "counterexample A q r"
      using l(2) Some
    proof (elim disjE conjE)
      assume "found = searchForAssignment opt L (snd st) key" "key_for A L q key"
      then show ?thesis
        using search_solves [OF assms(1), of "snd st" key opt r] Some assms(2) solves_counterexample [OF _ assms(3)]
        unfolding key_for_def by metis
    qed (simp add: counterexample_def)
    then show ?thesis using l(1) Some assms(2) by (simp add: getAssignment_def)
  qed
qed

lemma CexCachingSolver_truth:
  assumes "usable L A" "cexed A L sinv st" "bool_query A q" "may_fail \<or> \<not> CexCacheExperimental opt"
  shows "answers may_fail (cexed A L sinv) (\<lambda>b. b = valid (qconstraints q) (qexpr q)) (CexCachingSolver_computeTruth opt L S q st)"
proof -
  obtain n where n: "negateExpr q = Some n" "bool_query A n" using negateExpr_ok [OF assms(3)] by metis
  have bit: "eval (qexpr q) \<sigma> = 0 \<or> eval (qexpr q) \<sigma> = 1" if "contents \<sigma>" for \<sigma>
    using bool_value [of "qexpr q" \<sigma>] that assms(3) by (auto simp: bool_query_def query_ok_def)
  have "answers may_fail (cexed A L sinv) (\<lambda>b. b = valid (qconstraints q) (qexpr q))
      (andthen (getAssignment opt L S q) (\<lambda>a. returns (a = None)) st)"
    by (rule answers_andthen, rule getAssignment_answers [OF assms(1-3)])
       (use good_contents in \<open>fastforce simp: counterexample_def valid_def split: option.splits\<close>)
  then show ?thesis
    using lookupAssignment_ok [OF assms(1) n(2), of opt "snd st"] n(1) assms(2,4) by (auto simp: CexCachingSolver_computeTruth_def)
qed

lemma CexCachingSolver_validity:
  assumes "usable L A" "cexed A L sinv st" "bool_query A q"
  shows "answers may_fail (cexed A L sinv) (\<lambda>v. v = true_validity q) (CexCachingSolver_computeValidity opt L S q st)"
proof -
  obtain n where n: "negateExpr q = Some n" "bool_query A n" "qconstraints n = qconstraints q"
    "valid (qconstraints n) (qexpr n) = invalid (qconstraints q) (qexpr q)" using negateExpr_ok [OF assms(3)] by metis
  have cex: "a = None \<longleftrightarrow> valid (qconstraints q) (qexpr q)" if "counterexample A q a" for a q
    using that good_contents by (fastforce simp: counterexample_def valid_def split: option.splits)
  have sat: "\<not> (valid (qconstraints q) (qexpr q) \<and> invalid (qconstraints q) (qexpr q))"
    using assms(3) not_both by (simp add: bool_query_def query_ok_def)
  have pos: "answers may_fail (cexed A L sinv) (\<lambda>v. v = true_validity q)
      (andthen (getAssignment opt L S q) (\<lambda>a. returns (if a = None then ValidityTrue else ValidityUnknown)) st)"
    if "\<not> invalid (qconstraints q) (qexpr q)" "cexed A L sinv st" for st
    by (rule answers_andthen, rule getAssignment_answers [OF assms(1) that(2) assms(3)]) (use cex that in \<open>auto simp: true_validity_def\<close>)
  have neg: "answers may_fail (cexed A L sinv) (\<lambda>v. v = true_validity q)
      (andthen (getAssignment opt L S n) (\<lambda>a. returns (if a = None then ValidityFalse else ValidityUnknown)) st)"
    if "\<not> valid (qconstraints q) (qexpr q)" "cexed A L sinv st" for st
    by (rule answers_andthen, rule getAssignment_answers [OF assms(1) that(2) n(2)]) (use cex [of n] n that in \<open>auto simp: true_validity_def\<close>)
  show ?thesis
    unfolding CexCachingSolver_computeValidity_def
  proof (rule answers_andthen, rule getAssignment_answers [OF assms(1,2) query_ok_withFalse])
    show "query_ok A q" by (rule bool_queryD(1) [OF assms(3)])
    fix a st assume a: "counterexample A (withFalse q) a" "cexed A L sinv st"
    obtain \<sigma> c where c: "evaluated (qexpr q) a = Some c" "wf_apint c \<and> bitWidth c = getWidth (qexpr q)" "apval c = eval (qexpr q) \<sigma>"
      "contents \<sigma>" "holds (qconstraints q) \<sigma>" using evaluated_ok [OF assms(1) bool_queryD(1) [OF assms(3)] a(1)] by metis
    have "ConstantExpr_isTrue c \<longleftrightarrow> apval c = 1"
      using c(2) bool_queryD(2) [OF assms(3)] by (auto simp: ConstantExpr_isTrue_def wf_apint_def in_width_def)
    moreover have "apval c = 1 \<Longrightarrow> \<not> invalid (qconstraints q) (qexpr q)" "apval c \<noteq> 1 \<Longrightarrow> \<not> valid (qconstraints q) (qexpr q)"
      using c by (auto simp: valid_def invalid_def)
    ultimately show "answers may_fail (cexed A L sinv) (\<lambda>v. v = true_validity q) (building (evaluated (qexpr q) a) (\<lambda>c.
        if ConstantExpr_isTrue c
        then andthen (getAssignment opt L S q) (\<lambda>a. returns (if a = None then ValidityTrue else ValidityUnknown))
        else building (negateExpr q) (\<lambda>n. andthen (getAssignment opt L S n)
          (\<lambda>a. returns (if a = None then ValidityFalse else ValidityUnknown)))) st)"
      using pos [OF _ a(2)] neg [OF _ a(2)] c(1) n(1) by (auto simp: building_def)
  qed
qed

lemma CexCachingSolver_value:
  assumes "usable L A" "cexed A L sinv st" "query_ok A q"
  shows "answers may_fail (cexed A L sinv) (\<lambda>v. \<exists>c. v = ConstantExpr c \<and> wf_apint c \<and> bitWidth c = getWidth (qexpr q) \<and> feasible q (apval c))
    (CexCachingSolver_computeValue opt L S q st)"
  unfolding CexCachingSolver_computeValue_def
proof (rule answers_andthen, rule getAssignment_answers [OF assms(1,2) query_ok_withFalse [OF assms(3)]])
  fix a st assume a: "counterexample A (withFalse q) a" "cexed A L sinv st"
  obtain \<sigma> c where c: "evaluated (qexpr q) a = Some c" "wf_apint c" "bitWidth c = getWidth (qexpr q)" "apval c = eval (qexpr q) \<sigma>"
    "contents \<sigma>" "holds (qconstraints q) \<sigma>" using evaluated_ok [OF assms(1,3) a(1)] by metis
  then show "answers may_fail (cexed A L sinv) (\<lambda>v. \<exists>c. v = ConstantExpr c \<and> wf_apint c \<and> bitWidth c = getWidth (qexpr q) \<and> feasible q (apval c))
      (building (evaluated (qexpr q) a) (\<lambda>c. returns (ConstantExpr c)) st)"
    using a(2) by (auto simp: building_def feasible_def)
qed

lemma CexCachingSolver_init:
  assumes "usable L A" "cexed A L sinv st" "bool_query A q" "distinct objects" "determined_by q (set objects)"
  shows "answers may_fail (cexed A L sinv) (good_init q objects) (CexCachingSolver_computeInitialValues opt L S q objects st)"
  unfolding CexCachingSolver_computeInitialValues_def
  by (rule answers_andthen, rule getAssignment_answers [OF assms(1-3)])
     (use zero_fill [OF assms(4) _ assms(5)] in \<open>auto simp: counterexample_def good_init_def split: option.splits\<close>)

end

lemma CexCachingSolver_contract:
  assumes "solver_contract may_fail A S sinv" "usable L A" "may_fail \<or> \<not> CexCacheExperimental opt"
  shows "solver_contract may_fail A (CexCachingSolver opt L S) (\<lambda>st. sinv (fst st) \<and> cex_inv A L (snd st))"
  by unfold_locales
     (simp_all add: CexCachingSolver_def solver_contract.CexCachingSolver_truth [OF assms(1,2) _ _ assms(3)]
       solver_contract.CexCachingSolver_validity [OF assms(1,2)] solver_contract.CexCachingSolver_value [OF assms(1,2)]
       solver_contract.CexCachingSolver_init [OF assms(1,2)])

end
