(* ===== verification/Solver_Range.thy ===== *)
theory Solver_Range
  imports Solver_Front
begin

text \<open>
  \<open>Solver::getRange\<close> (\<^verbatim>\<open>klee/lib/Solver/Solver.cpp\<close>): its three binary searches end and give the least
  and the greatest value the expression has under the constraints, for every solver that keeps its
  contract and answers.
\<close>

subsection \<open>Binary search\<close>

text \<open>A call gives exactly the answer \<open>x\<close>.\<close>

definition gives :: "('s \<Rightarrow> bool) \<Rightarrow> 'a \<Rightarrow> ('a option \<times> 's) option \<Rightarrow> bool" where
  "gives sinv x res \<longleftrightarrow> (\<exists>s. res = Some (Some x, s) \<and> sinv s)"

lemma gives_building: "x = Some e \<Longrightarrow> gives sinv y (f e s) \<Longrightarrow> gives sinv y (building x f s)"
  by (simp add: building_def)

lemma givesE: "gives sinv x res \<Longrightarrow> (\<And>s. res = Some (Some x, s) \<Longrightarrow> sinv s \<Longrightarrow> thesis) \<Longrightarrow> thesis"
  by (auto simp: gives_def)

lemma gives_returns [simp]: "gives sinv x (returns y s) \<longleftrightarrow> x = y \<and> sinv s"
  by (auto simp: gives_def returns_def)

lemma answers_gives: "answers may_fail sinv (\<lambda>b. b = x) res \<Longrightarrow> res = Some (Some b, s) \<Longrightarrow> gives sinv x res"
  by (auto simp: answers_def gives_def)

lemma bsearch_least:
  assumes "\<And>m s. lo \<le> m \<Longrightarrow> m < hi \<Longrightarrow> sinv s \<Longrightarrow> gives sinv (P m) (ask m s)"
    and "\<And>i j. P i \<Longrightarrow> i \<le> j \<Longrightarrow> P j" and "sinv s" "lo \<le> hi"
  shows "\<exists>k s'. bsearch ask lo hi s = Some (k, s') \<and> sinv s' \<and> lo \<le> k \<and> k \<le> hi \<and>
    (\<forall>i. lo \<le> i \<and> i < k \<longrightarrow> \<not> P i) \<and> (k < hi \<longrightarrow> P k)"
  using assms(1,3,4)
proof (induction "hi - lo" arbitrary: lo hi s rule: less_induct)
  case less
  show ?case
  proof (cases "lo < hi")
    case True
    define m where "m = lo + (hi - lo) div 2"
    have m: "lo \<le> m" "m < hi" using True by (auto simp: m_def)
    then have smaller: "m - lo < hi - lo" "hi - (m + 1) < hi - lo" by linarith+
    obtain s' where a: "ask m s = Some (Some (P m), s')" "sinv s'"
      using less.prems(1) [OF m less.prems(2)] by (auto simp: gives_def)
    have step: "bsearch ask lo hi s = (if P m then bsearch ask lo m s' else bsearch ask (m + 1) hi s')"
      using True a by (simp add: bsearch.simps [of ask lo hi] m_def [symmetric])
    show ?thesis
    proof (cases "P m")
      case True
      obtain k s'' where k: "bsearch ask lo m s' = Some (k, s'')" "sinv s''" "lo \<le> k" "k \<le> m"
        "\<forall>i. lo \<le> i \<and> i < k \<longrightarrow> \<not> P i" "k < m \<longrightarrow> P k"
        using less.hyps [OF smaller(1), of s'] less.prems(1) m a(2) by auto
      then have "P k" using True by (cases "k = m") auto
      then show ?thesis using step True k m by auto
    next
      case False
      obtain k s'' where k: "bsearch ask (m + 1) hi s' = Some (k, s'')" "sinv s''" "m + 1 \<le> k" "k \<le> hi"
        "\<forall>i. m + 1 \<le> i \<and> i < k \<longrightarrow> \<not> P i" "k < hi \<longrightarrow> P k"
        using less.hyps [OF smaller(2), of s'] less.prems(1) m a(2) by auto
      have "\<not> P i" if "lo \<le> i" "i < k" for i
        using k(5) False assms(2) [of i m] that by (cases "i \<le> m") auto
      then show ?thesis using step False k m by auto
    qed
  next
    case False
    then show ?thesis using less.prems by (auto simp: bsearch.simps [of ask hi hi])
  qed
qed

subsection \<open>The questions\<close>

lemma ConstantExpr_create_nat: "0 < w \<Longrightarrow> m < 2 ^ w \<Longrightarrow> ConstantExpr_create (int m) w = Some (APInt w (int m))"
proof -
  assume "0 < w" "m < 2 ^ w"
  moreover from this have "take_bit w (int m) = int m" by (simp add: take_bit_int_eq_self)
  ultimately show ?thesis by (simp add: ConstantExpr_create_def ConstantExpr_alloc_def)
qed

definition asks :: "array set \<Rightarrow> expr option \<Rightarrow> (env \<Rightarrow> bool) \<Rightarrow> bool" where
  "asks A x f \<longleftrightarrow> (\<exists>z. x = Some z \<and> askable A z \<and> getWidth z = 1 \<and> (\<forall>\<sigma>. env_ok \<sigma> \<longrightarrow> eval z \<sigma> = of_bool (f \<sigma>)))"

lemma wf_APInt [simp]: "wf_apint (APInt w (int m)) \<longleftrightarrow> 0 < w \<and> m < 2 ^ w"
proof -
  have "int m < 2 ^ w \<longleftrightarrow> m < 2 ^ w" by (metis of_nat_less_iff of_nat_numeral of_nat_power)
  then show ?thesis by (simp add: wf_apint_def in_width_def)
qed

lemma no_bits_from_asks:
  assumes "askable A e" "m < getWidth e"
  shows "asks A (no_bits_from e m) (\<lambda>\<sigma>. eval e \<sigma> < 2 ^ m)"
proof -
  let ?w = "getWidth e" let ?m = "ConstantExpr (APInt ?w (int m))" let ?z = "ConstantExpr (APInt ?w 0)"
  have w: "0 < ?w" "m < 2 ^ ?w" using assms by (auto intro: less_trans less_exp)
  have m: "askable A ?m" "askable A ?z" using w wf_APInt [of ?w 0] by simp_all
  obtain sh where sh: "LShr_create e ?m = Some sh" "askable A sh" "getWidth sh = ?w"
    "\<And>\<sigma>. env_ok \<sigma> \<Longrightarrow> eval sh \<sigma> = bin_val LShr e ?m \<sigma>"
    by (rule askable_built [OF LShr_create_builds, of e ?m A])
       (use assms m w Binary_nd [of "{}" A e ?m LShr] in \<open>auto simp: askable_def\<close>)
  obtain z where z: "Eq_create sh ?z = Some z" "askable A z" "getWidth z = 1"
    "\<And>\<sigma>. env_ok \<sigma> \<Longrightarrow> eval z \<sigma> = bin_val Eq sh ?z \<sigma>"
    by (rule askable_built [OF Eq_create_builds_aux, of sh ?z A])
       (use sh m w Eq_nd(1) [of "{}" A sh ?z] in \<open>auto simp: askable_def\<close>)
  have "eval z \<sigma> = of_bool (eval e \<sigma> < 2 ^ m)" if "env_ok \<sigma>" for \<sigma>
  proof -
    have "0 \<le> eval e \<sigma>" using eval_in_width [OF that, of e] assms by (simp add: in_width_def)
    then have "drop_bit m (eval e \<sigma>) = 0 \<longleftrightarrow> eval e \<sigma> < 2 ^ m"
      by (auto simp: drop_bit_eq_div div_eq_0_iff zdiv_eq_0_iff)
    then show ?thesis using z(4) [OF that] sh(4) [OF that] assms by (simp add: drop_bit_eq_div)
  qed
  then show ?thesis
    using sh z w ConstantExpr_create_nat [OF w] by (simp add: asks_def no_bits_from_def ConstantExpr_alloc_def)
qed

lemma is_null_asks:
  assumes "askable A e"
  shows "asks A (is_null e) (\<lambda>\<sigma>. eval e \<sigma> = 0)"
proof -
  let ?w = "getWidth e" let ?z = "ConstantExpr (APInt ?w 0)"
  have w: "0 < ?w" using assms wf_width_pos [of e] by simp
  have m: "askable A ?z" using w wf_APInt [of ?w 0] by simp
  obtain z where z: "Eq_create e ?z = Some z" "askable A z" "getWidth z = 1"
    "\<And>\<sigma>. env_ok \<sigma> \<Longrightarrow> eval z \<sigma> = bin_val Eq e ?z \<sigma>"
    by (rule askable_built [OF Eq_create_builds_aux, of e ?z A])
       (use assms m w Eq_nd(1) [of "{}" A e ?z] in \<open>auto simp: askable_def\<close>)
  then show ?thesis using w by (simp add: asks_def is_null_def ConstantExpr_alloc_def)
qed

lemma at_most_asks:
  assumes "askable A e" "m < 2 ^ getWidth e"
  shows "asks A (at_most e m) (\<lambda>\<sigma>. eval e \<sigma> \<le> int m)"
proof -
  let ?w = "getWidth e" let ?m = "ConstantExpr (APInt ?w (int m))"
  have w: "0 < ?w" using assms wf_width_pos [of e] by simp
  have m: "askable A ?m" using w assms(2) by simp
  obtain z where z: "Ule_create e ?m = Some z" "askable A z" "getWidth z = 1"
    "\<And>\<sigma>. env_ok \<sigma> \<Longrightarrow> eval z \<sigma> = bin_val Ule e ?m \<sigma>"
    by (rule askable_built [OF Ule_create_builds, of e ?m A])
       (use assms m w Binary_nd [of "{}" A e ?m Ule] in \<open>auto simp: askable_def\<close>)
  then show ?thesis using ConstantExpr_create_nat [OF w assms(2)] by (simp add: asks_def at_most_def)
qed

subsection \<open>The range\<close>

text \<open>The solver answers the questions about truth and validity.\<close>

definition always_answers :: "array set \<Rightarrow> 's solver_impl \<Rightarrow> ('s \<Rightarrow> bool) \<Rightarrow> bool" where
  "always_answers A S sinv \<longleftrightarrow> (\<forall>q s. sinv s \<and> bool_query A q \<longrightarrow>
     (\<exists>b s'. computeTruth S q s = Some (Some b, s')) \<and> (\<exists>v s'. computeValidity S q s = Some (Some v, s')))"

lemma asks_bool_query: "asks A (Some z) f \<Longrightarrow> query_ok A q \<Longrightarrow> bool_query A (withExpr z q)"
  by (auto simp: asks_def bool_query_def query_ok_withExpr)

lemma asks_valid: "asks A (Some z) f \<Longrightarrow> valid cs z \<longleftrightarrow> (\<forall>\<sigma>. contents \<sigma> \<and> holds cs \<sigma> \<longrightarrow> f \<sigma>)"
  and asks_invalid: "asks A (Some z) f \<Longrightarrow> invalid cs z \<longleftrightarrow> (\<forall>\<sigma>. contents \<sigma> \<and> holds cs \<sigma> \<longrightarrow> \<not> f \<sigma>)"
  by (auto simp: asks_def valid_def invalid_def)

lemma asks_Some: "asks A x f \<Longrightarrow> \<exists>z. x = Some z \<and> asks A (Some z) f"
  by (auto simp: asks_def)

lemma feasible_in_width: "askable A (qexpr q) \<Longrightarrow> feasible q x \<Longrightarrow> in_width (getWidth (qexpr q)) x"
  using eval_in_width by (auto simp: feasible_def)

lemma feasible_all: "(\<forall>\<sigma>. contents \<sigma> \<and> holds (qconstraints q) \<sigma> \<longrightarrow> P (eval (qexpr q) \<sigma>)) \<longleftrightarrow> (\<forall>x. feasible q x \<longrightarrow> P x)"
  and feasible_ex: "(\<exists>\<sigma>. contents \<sigma> \<and> holds (qconstraints q) \<sigma> \<and> P (eval (qexpr q) \<sigma>)) \<longleftrightarrow> (\<exists>x. feasible q x \<and> P x)"
  by (auto simp: feasible_def)

lemma maxValue64: "k \<le> 64 \<Longrightarrow> \<exists>t. bits64_maxValueOfNBits k = Some t \<and> unat t = 2 ^ k - 1"
proof -
  assume k: "k \<le> 64"
  have "unat (drop_bit (64 - k) (- 1 :: 64 word)) = 2 ^ k - 1" if "0 < k"
  proof -
    have "drop_bit (64 - k) (- 1 :: 64 word) = mask k"
      using k by (intro bit_word_eqI) (auto simp: bit_drop_bit_eq bit_mask_iff)
    moreover have "unat (of_nat (mask k) :: 64 word) = mask k"
      using k by (simp add: unsigned_of_nat take_bit_of_mask min_def del: of_nat_mask_eq)
    ultimately show ?thesis by (simp only: of_nat_mask_eq) (simp only: mask_eq_exp_minus_1)
  qed
  then show ?thesis using k by (simp add: bits64_maxValueOfNBits_def)
qed

context solver_contract
begin

lemma mustBeTrue_gives:
  assumes "always_answers A S sinv" "sinv s" "bool_query A q"
  shows "gives sinv (valid (qconstraints q) (qexpr q)) (Solver_mustBeTrue S q s)"
proof -
  have "\<exists>b s'. Solver_mustBeTrue S q s = Some (Some b, s')"
    using assms bool_queryD(2) [OF assms(3)]
    by (cases "qexpr q") (auto simp: Solver_mustBeTrue_def always_answers_def returns_def)
  then show ?thesis using answers_gives [OF mustBeTrue_answers [OF assms(2,3)]] by blast
qed

lemma mayBeTrue_gives:
  assumes "always_answers A S sinv" "sinv s" "bool_query A q"
  shows "gives sinv (\<not> invalid (qconstraints q) (qexpr q)) (Solver_mayBeTrue S q s)"
proof (rule negateExpr_ok [OF assms(3)])
  fix n assume n: "negateExpr q = Some n" "bool_query A n" "qconstraints n = qconstraints q"
    "valid (qconstraints n) (qexpr n) = invalid (qconstraints q) (qexpr q)"
  show ?thesis
    using mustBeTrue_gives [OF assms(1,2) n(2)] n
    by (auto simp: Solver_mayBeTrue_def Solver_mustBeFalse_def building_def andthen_def gives_def returns_def)
qed

lemma evaluate_gives:
  assumes "always_answers A S sinv" "sinv s" "bool_query A q"
  shows "gives sinv (true_validity q) (Solver_evaluate S q s)"
proof -
  have "\<exists>b s'. Solver_evaluate S q s = Some (Some b, s')"
    using assms bool_queryD(2) [OF assms(3)]
    by (cases "qexpr q") (auto simp: Solver_evaluate_def always_answers_def returns_def)
  then show ?thesis using answers_gives [OF evaluate_answers [OF assms(2,3)]] by blast
qed

lemma must_gives:
  assumes "always_answers A S sinv" "query_ok A q" "asks A x (\<lambda>\<sigma>. P (eval (qexpr q) \<sigma>))" "sinv s"
  shows "gives sinv (\<forall>v. feasible q v \<longrightarrow> P v) (building x (\<lambda>z. Solver_mustBeTrue S (withExpr z q)) s)"
proof -
  obtain z where z: "x = Some z" "asks A (Some z) (\<lambda>\<sigma>. P (eval (qexpr q) \<sigma>))" using asks_Some [OF assms(3)] by blast
  have "gives sinv (valid (qconstraints q) z) (Solver_mustBeTrue S (withExpr z q) s)"
    using mustBeTrue_gives [OF assms(1,4) asks_bool_query [OF z(2) assms(2)]] by simp
  then show ?thesis by (intro gives_building [OF z(1)]) (simp add: asks_valid [OF z(2)] feasible_all [where P = P])
qed

lemma may_gives:
  assumes "always_answers A S sinv" "query_ok A q" "asks A x (\<lambda>\<sigma>. P (eval (qexpr q) \<sigma>))" "sinv s"
  shows "gives sinv (\<exists>v. feasible q v \<and> P v) (building x (\<lambda>z. Solver_mayBeTrue S (withExpr z q)) s)"
proof -
  obtain z where z: "x = Some z" "asks A (Some z) (\<lambda>\<sigma>. P (eval (qexpr q) \<sigma>))" using asks_Some [OF assms(3)] by blast
  have "gives sinv (\<not> invalid (qconstraints q) z) (Solver_mayBeTrue S (withExpr z q) s)"
    using mayBeTrue_gives [OF assms(1,4) asks_bool_query [OF z(2) assms(2)]] by simp
  then show ?thesis by (intro gives_building [OF z(1)]) (simp add: asks_invalid [OF z(2)] feasible_ex [where P = P, symmetric])
qed

lemma bits_search:
  assumes "always_answers A S sinv" "query_ok A q" "sinv s"
  shows "\<exists>k s'. bsearch (\<lambda>mid. building (no_bits_from (qexpr q) mid) (\<lambda>x. Solver_mustBeTrue S (withExpr x q))) 0
      (getWidth (qexpr q)) s = Some (k, s') \<and> sinv s' \<and> k \<le> getWidth (qexpr q) \<and> (\<forall>x. feasible q x \<longrightarrow> x < 2 ^ k)"
proof -
  let ?e = "qexpr q" let ?P = "\<lambda>m. \<forall>x. feasible q x \<longrightarrow> x < 2 ^ m"
  let ?ask = "\<lambda>mid. building (no_bits_from ?e mid) (\<lambda>x. Solver_mustBeTrue S (withExpr x q))"
  have "gives sinv (?P m) (?ask m s)" if "m < getWidth ?e" "sinv s" for m s
    by (rule must_gives [OF assms(1,2) no_bits_from_asks [OF query_okD(1) [OF assms(2)] that(1)] that(2)])
  moreover have "?P j" if "?P i" "i \<le> j" for i j
    using that(1) less_le_trans [OF _ power_increasing [OF that(2), of "2 :: int"]] by auto
  moreover have "?P (getWidth ?e)" using query_okD(1) [OF assms(2)] feasible_in_width [of A q] by (auto simp: in_width_def)
  ultimately obtain k s' where k: "bsearch ?ask 0 (getWidth ?e) s = Some (k, s')" "sinv s'" "k \<le> getWidth ?e" "k < getWidth ?e \<longrightarrow> ?P k" "?P (getWidth ?e)"
    using bsearch_least [of 0 "getWidth ?e" sinv ?P ?ask s] assms(3) by auto
  then have "?P k" by (cases "k = getWidth ?e") auto
  then show ?thesis using k by blast
qed

lemma min_search:
  assumes "always_answers A S sinv" "query_ok A q" "sinv s" "t < 2 ^ getWidth (qexpr q)" "\<And>x. feasible q x \<Longrightarrow> x \<le> int t"
  shows "\<exists>k s'. bsearch (\<lambda>mid. building (at_most (qexpr q) mid) (\<lambda>x. Solver_mayBeTrue S (withExpr x q))) 0 t s = Some (k, s') \<and>
      sinv s' \<and> feasible q (int k) \<and> (\<forall>x. feasible q x \<longrightarrow> int k \<le> x)"
proof -
  let ?e = "qexpr q" let ?P = "\<lambda>m. \<exists>x. feasible q x \<and> x \<le> int m"
  let ?ask = "\<lambda>mid. building (at_most ?e mid) (\<lambda>x. Solver_mayBeTrue S (withExpr x q))"
  have nn: "0 \<le> x" if "feasible q x" for x
    using feasible_in_width [OF query_okD(1) [OF assms(2)] that] by (simp add: in_width_def)
  have "gives sinv (?P m) (?ask m s)" if "0 \<le> m" "m < t" "sinv s" for m s
    by (rule may_gives [OF assms(1,2) at_most_asks [OF query_okD(1) [OF assms(2)]] that(3)]) (use assms(4) that(2) in simp)
  moreover have "?P j" if "?P i" "i \<le> j" for i j using that by fastforce
  ultimately obtain k s' where k: "bsearch ?ask 0 t s = Some (k, s')" "sinv s'" "k \<le> t" "\<forall>i. 0 \<le> i \<and> i < k \<longrightarrow> \<not> ?P i" "k < t \<longrightarrow> ?P k"
    using bsearch_least [of 0 t sinv ?P ?ask s] assms(3) by auto
  obtain y where y: "feasible q y" using query_okD(2) [OF assms(2)] by (auto simp: satisfiable_def feasible_def)
  have low: "int k \<le> x" if "feasible q x" for x
  proof (rule ccontr)
    assume "\<not> int k \<le> x"
    then have "nat x < k" "?P (nat x)" using nn [OF that] that by auto
    then show False using k(4) by auto
  qed
  have "?P k" using k(3,5) y assms(5) [OF y] by (cases "k = t") auto
  then show ?thesis using k(1,2) low by (metis order_antisym)
qed

lemma max_search:
  assumes "always_answers A S sinv" "query_ok A q" "sinv s" "t < 2 ^ getWidth (qexpr q)" "\<And>x. feasible q x \<Longrightarrow> x \<le> int t"
    and "feasible q (int mn)" "\<And>x. feasible q x \<Longrightarrow> int mn \<le> x"
  shows "\<exists>k s'. bsearch (\<lambda>mid. building (at_most (qexpr q) mid) (\<lambda>x. Solver_mustBeTrue S (withExpr x q))) mn t s = Some (k, s') \<and>
      sinv s' \<and> feasible q (int k) \<and> (\<forall>x. feasible q x \<longrightarrow> x \<le> int k)"
proof -
  let ?e = "qexpr q" let ?P = "\<lambda>m. \<forall>x. feasible q x \<longrightarrow> x \<le> int m"
  let ?ask = "\<lambda>mid. building (at_most ?e mid) (\<lambda>x. Solver_mustBeTrue S (withExpr x q))"
  have "gives sinv (?P m) (?ask m s)" if "mn \<le> m" "m < t" "sinv s" for m s
    by (rule must_gives [OF assms(1,2) at_most_asks [OF query_okD(1) [OF assms(2)]] that(3)]) (use assms(4) that(2) in simp)
  moreover have "?P j" if "?P i" "i \<le> j" for i j using that by fastforce
  moreover have "mn \<le> t" using assms(5) [OF assms(6)] by simp
  ultimately obtain k s' where k: "bsearch ?ask mn t s = Some (k, s')" "sinv s'" "mn \<le> k" "k \<le> t"
    "\<forall>i. mn \<le> i \<and> i < k \<longrightarrow> \<not> ?P i" "k < t \<longrightarrow> ?P k"
    using bsearch_least [of mn t sinv ?P ?ask s] assms(3) by auto
  have top: "?P k" using k(4,6) assms(5) by (cases "k = t") auto
  have "feasible q (int k)"
  proof (cases "k = mn")
    case False
    then obtain x where "feasible q x" "int (k - 1) < x" using k(3) k(5) [rule_format, of "k - 1"] by force
    moreover from this have "x = int k" using top False k(3) by force
    ultimately show ?thesis by simp
  qed (simp add: assms(6))
  then show ?thesis using k(1,2) top by blast
qed

lemma range_bounds_exact:
  assumes "always_answers A S sinv" "query_ok A q" "sinv s" "getWidth (qexpr q) \<le> 64"
  shows "\<exists>mn mx s'. range_bounds S q s = Some ((mn, mx), s') \<and> sinv s' \<and> feasible q (int mn) \<and> feasible q (int mx) \<and>
    (\<forall>x. feasible q x \<longrightarrow> int mn \<le> x \<and> x \<le> int mx)"
proof -
  let ?e = "qexpr q"
  obtain k s1 where k: "bsearch (\<lambda>mid. building (no_bits_from ?e mid) (\<lambda>x. Solver_mustBeTrue S (withExpr x q))) 0
      (getWidth ?e) s = Some (k, s1)" "sinv s1" "k \<le> getWidth ?e" "\<And>x. feasible q x \<Longrightarrow> x < 2 ^ k"
    using bits_search [OF assms(1-3)] by blast
  obtain t where t: "bits64_maxValueOfNBits k = Some t" "unat t = 2 ^ k - 1" using maxValue64 [of k] k(3) assms(4) by auto
  have "(2 :: nat) ^ k \<le> 2 ^ getWidth ?e" using k(3) by simp
  then have tw: "unat t < 2 ^ getWidth ?e" using t(2) less_le_trans [of "2 ^ k - 1" "2 ^ k :: nat"] by simp
  have up: "x \<le> int (unat t)" if "feasible q x" for x using k(4) [OF that] t(2) by (simp add: of_nat_diff)
  have nn: "0 \<le> x" if "feasible q x" for x
    using feasible_in_width [OF query_okD(1) [OF assms(2)] that] by (simp add: in_width_def)
  obtain s2 where z: "building (is_null ?e) (\<lambda>x. Solver_mayBeTrue S (withExpr x q)) s1 = Some (Some (\<exists>v. feasible q v \<and> v = 0), s2)" "sinv s2"
    using may_gives [OF assms(1,2) is_null_asks [OF query_okD(1) [OF assms(2)]] k(2)] by (auto simp: gives_def)
  obtain mn s3 where mn: "(if \<exists>v. feasible q v \<and> v = 0 then Some (0, s2)
       else bsearch (\<lambda>mid. building (at_most ?e mid) (\<lambda>x. Solver_mayBeTrue S (withExpr x q))) 0 (unat t) s2) = Some (mn, s3)"
      "sinv s3" "feasible q (int mn)" "\<And>x. feasible q x \<Longrightarrow> int mn \<le> x"
    using min_search [OF assms(1,2) z(2) tw up] z(2) nn by (cases "\<exists>v. feasible q v \<and> v = 0") force+
  obtain mx s4 where mx: "bsearch (\<lambda>mid. building (at_most ?e mid) (\<lambda>x. Solver_mustBeTrue S (withExpr x q))) mn (unat t) s3 = Some (mx, s4)"
      "sinv s4" "feasible q (int mx)" "\<And>x. feasible q x \<Longrightarrow> x \<le> int mx"
    using max_search [OF assms(1,2) mn(2) tw up mn(3,4)] by blast
  have "range_bounds S q s = Some ((mn, mx), s4)"
    using k(1) z(1) t(1) mn(1) mx(1) by (simp add: range_bounds_def)
  then show ?thesis using mn mx by blast
qed

lemma getRange_gives:
  assumes "always_answers A S sinv" "query_ok A q" "sinv s" "getWidth (qexpr q) \<le> 64"
  shows "\<exists>l h s'. Solver_getRange S q s = Some ((l, h), s') \<and> sinv s' \<and>
    bitWidth l = getWidth (qexpr q) \<and> bitWidth h = getWidth (qexpr q) \<and> feasible q (apval l) \<and> feasible q (apval h) \<and>
    (\<forall>x. feasible q x \<longrightarrow> apval l \<le> x \<and> x \<le> apval h)"
proof -
  have ex: "\<exists>x. feasible q x" using query_okD(2) [OF assms(2)] by (auto simp: satisfiable_def feasible_def)
  note width = feasible_in_width [OF query_okD(1) [OF assms(2)]]
  have fin: ?thesis if r: "Solver_getRange S q s = do { l \<leftarrow> ConstantExpr_create (int mn) (getWidth (qexpr q));
          h \<leftarrow> ConstantExpr_create (int mx) (getWidth (qexpr q)); Some ((l, h), s') }" "sinv s'"
      "feasible q (int mn)" "feasible q (int mx)" "\<And>x. feasible q x \<Longrightarrow> int mn \<le> x \<and> x \<le> int mx" for mn mx s'
  proof -
    have "0 < getWidth (qexpr q)" using query_okD(1) [OF assms(2)] wf_width_pos by simp
    moreover have "mn < 2 ^ getWidth (qexpr q)" "mx < 2 ^ getWidth (qexpr q)"
      using width [OF r(3)] width [OF r(4)] by (simp_all add: in_width_def flip: of_nat_less_iff)
    ultimately show ?thesis using r by (simp add: ConstantExpr_create_nat)
  qed
  show ?thesis
  proof (cases "getWidth (qexpr q) = 1")
    case True
    then have b: "bool_query A q" using assms(2) by (simp add: bool_query_def)
    then obtain s' where e: "Solver_evaluate S q s = Some (Some (true_validity q), s')" "sinv s'"
      using evaluate_gives [OF assms(1,3)] by (auto simp: gives_def)
    have bit: "x = 0 \<or> x = 1" if "feasible q x" for x using width [OF that] True by (auto simp: in_width_def)
    then have bound: "0 \<le> x \<and> x \<le> 1" if "feasible q x" for x using that by fastforce
    have tv: "true_validity q = (if \<not> feasible q 0 then ValidityTrue else if \<not> feasible q 1 then ValidityFalse else ValidityUnknown)"
      using bit ex by (auto simp: true_validity_def valid_def invalid_def feasible_def)
    show ?thesis
      by (rule fin [of "of_bool (\<not> feasible q 0)" "of_bool (feasible q 1)" s'])
         (use e tv bit bound ex True in \<open>auto simp: Solver_getRange_def\<close>)
  next
    case False
    show ?thesis
    proof (cases "isConstantExpr (qexpr q)")
      case True
      then obtain c where ConstantExpr: "qexpr q = ConstantExpr c" by (cases "qexpr q") auto
      have c: "x = apval c" if "feasible q x" for x using that ConstantExpr by (auto simp: feasible_def)
      have v: "feasible q (apval c)" using ex c by metis
      then have nn: "0 \<le> apval c" using width by (simp add: in_width_def)
      have r: "Solver_getRange S q s = do { l \<leftarrow> ConstantExpr_create (int (nat (apval c))) (getWidth (qexpr q));
          h \<leftarrow> ConstantExpr_create (int (nat (apval c))) (getWidth (qexpr q)); Some ((l, h), s) }"
        using False assms(4) ConstantExpr by (simp add: Solver_getRange_def)
      have only: "int (nat (apval c)) \<le> x \<and> x \<le> int (nat (apval c))" if "feasible q x" for x using c [OF that] nn by simp
      have "feasible q (int (nat (apval c)))" using v nn by simp
      from fin [OF r assms(3) this this only] show ?thesis .
    next
      case nonconst: False
      obtain mn mx s' where r: "range_bounds S q s = Some ((mn, mx), s')" "sinv s'" "feasible q (int mn)" "feasible q (int mx)"
        "\<And>x. feasible q x \<Longrightarrow> int mn \<le> x \<and> x \<le> int mx"
        using range_bounds_exact [OF assms] by blast
      show ?thesis
        by (rule fin [OF _ r(2-5)]) (use False nonconst r(1) in \<open>cases "qexpr q"; simp add: Solver_getRange_def\<close>)
    qed
  qed
qed

end

subsection \<open>The property\<close>

text \<open>
  C13. For a solver that keeps its contract and answers, \<open>Solver::getRange\<close> returns, for every
  expression of at most 64 bits under satisfiable constraints, exactly the least and the greatest
  value that the expression takes: both are taken and every value taken lies between them.
\<close>

theorem getRange_exact:
  assumes "solver_contract may_fail A S sinv" "always_answers A S sinv" "query_ok A q" "sinv s" "getWidth (qexpr q) \<le> 64"
  shows "\<exists>l h s'. Solver_getRange S q s = Some ((l, h), s') \<and> sinv s' \<and>
    bitWidth l = getWidth (qexpr q) \<and> bitWidth h = getWidth (qexpr q) \<and> feasible q (apval l) \<and> feasible q (apval h) \<and>
    (\<forall>x. feasible q x \<longrightarrow> apval l \<le> x \<and> x \<le> apval h)"
  by (rule solver_contract.getRange_gives [OF assms(1,2,3,4,5)])

text \<open>The solver that gives the answers the contract asks for about truth and validity, and no values.\<close>

definition ideal_solver :: "unit solver_impl" where
  "ideal_solver = \<lparr>computeTruth = \<lambda>q. returns (valid (qconstraints q) (qexpr q)),
     computeValidity = \<lambda>q. returns (true_validity q), computeValue = \<lambda>q. fails, computeInitialValues = \<lambda>q objects. fails\<rparr>"

lemma ideal_contract: "solver_contract True A ideal_solver (\<lambda>_. True)"
  by unfold_locales (simp_all add: ideal_solver_def)

lemma ideal_answers: "always_answers A ideal_solver (\<lambda>_. True)"
  by (simp add: always_answers_def ideal_solver_def returns_def)

definition byte_query :: query where
  "byte_query = \<lparr>qconstraints = [], qexpr = sample_read 0\<rparr>"

lemma byte_query_ok: "query_ok UNIV byte_query" "getWidth (qexpr byte_query) = 8" "feasible byte_query 0" "feasible byte_query 255"
proof -
  have c: "contents (\<lambda>a ix. if a = sample_array then k else 0)" if "0 \<le> k" "k < 256" for k
    using that by (auto simp: contents_def env_ok_def in_width_def isConstantArray_def isSymbolicArray_def sample_array_def)
  then have f: "feasible byte_query k" if "0 \<le> k" "k < 256" for k
    using that by (auto simp: feasible_def byte_query_def initial_def isConstantArray_def isSymbolicArray_def sample_read_def sample_array_def intro!: exI [of _ "\<lambda>a ix. if a = sample_array then k else 0"])
  show "feasible byte_query 0" "feasible byte_query 255" by (simp_all add: f)
  show "getWidth (qexpr byte_query) = 8" by (simp add: byte_query_def sample_read_def sample_array_def)
  show "query_ok UNIV byte_query"
    using c [of 0] by (auto simp: query_ok_def byte_query_def askable_def satisfiable_def sample_read_def sample_array_def wf_array_def isSymbolicArray_def wf_apint_def in_width_def)
qed

theorem getRange_exact_witness:
  "\<exists>s'. Solver_getRange ideal_solver byte_query () = Some ((APInt 8 0, APInt 8 255), s')"
proof -
  obtain l h s' where r: "Solver_getRange ideal_solver byte_query () = Some ((l, h), s')" "bitWidth l = 8" "bitWidth h = 8"
    "feasible byte_query (apval l)" "feasible byte_query (apval h)" "\<And>x. feasible byte_query x \<Longrightarrow> apval l \<le> x \<and> x \<le> apval h"
    using getRange_exact [OF ideal_contract ideal_answers byte_query_ok(1), of "()"] byte_query_ok(2) by auto
  have "in_width 8 (apval l)" "in_width 8 (apval h)"
    using r(4,5) feasible_in_width [of UNIV byte_query] query_okD(1) [OF byte_query_ok(1)] byte_query_ok(2) by auto
  then have "apval l = 0" "apval h = 255" using r(6) byte_query_ok(3,4) by (force simp: in_width_def)+
  then show ?thesis using r(1-3) by (cases l; cases h) simp
qed

end
