(* ===== verification/Complete_Solver.thy ===== *)
theory Complete_Solver
  imports Cex_Caching_Solver Solver_Range
begin

text \<open>
  A solver that keeps the contract \<open>solver_contract\<close> and never fails, for arrays of bytes: it decides the
  validity of a query, and chooses a value of the expression and a counterexample. It shows that the
  contract can be met, and is the core solver at which the properties are applied.
\<close>

text \<open>A value depends on the array contents only up to the width of the indices.\<close>

lemma eval_index_width:
  assumes "env_ok \<sigma>" "\<And>a i. i < 2 ^ arrDomain a \<Longrightarrow> \<sigma> a i = \<tau> a i"
  shows "wf_expr e \<Longrightarrow> eval e \<sigma> = eval e \<tau>"
    and "wf_ulist us a \<Longrightarrow> ulookup us \<sigma> ix = ulookup us \<tau> ix"
proof (induction e and us arbitrary: and a ix rule: expr.induct ulist.induct)
  case (ReadExpr a us i)
  then have i: "in_width (arrDomain a) (eval i \<sigma>)" using eval_in_width [OF assms(1), of i] by simp
  then have "nat (eval i \<sigma>) < 2 ^ arrDomain a" by (simp add: in_width_def nat_less_iff)
  then have "initial \<sigma> a (eval i \<sigma>) = initial \<tau> a (eval i \<sigma>)" using assms(2) by (simp add: initial_def)
  moreover have "ulookup us \<sigma> (eval i \<sigma>) = ulookup us \<tau> (eval i \<sigma>)" "eval i \<sigma> = eval i \<tau>" using ReadExpr by auto
  ultimately show ?case by (simp split: option.split)
next
  case (UpdateNode us i v)
  then show ?case by auto
qed simp_all

definition dump :: "env \<Rightarrow> array \<Rightarrow> 8 word list" where
  "dump \<sigma> a = map (\<lambda>i. word_of_int (\<sigma> a i)) [0..<2 ^ arrDomain a]"

lemma counterexample_values:
  assumes "bool_query A q" "distinct objects" "set objects \<subseteq> A" "determined_by q (set objects)"
    and "\<forall>a \<in> A. arrRange a = 8" "\<not> valid (qconstraints q) (qexpr q)"
  shows "\<exists>vals. refutes q objects vals"
proof -
  obtain \<sigma> where \<sigma>: "contents \<sigma>" "holds (qconstraints q) \<sigma>" "eval (qexpr q) \<sigma> \<noteq> 1" using assms(6) by (auto simp: valid_def)
  define \<rho> where "\<rho> = (\<lambda>a i. if a \<in> set objects then \<sigma> a i else 0)"
  let ?\<tau> = "assignment_env \<lparr>allowFreeValues = False, bindings = map_of (zip objects (map (dump \<sigma>) objects))\<rparr>"
  have \<rho>: "contents \<rho>" "\<forall>a \<in> set objects. \<sigma> a = \<rho> a" using \<sigma>(1) by (auto simp: \<rho>_def contents_def env_ok_def fun_eq_iff)
  then have h: "holds (qconstraints q) \<rho>" "eval (qexpr q) \<rho> = eval (qexpr q) \<sigma>"
    using assms(4) [unfolded determined_by_def, rule_format, of \<sigma> \<rho>] \<sigma>(1,2) by simp_all
  have same: "\<rho> a i = ?\<tau> a i" if "i < 2 ^ arrDomain a" for a i
  proof (cases "a \<in> set objects")
    case True
    then have "in_width 8 (\<sigma> a i)" "arrRange a = 8" using \<sigma>(1) assms(3,5) by (auto simp: contents_def env_ok_def) (metis subsetD)
    then show ?thesis
      using True that by (simp add: \<rho>_def assignment_env_def map_of_zip_map dump_def unsigned_of_int take_bit_in_width in_width_def)
  qed (simp add: \<rho>_def assignment_env_def map_of_zip_map)
  have "eval e \<rho> = eval e ?\<tau>" if "e = qexpr q \<or> e \<in> set (qconstraints q)" for e
    by (rule eval_index_width(1)) (use \<rho>(1) same assms(1) that in \<open>auto simp: contents_def bool_query_def query_ok_def\<close>)
  then have "holds (qconstraints q) ?\<tau>" "eval (qexpr q) ?\<tau> = eval (qexpr q) \<sigma>" using h by (auto simp: holds_def)
  moreover have "eval (qexpr q) \<sigma> = 0"
    using \<sigma>(1,3) bool_value [of "qexpr q" \<sigma>] assms(1) by (auto simp: bool_query_def query_ok_def)
  moreover have "Assignment_bind Map.empty objects (map (dump \<sigma>) objects) = Some (map_of (zip objects (map (dump \<sigma>) objects)))"
    using Assignment_bind_zip [OF assms(2), of "map (dump \<sigma>) objects" Map.empty] by simp
  ultimately show ?thesis by (intro exI [of _ "map (dump \<sigma>) objects"]) (simp add: refutes_def Let_def)
qed

definition complete_solver :: "unit solver_impl" where
  "complete_solver = \<lparr>computeTruth = \<lambda>q. returns (valid (qconstraints q) (qexpr q)),
     computeValidity = \<lambda>q. returns (true_validity q),
     computeValue = \<lambda>q. returns (ConstantExpr (APInt (getWidth (qexpr q)) (SOME x. feasible q x))),
     computeInitialValues = \<lambda>q objects. returns (if valid (qconstraints q) (qexpr q) then None else Some (SOME vals. refutes q objects vals))\<rparr>"

lemma chosen_value:
  assumes "query_ok A q"
  shows "feasible q (SOME x. feasible q x) \<and> wf_apint (APInt (getWidth (qexpr q)) (SOME x. feasible q x))"
proof -
  have "\<exists>x. feasible q x" using query_okD(2) [OF assms] by (auto simp: satisfiable_def feasible_def)
  then have "feasible q (SOME x. feasible q x)" by (rule someI_ex)
  then show ?thesis
    using feasible_in_width [OF query_okD(1) [OF assms]] wf_width_pos [of "qexpr q"] query_okD(1) [OF assms] by (simp add: wf_apint_def)
qed

interpretation complete: solver_contract False "{a \<in> A. arrRange a = 8}" complete_solver "\<lambda>_. True" for A
proof
  fix s :: unit and q objects
  assume q: "bool_query {a \<in> A. arrRange a = 8} q" "distinct objects" "set objects \<subseteq> {a \<in> A. arrRange a = 8}" "determined_by q (set objects)"
  have "refutes q objects (SOME vals. refutes q objects vals)" if "\<not> valid (qconstraints q) (qexpr q)"
    by (rule someI_ex, rule counterexample_values [OF q _ that]) simp
  then show "answers False (\<lambda>_. True) (good_init q objects) (computeInitialValues complete_solver q objects s)"
    by (simp add: complete_solver_def good_init_def)
qed (use chosen_value in \<open>simp_all add: complete_solver_def\<close>)

lemma complete_contract: "solver_contract False {sample_array} complete_solver (\<lambda>_. True)"
proof -
  have "{a \<in> {sample_array}. arrRange a = 8} = {sample_array}" by (auto simp: sample_array_def)
  then show ?thesis using complete.solver_contract_axioms [of "{sample_array}"] by (simp only:)
qed

lemma complete_answers: "always_answers A complete_solver (\<lambda>_. True)"
  by (simp add: always_answers_def complete_solver_def returns_def)

end
