(* ===== verification/Solver_Chain.thy ===== *)
theory Solver_Chain
  imports Complete_Solver
begin

text \<open>
  The layers of solvers that \<open>constructSolverChain\<close> puts on the core solver
  (\<^verbatim>\<open>klee/lib/Basic/ConstructSolverChain.cpp\<close>), the solver that fails
  (\<^verbatim>\<open>klee/lib/Solver/DummySolver.cpp\<close>) and the one that checks assignments
  (\<^verbatim>\<open>klee/lib/Solver/AssignmentValidatingSolver.cpp\<close>).
\<close>

subsection \<open>The solver that fails\<close>

definition DummySolverImpl :: "'s solver_impl" where
  "DummySolverImpl = \<lparr>computeTruth = \<lambda>q. fails, computeValidity = \<lambda>q. fails, computeValue = \<lambda>q. fails,
     computeInitialValues = \<lambda>q objects. fails\<rparr>"

interpretation dummy: solver_contract True A DummySolverImpl "\<lambda>_. True" for A
  by unfold_locales (simp_all add: DummySolverImpl_def)

subsection \<open>The solver that checks assignments\<close>

text \<open>
  \<open>hasSolution\<close> is read also where the solver below failed and left it unset; the model takes it as
  false there. Each check ends in \<open>abort\<close> if it fails.
\<close>

fun constraints_hold :: "assignment \<Rightarrow> expr list \<Rightarrow> bool option" where
  "constraints_hold a [] = Some True"
| "constraints_hold a (constraint # cs) =
     do { constraintEvaluated \<leftarrow> Assignment_evaluate a constraint;
          case constraintEvaluated of
            ConstantExpr CE \<Rightarrow> if ConstantExpr_isFalse CE then None else constraints_hold a cs
          | _ \<Rightarrow> None }"

definition validate_assignment :: "query \<Rightarrow> array list \<Rightarrow> 8 word list list \<Rightarrow> ('s, init_values) call" where
  "validate_assignment q objects vals s =
     do { a \<leftarrow> Assignment_new objects vals True;
          constraints_hold a (qconstraints q);
          queryExprEvaluated \<leftarrow> Assignment_evaluate a (qexpr q);
          case queryExprEvaluated of
            ConstantExpr CE \<Rightarrow> if ConstantExpr_isTrue CE then None else returns (Some vals) s
          | _ \<Rightarrow> None }"

definition AssignmentValidatingSolver_computeInitialValues ::
  "'s solver_impl \<Rightarrow> query \<Rightarrow> array list \<Rightarrow> ('s, init_values) call" where
  "AssignmentValidatingSolver_computeInitialValues S q objects =
     andthen (computeInitialValues S q objects) (\<lambda>r. case r of None \<Rightarrow> returns None | Some vals \<Rightarrow> validate_assignment q objects vals)"

definition AssignmentValidatingSolver :: "'s solver_impl \<Rightarrow> 's solver_impl" where
  "AssignmentValidatingSolver S = \<lparr>computeTruth = computeTruth S, computeValidity = computeValidity S, computeValue = computeValue S,
     computeInitialValues = AssignmentValidatingSolver_computeInitialValues S\<rparr>"

subsection \<open>The layers\<close>









text \<open>An expression that evaluates to a constant with free values has that value.\<close>

lemma partial_constant:
  assumes "allowFreeValues a" "wf_expr e" "no_zero_div e" "short_index e" "Assignment_evaluate a e = Some (ConstantExpr c)"
  shows "bitWidth c = getWidth e" "wf_apint c" "env_ok \<sigma> \<Longrightarrow> agrees a \<sigma> \<Longrightarrow> defined e \<sigma> \<Longrightarrow> eval e \<sigma> = apval c"
proof -
  have "a\<lparr>allowFreeValues := True\<rparr> = a" using assms(1) by simp
  with partial.evisit_builds(1) [OF assms(2-4), of a] assms(5)
  show "bitWidth c = getWidth e" "wf_apint c" "env_ok \<sigma> \<Longrightarrow> agrees a \<sigma> \<Longrightarrow> defined e \<sigma> \<Longrightarrow> eval e \<sigma> = apval c"
    by (auto simp: builds_if_def Assignment_evaluate_def)
qed

lemma constraints_hold_sound:
  assumes "constraints_hold a cs = Some r" "allowFreeValues a" "\<forall>e \<in> set cs. wf_expr e \<and> no_zero_div e \<and> short_index e \<and> getWidth e = 1"
    and "env_ok \<sigma>" "agrees a \<sigma>" "\<forall>e \<in> set cs. defined e \<sigma>"
  shows "holds cs \<sigma>"
  using assms(1,3,6)
proof (induction cs)
  case (Cons e cs)
  obtain c where c: "Assignment_evaluate a e = Some (ConstantExpr c)" "\<not> ConstantExpr_isFalse c" "constraints_hold a cs = Some r"
    using Cons.prems(1) by (auto split: Option.bind_splits expr.splits if_splits)
  have "bitWidth c = 1" "wf_apint c" "eval e \<sigma> = apval c"
    using partial_constant [OF assms(2) _ _ _ c(1)] Cons.prems(2,3) assms(4,5) by auto
  then have "eval e \<sigma> = 1" using c(2) by (auto simp: ConstantExpr_isFalse_def wf_apint_def in_width_def)
  then show ?case using Cons c(3) by simp
qed simp

subsection \<open>Properties\<close>




definition seven_query :: query where
  "seven_query = \<lparr>qconstraints = [sample_lt 0 8], qexpr = BinaryExpr Eq (ConstantExpr (APInt 8 7)) (sample_read 0)\<rparr>"




text \<open>
  C39. Whatever the solver below answers, the assignments that \<open>AssignmentValidatingSolver\<close> lets through
  are right: where \<open>computeInitialValues\<close> returns values, every content of the arrays that has those
  values makes all constraints true and the expression false; otherwise the program stops.
\<close>

theorem validated_assignment_refutes:
  assumes "computeInitialValues (AssignmentValidatingSolver S) q objects s = Some (Some (Some vals), s')"
    and "\<forall>e \<in> insert (qexpr q) (set (qconstraints q)). wf_expr e \<and> no_zero_div e \<and> short_index e \<and> getWidth e = 1"
  shows "\<exists>m. Assignment_bind Map.empty objects vals = Some m \<and>
    (\<forall>\<sigma>. env_ok \<sigma> \<and> agrees \<lparr>allowFreeValues = True, bindings = m\<rparr> \<sigma> \<and>
       (\<forall>e \<in> insert (qexpr q) (set (qconstraints q)). defined e \<sigma>) \<longrightarrow>
       holds (qconstraints q) \<sigma> \<and> eval (qexpr q) \<sigma> = 0)"
proof -
  have "validate_assignment q objects vals t = Some (Some (Some vals), s')" if "validate_assignment q objects v t = Some (Some (Some vals), s')" for v t
    using that by (auto simp: validate_assignment_def returns_def split: Option.bind_splits expr.splits if_splits)
  moreover obtain v t where "validate_assignment q objects v t = Some (Some (Some vals), s')"
    using assms(1) by (auto simp: AssignmentValidatingSolver_def AssignmentValidatingSolver_computeInitialValues_def andthen_def returns_def
        split: option.splits)
  ultimately obtain t where "validate_assignment q objects vals t = Some (Some (Some vals), s')" by blast
  then obtain m r c where m: "Assignment_bind Map.empty objects vals = Some m"
      "constraints_hold \<lparr>allowFreeValues = True, bindings = m\<rparr> (qconstraints q) = Some r"
      "Assignment_evaluate \<lparr>allowFreeValues = True, bindings = m\<rparr> (qexpr q) = Some (ConstantExpr c)" "\<not> ConstantExpr_isTrue c"
    by (auto simp: validate_assignment_def Assignment_new_def split: Option.bind_splits expr.splits if_splits)
  have "holds (qconstraints q) \<sigma> \<and> eval (qexpr q) \<sigma> = 0"
    if h: "env_ok \<sigma>" "agrees \<lparr>allowFreeValues = True, bindings = m\<rparr> \<sigma>" "\<forall>e \<in> insert (qexpr q) (set (qconstraints q)). defined e \<sigma>" for \<sigma>
  proof -
    have "bitWidth c = 1" "wf_apint c" "eval (qexpr q) \<sigma> = apval c"
      using partial_constant [OF _ _ _ _ m(3)] assms(2) h by auto
    then show ?thesis
      using constraints_hold_sound [OF m(2) _ _ h(1,2)] assms(2) h(3) m(4) by (auto simp: ConstantExpr_isTrue_def wf_apint_def in_width_def)
  qed
  then show ?thesis using m(1) by blast
qed

definition seven_solver :: "unit solver_impl" where
  "seven_solver = DummySolverImpl\<lparr>computeInitialValues := \<lambda>q objects. returns (Some [[6, 2, 0, 9]])\<rparr>"

theorem validated_assignment_refutes_witness:
  "computeInitialValues (AssignmentValidatingSolver seven_solver) seven_query [sample_array] () = Some (Some (Some [[6, 2, 0, 9]]), ()) \<and>
   (\<exists>m. Assignment_bind Map.empty [sample_array] [[6, 2, 0, 9]] = Some m \<and>
     (\<forall>\<sigma>. env_ok \<sigma> \<and> agrees \<lparr>allowFreeValues = True, bindings = m\<rparr> \<sigma> \<longrightarrow> eval (qexpr seven_query) \<sigma> = 0))"
proof -
  have run: "computeInitialValues (AssignmentValidatingSolver seven_solver) seven_query [sample_array] () = Some (Some (Some [[6, 2, 0, 9]]), ())"
    by code_simp
  have "\<forall>e \<in> insert (qexpr seven_query) (set (qconstraints seven_query)).
      wf_expr e \<and> no_zero_div e \<and> short_index e \<and> getWidth e = 1 \<and> (\<forall>\<sigma>. defined e \<sigma>)"
    by (auto simp: seven_query_def sample_lt_def wf_apint_def in_width_def div_ok_def isDivision_def)
  with validated_assignment_refutes [OF run] run show ?thesis by auto
qed

end
