(* ===== verification/Tree_Iteration.thy ===== *)
theory Tree_Iteration
  imports Immutable_Tree
begin

text \<open>
  Iterators of the immutable tree that run backwards (\<^verbatim>\<open>klee/include/klee/Internal/ADT/ImmutableTree.h\<close>):
  the loop \<open>while (it != begin) { --it; ... }\<close> sees every value before its start, the nearest first.
\<close>

text \<open>
  The loop with the values it sees; it is given as many steps as it may take, and without enough of
  them there is no result. Iterators are equal if their stacks are.
\<close>

fun iterate_back :: "'v node \<Rightarrow> nat \<Rightarrow> 'v node list \<Rightarrow> 'v list option" where
  "iterate_back root n st =
     (if st = tree_begin root then Some []
      else case n of
          0 \<Rightarrow> None
        | Suc n' \<Rightarrow> (let st' = iter_prev root st in map_option (Cons (val (hd st'))) (iterate_back root n' st')))"

declare iterate_back.simps [simp del]

text \<open>A position cuts the values of the tree in two.\<close>

lemma path_cut:
  "is_path root st \<Longrightarrow> st = n # st' \<Longrightarrow> ordered kov root \<Longrightarrow> below n st' @ inorder n @ above n st' = inorder root"
proof (induction root st arbitrary: n st' rule: is_path.induct)
  case (3 root n' m st)
  have m: "ordered kov m" "m \<noteq> Terminator" using path_ordered [of root "m # st" kov m] 3 by auto
  have "inorder m = inorder (left m) @ val m # inorder (right m)" using m(2) by (cases m) auto
  moreover have "left m \<noteq> right m" if "n' \<noteq> Terminator" "n' = left m \<or> n' = right m"
    using ordered_children(3) [OF m(1)] that by auto
  moreover have "below m st @ inorder m @ above m st = inorder root" using 3(1) [of m st] 3(2,4) path_tail [OF 3(2)] by simp
  ultimately show ?case using 3(2-4) by auto
qed auto

lemma passed_upcoming:
  assumes "is_path root st" "ordered kov root"
  shows "passed root st @ upcoming st = inorder root"
proof (cases st)
  case (Cons n st')
  then have "n \<noteq> Terminator" using path_ordered [OF assms, of n] by simp
  then have "inorder n = inorder (left n) @ val n # inorder (right n)" by (cases n) auto
  then show ?thesis using path_cut [OF assms(1) Cons assms(2)] Cons by simp
qed simp

text \<open>The position before which there is nothing is \<open>begin\<close>.\<close>

lemma push_left_path:
  assumes "is_path root (n # st)" "below n st = []" "ordered kov root"
  shows "push_left n st = tree_begin root"
  using assms
proof (induction st arbitrary: n)
  case Nil
  then show ?case by (simp add: tree_begin_def)
next
  case (Cons m st)
  have m: "is_path root (m # st)" "n = left m" "m \<noteq> Terminator" "below m st = []"
    using Cons.prems path_ordered [of root "n # m # st" kov m] by (auto split: if_splits)
  then show ?case using Cons.IH [OF m(1,4) Cons.prems(3)] by (cases m) auto
qed

lemma passed_nil:
  assumes "is_path root st" "ordered kov root" "passed root st = []"
  shows "st = tree_begin root"
proof (cases st)
  case Nil
  then show ?thesis using assms(3) by (cases root) (auto simp: tree_begin_def)
next
  case (Cons n st')
  then have "n \<noteq> Terminator" "left n = Terminator" "below n st' = []"
    using path_ordered [OF assms(1,2), of n] assms(3) by (auto, cases "left n", auto)
  then show ?thesis using push_left_path [of root n st' kov] assms(1,2) Cons by (cases n) auto
qed

lemma iterate_back_passed:
  assumes "ordered kov root" "is_path root st" "length (passed root st) \<le> n"
  shows "iterate_back root n st = Some (rev (passed root st))"
  using assms(2,3)
proof (induction n arbitrary: st)
  case 0
  then show ?case using passed_nil [OF _ assms(1), of st] by (simp add: iterate_back.simps [of root 0])
next
  case (Suc n)
  have b: "passed root (tree_begin root) = []"
    using passed_upcoming [OF begin_spec(2) assms(1)] begin_spec(1) [of root] by simp
  show ?case
  proof (cases "st = tree_begin root")
    case False
    then have p: "iter_prev root st \<noteq> []" "is_path root (iter_prev root st)"
      "passed root st = passed root (iter_prev root st) @ [val (hd (iter_prev root st))]"
      using iter_prev_spec [OF Suc.prems(1) assms(1)] passed_nil [OF Suc.prems(1) assms(1)] by auto
    then have "iterate_back root n (iter_prev root st) = Some (rev (passed root (iter_prev root st)))"
      using Suc.IH [OF p(2)] Suc.prems(2) by simp
    then show ?thesis using False p(3) by (simp add: iterate_back.simps [of root "Suc n"] Let_def)
  qed (simp add: iterate_back.simps [of root "Suc n"] b)
qed

lemma upper_bound_both_ways:
  assumes "ordered kov t"
  shows "Option.bind (upper_bound kov k t) (iterate (node_size t)) = Some (filter (\<lambda>x. k < kov x) (inorder t))"
    "Option.bind (upper_bound kov k t) (iterate_back t (node_size t)) = Some (rev (filter (\<lambda>x. kov x \<le> k) (inorder t)))"
proof -
  note s = assms [unfolded ordered_def]
  obtain u where u: "upper_bound kov k t = Some u" "is_path t u" "upcoming u = filter (\<lambda>x. k < kov x) (inorder t)"
    using upper_bound_spec [OF assms, of k] unfolding sorted_dropWhile_filter [OF s, THEN conjunct2] by blast
  have "passed t u @ upcoming u = takeWhile (\<lambda>x. kov x \<le> k) (inorder t) @ dropWhile (\<lambda>x. kov x \<le> k) (inorder t)"
    using passed_upcoming [OF u(2) assms] by simp
  then have "passed t u = takeWhile (\<lambda>x. kov x \<le> k) (inorder t)"
    using u(3) sorted_dropWhile_filter [OF s, of k] by simp
  moreover have "takeWhile (\<lambda>x. kov x \<le> k) xs = filter (\<lambda>x. kov x \<le> k) xs"
    if "sorted_wrt (\<lambda>x y. kov x < kov y) xs" for xs
    using that
  proof (induction xs)
    case (Cons x xs)
    have "filter (\<lambda>y. kov y \<le> k) xs = []" if "\<not> kov x \<le> k" using Cons.prems that by (auto simp: filter_empty_conv)
    then show ?case using Cons by auto
  qed simp
  ultimately have p: "passed t u = filter (\<lambda>x. kov x \<le> k) (inorder t)" using s by simp
  show "Option.bind (upper_bound kov k t) (iterate (node_size t)) = Some (filter (\<lambda>x. k < kov x) (inorder t))"
    using iterate_upcoming [OF assms u(2), of "node_size t"] u by (simp add: size_inorder)
  show "Option.bind (upper_bound kov k t) (iterate_back t (node_size t)) = Some (rev (filter (\<lambda>x. kov x \<le> k) (inorder t)))"
    using iterate_back_passed [OF assms u(2), of "node_size t"] u(1) p by (simp add: size_inorder)
qed

end
