(* ===== verification/Expr_Weight.thy ===== *)
theory Expr_Weight
  imports Expr_NoDiv
begin

text \<open>
  A weight that no constructor increases: what a \<open>create\<close> method returns weighs at most as much as the
  plain node over the same kids, although it may have more nodes (an extraction is pushed through a
  concatenation, a negated disjunction becomes a conjunction). A constant weighs nothing and every other
  node more than its kids, so replacing a part by a constant and rebuilding makes an expression lighter.
  The rewriting of constraints and the simplification of expressions end by this weight.
\<close>

fun kind_weight :: "bkind \<Rightarrow> nat" where
  "kind_weight Add = 1" | "kind_weight Sub = 1" | "kind_weight Mul = 1" | "kind_weight And = 1"
| "kind_weight Xor = 1" | "kind_weight Eq = 1" | "kind_weight Or = 3" | "kind_weight _ = 4"

primrec weight :: "expr \<Rightarrow> nat" and weight_u :: "ulist \<Rightarrow> nat" where
  "weight (ConstantExpr _) = 0"
| "weight (NotOptimizedExpr e) = 1 + weight e"
| "weight (ReadExpr a us i) = 1 + weight_u us + weight i"
| "weight (SelectExpr c t f) = 4 + weight c + weight t + weight f"
| "weight (ConcatExpr l r) = 1 + weight l + weight r"
| "weight (ExtractExpr e _ _) = 1 + 2 * weight e"
| "weight (ZExtExpr e _) = 1 + 2 * weight e"
| "weight (SExtExpr e _) = 1 + 2 * weight e"
| "weight (NotExpr e) = 1 + weight e"
| "weight (BinaryExpr k l r) = kind_weight k + weight l + weight r"
| "weight_u NoUpdates = 0"
| "weight_u (UpdateNode n i v) = weight_u n + weight i + weight v"

lemma kind_weight_pos [simp]: "0 < kind_weight k"
  by (cases k) simp_all

lemma weight_pos: "\<not> isConstantExpr e \<Longrightarrow> 0 < weight e"
  by (cases e) simp_all

lemma kid_weight: "k \<in> set (kids e) \<Longrightarrow> weight k < weight e"
  by (cases e) auto

definition wt_le :: "expr option \<Rightarrow> nat \<Rightarrow> bool" where
  "wt_le r n \<longleftrightarrow> (\<forall>x. r = Some x \<longrightarrow> weight x \<le> n)"

lemma wt_simps [simp]: "wt_le None n" "wt_le (Some x) n \<longleftrightarrow> weight x \<le> n" "wt_le (map_option ConstantExpr c) n"
  by (auto simp: wt_le_def)

lemma wt_mono: "wt_le r n \<Longrightarrow> n \<le> m \<Longrightarrow> wt_le r m"
  by (auto simp: wt_le_def)

lemma wt_bind: "wt_le a n \<Longrightarrow> (\<And>x. a = Some x \<Longrightarrow> weight x \<le> n \<Longrightarrow> wt_le (f x) m) \<Longrightarrow> wt_le (Option.bind a f) m"
  by (cases a) (auto simp: wt_le_def)

lemma wt_bind_const: "(\<And>x. wt_le (f x) m) \<Longrightarrow> wt_le (Option.bind (a :: apint option) f) m"
  by (cases a) auto

lemma BCREATE_R_wt:
  assumes "\<And>c. r = ConstantExpr c \<Longrightarrow> \<not> isConstantExpr l \<Longrightarrow> wt_le (pl l c) n"
    and "\<And>c. l = ConstantExpr c \<Longrightarrow> \<not> isConstantExpr r \<Longrightarrow> wt_le (pr c r) n"
    and "\<not> isConstantExpr l \<Longrightarrow> \<not> isConstantExpr r \<Longrightarrow> wt_le (cre l r) n"
  shows "wt_le (BCREATE_R k pl pr cre l r) n"
proof -
  have "weight x \<le> n" if "BCREATE_R k pl pr cre l r = Some x" for x
    using that by (cases rule: BCREATE_R_cases) (use assms in \<open>auto simp: wt_le_def\<close>)
  then show ?thesis by (simp add: wt_le_def)
qed

lemma BCREATE_wt: "wt_le (cre l r) n \<Longrightarrow> wt_le (BCREATE k cre l r) n"
  unfolding BCREATE_def by (cases l; cases r; auto)

subsection \<open>Booleans\<close>

lemma And_wt: "wt_le (And_create l r) (1 + weight l + weight r)"
  unfolding And_create_def
  by (rule BCREATE_R_wt) (auto simp: AndExpr_createPartial_def AndExpr_createPartialR_def AndExpr_create_def)

lemma Or_wt: "wt_le (Or_create l r) (3 + weight l + weight r)"
  unfolding Or_create_def
  by (rule BCREATE_R_wt) (auto simp: OrExpr_createPartial_def OrExpr_createPartialR_def OrExpr_create_def)

lemma EqExpr_create_wt: "wt_le (EqExpr_create l r) (1 + weight l + weight r)"
  by (simp add: EqExpr_create_def)

lemma Eq_create_const_wt:
  assumes "\<And>c. wt_le (EqExpr_createPartialR c e) (1 + weight e)"
  shows "wt_le (Eq_create e (ConstantExpr z)) (1 + weight e)"
  unfolding Eq_create.simps [of e]
  by (rule BCREATE_R_wt) (use assms in \<open>auto simp: EqExpr_createPartial.simps\<close>)

lemma EqExpr_createPartialR_wt: "wt_le (EqExpr_createPartialR cl r) (1 + weight r)"
proof (induction r arbitrary: cl rule: measure_induct_rule [of esize])
  case (less r)
  have eq: "wt_le (EqExpr_create (ConstantExpr cl) r) (1 + weight r)" using EqExpr_create_wt [of "ConstantExpr cl" r] by simp
  have IH: "wt_le (Eq_create x (ConstantExpr z)) (1 + weight x)" if "esize x < esize r" for x z
    by (rule Eq_create_const_wt) (use less.IH that in blast)
  show ?case
  proof (cases r)
    case (SExtExpr src w)
    have "wt_le (Eq_create src (ConstantExpr z)) (1 + weight r)" for z
      by (rule wt_mono [OF IH]) (simp_all add: SExtExpr)
    then show ?thesis using eq SExtExpr by (simp add: EqExpr_createPartialR.simps [of cl] Let_def)
  next
    case (ZExtExpr src w)
    have "wt_le (Eq_create src (ConstantExpr z)) (1 + weight r)" for z
      by (rule wt_mono [OF IH]) (simp_all add: ZExtExpr)
    then show ?thesis using eq ZExtExpr by (simp add: EqExpr_createPartialR.simps [of cl] Let_def)
  next
    case (BinaryExpr k a b)
    have z: "wt_le (createIsZero a) (1 + weight a)" "wt_le (createIsZero b) (1 + weight b)"
      unfolding createIsZero.simps [of a] createIsZero.simps [of b]
      by (rule wt_bind_const, rule IH, simp add: BinaryExpr)+
    have ab: "wt_le (do { x \<leftarrow> createIsZero a; y \<leftarrow> createIsZero b; And_create x y }) (3 + weight a + weight b)"
      by (rule wt_bind [OF z(1)], rule wt_bind [OF z(2)], rule wt_mono [OF And_wt]) simp
    have d: "wt_le (Option.bind s (\<lambda>d. EqExpr_createPartialR d b)) (1 + weight b)" for s
      by (rule wt_bind_const) (use BinaryExpr less.IH in simp)
    have ab': "wt_le (do { x \<leftarrow> createIsZero a; y \<leftarrow> createIsZero b; And_create x y }) (1 + weight (BinaryExpr Or a b))"
      by (rule wt_mono [OF ab]) simp
    have d': "wt_le (Option.bind s (\<lambda>d. EqExpr_createPartialR d b)) (1 + weight (BinaryExpr k a b))" for s
      by (rule wt_mono [OF d]) simp
    show ?thesis
      unfolding EqExpr_createPartialR.simps [of cl] BinaryExpr
      by (cases k; cases a; insert eq [unfolded BinaryExpr] ab' d'; simp)
  qed (use eq in \<open>simp_all add: EqExpr_createPartialR.simps [of cl] ConstArrayOpt_def\<close>)
qed

lemma Eq_wt: "wt_le (Eq_create l r) (1 + weight l + weight r)"
  unfolding Eq_create.simps [of l]
  by (rule BCREATE_R_wt)
     (use EqExpr_createPartialR_wt EqExpr_create_wt in \<open>auto simp: EqExpr_createPartial.simps\<close>)

lemma isZero_wt: "wt_le (createIsZero e) (1 + weight e)"
  unfolding createIsZero.simps [of e] by (rule wt_bind_const, rule wt_mono [OF Eq_wt]) simp

lemma Xor_wt: "wt_le (XorExpr_createPartialR c r) (1 + weight r)" "wt_le (Xor_create l r) (1 + weight l + weight r)"
proof -
  have x: "wt_le (XorExpr_createPartialR c e) (1 + weight e)" for c e
    using EqExpr_createPartialR_wt [of _ e]
    by (auto simp: XorExpr_createPartialR_def EqExpr_createPartial.simps intro!: wt_bind_const)
  show "wt_le (XorExpr_createPartialR c r) (1 + weight r)" by (rule x)
  show "wt_le (Xor_create l r) (1 + weight l + weight r)"
    unfolding Xor_create_def
    by (rule BCREATE_R_wt) (use x in \<open>auto simp: XorExpr_createPartial_def XorExpr_create_def\<close>)
qed

lemma Mul_wt: "wt_le (Mul_create l r) (1 + weight l + weight r)"
  unfolding Mul_create_def
  by (rule BCREATE_R_wt) (auto simp: MulExpr_createPartial_def MulExpr_createPartialR_def
        MulExpr_create_def AndExpr_createPartialR_def AndExpr_createPartial_def)

subsection \<open>Sums and differences\<close>

text \<open>Two calls in a row, where the second may weigh one more than what the first returned.\<close>

lemma wt_move:
  assumes "wt_le y (1 + m)" "\<And>x. y = Some x \<Longrightarrow> wt_le (f x) (1 + weight x)" "2 + m \<le> n"
  shows "wt_le (Option.bind y f) n"
  by (rule wt_bind [OF assms(1)], rule wt_mono [OF assms(2)]) (use assms(3) in simp_all)

lemma constants_linear:
  "Add_create (ConstantExpr a) (ConstantExpr b) = Some y \<Longrightarrow> weight y = 0"
  "Sub_create (ConstantExpr a) (ConstantExpr b) = Some y \<Longrightarrow> weight y = 0"
  by (auto simp: Add_create.simps [of "ConstantExpr a"] Sub_create.simps [of "ConstantExpr a"] BCREATE_R_def split: if_splits)

lemma wt_fold:
  assumes "\<And>y. a = Some y \<Longrightarrow> weight y = 0" "\<And>y. a = Some y \<Longrightarrow> wt_le (f y) (1 + weight y + weight c)" "2 + weight c \<le> n"
  shows "wt_le (Option.bind a f) n"
proof (cases a)
  case (Some y)
  then show ?thesis using assms(1) [OF Some] wt_mono [OF assms(2) [OF Some], of n] assms(3) by simp
qed simp

lemma lin_group_wt:
  shows "wt_le (Add_create l1 r1) (1 + weight l1 + weight r1)"
    and "wt_le (Sub_create l2 r2) (1 + weight l2 + weight r2)"
    and "wt_le (AddExpr_createPartial l3 c3) (1 + weight l3)"
    and "wt_le (AddExpr_createPartialR c4 r4) (1 + weight r4)"
    and "wt_le (AddExpr_create l5 r5) (1 + weight l5 + weight r5)"
    and "wt_le (SubExpr_createPartial l6 c6) (1 + weight l6)"
    and "wt_le (SubExpr_createPartialR c7 r7) (1 + weight r7)"
    and "wt_le (SubExpr_create l8 r8) (1 + weight l8 + weight r8)"
proof (induction l1 r1 and l2 r2 and l3 c3 and c4 r4 and l5 r5 and l6 c6 and c7 r7 and l8 r8
    rule: Add_create_Sub_create_AddExpr_createPartial_AddExpr_createPartialR_AddExpr_create_SubExpr_createPartial_SubExpr_createPartialR_SubExpr_create.induct)
  case (1 l r)
  have "wt_le (BCREATE_R Add AddExpr_createPartial AddExpr_createPartialR AddExpr_create l r) (1 + weight l + weight r)"
  proof (cases "getWidth l = getWidth r")
    case True
    show ?thesis by (rule BCREATE_R_wt) (use "1.IH" True in auto)
  qed (simp add: BCREATE_R_def)
  then show ?case by (simp add: Add_create.simps [of l r])
next
  case (2 l r)
  have "wt_le (BCREATE_R Sub SubExpr_createPartial SubExpr_createPartialR SubExpr_create l r) (1 + weight l + weight r)"
  proof (cases "getWidth l = getWidth r")
    case True
    show ?thesis by (rule BCREATE_R_wt) (use "2.IH" True in auto)
  qed (simp add: BCREATE_R_def)
  then show ?case by (simp add: Sub_create.simps [of l r])
next
  case (3 l cr)
  then show ?case by (simp add: AddExpr_createPartial.simps)
next
  case (4 cl r)
  note step = AddExpr_createPartialR.simps [of cl r]
  consider (bool) "bitWidth cl = 1"
    | (zero) "bitWidth cl \<noteq> 1" "ConstantExpr_isZero cl"
    | (addc) k c where "bitWidth cl \<noteq> 1" "\<not> ConstantExpr_isZero cl" "const_left Add r = Some (k, c)"
    | (subc) k c where "bitWidth cl \<noteq> 1" "\<not> ConstantExpr_isZero cl" "const_left Add r = None" "const_left Sub r = Some (k, c)"
    | (other) "bitWidth cl \<noteq> 1" "\<not> ConstantExpr_isZero cl" "const_left Add r = None" "const_left Sub r = None"
    by (cases "const_left Add r"; cases "const_left Sub r") fastforce+
  then show ?case
  proof cases
    case addc
    then have "AddExpr_createPartialR cl r = do { y \<leftarrow> Add_create (ConstantExpr cl) (ConstantExpr k); Add_create y c }"
      unfolding step by (simp del: const_left_eq_Some)
    moreover have "wt_le \<dots> (1 + weight r)"
      by (rule wt_fold [OF constants_linear(1) "4.IH"(4) [OF addc refl]]) (use addc in auto)
    ultimately show ?thesis by simp
  next
    case subc
    then have "AddExpr_createPartialR cl r = do { y \<leftarrow> Add_create (ConstantExpr cl) (ConstantExpr k); Sub_create y c }"
      unfolding step by (simp del: const_left_eq_Some)
    moreover have "wt_le \<dots> (1 + weight r)"
      by (rule wt_fold [OF constants_linear(1) "4.IH"(2) [OF subc refl]]) (use subc in auto)
    ultimately show ?thesis by simp
  qed (use Xor_wt(1) [of cl r] in \<open>simp_all add: step\<close>)
next
  case (5 l r)
  note step = AddExpr_create.simps [of l r]
  show ?case
  proof (cases "getWidth l = 1")
    case True
    then show ?thesis by (simp add: step XorExpr_create_def)
  next
    case False
    then have w: "getWidth l \<noteq> 1" by auto
    show ?thesis
    proof (cases rule: const_sides [where l = l and r = r])
      case (addl k a)
      with w have "AddExpr_create l r = do { y \<leftarrow> Add_create a r; Add_create (ConstantExpr k) y }"
        unfolding step by (simp del: const_left_eq_Some)
      moreover have "wt_le \<dots> (1 + weight l + weight r)"
        by (rule wt_move [where m = "weight a + weight r"]) (use "5.IH"(7,8) [OF w addl refl] addl in auto)
      ultimately show ?thesis by simp
    next
      case (subl k a)
      with w have "AddExpr_create l r = do { y \<leftarrow> Sub_create r a; Add_create (ConstantExpr k) y }"
        unfolding step by (simp del: const_left_eq_Some)
      moreover have "wt_le \<dots> (1 + weight l + weight r)"
        by (rule wt_move [where m = "weight r + weight a"]) (use "5.IH"(5,6) [OF w subl refl] subl in auto)
      ultimately show ?thesis by simp
    next
      case (addr k b)
      with w have "AddExpr_create l r = do { y \<leftarrow> Add_create l b; Add_create (ConstantExpr k) y }"
        unfolding step by (simp del: const_left_eq_Some)
      moreover have "wt_le \<dots> (1 + weight l + weight r)"
        by (rule wt_move [where m = "weight l + weight b"]) (use "5.IH"(3,4) [OF w addr refl] addr in auto)
      ultimately show ?thesis by simp
    next
      case (subr k b)
      with w have "AddExpr_create l r = do { y \<leftarrow> Sub_create l b; Add_create (ConstantExpr k) y }"
        unfolding step by (simp del: const_left_eq_Some)
      moreover have "wt_le \<dots> (1 + weight l + weight r)"
        by (rule wt_move [where m = "weight l + weight b"]) (use "5.IH"(1,2) [OF w subr refl] subr in auto)
      ultimately show ?thesis by simp
    next
      case none
      then show ?thesis using w by (simp add: step)
    qed
  qed
next
  case (6 l cr)
  then show ?case by (simp add: SubExpr_createPartial.simps)
next
  case (7 cl r)
  note step = SubExpr_createPartialR.simps [of cl r]
  consider (bool) "bitWidth cl = 1"
    | (addc) k c where "bitWidth cl \<noteq> 1" "const_left Add r = Some (k, c)"
    | (subc) k c where "bitWidth cl \<noteq> 1" "const_left Add r = None" "const_left Sub r = Some (k, c)"
    | (other) "bitWidth cl \<noteq> 1" "const_left Add r = None" "const_left Sub r = None"
    by (cases "const_left Add r"; cases "const_left Sub r") fastforce+
  then show ?case
  proof cases
    case addc
    then have "SubExpr_createPartialR cl r = do { y \<leftarrow> Sub_create (ConstantExpr cl) (ConstantExpr k); Sub_create y c }"
      unfolding step by (simp del: const_left_eq_Some)
    moreover have "wt_le \<dots> (1 + weight r)"
      by (rule wt_fold [OF constants_linear(2) "7.IH"(4) [OF addc refl]]) (use addc in auto)
    ultimately show ?thesis by simp
  next
    case subc
    then have "SubExpr_createPartialR cl r = do { y \<leftarrow> Sub_create (ConstantExpr cl) (ConstantExpr k); Add_create y c }"
      unfolding step by (simp del: const_left_eq_Some)
    moreover have "wt_le \<dots> (1 + weight r)"
      by (rule wt_fold [OF constants_linear(2) "7.IH"(2) [OF subc refl]]) (use subc in auto)
    ultimately show ?thesis by simp
  qed (use Xor_wt(1) [of cl r] in \<open>simp_all add: step\<close>)
next
  case (8 l r)
  note step = SubExpr_create.simps [of l r]
  show ?case
  proof (cases "getWidth l = 1 \<or> l = r")
    case True
    then show ?thesis by (auto simp: step XorExpr_create_def)
  next
    case False
    then have w: "getWidth l \<noteq> 1" "l \<noteq> r" by auto
    show ?thesis
    proof (cases rule: const_sides [where l = l and r = r])
      case (addl k a)
      with w have "SubExpr_create l r = do { y \<leftarrow> Sub_create a r; Add_create (ConstantExpr k) y }"
        unfolding step by (simp del: const_left_eq_Some)
      moreover have "wt_le \<dots> (1 + weight l + weight r)"
        by (rule wt_move [where m = "weight a + weight r"]) (use "8.IH"(7,8) [OF w addl refl] addl in auto)
      ultimately show ?thesis by simp
    next
      case (subl k a)
      with w have "SubExpr_create l r = do { y \<leftarrow> Add_create a r; Sub_create (ConstantExpr k) y }"
        unfolding step by (simp del: const_left_eq_Some)
      moreover have "wt_le \<dots> (1 + weight l + weight r)"
        by (rule wt_move [where m = "weight a + weight r"]) (use "8.IH"(5,6) [OF w subl refl] subl in auto)
      ultimately show ?thesis by simp
    next
      case (addr k b)
      with w have "SubExpr_create l r = do { y \<leftarrow> Sub_create l b; Sub_create y (ConstantExpr k) }"
        unfolding step by (simp del: const_left_eq_Some)
      moreover have "wt_le \<dots> (1 + weight l + weight r)"
        by (rule wt_move [where m = "weight l + weight b"]) (use "8.IH"(3,4) [OF w addr refl] addr in auto)
      ultimately show ?thesis by simp
    next
      case (subr k b)
      with w have "SubExpr_create l r = do { y \<leftarrow> Add_create l b; Sub_create y (ConstantExpr k) }"
        unfolding step by (simp del: const_left_eq_Some)
      moreover have "wt_le \<dots> (1 + weight l + weight r)"
        by (rule wt_move [where m = "weight l + weight b"]) (use "8.IH"(1,2) [OF w subr refl] subr in auto)
      ultimately show ?thesis by simp
    next
      case none
      then show ?thesis using w by (simp add: step)
    qed
  qed
qed

subsection \<open>The other constructors\<close>

lemma Concat_Extract_wt:
  shows "wt_le (Concat_create l r) (1 + weight l + weight r)"
    and "wt_le (Extract_create e off w) (1 + 2 * weight e)"
proof (induction l r and e off w rule: Concat_create_Extract_create.induct)
  case (1 l r)
  show ?case
  proof (cases "\<exists>e ol wl oo wr. l = ExtractExpr e ol wl \<and> r = ExtractExpr e oo wr \<and> oo + wr = ol")
    case True
    then obtain e ol wl oo wr where x: "l = ExtractExpr e ol wl" "r = ExtractExpr e oo wr" "oo + wr = ol" by blast
    have "wt_le (Extract_create e oo (getWidth l + getWidth r)) (1 + 2 * weight e)"
      by (rule "1.IH") (use x in auto)
    then have "wt_le (Extract_create e oo (getWidth l + getWidth r)) (1 + weight l + weight r)"
      by (rule wt_mono) (simp add: x)
    with x show ?thesis by (simp add: Concat_create.simps)
  next
    case False
    then have "Concat_create l r \<in> {Some (ConcatExpr l r), Some (ConstantExpr (ConstantExpr_Concat (the_const l) (the_const r)))}"
      by (auto simp: Concat_create.simps [of l r] split: expr.split)
    then show ?thesis by auto
  qed
next
  case (2 e off w)
  show ?case
  proof (cases "e")
    case (ConcatExpr l r)
    consider (no) "\<not> (w > 0 \<and> off + w \<le> getWidth e) \<or> w = getWidth e"
      | (L) "w > 0 \<and> off + w \<le> getWidth e" "w \<noteq> getWidth e" "off \<ge> getWidth r"
      | (R) "w > 0 \<and> off + w \<le> getWidth e" "w \<noteq> getWidth e" "\<not> off \<ge> getWidth r" "off + w \<le> getWidth r"
      | (B) "w > 0 \<and> off + w \<le> getWidth e" "w \<noteq> getWidth e" "\<not> off \<ge> getWidth r" "\<not> off + w \<le> getWidth r"
      by blast
    then show ?thesis
    proof cases
      case no
      then show ?thesis by (auto simp: Extract_create.simps [of e off w])
    next
      case L
      then have "Extract_create e off w = Extract_create l (off - getWidth r) w"
        by (simp add: Extract_create.simps [of "ConcatExpr l r" off w] ConcatExpr)
      moreover have "wt_le \<dots> (1 + 2 * weight e)"
        by (rule wt_mono [OF "2.IH"(1) [OF _ L(2) ConcatExpr L(3)]]) (use L ConcatExpr in auto)
      ultimately show ?thesis by simp
    next
      case R
      then have "Extract_create e off w = Extract_create r off w"
        by (simp add: Extract_create.simps [of "ConcatExpr l r" off w] ConcatExpr)
      moreover have "wt_le \<dots> (1 + 2 * weight e)"
        by (rule wt_mono [OF "2.IH"(2) [OF _ R(2) ConcatExpr R(3,4)]]) (use R ConcatExpr in auto)
      ultimately show ?thesis by simp
    next
      case B
      have g: "\<not> \<not> (w > 0 \<and> off + w \<le> getWidth e)" using B(1) by simp
      note IH = "2.IH"(3-5) [OF g B(2) ConcatExpr B(3,4)]
      have "Extract_create e off w = do { a \<leftarrow> Extract_create l 0 (w + off - getWidth r);
          b \<leftarrow> Extract_create r off (getWidth r - off); Concat_create a b }"
        using B by (simp add: Extract_create.simps [of "ConcatExpr l r" off w] ConcatExpr)
      moreover have "wt_le \<dots> (1 + 2 * weight e)"
        by (rule wt_bind [OF IH(1)], rule wt_bind [OF IH(2)], assumption, rule wt_mono [OF IH(3)]) (auto simp: ConcatExpr)
      ultimately show ?thesis by simp
    qed
  qed (simp_all add: Extract_create.simps)
qed

lemma casts_wt: "wt_le (ZExt_create e w) (1 + 2 * weight e)" "wt_le (SExt_create e w) (1 + 2 * weight e)"
  "wt_le (Not_create e) (1 + weight e)" "wt_le (NotOptimized_create e) (1 + weight e)"
  using Concat_Extract_wt(2) [of e 0 w]
  by (cases e; simp add: ZExt_create_def SExt_create_def Not_create_def NotOptimized_create_def)+

lemma zero_then_wt:
  "wt_le (do { z \<leftarrow> createIsZero c; And_create z x }) (2 + weight c + weight x)"
  "wt_le (do { z \<leftarrow> createIsZero c; And_create x z }) (2 + weight c + weight x)"
  "wt_le (do { z \<leftarrow> createIsZero c; Or_create z x }) (4 + weight c + weight x)"
  "wt_le (do { z \<leftarrow> createIsZero c; Or_create x z }) (4 + weight c + weight x)"
  by (rule wt_bind [OF isZero_wt], rule wt_mono [OF And_wt] wt_mono [OF Or_wt], simp)+

lemma Select_wt: "wt_le (Select_create c t f) (4 + weight c + weight t + weight f)"
proof -
  let ?n = "4 + weight c + weight t + weight f"
  have z: "wt_le (do { z \<leftarrow> createIsZero c; And_create z f }) ?n" "wt_le (do { z \<leftarrow> createIsZero c; Or_create z t }) ?n"
    "wt_le (Or_create c f) ?n" "wt_le (And_create c t) ?n"
    by (rule wt_mono [OF zero_then_wt(1)] wt_mono [OF zero_then_wt(3)] wt_mono [OF Or_wt] wt_mono [OF And_wt], simp)+
  have g: "wt_le (case f of ConstantExpr CE \<Rightarrow> if ConstantExpr_isTrue CE then do { z \<leftarrow> createIsZero c; Or_create z t }
      else And_create c t | _ \<Rightarrow> Some (SelectExpr c t f)) ?n"
    using z by (cases "isConstantExpr f") (auto simp: isConstantExpr_iff case_not_constant)
  have "wt_le (case t of ConstantExpr CE \<Rightarrow> if ConstantExpr_isTrue CE then Or_create c f
      else do { z \<leftarrow> createIsZero c; And_create z f } | _ \<Rightarrow> g) ?n" if "wt_le g ?n" for g
    using z that by (cases "isConstantExpr t") (auto simp: isConstantExpr_iff case_not_constant)
  from this [OF g] show ?thesis
    unfolding Select_create_def by (cases "isConstantExpr c") (auto simp: isConstantExpr_iff case_not_constant)
qed

lemma Read_wt: "wt_le (Read_create a us i) (1 + weight_u us + weight i)"
proof -
  have "weight v \<le> weight_u us" if "Read_rollback us i = Some (Inl v)" for v
    using that
  proof (induction us i rule: Read_rollback.induct)
    case (2 n ui uv index)
    then obtain cond where "Eq_create index ui = Some cond" by (auto simp: bind_eq_Some_conv)
    with 2 show ?case by (cases cond) (auto split: if_splits)
  qed simp
  then have "weight v \<le> 1 + weight_u us + weight i" if "Read_rollback us i = Some (Inl v)" for v using that by fastforce
  then show ?thesis
    unfolding Read_create_def by (cases "Read_rollback us i") (auto split: sum.split expr.split)
qed

lemma Binary_wt: "wt_le (Binary_create k l r) (weight (BinaryExpr k l r))"
proof -
  have sh: "wt_le (ShlExpr_create x y) (4 + weight x + weight y)" "wt_le (LShrExpr_create x y) (4 + weight x + weight y)"
    "wt_le (AShrExpr_create x y) (4 + weight x + weight y)" "wt_le (UltExpr_create x y) (4 + weight x + weight y)"
    "wt_le (UleExpr_create x y) (4 + weight x + weight y)" "wt_le (SltExpr_create x y) (4 + weight x + weight y)"
    "wt_le (SleExpr_create x y) (4 + weight x + weight y)" for x y
    using wt_mono [OF zero_then_wt(1) [of x y], of "4 + weight x + weight y"] wt_mono [OF zero_then_wt(2) [of y x], of "4 + weight x + weight y"]
      zero_then_wt(3) [of x y] wt_mono [OF zero_then_wt(4) [of y x], of "4 + weight x + weight y"]
    by (simp_all add: ShlExpr_create_def LShrExpr_create_def AShrExpr_create_def UltExpr_create_def
        UleExpr_create_def SltExpr_create_def SleExpr_create_def)
  have dv: "wt_le (UDivExpr_create l r) (4 + weight l + weight r)" "wt_le (SDivExpr_create l r) (4 + weight l + weight r)"
    "wt_le (URemExpr_create l r) (4 + weight l + weight r)" "wt_le (SRemExpr_create l r) (4 + weight l + weight r)"
    by (simp_all add: UDivExpr_create_def SDivExpr_create_def URemExpr_create_def SRemExpr_create_def)
  have ne: "wt_le (Ne_create l r) (4 + weight l + weight r)"
    unfolding Ne_create_def by (rule wt_bind_const, rule wt_bind [OF Eq_wt], rule wt_mono [OF Eq_wt]) simp
  note swapped = wt_mono [OF sh(4) [of r l], of "4 + weight l + weight r"] wt_mono [OF sh(5) [of r l], of "4 + weight l + weight r"]
    wt_mono [OF sh(6) [of r l], of "4 + weight l + weight r"] wt_mono [OF sh(7) [of r l], of "4 + weight l + weight r"]
  show ?thesis
    using lin_group_wt(1) [of l r] lin_group_wt(2) [of l r] Mul_wt [of l r] And_wt [of l r] Or_wt [of l r] Xor_wt(2) [of l r] Eq_wt [of l r]
      ne sh [of l r] dv swapped
    by (cases k) (simp_all add: Shl_create_def LShr_create_def AShr_create_def Ult_create_def
        Ule_create_def Slt_create_def Sle_create_def Ugt_create_def Uge_create_def Sgt_create_def Sge_create_def
        UDiv_create_def SDiv_create_def URem_create_def SRem_create_def BCREATE_wt)
qed

subsection \<open>Rebuilding\<close>

lemma rebuild_wt:
  assumes "rebuild e ks = Some x" "with_kids e ks = Some n"
  shows "weight x \<le> weight n"
proof -
  have "wt_le (rebuild e ks) (weight n)"
    using assms(2) casts_wt Select_wt Read_wt Binary_wt Concat_Extract_wt
    by (cases "(e, ks)" rule: rebuild.cases) auto
  then show ?thesis using assms(1) by (simp add: wt_le_def)
qed

text \<open>An expression and what became of it: the same, or lighter.\<close>

definition lighter :: "expr \<Rightarrow> expr \<Rightarrow> bool" where
  "lighter e x \<longleftrightarrow> x = e \<or> weight x < weight e"

lemma lighter_refl [simp]: "lighter e e" and lighter_le: "lighter e x \<Longrightarrow> weight x \<le> weight e"
  by (auto simp: lighter_def)

lemma lighter_trans: "lighter e x \<Longrightarrow> lighter x y \<Longrightarrow> lighter e y"
  by (auto simp: lighter_def)

lemma with_kids_lighter:
  assumes "list_all2 lighter (kids e) ks" "ks \<noteq> kids e" "with_kids e ks = Some n"
  shows "weight n < weight e"
proof -
  have le: "list_all2 (\<lambda>k x. weight x \<le> weight k) (kids e) ks" using assms(1) by (rule list_all2_mono) (rule lighter_le)
  have "\<exists>i < length ks. weight (ks ! i) < weight (kids e ! i)"
    using assms(1,2) by (auto simp: list_all2_conv_all_nth lighter_def list_eq_iff_nth_eq)
  then show ?thesis using le assms(3)
    by (cases "(e, ks)" rule: with_kids.cases) (auto simp: less_Suc_eq nth_Cons' split: if_splits)
qed

lemma rebuild_lighter:
  assumes "list_all2 lighter (kids e) ks" "ks \<noteq> kids e" "with_kids e ks = Some n" "rebuild e ks = Some x"
  shows "weight x < weight e"
  using rebuild_wt [OF assms(4,3)] with_kids_lighter [OF assms(1-3)] by simp

end
