(* ===== verification/Simplify_Expr.thy ===== *)
theory Simplify_Expr
  imports Constraint_Visitors Solver_Front Expr_Weight
begin

text \<open>
  \<open>ConstraintManager::simplifyExpr\<close> (\<^verbatim>\<open>klee/lib/Expr/Constraints.cpp\<close>): the replacement of expressions
  that the constraints make constant, by a recursive visitor (\<^verbatim>\<open>klee/lib/Expr/ExprVisitor.cpp\<close>), which
  visits an expression it rebuilt again. Such a traversal need not end, so it is a partial function:
  \<open>None\<close> is an assertion failure or an endless traversal. What it returns has the value of its
  argument wherever the constraints hold. For well-formed expressions and constraints without division
  and \<open>NotOptimized\<close> nodes it returns, since every rebuilt expression is lighter than the one it replaces.
\<close>

subsection \<open>Recursive visitors\<close>

definition post_visit :: "visitor \<Rightarrow> expr \<Rightarrow> expr" where
  "post_visit v e = (if isConstantExpr e then e else (case vPost v e of ChangeTo a \<Rightarrow> a | _ \<Rightarrow> e))"

text \<open>The traversal is monotone in the calls it makes, so that its recursive equation has a least solution.\<close>

lemma visit_kids_monotone [partial_function_mono]:
  assumes "\<And>k m. mono_option (\<lambda>f. F f k m)"
  shows "mono_option (\<lambda>f. visit_kids (F f) ks m)"
proof (induction ks arbitrary: m)
  case (Cons k ks)
  show ?case unfolding visit_kids.simps by (intro bind_mono assms Cons.IH option.const_mono)
qed (simp add: option.const_mono)

partial_function (option) visit_recursive :: "visitor \<Rightarrow> expr \<Rightarrow> visited \<Rightarrow> (expr \<times> visited) option" where
  "visit_recursive v e m =
     (if isConstantExpr e then Some (e, m)
      else (case m e of
          Some r \<Rightarrow> Some (r, m)
        | None \<Rightarrow>
            Option.bind
              (case vExpr v e of
                 SkipChildren \<Rightarrow> Some (e, m)
               | ChangeTo a \<Rightarrow> Some (a, m)
               | DoChildren \<Rightarrow>
                   Option.bind (vKind v e) (\<lambda>res.
                     (case res of
                        SkipChildren \<Rightarrow> Some (e, m)
                      | ChangeTo a \<Rightarrow> Some (a, m)
                      | DoChildren \<Rightarrow>
                          Option.bind (visit_kids (visit_recursive v) (kids e) m) (\<lambda>q.
                            Option.bind
                              (if fst q \<noteq> kids e
                               then Option.bind (rebuild e (fst q)) (\<lambda>e'. visit_recursive v e' (snd q))
                               else Some (e, snd q))
                              (\<lambda>r. Some (post_visit v (fst r), snd r))))))
              (\<lambda>p. Some (fst p, if snd p e = None then (snd p)(e \<mapsto> fst p) else snd p))))"

subsection \<open>The replacement of what the constraints fix\<close>

definition ExprReplaceVisitor2 :: "(expr \<rightharpoonup> expr) \<Rightarrow> visitor" where
  "ExprReplaceVisitor2 replacements =
     ExprVisitor\<lparr>vPost := \<lambda>e. case replacements e of Some r \<Rightarrow> ChangeTo r | None \<Rightarrow> DoChildren\<rparr>"

definition equality_of :: "expr \<Rightarrow> expr \<times> expr" where
  "equality_of c =
     (case c of
        BinaryExpr Eq (ConstantExpr l) r \<Rightarrow> (r, ConstantExpr l)
      | _ \<Rightarrow> (c, ConstantExpr (ConstantExpr_alloc 1 1)))"

text \<open>\<open>std::map::insert\<close> keeps an earlier entry.\<close>

fun equalities_of :: "expr list \<Rightarrow> (expr \<rightharpoonup> expr) \<Rightarrow> (expr \<rightharpoonup> expr)" where
  "equalities_of [] m = m"
| "equalities_of (c # cs) m =
     (let (k, v) = equality_of c in equalities_of cs (if m k = None then m(k \<mapsto> v) else m))"

definition simplifyExpr :: "expr list \<Rightarrow> expr \<Rightarrow> expr option" where
  "simplifyExpr cs e =
     (if isConstantExpr e then Some e
      else map_option fst (visit_recursive (ExprReplaceVisitor2 (equalities_of cs Map.empty)) e Map.empty))"

subsection \<open>It keeps the value\<close>

lemma pure_clean: "pure_in N A e \<Longrightarrow> clean A e" "pure_u N A us \<Longrightarrow> clean_u A us"
  by (induction e and us) auto

lemma rebuild_pure:
  assumes "pure_in {} A e" "list_all (pure_in {} A) ks"
  shows "nd_in {} A (rebuild e ks)"
  using assms
  by (cases "(e, ks)" rule: rebuild.cases)
     (auto simp: casts_nd Select_nd Read_nd Binary_nd Concat_nd Extract_nd)

definition simplified :: "array set \<Rightarrow> (env \<Rightarrow> bool) \<Rightarrow> expr \<Rightarrow> expr \<Rightarrow> bool" where
  "simplified A P e e' \<longleftrightarrow> askable A e' \<and> rewritten A P e e'"

definition simplified_map :: "array set \<Rightarrow> (env \<Rightarrow> bool) \<Rightarrow> visited \<Rightarrow> bool" where
  "simplified_map A P m \<longleftrightarrow> (\<forall>e r. m e = Some r \<and> askable A e \<longrightarrow> simplified A P e r)"

lemma simplified_refl [simp]: "simplified A P e e \<longleftrightarrow> askable A e"
  using pure_clean(1) by (auto simp: simplified_def askable_def)

lemma simplified_trans: "simplified A P e e' \<Longrightarrow> simplified A P e' e'' \<Longrightarrow> simplified A P e e''"
  by (auto simp: simplified_def intro: rewritten_trans)

lemma askable_kid: "askable A e \<Longrightarrow> k \<in> set (kids e) \<Longrightarrow> askable A k"
  by (cases e) (auto simp: askable_def)

lemma rebuild_simplified:
  assumes "\<not> isConstantExpr e" "askable A e" "list_all2 (simplified A P) (kids e) ks" "rebuild e ks = Some x"
  shows "simplified A P e x"
proof -
  have e: "wf_expr e" "clean A e" "pure_in {} A e" using assms(2) pure_clean(1) by (auto simp: askable_def)
  have ks: "list_all2 (rewritten A P) (kids e) ks" using assms(3) by (rule list_all2_mono) (simp add: simplified_def)
  obtain n where n: "with_kids e ks = Some n" "rewritten A P e n" "node_div_ok n" "node_defined n = (\<lambda>_. True)"
    using with_kids_rewritten [OF assms(1) e(1,2) ks] by blast
  then have "builds (rebuild e ks) (getWidth n) (eval n)" using rebuild_builds [of e ks n] by (simp add: rewritten_def)
  then have "builds_if P (rebuild e ks) (getWidth e) (eval e)"
    by (rule builds_if_cong) (use n(2) in \<open>auto simp: rewritten_def\<close>)
  moreover have "nd_in {} A (rebuild e ks)"
    by (rule rebuild_pure [OF e(3)])
       (use assms(3) in \<open>auto simp: list_all2_conv_all_nth list_all_length simplified_def askable_def\<close>)
  ultimately show ?thesis
    using assms(4) pure_clean(1) by (auto simp: builds_if_def simplified_def rewritten_def askable_def)
qed

text \<open>What a traversal of kids returns, for calls that return simplified expressions.\<close>

lemma visit_kids_simplified:
  assumes "\<And>k m x m'. f k m = Some (x, m') \<Longrightarrow> askable A k \<Longrightarrow> simplified_map A P m \<Longrightarrow> simplified A P k x \<and> simplified_map A P m'"
    and "visit_kids f ks m = Some (xs, m')" "\<And>k. k \<in> set ks \<Longrightarrow> askable A k" "simplified_map A P m"
  shows "list_all2 (simplified A P) ks xs \<and> simplified_map A P m'"
  using assms(2-4)
proof (induction ks arbitrary: m xs)
  case (Cons k ks)
  obtain x m1 xs' where s: "f k m = Some (x, m1)" "visit_kids f ks m1 = Some (xs', m')" "xs = x # xs'"
    using Cons.prems(1) by (auto split: Option.bind_splits)
  then show ?case using assms(1) [OF s(1)] Cons.IH [OF s(2)] Cons.prems(2,3) by simp
qed simp

lemma post_simplified:
  assumes "\<And>e a. vPost v e = ChangeTo a \<Longrightarrow> askable A e \<Longrightarrow> simplified A P e a" "simplified A P e x"
  shows "simplified A P e (post_visit v x)"
  using assms(2) simplified_trans [OF assms(2) assms(1) [of x]]
  by (auto simp: post_visit_def simplified_def split: action.split)

lemma bind_SomeE: "Option.bind x g = Some r \<Longrightarrow> (\<And>p. x = Some p \<Longrightarrow> g p = Some r \<Longrightarrow> thesis) \<Longrightarrow> thesis"
  by (auto simp: bind_eq_Some_conv)

text \<open>The contract of a recursive visitor; every traversal that returns keeps the value.\<close>

locale simplifying_visitor =
  fixes v :: visitor and A :: "array set" and P :: "env \<Rightarrow> bool"
  assumes change_expr: "vExpr v e = ChangeTo a \<Longrightarrow> askable A e \<Longrightarrow> simplified A P e a"
    and change_kind: "vKind v e = Some (ChangeTo a) \<Longrightarrow> askable A e \<Longrightarrow> simplified A P e a"
    and change_post: "vPost v e = ChangeTo a \<Longrightarrow> askable A e \<Longrightarrow> simplified A P e a"
begin

lemma children_simplified:
  assumes f: "\<And>k m r. f k m = Some r \<Longrightarrow> askable A k \<Longrightarrow> simplified_map A P m \<Longrightarrow> simplified A P k (fst r) \<and> simplified_map A P (snd r)"
    and e: "\<not> isConstantExpr e" "askable A e" "simplified_map A P m" "visit_kids f (kids e) m = Some q"
    and r: "(if fst q \<noteq> kids e then Option.bind (rebuild e (fst q)) (\<lambda>e'. f e' (snd q)) else Some (e, snd q)) = Some r"
  shows "simplified A P e (post_visit v (fst r)) \<and> simplified_map A P (snd r)"
proof -
  have q: "list_all2 (simplified A P) (kids e) (fst q)" "simplified_map A P (snd q)"
    using visit_kids_simplified [of f A P "kids e" m "fst q" "snd q"] f e askable_kid [OF e(2)] by force+
  have "simplified A P e (fst r) \<and> simplified_map A P (snd r)"
  proof (cases "fst q = kids e")
    case True
    then show ?thesis using r q(2) e(2) by auto
  next
    case False
    then obtain x where x: "rebuild e (fst q) = Some x" "f x (snd q) = Some r" using r by (auto simp: bind_eq_Some_conv)
    have "simplified A P e x" by (rule rebuild_simplified [OF e(1,2) q(1) x(1)])
    then show ?thesis using f [OF x(2) _ q(2)] simplified_trans by (auto simp: simplified_def)
  qed
  then show ?thesis using post_simplified [OF change_post] by blast
qed

lemma actions_simplified:
  assumes f: "\<And>k m r. f k m = Some r \<Longrightarrow> askable A k \<Longrightarrow> simplified_map A P m \<Longrightarrow> simplified A P k (fst r) \<and> simplified_map A P (snd r)"
    and e: "\<not> isConstantExpr e" "askable A e" "simplified_map A P m"
    and p: "(case vExpr v e of SkipChildren \<Rightarrow> Some (e, m) | ChangeTo a \<Rightarrow> Some (a, m)
      | DoChildren \<Rightarrow> Option.bind (vKind v e) (\<lambda>res.
          (case res of SkipChildren \<Rightarrow> Some (e, m) | ChangeTo a \<Rightarrow> Some (a, m)
           | DoChildren \<Rightarrow> Option.bind (visit_kids f (kids e) m) (\<lambda>q.
               Option.bind (if fst q \<noteq> kids e then Option.bind (rebuild e (fst q)) (\<lambda>e'. f e' (snd q)) else Some (e, snd q))
                 (\<lambda>r. Some (post_visit v (fst r), snd r)))))) = Some p"
  shows "simplified A P e (fst p) \<and> simplified_map A P (snd p)"
proof (cases "vExpr v e")
  case SkipChildren
  then show ?thesis using p e by auto
next
  case (ChangeTo a)
  then show ?thesis using p e change_expr [OF ChangeTo] by auto
next
  case DoChildren
  then obtain res where res: "vKind v e = Some res" using p by (cases "vKind v e") auto
  show ?thesis
  proof (cases res)
    case SkipChildren
    then show ?thesis using p e res DoChildren by auto
  next
    case (ChangeTo a)
    then show ?thesis using p e res DoChildren change_kind [of e a] by auto
  next
    case children: DoChildren
    obtain q x where q: "visit_kids f (kids e) m = Some q"
      "(if fst q \<noteq> kids e then Option.bind (rebuild e (fst q)) (\<lambda>e'. f e' (snd q)) else Some (e, snd q)) = Some x"
      "p = (post_visit v (fst x), snd x)"
      using p res DoChildren children by (auto simp: bind_eq_Some_conv)
    then show ?thesis using children_simplified [OF f e q(1,2)] by simp
  qed
qed

lemma visit_recursive_simplified:
  assumes "visit_recursive v e m = Some r" "askable A e" "simplified_map A P m"
  shows "simplified A P e (fst r) \<and> simplified_map A P (snd r)"
proof -
  let ?Q = "\<lambda>e m r. askable A e \<longrightarrow> simplified_map A P m \<longrightarrow> simplified A P e (fst r) \<and> simplified_map A P (snd r)"
  have "v' = v \<longrightarrow> ?Q e m r" if "visit_recursive v' e m = Some r" for v' e m r
    using that
  proof (rule visit_recursive.raw_induct [where P = "\<lambda>v' e m r. v' = v \<longrightarrow> ?Q e m r", rotated], goal_cases)
    case (1 f v' e m r)
    have f: "\<And>k m r. f v k m = Some r \<Longrightarrow> askable A k \<Longrightarrow> simplified_map A P m \<Longrightarrow> simplified A P k (fst r) \<and> simplified_map A P (snd r)"
      using 1(1) by blast
    show ?case
    proof (intro impI)
      assume h: "v' = v" "askable A e" "simplified_map A P m"
      consider (C) "isConstantExpr e" | (M) x where "\<not> isConstantExpr e" "m e = Some x"
        | (N) "\<not> isConstantExpr e" "m e = None" by blast
      then show "simplified A P e (fst r) \<and> simplified_map A P (snd r)"
      proof cases
        case N
        show ?thesis
        proof (rule bind_SomeE [OF 1(2) [unfolded h(1) if_not_P [OF N(1)] N(2) option.case]], goal_cases)
          case (1 p)
          have "simplified A P e (fst p) \<and> simplified_map A P (snd p)" by (rule actions_simplified [OF f N(1) h(2,3) 1(1)])
          then show ?case using 1(2) by (auto simp: simplified_map_def split: if_splits)
        qed
      qed (use 1(2) h in \<open>auto simp: simplified_map_def\<close>)
    qed
  qed
  then show ?thesis using assms by blast
qed

end

subsection \<open>It returns\<close>

text \<open>
  A visitor that replaces expressions by lighter ones: a rebuilt expression is lighter than the one it
  was built for, so the traversal that visits it again ends.
\<close>

definition lighter_map :: "visited \<Rightarrow> bool" where
  "lighter_map m \<longleftrightarrow> (\<forall>e r. m e = Some r \<longrightarrow> lighter e r)"

definition traversal_ends :: "visitor \<Rightarrow> array set \<Rightarrow> (env \<Rightarrow> bool) \<Rightarrow> expr \<Rightarrow> visited \<Rightarrow> bool" where
  "traversal_ends v A P e m \<longleftrightarrow> (\<exists>x m'. visit_recursive v e m = Some (x, m') \<and> lighter e x \<and> lighter_map m' \<and>
     simplified A P e x \<and> simplified_map A P m')"

locale lightening_visitor = simplifying_visitor +
  assumes kind_returns: "vKind v e \<noteq> None"
    and lighter_expr: "vExpr v e = ChangeTo a \<Longrightarrow> \<not> isConstantExpr e \<Longrightarrow> weight a < weight e"
    and lighter_kind: "vKind v e = Some (ChangeTo a) \<Longrightarrow> \<not> isConstantExpr e \<Longrightarrow> weight a < weight e"
    and lighter_post: "vPost v e = ChangeTo a \<Longrightarrow> \<not> isConstantExpr e \<Longrightarrow> weight a < weight e"
begin

lemma visit_kids_ends:
  assumes "\<And>k m. k \<in> set ks \<Longrightarrow> lighter_map m \<Longrightarrow> simplified_map A P m \<Longrightarrow> traversal_ends v A P k m" "lighter_map m" "simplified_map A P m"
  shows "\<exists>xs m'. visit_kids (visit_recursive v) ks m = Some (xs, m') \<and> list_all2 lighter ks xs \<and>
    list_all2 (simplified A P) ks xs \<and> lighter_map m' \<and> simplified_map A P m'"
  using assms
proof (induction ks arbitrary: m)
  case (Cons k ks)
  obtain x m1 where x: "visit_recursive v k m = Some (x, m1)" "lighter k x" "lighter_map m1" "simplified A P k x" "simplified_map A P m1"
    using Cons.prems(1) [of k m] Cons.prems(2,3) by (auto simp: traversal_ends_def)
  obtain xs m2 where xs: "visit_kids (visit_recursive v) ks m1 = Some (xs, m2)" "list_all2 lighter ks xs"
    "list_all2 (simplified A P) ks xs" "lighter_map m2" "simplified_map A P m2"
    using Cons.IH [OF _ x(3,5)] Cons.prems(1) by auto
  show ?case by (intro exI [of _ "x # xs"] exI [of _ m2]) (use x xs in simp)
qed simp

lemma post_lighter: "lighter e x \<Longrightarrow> lighter e (post_visit v x)"
  using lighter_post [of x] by (auto simp: post_visit_def lighter_def split: action.split)

lemma children_end:
  assumes e: "\<not> isConstantExpr e" "askable A e" "lighter_map m" "simplified_map A P m"
    and IH: "\<And>x m. weight x < weight e \<Longrightarrow> askable A x \<Longrightarrow> lighter_map m \<Longrightarrow> simplified_map A P m \<Longrightarrow> traversal_ends v A P x m"
  shows "\<exists>q r. visit_kids (visit_recursive v) (kids e) m = Some q \<and>
    (if fst q \<noteq> kids e then Option.bind (rebuild e (fst q)) (\<lambda>e'. visit_recursive v e' (snd q)) else Some (e, snd q)) = Some r \<and>
    lighter e (fst r) \<and> lighter_map (snd r)"
proof -
  obtain xs m1 where q: "visit_kids (visit_recursive v) (kids e) m = Some (xs, m1)" "list_all2 lighter (kids e) xs"
    "list_all2 (simplified A P) (kids e) xs" "lighter_map m1" "simplified_map A P m1"
    using visit_kids_ends [of "kids e" m] IH kid_weight askable_kid [OF e(2)] e(3,4) by metis
  show ?thesis
  proof (cases "xs = kids e")
    case True
    then show ?thesis using q(1,4) by (intro exI [of _ "(xs, m1)"] exI [of _ "(e, m1)"]) simp
  next
    case False
    have ks: "list_all2 (rewritten A P) (kids e) xs" using q(3) by (rule list_all2_mono) (simp add: simplified_def)
    have w: "wf_expr e" "clean A e" using e(2) pure_clean(1) by (auto simp: askable_def)
    obtain n where n: "with_kids e xs = Some n" "rewritten A P e n" "node_div_ok n" "node_defined n = (\<lambda>_. True)"
      using with_kids_rewritten [OF e(1) w ks] by blast
    then obtain x where x: "rebuild e xs = Some x"
      using rebuild_builds [of e xs n] by (auto simp: rewritten_def elim: builds_ifE)
    have "weight x < weight e" by (rule rebuild_lighter [OF q(2) False n(1) x])
    moreover have "askable A x" using rebuild_simplified [OF e(1,2) q(3) x] by (simp add: simplified_def)
    ultimately obtain y m2 where y: "visit_recursive v x m1 = Some (y, m2)" "lighter x y" "lighter_map m2"
      using IH [of x m1] q(4,5) by (auto simp: traversal_ends_def)
    have "lighter e y" using \<open>weight x < weight e\<close> y(2) by (auto simp: lighter_def)
    then show ?thesis using q(1) False x y by (intro exI [of _ "(xs, m1)"] exI [of _ "(y, m2)"]) simp
  qed
qed

lemma visit_recursive_ends: "askable A e \<Longrightarrow> lighter_map m \<Longrightarrow> simplified_map A P m \<Longrightarrow> traversal_ends v A P e m"
proof (induction e arbitrary: m rule: measure_induct_rule [of weight])
  case (less e)
  have "\<exists>x m'. visit_recursive v e m = Some (x, m') \<and> lighter e x \<and> lighter_map m'"
  proof (cases "isConstantExpr e \<or> m e \<noteq> None")
    case True
    then show ?thesis using less.prems by (auto simp: visit_recursive.simps [of v e] lighter_map_def)
  next
    case False
    then have e: "\<not> isConstantExpr e" "m e = None" by auto
    obtain q r where q: "visit_kids (visit_recursive v) (kids e) m = Some q"
      "(if fst q \<noteq> kids e then Option.bind (rebuild e (fst q)) (\<lambda>e'. visit_recursive v e' (snd q)) else Some (e, snd q)) = Some r"
      "lighter e (fst r)" "lighter_map (snd r)"
      using children_end [OF e(1) less.prems less.IH] by blast
    have add: "lighter e x \<Longrightarrow> lighter_map m' \<Longrightarrow> lighter_map (m'(e \<mapsto> x))" for x m'
      by (auto simp: lighter_map_def)
    obtain res where res: "vKind v e = Some res" using kind_returns [of e] by blast
    show ?thesis
    proof (cases "vExpr v e")
      case SkipChildren
      then show ?thesis using e less.prems add [of e m] by (auto simp: visit_recursive.simps [of v e])
    next
      case (ChangeTo a)
      then have "lighter e a" using lighter_expr e(1) by (simp add: lighter_def)
      then show ?thesis using ChangeTo e less.prems add [of a m] by (auto simp: visit_recursive.simps [of v e])
    next
      case DoChildren
      note do_children = DoChildren
      show ?thesis
      proof (cases res)
        case SkipChildren
        then show ?thesis using do_children res e less.prems add [of e m] by (auto simp: visit_recursive.simps [of v e])
      next
        case (ChangeTo a)
        then have "lighter e a" using lighter_kind e(1) res by (simp add: lighter_def)
        then show ?thesis using ChangeTo do_children res e less.prems add [of a m] by (auto simp: visit_recursive.simps [of v e])
      next
        case DoChildren
        have "lighter e (post_visit v (fst r))" by (rule post_lighter [OF q(3)])
        then show ?thesis
          using DoChildren do_children res e q(1,2,4) add [of "post_visit v (fst r)" "snd r"]
          by (subst visit_recursive.simps) (simp add: e)
      qed
    qed
  qed
  then show ?case using visit_recursive_simplified [OF _ less.prems(1,3)] by (fastforce simp: traversal_ends_def)
qed

end

subsection \<open>\<open>simplifyExpr\<close>\<close>

definition bool_askable :: "array set \<Rightarrow> expr \<Rightarrow> bool" where
  "bool_askable A c \<longleftrightarrow> askable A c \<and> getWidth c = 1"

lemma equality_of_cases:
  obtains (const) l r where "c = BinaryExpr Eq (ConstantExpr l) r" "equality_of c = (r, ConstantExpr l)"
    | (other) "equality_of c = (c, ConstantExpr (APInt 1 1))"
proof (cases "\<exists>l r. c = BinaryExpr Eq (ConstantExpr l) r")
  case True
  then show thesis using const by (auto simp: equality_of_def)
next
  case False
  then have "equality_of c = (c, ConstantExpr (APInt 1 1))"
    by (auto simp: equality_of_def ConstantExpr_alloc_def split: expr.split bkind.split)
  then show thesis by (rule other)
qed

lemma equality_of_simplified:
  assumes "bool_askable A c"
  shows "simplified A (\<lambda>\<sigma>. eval c \<sigma> = 1) (fst (equality_of c)) (snd (equality_of c))"
proof (cases rule: equality_of_cases [of c])
  case (const l r)
  then show ?thesis using assms by (auto simp: bool_askable_def simplified_def rewritten_def askable_def)
next
  case other
  then show ?thesis using assms by (auto simp: bool_askable_def simplified_def rewritten_def wf_apint_def in_width_def)
qed

lemma simplified_weaken: "simplified A P e x \<Longrightarrow> (\<And>\<sigma>. Q \<sigma> \<Longrightarrow> P \<sigma>) \<Longrightarrow> simplified A Q e x"
  by (auto simp: simplified_def rewritten_def)

lemma equalities_of_simplified:
  assumes "\<And>c. c \<in> set cs \<Longrightarrow> bool_askable A c" "\<And>e x. m e = Some x \<Longrightarrow> simplified A (holds all) e x" "set cs \<subseteq> set all"
    and "equalities_of cs m e = Some x"
  shows "simplified A (holds all) e x"
  using assms
proof (induction cs arbitrary: m)
  case (Cons c cs)
  obtain k v where kv: "equality_of c = (k, v)" by force
  have "simplified A (holds all) k v"
    using simplified_weaken [OF equality_of_simplified [of A c], of "holds all"] Cons.prems(1,3) kv by (auto simp: holds_def)
  then show ?case
    using Cons.prems kv by (intro Cons.IH [of "if m k = None then m(k \<mapsto> v) else m"]) (auto split: if_splits)
qed simp

text \<open>The visitor of \<open>simplifyExpr\<close> meets the contract for the boolean constraints over the arrays.\<close>

interpretation replace2: simplifying_visitor "ExprReplaceVisitor2 (equalities_of (filter (bool_askable A) cs) Map.empty)" A
    "holds (filter (bool_askable A) cs)" for A cs
proof unfold_locales
  fix e a
  assume "vPost (ExprReplaceVisitor2 (equalities_of (filter (bool_askable A) cs) Map.empty)) e = ChangeTo a"
  then have "equalities_of (filter (bool_askable A) cs) Map.empty e = Some a"
    by (auto simp: ExprReplaceVisitor2_def split: option.splits)
  then show "simplified A (holds (filter (bool_askable A) cs)) e a"
    by (rule equalities_of_simplified [rotated 3]) auto
qed (simp_all add: ExprReplaceVisitor2_def ExprVisitor_def)

interpretation replace2_ends: lightening_visitor "ExprReplaceVisitor2 (equalities_of (filter (bool_askable A) cs) Map.empty)" A
    "holds (filter (bool_askable A) cs)" for A cs
proof unfold_locales
  have const: "isConstantExpr a" if "equalities_of cs m e = Some a" "\<And>e a. m e = Some a \<Longrightarrow> isConstantExpr a" for cs m e a
    using that
  proof (induction cs arbitrary: m)
    case (Cons c cs)
    obtain k x where "equality_of c = (k, x)" "isConstantExpr x" by (cases rule: equality_of_cases [of c]) auto
    then show ?case using Cons by (fastforce split: if_splits)
  qed simp
  fix e a
  assume "vPost (ExprReplaceVisitor2 (equalities_of (filter (bool_askable A) cs) Map.empty)) e = ChangeTo a" "\<not> isConstantExpr e"
  then have "isConstantExpr a" "\<not> isConstantExpr e" using const by (fastforce simp: ExprReplaceVisitor2_def split: option.splits)+
  then show "weight a < weight e" using weight_pos by (auto simp: isConstantExpr_iff)
qed (simp_all add: ExprReplaceVisitor2_def ExprVisitor_def)

lemma simplifyExpr_ends:
  assumes "\<And>c. c \<in> set cs \<Longrightarrow> bool_askable A c" "askable A e"
  shows "\<exists>x. simplifyExpr cs e = Some x \<and> lighter e x"
proof -
  have "filter (bool_askable A) cs = cs" using assms(1) by (simp add: filter_id_conv)
  moreover have "lighter_map Map.empty" "simplified_map A P Map.empty" for P by (simp_all add: lighter_map_def simplified_map_def)
  ultimately show ?thesis
    using replace2_ends.visit_recursive_ends [OF assms(2), of Map.empty cs]
    by (auto simp: simplifyExpr_def traversal_ends_def)
qed

lemma simplifyExpr_simplified:
  assumes "\<And>c. c \<in> set cs \<Longrightarrow> bool_askable A c" "askable A e" "simplifyExpr cs e = Some x"
  shows "simplified A (holds cs) e x"
proof (cases "isConstantExpr e")
  case False
  then obtain m where "visit_recursive (ExprReplaceVisitor2 (equalities_of cs Map.empty)) e Map.empty = Some (x, m)"
    using assms(3) by (auto simp: simplifyExpr_def)
  moreover have "filter (bool_askable A) cs = cs" using assms(1) by (simp add: filter_id_conv)
  ultimately show ?thesis
    using replace2.visit_recursive_simplified [of A cs e Map.empty "(x, m)"] assms(2) by (simp add: simplified_map_def)
qed (use assms in \<open>simp add: simplifyExpr_def\<close>)

text \<open>
  C21. For boolean constraints and an expression, all well formed and without divisions and \<open>NotOptimized\<close>
  nodes, \<open>simplifyExpr\<close> returns, although it visits every expression it rebuilds again: the result is the
  expression itself or a lighter one, it is well formed, of the same width and over the same arrays, and has the value of the
  expression wherever the constraints hold.
\<close>

theorem simplifyExpr_returns:
  assumes "\<And>c. c \<in> set cs \<Longrightarrow> bool_askable A c" "askable A e"
  shows "\<exists>x. simplifyExpr cs e = Some x \<and> (x = e \<or> weight x < weight e) \<and> askable A x \<and> getWidth x = getWidth e \<and>
    (\<forall>\<sigma>. env_ok \<sigma> \<and> holds cs \<sigma> \<longrightarrow> eval x \<sigma> = eval e \<sigma>)"
proof -
  obtain x where x: "simplifyExpr cs e = Some x" "lighter e x" using simplifyExpr_ends [OF assms] by blast
  then show ?thesis using simplifyExpr_simplified [OF assms x(1)] by (auto simp: simplified_def rewritten_def lighter_def)
qed

theorem simplifyExpr_returns_witness:
  "\<exists>x. simplifyExpr [BinaryExpr Eq (ConstantExpr (APInt 8 200)) (sample_read 0)] (BinaryExpr Ult (sample_read 1) (sample_read 0)) = Some x \<and>
     eval x sample_env = eval (BinaryExpr Ult (sample_read 1) (sample_read 0)) sample_env"
proof -
  let ?c = "BinaryExpr Eq (ConstantExpr (APInt 8 200)) (sample_read 0)" and ?e = "BinaryExpr Ult (sample_read 1) (sample_read 0)"
  have "bool_askable {sample_array} ?c" "askable {sample_array} ?e"
    by (simp_all add: bool_askable_def askable_def sample_read_def wf_apint_def in_width_def)
  moreover have "holds [?c] sample_env" by simp
  ultimately show ?thesis
    using simplifyExpr_returns [of "[?c]" "{sample_array}" ?e] sample_simps(5) by auto
qed

end
