(* ===== verification/Timing_Solver.thy ===== *)
theory Timing_Solver
  imports Simplify_Expr Solver_Range
begin

text \<open>
  \<open>TimingSolver\<close> (\<^verbatim>\<open>klee/lib/Core/TimingSolver.cpp\<close>): the questions the executor asks of a solver about
  an expression under the constraints of a state. The flag \<open>simplifyExprs\<close> is the argument \<open>b\<close>.
  Timers and counters are left out.
\<close>

subsection \<open>The questions\<close>

definition simplify_under :: "bool \<Rightarrow> expr list \<Rightarrow> expr \<Rightarrow> expr option" where
  "simplify_under b cs e = (if b then simplifyExpr cs e else Some e)"

definition TimingSolver_evaluate :: "'s solver_impl \<Rightarrow> expr list \<Rightarrow> expr \<Rightarrow> ('s, validity) call" where
  "TimingSolver_evaluate S cs e =
     (case e of
        ConstantExpr CE \<Rightarrow> returns (if ConstantExpr_isTrue CE then ValidityTrue else ValidityFalse)
      | _ \<Rightarrow> Solver_evaluate S \<lparr>qconstraints = cs, qexpr = e\<rparr>)"

text \<open>On the path that asks the solver, \<open>evaluateCheat\<close> ends without a return statement, which is undefined.\<close>

definition TimingSolver_evaluateCheat :: "expr \<Rightarrow> ('s, validity) call" where
  "TimingSolver_evaluateCheat e =
     (case e of
        ConstantExpr CE \<Rightarrow> returns (if ConstantExpr_isTrue CE then ValidityTrue else ValidityFalse)
      | _ \<Rightarrow> (\<lambda>s. None))"

definition TimingSolver_mustBeTrue :: "bool \<Rightarrow> 's solver_impl \<Rightarrow> expr list \<Rightarrow> expr \<Rightarrow> ('s, bool) call" where
  "TimingSolver_mustBeTrue b S cs e =
     (case e of
        ConstantExpr CE \<Rightarrow> returns (ConstantExpr_isTrue CE)
      | _ \<Rightarrow> building (simplify_under b cs e) (\<lambda>x. Solver_mustBeTrue S \<lparr>qconstraints = cs, qexpr = x\<rparr>))"

definition TimingSolver_mustBeFalse :: "bool \<Rightarrow> 's solver_impl \<Rightarrow> expr list \<Rightarrow> expr \<Rightarrow> ('s, bool) call" where
  "TimingSolver_mustBeFalse b S cs e = building (createIsZero e) (TimingSolver_mustBeTrue b S cs)"

definition TimingSolver_mayBeTrue :: "bool \<Rightarrow> 's solver_impl \<Rightarrow> expr list \<Rightarrow> expr \<Rightarrow> ('s, bool) call" where
  "TimingSolver_mayBeTrue b S cs e = andthen (TimingSolver_mustBeFalse b S cs e) (\<lambda>res. returns (\<not> res))"

definition TimingSolver_mayBeFalse :: "bool \<Rightarrow> 's solver_impl \<Rightarrow> expr list \<Rightarrow> expr \<Rightarrow> ('s, bool) call" where
  "TimingSolver_mayBeFalse b S cs e = andthen (TimingSolver_mustBeTrue b S cs e) (\<lambda>res. returns (\<not> res))"

definition TimingSolver_getValue :: "bool \<Rightarrow> 's solver_impl \<Rightarrow> expr list \<Rightarrow> expr \<Rightarrow> ('s, apint) call" where
  "TimingSolver_getValue b S cs e =
     (case e of
        ConstantExpr CE \<Rightarrow> returns CE
      | _ \<Rightarrow> building (simplify_under b cs e) (\<lambda>x. Solver_getValue S \<lparr>qconstraints = cs, qexpr = x\<rparr>))"

text \<open>With no objects the values are left as they are, which is empty in the calls.\<close>

definition TimingSolver_getInitialValues :: "'s solver_impl \<Rightarrow> expr list \<Rightarrow> array list \<Rightarrow> ('s, 8 word list list) call" where
  "TimingSolver_getInitialValues S cs objects =
     (if objects = [] then returns []
      else Solver_getInitialValues S \<lparr>qconstraints = cs, qexpr = ConstantExpr (ConstantExpr_alloc 0 1)\<rparr> objects)"

definition TimingSolver_getRange :: "'s solver_impl \<Rightarrow> expr list \<Rightarrow> expr \<Rightarrow> 's \<Rightarrow> ((apint \<times> apint) \<times> 's) option" where
  "TimingSolver_getRange S cs e = Solver_getRange S \<lparr>qconstraints = cs, qexpr = e\<rparr>"

subsection \<open>Their answers\<close>

text \<open>The simplification of an expression of a query returns.\<close>

lemma simplify_under_ok:
  assumes "query_ok A \<lparr>qconstraints = cs, qexpr = e\<rparr>"
  obtains x where "simplify_under b cs e = Some x" "query_ok A \<lparr>qconstraints = cs, qexpr = x\<rparr>" "getWidth x = getWidth e"
    "\<And>\<sigma>. contents \<sigma> \<Longrightarrow> holds cs \<sigma> \<Longrightarrow> eval x \<sigma> = eval e \<sigma>"
proof -
  have "\<exists>x. simplifyExpr cs e = Some x"
    using simplifyExpr_ends [of cs A e] assms by (auto simp: query_ok_def bool_askable_def)
  then obtain x where x: "simplify_under b cs e = Some x" by (cases b) (auto simp: simplify_under_def)
  have "simplified A (holds cs) e x"
    using x assms simplifyExpr_simplified [of cs A e x]
    by (cases b) (auto simp: simplify_under_def query_ok_def bool_askable_def)
  then show thesis using x assms by (intro that [of x]) (auto simp: simplified_def rewritten_def query_ok_def)
qed

context solver_contract
begin

lemma TimingSolver_must_answers:
  assumes "bool_query A \<lparr>qconstraints = cs, qexpr = e\<rparr>" "sinv s"
  shows "answers may_fail sinv (\<lambda>r. r = valid cs e) (TimingSolver_mustBeTrue b S cs e s)"
proof (cases "isConstantExpr e")
  case True
  then obtain c where "e = ConstantExpr c" by (cases e) auto
  then show ?thesis using constant_answer(1) [OF assms(1)] assms(2) by (simp add: TimingSolver_mustBeTrue_def)
next
  case False
  obtain x where x: "simplify_under b cs e = Some x" "query_ok A \<lparr>qconstraints = cs, qexpr = x\<rparr>" "getWidth x = getWidth e"
    "\<And>\<sigma>. contents \<sigma> \<Longrightarrow> holds cs \<sigma> \<Longrightarrow> eval x \<sigma> = eval e \<sigma>"
    using simplify_under_ok [OF bool_queryD(1) [OF assms(1)]] by blast
  then have "bool_query A \<lparr>qconstraints = cs, qexpr = x\<rparr>" "valid cs x = valid cs e"
    using assms(1) by (auto simp: bool_query_def valid_def)
  then have "answers may_fail sinv (\<lambda>r. r = valid cs e) (building (simplify_under b cs e) (\<lambda>x. Solver_mustBeTrue S \<lparr>qconstraints = cs, qexpr = x\<rparr>) s)"
    using mustBeTrue_answers [OF assms(2)] by (intro answers_building [OF x(1)]) fastforce
  then show ?thesis using False by (cases e) (simp_all add: TimingSolver_mustBeTrue_def)
qed

lemma TimingSolver_may_answers:
  assumes "bool_query A \<lparr>qconstraints = cs, qexpr = e\<rparr>" "sinv s"
  shows "answers may_fail sinv (\<lambda>r. r = (\<not> invalid cs e)) (TimingSolver_mayBeTrue b S cs e s)"
proof (rule negateExpr_ok [OF assms(1)])
  fix n assume n: "bool_query A n" "qconstraints n = qconstraints \<lparr>qconstraints = cs, qexpr = e\<rparr>"
    "valid (qconstraints n) (qexpr n) = invalid (qconstraints \<lparr>qconstraints = cs, qexpr = e\<rparr>) (qexpr \<lparr>qconstraints = cs, qexpr = e\<rparr>)"
    "createIsZero (qexpr \<lparr>qconstraints = cs, qexpr = e\<rparr>) = Some (qexpr n)"
  then have q: "bool_query A \<lparr>qconstraints = cs, qexpr = qexpr n\<rparr>" "valid cs (qexpr n) = invalid cs e" "createIsZero e = Some (qexpr n)"
    by (cases n; simp)+
  have "answers may_fail sinv (\<lambda>r. r = invalid cs e) (TimingSolver_mustBeFalse b S cs e s)"
    unfolding TimingSolver_mustBeFalse_def
    using TimingSolver_must_answers [OF q(1) assms(2)] q(2) by (intro answers_building [OF q(3)]) simp
  then show ?thesis unfolding TimingSolver_mayBeTrue_def by (rule answers_andthen) simp
qed

lemma TimingSolver_value_answers:
  assumes "query_ok A \<lparr>qconstraints = cs, qexpr = e\<rparr>" "sinv s"
  shows "answers may_fail sinv (\<lambda>c. wf_apint c \<and> bitWidth c = getWidth e \<and> feasible \<lparr>qconstraints = cs, qexpr = e\<rparr> (apval c))
    (TimingSolver_getValue b S cs e s)"
proof (cases "isConstantExpr e")
  case True
  then obtain c where c: "e = ConstantExpr c" by (cases e) auto
  then have "wf_apint c" "feasible \<lparr>qconstraints = cs, qexpr = e\<rparr> (apval c)"
    using query_okD(1,2) [OF assms(1)] by (auto simp: satisfiable_def feasible_def)
  then show ?thesis using assms(2) c by (simp add: TimingSolver_getValue_def)
next
  case False
  obtain x where x: "simplify_under b cs e = Some x" "query_ok A \<lparr>qconstraints = cs, qexpr = x\<rparr>" "getWidth x = getWidth e"
    "\<And>\<sigma>. contents \<sigma> \<Longrightarrow> holds cs \<sigma> \<Longrightarrow> eval x \<sigma> = eval e \<sigma>"
    using simplify_under_ok [OF assms(1)] by blast
  have "feasible \<lparr>qconstraints = cs, qexpr = x\<rparr> = feasible \<lparr>qconstraints = cs, qexpr = e\<rparr>"
    using x(4) by (auto simp: feasible_def fun_eq_iff)
  then have "answers may_fail sinv (\<lambda>c. wf_apint c \<and> bitWidth c = getWidth e \<and> feasible \<lparr>qconstraints = cs, qexpr = e\<rparr> (apval c))
      (building (simplify_under b cs e) (\<lambda>x. Solver_getValue S \<lparr>qconstraints = cs, qexpr = x\<rparr>) s)"
    using getValue_answers [OF assms(2) x(2)] x(3) by (intro answers_building [OF x(1)]) simp
  then show ?thesis using False by (cases e) (simp_all add: TimingSolver_getValue_def)
qed

text \<open>A solver that always answers does so through the timing solver.\<close>

lemma TimingSolver_must_replies:
  assumes "always_answers A S sinv" "bool_query A \<lparr>qconstraints = cs, qexpr = e\<rparr>" "sinv s"
  shows "\<exists>r s'. TimingSolver_mustBeTrue b S cs e s = Some (Some r, s') \<and> sinv s'"
proof (cases "isConstantExpr e")
  case True
  then show ?thesis using assms(3) by (cases e) (simp_all add: TimingSolver_mustBeTrue_def returns_def)
next
  case False
  obtain x where x: "simplify_under b cs e = Some x" "query_ok A \<lparr>qconstraints = cs, qexpr = x\<rparr>" "getWidth x = getWidth e"
    using simplify_under_ok [OF bool_queryD(1) [OF assms(2)]] by blast
  then have "bool_query A \<lparr>qconstraints = cs, qexpr = x\<rparr>" using assms(2) by (simp add: bool_query_def)
  then obtain r s' where "Solver_mustBeTrue S \<lparr>qconstraints = cs, qexpr = x\<rparr> s = Some (Some r, s')" "sinv s'"
    using mustBeTrue_gives [OF assms(1,3)] unfolding gives_def by blast
  then show ?thesis using False x(1) by (cases e) (simp_all add: TimingSolver_mustBeTrue_def building_def)
qed

lemma TimingSolver_may_replies:
  assumes "always_answers A S sinv" "bool_query A \<lparr>qconstraints = cs, qexpr = e\<rparr>" "sinv s"
  shows "\<exists>r s'. TimingSolver_mayBeTrue b S cs e s = Some (Some r, s') \<and> sinv s'"
proof (rule negateExpr_ok [OF assms(2)])
  fix n assume n: "bool_query A n" "qconstraints n = qconstraints \<lparr>qconstraints = cs, qexpr = e\<rparr>"
    "createIsZero (qexpr \<lparr>qconstraints = cs, qexpr = e\<rparr>) = Some (qexpr n)"
  then have q: "bool_query A \<lparr>qconstraints = cs, qexpr = qexpr n\<rparr>" "createIsZero e = Some (qexpr n)" by (cases n; simp)+
  show ?thesis
    using TimingSolver_must_replies [OF assms(1) q(1) assms(3), where b = b] q(2)
    by (auto simp: TimingSolver_mayBeTrue_def TimingSolver_mustBeFalse_def building_def andthen_def returns_def)
qed

lemma TimingSolver_value_replies:
  assumes "\<And>q s. sinv s \<Longrightarrow> query_ok A q \<Longrightarrow> \<exists>v s'. computeValue S q s = Some (Some v, s')"
    and "query_ok A \<lparr>qconstraints = cs, qexpr = e\<rparr>" "sinv s"
  shows "\<exists>c s'. TimingSolver_getValue b S cs e s = Some (Some c, s')"
proof (cases "isConstantExpr e")
  case True
  then show ?thesis by (cases e) (simp_all add: TimingSolver_getValue_def returns_def)
next
  case False
  obtain x where x: "simplify_under b cs e = Some x" "query_ok A \<lparr>qconstraints = cs, qexpr = x\<rparr>"
    using simplify_under_ok [OF assms(2)] by blast
  obtain v s' where v: "computeValue S \<lparr>qconstraints = cs, qexpr = x\<rparr> s = Some (Some v, s')" using assms(1) [OF assms(3) x(2)] by blast
  moreover from this obtain c where "v = ConstantExpr c" using value_ok [OF assms(3) x(2)] by (auto simp: answers_def)
  ultimately have "\<exists>c s'. Solver_getValue S \<lparr>qconstraints = cs, qexpr = x\<rparr> s = Some (Some c, s')"
    by (cases x) (auto simp: Solver_getValue_def andthen_def returns_def)
  then show ?thesis using False x(1) by (cases e) (simp_all add: TimingSolver_getValue_def building_def)
qed

end

end
