(* ===== verification/Address_Space.thy ===== *)
theory Address_Space
  imports Object_State Tree_Iteration Timing_Solver
begin

text \<open>
  The address space (\<^verbatim>\<open>klee/lib/Core/AddressSpace.h\<close>, \<^verbatim>\<open>klee/lib/Core/AddressSpace.cpp\<close>): the map
  from memory objects, ordered by address, to their contents, the resolution of addresses to objects,
  and the copies to and from the program's memory. One process has one state, so objects
  have one content and \<open>getWriteable\<close> does not copy.
\<close>

subsection \<open>The map of objects\<close>

type_synonym object_pair = "memory_object \<times> object_state"
type_synonym address_space = "object_pair node"

text \<open>\<open>MemoryObjectLT\<close> compares addresses.\<close>

definition mo_key :: "object_pair \<Rightarrow> 64 word" where
  "mo_key p = moAddress (fst p)"

definition bindObject :: "memory_object \<Rightarrow> object_state \<Rightarrow> address_space \<Rightarrow> address_space" where
  "bindObject mo os objs = replace_node mo_key (mo, os) objs"

definition unbindObject :: "memory_object \<Rightarrow> address_space \<Rightarrow> address_space" where
  "unbindObject mo objs = remove_node mo_key (moAddress mo) objs"

definition findObject :: "memory_object \<Rightarrow> address_space \<Rightarrow> object_state option" where
  "findObject mo objs = map_option snd (lookup mo_key (moAddress mo) objs)"

definition getWriteable :: "memory_object \<Rightarrow> object_state \<Rightarrow> object_state option" where
  "getWriteable mo os = (if readOnly os then None else Some os)"

subsection \<open>A constant address\<close>

definition ZExtValue :: "apint \<Rightarrow> 64 word option" where
  "ZExtValue c = (if bitWidth c \<le> 64 then Some (of_int (apval c)) else None)"

definition resolve_address :: "address_space \<Rightarrow> 64 word \<Rightarrow> object_pair option" where
  "resolve_address objs addr =
     (case lookup_previous mo_key addr objs of
        Some (mo, os) \<Rightarrow>
          if moSize mo = 0 \<and> addr = moAddress mo \<or> unat (addr - moAddress mo) < moSize mo then Some (mo, os) else None
      | None \<Rightarrow> None)"

definition resolveOne_const :: "address_space \<Rightarrow> apint \<Rightarrow> object_pair option option" where
  "resolveOne_const objs addr = map_option (resolve_address objs) (ZExtValue addr)"

subsection \<open>A symbolic address\<close>

text \<open>The objects before the iterator \<open>upper_bound\<close>, backwards, and those from it on.\<close>

definition backwards :: "address_space \<Rightarrow> 64 word \<Rightarrow> object_pair list option" where
  "backwards objs k = Option.bind (upper_bound mo_key k objs) (iterate_back objs (node_size objs))"

definition forwards :: "address_space \<Rightarrow> 64 word \<Rightarrow> object_pair list option" where
  "forwards objs k = Option.bind (upper_bound mo_key k objs) (iterate (node_size objs))"

text \<open>The questions a search asks of an object: may it hold the address, is the address not below it, is it below it.\<close>

definition base_const :: "nat \<Rightarrow> memory_object \<Rightarrow> expr option" where
  "base_const pw mo = map_option ConstantExpr (getBaseExpr pw mo)"

definition not_below :: "nat \<Rightarrow> expr \<Rightarrow> memory_object \<Rightarrow> expr option" where
  "not_below pw addr mo = do { b \<leftarrow> base_const pw mo; Uge_create addr b }"

definition is_below :: "nat \<Rightarrow> expr \<Rightarrow> memory_object \<Rightarrow> expr option" where
  "is_below pw addr mo = do { b \<leftarrow> base_const pw mo; Ult_create addr b }"

record 's asking =
  may :: "expr \<Rightarrow> ('s, bool) call"
  must :: "expr \<Rightarrow> ('s, bool) call"

fun search_back :: "nat \<Rightarrow> 's asking \<Rightarrow> expr \<Rightarrow> object_pair list \<Rightarrow> ('s, object_pair option) call" where
  "search_back pw Q addr [] = returns None"
| "search_back pw Q addr (p # ps) =
     building (getBoundsCheckPointer pw (fst p) addr) (\<lambda>inBounds. andthen (may Q inBounds) (\<lambda>mayBeTrue.
       if mayBeTrue then returns (Some p)
       else building (not_below pw addr (fst p)) (\<lambda>ge. andthen (must Q ge) (\<lambda>mustBeTrue.
         if mustBeTrue then returns None else search_back pw Q addr ps))))"

fun search_on :: "nat \<Rightarrow> 's asking \<Rightarrow> expr \<Rightarrow> object_pair list \<Rightarrow> ('s, object_pair option) call" where
  "search_on pw Q addr [] = returns None"
| "search_on pw Q addr (p # ps) =
     building (is_below pw addr (fst p)) (\<lambda>lt. andthen (must Q lt) (\<lambda>mustBeTrue.
       if mustBeTrue then returns None
       else building (getBoundsCheckPointer pw (fst p) addr) (\<lambda>inBounds. andthen (may Q inBounds) (\<lambda>mayBeTrue.
         if mayBeTrue then returns (Some p) else search_on pw Q addr ps))))"

definition search_all :: "nat \<Rightarrow> 's asking \<Rightarrow> address_space \<Rightarrow> 64 word \<Rightarrow> expr \<Rightarrow> ('s, object_pair option) call" where
  "search_all pw Q objs example addr =
     building (backwards objs example) (\<lambda>bs. andthen (search_back pw Q addr bs) (\<lambda>r.
       if r \<noteq> None then returns r else building (forwards objs example) (search_on pw Q addr)))"

definition timing_questions :: "bool \<Rightarrow> 's solver_impl \<Rightarrow> expr list \<Rightarrow> 's asking" where
  "timing_questions b S cs = \<lparr>may = TimingSolver_mayBeTrue b S cs, must = TimingSolver_mustBeTrue b S cs\<rparr>"

text \<open>An example is tried first: the object before it may hold it.\<close>

definition near_example :: "nat \<Rightarrow> 's asking \<Rightarrow> address_space \<Rightarrow> expr \<Rightarrow> 64 word \<Rightarrow> ('s, object_pair option) call" where
  "near_example pw Q objs addr example =
     (case lookup_previous mo_key example objs of
        Some (mo, os) \<Rightarrow>
          if unat (example - moAddress mo) < moSize mo then returns (Some (mo, os))
          else search_all pw Q objs example addr
      | None \<Rightarrow> search_all pw Q objs example addr)"

definition resolveOne :: "nat \<Rightarrow> bool \<Rightarrow> 's solver_impl \<Rightarrow> expr list \<Rightarrow> address_space \<Rightarrow> expr \<Rightarrow> ('s, object_pair option) call" where
  "resolveOne pw b S cs objs addr =
     (case addr of
        ConstantExpr CE \<Rightarrow> building (resolveOne_const objs CE) returns
      | _ \<Rightarrow> andthen (TimingSolver_getValue b S cs addr) (\<lambda>cex.
          building (ZExtValue cex) (near_example pw (timing_questions b S cs) objs addr)))"

text \<open>
  \<open>resolve\<close> without a timeout. A step of a search ends the search of all, with whether the
  resolution is incomplete, or this direction, or goes on with the list of results; a query that
  fails makes the resolution incomplete.
\<close>

datatype step = Finished bool | Break | Go_on

definition asked :: "('s, bool) call \<Rightarrow> (bool \<Rightarrow> 's \<Rightarrow> ((step \<times> object_pair list) \<times> 's) option) \<Rightarrow> object_pair list \<Rightarrow> 's \<Rightarrow> ((step \<times> object_pair list) \<times> 's) option" where
  "asked m f rl s = (case m s of None \<Rightarrow> None | Some (None, s') \<Rightarrow> Some ((Finished True, rl), s') | Some (Some b, s') \<Rightarrow> f b s')"

definition check_object :: "'s asking \<Rightarrow> nat \<Rightarrow> object_pair \<Rightarrow> expr \<Rightarrow> object_pair list \<Rightarrow> 's \<Rightarrow> ((step \<times> object_pair list) \<times> 's) option" where
  "check_object Q maxResolutions p inBounds rl =
     asked (may Q inBounds) (\<lambda>mayBeTrue s.
       if mayBeTrue then
         (let rl' = rl @ [p] in
          if length rl' = 1 then
            asked (must Q inBounds) (\<lambda>mustBeTrue s. Some ((if mustBeTrue then Finished False else Go_on, rl'), s)) rl' s
          else Some ((if length rl' = maxResolutions then Finished True else Go_on, rl'), s))
       else Some ((Go_on, rl), s)) rl"

definition back_step :: "nat \<Rightarrow> 's asking \<Rightarrow> nat \<Rightarrow> expr \<Rightarrow> object_pair \<Rightarrow> object_pair list \<Rightarrow> 's \<Rightarrow> ((step \<times> object_pair list) \<times> 's) option" where
  "back_step pw Q maxResolutions addr p rl s =
     do { inBounds \<leftarrow> getBoundsCheckPointer pw (fst p) addr;
          ((st, rl'), s') \<leftarrow> check_object Q maxResolutions p inBounds rl s;
          if st = Go_on then
            do { ge \<leftarrow> not_below pw addr (fst p);
                 asked (must Q ge) (\<lambda>mustBeTrue s. Some ((if mustBeTrue then Break else Go_on, rl'), s)) rl' s' }
          else Some ((st, rl'), s') }"

definition on_step :: "nat \<Rightarrow> 's asking \<Rightarrow> nat \<Rightarrow> expr \<Rightarrow> object_pair \<Rightarrow> object_pair list \<Rightarrow> 's \<Rightarrow> ((step \<times> object_pair list) \<times> 's) option" where
  "on_step pw Q maxResolutions addr p rl s =
     do { lt \<leftarrow> is_below pw addr (fst p);
          asked (must Q lt) (\<lambda>mustBeTrue s.
            if mustBeTrue then Some ((Break, rl), s)
            else do { inBounds \<leftarrow> getBoundsCheckPointer pw (fst p) addr; check_object Q maxResolutions p inBounds rl s }) rl s }"

fun walk :: "(object_pair \<Rightarrow> object_pair list \<Rightarrow> 's \<Rightarrow> ((step \<times> object_pair list) \<times> 's) option) \<Rightarrow> object_pair list \<Rightarrow>
    object_pair list \<Rightarrow> 's \<Rightarrow> ((step \<times> object_pair list) \<times> 's) option" where
  "walk f [] rl s = Some ((Break, rl), s)"
| "walk f (p # ps) rl s =
     do { ((st, rl'), s') \<leftarrow> f p rl s;
          if st = Go_on then walk f ps rl' s' else Some ((st, rl'), s') }"

definition resolve_near :: "nat \<Rightarrow> 's asking \<Rightarrow> address_space \<Rightarrow> nat \<Rightarrow> expr \<Rightarrow> 64 word \<Rightarrow>
    's \<Rightarrow> ((bool \<times> object_pair list) \<times> 's) option" where
  "resolve_near pw Q objs maxResolutions addr example s =
     do { bs \<leftarrow> backwards objs example;
          ((st, rl), s') \<leftarrow> walk (back_step pw Q maxResolutions addr) bs [] s;
          (case st of
             Finished incomplete \<Rightarrow> Some ((incomplete, rl), s')
           | _ \<Rightarrow>
               do { fs \<leftarrow> forwards objs example;
                    ((st', rl'), s'') \<leftarrow> walk (on_step pw Q maxResolutions addr) fs rl s';
                    Some ((st' = Finished True, rl'), s'') }) }"

definition resolve :: "nat \<Rightarrow> bool \<Rightarrow> 's solver_impl \<Rightarrow> expr list \<Rightarrow> address_space \<Rightarrow> nat \<Rightarrow> expr \<Rightarrow>
    's \<Rightarrow> ((bool \<times> object_pair list) \<times> 's) option" where
  "resolve pw b S cs objs maxResolutions addr s =
     (case addr of
        ConstantExpr CE \<Rightarrow>
          do { r \<leftarrow> resolveOne_const objs CE; Some ((False, case r of Some p \<Rightarrow> [p] | None \<Rightarrow> []), s) }
      | _ \<Rightarrow>
          (case TimingSolver_getValue b S cs addr s of
             None \<Rightarrow> None
           | Some (None, s') \<Rightarrow> Some ((True, []), s')
           | Some (Some cex, s') \<Rightarrow>
               do { example \<leftarrow> ZExtValue cex;
                    resolve_near pw (timing_questions b S cs) objs maxResolutions addr example s' }))"

subsection \<open>Copies to and from the program's memory\<close>

type_synonym native = "64 word \<Rightarrow> 8 word"

definition native_bytes :: "native \<Rightarrow> memory_object \<Rightarrow> 8 word list" where
  "native_bytes m mo = map (\<lambda>i. m (moAddress mo + of_nat i)) [0..<moSize mo]"

definition memcpy_to :: "memory_object \<Rightarrow> 8 word list \<Rightarrow> native \<Rightarrow> native" where
  "memcpy_to mo store m a = (if unat (a - moAddress mo) < moSize mo then store ! unat (a - moAddress mo) else m a)"

text \<open>
  An object's store has at least the size of the memory object; else the copies leave it, which is
  undefined. The store is kept apart from the memory. An object mapped for TASE has the memory at its
  address as its store; copying it changes nothing (\<open>copy_out_aliased\<close>).
\<close>

definition copy_out :: "object_pair \<Rightarrow> native \<Rightarrow> native option" where
  "copy_out p m =
     (if isUserSpecified (fst p) \<or> readOnly (snd p) then Some m
      else if moSize (fst p) \<le> length (concreteStore (snd p)) then Some (memcpy_to (fst p) (concreteStore (snd p)) m) else None)"

fun copy_all_out :: "object_pair list \<Rightarrow> native \<Rightarrow> native option" where
  "copy_all_out [] m = Some m"
| "copy_all_out (p # ps) m = Option.bind (copy_out p m) (copy_all_out ps)"

definition copyOutConcretes :: "address_space \<Rightarrow> native \<Rightarrow> native option" where
  "copyOutConcretes objs m = copy_all_out (inorder objs) m"

text \<open>One object of \<open>copyInConcretes\<close>: \<open>Inl\<close> where a read-only object differs.\<close>

definition copy_in :: "native \<Rightarrow> object_pair \<Rightarrow> (unit + object_pair) option" where
  "copy_in m p =
     (let mo = fst p; os = snd p in
      if isUserSpecified mo then Some (Inr p)
      else if length (concreteStore os) < moSize mo then None
      else if native_bytes m mo = take (moSize mo) (concreteStore os) then Some (Inr p)
      else if readOnly os then Some (Inl ())
      else do { wos \<leftarrow> getWriteable mo os;
                Some (Inr (mo, wos\<lparr>concreteStore := native_bytes m mo @ drop (moSize mo) (concreteStore wos)\<rparr>)) })"

text \<open>The loop in the order of the iteration; it ends at a read-only object that differs.\<close>

fun copyInConcretes :: "native \<Rightarrow> address_space \<Rightarrow> (bool \<times> address_space) option" where
  "copyInConcretes m Terminator = Some (True, Terminator)"
| "copyInConcretes m (Node l p h r) =
     do { (ok, l') \<leftarrow> copyInConcretes m l;
          if \<not> ok then Some (False, Node l' p h r)
          else do { q \<leftarrow> copy_in m p;
                    (case q of
                       Inl _ \<Rightarrow> Some (False, Node l' p h r)
                     | Inr p' \<Rightarrow> do { (ok', r') \<leftarrow> copyInConcretes m r; Some (ok', Node l' p' h r') }) } }"

subsection \<open>Address spaces\<close>

text \<open>An object fits: its size is an \<open>unsigned\<close>, it does not wrap around, and it overlaps no other object.\<close>

definition fits :: "memory_object \<Rightarrow> address_space \<Rightarrow> bool" where
  "fits mo objs \<longleftrightarrow> moSize mo < 2 ^ 32 \<and> unat (moAddress mo) + moSize mo \<le> 2 ^ 64 \<and>
     (\<forall>q \<in> elems objs. (moAddress mo < mo_key q \<longrightarrow> unat (moAddress mo) + moSize mo \<le> unat (mo_key q)) \<and>
        (mo_key q < moAddress mo \<longrightarrow> unat (mo_key q) + moSize (fst q) \<le> unat (moAddress mo)))"

inductive space_reach :: "address_space \<Rightarrow> bool" where
  space_empty: "space_reach Terminator"
| space_bind: "space_reach objs \<Longrightarrow> fits mo objs \<Longrightarrow> space_reach (bindObject mo os objs)"
| space_unbind: "space_reach objs \<Longrightarrow> space_reach (unbindObject mo objs)"

definition separate :: "address_space \<Rightarrow> bool" where
  "separate objs \<longleftrightarrow> tree_ok mo_key objs \<and> (\<forall>p \<in> elems objs. fits (fst p) objs)"

lemma reach_separate: "space_reach objs \<Longrightarrow> separate objs"
proof (induction rule: space_reach.induct)
  case (space_bind objs mo os)
  let ?new = "bindObject mo os objs"
  have old: "fits (fst p) objs" if "p \<in> elems objs" for p using space_bind.IH that by (simp add: separate_def)
  have o: "tree_ok mo_key objs" using space_bind.IH by (simp add: separate_def)
  have e: "elems ?new = insert (mo, os) {x \<in> elems objs. mo_key x \<noteq> moAddress mo}" and "tree_ok mo_key ?new"
    using tm.rep_contents [OF o, of "(mo, os)"] tm.rep_valid [OF o, of "(mo, os)"] by (simp_all add: bindObject_def mo_key_def)
  moreover have "fits (fst p) ?new" if "p \<in> elems ?new" for p
  proof (cases "p = (mo, os)")
    case True
    then show ?thesis using space_bind.hyps(2) e by (simp add: fits_def mo_key_def)
  next
    case False
    then have p: "p \<in> elems objs" "mo_key p \<noteq> moAddress mo" using that e by auto
    have "(mo_key p < moAddress mo \<longrightarrow> unat (mo_key p) + moSize (fst p) \<le> unat (moAddress mo)) \<and>
        (moAddress mo < mo_key p \<longrightarrow> unat (moAddress mo) + moSize mo \<le> unat (mo_key p))"
      using space_bind.hyps(2) p(1) by (simp add: fits_def)
    then show ?thesis using old [OF p(1)] e by (simp add: fits_def mo_key_def)
  qed
  ultimately show ?case by (simp add: separate_def)
next
  case (space_unbind objs mo)
  then show ?case
    using tm.rem_contents [of mo_key objs "moAddress mo"] tm.rem_valid [of mo_key objs "moAddress mo"]
    by (auto simp: separate_def unbindObject_def fits_def)
qed (simp add: separate_def reach_ok empty)

text \<open>The address lies in the object, or is that of an object without bytes.\<close>

definition in_object :: "memory_object \<Rightarrow> 64 word \<Rightarrow> bool" where
  "in_object mo a \<longleftrightarrow> (if moSize mo = 0 then a = moAddress mo else moAddress mo \<le> a \<and> unat a < unat (moAddress mo) + moSize mo)"

lemma offset_in_object:
  assumes "fits mo objs"
  shows "(moSize mo = 0 \<and> a = moAddress mo \<or> unat (a - moAddress mo) < moSize mo) \<longleftrightarrow> in_object mo a"
proof (cases "moAddress mo \<le> a")
  case True
  then have "unat (a - moAddress mo) = unat a - unat (moAddress mo)" "unat (moAddress mo) \<le> unat a"
    by (simp_all add: unat_sub word_le_nat_alt)
  then show ?thesis using True by (auto simp: in_object_def)
next
  case False
  then have "unat a < unat (moAddress mo)" by (simp add: word_less_nat_alt not_le)
  moreover have "unat (a - moAddress mo) = 2 ^ 64 + unat a - unat (moAddress mo)"
    using False calculation unat_sub_if_size [of a "moAddress mo"] by (simp add: word_size)
  ultimately show ?thesis using False assms by (auto simp: in_object_def fits_def)
qed

lemma in_object_key: "in_object mo a \<Longrightarrow> moAddress mo \<le> a"
  by (auto simp: in_object_def split: if_splits)

text \<open>No object that starts after another one, and not above the address, leaves the address to the earlier one.\<close>

lemma later_excludes:
  assumes "separate objs" "p \<in> elems objs" "q \<in> elems objs" "mo_key p < mo_key q" "mo_key q \<le> a"
  shows "\<not> in_object (fst p) a"
proof -
  have "unat (mo_key p) + moSize (fst p) \<le> unat (mo_key q)" using assms(1-4) by (auto simp: separate_def fits_def mo_key_def)
  moreover have "unat (mo_key q) \<le> unat a" using assms(5) by (simp add: word_le_nat_alt)
  ultimately show ?thesis using assms(4,5) by (auto simp: in_object_def mo_key_def)
qed

lemma in_object_unique:
  assumes "separate objs" "p \<in> elems objs" "q \<in> elems objs" "in_object (fst p) a" "in_object (fst q) a"
  shows "p = q"
proof -
  have "mo_key p \<le> a" "mo_key q \<le> a" using assms(4,5) in_object_key by (auto simp: mo_key_def)
  then have "mo_key p = mo_key q"
    using later_excludes [OF assms(1,2,3)] later_excludes [OF assms(1,3,2)] assms(4,5) by (metis linorder_less_linear)
  then show ?thesis using ordered_inj [of mo_key objs] assms(1-3) by (auto simp: separate_def tree_ok_def inj_on_def)
qed

lemma resolve_address_iff:
  assumes "separate objs"
  shows "resolve_address objs a = Some p \<longleftrightarrow> p \<in> elems objs \<and> in_object (fst p) a"
proof -
  have o: "tree_ok mo_key objs" using assms by (simp add: separate_def)
  have inside: "(moSize (fst q) = 0 \<and> a = moAddress (fst q) \<or> unat (a - moAddress (fst q)) < moSize (fst q)) \<longleftrightarrow> in_object (fst q) a"
    if "q \<in> elems objs" for q using assms that by (intro offset_in_object) (auto simp: separate_def)
  show ?thesis
  proof (cases "lookup_previous mo_key a objs")
    case None
    then have "\<not> mo_key q \<le> a" if "q \<in> elems objs" for q using tm.previous_None [OF o elems_finite, of a] that by auto
    then have "\<not> (p \<in> elems objs \<and> in_object (fst p) a)" using in_object_key [of "fst p" a] by (metis mo_key_def)
    then show ?thesis using None by (simp add: resolve_address_def)
  next
    case (Some q)
    then have q: "q \<in> elems objs" "mo_key q \<le> a" "\<forall>y \<in> elems objs. mo_key y \<le> a \<longrightarrow> mo_key y \<le> mo_key q"
      using tm.previous_Some [OF o] by auto
    have "resolve_address objs a = (if in_object (fst q) a then Some q else None)"
      using Some inside [OF q(1)] by (cases q) (simp add: resolve_address_def)
    moreover have "p = q" if "p \<in> elems objs" "in_object (fst p) a"
    proof -
      have "mo_key p \<le> a" using in_object_key [OF that(2)] by (simp add: mo_key_def)
      then have "mo_key p \<le> mo_key q" "\<not> mo_key p < mo_key q" using q that later_excludes [OF assms that(1) q(1)] by auto
      then show ?thesis using ordered_inj [of mo_key objs] o that(1) q(1) by (auto simp: tree_ok_def inj_on_def)
    qed
    ultimately show ?thesis using q(1) by auto
  qed
qed

end
