(* ===== verification/Address_Resolution.thy ===== *)
theory Address_Resolution
  imports Address_Space Complete_Solver
begin

text \<open>
  The resolution of symbolic addresses (\<^verbatim>\<open>klee/lib/Core/AddressSpace.cpp\<close>): for a solver that keeps its
  contract, the searches find exactly the objects an address may lie in.
\<close>

subsection \<open>The questions\<close>

lemma base_expr: "base_const 64 mo = Some (ConstantExpr (APInt 64 (uint (moAddress mo))))"
proof -
  have "unat (moAddress mo) < 2 ^ 64" using unsigned_less [of "moAddress mo"] by simp
  then have "ConstantExpr_create (int (unat (moAddress mo))) 64 = Some (APInt 64 (int (unat (moAddress mo))))"
    by (intro ConstantExpr_create_nat) simp_all
  then show ?thesis by (simp add: base_const_def getBaseExpr_def)
qed

lemma askable_base: "askable A (ConstantExpr (APInt 64 (uint (a :: 64 word))))"
  using unsigned_less [of a] by (simp add: wf_apint_def in_width_def)

lemma address_value:
  assumes "askable A addr" "getWidth addr = 64" "env_ok \<sigma>"
  shows "uint (of_int (eval addr \<sigma>) :: 64 word) = eval addr \<sigma>"
  using eval_in_width [OF assms(3), of addr] assms(1,2) by (simp add: in_width_def unsigned_of_int take_bit_int_eq_self)

lemma not_below_asks:
  assumes "askable A addr" "getWidth addr = 64"
  shows "asks A (not_below 64 addr mo) (\<lambda>\<sigma>. moAddress mo \<le> of_int (eval addr \<sigma>))"
proof -
  let ?b = "ConstantExpr (APInt 64 (uint (moAddress mo)))"
  obtain z where z: "Ule_create ?b addr = Some z" "askable A z" "getWidth z = 1"
    "\<And>\<sigma>. env_ok \<sigma> \<Longrightarrow> eval z \<sigma> = bin_val Ule ?b addr \<sigma>"
    by (rule askable_built [OF Ule_create_builds, of ?b addr A])
       (use assms askable_base [of A "moAddress mo"] Binary_nd [of "{}" A ?b addr Ule] in \<open>auto simp: askable_def\<close>)
  then show ?thesis
    using address_value [OF assms] by (simp add: asks_def not_below_def base_expr Uge_create_def word_le_def)
qed

lemma is_below_asks:
  assumes "askable A addr" "getWidth addr = 64"
  shows "asks A (is_below 64 addr mo) (\<lambda>\<sigma>. of_int (eval addr \<sigma>) < moAddress mo)"
proof -
  let ?b = "ConstantExpr (APInt 64 (uint (moAddress mo)))"
  obtain z where z: "Ult_create addr ?b = Some z" "askable A z" "getWidth z = 1"
    "\<And>\<sigma>. env_ok \<sigma> \<Longrightarrow> eval z \<sigma> = bin_val Ult addr ?b \<sigma>"
    by (rule askable_built [OF Ult_create_builds, of addr ?b A])
       (use assms askable_base [of A "moAddress mo"] Binary_nd [of "{}" A addr ?b Ult] in \<open>auto simp: askable_def\<close>)
  then show ?thesis
    using address_value [OF assms] by (simp add: asks_def is_below_def base_expr word_less_def)
qed

lemma offset_expr:
  assumes "askable A addr" "getWidth addr = 64"
  obtains off where "getOffsetExpr 64 mo addr = Some off" "askable A off" "getWidth off = 64"
    "\<And>\<sigma>. env_ok \<sigma> \<Longrightarrow> eval off \<sigma> = uint (of_int (eval addr \<sigma>) - moAddress mo)"
proof -
  let ?b = "ConstantExpr (APInt 64 (uint (moAddress mo)))"
  obtain off where off: "Sub_create addr ?b = Some off" "askable A off" "getWidth off = 64"
    "\<And>\<sigma>. env_ok \<sigma> \<Longrightarrow> eval off \<sigma> = bin_val Sub addr ?b \<sigma>"
    by (rule askable_built [OF Sub_create_builds, of addr ?b A])
       (use assms askable_base [of A "moAddress mo"] Binary_nd [of "{}" A addr ?b Sub] in \<open>auto simp: askable_def\<close>)
  have "eval off \<sigma> = uint (of_int (eval addr \<sigma>) - moAddress mo)" if "env_ok \<sigma>" for \<sigma>
    using off(4) [OF that] address_value [OF assms that] assms(2) by (simp add: uint_word_ariths take_bit_eq_mod)
  moreover have "getOffsetExpr 64 mo addr = Some off"
    using off(1) base_expr [of mo] by (auto simp: getOffsetExpr_def base_const_def)
  ultimately show thesis using that off(2,3) by blast
qed

lemma bounds_asks:
  assumes "askable A addr" "getWidth addr = 64" "fits mo objs"
  shows "asks A (getBoundsCheckPointer 64 mo addr) (\<lambda>\<sigma>. in_object mo (of_int (eval addr \<sigma>)))"
proof -
  obtain off where off: "getOffsetExpr 64 mo addr = Some off" "askable A off" "getWidth off = 64"
    "\<And>\<sigma>. env_ok \<sigma> \<Longrightarrow> eval off \<sigma> = uint (of_int (eval addr \<sigma>) - moAddress mo)"
    using offset_expr [OF assms(1,2)] by blast
  show ?thesis
  proof (cases "moSize mo = 0")
    case True
    let ?z = "ConstantExpr (APInt 64 0)"
    obtain z where z: "Eq_create off ?z = Some z" "askable A z" "getWidth z = 1" "\<And>\<sigma>. env_ok \<sigma> \<Longrightarrow> eval z \<sigma> = bin_val Eq off ?z \<sigma>"
      by (rule askable_built [OF Eq_create_builds_aux, of off ?z A])
         (use off askable_base [of A 0] Eq_nd(1) [of "{}" A off ?z] in \<open>auto simp: askable_def\<close>)
    then show ?thesis
      using True off by (auto simp: asks_def getBoundsCheckPointer_def getBoundsCheckOffset_def ConstantExpr_alloc_def in_object_def uint_0_iff)
  next
    case False
    let ?z = "ConstantExpr (APInt 64 (int (moSize mo)))"
    have n: "moSize mo < 2 ^ 64" using assms(3) by (simp add: fits_def)
    obtain z where z: "Ult_create off ?z = Some z" "askable A z" "getWidth z = 1" "\<And>\<sigma>. env_ok \<sigma> \<Longrightarrow> eval z \<sigma> = bin_val Ult off ?z \<sigma>"
      by (rule askable_built [OF Ult_create_builds, of off ?z A])
         (use off n Binary_nd [of "{}" A off ?z Ult] in \<open>auto simp: askable_def\<close>)
    have "uint (a - moAddress mo) < int (moSize mo) \<longleftrightarrow> in_object mo a" for a
      using offset_in_object [OF assms(3), of a] False by (metis of_nat_less_iff uint_nat)
    then show ?thesis
      using False off z ConstantExpr_create_nat [of 64 "moSize mo"] n
      by (simp add: asks_def getBoundsCheckPointer_def getBoundsCheckOffset_def getSizeExpr_def)
  qed
qed

subsection \<open>Their answers\<close>

text \<open>The object may hold an address of \<open>F\<close>.\<close>

definition hits :: "(64 word \<Rightarrow> bool) \<Rightarrow> object_pair \<Rightarrow> bool" where
  "hits F p \<longleftrightarrow> (\<exists>a. F a \<and> in_object (fst p) a)"

text \<open>The questions about an object are answered for the addresses of \<open>F\<close>.\<close>

definition answered :: "bool \<Rightarrow> (64 word \<Rightarrow> bool) \<Rightarrow> 's asking \<Rightarrow> ('s \<Rightarrow> bool) \<Rightarrow> expr \<Rightarrow> object_pair \<Rightarrow> bool" where
  "answered may_fail F Q sinv addr p \<longleftrightarrow>
     (\<exists>z. getBoundsCheckPointer 64 (fst p) addr = Some z \<and>
        (\<forall>s. sinv s \<longrightarrow> answers may_fail sinv (\<lambda>b. b = hits F p) (may Q z s) \<and>
           answers may_fail sinv (\<lambda>b. b = (\<forall>a. F a \<longrightarrow> in_object (fst p) a)) (must Q z s))) \<and>
     (\<exists>z. not_below 64 addr (fst p) = Some z \<and>
        (\<forall>s. sinv s \<longrightarrow> answers may_fail sinv (\<lambda>b. b = (\<forall>a. F a \<longrightarrow> mo_key p \<le> a)) (must Q z s))) \<and>
     (\<exists>z. is_below 64 addr (fst p) = Some z \<and>
        (\<forall>s. sinv s \<longrightarrow> answers may_fail sinv (\<lambda>b. b = (\<forall>a. F a \<longrightarrow> a < mo_key p)) (must Q z s)))"

definition addresses :: "expr list \<Rightarrow> expr \<Rightarrow> 64 word \<Rightarrow> bool" where
  "addresses cs addr a \<longleftrightarrow> feasible \<lparr>qconstraints = cs, qexpr = addr\<rparr> (uint a)"

lemma addresses_iff:
  assumes "askable A addr" "getWidth addr = 64"
  shows "(\<exists>a. addresses cs addr a \<and> P a) \<longleftrightarrow> (\<exists>\<sigma>. contents \<sigma> \<and> holds cs \<sigma> \<and> P (of_int (eval addr \<sigma>)))"
proof
  assume "\<exists>a. addresses cs addr a \<and> P a"
  then obtain a \<sigma> where "contents \<sigma>" "holds cs \<sigma>" "eval addr \<sigma> = uint a" "P a" by (auto simp: addresses_def feasible_def)
  then show "\<exists>\<sigma>. contents \<sigma> \<and> holds cs \<sigma> \<and> P (of_int (eval addr \<sigma>))" by (intro exI [of _ \<sigma>]) simp
next
  assume "\<exists>\<sigma>. contents \<sigma> \<and> holds cs \<sigma> \<and> P (of_int (eval addr \<sigma>))"
  then obtain \<sigma> where "contents \<sigma>" "holds cs \<sigma>" "P (of_int (eval addr \<sigma>))" by blast
  then show "\<exists>a. addresses cs addr a \<and> P a"
    using address_value [OF assms, of \<sigma>] by (intro exI [of _ "of_int (eval addr \<sigma>)"]) (auto simp: addresses_def feasible_def)
qed

lemma addresses_all:
  assumes "askable A addr" "getWidth addr = 64"
  shows "(\<forall>a. addresses cs addr a \<longrightarrow> P a) \<longleftrightarrow> (\<forall>\<sigma>. contents \<sigma> \<and> holds cs \<sigma> \<longrightarrow> P (of_int (eval addr \<sigma>)))"
  using addresses_iff [OF assms, of cs "\<lambda>a. \<not> P a"] by blast

context solver_contract
begin

lemma asks_answers:
  assumes "query_ok A \<lparr>qconstraints = cs, qexpr = addr\<rparr>" "getWidth addr = 64"
    and "asks A x (\<lambda>\<sigma>. P (of_int (eval addr \<sigma>)))"
  shows "\<exists>z. x = Some z \<and> (\<forall>s. sinv s \<longrightarrow>
    answers may_fail sinv (\<lambda>r. r = (\<exists>a. addresses cs addr a \<and> P a)) (may (timing_questions b S cs) z s) \<and>
    answers may_fail sinv (\<lambda>r. r = (\<forall>a. addresses cs addr a \<longrightarrow> P a)) (must (timing_questions b S cs) z s))"
proof -
  obtain z where z: "x = Some z" "asks A (Some z) (\<lambda>\<sigma>. P (of_int (eval addr \<sigma>)))" using asks_Some [OF assms(3)] by blast
  have addr: "askable A addr" using query_okD(1) [OF assms(1)] by simp
  have q: "bool_query A \<lparr>qconstraints = cs, qexpr = z\<rparr>" using asks_bool_query [OF z(2) assms(1)] by (simp add: withExpr_def)
  have "(\<not> invalid cs z) = (\<exists>a. addresses cs addr a \<and> P a)" "valid cs z = (\<forall>a. addresses cs addr a \<longrightarrow> P a)"
    using addresses_iff [OF addr assms(2), of cs P] addresses_all [OF addr assms(2), of cs P] asks_valid [OF z(2), of cs] asks_invalid [OF z(2), of cs] by auto
  then show ?thesis
    using z(1) TimingSolver_may_answers [OF q] TimingSolver_must_answers [OF q] by (simp add: timing_questions_def)
qed

lemma solver_answered:
  assumes "query_ok A \<lparr>qconstraints = cs, qexpr = addr\<rparr>" "getWidth addr = 64" "fits (fst p) objs"
  shows "answered may_fail (addresses cs addr) (timing_questions b S cs) sinv addr p"
proof -
  have addr: "askable A addr" using query_okD(1) [OF assms(1)] by simp
  note ask = asks_answers [OF assms(1,2)]
  show ?thesis
    unfolding answered_def hits_def mo_key_def
    using ask [OF bounds_asks [OF addr assms(2,3)]] ask [OF not_below_asks [OF addr assms(2), of "fst p"]]
      ask [OF is_below_asks [OF addr assms(2), of "fst p"]] by (intro conjI; fast)
qed

end

subsection \<open>The search for one object\<close>

text \<open>The result of a search among \<open>ps\<close>: an object that may hold the address, or none if none may.\<close>

definition found :: "(64 word \<Rightarrow> bool) \<Rightarrow> object_pair list \<Rightarrow> object_pair option \<Rightarrow> bool" where
  "found F ps r \<longleftrightarrow> (case r of Some p \<Rightarrow> p \<in> set ps \<and> hits F p | None \<Rightarrow> (\<forall>p \<in> set ps. \<not> hits F p))"

lemma found_head: "hits F p \<Longrightarrow> found F (p # ps) (Some p)"
  by (simp add: found_def)

lemma earlier_missed:
  assumes "separate objs" "p \<in> elems objs" "q \<in> elems objs" "mo_key q < mo_key p" "\<forall>a. F a \<longrightarrow> mo_key p \<le> a"
  shows "\<not> hits F q"
  using later_excludes [OF assms(1,3,2,4)] assms(5) by (auto simp: hits_def)

lemma later_missed:
  assumes "mo_key p \<le> mo_key q" "\<forall>a. F a \<longrightarrow> a < mo_key p"
  shows "\<not> hits F q"
  using assms in_object_key [of "fst q"] by (fastforce simp: hits_def mo_key_def)

lemma search_back_found:
  assumes "separate objs" "\<And>p. p \<in> elems objs \<Longrightarrow> answered may_fail F Q sinv addr p"
    and "set ps \<subseteq> elems objs" "sorted_wrt (\<lambda>p q. mo_key q < mo_key p) ps" "sinv s"
  shows "answers may_fail sinv (found F ps) (search_back 64 Q addr ps s)"
  using assms(3-5)
proof (induction ps arbitrary: s)
  case (Cons p ps)
  have p: "p \<in> elems objs" "answered may_fail F Q sinv addr p" using Cons.prems(1) assms(2) by auto
  obtain z where z: "getBoundsCheckPointer 64 (fst p) addr = Some z" "\<And>s. sinv s \<Longrightarrow> answers may_fail sinv (\<lambda>b. b = hits F p) (may Q z s)"
    using p(2) by (auto simp: answered_def)
  obtain g where g: "not_below 64 addr (fst p) = Some g"
    "\<And>s. sinv s \<Longrightarrow> answers may_fail sinv (\<lambda>b. b = (\<forall>a. F a \<longrightarrow> mo_key p \<le> a)) (must Q g s)"
    using p(2) by (auto simp: answered_def)
  have rest: "answers may_fail sinv (found F (p # ps)) (andthen (must Q g) (\<lambda>mustBeTrue. if mustBeTrue then returns None else search_back 64 Q addr ps) s')"
    if "sinv s'" "\<not> hits F p" for s'
  proof (rule answers_andthen, rule g(2) [OF that(1)])
    fix r s'' assume r: "r = (\<forall>a. F a \<longrightarrow> mo_key p \<le> a)" "sinv s''"
    have "answers may_fail sinv (found F (p # ps)) (search_back 64 Q addr ps s'')"
      by (rule answers_weaken [OF Cons.IH]) (use Cons.prems r(2) that(2) in \<open>auto simp: found_def split: option.splits\<close>)
    moreover have "found F (p # ps) None" if r
      using that r(1) \<open>\<not> hits F p\<close> earlier_missed [OF assms(1) p(1), of _ F] Cons.prems(1,2) by (auto simp: found_def)
    ultimately show "answers may_fail sinv (found F (p # ps)) ((if r then returns None else search_back 64 Q addr ps) s'')" using r(2) by simp
  qed
  show ?case
    unfolding search_back.simps
    by (rule answers_building [OF z(1)], rule answers_andthen, rule z(2) [OF Cons.prems(3)])
       (use rest found_head [of F p ps] in \<open>auto simp: building_def g(1)\<close>)
qed (simp add: found_def)

lemma search_on_found:
  assumes "\<And>p. p \<in> elems objs \<Longrightarrow> answered may_fail F Q sinv addr p"
    and "set ps \<subseteq> elems objs" "sorted_wrt (\<lambda>p q. mo_key p < mo_key q) ps" "sinv s"
  shows "answers may_fail sinv (found F ps) (search_on 64 Q addr ps s)"
  using assms(2-4)
proof (induction ps arbitrary: s)
  case (Cons p ps)
  have p: "answered may_fail F Q sinv addr p" using Cons.prems(1) assms(1) by auto
  obtain z where z: "getBoundsCheckPointer 64 (fst p) addr = Some z" "\<And>s. sinv s \<Longrightarrow> answers may_fail sinv (\<lambda>b. b = hits F p) (may Q z s)"
    using p by (auto simp: answered_def)
  obtain g where g: "is_below 64 addr (fst p) = Some g"
    "\<And>s. sinv s \<Longrightarrow> answers may_fail sinv (\<lambda>b. b = (\<forall>a. F a \<longrightarrow> a < mo_key p)) (must Q g s)"
    using p by (auto simp: answered_def)
  have rest: "answers may_fail sinv (found F (p # ps)) (andthen (may Q z) (\<lambda>mayBeTrue. if mayBeTrue then returns (Some p) else search_on 64 Q addr ps) s')"
    if "sinv s'" for s'
  proof (rule answers_andthen, rule z(2) [OF that])
    fix r s'' assume r: "r = hits F p" "sinv s''"
    have "answers may_fail sinv (found F (p # ps)) (search_on 64 Q addr ps s'')" if "\<not> r"
      by (rule answers_weaken [OF Cons.IH]) (use Cons.prems r that in \<open>auto simp: found_def split: option.splits\<close>)
    then show "answers may_fail sinv (found F (p # ps)) ((if r then returns (Some p) else search_on 64 Q addr ps) s'')"
      using r by (auto simp: found_def)
  qed
  have none: "found F (p # ps) None" if "\<forall>a. F a \<longrightarrow> a < mo_key p"
    using Cons.prems(2) later_missed [OF _ that] by (auto simp: found_def less_imp_le)
  show ?case
    unfolding search_on.simps
    by (rule answers_building [OF g(1)], rule answers_andthen, rule g(2) [OF Cons.prems(3)])
       (use rest none in \<open>auto simp: building_def z(1)\<close>)
qed (simp add: found_def)

lemma directions:
  assumes "separate objs"
  obtains bs fs where "backwards objs k = Some bs" "forwards objs k = Some fs" "set bs \<union> set fs = elems objs"
    "sorted_wrt (\<lambda>p q. mo_key q < mo_key p) bs" "sorted_wrt (\<lambda>p q. mo_key p < mo_key q) fs"
proof -
  have o: "ordered mo_key objs" using assms by (simp add: separate_def tree_ok_def)
  have s: "sorted_wrt (\<lambda>p q. mo_key p < mo_key q) (inorder objs)" using o by (simp add: ordered_def)
  show thesis
  proof (rule that)
    show "backwards objs k = Some (rev (filter (\<lambda>p. mo_key p \<le> k) (inorder objs)))"
      "forwards objs k = Some (filter (\<lambda>p. k < mo_key p) (inorder objs))"
      by (simp_all add: backwards_def forwards_def upper_bound_both_ways [OF o])
    show "sorted_wrt (\<lambda>p q. mo_key q < mo_key p) (rev (filter (\<lambda>p. mo_key p \<le> k) (inorder objs)))"
      "sorted_wrt (\<lambda>p q. mo_key p < mo_key q) (filter (\<lambda>p. k < mo_key p) (inorder objs))"
      using s by (simp_all add: sorted_wrt_rev sorted_wrt_filter)
  qed (auto simp: elems_def)
qed

definition resolved :: "(64 word \<Rightarrow> bool) \<Rightarrow> address_space \<Rightarrow> object_pair option \<Rightarrow> bool" where
  "resolved F objs r \<longleftrightarrow> (case r of Some p \<Rightarrow> p \<in> elems objs \<and> hits F p | None \<Rightarrow> (\<forall>p \<in> elems objs. \<not> hits F p))"

lemma search_all_found:
  assumes "separate objs" "\<And>p. p \<in> elems objs \<Longrightarrow> answered may_fail F Q sinv addr p" "sinv s"
  shows "answers may_fail sinv (resolved F objs) (search_all 64 Q objs k addr s)"
proof -
  obtain bs fs where d: "backwards objs k = Some bs" "forwards objs k = Some fs" "set bs \<union> set fs = elems objs"
    "sorted_wrt (\<lambda>p q. mo_key q < mo_key p) bs" "sorted_wrt (\<lambda>p q. mo_key p < mo_key q) fs"
    using directions [OF assms(1)] by blast
  have on: "answers may_fail sinv (resolved F objs) (search_on 64 Q addr fs s')" if "sinv s'" "found F bs None" for s'
    by (rule answers_weaken [OF search_on_found [OF assms(2) _ d(5) that(1)]])
       (use d(3) that(2) in \<open>auto simp: found_def resolved_def split: option.splits\<close>)
  have hit: "resolved F objs (Some p)" if "found F bs (Some p)" for p
    using that d(3) by (auto simp: found_def resolved_def)
  show ?thesis
    unfolding search_all_def
  proof (rule answers_building [OF d(1)], rule answers_andthen, rule search_back_found [OF assms(1,2) _ d(4) assms(3)])
    fix r s' assume "found F bs r" "sinv s'"
    then show "answers may_fail sinv (resolved F objs) ((if r \<noteq> None then returns r else building (forwards objs k) (search_on 64 Q addr)) s')"
      using on hit by (cases r) (auto simp: building_def d(2))
  qed (use d(3) in auto)
qed

lemma constant_addresses:
  assumes "query_ok A \<lparr>qconstraints = cs, qexpr = ConstantExpr CE\<rparr>" "bitWidth CE = 64"
  shows "addresses cs (ConstantExpr CE) a \<longleftrightarrow> a = of_int (apval CE)" "ZExtValue CE = Some (of_int (apval CE))"
proof -
  have w: "in_width 64 (apval CE)" using query_okD(1) [OF assms(1)] assms(2) by (simp add: wf_apint_def)
  then have "uint (of_int (apval CE) :: 64 word) = apval CE" by (simp add: in_width_def unsigned_of_int take_bit_int_eq_self)
  then have "uint a = apval CE \<longleftrightarrow> a = of_int (apval CE)" by (metis word_of_int_uint)
  then show "addresses cs (ConstantExpr CE) a \<longleftrightarrow> a = of_int (apval CE)"
    using query_okD(2) [OF assms(1)] by (auto simp: addresses_def feasible_def satisfiable_def)
  show "ZExtValue CE = Some (of_int (apval CE))" using assms(2) by (simp add: ZExtValue_def)
qed

lemma constant_resolved:
  assumes "separate objs" "query_ok A \<lparr>qconstraints = cs, qexpr = ConstantExpr CE\<rparr>" "bitWidth CE = 64"
  shows "\<exists>r. resolveOne_const objs CE = Some r \<and> resolved (addresses cs (ConstantExpr CE)) objs r"
proof -
  let ?a = "of_int (apval CE) :: 64 word"
  have "resolved (addresses cs (ConstantExpr CE)) objs (resolve_address objs ?a)"
    using resolve_address_iff [OF assms(1), of ?a]
    by (cases "resolve_address objs ?a") (auto simp: resolved_def hits_def constant_addresses(1) [OF assms(2,3)])
  then show ?thesis by (simp add: resolveOne_const_def constant_addresses(2) [OF assms(2,3)])
qed

lemma example_address:
  assumes "wf_apint c" "bitWidth c = 64" "feasible \<lparr>qconstraints = cs, qexpr = addr\<rparr> (apval c)"
  shows "addresses cs addr (of_int (apval c))" "ZExtValue c = Some (of_int (apval c))"
proof -
  have "uint (of_int (apval c) :: 64 word) = apval c"
    using assms(1,2) by (simp add: wf_apint_def in_width_def unsigned_of_int take_bit_int_eq_self)
  then show "addresses cs addr (of_int (apval c))" "ZExtValue c = Some (of_int (apval c))"
    using assms(2,3) by (simp_all add: addresses_def ZExtValue_def)
qed

context solver_contract
begin

lemma resolveOne_resolved:
  assumes "separate objs" "query_ok A \<lparr>qconstraints = cs, qexpr = addr\<rparr>" "getWidth addr = 64" "sinv s"
  shows "answers may_fail sinv (resolved (addresses cs addr) objs) (resolveOne 64 b S cs objs addr s)"
proof (cases "isConstantExpr addr")
  case True
  then obtain CE where "addr = ConstantExpr CE" by (cases addr) auto
  then show ?thesis
    using constant_resolved [OF assms(1), of A cs CE] assms(2,3,4) by (auto simp: resolveOne_def building_def)
next
  case False
  let ?F = "addresses cs addr" and ?Q = "timing_questions b S cs"
  have all: "answers may_fail sinv (resolved ?F objs) (search_all 64 ?Q objs k addr s')" if "sinv s'" for k s'
    by (rule search_all_found [OF assms(1) solver_answered [OF assms(2,3)] that]) (use assms(1) in \<open>auto simp: separate_def\<close>)
  have near: "resolved ?F objs (Some (mo, os))"
    if "?F k" "lookup_previous mo_key k objs = Some (mo, os)" "unat (k - moAddress mo) < moSize mo" for k mo os
  proof -
    have "(mo, os) \<in> elems objs" using tm.previous_Some [of mo_key objs k] that(2) assms(1) by (auto simp: separate_def)
    moreover from this have "fits mo objs" using assms(1) by (auto simp: separate_def)
    ultimately show ?thesis using offset_in_object [of mo objs k] that by (auto simp: resolved_def hits_def)
  qed
  have rest: "answers may_fail sinv (resolved ?F objs) (building (ZExtValue c) (near_example 64 ?Q objs addr) s')"
    if c: "wf_apint c \<and> bitWidth c = getWidth addr \<and> feasible \<lparr>qconstraints = cs, qexpr = addr\<rparr> (apval c)" "sinv s'" for c s'
  proof -
    have "?F (of_int (apval c))" "ZExtValue c = Some (of_int (apval c))"
      using example_address [of c cs addr] c assms(3) by simp_all
    then show ?thesis
      using all [OF c(2)] near [of "of_int (apval c)"] c(2) by (auto simp: building_def near_example_def split: option.split)
  qed
  have "answers may_fail sinv (resolved ?F objs) (andthen (TimingSolver_getValue b S cs addr)
      (\<lambda>cex. building (ZExtValue cex) (near_example 64 ?Q objs addr)) s)"
    by (rule answers_andthen, rule TimingSolver_value_answers [OF assms(2,4)], rule rest)
  then show ?thesis using False by (cases addr) (simp_all add: resolveOne_def)
qed

end

subsection \<open>The search for all objects\<close>

text \<open>
  A search that had found \<open>rl\<close> has, after the objects \<open>ps\<close>, found \<open>rl'\<close>: only objects that may hold the
  address, and all of them if it has not ended. It ends as complete with the only object that may.
\<close>

definition searched :: "(64 word \<Rightarrow> bool) \<Rightarrow> nat \<Rightarrow> object_pair list \<Rightarrow> object_pair list \<Rightarrow> step \<Rightarrow> object_pair list \<Rightarrow> bool" where
  "searched F n ps rl st rl' \<longleftrightarrow>
     set rl \<subseteq> set rl' \<and> set rl' \<subseteq> set rl \<union> {p \<in> set ps. hits F p} \<and>
     (st = Finished False \<longrightarrow> (\<exists>p. rl' = [p] \<and> (\<forall>a. F a \<longrightarrow> in_object (fst p) a))) \<and>
     (st = Go_on \<or> st = Break \<longrightarrow> {p \<in> set ps. hits F p} \<subseteq> set rl') \<and>
     (2 \<le> n \<and> length rl < n \<longrightarrow> length rl' \<le> n \<and> (st = Go_on \<or> st = Break \<longrightarrow> length rl' < n))"

text \<open>A step returns and keeps the invariant.\<close>

definition steps :: "('s \<Rightarrow> bool) \<Rightarrow> (step \<Rightarrow> object_pair list \<Rightarrow> bool) \<Rightarrow> ((step \<times> object_pair list) \<times> 's) option \<Rightarrow> bool" where
  "steps sinv P res \<longleftrightarrow> (\<exists>st rl s. res = Some ((st, rl), s) \<and> sinv s \<and> P st rl)"

lemma steps_Some [simp]: "steps sinv P (Some ((st, rl), s)) \<longleftrightarrow> sinv s \<and> P st rl"
  by (auto simp: steps_def)

lemma steps_asked:
  assumes "answers may_fail sinv R (m s)" "P (Finished True) rl" "\<And>b s'. R b \<Longrightarrow> sinv s' \<Longrightarrow> steps sinv P (f b s')"
  shows "steps sinv P (asked m f rl s)"
  using assms by (auto simp: answers_def asked_def steps_def split: option.split)

lemma steps_bind:
  assumes "steps sinv R m" "\<And>st rl s. R st rl \<Longrightarrow> sinv s \<Longrightarrow> steps sinv P (f ((st, rl), s))"
  shows "steps sinv P (Option.bind m f)"
  using assms by (auto simp: steps_def)

lemma steps_weaken: "steps sinv R m \<Longrightarrow> (\<And>st rl. R st rl \<Longrightarrow> P st rl) \<Longrightarrow> steps sinv P m"
  by (auto simp: steps_def)

lemma check_object_searched:
  assumes "\<And>s. sinv s \<Longrightarrow> answers may_fail sinv (\<lambda>b. b = hits F p) (may Q z s)"
    "\<And>s. sinv s \<Longrightarrow> answers may_fail sinv (\<lambda>b. b = (\<forall>a. F a \<longrightarrow> in_object (fst p) a)) (must Q z s)" "sinv s"
  shows "steps sinv (\<lambda>st rl'. searched F n [p] rl st rl' \<and> st \<noteq> Break) (check_object Q n p z rl s)"
proof -
  have one: "steps sinv (\<lambda>st rl'. searched F n [p] [] st rl' \<and> st \<noteq> Break)
      (asked (must Q z) (\<lambda>mustBeTrue s. Some ((if mustBeTrue then Finished False else Go_on, [p]), s)) [p] s')"
    if "hits F p" "sinv s'" for s'
    by (rule steps_asked, rule assms(2) [OF that(2)]) (use that(1) in \<open>auto simp: searched_def simp del: split_paired_Ex\<close>)
  show ?thesis
    unfolding check_object_def
    by (rule steps_asked, rule assms(1) [OF assms(3)]) (use one in \<open>auto simp: Let_def searched_def\<close>)
qed

lemma searched_weaken: "searched F n [p] rl Go_on rl' \<Longrightarrow> searched F n [p] rl Break rl' \<and> searched F n [p] rl (Finished True) rl'"
  by (auto simp: searched_def)

lemma back_step_searched:
  assumes "answered may_fail F Q sinv addr p" "sinv s"
  shows "steps sinv (\<lambda>st rl'. searched F n [p] rl st rl' \<and> (st = Break \<longrightarrow> (\<forall>a. F a \<longrightarrow> mo_key p \<le> a))) (back_step 64 Q n addr p rl s)"
proof -
  obtain z where z: "getBoundsCheckPointer 64 (fst p) addr = Some z" "\<And>s. sinv s \<Longrightarrow> answers may_fail sinv (\<lambda>b. b = hits F p) (may Q z s)"
    "\<And>s. sinv s \<Longrightarrow> answers may_fail sinv (\<lambda>b. b = (\<forall>a. F a \<longrightarrow> in_object (fst p) a)) (must Q z s)"
    using assms(1) by (auto simp: answered_def)
  obtain g where g: "not_below 64 addr (fst p) = Some g"
    "\<And>s. sinv s \<Longrightarrow> answers may_fail sinv (\<lambda>b. b = (\<forall>a. F a \<longrightarrow> mo_key p \<le> a)) (must Q g s)"
    using assms(1) by (auto simp: answered_def)
  have rest: "steps sinv (\<lambda>st rl'. searched F n [p] rl st rl' \<and> (st = Break \<longrightarrow> (\<forall>a. F a \<longrightarrow> mo_key p \<le> a)))
      (asked (must Q g) (\<lambda>mustBeTrue s. Some ((if mustBeTrue then Break else Go_on, rl'), s)) rl' s')"
    if "searched F n [p] rl Go_on rl'" "sinv s'" for rl' s'
    by (rule steps_asked, rule g(2) [OF that(2)]) (use that(1) searched_weaken [OF that(1)] in auto)
  show ?thesis
    unfolding back_step_def z(1) g(1) Option.bind.bind_lunit
    by (rule steps_bind [OF check_object_searched [OF z(2,3) assms(2)]]) (use rest in auto)
qed

lemma on_step_searched:
  assumes "answered may_fail F Q sinv addr p" "sinv s"
  shows "steps sinv (\<lambda>st rl'. searched F n [p] rl st rl' \<and> (st = Break \<longrightarrow> (\<forall>a. F a \<longrightarrow> a < mo_key p))) (on_step 64 Q n addr p rl s)"
proof -
  obtain z where z: "getBoundsCheckPointer 64 (fst p) addr = Some z" "\<And>s. sinv s \<Longrightarrow> answers may_fail sinv (\<lambda>b. b = hits F p) (may Q z s)"
    "\<And>s. sinv s \<Longrightarrow> answers may_fail sinv (\<lambda>b. b = (\<forall>a. F a \<longrightarrow> in_object (fst p) a)) (must Q z s)"
    using assms(1) by (auto simp: answered_def)
  obtain g where g: "is_below 64 addr (fst p) = Some g"
    "\<And>s. sinv s \<Longrightarrow> answers may_fail sinv (\<lambda>b. b = (\<forall>a. F a \<longrightarrow> a < mo_key p)) (must Q g s)"
    using assms(1) by (auto simp: answered_def)
  have check: "steps sinv (\<lambda>st rl'. searched F n [p] rl st rl' \<and> (st = Break \<longrightarrow> (\<forall>a. F a \<longrightarrow> a < mo_key p))) (check_object Q n p z rl s')"
    if "sinv s'" for s'
    by (rule steps_weaken [OF check_object_searched [OF z(2,3) that]]) auto
  show ?thesis
    unfolding on_step_def z(1) g(1) Option.bind.bind_lunit
    by (rule steps_asked, rule g(2) [OF assms(2)]) (use check later_missed [of p p F] in \<open>auto simp: searched_def\<close>)
qed

lemma searched_Cons:
  assumes "searched F n [p] rl Go_on rl1" "searched F n ps rl1 st rl'"
  shows "searched F n (p # ps) rl st rl'"
proof -
  have "set rl \<subseteq> set rl'" "set rl' \<subseteq> set rl \<union> {q \<in> set (p # ps). hits F q}" using assms by (auto simp: searched_def)
  moreover have "{q \<in> set (p # ps). hits F q} \<subseteq> set rl'" if "st = Go_on \<or> st = Break"
    using assms that unfolding searched_def by auto
  moreover have "length rl' \<le> n \<and> (st = Go_on \<or> st = Break \<longrightarrow> length rl' < n)" if "2 \<le> n" "length rl < n"
    using assms that unfolding searched_def by blast
  moreover have "\<exists>q. rl' = [q] \<and> (\<forall>a. F a \<longrightarrow> in_object (fst q) a)" if "st = Finished False"
    using assms(2) that unfolding searched_def by blast
  ultimately show ?thesis unfolding searched_def by blast
qed

lemma searched_more:
  assumes "searched F n [p] rl st rl'" "st \<noteq> Go_on" "st = Break \<Longrightarrow> \<forall>q \<in> set ps. \<not> hits F q"
  shows "searched F n (p # ps) rl st rl'"
  using assms unfolding searched_def by auto

lemma walk_searched:
  assumes "\<And>p rl s. p \<in> set ps \<Longrightarrow> sinv s \<Longrightarrow> steps sinv (\<lambda>st rl'. searched F n [p] rl st rl' \<and> (st = Break \<longrightarrow> B p)) (f p rl s)"
    and "sorted_wrt (\<lambda>p q. B p \<longrightarrow> \<not> hits F q) ps" "sinv s"
  shows "steps sinv (\<lambda>st rl'. searched F n ps rl st rl' \<and> st \<noteq> Go_on) (walk f ps rl s)"
  using assms
proof (induction ps arbitrary: rl s)
  case (Cons p ps)
  have rest: "steps sinv (\<lambda>st rl'. searched F n (p # ps) rl st rl' \<and> st \<noteq> Go_on) (walk f ps rl1 s1)"
    if "searched F n [p] rl Go_on rl1" "sinv s1" for rl1 s1
    by (rule steps_weaken [OF Cons.IH [OF Cons.prems(1)]]) (use Cons.prems(2) that(2) searched_Cons [OF that(1)] in auto)
  have stop: "searched F n (p # ps) rl st rl'" if "searched F n [p] rl st rl'" "st \<noteq> Go_on" "st = Break \<longrightarrow> B p" for st rl'
    by (rule searched_more [OF that(1,2)]) (use that(3) Cons.prems(2) in auto)
  show ?case
    unfolding walk.simps
    by (rule steps_bind, rule Cons.prems(1) [of p s rl]) (use Cons.prems(3) rest stop in auto)
qed (simp add: searched_def)

text \<open>The result of a search among the objects of the address space.\<close>

definition all_found :: "(64 word \<Rightarrow> bool) \<Rightarrow> address_space \<Rightarrow> nat \<Rightarrow> bool \<Rightarrow> object_pair list \<Rightarrow> bool" where
  "all_found F objs n incomplete rl \<longleftrightarrow>
     set rl \<subseteq> {p \<in> elems objs. hits F p} \<and> (\<not> incomplete \<longrightarrow> set rl = {p \<in> elems objs. hits F p}) \<and>
     (2 \<le> n \<longrightarrow> length rl \<le> n)"

lemma only_object:
  assumes "separate objs" "set rl \<subseteq> {p \<in> elems objs. hits F p}" "searched F n ps rl0 (Finished False) rl"
  shows "set rl = {p \<in> elems objs. hits F p}"
proof -
  obtain p where p: "rl = [p]" "\<And>a. F a \<Longrightarrow> in_object (fst p) a" using assms(3) unfolding searched_def by blast
  have "q = p" if q: "q \<in> elems objs" "hits F q" for q
  proof -
    obtain a where "F a" "in_object (fst q) a" using q(2) unfolding hits_def by blast
    then show ?thesis using in_object_unique [OF assms(1) q(1), of p a] p assms(2) by simp
  qed
  then show ?thesis using assms(2) p(1) by auto
qed

lemma resolve_near_found:
  assumes "separate objs" "\<And>p. p \<in> elems objs \<Longrightarrow> answered may_fail F Q sinv addr p" "sinv s"
  shows "\<exists>incomplete rl s'. resolve_near 64 Q objs n addr k s = Some ((incomplete, rl), s') \<and> sinv s' \<and> all_found F objs n incomplete rl"
proof -
  obtain bs fs where d: "backwards objs k = Some bs" "forwards objs k = Some fs" "set bs \<union> set fs = elems objs"
    "sorted_wrt (\<lambda>p q. mo_key q < mo_key p) bs" "sorted_wrt (\<lambda>p q. mo_key p < mo_key q) fs"
    using directions [OF assms(1)] by blast
  have b: "steps sinv (\<lambda>st rl'. searched F n bs [] st rl' \<and> st \<noteq> Go_on) (walk (back_step 64 Q n addr) bs [] s)"
  proof (rule walk_searched [where B = "\<lambda>p. \<forall>a. F a \<longrightarrow> mo_key p \<le> a"], rule back_step_searched [where may_fail = may_fail])
    show "sorted_wrt (\<lambda>p q. (\<forall>a. F a \<longrightarrow> mo_key p \<le> a) \<longrightarrow> \<not> hits F q) bs"
      by (rule sorted_wrt_mono_rel [OF _ d(4)]) (use d(3) earlier_missed [OF assms(1)] in blast)
  qed (use assms(2,3) d(3) in auto)
  have f: "steps sinv (\<lambda>st rl'. searched F n fs rl st rl' \<and> st \<noteq> Go_on) (walk (on_step 64 Q n addr) fs rl s')" if "sinv s'" for rl s'
  proof (rule walk_searched [where B = "\<lambda>p. \<forall>a. F a \<longrightarrow> a < mo_key p"], rule on_step_searched [where may_fail = may_fail])
    show "sorted_wrt (\<lambda>p q. (\<forall>a. F a \<longrightarrow> a < mo_key p) \<longrightarrow> \<not> hits F q) fs"
      by (rule sorted_wrt_mono_rel [OF _ d(5)]) (use later_missed less_imp_le in blast)
  qed (use assms(2) d(3) that in auto)
  obtain st rl s1 where 1: "walk (back_step 64 Q n addr) bs [] s = Some ((st, rl), s1)" "sinv s1" "searched F n bs [] st rl" "st \<noteq> Go_on"
    using b by (auto simp: steps_def)
  have sub1: "set rl \<subseteq> {p \<in> elems objs. hits F p}" using 1(3) d(3) unfolding searched_def by auto
  show ?thesis
  proof (cases st)
    case (Finished incomplete)
    then have "set rl = {p \<in> elems objs. hits F p}" if "\<not> incomplete"
      using only_object [OF assms(1) sub1, of n bs "[]"] 1(3) that by simp
    moreover have "length rl \<le> n" if "2 \<le> n" using 1(3) that unfolding searched_def by simp
    ultimately have "all_found F objs n incomplete rl" using sub1 by (simp add: all_found_def)
    then show ?thesis using 1 d Finished by (simp add: resolve_near_def)
  next
    case Break
    obtain st2 rl2 s2 where 2: "walk (on_step 64 Q n addr) fs rl s1 = Some ((st2, rl2), s2)" "sinv s2" "searched F n fs rl st2 rl2" "st2 \<noteq> Go_on"
      using f [OF 1(2), of rl] by (auto simp: steps_def)
    have sub2: "set rl2 \<subseteq> {p \<in> elems objs. hits F p}" using 2(3) sub1 d(3) unfolding searched_def by auto
    have "set rl2 = {p \<in> elems objs. hits F p}" if "st2 = Break"
      using sub2 1(3) 2(3) d(3) Break that unfolding searched_def by blast
    then have "set rl2 = {p \<in> elems objs. hits F p}" if "st2 \<noteq> Finished True"
      using only_object [OF assms(1) sub2, of n fs rl] 2(3,4) that by (cases st2) auto
    moreover have "length rl2 \<le> n" if "2 \<le> n" using 1(3) 2(3) Break that unfolding searched_def by auto
    ultimately have "all_found F objs n (st2 = Finished True) rl2" using sub2 by (simp add: all_found_def)
    then show ?thesis using 1 2 d Break by (simp add: resolve_near_def)
  qed (use 1(4) in simp)
qed

context solver_contract
begin

lemma resolve_found:
  assumes "separate objs" "query_ok A \<lparr>qconstraints = cs, qexpr = addr\<rparr>" "getWidth addr = 64" "sinv s"
  shows "\<exists>incomplete rl s'. resolve 64 b S cs objs n addr s = Some ((incomplete, rl), s') \<and> sinv s' \<and>
    all_found (addresses cs addr) objs n incomplete rl"
proof (cases "isConstantExpr addr")
  case True
  then obtain CE where CE: "addr = ConstantExpr CE" by (cases addr) auto
  then obtain r where r: "resolveOne_const objs CE = Some r" "resolved (addresses cs addr) objs r"
    using constant_resolved [OF assms(1), of A cs CE] assms(2,3) by auto
  have u: "q = p" if "p \<in> elems objs" "q \<in> elems objs" "hits (addresses cs addr) p" "hits (addresses cs addr) q" for p q
    using that in_object_unique [OF assms(1) that(2,1)] constant_addresses(1) [of A cs CE] assms(2,3) unfolding CE hits_def by auto
  have "all_found (addresses cs addr) objs n False (case r of Some p \<Rightarrow> [p] | None \<Rightarrow> [])"
    using r(2) u by (auto simp: all_found_def resolved_def split: option.splits)
  then show ?thesis using r(1) CE assms(4) by (auto simp: resolve_def)
next
  case False
  have ans: "answered may_fail (addresses cs addr) (timing_questions b S cs) sinv addr p" if "p \<in> elems objs" for p
    by (rule solver_answered [OF assms(2,3)]) (use assms(1) that in \<open>auto simp: separate_def\<close>)
  obtain r s1 where r: "TimingSolver_getValue b S cs addr s = Some (r, s1)" "sinv s1"
    "\<And>c. r = Some c \<Longrightarrow> wf_apint c \<and> bitWidth c = getWidth addr \<and> feasible \<lparr>qconstraints = cs, qexpr = addr\<rparr> (apval c)"
    using TimingSolver_value_answers [OF assms(2,4), where b = b] by (auto simp: answers_def)
  have eq: "resolve 64 b S cs objs n addr s = (case r of None \<Rightarrow> Some ((True, []), s1)
      | Some c \<Rightarrow> Option.bind (ZExtValue c) (\<lambda>example. resolve_near 64 (timing_questions b S cs) objs n addr example s1))"
    using False r(1) by (cases addr) (auto simp: resolve_def split: option.split)
  show ?thesis
  proof (cases r)
    case None
    then show ?thesis using eq r(2) by (auto simp: all_found_def)
  next
    case (Some c)
    then show ?thesis using eq r(3) [OF Some] example_address(2) [of c cs addr] assms(3) resolve_near_found [OF assms(1) ans r(2)] by simp
  qed
qed

end

subsection \<open>When a search is complete\<close>

text \<open>The questions about an object are always answered.\<close>

definition replies :: "'s asking \<Rightarrow> ('s \<Rightarrow> bool) \<Rightarrow> expr option \<Rightarrow> bool" where
  "replies Q sinv x \<longleftrightarrow> (\<forall>z s. x = Some z \<and> sinv s \<longrightarrow>
     (\<exists>r s'. may Q z s = Some (Some r, s') \<and> sinv s') \<and> (\<exists>r s'. must Q z s = Some (Some r, s') \<and> sinv s'))"

definition replies_about :: "'s asking \<Rightarrow> ('s \<Rightarrow> bool) \<Rightarrow> expr \<Rightarrow> object_pair \<Rightarrow> bool" where
  "replies_about Q sinv addr p \<longleftrightarrow> replies Q sinv (getBoundsCheckPointer 64 (fst p) addr) \<and>
     replies Q sinv (not_below 64 addr (fst p)) \<and> replies Q sinv (is_below 64 addr (fst p))"

text \<open>A step that returns does not end the search as incomplete.\<close>

definition unhindered :: "('s \<Rightarrow> bool) \<Rightarrow> ((step \<times> object_pair list) \<times> 's) option \<Rightarrow> bool" where
  "unhindered sinv res \<longleftrightarrow> (\<forall>st rl s. res = Some ((st, rl), s) \<longrightarrow> sinv s \<and> st \<noteq> Finished True)"

lemma unhindered_simps [simp]:
  "unhindered sinv None" "unhindered sinv (Some ((st, rl), s)) \<longleftrightarrow> sinv s \<and> st \<noteq> Finished True"
  by (auto simp: unhindered_def)

lemma unhindered_asked:
  assumes "\<exists>r s'. m s = Some (Some r, s') \<and> sinv s'" "\<And>b s'. sinv s' \<Longrightarrow> unhindered sinv (f b s')"
  shows "unhindered sinv (asked m f rl s)"
  using assms by (auto simp: asked_def)

lemma unhindered_bind:
  assumes "unhindered sinv m" "\<And>st rl s. st \<noteq> Finished True \<Longrightarrow> sinv s \<Longrightarrow> unhindered sinv (f ((st, rl), s))"
  shows "unhindered sinv (Option.bind m f)"
proof (cases m)
  case (Some a)
  then obtain st rl s where "m = Some ((st, rl), s)" by (metis prod.collapse)
  then show ?thesis using assms(1) assms(2) [of st s rl] by simp
qed simp

lemma check_object_unhindered:
  assumes "replies Q sinv (Some z)" "n < 2" "sinv s"
  shows "unhindered sinv (check_object Q n p z rl s)"
proof -
  have one: "unhindered sinv (asked (must Q z) (\<lambda>mustBeTrue s. Some ((if mustBeTrue then Finished False else Go_on, rl'), s)) rl' s')"
    if "sinv s'" for rl' s'
    by (rule unhindered_asked) (use assms(1) that in \<open>auto simp: replies_def\<close>)
  show ?thesis
    unfolding check_object_def
    by (rule unhindered_asked) (use assms one in \<open>auto simp: replies_def Let_def\<close>)
qed

lemma back_step_unhindered:
  assumes "replies_about Q sinv addr p" "n < 2" "sinv s"
  shows "unhindered sinv (back_step 64 Q n addr p rl s)"
proof (cases "getBoundsCheckPointer 64 (fst p) addr")
  case (Some z)
  have check: "unhindered sinv (check_object Q n p z rl s)"
    by (rule check_object_unhindered) (use assms Some in \<open>auto simp: replies_about_def\<close>)
  have rest: "unhindered sinv (asked (must Q g) (\<lambda>mustBeTrue s. Some ((if mustBeTrue then Break else Go_on, rl'), s)) rl' s')"
    if "not_below 64 addr (fst p) = Some g" "sinv s'" for g rl' s'
    by (rule unhindered_asked) (use assms(1) that in \<open>auto simp: replies_about_def replies_def\<close>)
  show ?thesis
    unfolding back_step_def Some Option.bind.bind_lunit
    by (rule unhindered_bind [OF check]) (use rest in \<open>cases "not_below 64 addr (fst p)"; auto\<close>)
qed (simp add: back_step_def)

lemma on_step_unhindered:
  assumes "replies_about Q sinv addr p" "n < 2" "sinv s"
  shows "unhindered sinv (on_step 64 Q n addr p rl s)"
proof (cases "is_below 64 addr (fst p)")
  case (Some g)
  have check: "unhindered sinv (check_object Q n p z rl s')" if "getBoundsCheckPointer 64 (fst p) addr = Some z" "sinv s'" for z s'
    by (rule check_object_unhindered) (use assms that in \<open>auto simp: replies_about_def\<close>)
  show ?thesis
    unfolding on_step_def Some Option.bind.bind_lunit
    by (rule unhindered_asked)
       (use assms Some check in \<open>auto simp: replies_about_def replies_def bind_eq_None_conv split: Option.bind_split\<close>)
qed (simp add: on_step_def)

lemma walk_unhindered:
  assumes "\<And>p rl s. p \<in> set ps \<Longrightarrow> sinv s \<Longrightarrow> unhindered sinv (f p rl s)" "sinv s"
  shows "unhindered sinv (walk f ps rl s)"
  using assms
proof (induction ps arbitrary: rl s)
  case (Cons p ps)
  have rest: "unhindered sinv (walk f ps rl' s')" if "sinv s'" for rl' s' by (rule Cons.IH) (use Cons.prems that in auto)
  show ?case unfolding walk.simps by (rule unhindered_bind, rule Cons.prems(1)) (use Cons.prems(2) rest in auto)
qed simp

lemma resolve_near_complete:
  assumes "separate objs" "\<And>p. p \<in> elems objs \<Longrightarrow> replies_about Q sinv addr p" "n < 2" "sinv s"
    and "resolve_near 64 Q objs n addr k s = Some ((incomplete, rl), s')"
  shows "\<not> incomplete"
proof -
  obtain bs fs where d: "backwards objs k = Some bs" "forwards objs k = Some fs" "set bs \<union> set fs = elems objs"
    by (rule directions [OF assms(1), of k])
  have b: "unhindered sinv (walk (back_step 64 Q n addr) bs [] s)"
    by (rule walk_unhindered, rule back_step_unhindered [OF assms(2)]) (use assms(3,4) d(3) in auto)
  have f: "unhindered sinv (walk (on_step 64 Q n addr) fs rl s')" if "sinv s'" for rl s'
    by (rule walk_unhindered, rule on_step_unhindered [OF assms(2)]) (use assms(3) d(3) that in auto)
  show ?thesis
  proof (rule bind_SomeE [OF assms(5) [unfolded resolve_near_def d(1) Option.bind.bind_lunit]], clarify)
    fix st rl1 s1 assume 1: "walk (back_step 64 Q n addr) bs [] s = Some ((st, rl1), s1)"
      "(case st of Finished incomplete \<Rightarrow> Some ((incomplete, rl1), s1) | _ \<Rightarrow>
         do { fs \<leftarrow> forwards objs k; ((st', rl'), s'') \<leftarrow> walk (on_step 64 Q n addr) fs rl1 s1; Some ((st' = Finished True, rl'), s'') })
       = Some ((incomplete, rl), s')" and incomplete
    then have "st \<noteq> Finished True" "sinv s1" using b by simp_all
    then show False using 1(2) f [of s1 rl1] \<open>incomplete\<close> by (cases st) (auto simp: d(2) bind_eq_Some_conv)
  qed
qed

context solver_contract
begin

lemma solver_replies:
  assumes "always_answers A S sinv" "query_ok A \<lparr>qconstraints = cs, qexpr = addr\<rparr>" "asks A x f"
  shows "replies (timing_questions b S cs) sinv x"
proof -
  obtain z where z: "x = Some z" "asks A (Some z) f" using asks_Some [OF assms(3)] by blast
  have "bool_query A \<lparr>qconstraints = cs, qexpr = z\<rparr>" using asks_bool_query [OF z(2) assms(2)] by (simp add: withExpr_def)
  then show ?thesis
    using z(1) TimingSolver_may_replies [OF assms(1)] TimingSolver_must_replies [OF assms(1)]
    by (simp add: replies_def timing_questions_def)
qed

lemma resolve_complete:
  assumes "always_answers A S sinv" "\<And>q s. sinv s \<Longrightarrow> query_ok A q \<Longrightarrow> \<exists>v s'. computeValue S q s = Some (Some v, s')"
    and "separate objs" "query_ok A \<lparr>qconstraints = cs, qexpr = addr\<rparr>" "getWidth addr = 64" "sinv s" "n < 2"
    and res: "resolve 64 b S cs objs n addr s = Some ((incomplete, rl), s')"
  shows "\<not> incomplete"
proof (cases "isConstantExpr addr")
  case True
  then show ?thesis using res by (cases addr) (auto simp: resolve_def split: Option.bind_splits)
next
  case False
  have addr: "askable A addr" using query_okD(1) [OF assms(4)] by simp
  have q: "replies_about (timing_questions b S cs) sinv addr p" if "p \<in> elems objs" for p
  proof -
    have "fits (fst p) objs" using assms(3) that by (auto simp: separate_def)
    then show ?thesis
      unfolding replies_about_def
      using solver_replies [OF assms(1,4) bounds_asks [OF addr assms(5)]] solver_replies [OF assms(1,4) not_below_asks [OF addr assms(5)]]
        solver_replies [OF assms(1,4) is_below_asks [OF addr assms(5)]] by blast
  qed
  obtain c s1 where c: "TimingSolver_getValue b S cs addr s = Some (Some c, s1)" "sinv s1"
    using TimingSolver_value_replies [OF assms(2,4,6), where b = b] TimingSolver_value_answers [OF assms(4,6), where b = b] by (auto simp: answers_def)
  obtain e where "resolve_near 64 (timing_questions b S cs) objs n addr e s1 = Some ((incomplete, rl), s')"
    using res False c(1) by (cases addr) (auto simp: resolve_def split: Option.bind_splits)
  then show ?thesis by (rule resolve_near_complete [OF assms(3) q assms(7) c(2), rotated])
qed

end

subsection \<open>The properties\<close>

text \<open>The solver gives a value for every expression.\<close>

definition gives_values :: "array set \<Rightarrow> 's solver_impl \<Rightarrow> ('s \<Rightarrow> bool) \<Rightarrow> bool" where
  "gives_values A S sinv \<longleftrightarrow> (\<forall>q s. sinv s \<and> query_ok A q \<longrightarrow> (\<exists>v s'. computeValue S q s = Some (Some v, s')))"

text \<open>
  C9. For every solver that keeps its contract, every address space built by binding and unbinding
  objects that do not overlap, and an address expression of 64 bits under satisfiable boolean
  constraints, all well formed and without division and \<open>NotOptimized\<close> nodes, with or without the
  simplification of expressions: \<open>resolve\<close> returns only objects the address may lie in, and if it does not
  report the resolution incomplete, all of them. It reports it incomplete where a query fails or the
  limit is met. It returns no more than a limit of at least 2, and without a limit it is complete if
  the solver always answers.
\<close>

theorem resolve_exact:
  assumes "solver_contract may_fail A S sinv" "space_reach objs"
    and "query_ok A \<lparr>qconstraints = cs, qexpr = addr\<rparr>" "getWidth addr = 64" "sinv s"
  shows "\<exists>incomplete rl s'. resolve 64 b S cs objs n addr s = Some ((incomplete, rl), s') \<and> sinv s' \<and>
    set rl \<subseteq> {p \<in> elems objs. hits (addresses cs addr) p} \<and>
    (\<not> incomplete \<longrightarrow> set rl = {p \<in> elems objs. hits (addresses cs addr) p}) \<and>
    (2 \<le> n \<longrightarrow> length rl \<le> n) \<and>
    (n < 2 \<and> always_answers A S sinv \<and> gives_values A S sinv \<longrightarrow> \<not> incomplete)"
proof -
  note sep = reach_separate [OF assms(2)]
  obtain incomplete rl s' where r: "resolve 64 b S cs objs n addr s = Some ((incomplete, rl), s')" "sinv s'"
    "all_found (addresses cs addr) objs n incomplete rl"
    using solver_contract.resolve_found [OF assms(1) sep assms(3,4,5)] by blast
  moreover have "\<not> incomplete" if "n < 2" "always_answers A S sinv" "gives_values A S sinv"
    by (rule solver_contract.resolve_complete [OF assms(1) that(2) _ sep assms(3,4,5) that(1) r(1)])
       (use that(3) in \<open>simp add: gives_values_def\<close>)
  ultimately show ?thesis unfolding all_found_def by blast
qed

lemma complete_values: "gives_values A complete_solver (\<lambda>_. True)"
  by (simp add: gives_values_def complete_solver_def returns_def)

definition small_object :: "64 word \<Rightarrow> object_pair" where
  "small_object a =
     (let mo = \<lparr>moId = 0, moAddress = a, moSize = 8, moName = [], isLocal = False, isGlobal = False, isFixed = True, isUserSpecified = False\<rparr>
      in (mo, \<lparr>os_object = mo, concreteMask = None, flushMask = None, knownSymbolics = None, updRoot = None, updHead = NoUpdates,
               os_size = 8, concreteStore = replicate 8 0, readOnly = False\<rparr>))"

definition two_objects :: address_space where
  "two_objects = bindObject (fst (small_object 32)) (snd (small_object 32)) (bindObject (fst (small_object 16)) (snd (small_object 16)) Terminator)"

definition byte_address :: expr where
  "byte_address = ZExtExpr (sample_read 0) 64"

lemma two_objects_elems: "elems two_objects = {small_object 16, small_object 32}"
proof -
  have t: "tree_ok mo_key (Terminator :: address_space)" using reach_ok [OF empty] .
  note t1 = tm.rep_valid [OF t, of "(fst (small_object 16), snd (small_object 16))"]
  show ?thesis
    using tm.rep_contents [OF t] tm.rep_contents [OF t1]
    by (auto simp: two_objects_def bindObject_def mo_key_def small_object_def Let_def)
qed

lemma two_objects_reach: "space_reach two_objects"
proof -
  let ?one = "bindObject (fst (small_object 16)) (snd (small_object 16)) Terminator"
  have t: "tree_ok mo_key (Terminator :: address_space)" using reach_ok [OF empty] .
  have "elems ?one = {small_object 16}" using tm.rep_contents [OF t] by (simp add: bindObject_def)
  then have "fits (fst (small_object 32)) ?one" "fits (fst (small_object 16)) Terminator"
    by (simp_all add: fits_def mo_key_def small_object_def Let_def)
  then show ?thesis unfolding two_objects_def by (intro space_bind space_empty)
qed

text \<open>The constraint that the byte of the address is below 40.\<close>

lemma byte_address_ok:
  "query_ok {sample_array} \<lparr>qconstraints = [sample_lt 0 40], qexpr = byte_address\<rparr>" "getWidth byte_address = 64"
  "unat a < 40 \<Longrightarrow> addresses [sample_lt 0 40] byte_address a"
proof -
  let ?env = "\<lambda>k x ix. if x = sample_array then k else 0"
  have e: "contents (?env k)" "holds [sample_lt 0 40] (?env k)" "eval byte_address (?env k) = k" if "0 \<le> k" "k < 40" for k :: int
    using that by (auto simp: contents_def env_ok_def in_width_def isConstantArray_def isSymbolicArray_def sample_array_def byte_address_def
        sample_read_def initial_def sample_lt_def)
  show "getWidth byte_address = 64" by (simp add: byte_address_def)
  have "satisfiable [sample_lt 0 40]" using e [of 0] by (auto simp: satisfiable_def)
  then show "query_ok {sample_array} \<lparr>qconstraints = [sample_lt 0 40], qexpr = byte_address\<rparr>"
    by (simp add: query_ok_def byte_address_def askable_def sample_lt_def sample_read_def wf_apint_def in_width_def)
  assume "unat a < 40"
  then have "int (unat a) < 40" by linarith
  then show "addresses [sample_lt 0 40] byte_address a" using e [of "uint a"] by (auto simp: addresses_def feasible_def)
qed

lemma byte_address_hits: "p \<in> elems two_objects \<Longrightarrow> hits (addresses [sample_lt 0 40] byte_address) p"
  using byte_address_ok(3) [of 16] byte_address_ok(3) [of 32]
  by (auto simp: two_objects_elems hits_def in_object_def small_object_def Let_def)

theorem resolve_exact_witness:
  "\<exists>rl s'. resolve 64 True complete_solver [sample_lt 0 40] two_objects 0 byte_address () = Some ((False, rl), s') \<and>
     set rl = {small_object 16, small_object 32}"
proof -
  have "{p \<in> elems two_objects. hits (addresses [sample_lt 0 40] byte_address) p} = {small_object 16, small_object 32}"
    using byte_address_hits two_objects_elems by auto
  then show ?thesis
    using resolve_exact [OF complete_contract two_objects_reach byte_address_ok(1,2), where b = True and s = "()" and n = 0]
      complete_answers complete_values by auto
qed

text \<open>
  C10. For every solver that keeps its contract, every address space built by binding and unbinding
  objects that do not overlap, and an address expression of 64 bits under satisfiable boolean
  constraints, all well formed and without division and \<open>NotOptimized\<close> nodes, \<open>resolveOne\<close> returns an object
  the address may lie in, or none if there is none. It fails only if the solver may fail on a query.
\<close>

theorem resolveOne_exact:
  assumes "solver_contract may_fail A S sinv" "space_reach objs"
    and "query_ok A \<lparr>qconstraints = cs, qexpr = addr\<rparr>" "getWidth addr = 64" "sinv s"
  shows "answers may_fail sinv (\<lambda>r. case r of Some p \<Rightarrow> p \<in> elems objs \<and> hits (addresses cs addr) p
      | None \<Rightarrow> (\<forall>p \<in> elems objs. \<not> hits (addresses cs addr) p)) (resolveOne 64 b S cs objs addr s)"
  using solver_contract.resolveOne_resolved [OF assms(1) reach_separate [OF assms(2)] assms(3-5)]
  by (rule answers_weaken) (simp add: resolved_def)

theorem resolveOne_exact_witness:
  "\<exists>p s'. resolveOne 64 True complete_solver [sample_lt 0 40] two_objects byte_address () = Some (Some (Some p), s') \<and>
     p \<in> {small_object 16, small_object 32}"
proof -
  have "\<exists>p \<in> elems two_objects. hits (addresses [sample_lt 0 40] byte_address) p"
    using byte_address_hits [of "small_object 16"] by (auto simp: two_objects_elems)
  then show ?thesis
    using resolveOne_exact [OF complete_contract two_objects_reach byte_address_ok(1,2), where b = True and s = "()"]
    by (fastforce simp: answers_def two_objects_elems split: option.splits)
qed

end
