(* ===== verification/Memory_Copies.thy ===== *)
theory Memory_Copies
  imports Address_Resolution
begin

text \<open>
  \<open>AddressSpace::copyOutConcretes\<close> and \<open>copyInConcretes\<close> (\<^verbatim>\<open>klee/lib/Core/AddressSpace.cpp\<close>): what the
  program's memory and the stores hold after a copy, for objects with a store of their own.
\<close>

subsection \<open>Copies to memory\<close>

definition stores_ok :: "address_space \<Rightarrow> bool" where
  "stores_ok objs \<longleftrightarrow> (\<forall>p \<in> elems objs. moSize (fst p) \<le> length (concreteStore (snd p)))"

definition copied_out :: "object_pair \<Rightarrow> bool" where
  "copied_out p \<longleftrightarrow> \<not> isUserSpecified (fst p) \<and> \<not> readOnly (snd p)"

text \<open>The bytes of an object, without the address of an object that has none.\<close>

definition covers :: "memory_object \<Rightarrow> 64 word \<Rightarrow> bool" where
  "covers mo a \<longleftrightarrow> unat (a - moAddress mo) < moSize mo"

lemma covers_in_object: "fits mo objs \<Longrightarrow> covers mo a \<Longrightarrow> in_object mo a"
  using offset_in_object [of mo objs a] by (simp add: covers_def)

lemma covers_unique:
  assumes "separate objs" "p \<in> elems objs" "q \<in> elems objs" "covers (fst p) a" "covers (fst q) a"
  shows "p = q"
proof (rule in_object_unique [OF assms(1-3)])
  show "in_object (fst p) a" "in_object (fst q) a"
    using assms covers_in_object [of "fst p" objs a] covers_in_object [of "fst q" objs a] by (auto simp: separate_def)
qed

definition after_copy :: "object_pair list \<Rightarrow> native \<Rightarrow> native \<Rightarrow> bool" where
  "after_copy ps m m' \<longleftrightarrow>
     (\<forall>p \<in> set ps. \<forall>a. copied_out p \<and> covers (fst p) a \<longrightarrow> m' a = concreteStore (snd p) ! unat (a - moAddress (fst p))) \<and>
     (\<forall>a. (\<forall>p \<in> set ps. copied_out p \<longrightarrow> \<not> covers (fst p) a) \<longrightarrow> m' a = m a)"

lemma copy_out_after:
  assumes "moSize (fst p) \<le> length (concreteStore (snd p))"
  shows "\<exists>m'. copy_out p m = Some m' \<and> after_copy [p] m m'"
  using assms by (auto simp: copy_out_def copied_out_def after_copy_def memcpy_to_def covers_def)

lemma copy_all_out_after:
  assumes "separate objs" "stores_ok objs" "set ps \<subseteq> elems objs" "distinct ps"
  shows "\<exists>m'. copy_all_out ps m = Some m' \<and> after_copy ps m m'"
  using assms(3,4)
proof (induction ps arbitrary: m)
  case (Cons p ps)
  obtain m1 where m1: "copy_out p m = Some m1" "after_copy [p] m m1"
    using copy_out_after [of p m] assms(2) Cons.prems(1) by (auto simp: stores_ok_def)
  obtain m2 where m2: "copy_all_out ps m1 = Some m2" "after_copy ps m1 m2" using Cons by auto
  have "m2 a = m1 a" if "copied_out p" "covers (fst p) a" for a
  proof -
    have "\<not> covers (fst q) a" if "q \<in> set ps" for q
      using covers_unique [OF assms(1), of p q a] Cons.prems that \<open>covers (fst p) a\<close> by auto
    then show ?thesis using m2(2) by (simp add: after_copy_def)
  qed
  then have "after_copy (p # ps) m m2" using m1(2) m2(2) by (simp add: after_copy_def)
  then show ?case using m1(1) m2(1) by auto
qed (simp add: after_copy_def)

lemma native_bytes_store:
  assumes "moSize mo < 2 ^ 64" "moSize mo \<le> length st" "\<And>a. covers mo a \<Longrightarrow> m a = st ! unat (a - moAddress mo)"
  shows "native_bytes m mo = take (moSize mo) st"
proof (rule nth_equalityI)
  show "length (native_bytes m mo) = length (take (moSize mo) st)" using assms(2) by (simp add: native_bytes_def)
next
  fix i assume "i < length (native_bytes m mo)"
  then have i: "i < moSize mo" by (simp add: native_bytes_def)
  then have "unat (of_nat i :: 64 word) = i" using assms(1) by (simp add: unsigned_of_nat take_bit_nat_eq_self)
  then show "native_bytes m mo ! i = take (moSize mo) st ! i"
    using i assms(3) [of "moAddress mo + of_nat i"] by (simp add: native_bytes_def covers_def)
qed

lemma native_bytes_same:
  assumes "moSize mo < 2 ^ 64" "\<And>a. covers mo a \<Longrightarrow> m a = m' a"
  shows "native_bytes m mo = native_bytes m' mo"
proof -
  have "covers mo (moAddress mo + of_nat i)" if "i < moSize mo" for i
    using that assms(1) by (simp add: covers_def unsigned_of_nat take_bit_nat_eq_self)
  then show ?thesis using assms(2) by (simp add: native_bytes_def)
qed

subsection \<open>Copies from memory\<close>

lemma copyIn_unchanged:
  assumes "\<And>p. p \<in> elems objs \<Longrightarrow> copy_in m p = Some (Inr p)"
  shows "copyInConcretes m objs = Some (True, objs)"
  using assms by (induction objs) simp_all

text \<open>What one object holds after a copy from memory.\<close>

definition read_in :: "native \<Rightarrow> object_pair \<Rightarrow> object_pair" where
  "read_in m p = (if isUserSpecified (fst p) then p
     else (fst p, (snd p)\<lparr>concreteStore := native_bytes m (fst p) @ drop (moSize (fst p)) (concreteStore (snd p))\<rparr>))"

definition differs :: "native \<Rightarrow> object_pair \<Rightarrow> bool" where
  "differs m p \<longleftrightarrow> \<not> isUserSpecified (fst p) \<and> readOnly (snd p) \<and> native_bytes m (fst p) \<noteq> take (moSize (fst p)) (concreteStore (snd p))"

lemma copy_in_result:
  assumes "moSize (fst p) \<le> length (concreteStore (snd p))"
  shows "copy_in m p = Some (if differs m p then Inl () else Inr (read_in m p))"
proof (cases "native_bytes m (fst p) = take (moSize (fst p)) (concreteStore (snd p))")
  case True
  then have "read_in m p = p" by (cases p) (simp add: read_in_def)
  then show ?thesis using True assms by (simp add: copy_in_def differs_def Let_def)
next
  case False
  then show ?thesis using assms by (auto simp: copy_in_def differs_def read_in_def getWriteable_def Let_def)
qed

fun node_map :: "('v \<Rightarrow> 'w) \<Rightarrow> 'v node \<Rightarrow> 'w node" where
  "node_map f Terminator = Terminator"
| "node_map f (Node l x h r) = Node (node_map f l) (f x) h (node_map f r)"

lemma copyIn_result:
  assumes "\<And>p. p \<in> elems objs \<Longrightarrow> moSize (fst p) \<le> length (concreteStore (snd p))"
  shows "\<exists>objs'. copyInConcretes m objs = Some (\<forall>p \<in> elems objs. \<not> differs m p, objs') \<and>
    ((\<forall>p \<in> elems objs. \<not> differs m p) \<longrightarrow> objs' = node_map (read_in m) objs)"
  using assms
proof (induction objs)
  case (Node l p h r)
  obtain l' where l: "copyInConcretes m l = Some (\<forall>p \<in> elems l. \<not> differs m p, l')" "(\<forall>p \<in> elems l. \<not> differs m p) \<longrightarrow> l' = node_map (read_in m) l"
    using Node.IH(1) Node.prems by auto
  obtain r' where r: "copyInConcretes m r = Some (\<forall>p \<in> elems r. \<not> differs m p, r')" "(\<forall>p \<in> elems r. \<not> differs m p) \<longrightarrow> r' = node_map (read_in m) r"
    using Node.IH(2) Node.prems by auto
  have p: "copy_in m p = Some (if differs m p then Inl () else Inr (read_in m p))" using copy_in_result Node.prems by simp
  show ?case
    using l r p by (cases "\<forall>p \<in> elems l. \<not> differs m p"; cases "differs m p") auto
qed simp

text \<open>An object whose store is the memory at its address: the copies change nothing.\<close>

lemma copy_out_aliased:
  assumes "concreteStore (snd p) = native_bytes m (fst p)"
  shows "copy_out p m = Some m"
proof -
  have "memcpy_to (fst p) (native_bytes m (fst p)) m = m"
    by (auto simp: fun_eq_iff memcpy_to_def native_bytes_def)
  then show ?thesis using assms by (simp add: copy_out_def native_bytes_def)
qed

subsection \<open>The property\<close>

lemma elems_distinct: "ordered kov t \<Longrightarrow> distinct (inorder t)"
proof -
  have "sorted_wrt (\<lambda>x y. kov x < kov y) xs \<Longrightarrow> distinct xs" for xs by (induction xs) auto
  then show "ordered kov t \<Longrightarrow> distinct (inorder t)" by (simp add: ordered_def)
qed

text \<open>
  C11. For objects that do not overlap, each with a store of at least its size, \<open>copyOutConcretes\<close> makes
  the memory of every writeable object its store and leaves all other memory, and \<open>copyInConcretes\<close>
  returns true if and only if no read-only object differs from its memory; then every object holds its
  memory, and after a copy out nothing has changed.
\<close>

theorem copy_concretes:
  assumes "space_reach objs" "stores_ok objs"
  shows "(\<exists>m'. copyOutConcretes objs m = Some m' \<and>
      (\<forall>p \<in> elems objs. copied_out p \<longrightarrow> native_bytes m' (fst p) = take (moSize (fst p)) (concreteStore (snd p))) \<and>
      (\<forall>a. (\<forall>p \<in> elems objs. copied_out p \<longrightarrow> \<not> covers (fst p) a) \<longrightarrow> m' a = m a) \<and>
      ((\<forall>p \<in> elems objs. \<not> differs m p) \<longrightarrow> copyInConcretes m' objs = Some (True, objs))) \<and>
    (\<exists>objs'. copyInConcretes m objs = Some (\<forall>p \<in> elems objs. \<not> differs m p, objs') \<and>
      ((\<forall>p \<in> elems objs. \<not> differs m p) \<longrightarrow> objs' = node_map (read_in m) objs))"
proof -
  note sep = reach_separate [OF assms(1)]
  have o: "ordered mo_key objs" using sep by (simp add: separate_def tree_ok_def)
  have el: "set (inorder objs) = elems objs" by (simp add: elems_def)
  obtain m' where m': "copyOutConcretes objs m = Some m'" "after_copy (inorder objs) m m'"
    using copy_all_out_after [OF sep assms(2), of "inorder objs" m] elems_distinct [OF o] el by (auto simp: copyOutConcretes_def)
  have size: "moSize (fst p) < 2 ^ 64" "moSize (fst p) \<le> length (concreteStore (snd p))" if "p \<in> elems objs" for p
    using that sep assms(2) by (auto simp: separate_def fits_def stores_ok_def)
  have out: "native_bytes m' (fst p) = take (moSize (fst p)) (concreteStore (snd p))" if "p \<in> elems objs" "copied_out p" for p
    by (rule native_bytes_store [OF size [OF that(1)]]) (use m'(2) that el in \<open>simp add: after_copy_def\<close>)
  have other: "native_bytes m' (fst p) = native_bytes m (fst p)" if "p \<in> elems objs" "\<not> copied_out p" for p
  proof (rule native_bytes_same [OF size(1) [OF that(1)]])
    fix a assume "covers (fst p) a"
    then have "\<not> covers (fst q) a" if "q \<in> elems objs" "copied_out q" for q
      using covers_unique [OF sep \<open>p \<in> elems objs\<close> that(1)] that(2) \<open>\<not> copied_out p\<close> by auto
    then show "m' a = m a" using m'(2) el by (simp add: after_copy_def)
  qed
  have "copy_in m' p = Some (Inr p)" if "p \<in> elems objs" "\<not> differs m p" for p
  proof -
    have "isUserSpecified (fst p) \<or> native_bytes m' (fst p) = take (moSize (fst p)) (concreteStore (snd p))"
    proof (cases "copied_out p")
      case False
      then show ?thesis using other [OF that(1) False] that(2) by (auto simp: copied_out_def differs_def)
    qed (use out [OF that(1)] in simp)
    then show ?thesis using size(2) [OF that(1)] by (auto simp: copy_in_def Let_def)
  qed
  then have "copyInConcretes m' objs = Some (True, objs)" if "\<forall>p \<in> elems objs. \<not> differs m p"
    using copyIn_unchanged [of objs m'] that by blast
  moreover have "m' a = m a" if "\<forall>p \<in> elems objs. copied_out p \<longrightarrow> \<not> covers (fst p) a" for a
    using m'(2) that el by (simp add: after_copy_def)
  ultimately show ?thesis using m'(1) out copyIn_result [of objs m] size(2) by blast
qed

theorem copy_concretes_witness:
  "\<exists>m'. copyOutConcretes two_objects (\<lambda>_. 7) = Some m' \<and> m' 100 = 7 \<and> copyInConcretes m' two_objects = Some (True, two_objects)"
proof -
  have s: "stores_ok two_objects" by (simp add: stores_ok_def two_objects_elems small_object_def Let_def)
  have "\<not> differs (\<lambda>_. 7) p" if "p \<in> elems two_objects" for p
    using that by (auto simp: two_objects_elems differs_def small_object_def Let_def)
  moreover have "\<not> covers (fst p) 100" if "p \<in> elems two_objects" for p
    using that by (auto simp: two_objects_elems covers_def small_object_def Let_def)
  ultimately show ?thesis using copy_concretes [OF two_objects_reach s, of "\<lambda>_. 7"] by blast
qed

end
