(* ===== verification/Implied_Value.thy ===== *)
theory Implied_Value
  imports Expr_Rebuild
begin

text \<open>
  Implied values (\<^verbatim>\<open>klee/lib/Core/ImpliedValue.cpp\<close>): from the value of an expression, the values of reads
  inside it. A value is a pointer and may be null, which is \<open>None\<close>; using a null value and a failed
  assertion end the program.
\<close>

subsection \<open>The computation\<close>

text \<open>
  The branches of a selection are compared by address: \<open>same t f\<close> says that the two constants are one
  object.
\<close>

fun getImpliedValues :: "(apint \<Rightarrow> apint \<Rightarrow> bool) \<Rightarrow> expr \<Rightarrow> apint option \<Rightarrow> (expr \<times> apint option) list option" where
  "getImpliedValues same (ConstantExpr c) value = do { v \<leftarrow> value; if v = c then Some [] else None }"
| "getImpliedValues same (NotOptimizedExpr e) value = Some []"
| "getImpliedValues same (ReadExpr a us i) value = Some [(ReadExpr a us i, value)]"
| "getImpliedValues same (SelectExpr c t f) value =
     (case (t, f) of
        (ConstantExpr TrueCE, ConstantExpr FalseCE) \<Rightarrow>
          if same TrueCE FalseCE then Some []
          else do { v \<leftarrow> value;
                    if v = TrueCE then getImpliedValues same c (Some (ConstantExpr_alloc 1 1))
                    else if v = FalseCE then getImpliedValues same c (Some (ConstantExpr_alloc 0 1))
                    else None }
      | _ \<Rightarrow> Some [])"
| "getImpliedValues same (ConcatExpr l r) value =
     do { v \<leftarrow> value;
          xs \<leftarrow> getImpliedValues same l (Some (ConstantExpr_Extract v (getWidth r) (getWidth l)));
          ys \<leftarrow> getImpliedValues same r (Some (ConstantExpr_Extract v 0 (getWidth r)));
          Some (xs @ ys) }"
| "getImpliedValues same (ExtractExpr e off w) value = Some []"
| "getImpliedValues same (ZExtExpr e w) value =
     do { v \<leftarrow> value; getImpliedValues same e (Some (ConstantExpr_Extract v 0 (getWidth e))) }"
| "getImpliedValues same (SExtExpr e w) value =
     do { v \<leftarrow> value; getImpliedValues same e (Some (ConstantExpr_Extract v 0 (getWidth e))) }"
| "getImpliedValues same (NotExpr e) value = Some []"
| "getImpliedValues same (BinaryExpr k l r) value =
     (case k of
        Add \<Rightarrow> (case l of
            ConstantExpr CE \<Rightarrow> do { v \<leftarrow> value; getImpliedValues same r (Some (ConstantExpr_Sub v CE)) }
          | _ \<Rightarrow> Some [])
      | Sub \<Rightarrow> (case l of
            ConstantExpr CE \<Rightarrow> do { v \<leftarrow> value; getImpliedValues same r (Some (ConstantExpr_Sub CE v)) }
          | _ \<Rightarrow> Some [])
      | And \<Rightarrow>
          if getWidth l = 1 then
            do { v \<leftarrow> value;
                 if ConstantExpr_isTrue v then
                   do { xs \<leftarrow> getImpliedValues same l (Some v); ys \<leftarrow> getImpliedValues same r (Some v); Some (xs @ ys) }
                 else Some [] }
          else Some []
      | Or \<Rightarrow>
          do { v \<leftarrow> value;
               if ConstantExpr_isZero v then
                 do { xs \<leftarrow> getImpliedValues same l None; ys \<leftarrow> getImpliedValues same r None; Some (xs @ ys) }
               else Some [] }
      | Xor \<Rightarrow> (case l of
            ConstantExpr CE \<Rightarrow> do { v \<leftarrow> value; getImpliedValues same r (Some (ConstantExpr_Xor v CE)) }
          | _ \<Rightarrow> Some [])
      | Ne \<Rightarrow> None
      | Eq \<Rightarrow>
          do { v \<leftarrow> value;
               (case l of
                  ConstantExpr CE \<Rightarrow>
                    if ConstantExpr_isTrue v then getImpliedValues same r (Some CE)
                    else if bitWidth CE = 1 then getImpliedValues same r (Some (ConstantExpr_Not CE))
                    else Some []
                | _ \<Rightarrow> Some []) }
      | _ \<Rightarrow> Some [])"

subsection \<open>The values hold\<close>

text \<open>The value of an expression as a constant.\<close>

definition value_of :: "expr \<Rightarrow> env \<Rightarrow> apint" where
  "value_of e \<sigma> = APInt (getWidth e) (eval e \<sigma>)"

text \<open>No disjunction, no inequality, and the constant branches of a selection differ.\<close>

fun implying :: "expr \<Rightarrow> bool" where
  "implying (SelectExpr c t f) \<longleftrightarrow> implying c \<and> (isConstantExpr t \<and> isConstantExpr f \<longrightarrow> t \<noteq> f)"
| "implying (ConcatExpr l r) \<longleftrightarrow> implying l \<and> implying r"
| "implying (ZExtExpr e w) \<longleftrightarrow> implying e"
| "implying (SExtExpr e w) \<longleftrightarrow> implying e"
| "implying (BinaryExpr k l r) \<longleftrightarrow> k \<noteq> Or \<and> k \<noteq> Ne \<and> implying l \<and> implying r"
| "implying e \<longleftrightarrow> True"

definition implied :: "env \<Rightarrow> (expr \<times> apint option) list option \<Rightarrow> bool" where
  "implied \<sigma> res \<longleftrightarrow> (\<exists>rs. res = Some rs \<and> (\<forall>(r, v) \<in> set rs. v = Some (value_of r \<sigma>)))"

lemma implied_Nil [simp]: "implied \<sigma> (Some [])"
  by (simp add: implied_def)

lemma implied_append:
  "implied \<sigma> a \<Longrightarrow> implied \<sigma> b \<Longrightarrow> implied \<sigma> (Option.bind a (\<lambda>xs. Option.bind b (\<lambda>ys. Some (xs @ ys))))"
  by (fastforce simp: implied_def)

lemma Extract_value:
  assumes "in_width w x" "0 < n" "off + n \<le> w"
  shows "ConstantExpr_Extract (APInt w x) off n = APInt n (take_bit n (x div 2 ^ off))"
  using extract_ashr [of off n w x] assms by (simp add: ConstantExpr_Extract_def Let_def)

lemma value_width: "wf_expr e \<Longrightarrow> env_ok \<sigma> \<Longrightarrow> in_width (getWidth e) (eval e \<sigma>) \<and> 0 < getWidth e"
  using eval_in_width wf_width_pos by simp

lemma Concat_values:
  assumes "wf_expr l" "wf_expr r" "env_ok \<sigma>"
  shows "ConstantExpr_Extract (value_of (ConcatExpr l r) \<sigma>) (getWidth r) (getWidth l) = value_of l \<sigma>"
    "ConstantExpr_Extract (value_of (ConcatExpr l r) \<sigma>) 0 (getWidth r) = value_of r \<sigma>"
proof -
  note l = value_width [OF assms(1,3)] and r = value_width [OF assms(2,3)]
  have w: "in_width (getWidth l + getWidth r) (eval l \<sigma> * 2 ^ getWidth r + eval r \<sigma>)"
    using value_width [of "ConcatExpr l r" \<sigma>] assms by simp
  have "(eval l \<sigma> * 2 ^ getWidth r + eval r \<sigma>) div 2 ^ getWidth r = eval l \<sigma>"
    using r by (simp add: in_width_def)
  moreover have "take_bit (getWidth r) (eval l \<sigma> * 2 ^ getWidth r + eval r \<sigma>) = eval r \<sigma>"
    using r by (simp add: in_width_def take_bit_eq_mod)
  ultimately show "ConstantExpr_Extract (value_of (ConcatExpr l r) \<sigma>) (getWidth r) (getWidth l) = value_of l \<sigma>"
    "ConstantExpr_Extract (value_of (ConcatExpr l r) \<sigma>) 0 (getWidth r) = value_of r \<sigma>"
    using Extract_value [OF w, of "getWidth l" "getWidth r"] Extract_value [OF w, of "getWidth r" 0] l r
    by (simp_all add: value_of_def in_width_def take_bit_int_eq_self)
qed

lemma cast_values:
  assumes "wf_expr e" "env_ok \<sigma>" "getWidth e \<le> w"
  shows "ConstantExpr_Extract (value_of (ZExtExpr e w) \<sigma>) 0 (getWidth e) = value_of e \<sigma>"
    "ConstantExpr_Extract (value_of (SExtExpr e w) \<sigma>) 0 (getWidth e) = value_of e \<sigma>"
proof -
  note e = value_width [OF assms(1,2)]
  have "in_width w (eval (ZExtExpr e w) \<sigma>)" "in_width w (eval (SExtExpr e w) \<sigma>)"
    using value_width [of "ZExtExpr e w" \<sigma>] value_width [of "SExtExpr e w" \<sigma>] assms e by simp_all
  note x = Extract_value [OF this(1), of "getWidth e" 0] Extract_value [OF this(2), of "getWidth e" 0]
  have "take_bit (getWidth e) (take_bit w (sval (getWidth e) (eval e \<sigma>))) = eval e \<sigma>"
    using e assms(3) by (simp add: in_width_def take_bit_int_eq_self min_def)
  then show "ConstantExpr_Extract (value_of (ZExtExpr e w) \<sigma>) 0 (getWidth e) = value_of e \<sigma>"
    "ConstantExpr_Extract (value_of (SExtExpr e w) \<sigma>) 0 (getWidth e) = value_of e \<sigma>"
    using x e assms(3) by (simp_all add: value_of_def in_width_def take_bit_int_eq_self)
qed

lemma solved_values:
  assumes "wf_expr r" "wf_apint c" "bitWidth c = getWidth r" "env_ok \<sigma>"
  shows "ConstantExpr_Sub (value_of (BinaryExpr Add (ConstantExpr c) r) \<sigma>) c = value_of r \<sigma>"
    "ConstantExpr_Sub c (value_of (BinaryExpr Sub (ConstantExpr c) r) \<sigma>) = value_of r \<sigma>"
    "ConstantExpr_Xor (value_of (BinaryExpr Xor (ConstantExpr c) r) \<sigma>) c = value_of r \<sigma>"
proof -
  note r = value_width [OF assms(1,4)]
  have "take_bit w (take_bit w (a + b) - a) = take_bit w b" "take_bit w (a - take_bit w (a - b)) = take_bit w b" for w and a b :: int
    by (simp_all add: take_bit_eq_mod mod_simps)
  then show "ConstantExpr_Sub (value_of (BinaryExpr Add (ConstantExpr c) r) \<sigma>) c = value_of r \<sigma>"
    "ConstantExpr_Sub c (value_of (BinaryExpr Sub (ConstantExpr c) r) \<sigma>) = value_of r \<sigma>"
    using r assms(3) by (simp_all add: value_of_def ConstantExpr_Sub_def in_width_def take_bit_int_eq_self isCmp_def)
  have "(apval c XOR eval r \<sigma>) XOR apval c = eval r \<sigma>" by (metis xor.assoc xor.commute xor_self_eq xor.right_neutral)
  then show "ConstantExpr_Xor (value_of (BinaryExpr Xor (ConstantExpr c) r) \<sigma>) c = value_of r \<sigma>"
    using assms(3) by (simp add: value_of_def ConstantExpr_Xor_def isCmp_def)
qed

lemma one_bit:
  assumes "wf_expr l" "wf_expr r" "getWidth l = 1" "getWidth r = 1" "env_ok \<sigma>"
  shows "eval l \<sigma> AND eval r \<sigma> \<noteq> 0 \<Longrightarrow> value_of l \<sigma> = APInt 1 1 \<and> value_of r \<sigma> = APInt 1 1"
    "eval l \<sigma> \<noteq> eval r \<sigma> \<Longrightarrow> ConstantExpr_Not (value_of l \<sigma>) = value_of r \<sigma>"
proof -
  have "eval l \<sigma> = 0 \<or> eval l \<sigma> = 1" "eval r \<sigma> = 0 \<or> eval r \<sigma> = 1"
    using value_width [OF assms(1,5)] value_width [OF assms(2,5)] assms(3,4) by (auto simp: in_width_def)
  then show "eval l \<sigma> AND eval r \<sigma> \<noteq> 0 \<Longrightarrow> value_of l \<sigma> = APInt 1 1 \<and> value_of r \<sigma> = APInt 1 1"
    "eval l \<sigma> \<noteq> eval r \<sigma> \<Longrightarrow> ConstantExpr_Not (value_of l \<sigma>) = value_of r \<sigma>"
    using assms(3,4) by (auto simp: value_of_def ConstantExpr_Not_def)
qed

lemma binary_implied:
  assumes "wf_expr (BinaryExpr k l r)" "implying (BinaryExpr k l r)" "env_ok \<sigma>"
    and "implied \<sigma> (getImpliedValues same l (Some (value_of l \<sigma>)))" "implied \<sigma> (getImpliedValues same r (Some (value_of r \<sigma>)))"
  shows "implied \<sigma> (getImpliedValues same (BinaryExpr k l r) (Some (value_of (BinaryExpr k l r) \<sigma>)))"
proof -
  have wf: "wf_expr l" "wf_expr r" "getWidth l = getWidth r" using assms(1) by simp_all
  note solved = solved_values [OF wf(2) _ _ assms(3)]
  show ?thesis
  proof (cases k)
    case And
    show ?thesis
    proof (cases "getWidth l = 1")
      case True
      then have "getWidth r = 1" using wf by simp
      note one = one_bit(1) [OF wf(1,2) True this assms(3)]
      show ?thesis
        using And True one assms(4,5) implied_append [OF assms(4,5)]
        by (auto simp: value_of_def ConstantExpr_isTrue_def isCmp_def)
    qed (use And in simp)
  next
    case Eq
    show ?thesis
    proof (cases l)
      case (ConstantExpr c)
      have c: "value_of l \<sigma> = c" using ConstantExpr by (cases c) (simp add: value_of_def)
      have "implied \<sigma> (getImpliedValues same r (Some c))" if "eval l \<sigma> = eval r \<sigma>"
        using assms(5) that wf(3) unfolding c [symmetric] value_of_def by simp
      moreover have "implied \<sigma> (getImpliedValues same r (Some (ConstantExpr_Not c)))" if "eval l \<sigma> \<noteq> eval r \<sigma>" "bitWidth c = 1"
      proof -
        have "getWidth l = 1" "getWidth r = 1" using that(2) ConstantExpr wf(3) by simp_all
        from one_bit(2) [OF wf(1,2) this assms(3) that(1)] show ?thesis using assms(5) unfolding c by simp
      qed
      moreover have "value_of (BinaryExpr Eq l r) \<sigma> = APInt 1 (of_bool (eval l \<sigma> = eval r \<sigma>))" by (simp add: value_of_def isCmp_def)
      ultimately show ?thesis
        unfolding Eq getImpliedValues.simps by (cases "eval l \<sigma> = eval r \<sigma>") (simp_all add: ConstantExpr ConstantExpr_isTrue_def)
    qed (use Eq in simp_all)
  qed (use assms solved wf in \<open>auto split: expr.split\<close>)
qed

lemma getImpliedValues_implied:
  assumes "wf_expr e" "implying e" "env_ok \<sigma>"
  shows "implied \<sigma> (getImpliedValues same e (Some (value_of e \<sigma>)))"
  using assms(1,2)
proof (induction e rule: measure_induct_rule [of esize])
  case (less e)
  have kid: "implied \<sigma> (getImpliedValues same k (Some (value_of k \<sigma>)))" if "esize k < esize e" "wf_expr k" "implying k" for k
    using less.IH that by blast
  show ?case
  proof (cases e)
    case (SelectExpr c t f)
    show ?thesis
    proof (cases "isConstantExpr t \<and> isConstantExpr f")
      case True
      then obtain a b where ab: "t = ConstantExpr a" "f = ConstantExpr b" by (cases t; cases f) auto
      have c: "wf_expr c" "implying c" "getWidth c = 1" using less.prems SelectExpr by auto
      have "eval c \<sigma> = 0 \<or> eval c \<sigma> = 1" using value_width [OF c(1) assms(3)] c(3) by (auto simp: in_width_def)
      then have "value_of c \<sigma> = APInt 1 (of_bool (eval c \<sigma> \<noteq> 0))" using c(3) by (auto simp: value_of_def)
      moreover have "value_of e \<sigma> = (if eval c \<sigma> \<noteq> 0 then a else b)" "a \<noteq> b"
        using SelectExpr ab less.prems by (cases a; cases b; simp add: value_of_def)+
      ultimately show ?thesis
        using kid [of c] c SelectExpr ab by (auto simp: ConstantExpr_alloc_def)
    next
      case False
      then show ?thesis using SelectExpr by (cases t; cases f) simp_all
    qed
  next
    case (ConcatExpr l r)
    then show ?thesis
      using less.prems kid [of l] kid [of r] Concat_values [of l r \<sigma>] assms(3) implied_append by simp
  next
    case (ZExtExpr x w)
    then show ?thesis using less.prems kid [of x] cast_values(1) [of x \<sigma> w] assms(3) by simp
  next
    case (SExtExpr x w)
    then show ?thesis using less.prems kid [of x] cast_values(2) [of x \<sigma> w] assms(3) by simp
  next
    case (BinaryExpr k l r)
    then show ?thesis using less.prems kid [of l] kid [of r] binary_implied [of k l r \<sigma> same] assms(3) by simp
  qed (auto simp: implied_def value_of_def)
qed

subsection \<open>The property\<close>

text \<open>
  The zero of a disjunction is passed on as a null pointer: a read under it gets no value, and below
  any other operator the null pointer is used.
\<close>

lemma disjunction_passes_null:
  "getImpliedValues same (BinaryExpr Or (sample_read 0) (sample_read 1)) (Some (APInt 8 0)) =
     Some [(sample_read 0, None), (sample_read 1, None)]"
  "getImpliedValues same (BinaryExpr Or (BinaryExpr Add (ConstantExpr (APInt 8 1)) (sample_read 0)) r) (Some (APInt 8 0)) = None"
  by (simp_all add: sample_read_def ConstantExpr_isZero_def)

text \<open>
  C16. From the value of a well-formed expression without disjunctions and inequalities, whose selections
  have different constants, \<open>getImpliedValues\<close> returns, and every pair it returns is a read and the value
  of that read, in every content of the arrays that gives the expression its value.
\<close>

theorem implied_values_hold:
  assumes "wf_expr e" "implying e" "env_ok \<sigma>"
  shows "\<exists>rs. getImpliedValues same e (Some (APInt (getWidth e) (eval e \<sigma>))) = Some rs \<and>
    (\<forall>(r, v) \<in> set rs. v = Some (APInt (getWidth r) (eval r \<sigma>)))"
  using getImpliedValues_implied [OF assms, of same] by (simp add: implied_def value_of_def)

theorem implied_values_hold_witness:
  "\<exists>rs. getImpliedValues (=) (BinaryExpr Add (ConstantExpr (APInt 16 300)) (ZExtExpr (sample_read 0) 16)) (Some (APInt 16 302)) = Some rs \<and>
     rs = [(sample_read 0, Some (APInt 8 2))]"
proof -
  let ?e = "BinaryExpr Add (ConstantExpr (APInt 16 300)) (ZExtExpr (sample_read 0) 16)"
  let ?\<sigma> = "\<lambda>a ix. if a = sample_array then 2 else 0"
  have ok: "wf_expr ?e" "implying ?e" "env_ok ?\<sigma>"
    by (auto simp: sample_read_def sample_array_def wf_array_def isSymbolicArray_def wf_apint_def in_width_def env_ok_def)
  have v: "eval (sample_read 0) ?\<sigma> = 2" "getWidth (sample_read 0) = 8" "getWidth ?e = 16" "eval ?e ?\<sigma> = 302"
    by (simp_all add: sample_read_def sample_array_def initial_def isConstantArray_def isSymbolicArray_def isCmp_def)
  obtain rs where rs: "getImpliedValues (=) ?e (Some (APInt 16 302)) = Some rs" "\<forall>(r, v) \<in> set rs. v = Some (APInt (getWidth r) (eval r ?\<sigma>))"
    using implied_values_hold [OF ok, of "(=)"] unfolding v by blast
  moreover have "map fst rs = [sample_read 0]" using rs(1) by (auto simp: sample_read_def)
  ultimately show ?thesis using v by (cases rs) auto
qed

end
