(* ===== verification/Independent_Values.thy ===== *)
theory Independent_Values
  imports Independent_Solver Solver_Front Object_State
begin

text \<open>
  The initial values of the independent solver (\<^verbatim>\<open>klee/lib/Solver/IndependentSolver.cpp\<close>): the factors of
  the constraints by a second union-find structure, a solution for each, and their combination. The
  order in which the standard library visits an unordered set of integers and a set of pointers is an
  argument.
\<close>

subsection \<open>The second union-find structure\<close>

definition ies_is_empty :: "ies \<Rightarrow> bool" where
  "ies_is_empty s \<longleftrightarrow> wholeObjects s = [] \<and> exprs s = []"

definition UFElement2_add :: "ies \<Rightarrow> ufe2 \<Rightarrow> ufe2" where
  "UFElement2_add x el = el\<lparr>ies2 := if ies_is_empty (ies2 el) then x else snd (ies_add x (ies2 el))\<rparr>"

text \<open>The elements of the sets are merged only where neither is empty.\<close>

definition merge_ies :: "int \<Rightarrow> int \<Rightarrow> ufe2 list \<Rightarrow> ufe2 list option" where
  "merge_ies a b es =
     do { x \<leftarrow> UFManager2_at es a; y \<leftarrow> UFManager2_at es b;
          Some (if \<not> ies_is_empty (ies2 y) \<and> \<not> ies_is_empty (ies2 x)
                then es[nat a := x\<lparr>ies2 := snd (ies_add (ies2 y) (ies2 x))\<rparr>] else es) }"

definition set_parent2 :: "int \<Rightarrow> int \<Rightarrow> ufe2 list \<Rightarrow> ufe2 list option" where
  "set_parent2 j p es = do { x \<leftarrow> UFManager2_at es j; Some (es[nat j := x\<lparr>parent2 := p\<rparr>]) }"

definition UFManager2_join :: "int \<Rightarrow> int \<Rightarrow> ufe2 list \<Rightarrow> (int \<times> ufe2 list) option" where
  "UFManager2_join a b es =
     do { (i, es) \<leftarrow> UFManager2_find es a;
          (j, es) \<leftarrow> UFManager2_find es b;
          if i = j then Some (i, es)
          else do {
            x \<leftarrow> UFManager2_at es a; y \<leftarrow> UFManager2_at es b;
            if rank2 x \<ge> rank2 y then do {
              es \<leftarrow> set_parent2 j i es;
              x' \<leftarrow> UFManager2_at es a;
              es \<leftarrow> Some (if rank2 x > rank2 y then es[nat a := x'\<lparr>rank2 := rank2 x' + 1\<rparr>] else es);
              es \<leftarrow> merge_ies a b es;
              Some (i, es) }
            else do {
              es \<leftarrow> set_parent2 i j es;
              es \<leftarrow> merge_ies b a es;
              Some (j, es) } } }"

subsection \<open>The factors\<close>

record uf_state =
  allElements :: "string \<rightharpoonup> int"
  uniqueSReps :: "int list"
  uf_manager :: "ufe2 list"

definition access_strings :: "ies \<Rightarrow> string list" where
  "access_strings s = concat (map (\<lambda>(a, d). map (\<lambda>u. arrName a @ ''__'' @ utostr u) d) (elements s))"

fun add_accesses :: "string list \<Rightarrow> uf_state \<Rightarrow> uf_state \<times> int list" where
  "add_accesses [] st = (st, [])"
| "add_accesses (acc # accs) st =
     (case allElements st acc of
        None \<Rightarrow>
          (let (ufe, es) = UFManager2_create (uf_manager st) acc;
               (st', us) = add_accesses accs (st\<lparr>allElements := (allElements st)(acc \<mapsto> ufe),
                 uniqueSReps := List.insert ufe (uniqueSReps st), uf_manager := es\<rparr>)
           in (st', ufe # us))
      | Some ufe \<Rightarrow> (let (st', us) = add_accesses accs st in (st', ufe # us)))"

fun join_accesses :: "int list \<Rightarrow> int \<Rightarrow> uf_state \<Rightarrow> (int \<times> uf_state) option" where
  "join_accesses (cur # nxt # us) ff st =
     do { (a, es) \<leftarrow> UFManager2_find (uf_manager st) cur;
          (b, es) \<leftarrow> UFManager2_find es nxt;
          (ff', es) \<leftarrow> UFManager2_join cur nxt es;
          join_accesses (nxt # us) ff' (st\<lparr>uf_manager := es,
            uniqueSReps := List.insert ff' (removeAll a (removeAll b (uniqueSReps st)))\<rparr>) }"
| "join_accesses _ ff st = Some (ff, st)"

text \<open>One constraint; the first access of a constraint without any is not there.\<close>

definition add_factor :: "expr \<Rightarrow> uf_state \<Rightarrow> uf_state option" where
  "add_factor c st =
     do { s \<leftarrow> IndependentElementSet c;
          (case add_accesses (access_strings s) st of
             (_, []) \<Rightarrow> None
           | (st, i # us) \<Rightarrow>
               do { (ff, es) \<leftarrow> UFManager2_find (uf_manager st) i;
                    (ff, st) \<leftarrow> join_accesses (i # us) ff (st\<lparr>uf_manager := es\<rparr>);
                    x \<leftarrow> UFManager2_at (uf_manager st) ff;
                    Some (st\<lparr>uf_manager := (uf_manager st)[nat ff := UFElement2_add s x]\<rparr>) }) }"

fun add_factors :: "expr list \<Rightarrow> uf_state \<Rightarrow> uf_state option" where
  "add_factors [] st = Some st"
| "add_factors (c # cs) st = Option.bind (add_factor c st) (add_factors cs)"

record visit_order =
  int_order :: "int list \<Rightarrow> int list"
  array_order :: "array list \<Rightarrow> array list"

definition getAllIndependentConstraintSetsUF :: "visit_order \<Rightarrow> expr list \<Rightarrow> ies list option" where
  "getAllIndependentConstraintSetsUF ord cs =
     do { st \<leftarrow> add_factors cs \<lparr>allElements = Map.empty, uniqueSReps = [], uf_manager = []\<rparr>;
          those (map (\<lambda>idx. map_option ies2 (UFManager2_at (uf_manager st) idx)) (int_order ord (uniqueSReps st))) }"

definition calculateArrayReferences :: "visit_order \<Rightarrow> ies \<Rightarrow> array list" where
  "calculateArrayReferences ord s = array_order ord (remdups (map fst (elements s) @ wholeObjects s))"

subsection \<open>Initial values\<close>

text \<open>The solution of a single equality of a constant with a read, where the constraints are one.\<close>

definition getTrivialSolution :: "expr list \<Rightarrow> 8 word list list option option" where
  "getTrivialSolution cs =
     (case cs of
        [BinaryExpr Eq (ConstantExpr ve) right] \<Rightarrow>
          if bitWidth ve > 8 then None
          else (case right of
              ReadExpr array us (ConstantExpr CE) \<Rightarrow>
                if bitWidth CE > 32 \<or> arrSize array \<le> nat (apval CE) then None
                else Some (Some [(replicate (arrSize array) 0)[nat (apval CE) := of_int (apval ve)]])
            | _ \<Rightarrow> Some None)
      | _ \<Rightarrow> Some None)"

fun copy_partial :: "dense \<Rightarrow> 8 word list \<Rightarrow> 8 word list \<Rightarrow> 8 word list option" where
  "copy_partial [] new old = Some old"
| "copy_partial (i # is) new old =
     (if i < length new \<and> i < length old then copy_partial is new (old[i := new ! i]) else None)"

fun merge_values :: "ies \<Rightarrow> array list \<Rightarrow> 8 word list list \<Rightarrow> (array \<rightharpoonup> 8 word list) \<Rightarrow> (array \<rightharpoonup> 8 word list) option" where
  "merge_values x (a # as) (v # vs) m =
     (case m a of
        Some old \<Rightarrow>
          if length old \<noteq> length v then None
          else do { new \<leftarrow> copy_partial (case map_of (elements x) a of Some d \<Rightarrow> d | None \<Rightarrow> []) v old;
                    merge_values x as vs (m(a \<mapsto> new)) }
      | None \<Rightarrow> merge_values x as vs (m(a \<mapsto> v)))"
| "merge_values x [] [] m = Some m"
| "merge_values x _ _ m = None"

text \<open>The factors in turn: the values found, or \<open>Some None\<close> where one has no solution.\<close>

fun solve_factors :: "visit_order \<Rightarrow> 's solver_impl \<Rightarrow> ies list \<Rightarrow> (array \<rightharpoonup> 8 word list) \<Rightarrow>
    ('s, (array \<rightharpoonup> 8 word list) option) call" where
  "solve_factors ord S [] m = returns (Some m)"
| "solve_factors ord S (x # xs) m =
     (let arrays = calculateArrayReferences ord x; q = \<lparr>qconstraints = exprs x, qexpr = ConstantExpr (ConstantExpr_alloc 0 1)\<rparr> in
      if exprs x = [] then (\<lambda>s. None)
      else if arrays = [] then solve_factors ord S xs m
      else building (getTrivialSolution (exprs x)) (\<lambda>cheap.
        andthen (case cheap of Some vals \<Rightarrow> returns (Some vals) | None \<Rightarrow> computeInitialValues S q arrays) (\<lambda>r.
          case r of
            None \<Rightarrow> returns None
          | Some vals \<Rightarrow> building (merge_values x arrays vals m) (solve_factors ord S xs))))"

fun constraints_true :: "assignment \<Rightarrow> expr list \<Rightarrow> bool option" where
  "constraints_true assign [] = Some True"
| "constraints_true assign (c # cs) =
     do { r \<leftarrow> Assignment_evaluate assign c;
          (case r of
             ConstantExpr k \<Rightarrow> if ConstantExpr_isFalse k then Some False else constraints_true assign cs
           | _ \<Rightarrow> None) }"

definition assertCreatedPointEvaluatesToTrue :: "query \<Rightarrow> array list \<Rightarrow> 8 word list list \<Rightarrow> (array \<rightharpoonup> 8 word list) \<Rightarrow> bool option" where
  "assertCreatedPointEvaluatesToTrue q objects vals retMap =
     do { a \<leftarrow> Assignment_new objects vals True;
          assign \<leftarrow> Some (a\<lparr>bindings := retMap ++ bindings a\<rparr>);
          ok \<leftarrow> constraints_true assign (qconstraints q);
          if \<not> ok then Some False
          else do { neg \<leftarrow> createIsZero (qexpr q);
                    r \<leftarrow> Assignment_evaluate assign neg;
                    (case r of ConstantExpr c \<Rightarrow> Some (ConstantExpr_isTrue c) | _ \<Rightarrow> None) } }"

definition IndependentSolver_computeInitialValues ::
  "visit_order \<Rightarrow> bool \<Rightarrow> 's solver_impl \<Rightarrow> query \<Rightarrow> array list \<Rightarrow> ('s, init_values) call" where
  "IndependentSolver_computeInitialValues ord legacy_mode S q objects =
     (if legacy_mode then computeInitialValues S q objects
      else building (getAllIndependentConstraintSetsUF ord (qconstraints q)) (\<lambda>factors.
        andthen (solve_factors ord S factors Map.empty) (\<lambda>r.
          case r of
            None \<Rightarrow> returns None
          | Some retMap \<Rightarrow>
              (let vals = map (\<lambda>a. case retMap a of Some v \<Rightarrow> v | None \<Rightarrow> replicate (arrSize a) 0) objects in
               building (assertCreatedPointEvaluatesToTrue q objects vals retMap) (\<lambda>ok.
                 if ok then returns (Some vals) else (\<lambda>s. None))))))"

subsection \<open>The property\<close>

text \<open>In every manager the loop builds from none, an element's parent is the next index.\<close>

definition chained :: "ufe2 list \<Rightarrow> bool" where
  "chained es \<longleftrightarrow> (\<forall>i < length es. parent2 (es ! i) = int i + 1)"

lemma create_chained: "chained es \<Longrightarrow> chained (snd (UFManager2_create es an))"
  by (auto simp: chained_def UFManager2_create_def Let_def UFElement2_new_def nth_append less_Suc_eq)

lemma add_accesses_chained: "chained (uf_manager st) \<Longrightarrow> chained (uf_manager (fst (add_accesses accs st)))"
proof (induction accs arbitrary: st)
  case (Cons acc accs)
  obtain ufe es where es: "UFManager2_create (uf_manager st) acc = (ufe, es)" by force
  have "chained es" using create_chained [OF Cons.prems, of acc] es by simp
  then show ?case
    using Cons.IH [of st] Cons.IH [of "st\<lparr>allElements := (allElements st)(acc \<mapsto> ufe), uniqueSReps := List.insert ufe (uniqueSReps st), uf_manager := es\<rparr>"]
      Cons.prems es by (auto simp: Let_def case_prod_beta split: option.split)
qed simp

lemma add_factor_undefined: "chained (uf_manager st) \<Longrightarrow> add_factor c st = None"
proof -
  assume st: "chained (uf_manager st)"
  have lost: "UFManager2_find (uf_manager (fst (add_accesses accs st))) i = None" for accs i
    using add_accesses_chained [OF st] by (intro chain_find_leaves) (simp add: chained_def)
  show "add_factor c st = None"
  proof (cases "IndependentElementSet c")
    case (Some s)
    obtain st' us where "add_accesses (access_strings s) st = (st', us)" by force
    then show ?thesis using Some lost [of "access_strings s"] by (cases us) (simp_all add: add_factor_def)
  qed (simp add: add_factor_def)
qed

text \<open>
  C40. In the legacy mode \<open>computeInitialValues\<close> asks the solver below. In the other mode a query with
  any constraint has undefined behaviour, whatever the solver below: the first element of the union-find
  structure has the index after it as its parent, and the search for its representative leaves the vector.
\<close>

theorem independent_values_undefined:
  "IndependentSolver_computeInitialValues ord True S q objects s = computeInitialValues S q objects s \<and>
   (qconstraints q \<noteq> [] \<longrightarrow> IndependentSolver_computeInitialValues ord False S q objects s = None)"
proof -
  have "getAllIndependentConstraintSetsUF ord (qconstraints q) = None" if "qconstraints q \<noteq> []"
    using that add_factor_undefined [of "\<lparr>allElements = Map.empty, uniqueSReps = [], uf_manager = []\<rparr>"]
    by (cases "qconstraints q") (simp_all add: getAllIndependentConstraintSetsUF_def chained_def)
  then show ?thesis by (simp add: IndependentSolver_computeInitialValues_def building_def)
qed

definition seven_is_read :: query where
  "seven_is_read = \<lparr>qconstraints = [BinaryExpr Eq (ConstantExpr (APInt 8 7)) (sample_read 2)], qexpr = ConstantExpr (APInt 1 0)\<rparr>"

definition no_solver :: "unit solver_impl" where
  "no_solver = \<lparr>computeTruth = \<lambda>q. fails, computeValidity = \<lambda>q. fails, computeValue = \<lambda>q. fails, computeInitialValues = \<lambda>q objects. fails\<rparr>"

theorem independent_values_undefined_witness:
  "qconstraints seven_is_read \<noteq> [] \<and>
   IndependentSolver_computeInitialValues \<lparr>int_order = id, array_order = id\<rparr> False no_solver seven_is_read [sample_array] () = None"
  using independent_values_undefined [of "\<lparr>int_order = id, array_order = id\<rparr>" no_solver seven_is_read "[sample_array]" "()"]
  by (simp add: seven_is_read_def)

end
