(* ===== verification/Constant_Division.thy ===== *)
theory Constant_Division
  imports Int_Eval
begin

text \<open>
  Multiplication and division by constants without a multiplication or a division
  (\<^verbatim>\<open>klee/lib/Solver/ConstantDivision.cpp\<close>, and the formula that \<open>STPBuilder::constructUDivByConstant\<close> of
  \<^verbatim>\<open>klee/lib/Solver/STPBuilder.cpp\<close> builds from the constants). A shift by the width or more and a failed
  assertion are \<open>None\<close>.
\<close>

subsection \<open>Bits\<close>

definition ones :: "u32 \<Rightarrow> u32" where
  "ones x =
     (let x = x - (drop_bit 1 x AND 0x55555555);
          x = (drop_bit 2 x AND 0x33333333) + (x AND 0x33333333);
          x = (drop_bit 4 x + x) AND 0x0f0f0f0f;
          x = x + drop_bit 8 x;
          x = x + drop_bit 16 x
      in x AND 0x3f)"

definition smear :: "u32 \<Rightarrow> u32" where
  "smear x =
     (let x = x OR drop_bit 1 x; x = x OR drop_bit 2 x; x = x OR drop_bit 4 x; x = x OR drop_bit 8 x
      in x OR drop_bit 16 x)"

definition ldz :: "u32 \<Rightarrow> u32" where
  "ldz x = 32 - ones (smear x)"

text \<open>\<open>LOG2_CEIL\<close> and \<open>exp_base_2\<close>; the argument of the latter is signed.\<close>

definition LOG2_CEIL :: "u32 \<Rightarrow> u32" where
  "LOG2_CEIL x = 32 - ldz (x - 1)"

definition exp_base_2 :: "u32 \<Rightarrow> u32 option" where
  "exp_base_2 n =
     (let x = drop_bit 31 (NOT n AND (n - 32))
      in if 0 \<le> sint n \<and> sint n < 32 then Some (push_bit (unat n) x) else None)"

subsection \<open>Multiplication\<close>

text \<open>
  One round of the loop of \<open>ComputeMultConstants64\<close> on \<open>x\<close>, \<open>add\<close> and \<open>sub\<close> (the low end of a run, the
  run, the round), and the loop; a loop that does
  not end and a failed final assertion are \<open>None\<close>.
\<close>

type_synonym mult_state = "u64 \<times> u64 \<times> u64"

definition mult_low :: "u64 \<Rightarrow> nat \<Rightarrow> u64 \<Rightarrow> u64 \<Rightarrow> u64 \<times> u64" where
  "mult_low lowbit low add sub =
     (if low \<noteq> 0 \<and> add AND drop_bit 1 lowbit \<noteq> 0
      then (add XOR drop_bit 1 lowbit, sub XOR drop_bit 1 lowbit)
      else (add, sub OR lowbit))"

definition mult_parts :: "u64 \<Rightarrow> nat \<Rightarrow> nat \<Rightarrow> u64 \<Rightarrow> u64 \<Rightarrow> u64 \<times> u64" where
  "mult_parts lowbit low high add sub =
     (if high = low + 1 then (add OR lowbit, sub)
      else let (add, sub) = mult_low lowbit low add sub
           in (if high \<noteq> 64 then add OR push_bit high 1 else add, sub))"

definition mult_round :: "mult_state \<Rightarrow> mult_state option" where
  "mult_round = (\<lambda>(x, add, sub).
     do { low \<leftarrow> bits64_indexOfRightmostBit x;
          let lowbit = push_bit low 1; p = x + lowbit; q = bits64_isolateRightmostBit p
          in do { high \<leftarrow> (if q \<noteq> 0 then bits64_indexOfSingleBit q else Some 64);
                  let (add, sub) = mult_parts lowbit low high add sub
                  in Some (p XOR q, add, sub) } })"

partial_function (option) mult_loop :: "mult_state \<Rightarrow> mult_state option" where
  "mult_loop st = (if fst st = 0 then Some st else do { st \<leftarrow> mult_round st; mult_loop st })"

declare mult_loop.simps [code]

definition ComputeMultConstants64 :: "u64 \<Rightarrow> (u64 \<times> u64) option" where
  "ComputeMultConstants64 multiplicand =
     do { (x, add, sub) \<leftarrow> mult_loop (multiplicand, 0, 0);
          if multiplicand = add - sub then Some (add, sub) else None }"

subsection \<open>Division\<close>

definition ComputeUDivConstants32 :: "u32 \<Rightarrow> (u32 \<times> u32 \<times> u32) option" where
  "ComputeUDivConstants32 d =
     (let l = LOG2_CEIL d in
      do { e \<leftarrow> exp_base_2 l;
           mid \<leftarrow> Some (e - d);
           if d = 0 then None
           else Some (ucast (push_bit 32 (ucast mid :: u64) div ucast d) + 1,
                      word_of_int (min (sint l) 1), word_of_int (max (sint l - 1) 0)) })"

text \<open>
  The value of the formula that \<open>STPBuilder::constructUDivByConstant\<close> builds from the constants; \<open>t1\<close> is
  the upper half of the 64-bit product.
\<close>

definition muluh :: "u32 \<Rightarrow> u32 \<Rightarrow> u32" where
  "muluh m n = ucast (drop_bit 32 ((ucast m :: u64) * ucast n))"

definition shifted_quotient :: "u32 \<Rightarrow> u32 \<times> u32 \<times> u32 \<Rightarrow> u32" where
  "shifted_quotient n = (\<lambda>(mprime, sh1, sh2).
     let t1 = muluh mprime n in drop_bit (unat sh2) (drop_bit (unat sh1) (n - t1) + t1))"

subsection \<open>The logarithm\<close>

lemma ones_mask: "n \<le> 32 \<Longrightarrow> ones (mask n) = of_nat n"
proof -
  have "\<forall>n \<in> set [0..<33]. ones (mask n) = of_nat n" by code_simp
  then show "n \<le> 32 \<Longrightarrow> ones (mask n) = of_nat n" by simp
qed

lemma bit_or_shift:
  fixes x y :: u32
  assumes "\<And>i. bit y i \<longleftrightarrow> (\<exists>j < k. bit x (i + j))" "m = k + k"
  shows "bit (y OR drop_bit k y) i \<longleftrightarrow> (\<exists>j < m. bit x (i + j))"
proof -
  have "bit (y OR drop_bit k y) i \<longleftrightarrow> (\<exists>j < k. bit x (i + j)) \<or> (\<exists>j < k. bit x (i + (k + j)))"
    by (simp add: bit_or_iff bit_drop_bit_eq assms(1) add_ac)
  moreover have "(\<exists>j < k. bit x (i + j)) \<or> (\<exists>j < k. bit x (i + (k + j)))" if "j < m" "bit x (i + j)" for j
  proof (cases "j < k")
    case False
    then have "bit x (i + (k + (j - k)))" "j - k < k" using that assms(2) by simp_all
    then show ?thesis by blast
  qed (use that in blast)
  moreover have "\<exists>j < m. bit x (i + j)" if "j < k" "bit x (i + j) \<or> bit x (i + (k + j))" for j
  proof -
    have "j < m" "k + j < m" using that(1) assms(2) by simp_all
    then show ?thesis using that(2) by blast
  qed
  ultimately show ?thesis by blast
qed

lemma bit_smear: "bit (smear x) i \<longleftrightarrow> (\<exists>j < 32. bit x (i + j))"
proof -
  define x1 where "x1 = x OR drop_bit 1 x"
  define x2 where "x2 = x1 OR drop_bit 2 x1"
  define x3 where "x3 = x2 OR drop_bit 4 x2"
  define x4 where "x4 = x3 OR drop_bit 8 x3"
  have 1: "bit x1 i \<longleftrightarrow> (\<exists>j < 2. bit x (i + j))" for i unfolding x1_def by (rule bit_or_shift) simp_all
  have 2: "bit x2 i \<longleftrightarrow> (\<exists>j < 4. bit x (i + j))" for i unfolding x2_def by (rule bit_or_shift [OF 1]) simp
  have 3: "bit x3 i \<longleftrightarrow> (\<exists>j < 8. bit x (i + j))" for i unfolding x3_def by (rule bit_or_shift [OF 2]) simp
  have 4: "bit x4 i \<longleftrightarrow> (\<exists>j < 16. bit x (i + j))" for i unfolding x4_def by (rule bit_or_shift [OF 3]) simp
  have "bit (x4 OR drop_bit 16 x4) i \<longleftrightarrow> (\<exists>j < 32. bit x (i + j))" by (rule bit_or_shift [OF 4]) simp
  then show ?thesis by (simp add: smear_def Let_def x1_def x2_def x3_def x4_def)
qed

lemma top_bit:
  fixes x :: u32
  assumes "2 ^ k \<le> unat x" "unat x < 2 ^ Suc k"
  shows "bit x k"
proof -
  have "unat x div 2 ^ k = 1" using assms by (intro nat_eq_iff2 [THEN iffD2] div_nat_eqI) auto
  then have "bit (unat x) k" by (simp add: bit_iff_odd)
  then show ?thesis by (simp add: bit_unsigned_iff)
qed

lemma no_high_bit:
  fixes x :: u32
  assumes "unat x < 2 ^ L" "L \<le> i"
  shows "\<not> bit x i"
proof -
  have "unat x < 2 ^ i" using assms less_le_trans [OF assms(1) power_increasing [OF assms(2), of 2]] by simp
  then have "\<not> bit (unat x) i" by (simp add: bit_iff_odd)
  then show ?thesis by (auto simp: bit_unsigned_iff dest: bit_imp_le_length)
qed

lemma smear_mask:
  assumes "unat x < 2 ^ L" "0 < L \<Longrightarrow> 2 ^ (L - 1) \<le> unat x" "L \<le> 32"
  shows "smear x = mask L"
proof (rule bit_word_eqI)
  fix i assume i: "i < LENGTH(32)"
  have "bit (smear x) i \<longleftrightarrow> i < L"
  proof
    assume "bit (smear x) i"
    then obtain j where "bit x (i + j)" by (auto simp: bit_smear)
    then show "i < L" using no_high_bit [OF assms(1), of "i + j"] by linarith
  next
    assume "i < L"
    then have "bit x (L - 1)" using top_bit [of "L - 1" x] assms(1,2) by simp
    then have "bit x (i + (L - 1 - i))" "L - 1 - i < 32" using \<open>i < L\<close> assms(3) by simp_all
    then show "bit (smear x) i" unfolding bit_smear by blast
  qed
  then show "bit (smear x) i \<longleftrightarrow> bit (mask L :: u32) i" using i by (simp add: bit_mask_iff)
qed

lemma ceil_log_exists: "\<exists>L. (x :: nat) < 2 ^ L \<and> (0 < L \<longrightarrow> 2 ^ (L - 1) \<le> x)"
proof -
  define L where "L = (LEAST k. x < 2 ^ k)"
  have "x < 2 ^ x" by (rule less_exp)
  then have "x < 2 ^ L" unfolding L_def by (rule LeastI)
  moreover have "\<not> x < 2 ^ (L - 1)" if "0 < L" using not_less_Least [of "L - 1" "\<lambda>k. x < 2 ^ k"] that by (simp add: L_def)
  ultimately show ?thesis by (auto simp: not_less)
qed

lemma unat_less: "unat (x :: u32) < 2 ^ 32"
  using unsigned_less [of x, where ?'a = nat] by simp

lemma LOG2_CEIL_spec:
  assumes "d \<noteq> 0"
  obtains L where "LOG2_CEIL d = of_nat L" "L \<le> 32" "unat d \<le> 2 ^ L" "0 < L \<Longrightarrow> 2 ^ (L - 1) < unat d"
proof -
  obtain L where L: "unat (d - 1) < 2 ^ L" "0 < L \<Longrightarrow> 2 ^ (L - 1) \<le> unat (d - 1)" using ceil_log_exists [of "unat (d - 1)"] by blast
  have d: "unat (d - 1) = unat d - 1" "0 < unat d" using assms by (simp_all add: unat_minus_one unat_gt_0)
  have "L \<le> 32"
  proof (rule ccontr)
    assume "\<not> L \<le> 32"
    then have "(2 :: nat) ^ 32 \<le> 2 ^ (L - 1)" by (intro power_increasing) auto
    then show False using L(2) \<open>\<not> L \<le> 32\<close> unat_less [of "d - 1"] by simp
  qed
  then have "LOG2_CEIL d = of_nat L" using smear_mask [OF L] ones_mask [of L] by (simp add: LOG2_CEIL_def ldz_def)
  moreover have "unat d \<le> 2 ^ L" using L(1) d by linarith
  moreover have "2 ^ (L - 1) < unat d" if "0 < L" using L(2) [OF that] d by linarith
  ultimately show thesis using that \<open>L \<le> 32\<close> by blast
qed

lemma exp_base_2_power: "L < 32 \<Longrightarrow> exp_base_2 (of_nat L) = Some (2 ^ L)"
proof -
  have "\<forall>L \<in> set [0..<32]. exp_base_2 (of_nat L) = Some (2 ^ L)" by code_simp
  then show "L < 32 \<Longrightarrow> exp_base_2 (of_nat L) = Some (2 ^ L)" by simp
qed

subsection \<open>Division by multiplication, over the naturals\<close>

lemma magic_quotient:
  fixes n d :: nat
  assumes "M * d = N * B + e" "n < N" "e \<le> B" "0 < d" "0 < B"
  shows "(M * n) div (N * B) = n div d"
proof (rule div_nat_eqI)
  define q r where "q = n div d" and "r = n mod d"
  have n: "n = q * d + r" "r < d" by (simp_all add: q_def r_def assms(4))
  have Mnd: "M * n * d = n * (N * B) + n * e"
  proof -
    have "M * n * d = n * (M * d)" by simp
    then show ?thesis by (simp add: assms(1) algebra_simps)
  qed
  have "N * B * q * d \<le> M * n * d" unfolding Mnd by (simp add: n(1) algebra_simps)
  then show "N * B * (n div d) \<le> M * n" using assms(4) by (simp add: q_def)
  have "n * e \<le> n * B" using assms(3) by simp
  also have "\<dots> < N * B" using assms(2,5) by simp
  finally have ne: "n * e < N * B" .
  have "n * (N * B) + N * B = Suc n * (N * B)" by simp
  also have "\<dots> \<le> (q * d + d) * (N * B)" using n by (intro mult_le_mono1) simp
  finally have "M * n * d < (N * B * Suc q) * d" using ne unfolding Mnd by (simp add: algebra_simps)
  then show "M * n < N * B * Suc (n div d)" using assms(4) by (simp add: q_def)
qed

lemma half_sum: "t \<le> (n :: nat) \<Longrightarrow> (n - t) div 2 + t = (n + t) div 2"
  by presburger

lemma shifted_magic:
  fixes n d L :: nat
  assumes "0 < L" "2 ^ (L - 1) < d" "d \<le> 2 ^ L" "n < 2 ^ 32"
    and m: "m = (2 ^ 32 * (2 ^ L - d)) div d + 1" and t: "t = (m * n) div 2 ^ 32" and le: "t \<le> n"
  shows "((n - t) div 2 + t) div 2 ^ (L - 1) = n div d"
proof -
  define K where "K = (2 ^ 32 * (2 ^ L - d) :: nat)"
  have d: "0 < d" using assms(2) by simp
  have Kd: "K + 2 ^ 32 * d = 2 ^ 32 * 2 ^ L" unfolding K_def using assms(3)
    by (metis le_add_diff_inverse2 distrib_left)
  have "(2 ^ 32 + m) * d = 2 ^ 32 * d + (K div d * d + d)" by (simp add: m K_def algebra_simps)
  also have "K div d * d = K - K mod d" by (metis minus_mod_eq_div_mult)
  also have "2 ^ 32 * d + (K - K mod d + d) = 2 ^ 32 * 2 ^ L + (d - K mod d)"
    using Kd d mod_less_eq_dividend [of K d] mod_less_divisor [OF d, of K] by linarith
  finally have "((2 ^ 32 + m) * n) div (2 ^ 32 * 2 ^ L) = n div d"
    by (rule magic_quotient) (use assms d in auto)
  moreover have "n + t = ((2 ^ 32 + m) * n) div 2 ^ 32" by (simp add: t distrib_right)
  ultimately have "(n + t) div 2 ^ L = n div d" by (simp add: div_mult2_eq)
  moreover have "(n + t) div 2 div 2 ^ (L - 1) = (n + t) div 2 ^ L"
    using assms(1) by (metis div_mult2_eq power_eq_if neq0_conv)
  ultimately show ?thesis by (simp add: half_sum [OF le])
qed

subsection \<open>The constants\<close>

lemma unat_widen: "unat (ucast (x :: u32) :: u64) = unat x"
proof -
  have "unat x < 2 ^ 64" using unat_less [of x] by simp
  then show ?thesis by (simp add: unsigned_ucast_eq take_bit_nat_eq_self)
qed

lemma unat_muluh: "unat (muluh m n) = (unat m * unat n) div 2 ^ 32"
proof -
  have "unat m * unat n < 2 ^ 32 * 2 ^ 32" by (intro mult_strict_mono unat_less) simp_all
  then have "unat ((ucast m :: u64) * ucast n) = unat m * unat n"
    by (simp add: unat_word_ariths unat_widen)
  moreover have "(unat m * unat n) div 2 ^ 32 < 2 ^ 32"
    using \<open>unat m * unat n < 2 ^ 32 * 2 ^ 32\<close> by (simp add: less_mult_imp_div_less)
  ultimately show ?thesis
    by (simp add: muluh_def unsigned_ucast_eq drop_bit_eq_div unat_div_distrib take_bit_nat_eq_self)
qed

lemma ucast_quotient:
  fixes mid d :: u32
  assumes "unat mid < unat d"
  shows "unat (ucast (push_bit 32 (ucast mid :: u64) div ucast d) + 1 :: u32) = 2 ^ 32 * unat mid div unat d + 1"
proof -
  have lt: "2 ^ 32 * unat mid < 2 ^ 64" using unat_less [of mid] by simp
  then have 1: "unat (push_bit 32 (ucast mid :: u64)) = 2 ^ 32 * unat mid"
    by (simp add: push_bit_eq_mult unat_word_ariths unat_widen)
  have 2: "unat (ucast d :: u64) = unat d" by (rule unat_widen)
  have "2 ^ 32 * unat mid < (2 ^ 32 - 1) * unat d"
  proof -
    have "2 ^ 32 * (unat mid + 1) \<le> 2 ^ 32 * unat d" using assms(1) by simp
    then show ?thesis using unat_less [of d] by simp
  qed
  then have 3: "2 ^ 32 * unat mid div unat d < 2 ^ 32 - 1" by (rule less_mult_imp_div_less)
  have "unat (ucast (push_bit 32 (ucast mid :: u64) div ucast d) :: u32) = 2 ^ 32 * unat mid div unat d"
    using 1 2 3 by (simp add: unsigned_ucast_eq unat_div_distrib take_bit_nat_eq_self)
  then show ?thesis using 3 by (simp add: unat_word_ariths)
qed

lemma small_shift:
  assumes "L < 32"
  shows "unat (2 ^ L :: u32) = 2 ^ L" "sint (of_nat L :: u32) = int L"
    "word_of_int (min (int L) 1) = (of_nat (min L 1) :: u32)" "word_of_int (max (int L - 1) 0) = (of_nat (L - 1) :: u32)"
    "unat (of_nat (min L 1) :: u32) = min L 1" "unat (of_nat (L - 1) :: u32) = L - 1"
proof -
  have "(2 :: nat) ^ L < 2 ^ 32" using assms by (intro power_strict_increasing) simp_all
  then show "unat (2 ^ L :: u32) = 2 ^ L" using unat_of_nat [of "2 ^ L", where ?'a = 32] by simp
  show "sint (of_nat L :: u32) = int L" using assms by (simp add: signed_of_nat signed_take_bit_int_eq_self)
  show "word_of_int (min (int L) 1) = (of_nat (min L 1) :: u32)" by (cases L) simp_all
  show "word_of_int (max (int L - 1) 0) = (of_nat (L - 1) :: u32)" by (cases L) simp_all
  show "unat (of_nat (min L 1) :: u32) = min L 1" "unat (of_nat (L - 1) :: u32) = L - 1"
    using assms by (simp_all add: unat_of_nat)
qed

lemma ComputeUDivConstants32_value:
  assumes "d \<noteq> 0" "unat d \<le> 2 ^ 31"
  obtains L mprime where "ComputeUDivConstants32 d = Some (mprime, of_nat (min L 1), of_nat (L - 1))"
    "L < 32" "unat d \<le> 2 ^ L" "0 < L \<Longrightarrow> 2 ^ (L - 1) < unat d"
    "unat mprime = 2 ^ 32 * (2 ^ L - unat d) div unat d + 1"
proof -
  obtain L where L: "LOG2_CEIL d = of_nat L" "L \<le> 32" "unat d \<le> 2 ^ L" "0 < L \<Longrightarrow> 2 ^ (L - 1) < unat d"
    using LOG2_CEIL_spec [OF assms(1)] by blast
  have L32: "L < 32"
  proof (rule ccontr)
    assume "\<not> L < 32"
    then have "L = 32" using L(2) by simp
    then show False using L(4) assms(2) by simp
  qed
  have power: "unat (2 ^ L :: u32) = 2 ^ L" by (rule small_shift(1) [OF L32])
  have mid: "unat (2 ^ L - d) = 2 ^ L - unat d" using L(3) by (simp add: power unat_sub word_le_nat_alt)
  have pos: "0 < unat d" using assms(1) by (simp add: unat_gt_0)
  have less: "unat (2 ^ L - d) < unat d"
  proof (cases L)
    case 0
    then show ?thesis unfolding mid using pos by simp
  next
    case (Suc k)
    then have "2 ^ L < 2 * unat d" using L(4) by simp
    then show ?thesis using pos by (simp add: mid)
  qed
  define mprime :: u32 where "mprime = ucast (push_bit 32 (ucast (2 ^ L - d) :: u64) div ucast d) + 1"
  have "ComputeUDivConstants32 d = Some (mprime, of_nat (min L 1), of_nat (L - 1))"
    by (simp add: ComputeUDivConstants32_def L(1) exp_base_2_power [OF L32] small_shift [OF L32] assms(1) mprime_def Let_def)
  moreover have "unat mprime = 2 ^ 32 * (2 ^ L - unat d) div unat d + 1"
    using ucast_quotient [OF less] by (simp add: mprime_def mid)
  ultimately show thesis using that L32 L(3,4) by blast
qed

text \<open>
  C18. For every divisor from 1 to \<open>2 ^ 31\<close>, \<open>ComputeUDivConstants32\<close> shifts by less than the width and the
  multiplier and the two shifts it returns make the formula built from them the unsigned quotient,
  for every 32-bit numerator.
\<close>

theorem udiv_constants_correct:
  assumes "d \<noteq> 0" "unat d \<le> 2 ^ 31"
  shows "\<exists>c. ComputeUDivConstants32 d = Some c \<and> (\<forall>n. shifted_quotient n c = n div d)"
proof -
  obtain L mprime where c: "ComputeUDivConstants32 d = Some (mprime, of_nat (min L 1), of_nat (L - 1))"
    "L < 32" "unat d \<le> 2 ^ L" "0 < L \<Longrightarrow> 2 ^ (L - 1) < unat d" "unat mprime = 2 ^ 32 * (2 ^ L - unat d) div unat d + 1"
    using ComputeUDivConstants32_value [OF assms] by blast
  have "shifted_quotient n (mprime, of_nat (min L 1), of_nat (L - 1)) = n div d" for n
  proof -
    define t where "t = muluh mprime n"
    have t: "unat t = unat mprime * unat n div 2 ^ 32" by (simp add: t_def unat_muluh)
    have le: "unat t \<le> unat n"
    proof -
      have "unat mprime * unat n \<le> 2 ^ 32 * unat n" using unat_less [of mprime] by (intro mult_le_mono1) simp
      then have "unat mprime * unat n div 2 ^ 32 \<le> 2 ^ 32 * unat n div 2 ^ 32" by (rule div_le_mono)
      then show ?thesis by (simp add: t)
    qed
    have diff: "unat (n - t) = unat n - unat t" using le by (simp add: unat_sub word_le_nat_alt)
    have shift: "unat (drop_bit k (x :: u32)) = unat x div 2 ^ k" for k x
      unfolding unat_drop_bit_eq drop_bit_eq_div [of k "unat x"] ..
    have "(unat n - unat t) div 2 ^ min L 1 + unat t \<le> unat n"
      using div_le_dividend [of "unat n - unat t" "2 ^ min L 1"] le by linarith
    then have "unat (drop_bit (min L 1) (n - t) + t) = (unat n - unat t) div 2 ^ min L 1 + unat t"
      using unat_less [of n] by (simp add: unat_word_ariths shift diff)
    then have "unat (shifted_quotient n (mprime, of_nat (min L 1), of_nat (L - 1)))
        = ((unat n - unat t) div 2 ^ min L 1 + unat t) div 2 ^ (L - 1)"
      by (simp add: shifted_quotient_def Let_def shift small_shift(5,6) [OF c(2), unfolded One_nat_def] flip: t_def)
    also have "\<dots> = unat n div unat d"
    proof (cases "L = 0")
      case True
      then have "unat d = 1" using c(3) assms(1) by (simp add: unat_gt_0 le_antisym Suc_le_eq)
      moreover have "unat n - unat t + unat t = unat n" using le by simp
      ultimately show ?thesis using True by simp
    next
      case False
      then show ?thesis using shifted_magic [OF _ c(4) c(3) unat_less c(5) t le] by simp
    qed
    finally show ?thesis by (simp add: unat_div_distrib word_unat_eq_iff)
  qed
  then show ?thesis using c(1) by blast
qed

theorem udiv_constants_correct_witness:
  "(7 :: u32) \<noteq> 0 \<and> unat (7 :: u32) \<le> 2 ^ 31 \<and> ComputeUDivConstants32 7 = Some (0x24924925, 1, 2)
   \<and> shifted_quotient 100 (0x24924925, 1, 2) = 14"
proof -
  have c: "ComputeUDivConstants32 7 = Some (0x24924925, 1, 2)" by code_simp
  have "shifted_quotient 100 (0x24924925, 1, 2) = 100 div 7" using udiv_constants_correct [of 7] c by auto
  then show ?thesis using c by simp
qed

text \<open>A larger divisor makes \<open>exp_base_2\<close> shift a 32-bit word by 32.\<close>

lemma udiv_constants_large:
  assumes "2 ^ 31 < unat d"
  shows "ComputeUDivConstants32 d = None"
proof -
  have "d \<noteq> 0" using assms by auto
  then obtain L where L: "LOG2_CEIL d = of_nat L" "L \<le> 32" "unat d \<le> 2 ^ L" using LOG2_CEIL_spec by blast
  have "L = 32"
  proof (rule ccontr)
    assume "L \<noteq> 32"
    then have "(2 :: nat) ^ L \<le> 2 ^ 31" using L(2) by (intro power_increasing) simp_all
    then show False using L(3) assms by simp
  qed
  moreover have "exp_base_2 32 = None" by code_simp
  ultimately show ?thesis by (simp add: ComputeUDivConstants32_def L(1))
qed

subsection \<open>The multiplication loop\<close>

definition below :: "u64 \<Rightarrow> u64 \<Rightarrow> bool" where
  "below a x \<longleftrightarrow> (\<forall>i j. bit a i \<longrightarrow> bit x j \<longrightarrow> i < j)"

definition mult_inv :: "u64 \<Rightarrow> mult_state \<Rightarrow> bool" where
  "mult_inv m = (\<lambda>(x, add, sub). add AND sub = 0 \<and> below add x \<and> below sub x \<and> add - sub + x = m)"

lemma bit_lowbit: "bit (push_bit k 1 :: u64) j \<longleftrightarrow> j = k \<and> k < 64"
  by (auto simp: bit_push_bit_iff bit_1_iff simp del: push_bit_of_1)

lemma bit_shifted: "bit (push_bit k x :: u64) j \<longleftrightarrow> j < 64 \<and> k \<le> j \<and> bit x (j - k)"
  by (auto simp: bit_push_bit_iff)

lemma carry_run:
  fixes x :: u64
  assumes "bit x low" "\<forall>j < low. \<not> bit x j"
  shows "\<forall>j \<le> low. \<not> bit (x + push_bit low 1) j"
proof -
  define k z where "k = low + 1" and "z = drop_bit k x"
  have split: "x = push_bit k z OR push_bit low 1"
  proof (rule bit_word_eqI)
    fix j assume "j < LENGTH(64)"
    then show "bit x j \<longleftrightarrow> bit (push_bit k z OR push_bit low 1) j"
      unfolding bit_or_iff bit_lowbit bit_shifted z_def bit_drop_bit_eq using assms
      by (cases j low rule: linorder_cases) (simp_all add: k_def bit_1_iff)
  qed
  have "push_bit k z AND push_bit low 1 = 0"
  proof (rule bit_word_eqI)
    fix j show "bit (push_bit k z AND push_bit low 1) j \<longleftrightarrow> bit (0 :: u64) j"
      unfolding bit_and_iff bit_lowbit bit_shifted by (simp add: k_def bit_1_iff)
  qed
  then have "x = push_bit k z + push_bit low 1" by (subst split) (rule disjunctive_add_eq_or [symmetric])
  then have "x + push_bit low 1 = push_bit k z + (push_bit low 1 + push_bit low 1)" by (simp only: add.assoc)
  also have "(push_bit low 1 + push_bit low 1 :: u64) = push_bit k 1" by (simp add: k_def)
  finally have "x + push_bit low 1 = push_bit k (z + 1)" by (simp only: push_bit_add)
  then show ?thesis by (simp only: bit_shifted) (simp add: k_def)
qed

lemma xor_part:
  fixes a b :: u64
  assumes "a AND b = b"
  shows "a XOR b = a - b"
proof -
  have part: "bit b i \<Longrightarrow> bit a i" for i using assms bit_and_iff [of a b i] by simp
  have "(a XOR b) AND b = 0" by (rule bit_word_eqI) (auto simp: bit_and_iff bit_xor_iff part)
  then have "(a XOR b) + b = (a XOR b) OR b" by (rule disjunctive_add_eq_or)
  also have "\<dots> = a" by (rule bit_word_eqI) (auto simp: bit_xor_iff bit_or_iff part)
  finally show ?thesis by (simp add: algebra_simps)
qed

lemma isolated_part: "p AND bits64_isolateRightmostBit p = bits64_isolateRightmostBit p"
  by (simp add: bits64_isolateRightmostBit_def flip: and.assoc)

lemma lowest_index:
  assumes "x \<noteq> 0"
  obtains low where "low < 64" "bits64_isolateRightmostBit x = push_bit low 1" "bits64_indexOfRightmostBit x = Some low"
    "bits64_indexOfSingleBit (push_bit low 1) = Some low" "bit x low" "\<forall>m < low. \<not> bit x m"
proof -
  obtain n where "n < 64" "bits64_isolateRightmostBit x = push_bit n 1" "bit x n" "\<forall>m < n. \<not> bit x m"
    using isolateRightmostBit_lowest [OF assms] by blast
  then show thesis using that [of n] indexOfSingleBit_power [of n] by (simp add: bits64_indexOfRightmostBit_def)
qed

text \<open>The rest after a round is \<open>x + lowbit - q\<close>, and its bits are above the bit of \<open>q\<close>.\<close>

lemma rest_of_round:
  assumes "bit x low" "\<forall>j < low. \<not> bit x j" "p = x + push_bit low 1" "q = bits64_isolateRightmostBit p"
  obtains high where "(if q \<noteq> 0 then bits64_indexOfSingleBit q else Some 64) = Some high" "low < high" "high \<le> 64"
    "q = push_bit high 1" "p XOR q = x + push_bit low 1 - q" "\<forall>j. bit (p XOR q) j \<longrightarrow> high < j"
proof (cases "p = 0")
  case True
  then have "q = 0" by (simp add: assms(4) bits64_isolateRightmostBit_def)
  moreover have "(push_bit 64 1 :: u64) = 0" by (simp add: push_bit_eq_mult)
  moreover have "low < 64" using bit_imp_le_length [OF assms(1)] by simp
  ultimately show thesis using that [of 64] True assms(3) by simp
next
  case False
  obtain high where h: "high < 64" "q = push_bit high 1" "bits64_indexOfSingleBit (push_bit high 1) = Some high"
    "bit p high" "\<forall>m < high. \<not> bit p m"
    using lowest_index [OF False] assms(4) by metis
  have "low < high"
  proof (rule ccontr)
    assume "\<not> low < high"
    then show False using carry_run [OF assms(1,2)] h(4) assms(3) by simp
  qed
  moreover have "bit q high" by (simp only: h(2) bit_lowbit h(1) simp_thms)
  then have "q \<noteq> 0" by auto
  moreover have "p XOR q = p - q" by (rule xor_part) (simp add: assms(4) isolated_part)
  moreover have "high < j" if "bit (p XOR q) j" for j
  proof (cases j high rule: linorder_cases)
    case less
    then show ?thesis using that h(2,5) by (simp add: bit_xor_iff bit_lowbit del: push_bit_of_1)
  next
    case equal
    then show ?thesis using that h(4) \<open>bit q high\<close> by (simp add: bit_xor_iff)
  qed
  ultimately show thesis using that [of high] h assms(3) by simp
qed

lemma above_disjoint:
  assumes "\<forall>i. bit a i \<longrightarrow> i < k"
  shows "(a :: u64) AND push_bit k 1 = 0"
proof (rule bit_word_eqI)
  fix j show "bit (a AND push_bit k 1) j \<longleftrightarrow> bit (0 :: u64) j"
    unfolding bit_and_iff bit_lowbit using assms by auto
qed

lemma halve_lowbit: "low \<noteq> 0 \<Longrightarrow> low < 64 \<Longrightarrow> drop_bit 1 (push_bit low 1 :: u64) = push_bit (low - 1) 1"
proof (rule bit_word_eqI)
  fix j assume "low \<noteq> 0" "low < 64" "j < LENGTH(64)"
  then show "bit (drop_bit 1 (push_bit low 1 :: u64)) j \<longleftrightarrow> bit (push_bit (low - 1) 1 :: u64) j"
    unfolding bit_drop_bit_eq comp_def bit_lowbit by auto
qed

lemma mult_low_part:
  fixes add sub a s :: u64
  assumes disj: "add AND sub = 0" and bits: "\<forall>i. bit add i \<or> bit sub i \<longrightarrow> i < low" and low: "low < 64"
    and parts: "mult_low (push_bit low 1) low add sub = (a, s)"
  shows "a - s = add - sub - push_bit low 1 \<and> a AND s = 0 \<and> (\<forall>i. bit a i \<or> bit s i \<longrightarrow> i \<le> low)"
proof -
  have nb: "\<not> (bit add i \<and> bit sub i)" for i using disj bit_and_iff [of add sub i] by simp
  show ?thesis
  proof (cases "low \<noteq> 0 \<and> add AND drop_bit 1 (push_bit low 1) \<noteq> 0")
    case True
    define h where "h = (push_bit (low - 1) 1 :: u64)"
    have h: "drop_bit 1 (push_bit low 1) = h" unfolding h_def by (rule halve_lowbit) (use True low in simp_all)
    have hb: "bit h i \<longleftrightarrow> i = low - 1" for i unfolding h_def bit_lowbit using low by auto
    have "bit add (low - 1)"
    proof (rule ccontr)
      assume "\<not> bit add (low - 1)"
      then have "add AND h = 0" by (intro bit_word_eqI) (auto simp: bit_and_iff hb)
      then show False using True unfolding h by simp
    qed
    then have nsub: "\<not> bit sub (low - 1)" using nb by blast
    have in_add: "add AND h = h" by (rule bit_word_eqI) (use \<open>bit add (low - 1)\<close> in \<open>auto simp: bit_and_iff hb\<close>)
    have not_sub: "sub AND h = 0" by (rule bit_word_eqI) (use nsub in \<open>auto simp: bit_and_iff hb\<close>)
    have as: "a = add XOR h" "s = sub XOR h" using parts True unfolding mult_low_def h by simp_all
    have two: "push_bit low 1 = h + h" using True by (cases low) (simp_all add: h_def)
    have "a - s = add - sub - push_bit low 1"
      unfolding as two xor_part [OF in_add] disjunctive_add_eq_xor [OF not_sub, symmetric] by (simp add: algebra_simps)
    moreover have "a AND s = 0" unfolding as by (rule bit_word_eqI)
      (use nb \<open>bit add (low - 1)\<close> nsub in \<open>auto simp: bit_and_iff bit_xor_iff hb\<close>)
    moreover have "i \<le> low" if "bit a i \<or> bit s i" for i
      using that bits unfolding as bit_xor_iff hb by (auto intro: less_imp_le)
    ultimately show ?thesis by blast
  next
    case False
    then have as: "a = add" "s = sub OR push_bit low 1" using parts unfolding mult_low_def by auto
    have s0: "sub AND push_bit low 1 = 0" and a0: "add AND push_bit low 1 = 0"
      by (rule above_disjoint, use bits in blast)+
    have "a - s = add - sub - push_bit low 1"
      unfolding as disjunctive_add_eq_or [OF s0, symmetric] by (simp only: diff_diff_eq)
    moreover have "a AND s = 0" unfolding as bit.conj_disj_distrib disj a0 by simp
    moreover have "i \<le> low" if "bit a i \<or> bit s i" for i
      using that bits unfolding as bit_or_iff bit_lowbit by (auto intro: less_imp_le)
    ultimately show ?thesis by blast
  qed
qed

lemma mult_parts_step:
  fixes add sub a s :: u64
  assumes disj: "add AND sub = 0" and bits: "\<forall>i. bit add i \<or> bit sub i \<longrightarrow> i < low" and low: "low < 64" "low < high" "high \<le> 64"
    and parts: "mult_parts (push_bit low 1) low high add sub = (a, s)"
  shows "a - s = add - sub + push_bit high 1 - push_bit low 1 \<and> a AND s = 0 \<and> (\<forall>i. bit a i \<or> bit s i \<longrightarrow> i \<le> high)"
proof (cases "high = low + 1")
  case True
  then have as: "a = add OR push_bit low 1" "s = sub" using parts by (simp_all add: mult_parts_def)
  have s0: "sub AND push_bit low 1 = 0" and a0: "add AND push_bit low 1 = 0"
    by (rule above_disjoint, use bits in blast)+
  have "push_bit high 1 = (push_bit low 1 + push_bit low 1 :: u64)" by (simp add: True)
  then have "a - s = add - sub + push_bit high 1 - push_bit low 1"
    unfolding as disjunctive_add_eq_or [OF a0, symmetric] by (simp add: algebra_simps)
  moreover have "a AND s = 0" unfolding as bit.conj_disj_distrib2 disj using s0 by (simp only: and.commute or.left_neutral)
  moreover have "i \<le> high" if "bit a i \<or> bit s i" for i
    using that bits low unfolding as bit_or_iff bit_lowbit by (auto dest: less_trans)
  ultimately show ?thesis by blast
next
  case False
  obtain b where b: "mult_low (push_bit low 1) low add sub = (b, s)" "a = (if high \<noteq> 64 then b OR push_bit high 1 else b)"
    using parts False by (auto simp: mult_parts_def split: prod.splits)
  have bs: "b - s = add - sub - push_bit low 1" "b AND s = 0" "\<And>i. bit b i \<or> bit s i \<Longrightarrow> i \<le> low"
    using mult_low_part [OF disj bits low(1) b(1)] by blast+
  have b0: "b AND push_bit high 1 = 0" and s0: "s AND push_bit high 1 = 0"
    by (rule above_disjoint, use bs(3) low(2) in \<open>blast intro: le_less_trans\<close>)+
  have zero: "(push_bit 64 1 :: u64) = 0" by (simp add: push_bit_eq_mult)
  have a: "a = b OR push_bit high 1" using b(2) zero by (cases "high = 64") (simp_all del: push_bit_of_1 push_bit_numeral)
  have "a - s = b - s + push_bit high 1" unfolding a disjunctive_add_eq_or [OF b0, symmetric] by (simp only: add_diff_eq diff_add_eq)
  then have "a - s = add - sub + push_bit high 1 - push_bit low 1" unfolding bs(1) by (simp only: add_diff_eq diff_add_eq)
  moreover have "a AND s = 0" unfolding a bit.conj_disj_distrib2 bs(2) using s0 by (simp only: and.commute or.left_neutral)
  moreover have "i \<le> high" if "bit a i \<or> bit s i" for i
    using that bs(3) [of i] low(2) unfolding a bit_or_iff bit_lowbit by auto
  ultimately show ?thesis by blast
qed

lemma mult_round_step:
  assumes "mult_inv m (x, add, sub)" "x \<noteq> 0"
  obtains low x' a s where "mult_round (x, add, sub) = Some (x', a, s)" "mult_inv m (x', a, s)"
    "bit x low" "\<forall>j. bit x' j \<longrightarrow> low < j"
proof -
  obtain low where low: "low < 64" "bits64_indexOfRightmostBit x = Some low" "bit x low" "\<forall>j < low. \<not> bit x j"
    using lowest_index [OF assms(2)] by metis
  define p q where "p = x + push_bit low 1" and "q = bits64_isolateRightmostBit p"
  obtain high where high: "(if q \<noteq> 0 then bits64_indexOfSingleBit q else Some 64) = Some high" "low < high" "high \<le> 64"
    "q = push_bit high 1" "p XOR q = x + push_bit low 1 - q" "\<forall>j. bit (p XOR q) j \<longrightarrow> high < j"
    using rest_of_round [OF low(3,4) p_def q_def] by metis
  obtain a s where as: "mult_parts (push_bit low 1) low high add sub = (a, s)" by fastforce
  have inv: "add AND sub = 0" "\<forall>i. bit add i \<or> bit sub i \<longrightarrow> i < low" "add - sub + x = m"
    using assms(1) low(3) by (auto simp: mult_inv_def below_def)
  have step: "a - s = add - sub + push_bit high 1 - push_bit low 1" "a AND s = 0" "\<And>i. bit a i \<or> bit s i \<Longrightarrow> i \<le> high"
    using mult_parts_step [OF inv(1,2) low(1) high(2,3) as] by blast+
  have "mult_round (x, add, sub) = Some (p XOR q, a, s)"
    using low(2) high(1) as by (auto simp add: mult_round_def Let_def simp del: push_bit_of_1 simp flip: p_def q_def split: if_splits)
  moreover have "a - s + (p XOR q) = m"
    unfolding step(1) high(5) inv(3) [symmetric] high(4) [symmetric] by (simp add: algebra_simps del: push_bit_of_1)
  then have "mult_inv m (p XOR q, a, s)"
    using step(2,3) high(6) by (auto simp: mult_inv_def below_def intro: le_less_trans)
  ultimately show thesis using that low(3) high(2,6) by (meson less_trans)
qed

lemma mult_loop_ends:
  assumes "mult_inv m (x, add, sub)" "\<forall>j. bit x j \<longrightarrow> 64 - n \<le> j"
  shows "\<exists>a s. mult_loop (x, add, sub) = Some (0, a, s) \<and> a AND s = 0 \<and> a - s = m"
  using assms
proof (induction n arbitrary: x add sub)
  case 0
  have "x = 0" using 0(2) by (intro bit_word_eqI) (auto simp: not_le)
  then show ?case using 0(1) by (simp add: mult_loop.simps mult_inv_def)
next
  case (Suc n)
  show ?case
  proof (cases "x = 0")
    case True
    then show ?thesis using Suc.prems(1) by (simp add: mult_loop.simps mult_inv_def)
  next
    case False
    obtain low x' a s where r: "mult_round (x, add, sub) = Some (x', a, s)" "mult_inv m (x', a, s)"
      "bit x low" "\<forall>j. bit x' j \<longrightarrow> low < j"
      using mult_round_step [OF Suc.prems(1) False] by metis
    have "64 - Suc n \<le> low" using Suc.prems(2) r(3) by blast
    then have "\<forall>j. bit x' j \<longrightarrow> 64 - n \<le> j" using r(4) by fastforce
    then show ?thesis using Suc.IH [OF r(2)] False r(1) by (simp add: mult_loop.simps [of "(x, add, sub)"])
  qed
qed

text \<open>
  C17. \<open>ComputeMultConstants64\<close> returns for every multiplicand: its loop ends, the index helpers pass their
  assertions in every round, and so does the final one. The two numbers share no bit, and adding the
  shifts named by the one and subtracting the shifts named by the other multiplies by the multiplicand,
  with 64-bit wrap-around.
\<close>

theorem mult_constants_correct:
  "\<exists>add sub. ComputeMultConstants64 multiplicand = Some (add, sub) \<and> add AND sub = 0
     \<and> (\<forall>n. add * n - sub * n = multiplicand * n)"
proof -
  have "mult_inv multiplicand (multiplicand, 0, 0)" by (simp add: mult_inv_def below_def)
  then obtain a s where l: "mult_loop (multiplicand, 0, 0) = Some (0, a, s)" "a AND s = 0" "a - s = multiplicand"
    using mult_loop_ends [where n = 64] by force
  then have "ComputeMultConstants64 multiplicand = Some (a, s)" by (simp add: ComputeMultConstants64_def)
  then show ?thesis using l(2,3) by (metis left_diff_distrib)
qed

end
