(* ===== verification/Signed_Division_Constants.thy ===== *)
theory Signed_Division_Constants
  imports Constant_Division
begin

text \<open>
  Signed division by constants: \<open>ComputeSDivConstants32\<close> of \<^verbatim>\<open>klee/lib/Solver/ConstantDivision.cpp\<close>, and the value
  of the formula that \<open>STPBuilder::constructSDivByConstant\<close> of \<^verbatim>\<open>klee/lib/Solver/STPBuilder.cpp\<close> builds from its
  constants. Signed 32-bit integers are words read by \<open>sint\<close>.
\<close>

subsection \<open>The constants and the formula\<close>

definition ABS :: "int \<Rightarrow> int" where
  "ABS x = (if 0 < x then x else - x)"

definition XSIGN :: "u32 \<Rightarrow> u32" where
  "XSIGN x = signed_drop_bit 31 x"

definition ComputeSDivConstants32 :: "u32 \<Rightarrow> (u32 \<times> u32 \<times> u32) option" where
  "ComputeSDivConstants32 d =
     (let abs_d = (word_of_int (ABS (sint d)) :: u64);
          l = max 1 (LOG2_CEIL (ucast abs_d));
          l = (if abs_d = 0x80000000 then 31 else l)
      in do { mid \<leftarrow> exp_base_2 (l - 1);
              if abs_d = 0 then None
              else let m = 0x100000000 * (ucast mid :: u64) div abs_d + 1
                   in Some (ucast (m - 0x100000000), XSIGN d, l - 1) })"

definition mulsh :: "u32 \<Rightarrow> u32 \<Rightarrow> u32" where
  "mulsh m n = word_of_int (sint m * sint n div 2 ^ 32)"

definition signed_quotient :: "u32 \<Rightarrow> u32 \<times> u32 \<times> u32 \<Rightarrow> u32" where
  "signed_quotient n = (\<lambda>(mprime, dsign, shpost).
     let q0 = signed_drop_bit (unat shpost) (n + mulsh mprime n) - XSIGN n
     in (q0 XOR dsign) - dsign)"

subsection \<open>The quotient over the integers\<close>

text \<open>The counterpart of \<open>magic_quotient\<close> for a negative numerator \<open>- k\<close>: the floor is one below.\<close>

lemma magic_quotient_neg:
  fixes k d :: int
  assumes "M * d = N * B + e" "0 < k" "k \<le> N" "0 < e" "e \<le> B" "0 < d" "0 < B"
  shows "(M * - k) div (N * B) + 1 = - (k div d)"
proof -
  define q r where "q = k div d" and "r = k mod d"
  have k: "k = q * d + r" "0 \<le> r" "r < d" using assms(6) by (simp_all add: q_def r_def)
  have P: "0 < N * B" using assms by simp
  have "M * k * d = k * (M * d)" by simp
  then have Mkd: "M * k * d = k * (N * B) + k * e" by (simp add: assms(1) algebra_simps)
  have "q * (N * B) * d < M * k * d"
  proof -
    have "q * d * (N * B) \<le> k * (N * B)" using k P by (intro mult_right_mono) simp_all
    then have "q * (N * B) * d \<le> k * (N * B)" by (simp only: ac_simps)
    moreover have "0 < k * e" using assms(2,4) by simp
    ultimately show ?thesis unfolding Mkd by linarith
  qed
  then have lower: "q * (N * B) < M * k" using assms(6) by simp
  have "k * e \<le> N * B" using assms by (intro mult_mono) simp_all
  moreover have "k * (N * B) + N * B \<le> (q + 1) * (N * B) * d"
  proof -
    have "k + 1 \<le> (q + 1) * d" using k by (simp add: algebra_simps)
    then have "(k + 1) * (N * B) \<le> (q + 1) * d * (N * B)" using P by (intro mult_right_mono) simp_all
    then show ?thesis by (simp add: algebra_simps)
  qed
  ultimately have "M * k * d \<le> (q + 1) * (N * B) * d" unfolding Mkd by linarith
  then have upper: "M * k \<le> (q + 1) * (N * B)" using assms(6) by simp
  have "(M * - k) div (N * B) = - (q + 1)"
    using lower upper P by (intro int_div_pos_eq [where r = "(q + 1) * (N * B) - M * k"]) (simp_all add: algebra_simps)
  then show ?thesis by (simp add: q_def)
qed

lemma magic_quotient_int:
  fixes n d :: int
  assumes "M * d = N * B + e" "0 \<le> n" "n < N" "0 < e" "e \<le> B" "0 < d" "0 < B" "0 < M"
  shows "(M * n) div (N * B) = n div d"
proof -
  have "nat M * nat d = nat N * nat B + nat e"
    using assms by (simp flip: nat_mult_distrib nat_add_distrib)
  then have "(nat M * nat n) div (nat N * nat B) = nat n div nat d"
    by (rule magic_quotient) (use assms in simp_all)
  then have "nat ((M * n) div (N * B)) = nat (n div d)"
    using assms by (simp add: nat_div_distrib nat_mult_distrib)
  moreover have "0 \<le> (M * n) div (N * B)" "0 \<le> n div d" using assms by (simp_all add: pos_imp_zdiv_nonneg_iff)
  ultimately show ?thesis by simp
qed

text \<open>Truncated division from the floor: the correction adds one exactly for a negative numerator.\<close>

lemma truncated_quotient:
  fixes n d :: int
  assumes "M * \<bar>d\<bar> = N * B + e" "- N \<le> n" "n < N" "0 < e" "e \<le> B" "d \<noteq> 0" "0 < B" "0 < M"
  shows "(M * n) div (N * B) + of_bool (n < 0) = n sdiv \<bar>d\<bar>"
proof (cases "n < 0")
  case True
  then have "(M * - (- n)) div (N * B) + 1 = - (- n div \<bar>d\<bar>)"
    using assms by (intro magic_quotient_neg [OF assms(1)]) simp_all
  then show ?thesis using True assms(6) by (simp add: signed_divide_int_def)
next
  case False
  then show ?thesis using magic_quotient_int [OF assms(1)] assms by (simp add: signed_divide_int_def sgn_if)
qed

subsection \<open>Signed words\<close>

lemma sint_range: "- (2 ^ 31) \<le> sint (x :: u32)" "sint (x :: u32) < 2 ^ 31"
  using sint_greater_eq [of x] sint_less [of x] by simp_all

lemma sint_of_int_small: "- (2 ^ 31) \<le> k \<Longrightarrow> k < 2 ^ 31 \<Longrightarrow> sint (word_of_int k :: u32) = k"
  by (simp add: signed_of_int signed_take_bit_int_eq_self)

lemma XSIGN_value: "XSIGN x = (if sint x < 0 then - 1 else 0)"
proof -
  have "sint (XSIGN x) = sint x div 2 ^ 31" by (simp add: XSIGN_def sint_signed_drop_bit_eq drop_bit_eq_div)
  also have "\<dots> = (if sint x < 0 then - 1 else 0)"
  proof (cases "sint x < 0")
    case True
    then have "sint x div 2 ^ 31 = - 1"
      using sint_range [of x] by (intro int_div_pos_eq [where r = "sint x + 2 ^ 31"]) simp_all
    then show ?thesis using True by simp
  next
    case False
    then show ?thesis using sint_range [of x] by (simp add: div_pos_pos_trivial)
  qed
  also have "\<dots> = sint (if sint x < 0 then - 1 else 0 :: u32)" by simp
  finally show ?thesis by (simp only: signed_word_eqI)
qed

lemma shifted_value: "sint (signed_drop_bit k (x :: u32)) = sint x div 2 ^ k"
  by (simp add: sint_signed_drop_bit_eq drop_bit_eq_div)

lemma apply_sign: "(q XOR XSIGN d) - XSIGN d = (if sint d < 0 then - q else q)"
  by (simp add: XSIGN_value not_eq_complement)

lemma max_one: "L < 32 \<Longrightarrow> max 1 (of_nat L :: u32) = of_nat (max 1 L)"
proof -
  have "\<forall>L \<in> set [0..<32]. max 1 (of_nat L :: u32) = of_nat (max 1 L)" by code_simp
  then show "L < 32 \<Longrightarrow> max 1 (of_nat L :: u32) = of_nat (max 1 L)" by simp
qed

subsection \<open>The constants\<close>

lemma ABS_abs: "ABS x = \<bar>x\<bar>"
  by (simp add: ABS_def)

lemma abs_bounds:
  assumes "d \<noteq> (0 :: u32)" "A = nat \<bar>sint d\<bar>"
  shows "0 < A" "A \<le> 2 ^ 31" "unat (word_of_int (ABS (sint d)) :: u64) = A" "unat (ucast (word_of_int (ABS (sint d)) :: u64) :: u32) = A"
proof -
  have "sint d \<noteq> 0" using assms(1) by (simp add: signed_eq_0_iff)
  then show pos: "0 < A" by (simp add: assms(2))
  show le: "A \<le> 2 ^ 31" using sint_range [of d] by (simp add: assms(2))
  have "(word_of_int (ABS (sint d)) :: u64) = of_nat A" by (simp add: assms(2) ABS_abs)
  then show 64: "unat (word_of_int (ABS (sint d)) :: u64) = A" using le by (simp add: unat_of_nat)
  show "unat (ucast (word_of_int (ABS (sint d)) :: u64) :: u32) = A"
    unfolding unsigned_ucast_eq 64 using le by (simp add: take_bit_nat_eq_self)
qed

lemma log_at_most:
  assumes "0 < L \<Longrightarrow> 2 ^ (L - 1) < A" "A \<le> (2 :: nat) ^ 31"
  shows "L \<le> 31"
proof (rule ccontr)
  assume "\<not> L \<le> 31"
  then have "(2 :: nat) ^ 31 \<le> 2 ^ (L - 1)" by (intro power_increasing) simp_all
  then show False using assms \<open>\<not> L \<le> 31\<close> by simp
qed

lemma sint_mprime:
  fixes m :: u64
  assumes "2 ^ 31 \<le> unat m" "unat m < 2 ^ 32 + 2 ^ 31"
  shows "sint (ucast (m - 0x100000000) :: u32) = int (unat m) - 2 ^ 32"
proof -
  have u: "uint m = int (unat m)" by simp
  have "2147483648 \<le> unat m" "unat m < 6442450944" using assms by simp_all
  then have bounds: "2147483648 \<le> uint m" "uint m < 6442450944" unfolding u by linarith+
  have "m - 0x100000000 = word_of_int (uint m - 2 ^ 32)" by simp
  then have "uint (m - 0x100000000) = take_bit 64 (uint m - 2 ^ 32)" by (simp only: uint_word_of_int_eq) simp
  then have "(ucast (m - 0x100000000) :: u32) = word_of_int (take_bit 64 (uint m - 2 ^ 32))" by (simp only: ucast_eq)
  also have "sint \<dots> = signed_take_bit 31 (uint m - 2 ^ 32)"
    by (simp add: signed_of_int signed_take_bit_take_bit)
  also have "\<dots> = uint m - 2 ^ 32" using bounds by (intro signed_take_bit_int_eq_self) simp_all
  finally show ?thesis unfolding u .
qed

lemma ComputeSDivConstants32_value:
  assumes "d \<noteq> 0" "A = nat \<bar>sint d\<bar>"
  obtains l m mprime where "ComputeSDivConstants32 d = Some (mprime, XSIGN d, of_nat (l - 1))" "0 < l" "l < 32"
    "A \<le> 2 ^ l" "A = 1 \<longrightarrow> l = 1" "A \<noteq> 1 \<longrightarrow> 2 ^ (l - 1) < A" "m = 2 ^ 31 * 2 ^ l div A + 1" "sint mprime = int m - 2 ^ 32"
proof -
  note A = abs_bounds [OF assms]
  define a32 where "a32 = (ucast (word_of_int (ABS (sint d)) :: u64) :: u32)"
  have "a32 \<noteq> 0" using A(1,4) by (auto simp: a32_def)
  then obtain L where L: "LOG2_CEIL a32 = of_nat L" "A \<le> 2 ^ L" "0 < L \<Longrightarrow> 2 ^ (L - 1) < A"
    using LOG2_CEIL_spec [of a32] A(4) by (metis a32_def)
  have L31: "L \<le> 31" by (rule log_at_most [OF L(3) A(2)])
  define l where "l = max 1 L"
  have l: "0 < l" "l < 32" "A \<le> 2 ^ l"
    using L31 L(2) power_increasing [of L l "2 :: nat"] by (auto simp: l_def intro: order_trans)
  have one: "l = 1" if "A = 1"
  proof (rule ccontr)
    assume "l \<noteq> 1"
    then have "0 < L" by (simp add: l_def)
    then show False using L(3) that by simp
  qed
  have low: "2 ^ (l - 1) < A" if "A \<noteq> 1"
  proof (cases "L = 0")
    case True
    then show ?thesis using that A(1) by (simp add: l_def)
  next
    case False
    then show ?thesis using L(3) by (simp add: l_def)
  qed
  have special: "l = 31" if "A = 2 ^ 31"
  proof (rule ccontr)
    assume "l \<noteq> 31"
    then have "(2 :: nat) ^ l \<le> 2 ^ 30" using l(2) by (intro power_increasing) simp_all
    then show False using l(3) that by simp
  qed
  define a m :: u64 where "a = word_of_int (ABS (sint d))" and "m = 0x100000000 * ucast (2 ^ (l - 1) :: u32) div a + 1"
  have a: "unat a = A" "a \<noteq> 0" using A(1,3) by (auto simp: a_def)
  have mid: "unat (0x100000000 * ucast (2 ^ (l - 1) :: u32) :: u64) = 2 ^ 31 * 2 ^ l"
  proof -
    have "unat (2 ^ (l - 1) :: u32) = 2 ^ (l - 1)" using l(2) by (intro small_shift(1)) simp
    moreover have "(2 :: nat) ^ (l - 1) \<le> 2 ^ 30" using l(2) by (intro power_increasing) simp_all
    moreover have "(2 :: nat) ^ l = 2 * 2 ^ (l - 1)" using l(1) by (cases l) simp_all
    ultimately show ?thesis by (simp add: unat_word_ariths unat_widen)
  qed
  have "(2 :: nat) ^ 31 * 2 ^ l div A \<le> 2 ^ 32"
  proof (cases "A = 1")
    case True
    then show ?thesis using one by simp
  next
    case False
    have "(2 :: nat) ^ l \<le> 2 * A" using low [OF False] l(1) by (cases l) simp_all
    then have "(2 :: nat) ^ 31 * 2 ^ l div A \<le> 2 ^ 32 * A div A" by (intro div_le_mono) simp
    then show ?thesis using A(1) by simp
  qed
  moreover have "unat (0x100000000 * ucast (2 ^ (l - 1) :: u32) div a) = 2 ^ 31 * 2 ^ l div A" by (simp only: unat_div_distrib mid a(1))
  ultimately have m: "unat m = 2 ^ 31 * 2 ^ l div A + 1" unfolding m_def by (subst unat_word_ariths(1)) simp
  have "2 ^ 31 * A div A \<le> 2 ^ 31 * 2 ^ l div A" using l(3) by (intro div_le_mono) simp
  then have "2 ^ 31 \<le> unat m" "unat m < 2 ^ 32 + 2 ^ 31"
    using m A(1) \<open>(2 :: nat) ^ 31 * 2 ^ l div A \<le> 2 ^ 32\<close> by simp_all
  then have "sint (ucast (m - 0x100000000) :: u32) = int (unat m) - 2 ^ 32"
    by (rule sint_mprime)
  moreover have word: "(if a = 0x80000000 then 31 else max 1 (LOG2_CEIL (ucast a))) = (of_nat l :: u32)"
  proof (cases "a = 0x80000000")
    case True
    then have "A = 2 ^ 31" using a(1) by simp
    then show ?thesis using special True by simp
  next
    case False
    then show ?thesis using L(1) max_one [of L] L31 by (simp add: l_def a32_def a_def)
  qed
  have "(of_nat l - 1 :: u32) = of_nat (l - 1)" using l(1) by (cases l) simp_all
  then have "ComputeSDivConstants32 d = Some (ucast (m - 0x100000000), XSIGN d, of_nat (l - 1))"
    using word a(2) exp_base_2_power [of "l - 1"] l(2)
    by (simp add: ComputeSDivConstants32_def Let_def m_def flip: a_def)
  ultimately show thesis using that [of "ucast (m - 0x100000000)" l "unat m"] l one low m by blast
qed

subsection \<open>The property\<close>

text \<open>The divisor \<open>\<plusminus> 1\<close>: the multiplier is 1, and the correction undoes the upper half of the product.\<close>

lemma unit_quotient:
  assumes "sint mprime = 1"
  shows "signed_drop_bit 0 (n + mulsh mprime n) - XSIGN n = n"
proof -
  have "sint n div 2 ^ 32 = (if sint n < 0 then - 1 else 0)"
  proof (cases "sint n < 0")
    case True
    then have "sint n div 2 ^ 32 = - 1"
      using sint_range [of n] by (intro int_div_pos_eq [where r = "sint n + 2 ^ 32"]) simp_all
    then show ?thesis using True by simp
  next
    case False
    then show ?thesis using sint_range [of n] by (simp add: div_pos_pos_trivial)
  qed
  then have "mulsh mprime n = XSIGN n" by (simp add: mulsh_def assms XSIGN_value)
  then show ?thesis by simp
qed

lemma high_product:
  assumes "sint mprime = M - 2 ^ 32" "0 < M" "M \<le> 2 ^ 32"
  shows "sint (n + mulsh mprime n) = M * sint n div 2 ^ 32"
proof -
  have "n + mulsh mprime n = word_of_int (sint n + (M - 2 ^ 32) * sint n div 2 ^ 32)"
    by (simp add: mulsh_def assms(1))
  also have "sint n + (M - 2 ^ 32) * sint n div 2 ^ 32 = M * sint n div 2 ^ 32"
  proof -
    have "(M - 2 ^ 32) * sint n = M * sint n + (- sint n) * 2 ^ 32" by (simp add: algebra_simps)
    then show ?thesis by simp
  qed
  finally have word: "n + mulsh mprime n = word_of_int (M * sint n div 2 ^ 32)" .
  have "M * - (2 ^ 31) \<le> M * sint n" "M * sint n \<le> M * (2 ^ 31 - 1)"
    using assms(2) sint_range [of n] by (intro mult_left_mono; simp)+
  moreover have "M * (2 ^ 31 - 1) \<le> 2 ^ 32 * (2 ^ 31 - 1)" "2 ^ 32 * - (2 ^ 31) \<le> M * - (2 ^ 31)" using assms(3) by simp_all
  ultimately have "2 ^ 32 * - (2 ^ 31) \<le> M * sint n" "M * sint n < 2 ^ 32 * 2 ^ 31" by simp_all
  then have "- (2 ^ 31) \<le> M * sint n div 2 ^ 32" "M * sint n div 2 ^ 32 < 2 ^ 31" by simp_all
  then show ?thesis unfolding word by (rule sint_of_int_small)
qed

lemma rounded_up_multiple:
  fixes K A :: nat
  assumes "0 < A"
  shows "(K div A + 1) * A = K + (A - K mod A)"
proof -
  have "(K div A + 1) * A = K - K mod A + A" by (simp add: minus_mod_eq_div_mult)
  then show ?thesis using mod_less_eq_dividend [of K A] mod_less_divisor [OF assms, of K] by linarith
qed

lemma quotient_before_sign:
  fixes d n mprime :: u32
  assumes d: "d \<noteq> 0" "A = nat \<bar>sint d\<bar>" and l: "0 < l" "l < 32" "A \<le> 2 ^ l" "A = 1 \<longrightarrow> l = 1" "A \<noteq> 1 \<longrightarrow> 2 ^ (l - 1) < A"
    and m: "m = 2 ^ 31 * 2 ^ l div A + 1" and mprime: "sint mprime = int m - 2 ^ 32"
  shows "signed_drop_bit (l - 1) (n + mulsh mprime n) - XSIGN n = word_of_int (sint n sdiv \<bar>sint d\<bar>)"
proof (cases "A = 1")
  case True
  then have "\<bar>sint d\<bar> = 1" "l = 1" "sint mprime = 1" using d(2) l(4) m mprime by auto
  then show ?thesis using unit_quotient [of mprime n] by simp
next
  case False
  have A: "0 < A" by (rule abs_bounds(1) [OF d])
  have abs: "\<bar>sint d\<bar> = int A" by (simp add: d(2))
  have two: "(2 :: nat) ^ l = 2 * 2 ^ (l - 1)" using l(1) by (cases l) simp_all
  have "2 ^ 31 * 2 ^ l < 2 ^ 32 * A" using l(5) False two by simp
  then have "2 ^ 31 * 2 ^ l div A < 2 ^ 32" by (rule less_mult_imp_div_less)
  then have M: "0 < int m" "int m \<le> 2 ^ 32" by (simp_all add: m)
  define e where "e = A - 2 ^ 31 * 2 ^ l mod A"
  have e: "0 < e" "e \<le> 2 ^ l" unfolding e_def using l(3) mod_less_divisor [OF A, of "2 ^ 31 * 2 ^ l"] by linarith+
  have "m * A = 2 ^ 31 * 2 ^ l + e" unfolding m e_def by (rule rounded_up_multiple [OF A])
  then have "int (m * A) = int (2 ^ 31 * 2 ^ l + e)" by (rule arg_cong)
  then have eq: "int m * \<bar>sint d\<bar> = 2 ^ 31 * 2 ^ l + int e" by (simp add: abs)
  have "int e \<le> 2 ^ l" using e(2) by (simp flip: of_nat_le_iff)
  then have "int m * sint n div (2 ^ 31 * 2 ^ l) + of_bool (sint n < 0) = sint n sdiv \<bar>sint d\<bar>"
    using e(1) M(1) sint_range [of n] d(1) by (intro truncated_quotient [OF eq]) (simp_all add: signed_eq_0_iff)
  moreover have "sint (signed_drop_bit (l - 1) (n + mulsh mprime n)) = int m * sint n div 2 ^ 32 div 2 ^ (l - 1)"
    by (simp only: shifted_value high_product [OF mprime M])
  moreover have "int m * sint n div 2 ^ 32 div 2 ^ (l - 1) = int m * sint n div (2 ^ 31 * 2 ^ l)"
    using l(1) by (cases l) (simp_all add: zdiv_zmult2_eq)
  moreover have "signed_drop_bit (l - 1) (n + mulsh mprime n) = word_of_int (sint (signed_drop_bit (l - 1) (n + mulsh mprime n)))" by simp
  moreover have "word_of_int k - XSIGN n = word_of_int (k + of_bool (sint n < 0))" for k by (simp add: XSIGN_value)
  ultimately show ?thesis by metis
qed

text \<open>
  C19. For every divisor but zero, the least signed number included, \<open>ComputeSDivConstants32\<close> shifts by less
  than the width, and its constants make the formula built from them the quotient truncated towards
  zero, for every signed 32-bit numerator and with 32-bit wrap-around of the one quotient that overflows.
\<close>

theorem sdiv_constants_correct:
  assumes "d \<noteq> 0"
  shows "\<exists>c. ComputeSDivConstants32 d = Some c \<and> (\<forall>n. signed_quotient n c = word_of_int (sint n sdiv sint d))"
proof -
  define A where "A = nat \<bar>sint d\<bar>"
  obtain l m mprime where c: "ComputeSDivConstants32 d = Some (mprime, XSIGN d, of_nat (l - 1))" "0 < l" "l < 32"
    "A \<le> 2 ^ l" "A = 1 \<longrightarrow> l = 1" "A \<noteq> 1 \<longrightarrow> 2 ^ (l - 1) < A" "m = 2 ^ 31 * 2 ^ l div A + 1" "sint mprime = int m - 2 ^ 32"
    using ComputeSDivConstants32_value [OF assms A_def] by metis
  have "signed_quotient n (mprime, XSIGN d, of_nat (l - 1)) = word_of_int (sint n sdiv sint d)" for n
  proof -
    have "signed_quotient n (mprime, XSIGN d, of_nat (l - 1))
        = (word_of_int (sint n sdiv \<bar>sint d\<bar>) XOR XSIGN d) - XSIGN d"
      unfolding signed_quotient_def prod.case Let_def small_shift(6) [OF c(3)] quotient_before_sign [OF assms A_def c(2-8)] ..
    also have "\<dots> = word_of_int (sint n sdiv sint d)"
      unfolding apply_sign by (simp add: signed_divide_int_def sgn_if flip: of_int_minus)
    finally show ?thesis .
  qed
  then show ?thesis using c(1) by blast
qed

theorem sdiv_constants_correct_witness:
  "(- 7 :: u32) \<noteq> 0 \<and> ComputeSDivConstants32 (- 7) = Some (0x92492493, - 1, 2) \<and>
   signed_quotient (- 100) (0x92492493, - 1, 2) = 14"
proof -
  have c: "ComputeSDivConstants32 (- 7) = Some (0x92492493, - 1, 2)" by code_simp
  then have "signed_quotient (- 100) (0x92492493, - 1, 2) = word_of_int (sint (- 100 :: u32) sdiv sint (- 7 :: u32))"
    using sdiv_constants_correct [of "- 7"] by auto
  then show ?thesis using c by (simp add: signed_divide_int_def)
qed

end
