(* ===== verification/Constraint_Termination.thy ===== *)
theory Constraint_Termination
  imports Constraint_Manager Expr_Weight
begin

text \<open>
  Every addition of the constraint manager (\<^verbatim>\<open>klee/lib/Expr/Constraints.cpp\<close>) returns: the rewriting that an
  equality with a constant starts adds only lighter constraints, so the weight of the path
  constraints with the new one bounds the nesting. With the theorems of \<open>Constraint_Manager\<close> this gives
  the properties of \<open>addConstraint\<close>, \<open>addCheatConstraint\<close> and \<open>DoXorOptimization\<close> for all large enough fuel.
\<close>

subsection \<open>Substitution makes expressions lighter\<close>

lemma those_map_all2:
  "those (map f ks) = Some ys \<Longrightarrow> (\<And>k y. k \<in> set ks \<Longrightarrow> f k = Some y \<Longrightarrow> Q k y) \<Longrightarrow> list_all2 Q ks ys"
  by (induction ks arbitrary: ys) (auto split: option.splits)

lemma kids_with_kids: "\<not> isConstantExpr e \<Longrightarrow> length ks = length (kids e) \<Longrightarrow> \<exists>n. with_kids e ks = Some n"
  by (cases e) (auto simp: length_Suc_conv)

lemma replace_lighter:
  assumes "isConstantExpr dst" "visitActual (ExprReplaceVisitor src dst) e = Some x"
  shows "lighter e x"
  using assms(2)
proof (induction e arbitrary: x rule: measure_induct_rule [of esize])
  case (less e)
  let ?v = "ExprReplaceVisitor src dst"
  have dst: "\<not> isConstantExpr y \<Longrightarrow> weight dst < weight y" for y
    using assms(1) weight_pos [of y] by (auto simp: isConstantExpr_iff)
  have v: "vExpr ?v y = (if y = src then ChangeTo dst else DoChildren)" "vKind ?v y = Some DoChildren"
      "vPost ?v y = (if y = src then ChangeTo dst else DoChildren)" for y
    by (simp_all add: ExprReplaceVisitor_def ExprVisitor_def)
  show ?case
  proof (cases "isConstantExpr e \<or> e = src")
    case True
    then show ?thesis
      using less.prems dst [of e] by (auto simp: visitActual.simps [of ?v e] v lighter_def split: if_splits)
  next
    case False
    then obtain ks where ks: "those (map (visitActual ?v) (kids e)) = Some ks" "finish ?v e ks = Some x"
      using less.prems by (auto simp: visitActual.simps [of ?v e] v bind_eq_Some_conv)
    have kids: "list_all2 lighter (kids e) ks"
      by (rule those_map_all2 [OF ks(1)]) (use less.IH kids_esize in blast)
    obtain y where y: "(if ks \<noteq> kids e then rebuild e ks else Some e) = Some y"
        "x = (if isConstantExpr y then y else (case vPost ?v y of ChangeTo a \<Rightarrow> a | _ \<Rightarrow> y))"
      using ks(2) by (auto simp: finish_def bind_eq_Some_conv)
    have "lighter e y"
    proof (cases "ks = kids e")
      case True
      then show ?thesis using y(1) by simp
    next
      case differ: False
      obtain n where "with_kids e ks = Some n"
        using kids_with_kids [of e ks] False list_all2_lengthD [OF kids] by auto
      then show ?thesis using rebuild_lighter [OF kids differ] y(1) differ by (simp add: lighter_def)
    qed
    moreover have "lighter y x"
      using y(2) dst [of y] by (auto simp: v lighter_def)
    ultimately show ?thesis by (rule lighter_trans)
  qed
qed

subsection \<open>Rewriting ends when the additions do\<close>

text \<open>An addition with fuel, whose result stays the same with more.\<close>

locale fuelled_addition =
  fixes add :: "nat \<Rightarrow> cmanager \<Rightarrow> expr \<Rightarrow> cm_error + cmanager"
  assumes more_fuel: "add n cm e = res \<Longrightarrow> res \<noteq> Inl OutOfFuel \<Longrightarrow> n \<le> m \<Longrightarrow> add m cm e = res"
begin

lemma rewrite_loop_more_fuel:
  assumes "rewrite_loop (add n) v old m ch cm = res" "res \<noteq> Inl OutOfFuel" "n \<le> n'"
  shows "rewrite_loop (add n') v old m ch cm = res"
proof -
  have "refines_fuel (add n cm e) (add n' cm e)" for cm e
    using more_fuel [of n cm e _ n'] assms(3) by (auto simp: refines_fuel_def)
  then have "refines_fuel (rewrite_loop (add n) v old m ch cm) (rewrite_loop (add n') v old m ch cm)"
    by (rule refines_rewrite)
  then show ?thesis using assms(1,2) by (simp add: refines_fuel_def)
qed

text \<open>An invariant of the loop under which every addition it makes ends.\<close>

lemma rewrite_loop_ends:
  assumes kept: "\<And>cm ce old. I cm (ce # old) \<Longrightarrow> I (cm\<lparr>constraints := constraints cm @ [ce]\<rparr>) old"
    and added: "\<And>cm ce old e. I cm (ce # old) \<Longrightarrow> visitActual v ce = Some e \<Longrightarrow> e \<noteq> ce \<Longrightarrow>
      \<exists>n. add n cm e \<noteq> Inl OutOfFuel \<and> (\<forall>cm'. add n cm e = Inr cm' \<longrightarrow> I cm' old)"
    and "I cm old" "consistent v m"
  shows "\<exists>n. rewrite_loop (add n) v old m ch cm \<noteq> Inl OutOfFuel \<and>
    (\<forall>b cm'. rewrite_loop (add n) v old m ch cm = Inr (b, cm') \<longrightarrow> I cm' [])"
  using assms(3,4)
proof (induction old arbitrary: m ch cm)
  case (Cons ce old)
  show ?case
  proof (cases "visit v ce m")
    case None
    then show ?thesis by simp
  next
    case (Some p)
    then obtain e m' where e: "visit v ce m = Some (e, m')" "visitActual v ce = Some e" "consistent v m'"
      using visit_agrees [OF Cons.prems(2), of ce] by (cases p) (auto simp: agrees_with_def split: option.splits)
    show ?thesis
    proof (cases "e = ce")
      case True
      then show ?thesis using Cons.IH [OF kept [OF Cons.prems(1)] e(3), of ch] e(1) by simp
    next
      case False
      obtain n1 where n1: "add n1 cm e \<noteq> Inl OutOfFuel" "\<And>cm'. add n1 cm e = Inr cm' \<Longrightarrow> I cm' old"
        using added [OF Cons.prems(1) e(2) False] by blast
      show ?thesis
      proof (cases "add n1 cm e")
        case (Inl x)
        then show ?thesis using n1(1) e(1) False by (intro exI [of _ n1]) simp
      next
        case (Inr cm1)
        obtain n2 where n2: "rewrite_loop (add n2) v old m' True cm1 \<noteq> Inl OutOfFuel"
            "\<forall>b cm'. rewrite_loop (add n2) v old m' True cm1 = Inr (b, cm') \<longrightarrow> I cm' []"
          using Cons.IH [OF n1(2) [OF Inr] e(3)] by blast
        have "rewrite_loop (add (max n1 n2)) v (ce # old) m ch cm = rewrite_loop (add n2) v old m' True cm1"
          using e(1) False more_fuel [OF Inr, of "max n1 n2"] rewrite_loop_more_fuel [OF refl n2(1), of "max n1 n2"] by simp
        then show ?thesis using n2 by (intro exI [of _ "max n1 n2"]) simp
      qed
    qed
  qed
qed simp

end

interpretation additions: fuelled_addition "\<lambda>n cm x. addConstraintInternal n x None False cm"
  by unfold_locales (rule addConstraintInternal_more_fuel)

subsection \<open>Every addition returns\<close>

definition total_weight :: "expr list \<Rightarrow> nat" where
  "total_weight es = sum_list (map weight es)"

lemma total_weight_simps [simp]:
  "total_weight [] = 0" "total_weight (e # es) = weight e + total_weight es"
  "total_weight (es @ es') = total_weight es + total_weight es'"
  by (simp_all add: total_weight_def)

text \<open>The addition of \<open>e\<close> ends, and the path constraints gain at most its weight.\<close>

definition addition_ends :: "expr \<Rightarrow> array list option \<Rightarrow> bool \<Rightarrow> cmanager \<Rightarrow> bool" where
  "addition_ends e symNames cheat cm \<longleftrightarrow>
     (\<exists>n. addConstraintInternal n e symNames cheat cm \<noteq> Inl OutOfFuel \<and>
        (\<forall>cm'. addConstraintInternal n e symNames cheat cm = Inr cm' \<longrightarrow>
           total_weight (constraints cm') \<le> total_weight (constraints cm) + weight e))"

lemma record_weight:
  assumes "cm_inv A cm" "is_constraint A e" "names_ok A symNames"
  shows "\<exists>cm'. record_constraint e symNames cheat cm = Inr cm' \<and>
    total_weight (constraints cm') \<le> total_weight (constraints cm) + weight e"
  using record_constraint_spec [OF assms, of cheat] by auto

lemma conjunction_ends:
  assumes "addition_ends l None cheat cm"
    and "\<And>n cm1. addConstraintInternal n l None cheat cm = Inr cm1 \<Longrightarrow>
      total_weight (constraints cm1) \<le> total_weight (constraints cm) + weight l \<Longrightarrow> addition_ends r None cheat cm1"
  shows "addition_ends (BinaryExpr And l r) symNames cheat cm"
proof -
  obtain n1 where n1: "addConstraintInternal n1 l None cheat cm \<noteq> Inl OutOfFuel"
      "\<And>cm'. addConstraintInternal n1 l None cheat cm = Inr cm' \<Longrightarrow>
         total_weight (constraints cm') \<le> total_weight (constraints cm) + weight l"
    using assms(1) by (auto simp: addition_ends_def)
  show ?thesis
  proof (cases "addConstraintInternal n1 l None cheat cm")
    case (Inl x)
    then show ?thesis using n1(1) by (auto simp: addition_ends_def intro!: exI [of _ "Suc n1"])
  next
    case (Inr cm1)
    obtain n2 where n2: "addConstraintInternal n2 r None cheat cm1 \<noteq> Inl OutOfFuel"
        "\<And>cm'. addConstraintInternal n2 r None cheat cm1 = Inr cm' \<Longrightarrow>
           total_weight (constraints cm') \<le> total_weight (constraints cm1) + weight r"
      using assms(2) [OF Inr n1(2) [OF Inr]] by (auto simp: addition_ends_def)
    have "addConstraintInternal (Suc (max n1 n2)) (BinaryExpr And l r) symNames cheat cm =
        addConstraintInternal n2 r None cheat cm1"
      using addConstraintInternal_more_fuel [OF Inr, of "max n1 n2"]
        addConstraintInternal_more_fuel [OF refl n2(1), of "max n1 n2"] by simp
    then show ?thesis
      unfolding addition_ends_def using n2 n1(2) [OF Inr]
      by (intro exI [of _ "Suc (max n1 n2)"]) force
  qed
qed

text \<open>The loop's invariant: the constraints put back and those to come weigh no more than the old ones.\<close>

definition loop_inv :: "array set \<Rightarrow> nat \<Rightarrow> cmanager \<Rightarrow> expr list \<Rightarrow> bool" where
  "loop_inv A w cm old \<longleftrightarrow> cm_inv A cm \<and> (\<forall>e \<in> set old. is_constraint A e) \<and>
     total_weight (constraints cm) + total_weight old \<le> w"

lemma is_constraint_rewritten: "is_constraint A ce \<Longrightarrow> rewritten A P ce e \<Longrightarrow> is_constraint A e"
  by (simp add: is_constraint_def rewritten_def)

lemma equality_ends:
  assumes "cm_inv A cm" "is_constraint A (BinaryExpr Eq l r)" "names_ok A symNames" "isConstantExpr l"
    and lighter: "\<And>cm1 e. cm_inv A cm1 \<Longrightarrow> is_constraint A e \<Longrightarrow>
      total_weight (constraints cm1) + weight e < total_weight (constraints cm) \<Longrightarrow> addition_ends e None False cm1"
  shows "addition_ends (BinaryExpr Eq l r) symNames cheat cm"
proof -
  let ?v = "ExprReplaceVisitor r l" and ?I = "loop_inv A (total_weight (constraints cm))"
    and ?add = "\<lambda>n cm x. addConstraintInternal n x None False cm" and ?e = "BinaryExpr Eq l r"
  have v: "sound_visitor ?v A (\<lambda>\<sigma>. eval l \<sigma> = eval r \<sigma>)"
    by (rule replace_sound) (use assms(2) in \<open>simp_all add: is_constraint_def\<close>)
  have "?I (cm\<lparr>constraints := []\<rparr>) (constraints cm)" using assms(1) by (auto simp: loop_inv_def cm_inv_def)
  moreover have "?I (cm\<lparr>constraints := constraints cm @ [ce]\<rparr>) old" if "?I cm (ce # old)" for cm ce old
    using that by (auto simp: loop_inv_def cm_inv_def)
  moreover have "\<exists>n. ?add n cm1 e \<noteq> Inl OutOfFuel \<and> (\<forall>cm'. ?add n cm1 e = Inr cm' \<longrightarrow> ?I cm' old)"
    if I: "?I cm1 (ce # old)" "visitActual ?v ce = Some e" "e \<noteq> ce" for cm1 ce old e
  proof -
    have ce: "is_constraint A ce" "cm_inv A cm1" using I(1) by (simp_all add: loop_inv_def)
    have e: "is_constraint A e"
      using sound_visitor.visit_rewritten [OF v, of ce] ce(1) I(2) is_constraint_rewritten
      by (fastforce simp: is_constraint_def [of A ce])
    have w: "weight e < weight ce" using replace_lighter [OF assms(4) I(2)] I(3) by (simp add: lighter_def)
    then have "addition_ends e None False cm1" using I(1) e ce(2) by (intro lighter) (auto simp: loop_inv_def)
    then obtain n where n: "?add n cm1 e \<noteq> Inl OutOfFuel"
        "\<And>cm'. ?add n cm1 e = Inr cm' \<Longrightarrow> total_weight (constraints cm') \<le> total_weight (constraints cm1) + weight e"
      by (auto simp: addition_ends_def)
    have "?I cm' old" if "?add n cm1 e = Inr cm'" for cm'
    proof -
      have "cm_inv A cm'"
        using addConstraintInternal_conjoined [OF ce(2) e, of None False n] that by (auto simp: conjoined_def)
      then show ?thesis using n(2) [OF that] I(1) w by (auto simp: loop_inv_def)
    qed
    then show ?thesis using n(1) by blast
  qed
  ultimately obtain n where n: "rewriteConstraints (?add n) ?v cm \<noteq> Inl OutOfFuel"
      "\<And>b cm'. rewriteConstraints (?add n) ?v cm = Inr (b, cm') \<Longrightarrow> ?I cm' []"
    using additions.rewrite_loop_ends [of ?I ?v "cm\<lparr>constraints := []\<rparr>" "constraints cm" Map.empty False]
    unfolding rewriteConstraints_def by (smt (verit) consistent_empty)
  show ?thesis
  proof (cases "rewriteConstraints (?add n) ?v cm")
    case (Inl x)
    then show ?thesis using n(1) assms(4) by (auto simp: addition_ends_def intro!: exI [of _ "Suc n"])
  next
    case (Inr p)
    obtain b cm1 where p: "p = (b, cm1)" by force
    have I: "?I cm1 []" using n(2) Inr p by blast
    obtain cm2 where cm2: "record_constraint ?e symNames cheat cm1 = Inr cm2"
        "total_weight (constraints cm2) \<le> total_weight (constraints cm1) + weight ?e"
      using record_weight [of A cm1 ?e symNames cheat] I assms(2,3) by (auto simp: loop_inv_def)
    then have "addConstraintInternal (Suc n) ?e symNames cheat cm = Inr cm2" using Inr p assms(4) by simp
    then show ?thesis
      unfolding addition_ends_def using cm2(2) I by (intro exI [of _ "Suc n"]) (simp add: loop_inv_def del: addConstraintInternal.simps)
  qed
qed

lemma addition_returns:
  assumes "cm_inv A cm" "is_constraint A e" "names_ok A symNames"
  shows "addition_ends e symNames cheat cm"
  using assms
proof (induction "total_weight (constraints cm) + weight e" arbitrary: cm e symNames cheat rule: less_induct)
  case less
  have rec: "addition_ends e symNames cheat cm" if "\<And>n. addConstraintInternal (Suc n) e symNames cheat cm = record_constraint e symNames cheat cm"
    using record_weight [OF less.prems, of cheat] that [of 0] by (auto simp: addition_ends_def intro!: exI [of _ "Suc 0"])
  show ?case
  proof (cases e)
    case (ConstantExpr c)
    then show ?thesis by (auto simp: addition_ends_def split: if_splits intro!: exI [of _ "Suc 0"])
  next
    case (BinaryExpr k l r)
    consider "k = And" | "k = Eq" "isConstantExpr l" | "k \<noteq> And" "\<not> (k = Eq \<and> isConstantExpr l)" by blast
    then show ?thesis
    proof cases
      case 1
      have c: "is_constraint A l" "is_constraint A r"
        using less.prems(2) BinaryExpr 1 by (simp_all add: is_constraint_def)
      have "addition_ends (BinaryExpr And l r) symNames cheat cm"
      proof (rule conjunction_ends)
        show "addition_ends l None cheat cm" by (rule less.hyps) (use less.prems c BinaryExpr 1 in auto)
        fix n cm1
        assume cm1: "addConstraintInternal n l None cheat cm = Inr cm1"
          "total_weight (constraints cm1) \<le> total_weight (constraints cm) + weight l"
        have "cm_inv A cm1"
          using addConstraintInternal_conjoined [OF less.prems(1) c(1), of None cheat n] cm1(1) by (auto simp: conjoined_def)
        then show "addition_ends r None cheat cm1" by (rule less.hyps [rotated]) (use cm1 c BinaryExpr 1 in auto)
      qed
      then show ?thesis using BinaryExpr 1 by simp
    next
      case 2
      have "addition_ends (BinaryExpr Eq l r) symNames cheat cm"
        by (rule equality_ends) (use less BinaryExpr 2 in auto)
      then show ?thesis using BinaryExpr 2 by simp
    next
      case 3
      then show ?thesis using BinaryExpr by (intro rec) auto
    qed
  qed (rule rec; simp)+
qed

subsection \<open>Results that more fuel does not change\<close>

definition settles :: "(nat \<Rightarrow> cm_error + 'a) \<Rightarrow> cm_error + 'a \<Rightarrow> bool" where
  "settles f res \<longleftrightarrow> res \<noteq> Inl OutOfFuel \<and> (\<exists>n0. \<forall>n \<ge> n0. f n = res)"

lemma settlesI:
  assumes "\<And>n m res. f n = res \<Longrightarrow> res \<noteq> Inl OutOfFuel \<Longrightarrow> n \<le> m \<Longrightarrow> f m = res" "f n \<noteq> Inl OutOfFuel"
  shows "settles f (f n)"
  unfolding settles_def using assms(2) by (intro conjI exI [of _ n] allI impI) (assumption, rule assms(1) [OF refl])

lemma settles_then:
  assumes "settles f res" "\<And>x. res = Inr x \<Longrightarrow> \<exists>res'. settles (\<lambda>n. g n x) res'"
  shows "\<exists>res'. settles (\<lambda>n. and_then (f n) (g n)) res'"
proof (cases res)
  case (Inl y)
  then obtain n0 where "y \<noteq> OutOfFuel" "\<And>n. n0 \<le> n \<Longrightarrow> f n = Inl y" using assms(1) by (auto simp: settles_def)
  then show ?thesis by (auto simp: settles_def intro!: exI [of _ "Inl y"] exI [of _ n0])
next
  case (Inr x)
  obtain n1 where n1: "\<And>n. n1 \<le> n \<Longrightarrow> f n = Inr x" using assms(1) Inr by (auto simp: settles_def)
  obtain res' n2 where n2: "res' \<noteq> Inl OutOfFuel" "\<And>n. n2 \<le> n \<Longrightarrow> g n x = res'"
    using assms(2) [OF Inr] by (auto simp: settles_def)
  then show ?thesis using n1 by (auto simp: settles_def intro!: exI [of _ res'] exI [of _ "max n1 n2"])
qed

lemma addition_settles:
  assumes "cm_inv A cm" "is_constraint A e" "names_ok A symNames"
  shows "\<exists>res. settles (\<lambda>n. addConstraintInternal n e symNames cheat cm) res"
proof -
  obtain n where "addConstraintInternal n e symNames cheat cm \<noteq> Inl OutOfFuel"
    using addition_returns [OF assms, of cheat] by (auto simp: addition_ends_def)
  then show ?thesis
    using settlesI [of "\<lambda>n. addConstraintInternal n e symNames cheat cm"] addConstraintInternal_more_fuel by blast
qed

lemma settled_conjoined:
  assumes "cm_inv A cm" "is_constraint A e" "names_ok A symNames"
  obtains n0 res where "\<forall>n \<ge> n0. addConstraintInternal n e symNames cheat cm = res" "res \<noteq> Inl OutOfFuel"
    "conjoined A cheat (\<lambda>_. True) (\<lambda>\<sigma>. eval e \<sigma> = 1) cm res"
  using addition_settles [OF assms, of cheat] addConstraintInternal_conjoined [OF assms, of cheat]
  by (fastforce simp: settles_def)

text \<open>The rewriting with a sound visitor, whatever it rewrite_pass to.\<close>

definition rewrite_pass :: "nat \<Rightarrow> visitor \<Rightarrow> cmanager \<Rightarrow> cm_error + cmanager" where
  "rewrite_pass n v cm = and_then (rewriteConstraints (\<lambda>cm x. addConstraint n x None cm) v cm) (\<lambda>(_, cm). Inr cm)"

context sound_visitor
begin

lemma rewrite_pass_conjoined:
  assumes "cm_inv A cm"
  shows "conjoined A False P (\<lambda>_. True) cm (rewrite_pass n v cm)"
proof -
  have "adds_constraint A (\<lambda>cm x. addConstraint n x None cm)"
    unfolding adds_constraint_def addConstraint_def by (intro allI impI addConstraintInternal_conjoined) simp_all
  then show ?thesis unfolding rewrite_pass_def using assms by (rule rewriteConstraints_conjoined)
qed

lemma rewrite_pass_settles:
  assumes "cm_inv A cm"
  shows "\<exists>res. settles (\<lambda>n. rewrite_pass n v cm) res"
proof -
  let ?I = "\<lambda>cm old. cm_inv A cm \<and> (\<forall>e \<in> set old. is_constraint A e)"
    and ?add = "\<lambda>n cm x. addConstraintInternal n x None False cm"
  have "?I (cm\<lparr>constraints := []\<rparr>) (constraints cm)" using assms by (auto simp: cm_inv_def)
  moreover have "?I (cm\<lparr>constraints := constraints cm @ [ce]\<rparr>) old" if "?I cm (ce # old)" for cm ce old
    using that by (auto simp: cm_inv_def)
  moreover have "\<exists>n. ?add n cm1 e \<noteq> Inl OutOfFuel \<and> (\<forall>cm'. ?add n cm1 e = Inr cm' \<longrightarrow> ?I cm' old)"
    if I: "?I cm1 (ce # old)" "visitActual v ce = Some e" "e \<noteq> ce" for cm1 ce old e
  proof -
    have e: "is_constraint A e"
      using visit_rewritten [of ce] I(1,2) is_constraint_rewritten by (fastforce simp: is_constraint_def [of A ce])
    then obtain n where "?add n cm1 e \<noteq> Inl OutOfFuel"
      using addition_returns [of A cm1 e None False] I(1) by (auto simp: addition_ends_def)
    moreover have "cm_inv A cm'" if "?add n cm1 e = Inr cm'" for cm'
      using addConstraintInternal_conjoined [of A cm1 e None False n] I(1) e that by (auto simp: conjoined_def)
    ultimately show ?thesis using I(1) by auto
  qed
  ultimately obtain n where "rewriteConstraints (?add n) v cm \<noteq> Inl OutOfFuel"
    using additions.rewrite_loop_ends [of ?I v "cm\<lparr>constraints := []\<rparr>" "constraints cm" Map.empty False]
    unfolding rewriteConstraints_def by (smt (verit) consistent_empty)
  then have "settles (\<lambda>n. rewriteConstraints (?add n) v cm) (rewriteConstraints (?add n) v cm)"
    by (rule settlesI [rotated]) (auto simp: rewriteConstraints_def intro: additions.rewrite_loop_more_fuel)
  then show ?thesis
    unfolding rewrite_pass_def addConstraint_def
    by (rule settles_then) (auto simp: settles_def split: prod.split)
qed

end

lemma DoXorOptimization_passes:
  "DoXorOptimization n cm = and_then (rewrite_pass n ExtractExprVisitor cm) (\<lambda>cm.
     and_then (rewrite_pass n XorLiftVisitor cm) (rewrite_pass n XorPropagateVisitor))"
  by (simp add: DoXorOptimization_def rewrite_pass_def [abs_def] Let_def)

lemma DoXorOptimization_more_fuel:
  assumes "n \<le> m"
  shows "refines_fuel (DoXorOptimization n cm) (DoXorOptimization m cm)"
proof -
  have "refines_fuel (addConstraint n x None cm) (addConstraint m x None cm)" for x cm
    using addConstraintInternal_more_fuel [OF refl _ assms] by (auto simp: addConstraint_def refines_fuel_def)
  then have "refines_fuel (rewrite_pass n v cm) (rewrite_pass m v cm)" for v cm
    unfolding rewrite_pass_def rewriteConstraints_def by (intro refines_then refines_rewrite) simp_all
  then show ?thesis unfolding DoXorOptimization_passes by (intro refines_then)
qed

lemma DoXorOptimization_settles:
  assumes "cm_inv A cm"
  shows "\<exists>res. settles (\<lambda>n. DoXorOptimization n cm) res"
proof -
  have kept: "cm_inv A cm'" if "settles (\<lambda>n. rewrite_pass n v cm1) (Inr cm')" "cm_inv A cm1" "sound_visitor v A (\<lambda>_. True)" for v cm1 cm'
  proof -
    have "\<exists>n. rewrite_pass n v cm1 = Inr cm'" using that(1) unfolding settles_def by blast
    then obtain n where "rewrite_pass n v cm1 = Inr cm'" by blast
    then show ?thesis using sound_visitor.rewrite_pass_conjoined [OF that(3,2), of n] by (simp add: conjoined_def)
  qed
  have two: "\<exists>res. settles (\<lambda>n. and_then (rewrite_pass n XorLiftVisitor cm1) (rewrite_pass n XorPropagateVisitor)) res" if inv: "cm_inv A cm1" for cm1
  proof -
    obtain res where res: "settles (\<lambda>n. rewrite_pass n XorLiftVisitor cm1) res" using xor_lift.rewrite_pass_settles [OF inv] by blast
    then show ?thesis
      by (rule settles_then) (use res kept inv xor_lift.sound_visitor_axioms xor_propagate.rewrite_pass_settles in blast)
  qed
  obtain res where res: "settles (\<lambda>n. rewrite_pass n ExtractExprVisitor cm) res" using extract_kids.rewrite_pass_settles [OF assms] by blast
  then show ?thesis
    unfolding DoXorOptimization_passes
    by (rule settles_then) (use res kept assms extract_kids.sound_visitor_axioms two in blast)
qed

subsection \<open>Properties\<close>

text \<open>
  C2. \<open>addConstraint\<close> returns and conjoins. All constraints are boolean, well formed and without
  division or remainder nodes (\<open>is_constraint\<close>), their arrays have their union-find elements, and the
  names passed, if any, are such arrays. Then from some fuel on the result is one and the same,
  nothing undefined happens, the invariant and the cheat constraints are kept, and the path
  constraints hold in exactly the array contents in which they did before and the new one does. The
  assertion against false constraints fails only when no array contents satisfy both.
\<close>

theorem addConstraint_conjoins:
  assumes "cm_inv A cm" "is_constraint A e" "names_ok A symNames"
  shows "\<exists>n0 res. (\<forall>n \<ge> n0. addConstraint n e symNames cm = res) \<and>
    (case res of
        Inr cm' \<Rightarrow> cm_inv A cm' \<and> cheatConstraints cm' = cheatConstraints cm \<and>
          (\<forall>\<sigma>. env_ok \<sigma> \<longrightarrow> holds (constraints cm') \<sigma> = (holds (constraints cm) \<sigma> \<and> eval e \<sigma> = 1))
      | Inl InvalidConstraint \<Rightarrow> \<not> (\<exists>\<sigma>. env_ok \<sigma> \<and> holds (constraints cm) \<sigma> \<and> eval e \<sigma> = 1)
      | Inl Undefined \<Rightarrow> False
      | Inl OutOfFuel \<Rightarrow> False)"
proof -
  obtain n0 res where "\<forall>n \<ge> n0. addConstraintInternal n e symNames False cm = res" "res \<noteq> Inl OutOfFuel"
    "conjoined A False (\<lambda>_. True) (\<lambda>\<sigma>. eval e \<sigma> = 1) cm res"
    by (rule settled_conjoined [OF assms, of False])
  then show ?thesis
    unfolding addConstraint_def
    by (intro exI [of _ n0] exI [of _ res]) (auto simp: conjoined_def path_def split: sum.splits cm_error.splits)
qed

lemma settled_result:
  assumes "\<exists>n0 res. (\<forall>n \<ge> n0. f n = res) \<and>
      (case res of Inr cm' \<Rightarrow> Q cm' | Inl InvalidConstraint \<Rightarrow> R | Inl Undefined \<Rightarrow> False | Inl OutOfFuel \<Rightarrow> False)" "\<not> R"
  shows "\<exists>n0 cm'. (\<forall>n \<ge> n0. f n = Inr cm') \<and> Q cm'"
  using assms by (force split: sum.splits cm_error.splits)

lemma sample_equality:
  "0 \<le> c \<Longrightarrow> c < 256 \<Longrightarrow> i < 4 \<Longrightarrow> is_constraint {sample_array} (BinaryExpr Eq (ConstantExpr (APInt 8 c)) (sample_read i))"
  by (simp add: is_constraint_def wf_apint_def in_width_def) (simp add: sample_read_def)

theorem addConstraint_conjoins_witness:
  "\<exists>n0 cm'. (\<forall>n \<ge> n0. addConstraint n (BinaryExpr Eq (ConstantExpr (APInt 8 200)) (sample_read 0)) None
      (sample_cm [sample_lt 0 210, sample_lt 1 220]) = Inr cm') \<and> holds (constraints cm') sample_env"
proof -
  let ?e = "BinaryExpr Eq (ConstantExpr (APInt 8 200)) (sample_read 0)" and ?cm = "sample_cm [sample_lt 0 210, sample_lt 1 220]"
  have inv: "cm_inv {sample_array} ?cm" by (intro sample_cm_inv) (simp add: sample_constraint)
  have h: "holds (constraints ?cm) sample_env" "eval ?e sample_env = 1" "env_ok sample_env"
    using sample_simps(5) by (simp_all add: sample_cm_def sample_lt_def)
  have c: "is_constraint {sample_array} ?e" and names: "names_ok {sample_array} None" by (simp_all add: sample_equality)
  show ?thesis
    using settled_result [OF addConstraint_conjoins [OF inv c names]] h by blast
qed

text \<open>
  The condition on divisions is needed: with the divisor \<open>y\<close> in a path constraint, adding \<open>y = 0\<close>
  rebuilds a division of constants by zero, which fails an assertion.
\<close>

lemma zero_divisor_substituted:
  "addConstraint 9 (BinaryExpr Eq (ConstantExpr (APInt 8 0)) (sample_read 0)) None
     (sample_cm [BinaryExpr Ult (BinaryExpr UDiv (ConstantExpr (APInt 8 5)) (sample_read 0)) (ConstantExpr (APInt 8 3))]) =
   Inl Undefined"
  by code_simp

text \<open>
  \<open>addCheatConstraint\<close> returns and conjoins to the path and the cheat constraints taken together,
  under the same conditions on the constraints (boolean, well formed, without division).
\<close>

theorem addCheatConstraint_conjoins:
  assumes "cm_inv A cm" "is_constraint A e"
  shows "\<exists>n0 res. (\<forall>n \<ge> n0. addCheatConstraint n e cm = res) \<and>
    (case res of
        Inr cm' \<Rightarrow> cm_inv A cm' \<and>
          (\<forall>\<sigma>. env_ok \<sigma> \<longrightarrow> holds (constraints cm' @ cheatConstraints cm') \<sigma> =
            (holds (constraints cm @ cheatConstraints cm) \<sigma> \<and> eval e \<sigma> = 1))
      | Inl InvalidConstraint \<Rightarrow>
          \<not> (\<exists>\<sigma>. env_ok \<sigma> \<and> holds (constraints cm @ cheatConstraints cm) \<sigma> \<and> eval e \<sigma> = 1)
      | Inl Undefined \<Rightarrow> False
      | Inl OutOfFuel \<Rightarrow> False)"
proof -
  obtain n0 res where "\<forall>n \<ge> n0. addConstraintInternal n e None True cm = res" "res \<noteq> Inl OutOfFuel"
    "conjoined A True (\<lambda>_. True) (\<lambda>\<sigma>. eval e \<sigma> = 1) cm res"
    by (rule settled_conjoined [OF assms, of None True]) simp_all
  then show ?thesis
    unfolding addCheatConstraint_def
    by (intro exI [of _ n0] exI [of _ res]) (auto simp: conjoined_def path_def split: sum.splits cm_error.splits)
qed

theorem addCheatConstraint_conjoins_witness:
  "\<exists>n0 cm'. (\<forall>n \<ge> n0. addCheatConstraint n (BinaryExpr Eq (ConstantExpr (APInt 8 200)) (sample_read 0))
      (sample_cm [sample_lt 0 210]) = Inr cm') \<and> holds (constraints cm' @ cheatConstraints cm') sample_env"
proof -
  let ?e = "BinaryExpr Eq (ConstantExpr (APInt 8 200)) (sample_read 0)" and ?cm = "sample_cm [sample_lt 0 210]"
  have inv: "cm_inv {sample_array} ?cm" by (intro sample_cm_inv) (simp add: sample_constraint)
  have h: "holds (constraints ?cm @ cheatConstraints ?cm) sample_env" "eval ?e sample_env = 1" "env_ok sample_env"
    using sample_simps(5) by (simp_all add: sample_cm_def sample_lt_def)
  have c: "is_constraint {sample_array} ?e" by (rule sample_equality) simp_all
  show ?thesis
    using settled_result [OF addCheatConstraint_conjoins [OF inv c]] h by blast
qed

text \<open>
  C29. \<open>DoXorOptimization\<close> returns and keeps what the constraints say. For boolean, well-formed constraints
  without division whose arrays have their union-find elements, from some fuel on the result is one
  and the same, nothing undefined happens, the path constraints hold in the same array contents as
  before, and the assertion against false constraints fails only when they hold in none.
\<close>

theorem DoXorOptimization_sound:
  assumes "cm_inv A cm"
  shows "\<exists>n0 res. (\<forall>n \<ge> n0. DoXorOptimization n cm = res) \<and>
    (case res of
        Inr cm' \<Rightarrow> cm_inv A cm' \<and> cheatConstraints cm' = cheatConstraints cm \<and>
          (\<forall>\<sigma>. env_ok \<sigma> \<longrightarrow> holds (constraints cm') \<sigma> = holds (constraints cm) \<sigma>)
      | Inl InvalidConstraint \<Rightarrow> \<not> (\<exists>\<sigma>. env_ok \<sigma> \<and> holds (constraints cm) \<sigma>)
      | Inl Undefined \<Rightarrow> False
      | Inl OutOfFuel \<Rightarrow> False)"
proof -
  let ?T = "\<lambda>_. True"
  have c: "conjoined A False ?T (\<lambda>\<sigma>. True \<and> (True \<and> True)) cm (DoXorOptimization n cm)" for n
    unfolding DoXorOptimization_passes
    by (intro conjoined_then [of A False ?T] extract_kids.rewrite_pass_conjoined xor_lift.rewrite_pass_conjoined
        xor_propagate.rewrite_pass_conjoined assms)
  obtain n0 res where res: "\<forall>n \<ge> n0. DoXorOptimization n cm = res" "res \<noteq> Inl OutOfFuel"
    using DoXorOptimization_settles [OF assms] by (auto simp: settles_def)
  then show ?thesis
    using c [of n0] by (intro exI [of _ n0] exI [of _ res]) (auto simp: conjoined_def path_def split: sum.splits cm_error.splits)
qed

definition sample_xor :: expr where
  "sample_xor = BinaryExpr Eq (ConstantExpr (APInt 8 205)) (BinaryExpr Xor (ConstantExpr (APInt 8 5)) (sample_read 0))"

lemma sample_xor_lifted:
  "case DoXorOptimization 5 (sample_cm [sample_xor, sample_lt 1 220]) of
     Inr cm \<Rightarrow> constraints cm = [BinaryExpr Eq (ConstantExpr (APInt 8 200)) (sample_read 0), sample_lt 1 220]
   | Inl _ \<Rightarrow> False"
  by code_simp

theorem DoXorOptimization_sound_witness:
  "\<exists>n0 cm'. (\<forall>n \<ge> n0. DoXorOptimization n (sample_cm [sample_xor, sample_lt 1 220]) = Inr cm') \<and>
     constraints cm' = [BinaryExpr Eq (ConstantExpr (APInt 8 200)) (sample_read 0), sample_lt 1 220] \<and>
     holds (constraints cm') sample_env"
proof -
  let ?cm = "sample_cm [sample_xor, sample_lt 1 220]"
  have "is_constraint {sample_array} sample_xor"
    by (simp add: sample_xor_def is_constraint_def wf_apint_def in_width_def) (simp add: sample_read_def)
  then have inv: "cm_inv {sample_array} ?cm" by (intro sample_cm_inv) (simp add: sample_constraint)
  have h: "holds (constraints ?cm) sample_env" "env_ok sample_env"
    using sample_simps(5) by (simp_all add: sample_cm_def sample_lt_def sample_xor_def)
  obtain n0 cm' where res: "\<And>n. n0 \<le> n \<Longrightarrow> DoXorOptimization n ?cm = Inr cm'" "holds (constraints cm') sample_env"
    using settled_result [OF DoXorOptimization_sound [OF inv]] h by blast
  have "refines_fuel (DoXorOptimization 5 ?cm) (DoXorOptimization (max 5 n0) ?cm)" by (rule DoXorOptimization_more_fuel) simp
  then have "constraints cm' = [BinaryExpr Eq (ConstantExpr (APInt 8 200)) (sample_read 0), sample_lt 1 220]"
    using sample_xor_lifted res(1) [of "max 5 n0"] by (auto simp: refines_fuel_def split: sum.splits)
  then show ?thesis using res by blast
qed

end
