(* ===== verification/Spec2Isabelle.thy ===== *)
theory Spec2Isabelle
  imports Evaluator Int_Eval Builder_Stack Independent_Solver Immutable_Tree Memory_Properties Solver_Chain Memory_Copies
    Implied_Value Independent_Values Signed_Division_Constants Constraint_Termination
begin

text \<open>
  A verification of the symbolic core of the behavioural verifier: the parts of its fork of KLEE, under
  \<^verbatim>\<open>src/klee\<close>, that build and simplify symbolic expressions, keep path constraints, ask solvers,
  represent memory and resolve addresses.

  \<^bold>\<open>The program.\<close> The verifier runs a program natively and symbolically in turn (TASE). Symbolic values
  are expressions over arrays of unknown bytes. Every instruction builds expressions through
  canonicalising constructors; branches add constraints to a constraint manager, which rewrites the
  constraints it has; a query asks whether an expression follows from the constraints and goes through a
  chain of solvers that split, cache and check queries before a core solver (STP or Z3) decides it.
  Memory objects hold bytes that are concrete or symbolic; symbolic bytes are marked in the program's own
  memory by a tag, so that native execution notices them. An address expression is resolved to the
  objects it may point into with the help of the solver.

  \<^bold>\<open>Conventions.\<close> Classes are records or datatypes with the members' names. A value of \<open>w\<close> bits of an
  \<open>APInt\<close> is an integer with its width, reduced with \<open>take_bit w\<close>; \<open>uint64_t\<close> and \<open>unsigned\<close> in bit
  manipulations and addresses are words. A failed assertion, undefined behaviour (an index outside a
  vector, a null pointer, a missing return) and \<open>exit\<close> are \<open>None\<close>, or an error of a sum type where the
  cause matters. Mutable state is passed on explicitly. Expressions are compared by structure, which
  \<open>Expr_Compare\<close> shows to be what \<open>compare\<close> decides; reference counts, statistics, timers, logging and
  printing are left out, and so are hash values, except in \<open>Expr_Compare\<close>. Options of the command
  line are fields or arguments, except \<open>ConstArrayOpt\<close>, which is off, and \<open>RewriteEqualities\<close> and the flag
  \<open>useUF\<close> of the constraint manager, which are on; these are their defaults.

  \<^bold>\<open>Expressions\<close> (\<^verbatim>\<open>include/klee/Expr.h\<close>, \<^verbatim>\<open>lib/Expr/Expr.cpp\<close>). \<open>Constant_Expr\<close> has the constants and
  their operators, \<open>Expr_Data\<close> the expressions, update lists and arrays with widths, well-formedness and
  the value \<open>eval\<close> of an expression under a content of the arrays. \<open>Expr_Create\<close>, \<open>Expr_Arith\<close>,
  \<open>Expr_Linear\<close> and \<open>Expr_Bits\<close> are the \<open>create\<close> methods with their partial constructors; the mutual
  recursion of sums and differences ends by a measure on sizes. \<open>Expr_Spec\<close> is their contract (locale
  \<open>sound_binary\<close>): they return, the result is well formed and has the value of the operator.
  \<open>Expr_Rebuild\<close> is the choice by kind. \<open>Expr_NoDiv\<close> shows that no division and no array appears,
  \<open>Expr_Weight\<close> that a constructor's result weighs no more than the node it stands for.
  \<open>Expr_Compare\<close> is the order and the hash of expressions; the hash of an \<open>APInt\<close> (LLVM) and the
  addresses of arrays are its parameters. \<open>Expr_Util\<close> has the searches of \<^verbatim>\<open>lib/Expr/ExprUtil.cpp\<close>.
  \<open>Expr_Builder\<close> and \<open>Builder_Stack\<close> are the builders of \<^verbatim>\<open>lib/Expr/ExprBuilder.cpp\<close> and their
  stacking. \<open>Evaluator\<close> is the evaluation under assignments (\<^verbatim>\<open>lib/Expr/ExprEvaluator.cpp\<close>,
  \<^verbatim>\<open>include/klee/util/Assignment.h\<close>), \<open>Int_Eval\<close> the integer helpers on machine words.
  \<open>Implied_Value\<close> derives the values of reads from the value of an expression (\<^verbatim>\<open>lib/Core/ImpliedValue.cpp\<close>).

  \<^bold>\<open>Constraints\<close> (\<^verbatim>\<open>lib/Expr/ExprVisitor.cpp\<close>, \<^verbatim>\<open>lib/Expr/Constraints.cpp\<close>). \<open>Visitor\<close> is the traversal
  with its map of visited expressions, which does not show in the result; the locale \<open>sound_visitor\<close> is
  the contract of a visitor. \<open>Constraint_Visitors\<close> has the visitors, \<open>Union_Find\<close> the union-find of
  arrays with constraints, \<open>Constraint_Manager\<close> the manager. It adds again what it rewrites, so
  \<open>addConstraint\<close> has fuel and running out of it is an error of its own. \<open>Constraint_Termination\<close> shows that
  for constraints without division every call ends: a substitution of a constant makes constraints
  lighter, so the weight of all constraints bounds the nesting (locale \<open>fuelled_addition\<close>), and from some
  fuel on the result is the same. \<open>Simplify_Expr\<close> is \<open>simplifyExpr\<close> with the recursive traversal, a partial
  function (\<open>None\<close> is also a traversal that does not end); what it returns has the same value (locale
  \<open>simplifying_visitor\<close>), and without division it returns (locale \<open>lightening_visitor\<close>).

  \<^bold>\<open>Memory\<close> (\<^verbatim>\<open>lib/Core/Memory.h\<close>, \<^verbatim>\<open>lib/Core/Memory.cpp\<close>, \<^verbatim>\<open>lib/Core/AddressSpace.cpp\<close>). \<open>Bit_Array\<close> has
  the masks, \<open>Array_Cache\<close> the creation of arrays, \<open>Object_State\<close> the state of an object and its
  operations on bytes, \<open>Object_Access\<close> reads and writes of several bytes with the tags of TASE. The store
  of an object made for TASE is the program's memory at the object's address, so writing a tag is writing
  the store; the check for tags in a buffer computes differences of pointers to 16-bit words, which are
  undefined for an odd number of bytes. \<open>Object_Bytes\<close>, \<open>Object_Reads\<close> and \<open>Object_Values\<close> show that an object is an array of
  bytes under the invariant of its three caches, \<open>Object_Poison\<close> and \<open>Poison_Invariant\<close> that the tags
  stay on the symbolic bytes, \<open>Memory_Properties\<close> the results. \<open>Immutable_Tree\<close> and \<open>Tree_Iteration\<close>
  are the balanced tree of \<^verbatim>\<open>include/klee/Internal/ADT/ImmutableTree.h\<close> with its iterators (locale
  \<open>immutable_map\<close>); loops over iterators have as many steps as the tree has nodes, which is enough.
  \<open>Address_Space\<close> maps objects to states and resolves addresses, \<open>Address_Resolution\<close> shows which
  objects a resolution finds, \<open>Memory_Copies\<close> what the copies to and from memory do.

  \<^bold>\<open>Solvers\<close> (\<^verbatim>\<open>lib/Solver\<close>, \<^verbatim>\<open>include/klee/Solver.h\<close>). \<open>Solver_Query\<close> and \<open>Solver_Front\<close> give queries
  their meaning; a solver implementation is a record of its four virtual methods on a state, and the
  locale \<open>solver_contract\<close> says what their answers mean, for solvers that may fail on a query and for those
  that never do. A core solver is an argument with this contract as hypothesis, and the incomplete
  solver of the stages is an argument too; \<open>Complete_Solver\<close> has a solver that meets the contract and never
  fails. \<open>Solver_Range\<close> is
  \<open>getRange\<close> with its binary searches, which end by a measure. \<open>Caching_Solver\<close>, \<open>Map_Of_Sets\<close>,
  \<open>Cex_Caching_Solver\<close> and \<open>Solver_Chain\<close> are the layers of the chain and their composition;
  \<open>Independent_Solver\<close> is the splitting of constraints, \<open>Independent_Values\<close> its search for initial values by
  factors; \<open>Constant_Division\<close> and \<open>Signed_Division_Constants\<close> have the constants of multiplications and divisions
  (\<^verbatim>\<open>lib/Solver/ConstantDivision.cpp\<close>), a loop that may run forever being a partial function; \<open>Timing_Solver\<close> is what the executor calls
  (\<^verbatim>\<open>lib/Core/TimingSolver.cpp\<close>). Each layer keeps the contract, so the chain does.

  \<^bold>\<open>What is shown.\<close> Constructors, builders, rebuilding and the optimisations keep the value of expressions
  (C1, C22, C23, and the others on expressions). Adding constraints returns, they are conjoined and nothing
  is lost (C2), and the xor rewriting returns and keeps the contents in which they hold (C29);
  \<open>simplifyExpr\<close> returns and keeps the value where the constraints hold (C21). Objects implement arrays of
  bytes: writes, reads and their round trip (C3, C4, C5). The tree implements an ordered map (C6, C7, C8).
  A resolution finds exactly the objects an address may lie in (C9, C10). The solver chain answers as the
  query demands and fails only if the core may (C12), \<open>getRange\<close> is exact (C13), implied values hold (C16),
  and the constants of \<open>Constant_Division\<close> compute products and quotients (C17, C18, C19). Some properties
  state exactly where the code does not do what it means to: the set operation, the union-find lookup
  and the factors of the independent solver (C37, C38, C40).

  \<^bold>\<open>Conditions.\<close> Constraints and queries are well formed, of one bit where they are boolean, and without
  division and remainder nodes: substituting zero for a divisor fails an assertion
  (\<open>zero_divisor_substituted\<close>). Queries are also without \<open>NotOptimized\<close> nodes, and their constraints are
  satisfiable. Constant offsets of reads of several bytes are even, and a 2-byte write of a
  non-constant expression at an even offset has no constant byte (\<open>constant_half_overwritten\<close>). Implied values
  exclude \<open>Or\<close>, \<open>Ne\<close> and selections between equal constants (\<open>disjunction_passes_null\<close>). Elements of the
  union-find are destroyed only while they are the last one (\<open>destroy_dangling\<close>).

  \<^bold>\<open>Not modelled.\<close> The executor (\<^verbatim>\<open>lib/Core/Executor.cpp\<close>) and the models of library calls
  (\<^verbatim>\<open>lib/Tase\<close>) work on LLVM data structures, registers, processes and the memory of the traced program.
  The parser and the printers of \<^verbatim>\<open>lib/Expr\<close> are text input and output. The core solvers call the
  libraries STP and Z3. The layers \<open>FastCexSolver\<close>, \<open>CanonicalSolver\<close>, \<open>ValidatingSolver\<close> and the logging
  solvers are not part of the modelled chain. Tools, the POSIX runtime and support code are input and output.
\<close>

end
